(* ===== verification/Prelude.thy ===== *)
theory Prelude
  imports Main "HOL-Library.Multiset" "HOL-Library.Char_ord" "HOL-Library.List_Lexorder"
    "HOL-Library.Product_Lexorder"
begin

text \<open>
  Shared vocabulary of the development: the part of Python's strings, dictionaries and list
  functions that the modelled modules use, and the generic facts about them.

  A Python \<open>str\<close> is a \<open>string\<close> (a character list), and Python's order on strings is the
  lexicographic order of \<open>List_Lexorder\<close> over \<open>Char_ord\<close>; a tuple used as a sort key is a
  product ordered by \<open>Product_Lexorder\<close>.  A \<open>dict\<close> keeps its insertion order, so it is an
  association list with distinct keys.  \<open>sorted(xs, key=f)\<close> and \<open>list.sort(key=f)\<close> are stable,
  as \<open>sort_key f xs\<close> is.
\<close>

named_theorems dict_simps \<open>lookups in insertion-ordered dictionaries\<close>
named_theorems str_simps \<open>string functions on the pieces an id is built from\<close>

section \<open>Errors\<close>

text \<open>A call that may raise returns \<open>Inl\<close> the error or \<open>Inr\<close> the value.\<close>

type_synonym ('e, 'a) result = "'e + 'a"

section \<open>Strings\<close>

definition is_digit :: "char \<Rightarrow> bool" where
  "is_digit c \<longleftrightarrow> 48 \<le> (of_char c :: nat) \<and> (of_char c :: nat) \<le> 57"

text \<open>\<open>str.isdigit\<close> on ASCII text: non-empty, every character a decimal digit.\<close>

definition isdigit :: "string \<Rightarrow> bool" where
  "isdigit s \<longleftrightarrow> s \<noteq> [] \<and> list_all is_digit s"

text \<open>\<open>int(s)\<close> of a string of decimal digits.\<close>

definition parse_nat :: "string \<Rightarrow> int" where
  "parse_nat s = foldl (\<lambda>a c. a * 10 + (int (of_char c) - 48)) 0 s"

fun show_nat :: "nat \<Rightarrow> string" where
  "show_nat n = (if n < 10 then [char_of (48 + n)]
                 else show_nat (n div 10) @ [char_of (48 + n mod 10)])"

declare show_nat.simps [simp del]

definition show_int :: "int \<Rightarrow> string" where
  "show_int i = (if i < 0 then CHR ''-'' # show_nat (nat (- i)) else show_nat (nat i))"

text \<open>\<open>str.split(sep)\<close> for a one-character separator; \<open>sep.join(parts)\<close>.\<close>

fun split_on :: "char \<Rightarrow> string \<Rightarrow> string list" where
  "split_on c [] = [[]]"
| "split_on c (x # xs) =
     (if x = c then [] # split_on c xs
      else case split_on c xs of [] \<Rightarrow> [[x]] | w # ws \<Rightarrow> (x # w) # ws)"

fun join_with :: "string \<Rightarrow> string list \<Rightarrow> string" where
  "join_with sep [] = []"
| "join_with sep [w] = w"
| "join_with sep (w # v # ws) = w @ sep @ join_with sep (v # ws)"

definition is_space :: "char \<Rightarrow> bool" where
  "is_space c \<longleftrightarrow> (let n = (of_char c :: nat) in 9 \<le> n \<and> n \<le> 13 \<or> 28 \<le> n \<and> n \<le> 32)"

text \<open>\<open>str.strip()\<close>, \<open>str.startswith\<close>, \<open>str.removeprefix\<close> and \<open>str.lower\<close>, on ASCII text.\<close>

definition strip :: "string \<Rightarrow> string" where
  "strip s = rev (dropWhile is_space (rev (dropWhile is_space s)))"

definition starts_with :: "string \<Rightarrow> string \<Rightarrow> bool" where
  "starts_with p s \<longleftrightarrow> take (length p) s = p"

definition removeprefix :: "string \<Rightarrow> string \<Rightarrow> string" where
  "removeprefix p s = (if starts_with p s then drop (length p) s else s)"

definition lower_char :: "char \<Rightarrow> char" where
  "lower_char c =
     (let n = (of_char c :: nat) in if 65 \<le> n \<and> n \<le> 90 then char_of (n + 32) else c)"

definition lower :: "string \<Rightarrow> string" where
  "lower = map lower_char"

lemma starts_with_append [simp, str_simps]: "starts_with p (p @ s)"
  by (simp add: starts_with_def)

lemma removeprefix_append [simp, str_simps]: "removeprefix p (p @ s) = s"
  by (simp add: removeprefix_def)

lemma split_on_nonempty [simp]: "split_on c s \<noteq> []"
  by (induction s) (auto split: list.splits)

lemma split_on_no_sep: "c \<notin> set w \<Longrightarrow> split_on c w = [w]"
  by (induction w) auto

lemma split_on_append:
  "c \<notin> set w \<Longrightarrow> split_on c (w @ c # s) = w # split_on c s"
  by (induction w) auto

lemma split_on_join_with:
  "ws \<noteq> [] \<Longrightarrow> \<forall>w \<in> set ws. c \<notin> set w \<Longrightarrow> split_on c (join_with [c] ws) = ws"
proof (induction ws)
  case (Cons w ws)
  then show ?case by (cases ws) (simp_all add: split_on_no_sep split_on_append)
qed simp

lemma join_split [simp, str_simps]: "join_with [c] (split_on c s) = s"
proof (induction s)
  case (Cons x s)
  then show ?case by (cases "split_on c s"; cases "tl (split_on c s)") auto
qed simp

lemma split_on_sepfree: "w \<in> set (split_on c s) \<Longrightarrow> c \<notin> set w"
  by (induction s arbitrary: w) (auto split: list.splits if_splits)

lemma set_join_with: "set (join_with sep ws) \<subseteq> set sep \<union> \<Union> (set ` set ws)"
  by (induction sep ws rule: join_with.induct) auto

lemma join_with_inj:
  assumes "join_with [c] xs = join_with [c] ys" "xs \<noteq> []" "ys \<noteq> []"
    and "\<forall>w \<in> set xs \<union> set ys. c \<notin> set w"
  shows "xs = ys"
proof -
  have "split_on c (join_with [c] xs) = xs" "split_on c (join_with [c] ys) = ys"
    using assms(2-4) by (simp_all add: split_on_join_with)
  with assms(1) show ?thesis by metis
qed

lemma is_digit_char_of: "n < 10 \<Longrightarrow> is_digit (char_of (48 + n :: nat))"
  by (simp add: is_digit_def of_char_of)

lemma show_nat_nonempty [simp]: "show_nat n \<noteq> []"
  by (subst show_nat.simps) simp

lemma show_nat_digits: "\<forall>c \<in> set (show_nat n). is_digit c"
proof (induction n rule: show_nat.induct)
  case (1 n)
  then show ?case
    by (subst show_nat.simps) (auto simp: is_digit_char_of simp del: char_of_nat)
qed

lemma isdigit_show_nat: "isdigit (show_nat n)"
  by (simp add: isdigit_def list_all_iff show_nat_digits)

lemma parse_show_nat: "parse_nat (show_nat n) = int n"
proof (induction n rule: show_nat.induct)
  case (1 n)
  show ?case
  proof (cases "n < 10")
    case True
    then show ?thesis by (subst show_nat.simps) (simp add: parse_nat_def of_char_of)
  next
    case False
    then have "parse_nat (show_nat (n div 10)) = int (n div 10)" using 1 by simp
    with False show ?thesis
      by (subst show_nat.simps) (simp add: parse_nat_def of_char_of, presburger)
  qed
qed

lemma parse_nat_nonneg: "list_all is_digit s \<Longrightarrow> 0 \<le> parse_nat s"
proof -
  have "0 \<le> foldl (\<lambda>a c. a * 10 + (int (of_char c) - 48)) a s"
    if "list_all is_digit s" "0 \<le> a" for a :: int
    using that
  proof (induction s arbitrary: a)
    case (Cons c s)
    then have "0 \<le> a * 10 + (int (of_char c) - 48)" by (auto simp: is_digit_def)
    with Cons show ?case by simp
  qed simp
  then show "list_all is_digit s \<Longrightarrow> 0 \<le> parse_nat s" by (simp add: parse_nat_def)
qed

lemma show_int_digits: "c \<in> set (show_int i) \<Longrightarrow> is_digit c \<or> c = CHR ''-''"
  using show_nat_digits by (auto simp: show_int_def split: if_splits)

section \<open>Dictionaries\<close>

text \<open>
  A dictionary is an association list with distinct keys in insertion order.  \<open>dict_get d k v\<close>
  is \<open>d.get(k, v)\<close> (and \<open>d[k]\<close> of a \<open>defaultdict\<close> whose factory gives \<open>v\<close>), \<open>dict_set\<close> is
  \<open>d[k] = v\<close>: it keeps the position of a key that is already there and appends a new one.
\<close>

type_synonym ('k, 'v) dict = "('k \<times> 'v) list"

definition dict_get :: "('k, 'v) dict \<Rightarrow> 'k \<Rightarrow> 'v \<Rightarrow> 'v" where
  "dict_get d k v = (case map_of d k of None \<Rightarrow> v | Some x \<Rightarrow> x)"

abbreviation dict_keys :: "('k, 'v) dict \<Rightarrow> 'k list" where
  "dict_keys d \<equiv> map fst d"

abbreviation dict_wf :: "('k, 'v) dict \<Rightarrow> bool" where
  "dict_wf d \<equiv> distinct (map fst d)"

definition dict_mem :: "'k \<Rightarrow> ('k, 'v) dict \<Rightarrow> bool" where
  "dict_mem k d \<longleftrightarrow> map_of d k \<noteq> None"

fun dict_set :: "'k \<Rightarrow> 'v \<Rightarrow> ('k, 'v) dict \<Rightarrow> ('k, 'v) dict" where
  "dict_set k v [] = [(k, v)]"
| "dict_set k v ((k', v') # d) = (if k = k' then (k, v) # d else (k', v') # dict_set k v d)"

definition dict_update :: "('k, 'v) dict \<Rightarrow> ('k, 'v) dict \<Rightarrow> ('k, 'v) dict" where
  "dict_update d e = foldl (\<lambda>a (k, v). dict_set k v a) d e"

lemma map_of_dict_set [simp, dict_simps]: "map_of (dict_set k v d) = (map_of d)(k \<mapsto> v)"
  by (induction k v d rule: dict_set.induct) auto

lemma keys_dict_set: "set (dict_keys (dict_set k v d)) = insert k (set (dict_keys d))"
  by (induction k v d rule: dict_set.induct) auto

lemma dict_wf_set [simp]: "dict_wf d \<Longrightarrow> dict_wf (dict_set k v d)"
  by (induction k v d rule: dict_set.induct) (auto simp: keys_dict_set[unfolded set_map])

lemma dict_mem_keys: "dict_mem k d \<longleftrightarrow> k \<in> set (dict_keys d)"
  by (auto simp: dict_mem_def map_of_eq_None_iff)

lemma dict_mem_set [simp, dict_simps]: "dict_mem k (dict_set k' v d) \<longleftrightarrow> k = k' \<or> dict_mem k d"
  by (simp add: dict_mem_def)

lemma dict_get_set [simp, dict_simps]:
  "dict_get (dict_set k' v d) k u = (if k = k' then v else dict_get d k u)"
  by (simp add: dict_get_def)

lemma map_of_dict_update:
  "map_of (dict_update d e) = (\<lambda>k. case map_of (rev e) k of Some v \<Rightarrow> Some v | None \<Rightarrow> map_of d k)"
proof (induction e arbitrary: d)
  case Nil
  then show ?case by (simp add: dict_update_def)
next
  case (Cons kv e)
  obtain k v where kv: "kv = (k, v)" by fastforce
  have "map_of (dict_update d (kv # e)) = map_of (dict_update (dict_set k v d) e)"
    by (simp add: dict_update_def kv)
  also have "\<dots> = (\<lambda>j. case map_of (rev e) j of Some u \<Rightarrow> Some u | None \<Rightarrow> map_of (dict_set k v d) j)"
    by (rule Cons)
  finally show ?case
    by (auto simp: kv map_add_def fun_eq_iff split: option.splits)
qed

lemma dict_wf_update [simp]: "dict_wf d \<Longrightarrow> dict_wf (dict_update d e)"
  by (induction e arbitrary: d) (auto simp: dict_update_def split: prod.splits)

lemma dict_wf_mset: "dict_wf d \<Longrightarrow> mset d = mset e \<Longrightarrow> dict_wf e"
proof -
  assume d: "dict_wf d" and m: "mset d = mset e"
  have "mset (map fst d) = mset (map fst e)" unfolding mset_map m ..
  with d show "dict_wf e" using mset_eq_imp_distinct_iff by blast
qed

lemma map_of_mset:
  assumes "dict_wf d" "mset d = mset e"
  shows "map_of d = map_of e"
proof -
  have "set d = set e" using assms(2) by (rule mset_eq_setD)
  then show ?thesis using map_of_inject_set [OF assms(1) dict_wf_mset [OF assms]] by simp
qed

text \<open>The laws of a dictionary, whoever stores it.\<close>

locale dictionary =
  fixes empty_d :: "'d" and get_d :: "'d \<Rightarrow> 'k \<Rightarrow> 'v option" and put_d :: "'k \<Rightarrow> 'v \<Rightarrow> 'd \<Rightarrow> 'd"
  assumes get_empty: "get_d empty_d k = None"
    and get_put: "get_d (put_d k v d) j = (if j = k then Some v else get_d d j)"
begin

lemma put_put_same: "get_d (put_d k v (put_d k u d)) = get_d (put_d k v d)"
  by (simp add: get_put fun_eq_iff)

lemma put_commute: "j \<noteq> k \<Longrightarrow> get_d (put_d j u (put_d k v d)) = get_d (put_d k v (put_d j u d))"
  by (simp add: get_put fun_eq_iff)

lemma get_foldl_put:
  "get_d (foldl (\<lambda>d x. put_d (f x) (g x) d) d xs) k =
     (case rev (filter (\<lambda>x. f x = k) xs) of [] \<Rightarrow> get_d d k | x # _ \<Rightarrow> Some (g x))"
proof (induction xs rule: rev_induct)
  case (snoc x xs)
  then show ?case by (auto simp: get_put)
qed simp

end

interpretation pydict: dictionary "[]" map_of dict_set
  by unfold_locales auto

section \<open>Grouping into a defaultdict of lists\<close>

text \<open>
  The idiom \<^verbatim>\<open>groups = defaultdict(list); for x in xs: groups[f(x)].append(x)\<close>: the
  keys appear in the order of their first element, each group keeps the order of \<open>xs\<close>.
\<close>

fun add_group :: "'k \<Rightarrow> 'a \<Rightarrow> ('k, 'a list) dict \<Rightarrow> ('k, 'a list) dict" where
  "add_group k x [] = [(k, [x])]"
| "add_group k x ((k', ys) # g) =
     (if k = k' then (k', ys @ [x]) # g else (k', ys) # add_group k x g)"

definition group_by :: "('a \<Rightarrow> 'k) \<Rightarrow> 'a list \<Rightarrow> ('k, 'a list) dict" where
  "group_by f xs = foldl (\<lambda>g x. add_group (f x) x g) [] xs"

lemma add_group_eq: "add_group k x g = dict_set k (dict_get g k [] @ [x]) g"
  by (induction k x g rule: add_group.induct) (auto simp: dict_get_def)

lemma group_by_snoc: "group_by f (xs @ [x]) = add_group (f x) x (group_by f xs)"
  by (simp add: group_by_def)

lemma group_by_Nil [simp]: "group_by f [] = []"
  by (simp add: group_by_def)

lemma map_of_group_by:
  "map_of (group_by f xs) k =
     (let ys = filter (\<lambda>x. f x = k) xs in if ys = [] then None else Some ys)"
proof (induction xs rule: rev_induct)
  case (snoc x xs)
  then show ?case
    by (auto simp: group_by_snoc add_group_eq dict_get_def Let_def)
qed simp

lemma dict_get_group_by [simp, dict_simps]:
  "dict_get (group_by f xs) k [] = filter (\<lambda>x. f x = k) xs"
  by (simp add: dict_get_def map_of_group_by Let_def)

lemma keys_group_by: "set (dict_keys (group_by f xs)) = f ` set xs"
proof (induction xs rule: rev_induct)
  case (snoc x xs)
  then show ?case unfolding group_by_snoc add_group_eq keys_dict_set by simp
qed simp

lemma dict_wf_group_by [simp]: "dict_wf (group_by f xs)"
  by (induction xs rule: rev_induct) (simp_all add: group_by_snoc add_group_eq)

lemma group_by_value:
  "(k, ys) \<in> set (group_by f xs) \<Longrightarrow> ys = filter (\<lambda>x. f x = k) xs \<and> ys \<noteq> []"
proof -
  assume "(k, ys) \<in> set (group_by f xs)"
  then have "map_of (group_by f xs) k = Some ys" by (simp add: map_of_is_SomeI)
  then show ?thesis by (auto simp: map_of_group_by Let_def split: if_splits)
qed

text \<open>The groups of a dictionary, each then sorted in place.\<close>

lemma dict_get_map: "h [] = [] \<Longrightarrow> dict_get (map (\<lambda>(k, g). (k, h g)) d) k [] = h (dict_get d k [])"
  by (simp add: dict_get_def map_of_map split: option.splits)

lemma dict_get_sorted_groups [simp, dict_simps]:
  "dict_get (map (\<lambda>(k, g). (k, sort_key h g)) (group_by f xs)) k []
     = sort_key h (filter (\<lambda>x. f x = k) xs)"
  by (simp add: dict_get_map)

lemma fst_comp_value [simp, dict_simps]: "fst \<circ> (\<lambda>(k, g). (k, h k g)) = fst"
  by auto

lemma keys_map_values: "dict_keys (map (\<lambda>(k, g). (k, h k g)) d) = dict_keys d"
  by simp

section \<open>Multisets of lists\<close>

lemma mset_concat_map: "mset (concat (map f xs)) = sum_list (map (\<lambda>x. mset (f x)) xs)"
  by (induction xs) auto

lemma mset_filter_split: "mset (filter P xs) + mset (filter (\<lambda>x. \<not> P x) xs) = mset xs"
  by (induction xs) auto

lemma sum_list_single:
  "distinct ks \<Longrightarrow> a \<in> set ks \<Longrightarrow> sum_list (map (\<lambda>k. if a = k then m else {#}) ks) = m"
proof (induction ks)
  case (Cons k ks)
  have "sum_list (map (\<lambda>k. if a = k then m else {#}) ks) = {#}" if "a \<notin> set ks"
    using that by (induction ks) auto
  with Cons show ?case by auto
qed simp

text \<open>A list is the disjoint union of its groups, over any distinct enumeration of the keys.\<close>

lemma mset_concat_filter_keys:
  assumes "distinct ks" "f ` set xs \<subseteq> set ks"
  shows "mset (concat (map (\<lambda>k. filter (\<lambda>x. f x = k) xs) ks)) = mset xs"
  using assms(2)
proof (induction xs)
  case Nil
  then show ?case by (simp add: mset_concat_map)
next
  case (Cons x xs)
  have "sum_list (map (\<lambda>k. if f x = k then {#x#} else {#}) ks) = {#x#}"
    if "f x \<in> set ks"
    using assms(1) that by (rule sum_list_single)
  moreover have "sum_list (map (\<lambda>k. mset (filter (\<lambda>y. f y = k) (x # xs))) ks)
      = sum_list (map (\<lambda>k. (if f x = k then {#x#} else {#}) + mset (filter (\<lambda>y. f y = k) xs)) ks)"
    by (rule arg_cong [where f = sum_list]) (auto intro: map_cong)
  ultimately show ?case
    using Cons by (simp add: mset_concat_map sum_list_addf)
qed

lemma mset_concat_group_by: "mset (concat (map snd (group_by f xs))) = mset xs"
proof -
  have "map snd (group_by f xs)
      = map (\<lambda>k. filter (\<lambda>x. f x = k) xs) (dict_keys (group_by f xs))"
    by (auto dest: group_by_value)
  moreover have "mset (concat (map (\<lambda>k. filter (\<lambda>x. f x = k) xs) (dict_keys (group_by f xs)))) = mset xs"
    by (rule mset_concat_filter_keys) (simp_all add: keys_group_by del: set_map)
  ultimately show ?thesis by (simp only:)
qed

section \<open>First minimum\<close>

text \<open>\<open>min(xs, key=f)\<close>: the first of the elements whose key is least.\<close>

fun min_by :: "('a \<Rightarrow> 'k::linorder) \<Rightarrow> 'a \<Rightarrow> 'a list \<Rightarrow> 'a" where
  "min_by f m [] = m"
| "min_by f m (x # xs) = min_by f (if f x < f m then x else m) xs"

lemma min_by_mem: "min_by f m xs \<in> set (m # xs)"
  by (induction f m xs rule: min_by.induct) (auto split: if_splits)

lemma min_by_le: "x \<in> set (m # xs) \<Longrightarrow> f (min_by f m xs) \<le> f x"
proof (induction f m xs arbitrary: x rule: min_by.induct)
  case (2 f m y ys)
  let ?m = "if f y < f m then y else m"
  have "f (min_by f ?m ys) \<le> f ?m" using 2 by simp
  moreover have "f ?m \<le> f y" "f ?m \<le> f m" by auto
  ultimately have "f (min_by f ?m ys) \<le> f y" "f (min_by f ?m ys) \<le> f m"
    by (auto intro: order_trans)
  with 2 show ?case by auto
qed simp

section \<open>First success\<close>

text \<open>A loop that returns the first result it finds.\<close>

fun first_some :: "('a \<Rightarrow> 'b option) \<Rightarrow> 'a list \<Rightarrow> 'b option" where
  "first_some f [] = None"
| "first_some f (x # xs) = (case f x of Some y \<Rightarrow> Some y | None \<Rightarrow> first_some f xs)"

lemma distinct_map_eq:
  "distinct (map f xs) \<Longrightarrow> a \<in> set xs \<Longrightarrow> b \<in> set xs \<Longrightarrow> f a = f b \<Longrightarrow> a = b"
  unfolding distinct_map by (blast dest: inj_onD)

lemma find_SomeD: "find P xs = Some x \<Longrightarrow> x \<in> set xs \<and> P x"
  by (auto simp: find_Some_iff)

lemma find_unique:
  assumes "x \<in> set xs" "P x" "\<And>y. y \<in> set xs \<Longrightarrow> P y \<Longrightarrow> y = x"
  shows "find P xs = Some x"
proof (cases "find P xs")
  case None
  with assms(1,2) show ?thesis by (auto simp: find_None_iff)
next
  case (Some y)
  then have "y \<in> set xs" "P y" by (simp_all add: find_SomeD)
  with Some assms(3) show ?thesis by simp
qed

lemma first_some_SomeD: "first_some f xs = Some y \<Longrightarrow> \<exists>x \<in> set xs. f x = Some y"
  by (induction xs) (auto split: option.splits)

lemma first_some_None: "first_some f xs = None \<longleftrightarrow> (\<forall>x \<in> set xs. f x = None)"
  by (induction xs) (auto split: option.splits)

section \<open>Paging\<close>

text \<open>
  A member list cut into pages of a fixed size: what a cursor that walks pages relies on.
\<close>

locale paging =
  fixes members :: "'a list" and size_p :: nat
  assumes size_pos: "0 < size_p" and nonempty: "members \<noteq> []"
begin

definition page_at :: "nat \<Rightarrow> 'a list" where
  "page_at i = take size_p (drop (i * size_p) members)"

definition n_pages :: nat where
  "n_pages = (length members + size_p - 1) div size_p"

lemma n_pages_pos: "0 < n_pages"
proof -
  have "0 < length members" using nonempty by simp
  then have "size_p \<le> length members + size_p - 1" by linarith
  then show ?thesis using size_pos by (simp add: n_pages_def div_greater_zero_iff)
qed

lemma n_pages_covers: "length members \<le> n_pages * size_p"
proof -
  have "n_pages * size_p + (length members + size_p - 1) mod size_p = length members + size_p - 1"
    by (simp add: n_pages_def)
  moreover have "(length members + size_p - 1) mod size_p < size_p" using size_pos by simp
  ultimately show ?thesis by linarith
qed

lemma concat_pages_upto: "concat (map page_at [0..<n]) = take (n * size_p) members"
  by (induction n) (simp_all add: page_at_def take_add add.commute [of size_p])

lemma pages_partition: "concat (map page_at [0..<n_pages]) = members"
  using concat_pages_upto [of n_pages] n_pages_covers by simp

lemma page_length: "length (page_at i) \<le> size_p"
  by (simp add: page_at_def)

lemma index_page:
  assumes "i < length members"
  shows "i div size_p < n_pages" and "members ! i \<in> set (page_at (i div size_p))"
proof -
  have "i < n_pages * size_p" using assms n_pages_covers by linarith
  then show "i div size_p < n_pages" by (simp add: less_mult_imp_div_less)
  let ?s = "i div size_p * size_p"
  have "?s + i mod size_p = i" by simp
  then have s: "?s \<le> i" "i = ?s + (i - ?s)" "i - ?s < size_p"
    using size_pos mod_less_divisor [of size_p i] by linarith+
  have "drop ?s members ! (i - ?s) = members ! (?s + (i - ?s))"
    using s(1) assms by (intro nth_drop) linarith
  then have "page_at (i div size_p) ! (i - ?s) = members ! i"
    using s by (simp add: page_at_def)
  moreover have "i - ?s < length members - ?s" using s(1) assms by linarith
  then have "i - ?s < length (page_at (i div size_p))"
    using s(3) by (simp add: page_at_def)
  ultimately show "members ! i \<in> set (page_at (i div size_p))"
    by (metis nth_mem)
qed

end

section \<open>Histories\<close>

text \<open>
  A sequence of operations on a state, and what every operation keeps: an invariant that holds
  at the start holds after any sequence of admissible operations.
\<close>

locale history =
  fixes step :: "'op \<Rightarrow> 's \<Rightarrow> 's"
    and admissible :: "'op \<Rightarrow> bool"
    and inv :: "'s \<Rightarrow> bool"
  assumes step_inv: "inv s \<Longrightarrow> admissible op \<Longrightarrow> inv (step op s)"
begin

lemma foldl_inv: "inv s \<Longrightarrow> list_all admissible ops \<Longrightarrow> inv (foldl (\<lambda>s op. step op s) s ops)"
  by (induction ops arbitrary: s) (auto intro: step_inv)

end

end
