(* ===== verification/Strata_Ladder.thy ===== *)
theory Strata_Ladder
  imports Prelude
begin

text \<open>
  The data model of \<^verbatim>\<open>api/strata.py\<close> and the ladder a strata request folds: the budget, the
  catalog, the collector's marks, and \<^verbatim>\<open>_Ladder.__init__\<close>, which places every release under a
  master or a no-master lane and every master under a credit.  The locale \<open>ladder_index\<close> states
  what the folding code relies on, and is interpreted on every ladder the constructor builds.
\<close>

section \<open>Budget\<close>

definition PAGE_SIZE :: int where "PAGE_SIZE = 8"
definition MAX_CREDITS :: int where "MAX_CREDITS = 48"
definition MAX_MASTERS :: int where "MAX_MASTERS = 500"
definition MAX_RELEASES :: int where "MAX_RELEASES = 500"

definition OTHER_CREDITS :: string where "OTHER_CREDITS = ''c:other''"
definition UNDATED :: string where "UNDATED = ''undated''"
definition ALL_LABEL :: string where "ALL_LABEL = ''all''"

datatype strata_error =
    BudgetError string
  | FocusNotFoundError string
  | NoViewFits  \<comment> \<open>the \<open>AssertionError\<close> of \<open>_Ladder.fit\<close>\<close>
  | RemainderWithoutFocus  \<comment> \<open>the \<open>assert\<close> of \<open>_Ladder.render\<close>\<close>
  | PressingNotAmongMembers  \<comment> \<open>the \<open>StopIteration\<close> of \<open>next(...)\<close> in \<open>resolve_focus\<close>\<close>

record budget =
  b_credits :: int
  b_masters :: int
  b_releases :: int

definition budget_validate :: "budget \<Rightarrow> (strata_error, budget) result" where
  "budget_validate b =
     (if \<not> (3 \<le> b_credits b \<and> b_credits b \<le> MAX_CREDITS) then
        Inl (BudgetError (''credits must be between 3 and '' @ show_int MAX_CREDITS))
      else if \<not> (2 * b_credits b \<le> b_masters b \<and> b_masters b \<le> MAX_MASTERS) then
        Inl (BudgetError (''masters must be between twice the credits and '' @ show_int MAX_MASTERS))
      else if \<not> (b_credits b + 1 \<le> b_releases b \<and> b_releases b \<le> MAX_RELEASES) then
        Inl (BudgetError (''releases must be between credits + 1 and '' @ show_int MAX_RELEASES))
      else Inr b)"

definition budget_parse :: "string \<Rightarrow> (strata_error, budget) result" where
  "budget_parse text =
     (let parts = split_on CHR ''/'' text in
      if length parts \<noteq> 3 \<or> \<not> list_all (\<lambda>part. isdigit (strip part)) parts then
        Inl (BudgetError ''budget must be credits/masters/releases, for example 3/12/16'')
      else budget_validate
             \<lparr>b_credits = parse_nat (strip (parts ! 0)), b_masters = parse_nat (strip (parts ! 1)),
              b_releases = parse_nat (strip (parts ! 2))\<rparr>)"

definition DEFAULT_BUDGET :: budget where
  "DEFAULT_BUDGET = \<lparr>b_credits = 3, b_masters = 12, b_releases = 16\<rparr>"

text \<open>The floors and ceilings a validated budget meets.\<close>

definition budget_ok :: "budget \<Rightarrow> bool" where
  "budget_ok b \<longleftrightarrow> 3 \<le> b_credits b \<and> b_credits b \<le> MAX_CREDITS
     \<and> 2 * b_credits b \<le> b_masters b \<and> b_masters b \<le> MAX_MASTERS
     \<and> b_credits b + 1 \<le> b_releases b \<and> b_releases b \<le> MAX_RELEASES"

section \<open>Releases, catalogs, marks\<close>

datatype provider = Discogs | MusicBrainz

type_synonym credit = "string list"

record release =
  rel_id :: string
  rel_master :: "string option"
  rel_year :: "int option"
  rel_credit :: credit
  rel_provider :: provider
  rel_title :: "string option"

record catalog =
  cat_root_id :: string
  cat_root_name :: "string option"
  cat_releases :: "release list"
  cat_master_years :: "(string, int option) dict"

datatype collector_state = NoState | Wanted | Owned | WantedOwned

record mark =
  mk_owned :: bool
  mk_wanted :: bool
  mk_owned_at :: "string option"
  mk_wanted_at :: "string option"
  mk_owned_copy_ids :: "string list"

definition default_mark :: mark where
  "default_mark = \<lparr>mk_owned = False, mk_wanted = False, mk_owned_at = None, mk_wanted_at = None,
                   mk_owned_copy_ids = []\<rparr>"

definition mark_state :: "mark \<Rightarrow> collector_state" where
  "mark_state k =
     (if mk_owned k \<and> mk_wanted k then WantedOwned
      else if mk_owned k then Owned
      else if mk_wanted k then Wanted else NoState)"

definition credit_id :: "credit \<Rightarrow> string" where
  "credit_id c = ''c:'' @ join_with ''+'' c"

definition id_key :: "string \<Rightarrow> int \<times> int \<times> string" where
  "id_key v = (if isdigit v then (0, parse_nat v, []) else (1, 0, v))"

definition decade :: "int option \<Rightarrow> string" where
  "decade y = (case y of None \<Rightarrow> UNDATED | Some n \<Rightarrow> show_int (n div 10 * 10) @ ''s'')"

text \<open>\<open>year or 0\<close>.\<close>

definition or_zero :: "int option \<Rightarrow> int" where
  "or_zero y = (case y of None \<Rightarrow> 0 | Some n \<Rightarrow> n)"

section \<open>Placed releases\<close>

record item =
  it_release :: release
  it_year :: "int option"
  it_year_source :: "string option"
  it_credit :: credit
  it_state :: "collector_state option"
  it_mark :: "mark option"

abbreviation it_master :: "item \<Rightarrow> string option" where
  "it_master i \<equiv> rel_master (it_release i)"

definition node_id :: "item \<Rightarrow> string" where
  "node_id i =
     (case rel_provider (it_release i) of
        Discogs \<Rightarrow> ''r:'' @ rel_id (it_release i)
      | MusicBrainz \<Rightarrow> ''mb:'' @ rel_id (it_release i))"

definition stateful :: "item \<Rightarrow> bool" where
  "stateful i \<longleftrightarrow> it_state i \<noteq> None \<and> it_state i \<noteq> Some NoState"

definition item_sort_key :: "item \<Rightarrow> bool \<times> int \<times> bool \<times> (int \<times> int \<times> string)" where
  "item_sort_key i =
     (it_year i \<noteq> None, or_zero (it_year i), rel_provider (it_release i) \<noteq> Discogs,
      id_key (rel_id (it_release i)))"

definition span :: "item list \<Rightarrow> int option \<times> int option" where
  "span its =
     (case List.map_filter it_year its of
        [] \<Rightarrow> (None, None)
      | y # ys \<Rightarrow> (Some (foldl min y ys), Some (foldl max y ys)))"

definition rollup :: "item list \<Rightarrow> collector_state" where
  "rollup its =
     (if list_ex (\<lambda>i. it_state i = Some Owned \<or> it_state i = Some WantedOwned) its then Owned
      else if list_ex (\<lambda>i. it_state i = Some Wanted) its then Wanted else NoState)"

section \<open>The ladder\<close>

record ladder =
  l_catalog :: catalog
  l_root :: credit
  l_signed_in :: bool
  l_anchor :: "(string, string) dict"
  l_items :: "item list"
  l_items_by_master :: "(string, item list) dict"
  l_masterless :: "(credit, item list) dict"
  l_by_node_id :: "(string, item) dict"
  l_master_credit :: "(string, credit) dict"
  l_master_year :: "(string, int option) dict"
  l_masters_by_credit :: "(credit, string list) dict"
  l_stateful_masters :: "string list"
  l_placed :: "(credit, nat) dict"
  l_credit_order :: "credit list"

text \<open>
  The lookups of the ladder's dictionaries.  \<open>items_by_master\<close>, \<open>masterless\<close> and
  \<open>masters_by_credit\<close> are \<open>defaultdict(list)\<close> or are read with \<open>.get(\<dots>, [])\<close>.  \<open>master_credit\<close>,
  \<open>master_year\<close> and \<open>anchor\<close> are plain dictionaries, read only for masters that are in them
  (\<open>ladder_keys\<close> below), so the default of their lookups is never taken.
\<close>

abbreviation items_of :: "ladder \<Rightarrow> string \<Rightarrow> item list" where
  "items_of L m \<equiv> dict_get (l_items_by_master L) m []"

abbreviation lane_of :: "ladder \<Rightarrow> credit \<Rightarrow> item list" where
  "lane_of L c \<equiv> dict_get (l_masterless L) c []"

abbreviation masters_of :: "ladder \<Rightarrow> credit \<Rightarrow> string list" where
  "masters_of L c \<equiv> dict_get (l_masters_by_credit L) c []"

abbreviation credit_of :: "ladder \<Rightarrow> string \<Rightarrow> credit" where
  "credit_of L m \<equiv> dict_get (l_master_credit L) m []"

abbreviation year_of :: "ladder \<Rightarrow> string \<Rightarrow> int option" where
  "year_of L m \<equiv> dict_get (l_master_year L) m None"

text \<open>\<open>catalog.master_years.get(m)\<close>.\<close>

abbreviation own_year :: "catalog \<Rightarrow> string \<Rightarrow> int option" where
  "own_year cat m \<equiv> dict_get (cat_master_years cat) m None"

definition by_master :: "catalog \<Rightarrow> (string, release list) dict" where
  "by_master cat =
     group_by (\<lambda>r. the (rel_master r))
       (filter (\<lambda>r. rel_provider r = Discogs \<and> rel_master r \<noteq> None) (cat_releases cat))"

definition original_key :: "release \<Rightarrow> bool \<times> int \<times> (int \<times> int \<times> string)" where
  "original_key r = (rel_year r = None, or_zero (rel_year r), id_key (rel_id r))"

text \<open>\<open>min(releases, key=\<dots>)\<close> over one master's Discogs releases, a non-empty list.\<close>

definition original :: "release list \<Rightarrow> release" where
  "original rs = min_by original_key (hd rs) (tl rs)"

definition anchors :: "catalog \<Rightarrow> (string, string) dict" where
  "anchors cat = map (\<lambda>(m, rs). (m, rel_id (original rs))) (by_master cat)"

definition master_credits :: "catalog \<Rightarrow> (string, credit) dict" where
  "master_credits cat = map (\<lambda>(m, rs). (m, rel_credit (original rs))) (by_master cat)"

text \<open>The loop body that turns a release into an item, or skips it (\<open>continue\<close>).\<close>

definition place_release ::
  "catalog \<Rightarrow> (string, mark) dict option \<Rightarrow> release \<Rightarrow> item option" where
  "place_release cat marks r =
     (let own = (case rel_master r of None \<Rightarrow> None
                 | Some m \<Rightarrow> if m = [] then None else own_year cat m);
          (year, source) =
            (case rel_year r of Some y \<Rightarrow> (Some y, Some ''release'')
             | None \<Rightarrow> (case own of Some y \<Rightarrow> (Some y, Some ''master'') | None \<Rightarrow> (None, None)))
      in case rel_provider r of
           Discogs \<Rightarrow>
             (let k = map_option (\<lambda>ms. dict_get ms (rel_id r) default_mark) marks in
              Some \<lparr>it_release = r, it_year = year, it_year_source = source,
                    it_credit = rel_credit r, it_state = map_option mark_state k, it_mark = k\<rparr>)
         | MusicBrainz \<Rightarrow>
             (case rel_master r of
                None \<Rightarrow> None
              | Some m \<Rightarrow>
                  (case map_of (master_credits cat) m of
                     None \<Rightarrow> None
                   | Some c \<Rightarrow>
                       Some \<lparr>it_release = r, it_year = year, it_year_source = source,
                             it_credit = c, it_state = None, it_mark = None\<rparr>)))"

definition place_items :: "catalog \<Rightarrow> (string, mark) dict option \<Rightarrow> item list" where
  "place_items cat marks = List.map_filter (place_release cat marks) (cat_releases cat)"

definition index_items_by_master :: "item list \<Rightarrow> (string, item list) dict" where
  "index_items_by_master its =
     map (\<lambda>(m, g). (m, sort_key item_sort_key g))
       (group_by (\<lambda>i. the (it_master i)) (filter (\<lambda>i. it_master i \<noteq> None) its))"

definition index_masterless :: "item list \<Rightarrow> (credit, item list) dict" where
  "index_masterless its =
     map (\<lambda>(c, g). (c, sort_key item_sort_key g))
       (group_by it_credit (filter (\<lambda>i. it_master i = None) its))"

definition index_by_node_id :: "item list \<Rightarrow> (string, item) dict" where
  "index_by_node_id its = foldl (\<lambda>d i. dict_set (node_id i) i d) [] its"

definition index_master_year ::
  "catalog \<Rightarrow> (string, item list) dict \<Rightarrow> (string, int option) dict" where
  "index_master_year cat ibm =
     map (\<lambda>(m, g). (m, case own_year cat m of Some y \<Rightarrow> Some y | None \<Rightarrow> fst (span g))) ibm"

definition master_sort_key ::
  "(string, int option) dict \<Rightarrow> string \<Rightarrow> bool \<times> int \<times> (int \<times> int \<times> string)" where
  "master_sort_key years m =
     (dict_get years m None \<noteq> None, or_zero (dict_get years m None), id_key m)"

definition index_masters_by_credit ::
  "(string, credit) dict \<Rightarrow> (string, int option) dict \<Rightarrow> (string, item list) dict
   \<Rightarrow> (credit, string list) dict" where
  "index_masters_by_credit mc years ibm =
     map (\<lambda>(c, ms). (c, sort_key (master_sort_key years) ms))
       (group_by (\<lambda>m. dict_get mc m []) (dict_keys ibm))"

definition count_placed ::
  "(string, item list) dict \<Rightarrow> (credit, string list) dict \<Rightarrow> (credit, item list) dict
   \<Rightarrow> (credit, nat) dict" where
  "count_placed ibm mbc lanes =
     foldl (\<lambda>d (c, g). dict_set c (dict_get d c 0 + length g) d)
       (foldl (\<lambda>d (c, ms). dict_set c (dict_get d c 0
                 + sum_list (map (\<lambda>m. length (dict_get ibm m [])) ms)) d) [] mbc)
       lanes"

definition build_ladder :: "catalog \<Rightarrow> (string, mark) dict option \<Rightarrow> ladder" where
  "build_ladder cat marks =
     (let root = [cat_root_id cat];
          its = place_items cat marks;
          ibm = index_items_by_master its;
          lanes = index_masterless its;
          mc = master_credits cat;
          years = index_master_year cat ibm;
          mbc = index_masters_by_credit mc years ibm;
          placed = count_placed ibm mbc lanes;
          others = sort_key (\<lambda>c. (- int (dict_get placed c 0), credit_id c))
                     (filter (\<lambda>c. c \<noteq> root) (dict_keys placed))
      in \<lparr>l_catalog = cat, l_root = root, l_signed_in = (marks \<noteq> None), l_anchor = anchors cat,
          l_items = its, l_items_by_master = ibm, l_masterless = lanes,
          l_by_node_id = index_by_node_id its, l_master_credit = mc, l_master_year = years,
          l_masters_by_credit = mbc,
          l_stateful_masters = map fst (filter (\<lambda>(m, g). list_ex stateful g) ibm),
          l_placed = placed, l_credit_order = root # others\<rparr>)"

definition credit_items :: "ladder \<Rightarrow> credit \<Rightarrow> item list" where
  "credit_items L c = concat (map (items_of L) (masters_of L c)) @ lane_of L c"

definition master_priority :: "ladder \<Rightarrow> string \<Rightarrow> bool \<times> int \<times> (int \<times> int \<times> string)" where
  "master_priority L m =
     (m \<notin> set (l_stateful_masters L), - int (length (items_of L m)), id_key m)"

datatype fold_mode = ByDecade | Whole

definition bucket :: "ladder \<Rightarrow> fold_mode \<Rightarrow> string \<Rightarrow> credit \<times> string" where
  "bucket L mode m = (credit_of L m, case mode of ByDecade \<Rightarrow> decade (year_of L m) | Whole \<Rightarrow> ALL_LABEL)"

section \<open>What the ladder holds\<close>

lemma build_ladder_sel [simp]:
  "l_catalog (build_ladder cat marks) = cat"
  "l_root (build_ladder cat marks) = [cat_root_id cat]"
  "l_signed_in (build_ladder cat marks) = (marks \<noteq> None)"
  "l_anchor (build_ladder cat marks) = anchors cat"
  "l_items (build_ladder cat marks) = place_items cat marks"
  "l_items_by_master (build_ladder cat marks) = index_items_by_master (place_items cat marks)"
  "l_masterless (build_ladder cat marks) = index_masterless (place_items cat marks)"
  "l_by_node_id (build_ladder cat marks) = index_by_node_id (place_items cat marks)"
  "l_master_credit (build_ladder cat marks) = master_credits cat"
  by (simp_all add: build_ladder_def Let_def)

lemma items_of_build:
  "dict_get (index_items_by_master its) m []
     = sort_key item_sort_key (filter (\<lambda>i. it_master i = Some m) its)"
proof -
  have "filter (\<lambda>i. the (it_master i) = m) (filter (\<lambda>i. it_master i \<noteq> None) its)
      = filter (\<lambda>i. it_master i = Some m) its"
    by (induction its) auto
  then show ?thesis by (simp add: index_items_by_master_def)
qed

lemma lane_of_build:
  "dict_get (index_masterless its) c []
     = sort_key item_sort_key (filter (\<lambda>i. it_master i = None \<and> it_credit i = c) its)"
  by (simp add: index_masterless_def conj_commute)

lemma keys_items_by_master:
  "set (dict_keys (index_items_by_master its)) = {m. \<exists>i \<in> set its. it_master i = Some m}"
proof -
  have "set (dict_keys (index_items_by_master its))
      = (\<lambda>i. the (it_master i)) ` {i \<in> set its. it_master i \<noteq> None}"
    by (simp add: index_items_by_master_def keys_group_by del: set_map)
  also have "\<dots> = {m. \<exists>i \<in> set its. it_master i = Some m}"
    by (auto simp: image_iff) (metis option.sel)+
  finally show ?thesis .
qed

lemma dict_wf_items_by_master: "dict_wf (index_items_by_master its)"
  by (simp add: index_items_by_master_def)

lemma masters_of_build:
  "masters_of (build_ladder cat marks) c
     = sort_key (master_sort_key (l_master_year (build_ladder cat marks)))
         (filter (\<lambda>m. credit_of (build_ladder cat marks) m = c)
           (dict_keys (l_items_by_master (build_ladder cat marks))))"
  by (simp add: build_ladder_def Let_def index_masters_by_credit_def)

text \<open>A master on the ladder has an original release, so its credit and anchor are known.\<close>

lemma place_release_master:
  assumes "place_release cat marks r = Some i"
  shows "it_release i = r" and "it_master i = Some m \<Longrightarrow> r \<in> set (cat_releases cat) \<Longrightarrow>
    m \<in> set (dict_keys (master_credits cat))"
proof -
  show r: "it_release i = r"
    using assms
    by (auto simp: place_release_def Let_def split: provider.splits option.splits prod.splits)
  assume m: "it_master i = Some m" and mem: "r \<in> set (cat_releases cat)"
  show "m \<in> set (dict_keys (master_credits cat))"
  proof (cases "rel_provider r")
    case Discogs
    with m r mem have "m \<in> set (dict_keys (by_master cat))"
      by (force simp: by_master_def keys_group_by simp del: set_map)
    then show ?thesis by (simp add: master_credits_def del: set_map)
  next
    case MusicBrainz
    with m r assms have "map_of (master_credits cat) m \<noteq> None"
      by (auto simp: place_release_def Let_def split: option.splits prod.splits)
    then show ?thesis by (simp add: map_of_eq_None_iff)
  qed
qed

lemma place_items_mem:
  "i \<in> set (place_items cat marks) \<longleftrightarrow>
     (\<exists>r \<in> set (cat_releases cat). place_release cat marks r = Some i)"
  by (force simp: place_items_def List.map_filter_def)

lemma ladder_keys:
  assumes "m \<in> set (dict_keys (l_items_by_master (build_ladder cat marks)))"
  shows "dict_mem m (l_master_credit (build_ladder cat marks))"
    and "dict_mem m (l_anchor (build_ladder cat marks))"
    and "dict_mem m (l_master_year (build_ladder cat marks))"
proof -
  have "m \<in> set (dict_keys (master_credits cat))"
    using assms by (auto simp: keys_items_by_master place_items_mem dest: place_release_master simp del: set_map)
  then show "dict_mem m (l_master_credit (build_ladder cat marks))"
    and "dict_mem m (l_anchor (build_ladder cat marks))"
    by (simp_all add: dict_mem_keys master_credits_def anchors_def del: set_map)
  show "dict_mem m (l_master_year (build_ladder cat marks))"
    using assms by (simp add: build_ladder_def Let_def index_master_year_def dict_mem_keys del: set_map)
qed

lemma keys_foldl_count:
  "set (dict_keys (foldl (\<lambda>d (c, g). dict_set c (dict_get d c 0 + f g) d) d xs))
     = set (dict_keys d) \<union> set (dict_keys xs)"
  by (induction xs arbitrary: d) (auto simp: keys_dict_set simp del: set_map split: prod.splits)

lemma dict_wf_foldl_count:
  "dict_wf d \<Longrightarrow> dict_wf (foldl (\<lambda>d (c, g). dict_set c (dict_get d c 0 + f g) d) d xs)"
  by (induction xs arbitrary: d) (auto split: prod.splits)

lemma keys_masters_by_credit:
  "set (dict_keys (l_masters_by_credit (build_ladder cat marks)))
     = credit_of (build_ladder cat marks)
         ` set (dict_keys (l_items_by_master (build_ladder cat marks)))"
  by (simp add: build_ladder_def Let_def index_masters_by_credit_def keys_group_by del: set_map)

lemma keys_masterless:
  "set (dict_keys (index_masterless its)) = it_credit ` {i \<in> set its. it_master i = None}"
  by (simp add: index_masterless_def keys_group_by del: set_map)

lemma set_credit_order:
  "set (l_credit_order (build_ladder cat marks))
     = insert [cat_root_id cat]
         (set (dict_keys (l_masters_by_credit (build_ladder cat marks)))
          \<union> set (dict_keys (l_masterless (build_ladder cat marks))))"
  unfolding build_ladder_def Let_def count_placed_def ladder.select_convs set_simps set_sort
    set_filter keys_foldl_count
  by auto

lemma distinct_credit_order: "distinct (l_credit_order (build_ladder cat marks))"
  by (auto simp: build_ladder_def Let_def count_placed_def intro!: dict_wf_foldl_count distinct_filter)

text \<open>
  The credit a release is folded under: its master's, or its own when it has no master.  Every
  credit of the ladder holds exactly the releases folded under it.
\<close>

definition fold_credit :: "ladder \<Rightarrow> item \<Rightarrow> credit" where
  "fold_credit L i = (case it_master i of None \<Rightarrow> it_credit i | Some m \<Rightarrow> credit_of L m)"

lemma mset_masters_items:
  fixes cat :: catalog and marks :: "(string, mark) dict option" and c :: credit
  defines "L \<equiv> build_ladder cat marks"
  shows "mset (concat (map (items_of L) (masters_of L c)))
    = mset (filter (\<lambda>i. \<exists>m. it_master i = Some m \<and> credit_of L m = c) (l_items L))"
    (is "?lhs = mset (filter ?P _)")
proof -
  let ?ms = "filter (\<lambda>m. credit_of L m = c) (dict_keys (l_items_by_master L))"
  let ?xs = "filter ?P (l_items L)"
  have "?lhs = sum_list (map (\<lambda>m. mset (items_of L m)) (masters_of L c))"
    by (simp add: mset_concat_map)
  also have "\<dots> = sum_mset (image_mset (\<lambda>m. mset (items_of L m)) (mset (masters_of L c)))"
    by (simp flip: sum_mset_sum_list)
  also have "\<dots> = sum_list (map (\<lambda>m. mset (items_of L m)) ?ms)"
    unfolding L_def masters_of_build mset_sort by (simp flip: sum_mset_sum_list)
  also have "\<dots> = sum_list (map (\<lambda>m. mset (filter (\<lambda>i. the (it_master i) = m) ?xs)) ?ms)"
    by (intro arg_cong [where f = sum_list] map_cong refl)
      (auto simp: L_def items_of_build intro!: filter_mset_cong)
  also have "\<dots> = mset (concat (map (\<lambda>m. filter (\<lambda>i. the (it_master i) = m) ?xs) ?ms))"
    by (simp add: mset_concat_map)
  also have "\<dots> = mset ?xs"
  proof (rule mset_concat_filter_keys)
    show "distinct ?ms"
      by (simp add: L_def dict_wf_items_by_master)
    show "(\<lambda>i. the (it_master i)) ` set ?xs \<subseteq> set ?ms"
      by (auto simp: L_def keys_items_by_master simp del: set_map)
  qed
  finally show ?thesis .
qed

lemma mset_credit_items:
  fixes cat :: catalog and marks :: "(string, mark) dict option" and c :: credit
  defines "L \<equiv> build_ladder cat marks"
  shows "mset (credit_items L c) = mset (filter (\<lambda>i. fold_credit L i = c) (l_items L))"
proof -
  have "mset (lane_of L c) = mset (filter (\<lambda>i. it_master i = None \<and> it_credit i = c) (l_items L))"
    by (simp add: L_def lane_of_build)
  then have "mset (credit_items L c)
      = mset (filter (\<lambda>i. \<exists>m. it_master i = Some m \<and> credit_of L m = c) (l_items L))
        + mset (filter (\<lambda>i. it_master i = None \<and> it_credit i = c) (l_items L))"
    unfolding credit_items_def mset_append
    using mset_masters_items [of cat marks c] by (simp only: L_def)
  moreover have "mset (filter (\<lambda>i. \<exists>m. it_master i = Some m \<and> credit_of L m = c) its)
      + mset (filter (\<lambda>i. it_master i = None \<and> it_credit i = c) its)
      = mset (filter (\<lambda>i. fold_credit L i = c) its)" for its
    by (induction its) (auto simp: fold_credit_def split: option.splits)
  ultimately show ?thesis by (simp only:)
qed

lemma fold_credit_on_order:
  "i \<in> set (l_items (build_ladder cat marks)) \<Longrightarrow>
     fold_credit (build_ladder cat marks) i \<in> set (l_credit_order (build_ladder cat marks))"
  by (auto simp: set_credit_order keys_masters_by_credit keys_masterless keys_items_by_master
      fold_credit_def split: option.splits simp del: set_map)

section \<open>The interface the fold relies on\<close>

locale ladder_index =
  fixes L :: ladder
  assumes order_root: "\<exists>os. l_credit_order L = l_root L # os"
    and order_distinct: "distinct (l_credit_order L)"
    and masters_distinct: "distinct (masters_of L c)"
    and masters_credit: "m \<in> set (masters_of L c) \<Longrightarrow> credit_of L m = c"
    and masters_on_order: "masters_of L c \<noteq> [] \<Longrightarrow> c \<in> set (l_credit_order L)"
    and lane_on_order: "lane_of L c \<noteq> [] \<Longrightarrow> c \<in> set (l_credit_order L)"
    and items_nonempty: "m \<in> set (masters_of L c) \<Longrightarrow> items_of L m \<noteq> []"
    and known_master: "dict_mem m (l_items_by_master L) \<Longrightarrow> m \<in> set (masters_of L (credit_of L m))"
    and items_partition:
      "mset (concat (map (credit_items L) (l_credit_order L))) = mset (l_items L)"
    and known_node: "map_of (l_by_node_id L) n = Some i \<Longrightarrow> i \<in> set (l_items L)"
    and item_under_master: "i \<in> set (l_items L) \<Longrightarrow> it_master i = Some m \<Longrightarrow>
      dict_mem m (l_items_by_master L) \<and> i \<in> set (items_of L m)"
    and item_in_lane: "i \<in> set (l_items L) \<Longrightarrow> it_master i = None \<Longrightarrow>
      i \<in> set (lane_of L (it_credit i))"

lemma known_node_build:
  assumes "map_of (index_by_node_id its) n = Some i"
  shows "i \<in> set its \<and> node_id i = n"
proof -
  have "map_of (index_by_node_id its) n
      = (case rev (filter (\<lambda>x. node_id x = n) its) of [] \<Rightarrow> None | x # _ \<Rightarrow> Some x)"
    using pydict.get_foldl_put [of node_id "\<lambda>x. x" "[]" its n]
    by (simp add: index_by_node_id_def split: list.splits)
  with assms have "i \<in> set (rev (filter (\<lambda>x. node_id x = n) its))"
    by (cases "rev (filter (\<lambda>x. node_id x = n) its)") simp_all
  then show ?thesis by simp
qed

interpretation built: ladder_index "build_ladder cat marks" for cat marks
proof
  let ?L = "build_ladder cat marks"
  show "\<exists>os. l_credit_order ?L = l_root ?L # os"
    by (simp add: build_ladder_def Let_def)
  show "distinct (l_credit_order ?L)" by (rule distinct_credit_order)
  show "mset (concat (map (credit_items ?L) (l_credit_order ?L))) = mset (l_items ?L)"
  proof -
    have "mset (concat (map (credit_items ?L) (l_credit_order ?L)))
        = mset (concat (map (\<lambda>c. filter (\<lambda>i. fold_credit ?L i = c) (l_items ?L)) (l_credit_order ?L)))"
      by (simp add: mset_concat_map mset_credit_items)
    also have "\<dots> = mset (l_items ?L)"
      by (rule mset_concat_filter_keys [OF distinct_credit_order]) (auto intro: fold_credit_on_order)
    finally show ?thesis .
  qed
  fix c m i n
  show "distinct (masters_of ?L c)"
    by (simp add: masters_of_build dict_wf_items_by_master)
  show m: "credit_of ?L m = c" if "m \<in> set (masters_of ?L c)"
    using that by (simp add: masters_of_build)
  show "items_of ?L m \<noteq> []" if "m \<in> set (masters_of ?L c)"
  proof -
    have "m \<in> set (dict_keys (l_items_by_master ?L))" using that by (simp add: masters_of_build)
    then obtain i where "i \<in> set (place_items cat marks)" "it_master i = Some m"
      by (auto simp: keys_items_by_master simp del: set_map)
    then have "i \<in> set (items_of ?L m)" by (simp add: items_of_build)
    then show ?thesis by fastforce
  qed
  show "c \<in> set (l_credit_order ?L)" if "masters_of ?L c \<noteq> []"
  proof -
    obtain m' where "m' \<in> set (masters_of ?L c)" using \<open>masters_of ?L c \<noteq> []\<close> by (meson last_in_set)
    then show ?thesis
      by (auto simp: masters_of_build set_credit_order keys_masters_by_credit simp del: set_map)
  qed
  show "c \<in> set (l_credit_order ?L)" if "lane_of ?L c \<noteq> []"
  proof -
    obtain i' where "i' \<in> set (lane_of ?L c)" using \<open>lane_of ?L c \<noteq> []\<close> by (meson last_in_set)
    then show ?thesis
      by (auto simp: lane_of_build set_credit_order keys_masterless simp del: set_map)
  qed
  show "m \<in> set (masters_of ?L (credit_of ?L m))" if "dict_mem m (l_items_by_master ?L)"
    using that by (simp add: masters_of_build dict_mem_keys)
  show "i \<in> set (l_items ?L)" if "map_of (l_by_node_id ?L) n = Some i"
    using that known_node_build by simp
  show "dict_mem m (l_items_by_master ?L) \<and> i \<in> set (items_of ?L m)"
    if "i \<in> set (l_items ?L)" "it_master i = Some m"
    using that by (auto simp: items_of_build dict_mem_keys keys_items_by_master simp del: set_map)
  show "i \<in> set (lane_of ?L (it_credit i))" if "i \<in> set (l_items ?L)" "it_master i = None"
    using that by (simp add: lane_of_build)
qed

end
