(* ===== verification/Strata_Focus.thy ===== *)
theory Strata_Focus
  imports Strata_Ladder
begin

text \<open>
  Focus cursors of \<^verbatim>\<open>api/strata.py\<close>: \<open>_Focus\<close> with its pages, \<open>_parse_credit\<close>,
  \<open>_parse_focus\<close>, the pressing cursors, and \<open>resolve_focus\<close>, which picks a page size that
  every page of the cursor shares.  The lemmas show that a resolved cursor names a non-empty
  member set of the ladder, that its pages partition the members, and that one page with its
  remainder fits the room the budget leaves.
\<close>

section \<open>Cursors\<close>

text \<open>The members of a cursor: credits (level 0), masters (level 1) or releases (level 2).\<close>

datatype members = CreditMembers "credit list" | MasterMembers "string list" | ItemMembers "item list"

definition level :: "members \<Rightarrow> nat" where
  "level ms = (case ms of CreditMembers _ \<Rightarrow> 0 | MasterMembers _ \<Rightarrow> 1 | ItemMembers _ \<Rightarrow> 2)"

definition n_members :: "members \<Rightarrow> int" where
  "n_members ms =
     (case ms of CreditMembers cs \<Rightarrow> int (length cs) | MasterMembers ms \<Rightarrow> int (length ms)
      | ItemMembers is \<Rightarrow> int (length is))"

record parsed_focus =
  f_id :: string
  f_members :: members
  f_credit :: "credit option"
  f_master :: "string option"
  f_lane :: "credit option"
  f_decade :: "string option"

record focus = parsed_focus +
  f_page :: int
  f_page_size :: int

text \<open>\<open>math.ceil(len(members) / page_size)\<close>.\<close>

definition ceil_div :: "int \<Rightarrow> int \<Rightarrow> int" where
  "ceil_div a b = (a + b - 1) div b"

definition focus_pages :: "focus \<Rightarrow> int" where
  "focus_pages f = ceil_div (n_members (f_members f)) (f_page_size f)"

text \<open>\<open>members[start:start + size]\<close> and the members before and after it, with \<open>start = page * size\<close>.\<close>

definition page_slice :: "int \<Rightarrow> int \<Rightarrow> 'a list \<Rightarrow> 'a list" where
  "page_slice page sz xs = take (nat sz) (drop (nat (page * sz)) xs)"

definition rest_slice :: "int \<Rightarrow> int \<Rightarrow> 'a list \<Rightarrow> 'a list" where
  "rest_slice page sz xs = take (nat (page * sz)) xs @ drop (nat (page * sz + sz)) xs"

definition page_members :: "focus \<Rightarrow> members" where
  "page_members f =
     (case f_members f of
        CreditMembers cs \<Rightarrow> CreditMembers (page_slice (f_page f) (f_page_size f) cs)
      | MasterMembers ms \<Rightarrow> MasterMembers (page_slice (f_page f) (f_page_size f) ms)
      | ItemMembers is \<Rightarrow> ItemMembers (page_slice (f_page f) (f_page_size f) is))"

definition rest_members :: "focus \<Rightarrow> members" where
  "rest_members f =
     (case f_members f of
        CreditMembers cs \<Rightarrow> CreditMembers (rest_slice (f_page f) (f_page_size f) cs)
      | MasterMembers ms \<Rightarrow> MasterMembers (rest_slice (f_page f) (f_page_size f) ms)
      | ItemMembers is \<Rightarrow> ItemMembers (rest_slice (f_page f) (f_page_size f) is))"

definition page_size :: "int \<Rightarrow> int \<Rightarrow> int \<Rightarrow> int" where
  "page_size n without_rest with_rest =
     (if n \<le> min PAGE_SIZE without_rest then n else max 1 (min PAGE_SIZE with_rest))"

section \<open>Parsing a cursor\<close>

definition parse_credit :: "string \<Rightarrow> credit option \<times> string option" where
  "parse_credit text =
     (let parts = split_on CHR '':'' text in
      if (length parts \<noteq> 2 \<and> length parts \<noteq> 3) \<or> parts ! 0 \<noteq> ''c'' \<or> parts ! 1 = [] then (None, None)
      else (Some (split_on CHR ''+'' (parts ! 1)), if length parts = 3 then Some (parts ! 2) else None))"

definition parse_master_focus :: "ladder \<Rightarrow> string \<Rightarrow> parsed_focus option" where
  "parse_master_focus L m =
     (if \<not> dict_mem m (l_items_by_master L) then None
      else Some \<lparr>f_id = ''ra:m:'' @ m, f_members = ItemMembers (items_of L m),
                 f_credit = Some (credit_of L m), f_master = Some m, f_lane = None, f_decade = None\<rparr>)"

definition parse_lane_focus :: "ladder \<Rightarrow> string \<Rightarrow> parsed_focus option" where
  "parse_lane_focus L text =
     (let (credit, label) = parse_credit text in
      case credit of
        None \<Rightarrow> None
      | Some c \<Rightarrow>
          (let lane_items = (case label of None \<Rightarrow> lane_of L c
                             | Some d \<Rightarrow> filter (\<lambda>i. decade (it_year i) = d) (lane_of L c)) in
           if lane_items = [] then None
           else Some \<lparr>f_id = ''ra:nm:'' @ credit_id c @
                               (case label of None \<Rightarrow> [] | Some d \<Rightarrow> if d = [] then [] else '':'' @ d),
                      f_members = ItemMembers lane_items, f_credit = Some c, f_master = None,
                      f_lane = Some c, f_decade = label\<rparr>))"

definition parse_bucket_focus :: "ladder \<Rightarrow> string \<Rightarrow> parsed_focus option" where
  "parse_bucket_focus L text =
     (case parse_credit text of
        (Some c, Some label) \<Rightarrow>
          (let masters = filter (\<lambda>m. label = ALL_LABEL \<or> snd (bucket L ByDecade m) = label) (masters_of L c) in
           if masters = [] then None
           else Some \<lparr>f_id = ''ma:'' @ credit_id c @ '':'' @ label, f_members = MasterMembers masters,
                      f_credit = Some c, f_master = None, f_lane = None, f_decade = Some label\<rparr>)
      | _ \<Rightarrow> None)"

definition parse_focus :: "ladder \<Rightarrow> string \<Rightarrow> parsed_focus option" where
  "parse_focus L focus_id =
     (if focus_id = OTHER_CREDITS then
        (let others = tl (l_credit_order L) in
         if others = [] then None
         else Some \<lparr>f_id = OTHER_CREDITS, f_members = CreditMembers others, f_credit = None,
                    f_master = None, f_lane = None, f_decade = None\<rparr>)
      else if starts_with ''ra:m:'' focus_id then parse_master_focus L (removeprefix ''ra:m:'' focus_id)
      else if starts_with ''m:'' focus_id then parse_master_focus L (removeprefix ''m:'' focus_id)
      else if starts_with ''ra:nm:'' focus_id then parse_lane_focus L (removeprefix ''ra:nm:'' focus_id)
      else if starts_with ''nm:'' focus_id then parse_lane_focus L (removeprefix ''nm:'' focus_id)
      else if starts_with ''ma:'' focus_id then parse_bucket_focus L (removeprefix ''ma:'' focus_id)
      else None)"

definition pressing :: "ladder \<Rightarrow> string \<Rightarrow> item option" where
  "pressing L focus_id =
     (if starts_with ''mb:'' focus_id then map_of (l_by_node_id L) (lower focus_id)
      else if starts_with ''r:'' focus_id then map_of (l_by_node_id L) focus_id else None)"

definition pressing_cursor :: "item \<Rightarrow> string" where
  "pressing_cursor i =
     (case it_master i of Some m \<Rightarrow> ''ra:m:'' @ m | None \<Rightarrow> ''ra:nm:'' @ credit_id (it_credit i))"

section \<open>Resolving a cursor\<close>

definition bool_int :: "bool \<Rightarrow> int" where
  "bool_int b = (if b then 1 else 0)"

text \<open>\<open>{self.root, credit}\<close> as a set, and the no-master lanes among it.\<close>

definition focus_base :: "ladder \<Rightarrow> credit \<Rightarrow> credit list" where
  "focus_base L c = (if c = l_root L then [l_root L] else [l_root L, c])"

text \<open>The master-plane entries and the lanes a level 1 focus leaves beside its page.\<close>

definition others_m :: "ladder \<Rightarrow> credit \<Rightarrow> string list \<Rightarrow> int" where
  "others_m L c members =
     bool_int (lane_of L c \<noteq> [])
     + bool_int (list_ex (\<lambda>m. m \<notin> set members) (masters_of L c))
     + (if c \<noteq> l_root L
        then bool_int (lane_of L (l_root L) \<noteq> []) + bool_int (masters_of L (l_root L) \<noteq> []) else 0)"

definition lanes_of_masters :: "ladder \<Rightarrow> credit \<Rightarrow> int" where
  "lanes_of_masters L c = int (length (filter (\<lambda>c'. lane_of L c' \<noteq> []) (focus_base L c)))"

definition lanes_of_items :: "ladder \<Rightarrow> credit \<Rightarrow> credit option \<Rightarrow> item list \<Rightarrow> int" where
  "lanes_of_items L c lane members =
     sum_list (map (\<lambda>c'. if Some c' = lane then bool_int (length members < length (lane_of L c'))
                         else bool_int (lane_of L c' \<noteq> [])) (focus_base L c))"

definition focus_size :: "ladder \<Rightarrow> budget \<Rightarrow> parsed_focus \<Rightarrow> int" where
  "focus_size L b p =
     (case f_members p of
        CreditMembers cs \<Rightarrow> page_size (int (length cs)) (b_credits b - 1) (b_credits b - 2)
      | MasterMembers ms \<Rightarrow>
          (let c = the (f_credit p); om = others_m L c ms; ln = lanes_of_masters L c in
           page_size (int (length ms)) (min (b_masters b - om) (b_releases b - ln))
             (min (b_masters b - om - 1) (b_releases b - ln)))
      | ItemMembers is \<Rightarrow>
          (let room = b_releases b - lanes_of_items L (the (f_credit p)) (f_lane p) is in
           page_size (int (length is)) room (room - 1)))"

text \<open>
  \<open>next(index for index, member in enumerate(members) if member is pressing)\<close>.  The pressing is
  the last placed item with its node id (a dictionary comprehension keeps the last), and the
  groups are sorted stably, so of equal members the identical one is the last.
\<close>

definition pressing_index :: "item \<Rightarrow> members \<Rightarrow> int option" where
  "pressing_index i ms =
     (case ms of
        ItemMembers is \<Rightarrow>
          (if i \<in> set is then Some (int (length is) - 1 - int (length (takeWhile (\<lambda>j. j \<noteq> i) (rev is))))
           else None)
      | _ \<Rightarrow> None)"

definition resolve_focus ::
  "ladder \<Rightarrow> string \<Rightarrow> int \<Rightarrow> budget \<Rightarrow> (strata_error, focus) result" where
  "resolve_focus L focus_id page b =
     (let pr = pressing L focus_id in
      case parse_focus L (case pr of Some i \<Rightarrow> pressing_cursor i | None \<Rightarrow> focus_id) of
        None \<Rightarrow> Inl (FocusNotFoundError (''focus '' @ [CHR 0x27] @ focus_id @ [CHR 0x27]
                        @ '' names nothing under this artist''))
      | Some p \<Rightarrow>
          (let sz = focus_size L b p;
               pages = ceil_div (n_members (f_members p)) sz
           in case (case pr of Some i \<Rightarrow> map_option (\<lambda>index. index div sz) (pressing_index i (f_members p))
                    | None \<Rightarrow> Some page) of
                None \<Rightarrow> Inl PressingNotAmongMembers
              | Some page' \<Rightarrow> Inr (parsed_focus.extend p \<lparr>f_page = page' mod pages, f_page_size = sz\<rparr>)))"

section \<open>Pages\<close>

text \<open>The members of a cursor in one list type, so that pages of any level can be compared.\<close>

definition flat :: "members \<Rightarrow> (credit + (string + item)) list" where
  "flat ms =
     (case ms of CreditMembers cs \<Rightarrow> map Inl cs | MasterMembers ms \<Rightarrow> map (Inr \<circ> Inl) ms
      | ItemMembers is \<Rightarrow> map (Inr \<circ> Inr) is)"

lemma n_members_flat: "n_members ms = int (length (flat ms))"
  by (cases ms) (simp_all add: n_members_def flat_def)

lemma page_slice_map [simp]: "page_slice p s (map h xs) = map h (page_slice p s xs)"
  by (simp add: page_slice_def take_map drop_map)

lemma flat_page_members: "flat (page_members f) = page_slice (f_page f) (f_page_size f) (flat (f_members f))"
  by (simp add: flat_def page_members_def split: members.splits)

lemma page_size_bounds:
  assumes "1 \<le> n"
  shows "1 \<le> page_size n wo wr"
    and "1 \<le> wr \<Longrightarrow> page_size n wo wr = n \<and> n \<le> wo \<or> page_size n wo wr \<le> wr"
  using assms by (auto simp: page_size_def PAGE_SIZE_def)

lemma length_page_slice: "0 \<le> s \<Longrightarrow> int (length (page_slice p s xs)) \<le> s"
  by (simp add: page_slice_def)

lemma page_rest_mset:
  assumes "0 \<le> p" "0 \<le> s"
  shows "mset (page_slice p s xs) + mset (rest_slice p s xs) = mset xs"
proof -
  let ?a = "nat (p * s)"
  have "nat (p * s + s) = nat s + ?a" using assms by (simp add: nat_add_distrib)
  then have "xs = take ?a xs @ take (nat s) (drop ?a xs) @ drop (nat (p * s + s)) xs"
    by (metis append_take_drop_id drop_drop)
  then have "mset xs = mset (take ?a xs) + mset (take (nat s) (drop ?a xs)) + mset (drop (nat (p * s + s)) xs)"
    by (metis add.assoc mset_append)
  then show ?thesis by (simp add: page_slice_def rest_slice_def)
qed

lemma page_slice_subset: "set (page_slice p s xs) \<subseteq> set xs"
  by (auto simp: page_slice_def dest: in_set_takeD in_set_dropD)

lemma rest_slice_subset: "set (rest_slice p s xs) \<subseteq> set xs"
  by (auto simp: rest_slice_def dest: in_set_takeD in_set_dropD)

lemma page_rest_set: "0 \<le> p \<Longrightarrow> 0 \<le> s \<Longrightarrow> set (page_slice p s xs) \<union> set (rest_slice p s xs) = set xs"
  using page_rest_mset [of p s xs] by (metis mset_append set_append set_mset_mset)

lemma page_rest_distinct:
  "0 \<le> p \<Longrightarrow> 0 \<le> s \<Longrightarrow> distinct xs \<Longrightarrow> distinct (page_slice p s xs @ rest_slice p s xs)"
  using page_rest_mset [of p s xs] by (metis mset_append mset_eq_imp_distinct_iff)

lemma rest_slice_whole: "rest_slice 0 (int (length xs)) xs = []"
  by (simp add: rest_slice_def)

interpretation focus_paging: paging "x # xs" "nat (page_size (int (length (x # xs))) wo wr)" for x xs wo wr
  by unfold_locales (use page_size_bounds(1) [of "int (length (x # xs))" wo wr] in simp_all)

lemma paging_page_at:
  assumes "paging xs (nat s)" "0 \<le> p" "1 \<le> s"
  shows "paging.page_at xs (nat s) (nat p) = page_slice p s xs"
  using assms by (simp add: paging.page_at_def page_slice_def nat_mult_distrib)

lemma ceil_div_nat: "1 \<le> s \<Longrightarrow> ceil_div (int n) s = int ((n + nat s - 1) div nat s)"
  by (simp add: ceil_div_def zdiv_int of_nat_diff)

text \<open>One page with the aggregate for its remainder takes no more than the room it was sized for.\<close>

lemma page_fits:
  assumes "1 \<le> int (length xs)" "1 \<le> wr"
    and s: "s = page_size (int (length xs)) wo wr"
    and p: "0 \<le> p" "p < ceil_div (int (length xs)) s"
  shows "rest_slice p s xs = [] \<and> int (length (page_slice p s xs)) \<le> wo
       \<or> int (length (page_slice p s xs)) \<le> wr"
proof -
  have s1: "1 \<le> s" using page_size_bounds(1) [OF assms(1)] s by simp
  consider "s = int (length xs)" "int (length xs) \<le> wo" | "s \<le> wr"
    using page_size_bounds(2) [OF assms(1,2)] s by blast
  then show ?thesis
  proof cases
    case 1
    have "ceil_div (int (length xs)) s = 1"
      unfolding ceil_div_def 1(1)
      by (rule int_div_pos_eq [where r = "int (length xs) - 1"]) (use assms(1) in linarith)+
    with p have "p = 0" by simp
    then have "rest_slice p s xs = []" by (simp add: 1(1) rest_slice_whole)
    moreover have "int (length (page_slice p s xs)) \<le> wo"
      using length_page_slice [of s p xs] s1 1 by simp
    ultimately show ?thesis by simp
  next
    case 2
    then show ?thesis using length_page_slice [of s p xs] s1 by linarith
  qed
qed

section \<open>What a resolved cursor names\<close>

definition parsed_ok :: "ladder \<Rightarrow> parsed_focus \<Rightarrow> bool" where
  "parsed_ok L p \<longleftrightarrow>
     (case f_members p of
        CreditMembers cs \<Rightarrow> cs \<noteq> [] \<and> cs = tl (l_credit_order L) \<and> f_credit p = None
          \<and> f_master p = None \<and> f_lane p = None
      | MasterMembers ms \<Rightarrow> ms \<noteq> [] \<and> f_master p = None \<and> f_lane p = None
          \<and> (\<exists>c label. f_credit p = Some c \<and> f_decade p = Some label
               \<and> ms = filter (\<lambda>m. label = ALL_LABEL \<or> snd (bucket L ByDecade m) = label) (masters_of L c))
      | ItemMembers is \<Rightarrow> is \<noteq> []
          \<and> ((\<exists>m. f_master p = Some m \<and> f_lane p = None \<and> f_credit p = Some (credit_of L m)
                 \<and> dict_mem m (l_items_by_master L) \<and> is = items_of L m)
             \<or> (\<exists>c. f_master p = None \<and> f_lane p = Some c \<and> f_credit p = Some c
                 \<and> is = (case f_decade p of None \<Rightarrow> lane_of L c
                          | Some d \<Rightarrow> filter (\<lambda>i. decade (it_year i) = d) (lane_of L c)))))"

definition focus_ok :: "ladder \<Rightarrow> budget \<Rightarrow> focus \<Rightarrow> bool" where
  "focus_ok L b f \<longleftrightarrow> parsed_ok L (parsed_focus.truncate f)
     \<and> f_page_size f = focus_size L b (parsed_focus.truncate f)
     \<and> 0 \<le> f_page f \<and> f_page f < focus_pages f"

lemma focus_sel [simp]:
  "f_id (parsed_focus.truncate f) = f_id f" "f_members (parsed_focus.truncate f) = f_members f"
  "f_credit (parsed_focus.truncate f) = f_credit f" "f_master (parsed_focus.truncate f) = f_master f"
  "f_lane (parsed_focus.truncate f) = f_lane f" "f_decade (parsed_focus.truncate f) = f_decade f"
  by (simp_all add: parsed_focus.truncate_def)

lemma extend_sel [simp]:
  fixes p :: parsed_focus
  shows "f_id (parsed_focus.extend p r) = f_id p" "f_members (parsed_focus.extend p r) = f_members p"
    "f_credit (parsed_focus.extend p r) = f_credit p" "f_master (parsed_focus.extend p r) = f_master p"
    "f_lane (parsed_focus.extend p r) = f_lane p" "f_decade (parsed_focus.extend p r) = f_decade p"
    "parsed_focus.truncate (parsed_focus.extend p r) = p"
  by (simp_all add: parsed_focus.extend_def parsed_focus.truncate_def)

lemma extend_page_sel [simp]:
  fixes p :: parsed_focus
  shows "f_page (parsed_focus.extend p \<lparr>f_page = pg, f_page_size = sz\<rparr>) = pg"
    "f_page_size (parsed_focus.extend p \<lparr>f_page = pg, f_page_size = sz\<rparr>) = sz"
    "(parsed_focus.extend p \<lparr>f_page = pg, f_page_size = sz\<rparr>)\<lparr>f_page := k\<rparr>
       = parsed_focus.extend p \<lparr>f_page = k, f_page_size = sz\<rparr>"
  by (simp_all add: parsed_focus.extend_def)

lemma takeWhile_rev_less:
  assumes "x \<in> set xs"
  shows "length (takeWhile (\<lambda>j. j \<noteq> x) (rev xs)) < length xs"
proof (rule ccontr)
  assume "\<not> ?thesis"
  then have "take (length (takeWhile (\<lambda>j. j \<noteq> x) (rev xs))) (rev xs) = rev xs"
    by (intro take_all) simp
  then have "takeWhile (\<lambda>j. j \<noteq> x) (rev xs) = rev xs"
    by (simp only: takeWhile_eq_take [symmetric])
  then show False using assms by (auto simp: takeWhile_eq_all_conv)
qed

lemma takeWhile_rev_nth:
  assumes "x \<in> set xs"
  defines "k \<equiv> length xs - 1 - length (takeWhile (\<lambda>j. j \<noteq> x) (rev xs))"
  shows "k < length xs" "xs ! k = x"
proof -
  let ?t = "length (takeWhile (\<lambda>j. j \<noteq> x) (rev xs))"
  have t: "?t < length xs"
    using assms(1) by (rule takeWhile_rev_less)
  then have "rev xs ! ?t = x"
    using nth_length_takeWhile [of "\<lambda>j. j \<noteq> x" "rev xs"] by simp
  then show "k < length xs" "xs ! k = x"
    using t by (auto simp: k_def rev_nth)
qed

lemma pressing_index_nth:
  assumes "pressing_index i ms = Some k"
  obtains "is" where "ms = ItemMembers is" "0 \<le> k" "nat k < length is" "is ! nat k = i"
proof -
  obtain "is" where ms: "ms = ItemMembers is" and i: "i \<in> set is"
    using assms by (auto simp: pressing_index_def split: members.splits if_splits)
  let ?t = "length (takeWhile (\<lambda>j. j \<noteq> i) (rev is))"
  have "?t < length is" using i by (rule takeWhile_rev_less)
  then have "k = int (length is - 1 - ?t)"
    using assms by (simp add: pressing_index_def ms i)
  then show ?thesis using that [of "is"] takeWhile_rev_nth [OF i] ms by simp
qed

lemma parsed_ok_nonempty: "parsed_ok L p \<Longrightarrow> 1 \<le> n_members (f_members p)"
  by (auto simp: parsed_ok_def n_members_def Suc_le_eq split: members.splits)

lemma focus_size_page_size:
  "\<exists>wo wr. focus_size L b p = page_size (n_members (f_members p)) wo wr"
  by (auto simp: focus_size_def n_members_def Let_def split: members.splits)

lemma focus_size_pos: "parsed_ok L p \<Longrightarrow> 1 \<le> focus_size L b p"
  using focus_size_page_size [of L b p] page_size_bounds(1) parsed_ok_nonempty by metis

lemma pages_pos: "1 \<le> n \<Longrightarrow> 1 \<le> s \<Longrightarrow> 0 < ceil_div n s"
  by (simp add: ceil_div_def pos_imp_zdiv_pos_iff)

lemma resolve_focus_cases:
  assumes "resolve_focus L fid page b = Inr f"
  obtains p k where
    "parse_focus L (case pressing L fid of Some i \<Rightarrow> pressing_cursor i | None \<Rightarrow> fid) = Some p"
    "(case pressing L fid of
        Some i \<Rightarrow> map_option (\<lambda>index. index div focus_size L b p) (pressing_index i (f_members p))
      | None \<Rightarrow> Some page) = Some k"
    "f = parsed_focus.extend p
       \<lparr>f_page = k mod ceil_div (n_members (f_members p)) (focus_size L b p),
        f_page_size = focus_size L b p\<rparr>"
  using assms by (auto simp: resolve_focus_def Let_def split: option.splits)

context ladder_index
begin

lemma known_items: "dict_mem m (l_items_by_master L) \<Longrightarrow> items_of L m \<noteq> []"
  using known_master items_nonempty by blast

lemma parse_parts_ok:
  "parse_master_focus L m = Some p \<Longrightarrow> parsed_ok L p"
  "parse_lane_focus L text = Some p \<Longrightarrow> parsed_ok L p"
  "parse_bucket_focus L text = Some p \<Longrightarrow> parsed_ok L p"
  using known_items
  by (auto simp: parse_master_focus_def parse_lane_focus_def parse_bucket_focus_def parsed_ok_def
      Let_def split: if_splits option.splits prod.splits)

lemma parse_focus_ok: "parse_focus L fid = Some p \<Longrightarrow> parsed_ok L p"
  by (auto simp: parse_focus_def Let_def dest: parse_parts_ok split: if_splits)
    (simp add: parsed_ok_def)

lemma resolve_focus_ok:
  assumes "resolve_focus L fid page b = Inr f"
  shows "focus_ok L b f"
  using assms
proof (rule resolve_focus_cases)
  fix p k
  let ?n = "ceil_div (n_members (f_members p)) (focus_size L b p)"
  assume p: "parse_focus L (case pressing L fid of None \<Rightarrow> fid | Some i \<Rightarrow> pressing_cursor i) = Some p"
    and f: "f = parsed_focus.extend p \<lparr>f_page = k mod ?n, f_page_size = focus_size L b p\<rparr>"
  have ok: "parsed_ok L p" using p by (rule parse_focus_ok)
  then have "0 < ?n" by (intro pages_pos parsed_ok_nonempty focus_size_pos)
  then show ?thesis by (simp add: focus_ok_def ok f focus_pages_def)
qed

lemma focus_sizes:
  assumes "focus_ok L b f"
  shows "0 \<le> f_page f" "1 \<le> f_page_size f" "1 \<le> n_members (f_members f)"
  using assms focus_size_pos parsed_ok_nonempty by (fastforce simp: focus_ok_def)+

text \<open>The room each level leaves for its page, from the page size \<open>resolve_focus\<close> chose.\<close>

lemma credit_page_fits:
  assumes "focus_ok L b f" "budget_ok b" "f_members f = CreditMembers cs"
  shows "int (length (page_slice (f_page f) (f_page_size f) cs))
       + bool_int (rest_slice (f_page f) (f_page_size f) cs \<noteq> []) \<le> b_credits b - 1"
proof -
  have "rest_slice (f_page f) (f_page_size f) cs = []
        \<and> int (length (page_slice (f_page f) (f_page_size f) cs)) \<le> b_credits b - 1
      \<or> int (length (page_slice (f_page f) (f_page_size f) cs)) \<le> b_credits b - 2"
    using assms focus_sizes [OF assms(1)]
    by (intro page_fits) (auto simp: focus_ok_def focus_size_def n_members_def budget_ok_def focus_pages_def)
  then show ?thesis by (auto simp: bool_int_def)
qed

lemma others_m_le: "others_m L c ms \<le> 4"
  by (simp add: others_m_def bool_int_def)

lemma lanes_of_masters_le: "lanes_of_masters L c \<le> 2"
  unfolding lanes_of_masters_def by (rule order_trans [OF of_nat_mono [OF length_filter_le]])
    (simp add: focus_base_def)

lemma master_page_fits:
  assumes "focus_ok L b f" "budget_ok b" "f_members f = MasterMembers ms" "f_credit f = Some c"
  shows "int (length (page_slice (f_page f) (f_page_size f) ms))
       + bool_int (rest_slice (f_page f) (f_page_size f) ms \<noteq> []) + others_m L c ms \<le> b_masters b"
    and "int (length (page_slice (f_page f) (f_page_size f) ms)) + lanes_of_masters L c \<le> b_releases b"
proof -
  let ?wo = "min (b_masters b - others_m L c ms) (b_releases b - lanes_of_masters L c)"
  let ?wr = "min (b_masters b - others_m L c ms - 1) (b_releases b - lanes_of_masters L c)"
  have "1 \<le> ?wr"
    using assms(2) others_m_le [of c ms] lanes_of_masters_le [of c] by (simp add: budget_ok_def)
  then have "rest_slice (f_page f) (f_page_size f) ms = []
        \<and> int (length (page_slice (f_page f) (f_page_size f) ms)) \<le> ?wo
      \<or> int (length (page_slice (f_page f) (f_page_size f) ms)) \<le> ?wr"
    using assms focus_sizes [OF assms(1)]
    by (intro page_fits) (auto simp: focus_ok_def focus_size_def n_members_def Let_def focus_pages_def)
  then show "int (length (page_slice (f_page f) (f_page_size f) ms))
       + bool_int (rest_slice (f_page f) (f_page_size f) ms \<noteq> []) + others_m L c ms \<le> b_masters b"
    and "int (length (page_slice (f_page f) (f_page_size f) ms)) + lanes_of_masters L c \<le> b_releases b"
    by (auto simp: bool_int_def)
qed

lemma lanes_of_items_le: "lanes_of_items L c lane is \<le> 2"
  by (simp add: lanes_of_items_def focus_base_def bool_int_def)

lemma item_page_fits:
  assumes "focus_ok L b f" "budget_ok b" "f_members f = ItemMembers is" "f_credit f = Some c"
  shows "int (length (page_slice (f_page f) (f_page_size f) is))
       + bool_int (rest_slice (f_page f) (f_page_size f) is \<noteq> []) + lanes_of_items L c (f_lane f) is
       \<le> b_releases b"
proof -
  let ?room = "b_releases b - lanes_of_items L c (f_lane f) is"
  have "1 \<le> ?room - 1"
    using assms(2) lanes_of_items_le [of c "f_lane f" "is"] by (simp add: budget_ok_def)
  then have "rest_slice (f_page f) (f_page_size f) is = []
        \<and> int (length (page_slice (f_page f) (f_page_size f) is)) \<le> ?room
      \<or> int (length (page_slice (f_page f) (f_page_size f) is)) \<le> ?room - 1"
    using assms focus_sizes [OF assms(1)]
    by (intro page_fits) (auto simp: focus_ok_def focus_size_def n_members_def Let_def focus_pages_def)
  then show ?thesis by (auto simp: bool_int_def)
qed

end

end
