(* ===== verification/Strata_Fit.thy ===== *)
theory Strata_Fit
  imports Strata_Focus
begin

text \<open>
  The fold of \<^verbatim>\<open>api/strata.py\<close>: \<open>_credit_levels\<close>, \<open>_release_floor\<close>, \<open>_plan_masters\<close>, \<open>fit\<close>,
  \<open>plan_releases\<close> and \<open>_fold_releases\<close>.  The lemmas show that a validated budget always admits a
  view (the assertion at the end of \<open>fit\<close> is never reached), that each plane stays within its
  budget, and that every credit, master and release is drawn or held by exactly one aggregate.
\<close>

section \<open>The focus as the planes see it\<close>

definition item_page :: "focus \<Rightarrow> item list" where
  "item_page f = (case f_members f of ItemMembers is \<Rightarrow> page_slice (f_page f) (f_page_size f) is | _ \<Rightarrow> [])"

definition item_rest :: "focus \<Rightarrow> item list" where
  "item_rest f = (case f_members f of ItemMembers is \<Rightarrow> rest_slice (f_page f) (f_page_size f) is | _ \<Rightarrow> [])"

definition item_members :: "focus \<Rightarrow> item list" where
  "item_members f = (case f_members f of ItemMembers is \<Rightarrow> is | _ \<Rightarrow> [])"

text \<open>\<open>focus is not None and focus.level == 2 and focus.master == master_id\<close>, and the same for a lane.\<close>

definition focuses_master :: "focus option \<Rightarrow> string \<Rightarrow> bool" where
  "focuses_master fo m = (case fo of None \<Rightarrow> False | Some f \<Rightarrow> level (f_members f) = 2 \<and> f_master f = Some m)"

definition focuses_lane :: "focus option \<Rightarrow> credit \<Rightarrow> bool" where
  "focuses_lane fo c = (case fo of None \<Rightarrow> False | Some f \<Rightarrow> level (f_members f) = 2 \<and> f_lane f = Some c)"

section \<open>Credits\<close>

definition base_credits :: "ladder \<Rightarrow> focus option \<Rightarrow> credit list" where
  "base_credits L fo =
     (case fo of None \<Rightarrow> [l_root L]
      | Some f \<Rightarrow> (case f_credit f of None \<Rightarrow> [l_root L]
                   | Some c \<Rightarrow> if c \<noteq> l_root L then [l_root L, c] else [l_root L]))"

definition credit_fold_levels :: "ladder \<Rightarrow> budget \<Rightarrow> credit list \<Rightarrow> (credit list \<times> credit list) list" where
  "credit_fold_levels L b base =
     (let rest = filter (\<lambda>c. c \<notin> set base) (l_credit_order L);
          most = (if int (length base) + int (length rest) \<le> b_credits b then int (length rest)
                  else b_credits b - int (length base) - 1)
      in map (\<lambda>extra. (filter (\<lambda>c. c \<in> set base \<union> set (take extra rest)) (l_credit_order L), drop extra rest))
           (rev [0..<nat (most + 1)]))"

definition credit_levels :: "ladder \<Rightarrow> budget \<Rightarrow> focus option \<Rightarrow> (credit list \<times> credit list) list" where
  "credit_levels L b fo =
     (case fo of
        None \<Rightarrow> credit_fold_levels L b (base_credits L fo)
      | Some f \<Rightarrow>
          (case f_members f of
             CreditMembers cs \<Rightarrow> [(l_root L # page_slice (f_page f) (f_page_size f) cs,
                                   rest_slice (f_page f) (f_page_size f) cs)]
           | _ \<Rightarrow> credit_fold_levels L b (base_credits L fo)))"

section \<open>Masters\<close>

record master_plan =
  p_shown :: "credit list"
  p_folded :: "credit list"
  p_masters :: "string list"
  p_buckets :: "(credit \<times> string, string list) dict"
  p_remainder :: "string list"
  p_lanes :: "credit list"

definition pinned_masters :: "focus option \<Rightarrow> string list" where
  "pinned_masters fo =
     (case fo of None \<Rightarrow> []
      | Some f \<Rightarrow>
          (case f_members f of
             MasterMembers ms \<Rightarrow> page_slice (f_page f) (f_page_size f) ms
           | _ \<Rightarrow> (case f_master f of Some m \<Rightarrow> [m] | None \<Rightarrow> [])))"

definition remainder_masters :: "focus option \<Rightarrow> string list" where
  "remainder_masters fo =
     (case fo of None \<Rightarrow> []
      | Some f \<Rightarrow>
          (case f_members f of
             MasterMembers ms \<Rightarrow> rest_slice (f_page f) (f_page_size f) ms | _ \<Rightarrow> []))"

definition floor_of_master :: "focus option \<Rightarrow> string \<Rightarrow> int" where
  "floor_of_master fo m =
     (if focuses_master fo m
      then int (length (item_page (the fo))) + bool_int (item_rest (the fo) \<noteq> []) else 1)"

definition floor_of_lane :: "ladder \<Rightarrow> focus option \<Rightarrow> credit \<Rightarrow> int" where
  "floor_of_lane L fo c =
     (if focuses_lane fo c
      then int (length (item_page (the fo))) + bool_int (item_rest (the fo) \<noteq> [])
           + bool_int (length (item_members (the fo)) < length (lane_of L c)) else 1)"

definition release_floor :: "ladder \<Rightarrow> string list \<Rightarrow> credit list \<Rightarrow> focus option \<Rightarrow> int" where
  "release_floor L pinned lanes fo =
     sum_list (map (floor_of_master fo) pinned) + sum_list (map (floor_of_lane L fo) lanes)"

text \<open>
  The loop that gives up one candidate after another, from the back, until what is kept fits.
  The third argument holds the distinct bucket keys counted so far.
\<close>

fun shrink :: "(nat \<Rightarrow> 'k) \<Rightarrow> (int \<Rightarrow> int \<Rightarrow> bool) \<Rightarrow> nat \<Rightarrow> 'k list \<Rightarrow> nat \<times> 'k list" where
  "shrink key fits 0 bs = (0, bs)"
| "shrink key fits (Suc k) bs =
     (if \<not> fits (int (Suc k)) (int (length bs))
      then shrink key fits k (if key k \<in> set bs then bs else bs @ [key k]) else (Suc k, bs))"

definition candidates :: "ladder \<Rightarrow> credit list \<Rightarrow> focus option \<Rightarrow> string list" where
  "candidates L shown fo =
     sort_key (master_priority L)
       (filter (\<lambda>m. m \<notin> set (pinned_masters fo) \<union> set (remainder_masters fo))
         (concat (map (masters_of L) shown)))"

definition plan_masters ::
  "ladder \<Rightarrow> credit list \<Rightarrow> credit list \<Rightarrow> budget \<Rightarrow> focus option \<Rightarrow> fold_mode \<Rightarrow> master_plan option" where
  "plan_masters L shown folded b fo mode =
     (let pinned = pinned_masters fo; remainder = remainder_masters fo;
          cands = candidates L shown fo;
          lanes = filter (\<lambda>c. lane_of L c \<noteq> []) shown;
          fixed_m = int (length pinned) + bool_int (remainder \<noteq> []) + int (length lanes);
          fixed_r = release_floor L pinned lanes fo;
          fits = (\<lambda>keep nb. fixed_m + keep + nb \<le> b_masters b \<and> fixed_r + keep \<le> b_releases b);
          (keep, bs) = shrink (\<lambda>k. bucket L mode (cands ! k)) fits (length cands) []
      in if \<not> fits (int keep) (int (length bs)) then None
         else Some \<lparr>p_shown = shown, p_folded = folded, p_masters = pinned @ take keep cands,
                    p_buckets = group_by (bucket L mode) (drop keep cands),
                    p_remainder = remainder, p_lanes = lanes\<rparr>)"

definition fit :: "ladder \<Rightarrow> budget \<Rightarrow> focus option \<Rightarrow> (strata_error, master_plan) result" where
  "fit L b fo =
     (case first_some (\<lambda>((shown, folded), mode). plan_masters L shown folded b fo mode)
             [(lv, mode). lv \<leftarrow> credit_levels L b fo, mode \<leftarrow> [ByDecade, Whole]] of
        Some p \<Rightarrow> Inr p | None \<Rightarrow> Inl NoViewFits)"

section \<open>Releases\<close>

record release_agg =
  ra_id :: string
  ra_parent :: string
  ra_items :: "item list"
  ra_decade :: "string option"

type_synonym release_view = "(item \<times> string) list \<times> release_agg list"

definition keeps :: "ladder \<Rightarrow> bool \<Rightarrow> bool \<Rightarrow> string \<Rightarrow> item \<Rightarrow> bool" where
  "keeps L keep_original keep_stateful m i \<longleftrightarrow>
     (keep_original \<and> rel_provider (it_release i) = Discogs
        \<and> rel_id (it_release i) = dict_get (l_anchor L) m [])
     \<or> (keep_stateful \<and> stateful i)"

definition fold_master :: "ladder \<Rightarrow> bool \<Rightarrow> bool \<Rightarrow> string \<Rightarrow> release_view" where
  "fold_master L keep_original keep_stateful m =
     (let parent = ''m:'' @ m;
          kept = filter (keeps L keep_original keep_stateful m) (items_of L m);
          rest = filter (\<lambda>i. \<not> keeps L keep_original keep_stateful m i) (items_of L m)
      in (map (\<lambda>i. (i, parent)) kept,
          if rest = [] then []
          else [\<lparr>ra_id = ''ra:m:'' @ m, ra_parent = parent, ra_items = rest, ra_decade = None\<rparr>]))"

definition fold_lane :: "bool \<Rightarrow> bool \<Rightarrow> credit \<times> item list \<Rightarrow> release_view" where
  "fold_lane keep_stateful by_decade = (\<lambda>(lane, lane_items).
     (let parent = ''nm:'' @ credit_id lane;
          kept = filter (\<lambda>i. keep_stateful \<and> stateful i) lane_items;
          rest = filter (\<lambda>i. \<not> (keep_stateful \<and> stateful i)) lane_items
      in (map (\<lambda>i. (i, parent)) kept,
          if rest = [] then []
          else if by_decade then
            map (\<lambda>(label, g). \<lparr>ra_id = ''ra:nm:'' @ credit_id lane @ '':'' @ label, ra_parent = parent,
                                ra_items = g, ra_decade = Some label\<rparr>)
              (group_by (\<lambda>i. decade (it_year i)) rest)
          else [\<lparr>ra_id = ''ra:nm:'' @ credit_id lane, ra_parent = parent, ra_items = rest, ra_decade = None\<rparr>])))"

definition fold_releases ::
  "ladder \<Rightarrow> string list \<Rightarrow> (credit \<times> item list) list \<Rightarrow> bool \<times> bool \<times> bool \<Rightarrow> release_view" where
  "fold_releases L masters lanes = (\<lambda>(keep_original, keep_stateful, by_decade).
     (let views = map (fold_master L keep_original keep_stateful) masters
                  @ map (fold_lane keep_stateful by_decade) lanes
      in (concat (map fst views), concat (map snd views))))"

text \<open>
  The part of the release plane a level 2 focus fixes: its page under its own parent, and one
  aggregate for the rest, which keeps the focus's id.
\<close>

definition focus_view :: "focus \<Rightarrow> string \<Rightarrow> string option \<Rightarrow> release_view" where
  "focus_view f parent label =
     (map (\<lambda>i. (i, parent)) (item_page f),
      if item_rest f = [] then []
      else [\<lparr>ra_id = f_id f, ra_parent = parent, ra_items = item_rest f, ra_decade = label\<rparr>])"

definition fixed_views :: "master_plan \<Rightarrow> focus option \<Rightarrow> release_view list" where
  "fixed_views p fo =
     map (\<lambda>m. focus_view (the fo) (''m:'' @ m) None) (filter (focuses_master fo) (p_masters p))
     @ map (\<lambda>c. focus_view (the fo) (''nm:'' @ credit_id c) (f_decade (the fo)))
         (filter (focuses_lane fo) (p_lanes p))"

definition open_masters :: "master_plan \<Rightarrow> focus option \<Rightarrow> string list" where
  "open_masters p fo = filter (\<lambda>m. \<not> focuses_master fo m) (p_masters p)"

definition open_lane_items :: "ladder \<Rightarrow> focus option \<Rightarrow> credit \<Rightarrow> item list" where
  "open_lane_items L fo c =
     (if focuses_lane fo c then filter (\<lambda>i. i \<notin> set (item_members (the fo))) (lane_of L c)
      else lane_of L c)"

definition open_lanes :: "ladder \<Rightarrow> master_plan \<Rightarrow> focus option \<Rightarrow> (credit \<times> item list) list" where
  "open_lanes L p fo =
     filter (\<lambda>l. snd l \<noteq> []) (map (\<lambda>c. (c, open_lane_items L fo c)) (p_lanes p))"

definition strategies :: "(bool \<times> bool \<times> bool) list" where
  "strategies = [(True, True, True), (True, True, False), (False, True, False), (False, False, False)]"

fun try_strategies ::
  "(bool \<times> bool \<times> bool \<Rightarrow> release_view) \<Rightarrow> int \<Rightarrow> (bool \<times> bool \<times> bool) list
   \<Rightarrow> (strata_error, release_view) result" where
  "try_strategies view room [] = Inl NoViewFits"
| "try_strategies view room (s # ss) =
     (let (nodes, aggs) = view s; (keep_original, keep_stateful, by_decade) = s in
      if int (length nodes) + int (length aggs) \<le> room \<or> \<not> (keep_original \<or> keep_stateful \<or> by_decade)
      then Inr (nodes, aggs) else try_strategies view room ss)"

definition everything :: "ladder \<Rightarrow> string list \<Rightarrow> (credit \<times> item list) list \<Rightarrow> (item \<times> string) list" where
  "everything L masters lanes =
     concat (map (\<lambda>m. map (\<lambda>i. (i, ''m:'' @ m)) (items_of L m)) masters)
     @ concat (map (\<lambda>(c, is). map (\<lambda>i. (i, ''nm:'' @ credit_id c)) is) lanes)"

definition plan_releases ::
  "ladder \<Rightarrow> master_plan \<Rightarrow> budget \<Rightarrow> focus option \<Rightarrow> (strata_error, release_view) result" where
  "plan_releases L p b fo =
     (let fn = concat (map fst (fixed_views p fo)); fa = concat (map snd (fixed_views p fo));
          ms = open_masters p fo; lanes = open_lanes L p fo;
          room = b_releases b - int (length fn) - int (length fa);
          allof = everything L ms lanes
      in if int (length allof) \<le> room then Inr (fn @ allof, fa)
         else case try_strategies (fold_releases L ms lanes) room strategies of
                Inl e \<Rightarrow> Inl e
              | Inr (nodes, aggs) \<Rightarrow> Inr (fn @ nodes, fa @ aggs))"

section \<open>The shrinking loop\<close>

lemma shrink_result:
  assumes "shrink key fits k bs = (k', bs')" "distinct bs"
  shows "k' \<le> k" "distinct bs'" "set bs' = set bs \<union> key ` {k'..<k}"
    and "0 < k' \<Longrightarrow> fits (int k') (int (length bs'))"
proof -
  have "k' \<le> k \<and> distinct bs' \<and> set bs' = set bs \<union> key ` {k'..<k}
      \<and> (0 < k' \<longrightarrow> fits (int k') (int (length bs')))"
    using assms
  proof (induction key fits k bs rule: shrink.induct)
    case (2 key fits k bs)
    show ?case
    proof (cases "fits (int (Suc k)) (int (length bs))")
      case True
      with 2 show ?thesis by auto
    next
      case False
      let ?bs = "if key k \<in> set bs then bs else bs @ [key k]"
      have "shrink key fits k ?bs = (k', bs')" "distinct ?bs" using 2 False by auto
      from 2(1) [OF False this] have "k' \<le> k" "distinct bs'" "set bs' = insert (key k) (set bs) \<union> key ` {k'..<k}"
        "0 < k' \<longrightarrow> fits (int k') (int (length bs'))" by (auto split: if_splits)
      moreover have "insert (key k) (set bs) \<union> key ` {k'..<k} = set bs \<union> key ` {k'..<Suc k}"
        using \<open>k' \<le> k\<close> by (auto simp: less_Suc_eq)
      ultimately show ?thesis by auto
    qed
  qed auto
  then show "k' \<le> k" "distinct bs'" "set bs' = set bs \<union> key ` {k'..<k}"
    and "0 < k' \<Longrightarrow> fits (int k') (int (length bs'))" by auto
qed

text \<open>The keys the loop counted are the buckets the folded candidates are then grouped into.\<close>

lemma shrink_buckets:
  assumes "shrink (\<lambda>k. f (xs ! k)) fits (length xs) [] = (keep, bs)"
  shows "length bs = length (group_by f (drop keep xs))"
proof -
  have "distinct bs" and "set bs = (\<lambda>k. f (xs ! k)) ` {keep..<length xs}"
    using shrink_result [OF assms] by auto
  moreover have "(\<lambda>k. f (xs ! k)) ` {keep..<length xs} = f ` set (drop keep xs)"
  proof -
    have "drop keep xs = map (\<lambda>k. xs ! k) [keep..<length xs]"
      by (metis drop_map drop_upt map_nth add_0)
    then show ?thesis by (auto simp: image_image)
  qed
  ultimately have "distinct bs" "set bs = set (dict_keys (group_by f (drop keep xs)))"
    by (simp_all add: keys_group_by del: set_map)
  then show ?thesis
    by (metis dict_wf_group_by distinct_card length_map)
qed

lemma plan_masters_cases:
  assumes "plan_masters L shown folded b fo mode = Some p"
  obtains keep where "keep \<le> length (candidates L shown fo)"
    "p = \<lparr>p_shown = shown, p_folded = folded,
          p_masters = pinned_masters fo @ take keep (candidates L shown fo),
          p_buckets = group_by (bucket L mode) (drop keep (candidates L shown fo)),
          p_remainder = remainder_masters fo, p_lanes = filter (\<lambda>c. lane_of L c \<noteq> []) shown\<rparr>"
    "int (length (p_masters p)) + bool_int (p_remainder p \<noteq> []) + int (length (p_lanes p))
       + int (length (p_buckets p)) \<le> b_masters b"
    "release_floor L (pinned_masters fo) (p_lanes p) fo + int keep \<le> b_releases b"
proof -
  let ?cs = "candidates L shown fo"
  let ?lanes = "filter (\<lambda>c. lane_of L c \<noteq> []) shown"
  let ?fm = "int (length (pinned_masters fo)) + bool_int (remainder_masters fo \<noteq> []) + int (length ?lanes)"
  let ?fr = "release_floor L (pinned_masters fo) ?lanes fo"
  let ?fits = "\<lambda>keep nb. ?fm + keep + nb \<le> b_masters b \<and> ?fr + keep \<le> b_releases b"
  obtain keep bs where sh: "shrink (\<lambda>k. bucket L mode (?cs ! k)) ?fits (length ?cs) [] = (keep, bs)"
    by fastforce
  have *: "?fits (int keep) (int (length bs))"
    and p: "p = \<lparr>p_shown = shown, p_folded = folded, p_masters = pinned_masters fo @ take keep ?cs,
          p_buckets = group_by (bucket L mode) (drop keep ?cs),
          p_remainder = remainder_masters fo, p_lanes = ?lanes\<rparr>"
    using assms sh unfolding plan_masters_def Let_def by (auto split: if_splits)
  have len: "length bs = length (p_buckets p)" using shrink_buckets [OF sh] p by simp
  have "keep \<le> length ?cs" using shrink_result [OF sh] by simp
  then show ?thesis using that [OF _ p] * len p by simp
qed

text \<open>Folding every candidate is the last resort of the loop: when that fits, a plan is found.\<close>

lemma plan_masters_exists:
  assumes "int (length (pinned_masters fo)) + bool_int (remainder_masters fo \<noteq> [])
      + int (length (filter (\<lambda>c. lane_of L c \<noteq> []) shown))
      + int (card (bucket L mode ` set (candidates L shown fo))) \<le> b_masters b"
    and "release_floor L (pinned_masters fo) (filter (\<lambda>c. lane_of L c \<noteq> []) shown) fo \<le> b_releases b"
  shows "plan_masters L shown folded b fo mode \<noteq> None"
proof -
  let ?cs = "candidates L shown fo"
  let ?lanes = "filter (\<lambda>c. lane_of L c \<noteq> []) shown"
  let ?fm = "int (length (pinned_masters fo)) + bool_int (remainder_masters fo \<noteq> []) + int (length ?lanes)"
  let ?fr = "release_floor L (pinned_masters fo) ?lanes fo"
  let ?fits = "\<lambda>keep nb. ?fm + keep + nb \<le> b_masters b \<and> ?fr + keep \<le> b_releases b"
  obtain keep bs where sh: "shrink (\<lambda>k. bucket L mode (?cs ! k)) ?fits (length ?cs) [] = (keep, bs)"
    by fastforce
  have "?fits (int keep) (int (length bs))"
  proof (cases "keep = 0")
    case True
    then have "set bs = bucket L mode ` set ?cs" "distinct bs"
      using shrink_result [OF sh] by (auto simp: set_conv_nth image_iff) blast+
    then have "length bs = card (bucket L mode ` set ?cs)" by (metis distinct_card)
    with True assms show ?thesis by simp
  next
    case False
    then show ?thesis using shrink_result(4) [OF sh] by simp
  qed
  then show ?thesis using sh unfolding plan_masters_def Let_def by simp
qed

section \<open>A validated budget always admits a view\<close>

definition fo_ok :: "ladder \<Rightarrow> budget \<Rightarrow> focus option \<Rightarrow> bool" where
  "fo_ok L b fo = (case fo of None \<Rightarrow> True | Some f \<Rightarrow> focus_ok L b f)"

text \<open>One credit plane: the drawn credits and the folded ones are the credits of the ladder.\<close>

definition credit_level_ok :: "ladder \<Rightarrow> budget \<Rightarrow> credit list \<times> credit list \<Rightarrow> bool" where
  "credit_level_ok L b = (\<lambda>(shown, folded). mset (shown @ folded) = mset (l_credit_order L)
     \<and> l_root L \<in> set shown
     \<and> int (length shown) + bool_int (folded \<noteq> []) \<le> b_credits b)"

lemma sum_list_map_mset: "mset xs = mset ys \<Longrightarrow> sum_list (map (f :: 'a \<Rightarrow> int) xs) = sum_list (map f ys)"
  by (metis mset_map sum_mset_sum_list)

lemma mset_concat_map_cong:
  assumes "mset xs = mset ys"
  shows "mset (concat (map f xs)) = mset (concat (map f ys))"
proof -
  have "mset (concat (map f zs)) = sum_mset (image_mset (\<lambda>x. mset (f x)) (mset zs))" for zs
    by (induction zs) auto
  then show ?thesis using assms by simp
qed

lemma length_filter_mset: "mset xs = mset ys \<Longrightarrow> length (filter P xs) = length (filter P ys)"
  by (metis mset_filter size_mset)

lemma sum_list_bool_int: "sum_list (map (\<lambda>x. bool_int (P x)) xs) = int (length (filter P xs))"
  by (induction xs) (auto simp: bool_int_def)

lemma sum_list_ones: "(\<And>x. x \<in> set xs \<Longrightarrow> f x = 1) \<Longrightarrow> sum_list (map f xs) = int (length xs)"
  by (induction xs) auto

text \<open>What a plan for the two upper planes guarantees.\<close>

definition plan_ok :: "ladder \<Rightarrow> budget \<Rightarrow> focus option \<Rightarrow> master_plan \<Rightarrow> bool" where
  "plan_ok L b fo p \<longleftrightarrow>
     credit_level_ok L b (p_shown p, p_folded p)
     \<and> p_lanes p = filter (\<lambda>c. lane_of L c \<noteq> []) (p_shown p)
     \<and> mset (p_masters p @ concat (map snd (p_buckets p)) @ p_remainder p)
         = mset (concat (map (masters_of L) (p_shown p)))
     \<and> (\<forall>(k, ms) \<in> set (p_buckets p). ms \<noteq> [] \<and> (\<forall>m \<in> set ms. credit_of L m = fst k))
     \<and> p_remainder p = remainder_masters fo
     \<and> set (pinned_masters fo) \<subseteq> set (p_masters p)
     \<and> (\<forall>f cs. fo = Some f \<longrightarrow> f_members f = CreditMembers cs
          \<longrightarrow> set (page_slice (f_page f) (f_page_size f) cs) \<subseteq> set (p_shown p))
     \<and> int (length (p_masters p)) + bool_int (p_remainder p \<noteq> []) + int (length (p_lanes p))
         + int (length (p_buckets p)) \<le> b_masters b
     \<and> sum_list (map (floor_of_master fo) (p_masters p)) + sum_list (map (floor_of_lane L fo) (p_lanes p))
         \<le> b_releases b
     \<and> (\<forall>f c. fo = Some f \<longrightarrow> f_credit f = Some c \<longrightarrow> c \<in> set (p_shown p))"

lemma plan_okD:
  assumes "plan_ok L b fo p"
  shows plan_ok_masters: "mset (p_masters p @ concat (map snd (p_buckets p)) @ p_remainder p)
         = mset (concat (map (masters_of L) (p_shown p)))"
    and plan_ok_plane: "int (length (p_masters p)) + bool_int (p_remainder p \<noteq> []) + int (length (p_lanes p))
         + int (length (p_buckets p)) \<le> b_masters b"
    and plan_ok_credits: "mset (p_shown p @ p_folded p) = mset (l_credit_order L)"
    and plan_ok_lanes: "p_lanes p = filter (\<lambda>c. lane_of L c \<noteq> []) (p_shown p)"
  using assms unfolding plan_ok_def credit_level_ok_def by blast+

section \<open>Folding the release plane\<close>

text \<open>The releases a view of the release plane accounts for, drawn or held.\<close>

definition view_items :: "release_view \<Rightarrow> item multiset" where
  "view_items v = mset (map fst (fst v)) + mset (concat (map ra_items (snd v)))"

definition view_size :: "release_view \<Rightarrow> int" where
  "view_size v = int (length (fst v)) + int (length (snd v))"

lemma view_items_append: "view_items (ns @ ns', as @ as') = view_items (ns, as) + view_items (ns', as')"
  by (simp add: view_items_def)

lemma view_items_concat:
  "view_items (concat (map fst vs), concat (map snd vs)) = sum_list (map view_items vs)"
  by (induction vs) (auto simp: view_items_def)

lemma view_size_concat:
  "view_size (concat (map fst vs), concat (map snd vs)) = sum_list (map view_size vs)"
  by (induction vs) (auto simp: view_size_def)

lemma agg_items_if [simp]:
  "concat (map ra_items (if rs = [] then [] else [\<lparr>ra_id = i, ra_parent = pa, ra_items = rs, ra_decade = d\<rparr>])) = rs"
  by simp

lemma fold_master_items: "view_items (fold_master L ko ks m) = mset (items_of L m)"
  unfolding fold_master_def view_items_def Let_def fst_conv snd_conv agg_items_if
  by (simp add: comp_def mset_filter_split [of "keeps L ko ks m" "items_of L m", simplified])

lemma agg_items_groups:
  "concat (map ra_items (map (\<lambda>(label, g). \<lparr>ra_id = i label, ra_parent = pa, ra_items = g, ra_decade = Some label\<rparr>) gs))
     = concat (map snd gs)"
  by (induction gs) auto

lemma fold_lane_aggs:
  "mset (concat (map ra_items (snd (fold_lane ks bd (c, is))))) = mset (filter (\<lambda>i. \<not> (ks \<and> stateful i)) is)"
proof (cases "filter (\<lambda>i. \<not> (ks \<and> stateful i)) is = []")
  case True
  then show ?thesis unfolding fold_lane_def Let_def prod.case snd_conv True by simp
next
  case False
  show ?thesis
    unfolding fold_lane_def Let_def prod.case snd_conv if_not_P [OF False]
    by (cases bd) (simp_all only: if_True if_False agg_items_groups mset_concat_group_by list.map concat.simps
        release_agg.select_convs append_Nil2)
qed

lemma fold_lane_items: "view_items (fold_lane ks bd (c, is)) = mset is"
proof -
  have "map fst (fst (fold_lane ks bd (c, is))) = filter (\<lambda>i. ks \<and> stateful i) is"
    by (simp add: fold_lane_def Let_def comp_def)
  then show ?thesis unfolding view_items_def fold_lane_aggs by (simp only: mset_filter_split)
qed

lemma fold_releases_items:
  "view_items (fold_releases L ms lanes st)
     = mset (concat (map (items_of L) ms)) + mset (concat (map snd lanes))"
proof -
  obtain ko ks bd where st: "st = (ko, ks, bd)" by (cases st)
  have "sum_list (map view_items (map (fold_master L ko ks) ms)) = mset (concat (map (items_of L) ms))"
    by (simp add: mset_concat_map fold_master_items comp_def)
  moreover have "sum_list (map view_items (map (fold_lane ks bd) lanes)) = mset (concat (map snd lanes))"
    by (induction lanes) (auto simp: fold_lane_items)
  ultimately show ?thesis
    unfolding fold_releases_def st Let_def prod.case view_items_concat
    by (simp only: map_append sum_list_append)
qed

lemma map_fst_pairs: "map fst (concat (map (\<lambda>x. map (\<lambda>i. (i, par x)) (g x)) xs)) = concat (map g xs)"
  by (induction xs) (auto simp: comp_def)

lemma everything_items:
  "view_items (everything L ms lanes, [])
     = mset (concat (map (items_of L) ms)) + mset (concat (map snd lanes))"
  unfolding view_items_def everything_def fst_conv snd_conv case_prod_beta map_append map_fst_pairs mset_append
  by simp

text \<open>The coarsest strategy draws nothing and takes one aggregate per open master and lane.\<close>

lemma fold_releases_coarsest:
  "view_size (fold_releases L ms lanes (False, False, False)) \<le> int (length ms) + int (length lanes)"
proof -
  have "view_size (fold_master L False False m) \<le> 1" for m
    by (simp add: view_size_def fold_master_def keeps_def Let_def)
  then have "sum_list (map view_size (map (fold_master L False False) ms)) \<le> int (length ms)"
    by (induction ms) (auto intro: add_mono)
  moreover have "view_size (fold_lane False False l) \<le> 1" for l
    by (cases l) (simp add: view_size_def fold_lane_def Let_def)
  then have "sum_list (map view_size (map (fold_lane False False) lanes)) \<le> int (length lanes)"
    by (induction lanes) (auto intro: add_mono)
  ultimately show ?thesis
    unfolding fold_releases_def Let_def prod.case view_size_concat
    by (simp only: map_append sum_list_append add_mono)
qed

lemma try_strategies_total:
  "(False, False, False) \<in> set ss \<Longrightarrow> \<exists>st. try_strategies view room ss = Inr (view st)
     \<and> (view_size (view st) \<le> room \<or> st = (False, False, False))"
proof (induction ss)
  case (Cons s ss)
  obtain ns as where v: "view s = (ns, as)" by fastforce
  show ?case
  proof (cases "view_size (view s) \<le> room \<or> s = (False, False, False)")
    case True
    then show ?thesis by (intro exI [of _ s]) (auto simp: v view_size_def split: prod.splits)
  next
    case False
    then have "try_strategies view room (s # ss) = try_strategies view room ss"
      by (auto simp: v view_size_def split: prod.splits)
    with False Cons show ?thesis by auto
  qed
qed simp

lemma strategies_coarsest: "(False, False, False) \<in> set strategies"
  by (simp add: strategies_def)

context ladder_index
begin

lemma root_on_order: "l_root L \<in> set (l_credit_order L)"
  using order_root by auto

lemma focus_credit_on_order:
  assumes "focus_ok L b f" "f_credit f = Some c"
  shows "c \<in> set (l_credit_order L)"
proof (cases "f_members f")
  case (CreditMembers cs)
  with assms show ?thesis by (simp add: focus_ok_def parsed_ok_def)
next
  case (MasterMembers ms)
  with assms have "masters_of L c \<noteq> []" by (auto simp: focus_ok_def parsed_ok_def)
  then show ?thesis by (rule masters_on_order)
next
  case (ItemMembers "is")
  with assms consider m where "dict_mem m (l_items_by_master L)" "c = credit_of L m"
    | d where "is \<noteq> []" "is = (case d of None \<Rightarrow> lane_of L c
        | Some d \<Rightarrow> filter (\<lambda>i. decade (it_year i) = d) (lane_of L c))"
    by (auto simp: focus_ok_def parsed_ok_def)
  then show ?thesis
  proof cases
    case 1
    then have "masters_of L c \<noteq> []" using known_master by force
    then show ?thesis by (rule masters_on_order)
  next
    case 2
    then have "lane_of L c \<noteq> []" by (auto split: option.splits)
    then show ?thesis by (rule lane_on_order)
  qed
qed

lemma base_credits_ok:
  assumes "fo_ok L b fo"
  shows "set (base_credits L fo) \<subseteq> set (l_credit_order L)" "distinct (base_credits L fo)"
    "l_root L \<in> set (base_credits L fo)" "length (base_credits L fo) \<le> 2"
  using assms focus_credit_on_order root_on_order
  by (auto simp: base_credits_def fo_ok_def split: option.splits)

lemma credit_fold_level_ok:
  assumes base: "set base \<subseteq> set (l_credit_order L)" "distinct base" "l_root L \<in> set base"
    and len: "int (length base) < b_credits b"
    and lv: "(shown, folded) \<in> set (credit_fold_levels L b base)"
  shows "credit_level_ok L b (shown, folded)" "set base \<subseteq> set shown"
proof -
  let ?o = "l_credit_order L"
  define rest where "rest = filter (\<lambda>c. c \<notin> set base) ?o"
  obtain extra where e: "shown = filter (\<lambda>c. c \<in> set base \<union> set (take extra rest)) ?o" "folded = drop extra rest"
    and le: "int extra \<le> (if int (length base) + int (length rest) \<le> b_credits b then int (length rest)
                  else b_credits b - int (length base) - 1)"
    using lv unfolding credit_fold_levels_def Let_def rest_def by auto
  have d: "distinct rest" "distinct shown" "distinct folded"
    using order_distinct by (auto simp: rest_def e)
  have sh: "set shown = set base \<union> set (take extra rest)"
    using base(1) unfolding e(1) by (auto simp: rest_def dest: in_set_takeD)
  have disj: "set base \<inter> set rest = {}" by (auto simp: rest_def)
  have tf: "set (take extra rest) \<inter> set folded = {}" "set (take extra rest) \<union> set folded = set rest"
    unfolding e(2) using d(1) set_take_disj_set_drop_if_distinct [of rest extra extra]
      set_append [of "take extra rest" "drop extra rest"] by simp_all
  have "distinct (shown @ folded)"
    using d sh disj tf by (auto simp: e(2) dest: in_set_dropD)
  moreover have "set (shown @ folded) = set ?o"
    using sh tf(2) base(1) by (auto simp: rest_def)
  ultimately have "mset (shown @ folded) = mset ?o"
    using order_distinct by (metis set_eq_iff_mset_eq_distinct)
  moreover have "length shown = length base + length (take extra rest)"
  proof -
    have "length shown = card (set base \<union> set (take extra rest))"
      using d(2) sh by (metis distinct_card)
    also have "\<dots> = card (set base) + card (set (take extra rest))"
      using disj by (intro card_Un_disjoint) (auto dest: in_set_takeD)
    finally show ?thesis using base(2) d(1) by (simp add: distinct_card)
  qed
  then have "int (length shown) + bool_int (folded \<noteq> []) \<le> b_credits b"
    using le len by (auto simp: bool_int_def e(2) min_def split: if_splits)
  ultimately show "credit_level_ok L b (shown, folded)" "set base \<subseteq> set shown"
    using sh base(3) by (auto simp: credit_level_ok_def)
qed

lemma credit_level_distinct: "credit_level_ok L b (shown, folded) \<Longrightarrow> distinct (shown @ folded)"
  using order_distinct by (metis (mono_tags, lifting) credit_level_ok_def mset_eq_imp_distinct_iff case_prod_conv)

lemma credit_fold_coarsest:
  assumes base: "set base \<subseteq> set (l_credit_order L)" "int (length base) < b_credits b"
  shows "\<exists>shown folded. (shown, folded) \<in> set (credit_fold_levels L b base) \<and> set shown = set base"
proof -
  let ?o = "l_credit_order L"
  let ?rest = "filter (\<lambda>c. c \<notin> set base) ?o"
  have "(filter (\<lambda>c. c \<in> set base \<union> set (take 0 ?rest)) ?o, drop 0 ?rest) \<in> set (credit_fold_levels L b base)"
    unfolding credit_fold_levels_def Let_def set_map set_rev set_upt
    by (rule image_eqI [where x = 0]) (use base(2) in auto)
  moreover have "set (filter (\<lambda>c. c \<in> set base \<union> set (take 0 ?rest)) ?o) = set base"
    using base(1) by auto
  ultimately show ?thesis by blast
qed

lemma credit_levels_ok:
  assumes "budget_ok b" "fo_ok L b fo" "(shown, folded) \<in> set (credit_levels L b fo)"
  shows "credit_level_ok L b (shown, folded)"
proof (cases "\<exists>f cs. fo = Some f \<and> f_members f = CreditMembers cs")
  case True
  then obtain f cs where f: "fo = Some f" "f_members f = CreditMembers cs" by blast
  then have ok: "focus_ok L b f" and cs: "cs = tl (l_credit_order L)"
    using assms(2) by (auto simp: fo_ok_def focus_ok_def parsed_ok_def)
  have lv: "shown = l_root L # page_slice (f_page f) (f_page_size f) cs"
    "folded = rest_slice (f_page f) (f_page_size f) cs"
    using assms(3) f by (auto simp: credit_levels_def)
  have "mset (shown @ folded) = add_mset (l_root L) (mset cs)"
    using page_rest_mset [of "f_page f" "f_page_size f" cs] focus_sizes [OF ok] lv by simp
  also have "\<dots> = mset (l_credit_order L)" using order_root cs by auto
  finally show ?thesis
    using credit_page_fits [OF ok assms(1) f(2)] lv by (simp add: credit_level_ok_def)
next
  case False
  then have lv: "(shown, folded) \<in> set (credit_fold_levels L b (base_credits L fo))"
    using assms(3) by (auto simp: credit_levels_def split: option.splits members.splits)
  show ?thesis
    using base_credits_ok [OF assms(2)] assms(1)
    by (intro credit_fold_level_ok(1) [OF _ _ _ _ lv]) (auto simp: budget_ok_def)
qed

text \<open>Folded whole, the candidates of the drawn credits take at most one bucket per credit.\<close>

lemma whole_buckets:
  "card (bucket L Whole ` set (candidates L shown fo))
     \<le> length (filter (\<lambda>c. \<exists>m \<in> set (masters_of L c).
          m \<notin> set (pinned_masters fo) \<union> set (remainder_masters fo)) shown)"
proof -
  let ?P = "\<lambda>c. \<exists>m \<in> set (masters_of L c). m \<notin> set (pinned_masters fo) \<union> set (remainder_masters fo)"
  have "bucket L Whole ` set (candidates L shown fo) \<subseteq> (\<lambda>c. (c, ALL_LABEL)) ` set (filter ?P shown)"
    by (auto simp: candidates_def bucket_def masters_credit)
  then have "card (bucket L Whole ` set (candidates L shown fo))
      \<le> card ((\<lambda>c. (c, ALL_LABEL)) ` set (filter ?P shown))"
    by (intro card_mono) auto
  also have "\<dots> \<le> card (set (filter ?P shown))" by (intro card_image_le) simp
  also have "\<dots> \<le> length (filter ?P shown)" by (rule card_length)
  finally show ?thesis .
qed

lemma plan_level_credits:
  assumes "budget_ok b" "focus_ok L b f" "f_members f = CreditMembers cs"
  shows "plan_masters L (l_root L # page_slice (f_page f) (f_page_size f) cs) folded b (Some f) Whole \<noteq> None"
proof (rule plan_masters_exists)
  let ?sh = "l_root L # page_slice (f_page f) (f_page_size f) cs"
  let ?lanes = "filter (\<lambda>c. lane_of L c \<noteq> []) ?sh"
  have none: "pinned_masters (Some f) = []" "remainder_masters (Some f) = []" "f_lane f = None"
    using assms(2,3) by (simp_all add: pinned_masters_def remainder_masters_def focus_ok_def parsed_ok_def)
  have n: "int (length ?sh) \<le> b_credits b"
    using credit_page_fits [OF assms(2,1,3)] by (simp add: bool_int_def split: if_splits)
  have lanes: "length ?lanes \<le> length ?sh" by (rule length_filter_le)
  have "card (bucket L Whole ` set (candidates L ?sh (Some f))) \<le> length ?sh"
    using whole_buckets [of ?sh "Some f"] length_filter_le le_trans by blast
  with n lanes assms(1) show "int (length (pinned_masters (Some f))) + bool_int (remainder_masters (Some f) \<noteq> [])
      + int (length ?lanes) + int (card (bucket L Whole ` set (candidates L ?sh (Some f)))) \<le> b_masters b"
    unfolding none budget_ok_def bool_int_def list.size by simp
  have "release_floor L (pinned_masters (Some f)) ?lanes (Some f) = int (length ?lanes)"
    unfolding release_floor_def none
    by (simp only: list.map sum_list.Nil add_0, rule sum_list_ones)
      (simp add: floor_of_lane_def focuses_lane_def none(3))
  then show "release_floor L (pinned_masters (Some f)) ?lanes (Some f) \<le> b_releases b"
    using n lanes assms(1) unfolding budget_ok_def by linarith
qed

text \<open>The coarsest credit plane of any other view draws the root and the focused credit only.\<close>

lemma plan_level_none:
  assumes "budget_ok b" "mset shown = mset [l_root L]"
  shows "plan_masters L shown folded b None Whole \<noteq> None"
proof (rule plan_masters_exists)
  let ?lanes = "filter (\<lambda>c. lane_of L c \<noteq> []) shown"
  have lanes: "length ?lanes \<le> 1"
    using length_filter_le [of "\<lambda>c. lane_of L c \<noteq> []" shown] assms(2) by (metis One_nat_def length_Cons list.size(3) size_mset)
  have "card (bucket L Whole ` set (candidates L shown None)) \<le> 1"
    using whole_buckets [of shown None] length_filter_le [of _ shown] assms(2)
    by (metis (no_types, lifting) One_nat_def le_trans length_Cons list.size(3) size_mset)
  with lanes assms(1) show "int (length (pinned_masters None)) + bool_int (remainder_masters None \<noteq> [])
      + int (length ?lanes) + int (card (bucket L Whole ` set (candidates L shown None))) \<le> b_masters b"
    by (simp add: pinned_masters_def remainder_masters_def bool_int_def budget_ok_def)
  have "release_floor L (pinned_masters None) ?lanes None = int (length ?lanes)"
    by (simp add: release_floor_def pinned_masters_def floor_of_lane_def focuses_lane_def sum_list_ones)
  then show "release_floor L (pinned_masters None) ?lanes None \<le> b_releases b"
    using lanes assms(1) by (simp add: budget_ok_def)
qed

lemma plan_level_masters:
  assumes "budget_ok b" "focus_ok L b f" "f_members f = MasterMembers ms" "f_credit f = Some c"
    and sh: "mset shown = mset (focus_base L c)"
  shows "plan_masters L shown folded b (Some f) Whole \<noteq> None"
proof (rule plan_masters_exists)
  let ?lanes = "filter (\<lambda>c. lane_of L c \<noteq> []) shown"
  let ?pg = "page_slice (f_page f) (f_page_size f) ms" and ?rs = "rest_slice (f_page f) (f_page_size f) ms"
  have pin: "pinned_masters (Some f) = ?pg" "remainder_masters (Some f) = ?rs"
    using assms(3) by (simp_all add: pinned_masters_def remainder_masters_def)
  have held: "set ?pg \<union> set ?rs = set ms"
    using focus_sizes [OF assms(2)] by (intro page_rest_set) auto
  have lanes: "int (length ?lanes) = lanes_of_masters L c"
    unfolding lanes_of_masters_def by (rule arg_cong [where f = int], rule length_filter_mset [OF sh])
  let ?Q = "\<lambda>c. list_ex (\<lambda>m. m \<notin> set ms) (masters_of L c)"
  have "card (bucket L Whole ` set (candidates L shown (Some f))) \<le> length (filter ?Q shown)"
    using whole_buckets [of shown "Some f"] unfolding pin held list_ex_iff .
  also have "\<dots> = length (filter ?Q (focus_base L c))"
    by (rule length_filter_mset [OF sh])
  finally have card: "int (card (bucket L Whole ` set (candidates L shown (Some f))))
      \<le> int (length (filter ?Q (focus_base L c)))" by simp
  have "bool_int (?Q (l_root L)) \<le> bool_int (masters_of L (l_root L) \<noteq> [])"
    by (auto simp: bool_int_def)
  then have "lanes_of_masters L c + int (length (filter ?Q (focus_base L c))) \<le> others_m L c ms"
    unfolding others_m_def lanes_of_masters_def sum_list_bool_int [symmetric] focus_base_def by simp
  with card have "lanes_of_masters L c + int (card (bucket L Whole ` set (candidates L shown (Some f))))
      \<le> others_m L c ms" by linarith
  then show "int (length (pinned_masters (Some f))) + bool_int (remainder_masters (Some f) \<noteq> [])
      + int (length ?lanes) + int (card (bucket L Whole ` set (candidates L shown (Some f)))) \<le> b_masters b"
    using master_page_fits(1) [OF assms(2,1,3,4)] lanes pin by simp
  have "release_floor L (pinned_masters (Some f)) ?lanes (Some f) = int (length ?pg) + int (length ?lanes)"
    unfolding release_floor_def pin
    by (intro arg_cong2 [where f = "(+)"] sum_list_ones)
      (simp_all add: floor_of_master_def floor_of_lane_def focuses_lane_def focuses_master_def assms(3) level_def)
  then show "release_floor L (pinned_masters (Some f)) ?lanes (Some f) \<le> b_releases b"
    using master_page_fits(2) [OF assms(2,1,3,4)] lanes by simp
qed

lemma plan_level_items:
  assumes "budget_ok b" "focus_ok L b f" "f_members f = ItemMembers is" "f_credit f = Some c"
    and sh: "mset shown = mset (focus_base L c)"
  shows "plan_masters L shown folded b (Some f) Whole \<noteq> None"
proof (rule plan_masters_exists)
  let ?lanes = "filter (\<lambda>c. lane_of L c \<noteq> []) shown"
  let ?pg = "item_page f" and ?rs = "item_rest f"
  have n: "length shown \<le> 2"
    using arg_cong [OF sh, of size] by (simp add: focus_base_def split: if_splits)
  have lanes: "length ?lanes \<le> 2" using n length_filter_le le_trans by blast
  have "card (bucket L Whole ` set (candidates L shown (Some f))) \<le> 2"
    using whole_buckets [of shown "Some f"] n length_filter_le le_trans by blast
  moreover have "length (pinned_masters (Some f)) \<le> 1" "remainder_masters (Some f) = []"
    using assms(3) by (simp_all add: pinned_masters_def remainder_masters_def split: option.splits)
  ultimately show "int (length (pinned_masters (Some f))) + bool_int (remainder_masters (Some f) \<noteq> [])
      + int (length ?lanes) + int (card (bucket L Whole ` set (candidates L shown (Some f)))) \<le> b_masters b"
    using lanes assms(1) by (simp add: bool_int_def budget_ok_def)
  have fl: "sum_list (map g ?lanes) = sum_list (map g (filter (\<lambda>c. lane_of L c \<noteq> []) (focus_base L c)))"
    for g :: "credit \<Rightarrow> int"
    by (rule sum_list_map_mset) (metis mset_filter sh)
  have page: "int (length ?pg) + bool_int (?rs \<noteq> []) + lanes_of_items L c (f_lane f) is \<le> b_releases b"
    using item_page_fits [OF assms(2,1,3,4)] assms(3) by (simp add: item_page_def item_rest_def)
  have "release_floor L (pinned_masters (Some f)) ?lanes (Some f)
      \<le> int (length ?pg) + bool_int (?rs \<noteq> []) + lanes_of_items L c (f_lane f) is"
  proof (cases "f_master f")
    case (Some m)
    then have lane: "f_lane f = None" using assms(2,3) by (auto simp: focus_ok_def parsed_ok_def)
    have "sum_list (map (floor_of_lane L (Some f)) ?lanes) = lanes_of_items L c (f_lane f) is"
      unfolding fl lanes_of_items_def
      by (simp add: focus_base_def floor_of_lane_def focuses_lane_def lane bool_int_def)
    then show ?thesis
      using assms(3) Some
      by (simp add: release_floor_def pinned_masters_def floor_of_master_def focuses_master_def level_def)
  next
    case None
    then have lane: "f_lane f = Some c" using assms(2,3,4) by (auto simp: focus_ok_def parsed_ok_def)
    have ne: "lane_of L c \<noteq> []"
      using assms(2,3,4) None by (auto simp: focus_ok_def parsed_ok_def split: option.splits)
    have "sum_list (map (floor_of_lane L (Some f)) ?lanes)
        = int (length ?pg) + bool_int (?rs \<noteq> []) + lanes_of_items L c (f_lane f) is"
      unfolding fl lanes_of_items_def
      using ne assms(3) by (cases "c = l_root L")
        (auto simp: focus_base_def floor_of_lane_def focuses_lane_def lane level_def bool_int_def item_members_def)
    then show ?thesis
      using assms(3) None by (simp add: release_floor_def pinned_masters_def)
  qed
  with page show "release_floor L (pinned_masters (Some f)) ?lanes (Some f) \<le> b_releases b" by linarith
qed

lemma fit_total:
  assumes "budget_ok b" "fo_ok L b fo"
  shows "\<exists>p. fit L b fo = Inr p"
proof -
  have "\<exists>shown folded. (shown, folded) \<in> set (credit_levels L b fo)
      \<and> plan_masters L shown folded b fo Whole \<noteq> None"
  proof (cases "\<exists>f cs. fo = Some f \<and> f_members f = CreditMembers cs")
    case True
    then obtain f cs where f: "fo = Some f" "f_members f = CreditMembers cs" by blast
    then show ?thesis
      using plan_level_credits [of b f cs] assms by (auto simp: credit_levels_def fo_ok_def)
  next
    case False
    have base: "set (base_credits L fo) \<subseteq> set (l_credit_order L)" "distinct (base_credits L fo)"
      "l_root L \<in> set (base_credits L fo)" "int (length (base_credits L fo)) < b_credits b"
      using base_credits_ok [OF assms(2)] assms(1) by (auto simp: budget_ok_def)
    obtain shown folded where lv: "(shown, folded) \<in> set (credit_fold_levels L b (base_credits L fo))"
      and "set shown = set (base_credits L fo)"
      using credit_fold_coarsest [OF base(1,4)] by blast
    moreover have "distinct shown"
      using credit_level_distinct [OF credit_fold_level_ok(1) [OF base lv]] by simp
    ultimately have sh: "mset shown = mset (base_credits L fo)"
      using base(2) by (metis set_eq_iff_mset_eq_distinct)
    have "plan_masters L shown folded b fo Whole \<noteq> None"
    proof (cases fo)
      case None
      then show ?thesis using plan_level_none [OF assms(1)] sh by (simp add: base_credits_def)
    next
      case (Some f)
      then have ok: "focus_ok L b f" using assms(2) by (simp add: fo_ok_def)
      then obtain c where c: "f_credit f = Some c"
        using False Some by (cases "f_members f") (auto simp: focus_ok_def parsed_ok_def)
      have "base_credits L fo = focus_base L c" using Some c by (simp add: base_credits_def focus_base_def)
      then show ?thesis
        using False Some c ok sh assms(1) plan_level_masters plan_level_items
        by (cases "f_members f") auto
    qed
    moreover have "(shown, folded) \<in> set (credit_levels L b fo)"
      using False lv by (auto simp: credit_levels_def split: option.splits members.splits)
    ultimately show ?thesis by blast
  qed
  then obtain shown folded where "(shown, folded) \<in> set (credit_levels L b fo)"
    "plan_masters L shown folded b fo Whole \<noteq> None" by blast
  then have "first_some (\<lambda>((shown, folded), mode). plan_masters L shown folded b fo mode)
      [(lv, mode). lv \<leftarrow> credit_levels L b fo, mode \<leftarrow> [ByDecade, Whole]] \<noteq> None"
    unfolding first_some_None by force
  then show ?thesis unfolding fit_def by auto
qed

lemma focus_credit_shown:
  assumes "budget_ok b" "fo_ok L b fo" "(shown, folded) \<in> set (credit_levels L b fo)"
    and "fo = Some f" "f_credit f = Some c"
  shows "c \<in> set shown"
proof -
  have "\<not> (\<exists>cs. f_members f = CreditMembers cs)"
    using assms(2,4,5) by (auto simp: fo_ok_def focus_ok_def parsed_ok_def)
  then have lv: "(shown, folded) \<in> set (credit_fold_levels L b (base_credits L fo))"
    using assms(3,4) by (auto simp: credit_levels_def split: members.splits)
  have "c \<in> set (base_credits L fo)" using assms(4,5) by (simp add: base_credits_def)
  also have "\<dots> \<subseteq> set shown"
    using base_credits_ok [OF assms(2)] assms(1)
    by (intro credit_fold_level_ok(2) [OF _ _ _ _ lv]) (auto simp: budget_ok_def)
  finally show ?thesis .
qed

lemma held_masters:
  assumes "fo_ok L b fo" and shown: "\<forall>f c. fo = Some f \<longrightarrow> f_credit f = Some c \<longrightarrow> c \<in> set shown"
  shows "distinct (pinned_masters fo @ remainder_masters fo)"
    "set (pinned_masters fo @ remainder_masters fo) \<subseteq> set (concat (map (masters_of L) shown))"
proof -
  have "distinct (pinned_masters fo @ remainder_masters fo)
      \<and> set (pinned_masters fo @ remainder_masters fo) \<subseteq> set (concat (map (masters_of L) shown))"
  proof (cases fo)
    case None
    then show ?thesis by (simp add: pinned_masters_def remainder_masters_def)
  next
    case (Some f)
    with assms(1) have ok: "focus_ok L b f" by (simp add: fo_ok_def)
    show ?thesis
    proof (cases "f_members f")
      case (CreditMembers cs)
      with ok Some show ?thesis
        by (simp add: pinned_masters_def remainder_masters_def focus_ok_def parsed_ok_def)
    next
      case (MasterMembers ms)
      with ok obtain c where c: "f_credit f = Some c" "set ms \<subseteq> set (masters_of L c)" "distinct ms"
        using masters_distinct by (auto simp: focus_ok_def parsed_ok_def)
      with Some shown have "c \<in> set shown" by blast
      with c show ?thesis
        using page_rest_distinct [of "f_page f" "f_page_size f" ms] page_rest_set [of "f_page f" "f_page_size f" ms]
          focus_sizes [OF ok] Some MasterMembers
        by (auto simp: pinned_masters_def remainder_masters_def)
    next
      case (ItemMembers "is")
      show ?thesis
      proof (cases "f_master f")
        case (Some m)
        with ItemMembers ok have "f_credit f = Some (credit_of L m)" "m \<in> set (masters_of L (credit_of L m))"
          using known_master by (auto simp: focus_ok_def parsed_ok_def)
        with Some \<open>fo = Some f\<close> ItemMembers show ?thesis
          using shown by (auto simp: pinned_masters_def remainder_masters_def)
      qed (use ItemMembers \<open>fo = Some f\<close> in \<open>simp add: pinned_masters_def remainder_masters_def\<close>)
    qed
  qed
  then show "distinct (pinned_masters fo @ remainder_masters fo)"
    "set (pinned_masters fo @ remainder_masters fo) \<subseteq> set (concat (map (masters_of L) shown))" by auto
qed

lemma distinct_masters: "distinct cs \<Longrightarrow> distinct (concat (map (masters_of L) cs))"
proof (induction cs)
  case (Cons c cs)
  have "set (masters_of L c) \<inter> set (masters_of L d) = {}" if "d \<in> set cs" for d
    using Cons.prems that masters_credit [of _ c] masters_credit [of _ d] by fastforce
  then have "set (masters_of L c) \<inter> set (concat (map (masters_of L) cs)) = {}" by auto
  with Cons show ?case by (simp add: masters_distinct)
qed simp

text \<open>The masters a focus holds and the candidates make up the masters of the drawn credits.\<close>

lemma mset_candidates:
  assumes "distinct shown" "fo_ok L b fo"
    and "\<forall>f c. fo = Some f \<longrightarrow> f_credit f = Some c \<longrightarrow> c \<in> set shown"
  shows "mset (pinned_masters fo) + mset (remainder_masters fo) + mset (candidates L shown fo)
    = mset (concat (map (masters_of L) shown))"
proof -
  let ?h = "pinned_masters fo @ remainder_masters fo" and ?ms = "concat (map (masters_of L) shown)"
  note h = held_masters [OF assms(2,3)]
  have "mset (filter (\<lambda>m. m \<in> set ?h) ?ms) = mset ?h"
    using h distinct_masters [OF assms(1)]
    by (subst set_eq_iff_mset_eq_distinct [symmetric]) (auto simp del: set_concat)
  moreover have "mset (candidates L shown fo) = mset (filter (\<lambda>m. \<not> m \<in> set ?h) ?ms)"
    by (simp add: candidates_def)
  ultimately show ?thesis
    using mset_filter_split [of "\<lambda>m. m \<in> set ?h" ?ms] by simp
qed

lemma pinned_focus: "focuses_master fo m \<Longrightarrow> m \<in> set (pinned_masters fo)"
  by (auto simp: focuses_master_def pinned_masters_def level_def split: option.splits members.splits)

lemma fit_plan_ok:
  assumes "budget_ok b" "fo_ok L b fo" "fit L b fo = Inr p"
  shows "plan_ok L b fo p"
proof -
  obtain shown folded mode where lv: "(shown, folded) \<in> set (credit_levels L b fo)"
    and pm: "plan_masters L shown folded b fo mode = Some p"
    using assms(3) by (auto simp: fit_def dest!: first_some_SomeD split: option.splits)
  note level = credit_levels_ok [OF assms(1,2) lv]
  have fc: "\<forall>f c. fo = Some f \<longrightarrow> f_credit f = Some c \<longrightarrow> c \<in> set shown"
    using focus_credit_shown [OF assms(1,2) lv] by blast
  show ?thesis
    using pm
  proof (rule plan_masters_cases)
    fix keep
    let ?cs = "candidates L shown fo"
    assume p: "p = \<lparr>p_shown = shown, p_folded = folded, p_masters = pinned_masters fo @ take keep ?cs,
          p_buckets = group_by (bucket L mode) (drop keep ?cs),
          p_remainder = remainder_masters fo, p_lanes = filter (\<lambda>c. lane_of L c \<noteq> []) shown\<rparr>"
      and keep: "keep \<le> length ?cs"
      and m: "int (length (p_masters p)) + bool_int (p_remainder p \<noteq> []) + int (length (p_lanes p))
         + int (length (p_buckets p)) \<le> b_masters b"
      and r: "release_floor L (pinned_masters fo) (p_lanes p) fo + int keep \<le> b_releases b"
    have "mset (concat (map snd (p_buckets p))) = mset (drop keep ?cs)"
      by (simp add: p mset_concat_group_by)
    then have "mset (p_masters p @ concat (map snd (p_buckets p)) @ p_remainder p)
        = mset (pinned_masters fo) + mset (remainder_masters fo) + mset (take keep ?cs @ drop keep ?cs)"
      unfolding mset_append by (simp add: p)
    also have "\<dots> = mset (concat (map (masters_of L) shown))"
      using mset_candidates [OF _ assms(2) fc] credit_level_distinct [OF level] by simp
    finally have ms: "mset (p_masters p @ concat (map snd (p_buckets p)) @ p_remainder p)
        = mset (concat (map (masters_of L) shown))" .
    have bk: "\<forall>(k, ms) \<in> set (p_buckets p). ms \<noteq> [] \<and> (\<forall>m \<in> set ms. credit_of L m = fst k)"
      by (auto simp: p bucket_def dest: group_by_value)
    have cp: "\<forall>f cs. fo = Some f \<longrightarrow> f_members f = CreditMembers cs
        \<longrightarrow> set (page_slice (f_page f) (f_page_size f) cs) \<subseteq> set shown"
      using lv by (auto simp: credit_levels_def)
    have "sum_list (map (floor_of_master fo) (take keep ?cs)) = int keep"
      using keep pinned_focus
      by (subst sum_list_ones) (auto simp: floor_of_master_def candidates_def dest: in_set_takeD)
    then have "sum_list (map (floor_of_master fo) (p_masters p)) + sum_list (map (floor_of_lane L fo) (p_lanes p))
         \<le> b_releases b"
      using r by (simp add: p release_floor_def)
    then show ?thesis
      using level ms bk m fc cp by (simp add: plan_ok_def p)
  qed
qed

lemma focused_lane_members:
  assumes "fo_ok L b fo" "focuses_lane fo c"
  obtains P where "item_members (the fo) = filter P (lane_of L c)"
    "filter (\<lambda>i. i \<notin> set (item_members (the fo))) (lane_of L c) = filter (\<lambda>i. \<not> P i) (lane_of L c)"
proof -
  obtain f "is" where f: "fo = Some f" "f_members f = ItemMembers is" "f_lane f = Some c" "focus_ok L b f"
    using assms by (auto simp: focuses_lane_def fo_ok_def level_def split: option.splits members.splits)
  then have "is = filter (\<lambda>i. case f_decade f of None \<Rightarrow> True | Some d \<Rightarrow> decade (it_year i) = d) (lane_of L c)"
    by (cases "f_decade f") (auto simp: focus_ok_def parsed_ok_def)
  then obtain P where P: "is = filter P (lane_of L c)" by blast
  then have "filter (\<lambda>i. i \<notin> set is) (lane_of L c) = filter (\<lambda>i. \<not> P i) (lane_of L c)"
    by (intro filter_cong) auto
  then show ?thesis using that [of P] f P by (simp add: item_members_def)
qed

lemma open_lane_nonempty:
  assumes "fo_ok L b fo" "focuses_lane fo c"
  shows "open_lane_items L fo c \<noteq> [] \<longleftrightarrow> length (item_members (the fo)) < length (lane_of L c)"
  using assms
proof (rule focused_lane_members)
  fix P
  assume P: "item_members (the fo) = filter P (lane_of L c)"
    "filter (\<lambda>i. i \<notin> set (item_members (the fo))) (lane_of L c) = filter (\<lambda>i. \<not> P i) (lane_of L c)"
  have "length (filter P (lane_of L c)) + length (filter (\<lambda>i. \<not> P i) (lane_of L c)) = length (lane_of L c)"
    by (rule sum_length_filter_compl)
  moreover have "open_lane_items L fo c = filter (\<lambda>i. \<not> P i) (lane_of L c)"
    using P(2) assms(2) by (simp add: open_lane_items_def)
  moreover from calculation have "0 < length (filter (\<lambda>i. \<not> P i) (lane_of L c))
      \<longleftrightarrow> length (filter P (lane_of L c)) < length (lane_of L c)" by linarith
  ultimately show ?thesis by (simp only: P(1) length_greater_0_conv)
qed

lemma open_lane_mset:
  assumes "fo_ok L b fo" "focuses_lane fo c"
  shows "mset (item_members (the fo)) + mset (open_lane_items L fo c) = mset (lane_of L c)"
  using assms by (rule focused_lane_members)
    (use assms(2) in \<open>simp only: open_lane_items_def if_True mset_filter_split\<close>)

lemma focus_view_size: "view_size (focus_view f pa d) = int (length (item_page f)) + bool_int (item_rest f \<noteq> [])"
  by (simp add: view_size_def focus_view_def bool_int_def)

lemma focus_view_items:
  assumes "fo_ok L b fo" "focuses_master fo m \<or> focuses_lane fo c"
  shows "view_items (focus_view (the fo) pa d) = mset (item_members (the fo))"
proof -
  obtain f "is" where f: "fo = Some f" "focus_ok L b f" "f_members f = ItemMembers is"
    using assms by (auto simp: fo_ok_def focuses_master_def focuses_lane_def level_def
        split: option.splits members.splits)
  then have "mset (item_page f) + mset (item_rest f) = mset is"
    using page_rest_mset [of "f_page f" "f_page_size f" "is"] focus_sizes [OF f(2)]
    by (simp add: item_page_def item_rest_def)
  moreover have "view_items (focus_view f pa d) = mset (item_page f) + mset (item_rest f)"
    unfolding view_items_def focus_view_def fst_conv snd_conv agg_items_if by (simp add: comp_def)
  ultimately show ?thesis using f by (simp add: item_members_def)
qed

lemma focused_master_members:
  "fo_ok L b fo \<Longrightarrow> focuses_master fo m \<Longrightarrow> item_members (the fo) = items_of L m"
  by (auto simp: fo_ok_def focuses_master_def focus_ok_def parsed_ok_def level_def item_members_def
      split: option.splits members.splits)

text \<open>What is fixed and what the coarsest strategy folds take exactly the floor the plan reserved.\<close>

lemma fixed_and_open_size:
  assumes "fo_ok L b fo" "\<forall>c \<in> set (p_lanes p). lane_of L c \<noteq> []"
  shows "sum_list (map view_size (fixed_views p fo)) + int (length (open_masters p fo)) + int (length (open_lanes L p fo))
    = sum_list (map (floor_of_master fo) (p_masters p)) + sum_list (map (floor_of_lane L fo) (p_lanes p))"
proof -
  let ?S = "int (length (item_page (the fo))) + bool_int (item_rest (the fo) \<noteq> [])"
  have A: "sum_list (map (\<lambda>m. ?S) (filter (focuses_master fo) xs)) + int (length (filter (\<lambda>m. \<not> focuses_master fo m) xs))
      = sum_list (map (floor_of_master fo) xs)" for xs
    by (induction xs) (auto simp: floor_of_master_def)
  have B: "sum_list (map (\<lambda>c. ?S) (filter (focuses_lane fo) xs))
        + sum_list (map (\<lambda>c. bool_int (open_lane_items L fo c \<noteq> [])) xs)
      = sum_list (map (floor_of_lane L fo) xs)" if "\<forall>c \<in> set xs. lane_of L c \<noteq> []" for xs
    using that open_lane_nonempty [OF assms(1)]
    by (induction xs) (auto simp: floor_of_lane_def open_lane_items_def bool_int_def)
  have C: "int (length (open_lanes L p fo))
      = sum_list (map (\<lambda>c. bool_int (open_lane_items L fo c \<noteq> [])) (p_lanes p))"
    unfolding open_lanes_def sum_list_bool_int by (simp add: filter_map comp_def)
  show ?thesis
    using A [of "p_masters p"] B [OF assms(2)] C
    unfolding fixed_views_def open_masters_def map_append sum_list_append map_map comp_def focus_view_size
    by linarith
qed

lemma fixed_master_items:
  assumes "fo_ok L b fo"
  shows "sum_list (map (\<lambda>m. view_items (focus_view (the fo) (pa m) d)) (filter (focuses_master fo) xs))
      + mset (concat (map (items_of L) (filter (\<lambda>m. \<not> focuses_master fo m) xs)))
      = mset (concat (map (items_of L) xs))"
proof (induction xs)
  case (Cons m xs)
  show ?case
  proof (cases "focuses_master fo m")
    case True
    then have "view_items (focus_view (the fo) (pa m) d) = mset (items_of L m)"
      by (simp add: focus_view_items [OF assms disjI1] focused_master_members [OF assms])
    then show ?thesis using True by (simp add: union_assoc flip: Cons)
  next
    case False
    then show ?thesis by (simp add: union_lcomm flip: Cons)
  qed
qed simp

lemma fixed_lane_items:
  assumes "fo_ok L b fo"
  shows "sum_list (map (\<lambda>c. view_items (focus_view (the fo) (pa c) (d c))) (filter (focuses_lane fo) xs))
      + mset (concat (map (open_lane_items L fo) xs)) = mset (concat (map (lane_of L) xs))"
proof (induction xs)
  case (Cons c xs)
  show ?case
  proof (cases "focuses_lane fo c")
    case True
    then have "view_items (focus_view (the fo) (pa c) (d c)) = mset (item_members (the fo))"
      by (intro focus_view_items [OF assms disjI2])
    then have "view_items (focus_view (the fo) (pa c) (d c)) + mset (open_lane_items L fo c) = mset (lane_of L c)"
      using open_lane_mset [OF assms True] by simp
    from this [symmetric] show ?thesis
      using True Cons by (simp add: union_ac)
  next
    case False
    then have "open_lane_items L fo c = lane_of L c" by (simp add: open_lane_items_def)
    then show ?thesis using False by (simp add: union_lcomm flip: Cons)
  qed
qed simp

lemma concat_snd_nonempty:
  "concat (map snd (filter (\<lambda>l. snd l \<noteq> []) (map (\<lambda>c. (c, g c)) xs))) = concat (map g xs)"
  by (induction xs) auto

lemma fixed_and_open_items:
  assumes "fo_ok L b fo"
  shows "sum_list (map view_items (fixed_views p fo)) + mset (concat (map (items_of L) (open_masters p fo)))
      + mset (concat (map snd (open_lanes L p fo)))
    = mset (concat (map (items_of L) (p_masters p))) + mset (concat (map (lane_of L) (p_lanes p)))"
  unfolding fixed_views_def open_masters_def open_lanes_def map_append sum_list_append map_map comp_def
    concat_snd_nonempty
    fixed_master_items [OF assms, where xs = "p_masters p" and pa = "\<lambda>m. ''m:'' @ m" and d = None, symmetric]
    fixed_lane_items [OF assms, where xs = "p_lanes p" and pa = "\<lambda>c. ''nm:'' @ credit_id c"
      and d = "\<lambda>c. f_decade (the fo)", symmetric]
  by (simp only: union_ac)

text \<open>
  The release plane exists, stays within its budget, and accounts for every release under a
  drawn master and every release of a drawn lane exactly once.
\<close>

lemma plan_releases_cases:
  assumes "plan_releases L p b fo = Inr v"
  obtains v' where "v = (concat (map fst (fixed_views p fo)) @ fst v', concat (map snd (fixed_views p fo)) @ snd v')"
    and "v' = (everything L (open_masters p fo) (open_lanes L p fo), [])
       \<or> (\<exists>st. v' = fold_releases L (open_masters p fo) (open_lanes L p fo) st)"
proof (cases "int (length (everything L (open_masters p fo) (open_lanes L p fo)))
    \<le> b_releases b - int (length (concat (map fst (fixed_views p fo)))) - int (length (concat (map snd (fixed_views p fo))))")
  case True
  then show ?thesis
    using assms that [of "(everything L (open_masters p fo) (open_lanes L p fo), [])"]
    by (simp add: plan_releases_def Let_def)
next
  case False
  obtain st where "try_strategies (fold_releases L (open_masters p fo) (open_lanes L p fo))
      (b_releases b - int (length (concat (map fst (fixed_views p fo)))) - int (length (concat (map snd (fixed_views p fo)))))
      strategies = Inr (fold_releases L (open_masters p fo) (open_lanes L p fo) st)"
    using try_strategies_total [OF strategies_coarsest] by blast
  moreover obtain ns as where v: "fold_releases L (open_masters p fo) (open_lanes L p fo) st = (ns, as)" by fastforce
  ultimately have "v = (concat (map fst (fixed_views p fo)) @ ns, concat (map snd (fixed_views p fo)) @ as)"
    using False assms by (simp add: plan_releases_def Let_def)
  then show ?thesis using that [of "(ns, as)"] v [symmetric] by (metis fst_conv snd_conv)
qed

lemma plan_releases_fits:
  assumes "fo_ok L b fo" "plan_ok L b fo p"
  shows "\<exists>v. plan_releases L p b fo = Inr v \<and> view_size v \<le> b_releases b"
proof -
  let ?ms = "open_masters p fo" and ?ls = "open_lanes L p fo"
  let ?fv = "(concat (map fst (fixed_views p fo)), concat (map snd (fixed_views p fo)))"
  let ?room = "b_releases b - int (length (fst ?fv)) - int (length (snd ?fv))"
  have "\<forall>c \<in> set (p_lanes p). lane_of L c \<noteq> []" using assms(2) by (auto simp: plan_ok_def)
  note open_size = fixed_and_open_size [OF assms(1) this]
  have "sum_list (map (floor_of_master fo) (p_masters p)) + sum_list (map (floor_of_lane L fo) (p_lanes p)) \<le> b_releases b"
    using assms(2) unfolding plan_ok_def by blast
  then have room: "int (length ?ms) + int (length ?ls) \<le> ?room"
    using open_size view_size_concat [of "fixed_views p fo"] by (simp add: view_size_def)
  obtain st where st: "try_strategies (fold_releases L ?ms ?ls) ?room strategies = Inr (fold_releases L ?ms ?ls st)"
    "view_size (fold_releases L ?ms ?ls st) \<le> ?room \<or> st = (False, False, False)"
    using try_strategies_total [OF strategies_coarsest] by blast
  then have sz: "view_size (fold_releases L ?ms ?ls st) \<le> ?room"
    using fold_releases_coarsest [of L ?ms ?ls] room by auto
  show ?thesis
  proof (cases "int (length (everything L ?ms ?ls)) \<le> ?room")
    case True
    then show ?thesis by (simp add: plan_releases_def Let_def view_size_def)
  next
    case False
    obtain ns as where v: "fold_releases L ?ms ?ls st = (ns, as)" by fastforce
    then have "plan_releases L p b fo = Inr (fst ?fv @ ns, snd ?fv @ as)"
      using False st(1) by (simp add: plan_releases_def Let_def)
    then show ?thesis using sz v by (simp add: view_size_def)
  qed
qed

lemma plan_releases_items:
  assumes "fo_ok L b fo" "plan_releases L p b fo = Inr v"
  shows "view_items v = mset (concat (map (items_of L) (p_masters p))) + mset (concat (map (lane_of L) (p_lanes p)))"
  using assms(2)
proof (rule plan_releases_cases)
  fix v'
  assume v: "v = (concat (map fst (fixed_views p fo)) @ fst v', concat (map snd (fixed_views p fo)) @ snd v')"
    and v': "v' = (everything L (open_masters p fo) (open_lanes L p fo), [])
       \<or> (\<exists>st. v' = fold_releases L (open_masters p fo) (open_lanes L p fo) st)"
  have "view_items v' = mset (concat (map (items_of L) (open_masters p fo))) + mset (concat (map snd (open_lanes L p fo)))"
    using v' everything_items fold_releases_items by metis
  moreover have "view_items v = sum_list (map view_items (fixed_views p fo)) + view_items v'"
    unfolding v view_items_append view_items_concat by simp
  ultimately show ?thesis using fixed_and_open_items [OF assms(1), of p] by (simp only: union_assoc)
qed

text \<open>Each entry of the release plane hangs under a drawn master or a drawn lane.\<close>

definition drawn_parents :: "master_plan \<Rightarrow> string set" where
  "drawn_parents p = (\<lambda>m. ''m:'' @ m) ` set (p_masters p) \<union> (\<lambda>c. ''nm:'' @ credit_id c) ` set (p_lanes p)"

definition view_parents :: "release_view \<Rightarrow> string set" where
  "view_parents v = snd ` set (fst v) \<union> ra_parent ` set (snd v)"

lemma view_parents_concat:
  "view_parents (concat (map fst vs), concat (map snd vs)) = (\<Union>v \<in> set vs. view_parents v)"
  by (auto simp: view_parents_def)

lemma view_parents_append:
  "view_parents (ns @ ns', as @ as') = view_parents (ns, as) \<union> view_parents (ns', as')"
  by (auto simp: view_parents_def)

lemma focus_view_parents: "view_parents (focus_view f pa d) \<subseteq> {pa}"
  by (auto simp: view_parents_def focus_view_def)

lemma fold_master_parents: "view_parents (fold_master L ko ks m) \<subseteq> {''m:'' @ m}"
  by (auto simp: view_parents_def fold_master_def Let_def)

lemma fold_lane_parents: "view_parents (fold_lane ks bd l) \<subseteq> {''nm:'' @ credit_id (fst l)}"
  by (cases l) (auto simp: view_parents_def fold_lane_def Let_def split: if_splits)

lemma plan_releases_parents:
  assumes "plan_releases L p b fo = Inr v"
  shows "view_parents v \<subseteq> drawn_parents p"
  using assms
proof (rule plan_releases_cases)
  fix v'
  assume v: "v = (concat (map fst (fixed_views p fo)) @ fst v', concat (map snd (fixed_views p fo)) @ snd v')"
    and v': "v' = (everything L (open_masters p fo) (open_lanes L p fo), [])
       \<or> (\<exists>st. v' = fold_releases L (open_masters p fo) (open_lanes L p fo) st)"
  have lanes: "fst ` set (open_lanes L p fo) \<subseteq> set (p_lanes p)" by (auto simp: open_lanes_def)
  have "view_parents (concat (map fst (fixed_views p fo)), concat (map snd (fixed_views p fo))) \<subseteq> drawn_parents p"
    using focus_view_parents unfolding view_parents_concat
    by (fastforce simp: fixed_views_def drawn_parents_def)
  moreover have "view_parents v' \<subseteq> drawn_parents p"
    using v'
  proof (elim disjE exE)
    assume "v' = (everything L (open_masters p fo) (open_lanes L p fo), [])"
    then show ?thesis using lanes
      by (fastforce simp: view_parents_def everything_def open_masters_def drawn_parents_def)
  next
    fix st assume fr: "v' = fold_releases L (open_masters p fo) (open_lanes L p fo) st"
    obtain ko ks bd where "st = (ko, ks, bd)" by (cases st)
    then have "view_parents v' = (\<Union>m \<in> set (open_masters p fo). view_parents (fold_master L ko ks m))
        \<union> (\<Union>l \<in> set (open_lanes L p fo). view_parents (fold_lane ks bd l))"
      unfolding fr fold_releases_def Let_def by (simp add: view_parents_concat del: map_append)
    also have "\<dots> \<subseteq> drawn_parents p"
      using fold_master_parents fold_lane_parents lanes
      by (fastforce simp: drawn_parents_def open_masters_def)
    finally show ?thesis .
  qed
  ultimately show ?thesis unfolding v view_parents_append by simp
qed

text \<open>Every release of the ladder: on the release plane, in a bucket, off the page, or under a folded credit.\<close>

lemma plan_covers:
  assumes "plan_ok L b fo p"
  shows "mset (concat (map (items_of L) (p_masters p))) + mset (concat (map (lane_of L) (p_lanes p)))
      + mset (concat (map (\<lambda>(k, ms). concat (map (items_of L) ms)) (p_buckets p)))
      + mset (concat (map (items_of L) (p_remainder p)))
      + mset (concat (map (credit_items L) (p_folded p))) = mset (l_items L)"
proof -
  have bk: "concat (map (\<lambda>(k, ms). concat (map (items_of L) ms)) bs) = concat (map (items_of L) (concat (map snd bs)))" for bs
    by (induction bs) (auto simp: split_beta)
  have lanes: "concat (map (lane_of L) (filter (\<lambda>c. lane_of L c \<noteq> []) cs)) = concat (map (lane_of L) cs)" for cs
    by (induction cs) auto
  have credits: "mset (concat (map (items_of L) (concat (map (masters_of L) cs)))) + mset (concat (map (lane_of L) cs))
      = mset (concat (map (credit_items L) cs))" for cs
    by (induction cs) (auto simp: credit_items_def)
  have "mset (concat (map (credit_items L) (p_shown p @ p_folded p))) = mset (concat (map (credit_items L) (l_credit_order L)))"
    using assms by (intro mset_concat_map_cong) (simp add: plan_ok_def credit_level_ok_def)
  then have "mset (concat (map (credit_items L) (p_shown p))) + mset (concat (map (credit_items L) (p_folded p))) = mset (l_items L)"
    by (simp add: items_partition)
  moreover have "mset (concat (map (items_of L) (p_masters p @ concat (map snd (p_buckets p)) @ p_remainder p)))
      = mset (concat (map (items_of L) (concat (map (masters_of L) (p_shown p)))))"
    using plan_ok_masters [OF assms] by (rule mset_concat_map_cong)
  moreover have "concat (map (lane_of L) (p_lanes p)) = concat (map (lane_of L) (p_shown p))"
    using assms lanes by (simp add: plan_ok_def)
  ultimately show ?thesis
    unfolding bk credits [symmetric] map_append concat_append mset_append by (simp add: union_ac)
qed

end

end
