(* ===== verification/Strata_Render.thy ===== *)
theory Strata_Render
  imports Strata_Fit
begin

text \<open>
  The response of \<^verbatim>\<open>api/strata.py\<close>: \<open>_counts\<close>, \<open>_release_node\<close>, \<open>render\<close>, \<open>build_strata\<close>,
  \<open>label_targets\<close> and \<open>apply_labels\<close>.  A key the code adds only for a signed-in caller is an
  \<open>option\<close> field, \<open>None\<close> meaning that the key is absent.  The lemmas lift the facts of the fold to
  the payload: it always exists, it keeps its budgets, it accounts for every release once, and
  every entry's parent is drawn on the plane above.
\<close>

section \<open>The payload\<close>

record counts =
  k_releases :: nat
  k_undated :: nat
  k_musicbrainz :: nat
  k_y0 :: "int option"
  k_y1 :: "int option"
  k_states :: "(collector_state, nat) dict option"

record artist_ref =
  ar_id :: string
  ar_name :: "string option"

record credit_node =
  cn_id :: string
  cn_artists :: "artist_ref list"
  cn_masters :: nat
  cn_masterless :: nat
  cn_counts :: counts
  cn_state :: "collector_state option"

record credit_agg =
  ca_id :: string
  ca_credits :: nat
  ca_masters :: nat
  ca_counts :: counts

record master_node =
  mn_id :: string
  mn_parent :: string
  mn_master_id :: string
  mn_title :: "string option"
  mn_year :: "int option"
  mn_year_source :: "string option"
  mn_undated :: bool
  mn_counts :: counts
  mn_state :: "collector_state option"

datatype agg_kind = MastersKind | NoMasterKind

record master_agg =
  ma_id :: string
  ma_parent :: string
  ma_kind :: agg_kind
  ma_decade :: "string option"
  ma_masters :: nat
  ma_counts :: counts

record collector_fields =
  co_state :: "collector_state option"
  co_recorded_at :: "(string option \<times> string option) option"
  co_owned_copy_ids :: "string list"

record release_node =
  rn_id :: string
  rn_parent :: string
  rn_provider :: provider
  rn_release_id :: string
  rn_title :: "string option"
  rn_year :: "int option"
  rn_year_source :: "string option"
  rn_undated :: bool
  rn_collector :: "collector_fields option"

record release_agg_out =
  ro_id :: string
  ro_parent :: string
  ro_decade :: "string option"
  ro_counts :: counts

record edge_in =
  ei_source :: string
  ei_target :: string
  ei_categories :: "string list"
  ei_people :: nat

record totals =
  t_credits :: nat
  t_masters :: nat
  t_releases :: nat
  t_masterless :: nat
  t_undated :: nat
  t_musicbrainz :: nat

record focus_out =
  fo_id :: string
  fo_plane :: nat
  fo_page :: int
  fo_pages :: int
  fo_page_size :: int
  fo_members :: int

record payload =
  pl_root_id :: string
  pl_root_name :: "string option"
  pl_budget :: budget
  pl_focus :: "focus_out option"
  pl_signed_in :: bool
  pl_totals :: totals
  pl_credit_nodes :: "credit_node list"
  pl_credit_aggs :: "credit_agg list"
  pl_master_nodes :: "master_node list"
  pl_master_aggs :: "master_agg list"
  pl_edges :: "edge_in list"
  pl_release_nodes :: "release_node list"
  pl_release_aggs :: "release_agg_out list"

section \<open>Rendering\<close>

text \<open>\<open>Counter(xs)\<close>: the distinct elements in order of first appearance, with their counts.\<close>

definition counter :: "'a list \<Rightarrow> ('a, nat) dict" where
  "counter xs = map (\<lambda>(k, g). (k, length g)) (group_by (\<lambda>x. x) xs)"

definition counts_of :: "ladder \<Rightarrow> item list \<Rightarrow> counts" where
  "counts_of L its =
     \<lparr>k_releases = length its,
      k_undated = length (filter (\<lambda>i. it_year i = None) its),
      k_musicbrainz = length (filter (\<lambda>i. rel_provider (it_release i) = MusicBrainz) its),
      k_y0 = fst (span its), k_y1 = snd (span its),
      k_states = (if l_signed_in L then Some (counter (List.map_filter it_state its)) else None)\<rparr>"

definition release_node_of :: "ladder \<Rightarrow> item \<times> string \<Rightarrow> release_node" where
  "release_node_of L = (\<lambda>(i, parent).
     \<lparr>rn_id = node_id i, rn_parent = parent, rn_provider = rel_provider (it_release i),
      rn_release_id = rel_id (it_release i), rn_title = rel_title (it_release i),
      rn_year = it_year i, rn_year_source = it_year_source i, rn_undated = (it_year i = None),
      rn_collector =
        (if l_signed_in L then
           Some \<lparr>co_state = it_state i,
                 co_recorded_at = map_option (\<lambda>k. (mk_owned_at k, mk_wanted_at k)) (it_mark i),
                 co_owned_copy_ids = (case it_mark i of None \<Rightarrow> [] | Some k \<Rightarrow> mk_owned_copy_ids k)\<rparr>
         else None)\<rparr>)"

definition state_if :: "ladder \<Rightarrow> item list \<Rightarrow> collector_state option" where
  "state_if L its = (if l_signed_in L then Some (rollup its) else None)"

definition credit_node_of :: "ladder \<Rightarrow> credit \<Rightarrow> credit_node" where
  "credit_node_of L c =
     (let its = credit_items L c in
      \<lparr>cn_id = credit_id c, cn_artists = map (\<lambda>a. \<lparr>ar_id = a, ar_name = None\<rparr>) c,
       cn_masters = length (masters_of L c), cn_masterless = length (lane_of L c),
       cn_counts = counts_of L its, cn_state = state_if L its\<rparr>)"

definition credit_aggs_of :: "ladder \<Rightarrow> credit list \<Rightarrow> credit_agg list" where
  "credit_aggs_of L folded =
     (if folded = [] then []
      else [\<lparr>ca_id = OTHER_CREDITS, ca_credits = length folded,
             ca_masters = sum_list (map (\<lambda>c. length (masters_of L c)) folded),
             ca_counts = counts_of L (concat (map (credit_items L) folded))\<rparr>])"

text \<open>\<open>credit_rank[c]\<close>, the position of a credit on the ladder.\<close>

definition credit_rank :: "ladder \<Rightarrow> credit \<Rightarrow> nat" where
  "credit_rank L c = length (takeWhile (\<lambda>c'. c' \<noteq> c) (l_credit_order L))"

definition master_node_key :: "ladder \<Rightarrow> string \<Rightarrow> nat \<times> bool \<times> int \<times> (int \<times> int \<times> string)" where
  "master_node_key L m = (credit_rank L (credit_of L m), year_of L m = None, or_zero (year_of L m), id_key m)"

definition master_node_of :: "ladder \<Rightarrow> string \<Rightarrow> master_node" where
  "master_node_of L m =
     (let its = items_of L m in
      \<lparr>mn_id = ''m:'' @ m, mn_parent = credit_id (credit_of L m), mn_master_id = m, mn_title = None,
       mn_year = year_of L m,
       mn_year_source = (if own_year (l_catalog L) m \<noteq> None then Some ''master''
                         else if year_of L m \<noteq> None then Some ''releases'' else None),
       mn_undated = (year_of L m = None), mn_counts = counts_of L its, mn_state = state_if L its\<rparr>)"

definition bucket_agg :: "ladder \<Rightarrow> credit \<Rightarrow> string \<Rightarrow> string list \<Rightarrow> master_agg" where
  "bucket_agg L c label masters =
     \<lparr>ma_id = ''ma:'' @ credit_id c @ '':'' @ label, ma_parent = credit_id c, ma_kind = MastersKind,
      ma_decade = (if label = ALL_LABEL then None else Some label), ma_masters = length masters,
      ma_counts = counts_of L (concat (map (items_of L) masters))\<rparr>"

definition lane_agg :: "ladder \<Rightarrow> credit \<Rightarrow> master_agg" where
  "lane_agg L c =
     \<lparr>ma_id = ''nm:'' @ credit_id c, ma_parent = credit_id c, ma_kind = NoMasterKind,
      ma_decade = None, ma_masters = 0, ma_counts = counts_of L (lane_of L c)\<rparr>"

definition bucket_key :: "ladder \<Rightarrow> (credit \<times> string) \<times> string list \<Rightarrow> nat \<times> bool \<times> string" where
  "bucket_key L = (\<lambda>((c, label), ms). (credit_rank L c, label = UNDATED, label))"

text \<open>
  The aggregate for the masters off a focused page.  Its \<open>assert\<close> (the focus has a credit and a
  label) is the \<open>None\<close> result.
\<close>

definition remainder_aggs :: "ladder \<Rightarrow> focus option \<Rightarrow> string list \<Rightarrow> master_agg list option" where
  "remainder_aggs L fo remainder =
     (if remainder = [] then Some []
      else case fo of None \<Rightarrow> None
           | Some f \<Rightarrow> (case (f_credit f, f_decade f) of
                          (Some c, Some label) \<Rightarrow> Some [bucket_agg L c label remainder]
                        | _ \<Rightarrow> None))"

definition release_agg_of :: "ladder \<Rightarrow> release_agg \<Rightarrow> release_agg_out" where
  "release_agg_of L a =
     \<lparr>ro_id = ra_id a, ro_parent = ra_parent a, ro_decade = ra_decade a,
      ro_counts = counts_of L (ra_items a)\<rparr>"

definition totals_of :: "ladder \<Rightarrow> totals" where
  "totals_of L =
     \<lparr>t_credits = length (l_credit_order L), t_masters = length (l_items_by_master L),
      t_releases = length (l_items L),
      t_masterless = sum_list (map (\<lambda>(c, g). length g) (l_masterless L)),
      t_undated = length (filter (\<lambda>i. it_year i = None) (l_items L)),
      t_musicbrainz = length (filter (\<lambda>i. rel_provider (it_release i) = MusicBrainz) (l_items L))\<rparr>"

definition focus_out_of :: "focus \<Rightarrow> focus_out" where
  "focus_out_of f =
     \<lparr>fo_id = f_id f, fo_plane = level (f_members f), fo_page = f_page f, fo_pages = focus_pages f,
      fo_page_size = f_page_size f, fo_members = n_members (f_members f)\<rparr>"

definition render :: "ladder \<Rightarrow> budget \<Rightarrow> focus option \<Rightarrow> (strata_error, payload) result" where
  "render L b fo =
     (case fit L b fo of
        Inl e \<Rightarrow> Inl e
      | Inr p \<Rightarrow>
          (case plan_releases L p b fo of
             Inl e \<Rightarrow> Inl e
           | Inr (release_nodes, release_aggs) \<Rightarrow>
               (case remainder_aggs L fo (p_remainder p) of
                  None \<Rightarrow> Inl RemainderWithoutFocus
                | Some rem_aggs \<Rightarrow>
                    Inr \<lparr>pl_root_id = cat_root_id (l_catalog L), pl_root_name = cat_root_name (l_catalog L),
                         pl_budget = b, pl_focus = map_option focus_out_of fo,
                         pl_signed_in = l_signed_in L, pl_totals = totals_of L,
                         pl_credit_nodes = map (credit_node_of L) (p_shown p),
                         pl_credit_aggs = credit_aggs_of L (p_folded p),
                         pl_master_nodes = map (master_node_of L) (sort_key (master_node_key L) (p_masters p)),
                         pl_master_aggs =
                           map (lane_agg L) (p_lanes p)
                           @ map (\<lambda>((c, label), ms). bucket_agg L c label ms)
                               (sort_key (bucket_key L) (p_buckets p))
                           @ rem_aggs,
                         pl_edges = [],
                         pl_release_nodes = map (release_node_of L) release_nodes,
                         pl_release_aggs = map (release_agg_of L) release_aggs\<rparr>)))"

text \<open>\<open>focus\<close> is \<open>str | None\<close>, and an empty string counts as no focus (\<open>if focus else None\<close>).\<close>

definition build_strata ::
  "catalog \<Rightarrow> budget \<Rightarrow> string option \<Rightarrow> int \<Rightarrow> (string, mark) dict option \<Rightarrow> (strata_error, payload) result" where
  "build_strata cat b focus page marks =
     (let L = build_ladder cat marks in
      case focus of
        None \<Rightarrow> render L b None
      | Some fid \<Rightarrow>
          if fid = [] then render L b None
          else case resolve_focus L fid page b of
                 Inl e \<Rightarrow> Inl e
               | Inr f \<Rightarrow> render L b (Some f))"

section \<open>Labels\<close>

text \<open>
  The artists are a set in the code, sorted by \<open>id_key\<close>; two ids with the same key (\<open>1\<close> and \<open>01\<close>)
  come in no fixed order there and in order of appearance here.
\<close>

definition label_targets :: "payload \<Rightarrow> string list \<times> string list \<times> string list" where
  "label_targets pl =
     (map rn_release_id (filter (\<lambda>n. rn_provider n = Discogs \<and> rn_title n = None) (pl_release_nodes pl)),
      map mn_master_id (pl_master_nodes pl),
      sort_key id_key (remdups (concat (map (\<lambda>n. map ar_id (cn_artists n)) (pl_credit_nodes pl)) @ [pl_root_id pl])))"

definition label_edge :: "edge_in \<Rightarrow> edge_in" where
  "label_edge e = e\<lparr>ei_source := ''m:'' @ ei_source e, ei_target := ''m:'' @ ei_target e\<rparr>"

definition apply_labels ::
  "(string, string option) dict \<Rightarrow> (string, string option) dict \<Rightarrow> (string, string option) dict
   \<Rightarrow> edge_in list \<Rightarrow> payload \<Rightarrow> payload" where
  "apply_labels release_titles master_titles artist_names edges pl =
     (let drawn = map mn_master_id (pl_master_nodes pl) in
      pl\<lparr>pl_root_name := (if pl_root_name pl = None then dict_get artist_names (pl_root_id pl) None
                          else pl_root_name pl),
         pl_credit_nodes :=
           map (\<lambda>n. n\<lparr>cn_artists := map (\<lambda>a. a\<lparr>ar_name := dict_get artist_names (ar_id a) None\<rparr>) (cn_artists n)\<rparr>)
             (pl_credit_nodes pl),
         pl_master_nodes :=
           map (\<lambda>n. n\<lparr>mn_title := dict_get master_titles (mn_master_id n) None\<rparr>) (pl_master_nodes pl),
         pl_release_nodes :=
           map (\<lambda>n. if rn_title n = None
                    then n\<lparr>rn_title := dict_get release_titles (rn_release_id n) None\<rparr> else n)
             (pl_release_nodes pl),
         pl_edges :=
           map label_edge (filter (\<lambda>e. ei_source e \<in> set drawn \<and> ei_target e \<in> set drawn) edges)\<rparr>)"

section \<open>What the payload shows\<close>

lemma render_cases:
  assumes "render L b fo = Inr pl"
  obtains p v rems where "fit L b fo = Inr p" "plan_releases L p b fo = Inr v"
    "remainder_aggs L fo (p_remainder p) = Some rems"
    "pl_root_id pl = cat_root_id (l_catalog L)" "pl_totals pl = totals_of L" "pl_edges pl = []"
    "pl_signed_in pl = l_signed_in L" "pl_budget pl = b" "pl_focus pl = map_option focus_out_of fo"
    "pl_credit_nodes pl = map (credit_node_of L) (p_shown p)"
    "pl_credit_aggs pl = credit_aggs_of L (p_folded p)"
    "pl_master_nodes pl = map (master_node_of L) (sort_key (master_node_key L) (p_masters p))"
    "pl_master_aggs pl = map (lane_agg L) (p_lanes p)
       @ map (\<lambda>((c, label), ms). bucket_agg L c label ms) (sort_key (bucket_key L) (p_buckets p)) @ rems"
    "pl_release_nodes pl = map (release_node_of L) (fst v)"
    "pl_release_aggs pl = map (release_agg_of L) (snd v)"
proof -
  obtain p where p: "fit L b fo = Inr p" using assms by (auto simp: render_def split: sum.splits)
  obtain ns as where v: "plan_releases L p b fo = Inr (ns, as)"
    using assms p by (auto simp: render_def split: sum.splits)
  obtain rems where r: "remainder_aggs L fo (p_remainder p) = Some rems"
    using assms p v by (auto simp: render_def split: option.splits)
  show ?thesis using that [OF p v r] assms by (auto simp: render_def p v r)
qed

context ladder_index
begin

lemma remainder_aggs_total:
  assumes "fo_ok L b fo" "plan_ok L b fo p"
  shows "\<exists>rems. remainder_aggs L fo (p_remainder p) = Some rems \<and> (\<forall>a \<in> set rems. ma_parent a \<in> credit_id ` set (p_shown p))
     \<and> int (length rems) = bool_int (p_remainder p \<noteq> [])
     \<and> sum_list (map (k_releases \<circ> ma_counts) rems) = length (concat (map (items_of L) (p_remainder p)))"
proof (cases "p_remainder p = []")
  case False
  then have "remainder_masters fo \<noteq> []" using assms(2) by (simp add: plan_ok_def)
  then obtain f ms where f: "fo = Some f" "f_members f = MasterMembers ms"
    by (auto simp: remainder_masters_def split: option.splits members.splits)
  then obtain c label where cl: "f_credit f = Some c" "f_decade f = Some label"
    using assms(1) by (auto simp: fo_ok_def focus_ok_def parsed_ok_def)
  then have "c \<in> set (p_shown p)" using assms(2) f by (simp add: plan_ok_def)
  then show ?thesis using False f cl
    by (simp add: remainder_aggs_def bucket_agg_def bool_int_def counts_of_def)
qed (simp add: remainder_aggs_def bool_int_def)

lemma render_total:
  assumes "budget_ok b" "fo_ok L b fo"
  shows "\<exists>pl. render L b fo = Inr pl"
proof -
  obtain p where p: "fit L b fo = Inr p" using fit_total [OF assms] by blast
  note ok = fit_plan_ok [OF assms p]
  obtain ns as where v: "plan_releases L p b fo = Inr (ns, as)" using plan_releases_fits [OF assms(2) ok] by fastforce
  obtain rems where "remainder_aggs L fo (p_remainder p) = Some rems" using remainder_aggs_total [OF assms(2) ok] by blast
  with p v show ?thesis by (simp add: render_def)
qed

text \<open>Each plane's entries, nodes plus aggregates, stay within the plane's budget.\<close>

lemma render_budget:
  assumes "budget_ok b" "fo_ok L b fo" "render L b fo = Inr pl"
  shows "int (length (pl_credit_nodes pl)) + int (length (pl_credit_aggs pl)) \<le> b_credits b"
    and "int (length (pl_master_nodes pl)) + int (length (pl_master_aggs pl)) \<le> b_masters b"
    and "int (length (pl_release_nodes pl)) + int (length (pl_release_aggs pl)) \<le> b_releases b"
  using assms(3)
proof -
  from assms(3) obtain p v rems where r: "fit L b fo = Inr p" "plan_releases L p b fo = Inr v"
    "remainder_aggs L fo (p_remainder p) = Some rems"
    "pl_credit_nodes pl = map (credit_node_of L) (p_shown p)"
    "pl_credit_aggs pl = credit_aggs_of L (p_folded p)"
    "pl_master_nodes pl = map (master_node_of L) (sort_key (master_node_key L) (p_masters p))"
    "pl_master_aggs pl = map (lane_agg L) (p_lanes p)
       @ map (\<lambda>((c, label), ms). bucket_agg L c label ms) (sort_key (bucket_key L) (p_buckets p)) @ rems"
    "pl_release_nodes pl = map (release_node_of L) (fst v)" "pl_release_aggs pl = map (release_agg_of L) (snd v)"
    by (rule render_cases)
  note ok = fit_plan_ok [OF assms(1,2) r(1)]
  show "int (length (pl_credit_nodes pl)) + int (length (pl_credit_aggs pl)) \<le> b_credits b"
    using ok r(4,5) by (auto simp: plan_ok_def credit_level_ok_def credit_aggs_of_def bool_int_def)
  have "int (length rems) = bool_int (p_remainder p \<noteq> [])"
    using remainder_aggs_total [OF assms(2) ok] r(3) by auto
  then show "int (length (pl_master_nodes pl)) + int (length (pl_master_aggs pl)) \<le> b_masters b"
    using plan_ok_plane [OF ok] r(6,7) by simp
  show "int (length (pl_release_nodes pl)) + int (length (pl_release_aggs pl)) \<le> b_releases b"
    using plan_releases_fits [OF assms(2) ok] r(2,8,9) by (auto simp: view_size_def)
qed

text \<open>Every entry's parent is drawn on the plane above it.\<close>

lemma plan_master_credit:
  assumes "plan_ok L b fo p" "m \<in> set (p_masters p) \<union> set (concat (map snd (p_buckets p)))"
  shows "credit_of L m \<in> set (p_shown p)"
proof -
  have "set (p_masters p) \<union> (set (concat (map snd (p_buckets p))) \<union> set (p_remainder p))
      = set (concat (map (masters_of L) (p_shown p)))"
    using mset_eq_setD [OF plan_ok_masters [OF assms(1)]] by (simp only: set_append)
  then have "m \<in> set (concat (map (masters_of L) (p_shown p)))" using assms(2) by blast
  then show ?thesis using masters_credit by fastforce
qed

lemma bucket_credit_shown:
  assumes "plan_ok L b fo p" "((c, label), ms) \<in> set (p_buckets p)"
  shows "c \<in> set (p_shown p)"
proof -
  obtain m where m: "m \<in> set ms" "credit_of L m = c"
    using assms by (fastforce simp: plan_ok_def neq_Nil_conv)
  moreover have "m \<in> set (concat (map snd (p_buckets p)))" using m(1) assms(2) by force
  ultimately show ?thesis using plan_master_credit [OF assms(1)] by blast
qed

lemma render_parents:
  assumes "budget_ok b" "fo_ok L b fo" "render L b fo = Inr pl"
  shows "mn_parent ` set (pl_master_nodes pl) \<union> ma_parent ` set (pl_master_aggs pl) \<subseteq> cn_id ` set (pl_credit_nodes pl)"
    and "rn_parent ` set (pl_release_nodes pl) \<union> ro_parent ` set (pl_release_aggs pl)
      \<subseteq> mn_id ` set (pl_master_nodes pl) \<union> ma_id ` {a \<in> set (pl_master_aggs pl). ma_kind a = NoMasterKind}"
proof -
  from assms(3) obtain p v rems where r: "fit L b fo = Inr p" "plan_releases L p b fo = Inr v"
    "remainder_aggs L fo (p_remainder p) = Some rems"
    "pl_credit_nodes pl = map (credit_node_of L) (p_shown p)"
    "pl_master_nodes pl = map (master_node_of L) (sort_key (master_node_key L) (p_masters p))"
    "pl_master_aggs pl = map (lane_agg L) (p_lanes p)
       @ map (\<lambda>((c, label), ms). bucket_agg L c label ms) (sort_key (bucket_key L) (p_buckets p)) @ rems"
    "pl_release_nodes pl = map (release_node_of L) (fst v)" "pl_release_aggs pl = map (release_agg_of L) (snd v)"
    by (rule render_cases)
  note ok = fit_plan_ok [OF assms(1,2) r(1)]
  have ids: "cn_id ` set (pl_credit_nodes pl) = credit_id ` set (p_shown p)"
    by (simp add: r(4) image_image credit_node_of_def Let_def)
  have "mn_parent ` set (pl_master_nodes pl) \<subseteq> credit_id ` set (p_shown p)"
    using plan_master_credit [OF ok] by (auto simp: r(5) master_node_of_def Let_def)
  moreover have "ma_parent ` set (map (lane_agg L) (p_lanes p)) \<subseteq> credit_id ` set (p_shown p)"
    using ok by (auto simp: lane_agg_def plan_ok_def)
  moreover have "ma_parent ` set (map (\<lambda>((c, label), ms). bucket_agg L c label ms) (p_buckets p)) \<subseteq> credit_id ` set (p_shown p)"
    using bucket_credit_shown [OF ok] by (auto simp: bucket_agg_def)
  moreover have "ma_parent ` set rems \<subseteq> credit_id ` set (p_shown p)"
    using remainder_aggs_total [OF assms(2) ok] r(3) by auto
  ultimately show "mn_parent ` set (pl_master_nodes pl) \<union> ma_parent ` set (pl_master_aggs pl) \<subseteq> cn_id ` set (pl_credit_nodes pl)"
    unfolding ids r(6) by (simp add: image_Un del: image_subset_iff)
  have "drawn_parents p \<subseteq> mn_id ` set (pl_master_nodes pl) \<union> ma_id ` {a \<in> set (pl_master_aggs pl). ma_kind a = NoMasterKind}"
    unfolding drawn_parents_def r(5,6)
    by (force simp: master_node_of_def Let_def lane_agg_def image_iff)
  moreover have "rn_parent ` set (pl_release_nodes pl) \<union> ro_parent ` set (pl_release_aggs pl) = view_parents v"
    unfolding r(7,8) view_parents_def by (force simp: release_node_of_def release_agg_of_def image_iff split: prod.splits)
  ultimately show "rn_parent ` set (pl_release_nodes pl) \<union> ro_parent ` set (pl_release_aggs pl)
      \<subseteq> mn_id ` set (pl_master_nodes pl) \<union> ma_id ` {a \<in> set (pl_master_aggs pl). ma_kind a = NoMasterKind}"
    using plan_releases_parents [OF r(2)] by blast
qed

text \<open>The payload's counts account for every release of the ladder exactly once.\<close>

lemma render_conserves:
  assumes "budget_ok b" "fo_ok L b fo" "render L b fo = Inr pl"
  shows "length (pl_release_nodes pl) + sum_list (map (k_releases \<circ> ro_counts) (pl_release_aggs pl))
     + sum_list (map (k_releases \<circ> ma_counts) (filter (\<lambda>a. ma_kind a = MastersKind) (pl_master_aggs pl)))
     + sum_list (map (k_releases \<circ> ca_counts) (pl_credit_aggs pl)) = t_releases (pl_totals pl)"
proof -
  from assms(3) obtain p v rems where r: "fit L b fo = Inr p" "plan_releases L p b fo = Inr v"
    "remainder_aggs L fo (p_remainder p) = Some rems" "pl_totals pl = totals_of L"
    "pl_credit_aggs pl = credit_aggs_of L (p_folded p)"
    "pl_master_aggs pl = map (lane_agg L) (p_lanes p)
       @ map (\<lambda>((c, label), ms). bucket_agg L c label ms) (sort_key (bucket_key L) (p_buckets p)) @ rems"
    "pl_release_nodes pl = map (release_node_of L) (fst v)" "pl_release_aggs pl = map (release_agg_of L) (snd v)"
    by (rule render_cases)
  let ?n = "\<lambda>xs. length (concat (map (items_of L) xs))"
  note ok = fit_plan_ok [OF assms(1,2) r(1)]
  have rems: "sum_list (map (k_releases \<circ> ma_counts) rems) = ?n (p_remainder p)" "\<forall>a \<in> set rems. ma_kind a = MastersKind"
    using remainder_aggs_total [OF assms(2) ok] r(3)
    by (auto simp: remainder_aggs_def bucket_agg_def split: if_splits option.splits)
  have bs: "sum_list (map (k_releases \<circ> ma_counts) (map (\<lambda>((c, label), ms). bucket_agg L c label ms) bs))
      = length (concat (map (\<lambda>(k, ms). concat (map (items_of L) ms)) bs))" for bs
    by (induction bs) (auto simp: bucket_agg_def counts_of_def)
  have "mset (sort_key (bucket_key L) (p_buckets p)) = mset (p_buckets p)" by simp
  from arg_cong [OF mset_concat_map_cong [OF this], of size]
  have sorted: "length (concat (map (\<lambda>(k, ms). concat (map (items_of L) ms)) (sort_key (bucket_key L) (p_buckets p))))
      = length (concat (map (\<lambda>(k, ms). concat (map (items_of L) ms)) (p_buckets p)))"
    unfolding size_mset .
  have kinds: "filter (\<lambda>a. ma_kind a = MastersKind) (pl_master_aggs pl)
      = map (\<lambda>((c, label), ms). bucket_agg L c label ms) (sort_key (bucket_key L) (p_buckets p)) @ rems"
    using rems(2) by (auto simp: r(6) lane_agg_def bucket_agg_def filter_empty_conv filter_id_conv split: prod.splits)
  have ro: "sum_list (map (k_releases \<circ> ro_counts) (map (release_agg_of L) as)) = length (concat (map ra_items as))" for as
    by (induction as) (auto simp: release_agg_of_def counts_of_def)
  have ca: "sum_list (map (k_releases \<circ> ca_counts) (credit_aggs_of L fs)) = length (concat (map (credit_items L) fs))" for fs
    by (simp add: credit_aggs_of_def counts_of_def)
  have "view_items v + mset (concat (map (\<lambda>(k, ms). concat (map (items_of L) ms)) (p_buckets p)))
      + mset (concat (map (items_of L) (p_remainder p))) + mset (concat (map (credit_items L) (p_folded p))) = mset (l_items L)"
    using plan_covers [OF ok] plan_releases_items [OF assms(2) r(2)] by simp
  from arg_cong [OF this, of size] show ?thesis
    unfolding kinds r(4,5,7,8) ro ca map_append sum_list_append bs sorted rems(1) view_items_def size_union size_mset totals_of_def
    by simp
qed

text \<open>A focused page is drawn: its credits, masters or releases are nodes of their plane.\<close>

lemma focus_page_drawn:
  assumes "budget_ok b" "focus_ok L b f" "render L b (Some f) = Inr pl"
  shows "case page_members f of
      CreditMembers cs \<Rightarrow> credit_id ` set cs \<subseteq> cn_id ` set (pl_credit_nodes pl)
    | MasterMembers ms \<Rightarrow> set ms \<subseteq> mn_master_id ` set (pl_master_nodes pl)
    | ItemMembers is \<Rightarrow> node_id ` set is \<subseteq> rn_id ` set (pl_release_nodes pl)"
proof -
  have fo: "fo_ok L b (Some f)" using assms(2) by (simp add: fo_ok_def)
  from assms(3) obtain p v rems where r: "fit L b (Some f) = Inr p" "plan_releases L p b (Some f) = Inr v"
    "remainder_aggs L (Some f) (p_remainder p) = Some rems"
    "pl_credit_nodes pl = map (credit_node_of L) (p_shown p)"
    "pl_master_nodes pl = map (master_node_of L) (sort_key (master_node_key L) (p_masters p))"
    "pl_release_nodes pl = map (release_node_of L) (fst v)"
    by (rule render_cases)
  note ok = fit_plan_ok [OF assms(1) fo r(1)]
  show ?thesis
  proof (cases "f_members f")
    case (CreditMembers cs)
    then have "set (page_slice (f_page f) (f_page_size f) cs) \<subseteq> set (p_shown p)" using ok by (simp add: plan_ok_def)
    then show ?thesis by (auto simp: page_members_def CreditMembers r(4) credit_node_of_def Let_def image_image)
  next
    case (MasterMembers ms)
    then have "set (page_slice (f_page f) (f_page_size f) ms) \<subseteq> set (p_masters p)"
      using ok by (simp add: plan_ok_def pinned_masters_def)
    then show ?thesis by (auto simp: page_members_def MasterMembers r(5) master_node_of_def Let_def image_image)
  next
    case (ItemMembers "is")
    have "\<exists>pa d. focus_view f pa d \<in> set (fixed_views p (Some f))"
    proof (cases "f_master f")
      case (Some m)
      then have fm: "focuses_master (Some f) m" by (simp add: focuses_master_def ItemMembers level_def)
      then have "m \<in> set (p_masters p)" using pinned_focus ok by (auto simp: plan_ok_def)
      then show ?thesis using fm by (auto simp: fixed_views_def)
    next
      case None
      then obtain c where c: "f_lane f = Some c" "f_credit f = Some c" "is \<noteq> []" "set is \<subseteq> set (lane_of L c)"
        using assms(2) by (auto simp: focus_ok_def parsed_ok_def ItemMembers split: option.splits)
      then have "lane_of L c \<noteq> []" by auto
      moreover have "c \<in> set (p_shown p)" using ok c(2) by (simp add: plan_ok_def)
      ultimately have "c \<in> set (p_lanes p)" by (simp add: plan_ok_lanes [OF ok])
      then show ?thesis using c by (auto simp: fixed_views_def focuses_lane_def ItemMembers level_def)
    qed
    then obtain pa d where pa: "focus_view f pa d \<in> set (fixed_views p (Some f))" by blast
    obtain v' where "fst v = concat (map fst (fixed_views p (Some f))) @ v'"
      using r(2) by (rule plan_releases_cases) simp
    then have "set (fst (focus_view f pa d)) \<subseteq> set (fst v)" using pa by auto
    then have "(\<lambda>i. (i, pa)) ` set (item_page f) \<subseteq> set (fst v)" by (auto simp: focus_view_def)
    then have "node_id i \<in> rn_id ` set (pl_release_nodes pl)" if "i \<in> set (item_page f)" for i
      using that unfolding r(6) by (force simp: release_node_of_def image_iff)
    then show ?thesis by (auto simp: page_members_def ItemMembers item_page_def)
  qed
qed

end

end
