(* ===== verification/Strata_Properties.thy ===== *)
theory Strata_Properties
  imports Strata_Render
begin

text \<open>
  The properties of the strata component, stated on the code's own entry points (\<open>Budget.parse\<close>,
  \<open>resolve_focus\<close>, \<open>build_strata\<close>) and derived from the library through the interpretation of
  \<open>ladder_index\<close> on the ladders the constructor builds.
\<close>

section \<open>Validated budgets and clean ids\<close>

lemma budget_validate_ok: "budget_validate b = Inr b' \<longleftrightarrow> budget_ok b \<and> b' = b"
  by (auto simp: budget_validate_def budget_ok_def split: if_splits)

text \<open>
  Ids as Discogs has them: no separator of a cursor occurs in an artist id, and every Discogs
  release is credited to somebody.
\<close>

definition clean_id :: "string \<Rightarrow> bool" where
  "clean_id s \<longleftrightarrow> s \<noteq> [] \<and> CHR '':'' \<notin> set s \<and> CHR ''+'' \<notin> set s"

definition clean_credit :: "credit \<Rightarrow> bool" where
  "clean_credit c \<longleftrightarrow> c \<noteq> [] \<and> list_all clean_id c"

definition clean_catalog :: "catalog \<Rightarrow> bool" where
  "clean_catalog cat \<longleftrightarrow> list_all (\<lambda>r. rel_provider r = Discogs \<longrightarrow> clean_credit (rel_credit r)) (cat_releases cat)"

lemma parse_credit_id:
  assumes "clean_credit c"
  shows "parse_credit (credit_id c) = (Some c, None)"
    and "CHR '':'' \<notin> set d \<Longrightarrow> parse_credit (credit_id c @ '':'' @ d) = (Some c, Some d)"
proof -
  let ?j = "join_with ''+'' c"
  have j: "CHR '':'' \<notin> set ?j"
    using set_join_with [of "''+''" c] assms by (auto simp: clean_credit_def clean_id_def list_all_iff)
  have plus: "split_on CHR ''+'' ?j = c"
    using assms by (intro split_on_join_with) (auto simp: clean_credit_def clean_id_def list_all_iff)
  have ne: "?j \<noteq> []"
  proof
    assume "?j = []"
    then have "c = [[]]" using plus by (simp add: split_on_no_sep)
    then show False using assms by (simp add: clean_credit_def clean_id_def)
  qed
  have c: "split_on CHR '':'' (''c:'' @ s) = ''c'' # split_on CHR '':'' s" for s
    using split_on_append [of "CHR '':''" "''c''" s] by simp
  show "parse_credit (credit_id c) = (Some c, None)"
    unfolding parse_credit_def credit_id_def c using j plus ne by (simp add: split_on_no_sep Let_def)
  assume "CHR '':'' \<notin> set d"
  then have "split_on CHR '':'' (''c:'' @ ?j @ '':'' @ d) = [''c'', ?j, d]"
    unfolding c using split_on_append [OF j, of d] by (simp add: split_on_no_sep)
  then show "parse_credit (credit_id c @ '':'' @ d) = (Some c, Some d)"
    unfolding parse_credit_def credit_id_def using plus ne by (simp add: Let_def)
qed

lemma place_release_credit:
  "place_release cat marks r = Some i \<Longrightarrow> rel_provider r = Discogs \<Longrightarrow> it_credit i = rel_credit r"
  by (auto simp: place_release_def Let_def split: prod.splits)

lemma place_release_masterless:
  "place_release cat marks r = Some i \<Longrightarrow> rel_master r = None \<Longrightarrow> rel_provider r = Discogs"
  by (cases "rel_provider r") (auto simp: place_release_def Let_def split: prod.splits option.splits)

lemma clean_item_credit:
  assumes "clean_catalog cat" "i \<in> set (place_items cat marks)" "it_master i = None"
  shows "clean_credit (it_credit i)"
proof -
  obtain r where r: "r \<in> set (cat_releases cat)" "place_release cat marks r = Some i"
    using assms(2) by (auto simp: place_items_mem)
  then have "rel_master r = None" using assms(3) place_release_master(1) by fastforce
  then show ?thesis
    using assms(1) r place_release_masterless place_release_credit
    by (fastforce simp: clean_catalog_def list_all_iff)
qed

lemma pressing_known: "pressing L fid = Some i \<Longrightarrow> \<exists>n. map_of (l_by_node_id L) n = Some i"
  by (auto simp: pressing_def split: if_splits)

text \<open>The cursor of a placed release names a member set that holds it.\<close>

lemma pressing_cursor_parses:
  assumes "clean_catalog cat" "pressing (build_ladder cat marks) fid = Some i"
  obtains p "is" where "parse_focus (build_ladder cat marks) (pressing_cursor i) = Some p"
    "f_members p = ItemMembers is" "i \<in> set is"
proof -
  let ?L = "build_ladder cat marks"
  have i: "i \<in> set (l_items ?L)" using assms(2) pressing_known built.known_node by blast
  show ?thesis
  proof (cases "it_master i")
    case (Some m)
    then have "dict_mem m (l_items_by_master ?L)" "i \<in> set (items_of ?L m)"
      using built.item_under_master [OF i] by auto
    then show ?thesis using that Some
      by (simp add: pressing_cursor_def parse_focus_def parse_master_focus_def OTHER_CREDITS_def starts_with_def
          removeprefix_def)
  next
    case None
    have c: "clean_credit (it_credit i)" using clean_item_credit [OF assms(1) _ None] i by simp
    have mem: "i \<in> set (lane_of ?L (it_credit i))" using built.item_in_lane [OF i None] .
    then have "lane_of ?L (it_credit i) \<noteq> []" by force
    then show ?thesis using that None mem parse_credit_id(1) [OF c]
      by (simp add: pressing_cursor_def parse_focus_def parse_lane_focus_def OTHER_CREDITS_def starts_with_def
          removeprefix_def Let_def)
  qed
qed

lemma resolve_pressing:
  assumes "clean_catalog cat" "pressing (build_ladder cat marks) fid = Some i"
  shows "\<exists>f. resolve_focus (build_ladder cat marks) fid page b = Inr f \<and> i \<in> set (item_page f)"
proof -
  let ?L = "build_ladder cat marks"
  obtain p "is" where p: "parse_focus ?L (pressing_cursor i) = Some p" "f_members p = ItemMembers is" "i \<in> set is"
    by (rule pressing_cursor_parses [OF assms])
  obtain k where k: "pressing_index i (f_members p) = Some k" using p by (auto simp: pressing_index_def)
  have bounds: "0 \<le> k" "nat k < length is" "is ! nat k = i"
    using pressing_index_nth [OF k] p(2) by auto
  let ?s = "focus_size ?L b p"
  have s: "1 \<le> ?s" using built.parse_focus_ok [OF p(1)] by (rule focus_size_pos)
  have pg: "paging is (nat ?s)"
    using s p(3) by unfold_locales auto
  have div: "k div ?s = int (nat k div nat ?s)" using bounds s by (simp add: zdiv_int)
  have "nat k div nat ?s < paging.n_pages is (nat ?s)" using paging.index_page(1) [OF pg bounds(2)] .
  then have "k div ?s < ceil_div (int (length is)) ?s"
    unfolding div ceil_div_nat [OF s] by (simp add: paging.n_pages_def [OF pg])
  then have mod: "(k div ?s) mod ceil_div (int (length is)) ?s = k div ?s"
    using bounds s by (intro mod_pos_pos_trivial) (simp_all add: pos_imp_zdiv_nonneg_iff)
  have "i \<in> set (page_slice (k div ?s) ?s is)"
    using paging.index_page(2) [OF pg bounds(2)] bounds(3) paging_page_at [OF pg, of "k div ?s"] s div
    by simp
  moreover have "resolve_focus ?L fid page b = Inr (parsed_focus.extend p \<lparr>f_page = k div ?s, f_page_size = ?s\<rparr>)"
    using p k mod by (simp add: resolve_focus_def Let_def assms(2) n_members_def)
  ultimately show ?thesis by (auto simp: item_page_def p(2))
qed

section \<open>From a request to its payload\<close>

lemma build_strata_render:
  assumes "build_strata cat b focus page marks = Inr pl"
  obtains fo where "fo_ok (build_ladder cat marks) b fo" "render (build_ladder cat marks) b fo = Inr pl"
proof (cases "focus = None \<or> focus = Some []")
  case True
  then have "render (build_ladder cat marks) b None = Inr pl"
    using assms by (auto simp: build_strata_def Let_def)
  then show ?thesis using that [of None] by (simp add: fo_ok_def)
next
  case False
  then obtain f fid where "resolve_focus (build_ladder cat marks) fid page b = Inr f"
    "render (build_ladder cat marks) b (Some f) = Inr pl"
    using assms by (auto simp: build_strata_def Let_def split: sum.splits option.splits if_splits)
  then show ?thesis using that [of "Some f"] built.resolve_focus_ok by (simp add: fo_ok_def)
qed

lemma resolve_focus_error:
  assumes "clean_catalog cat" "resolve_focus (build_ladder cat marks) fid page b = Inl e"
  shows "\<exists>msg. e = FocusNotFoundError msg"
proof (cases "pressing (build_ladder cat marks) fid")
  case None
  then show ?thesis using assms(2) by (auto simp: resolve_focus_def Let_def split: option.splits)
next
  case (Some i)
  then show ?thesis using resolve_pressing [OF assms(1) Some, of page b] assms(2) by auto
qed

text \<open>A small discography: two masters and a no-master release of the root, one joint credit.\<close>

definition demo_release :: "string \<Rightarrow> string option \<Rightarrow> int option \<Rightarrow> credit \<Rightarrow> release" where
  "demo_release i m y c =
     \<lparr>rel_id = i, rel_master = m, rel_year = y, rel_credit = c, rel_provider = Discogs, rel_title = None\<rparr>"

definition demo_catalog :: catalog where
  "demo_catalog =
     \<lparr>cat_root_id = ''1'', cat_root_name = Some ''A'',
      cat_releases = [demo_release ''10'' (Some ''5'') (Some 1991) [''1''],
                      demo_release ''11'' (Some ''5'') None [''1''],
                      demo_release ''12'' None (Some 1984) [''1''],
                      demo_release ''13'' (Some ''6'') None [''1'', ''2''],
                      \<lparr>rel_id = ''ab'', rel_master = Some ''5'', rel_year = Some 1992, rel_credit = [],
                       rel_provider = MusicBrainz, rel_title = Some ''x''\<rparr>],
      cat_master_years = [(''5'', Some 1991)]\<rparr>"

lemma demo_clean: "clean_catalog demo_catalog" by code_simp

lemma demo_budget: "budget_validate DEFAULT_BUDGET = Inr DEFAULT_BUDGET" by code_simp

lemma demo_builds: "\<exists>pl. build_strata demo_catalog DEFAULT_BUDGET None 0 None = Inr pl"
proof -
  have "budget_ok DEFAULT_BUDGET" by code_simp
  then show ?thesis using built.render_total by (auto simp: build_strata_def Let_def fo_ok_def)
qed

section \<open>Properties\<close>

text \<open>
  C1.  A request with a validated budget is always answered: the assertions of \<open>fit\<close> and \<open>render\<close>
  and the \<open>StopIteration\<close> of \<open>resolve_focus\<close> are never reached, and the only error left is a focus
  cursor that names nothing under the root.
\<close>

theorem build_strata_answers:
  assumes "budget_validate b = Inr b" "clean_catalog cat"
  shows "(\<exists>pl. build_strata cat b focus page marks = Inr pl)
    \<or> (\<exists>fid msg. focus = Some fid \<and> build_strata cat b focus page marks = Inl (FocusNotFoundError msg))"
proof -
  let ?L = "build_ladder cat marks"
  have b: "budget_ok b" using assms(1) by (simp add: budget_validate_ok)
  have total: "\<exists>pl. render ?L b fo = Inr pl" if "fo_ok ?L b fo" for fo
    using built.render_total [OF b that] .
  show ?thesis
  proof (cases "focus = None \<or> focus = Some []")
    case True
    then show ?thesis using total [of None] by (auto simp: build_strata_def Let_def fo_ok_def)
  next
    case False
    then obtain fid where fid: "focus = Some fid" "fid \<noteq> []" by auto
    show ?thesis
    proof (cases "resolve_focus ?L fid page b")
      case (Inl e)
      then show ?thesis using resolve_focus_error [OF assms(2) Inl] fid by (auto simp: build_strata_def Let_def)
    next
      case (Inr f)
      then show ?thesis using total [of "Some f"] built.resolve_focus_ok [OF Inr] fid
        by (auto simp: build_strata_def Let_def fo_ok_def)
    qed
  qed
qed

theorem build_strata_answers_witness:
  "budget_validate DEFAULT_BUDGET = Inr DEFAULT_BUDGET \<and> clean_catalog demo_catalog
   \<and> ((\<exists>pl. build_strata demo_catalog DEFAULT_BUDGET (Some ''r:12'') 0 None = Inr pl)
      \<or> (\<exists>fid msg. Some ''r:12'' = Some fid
            \<and> build_strata demo_catalog DEFAULT_BUDGET (Some ''r:12'') 0 None = Inl (FocusNotFoundError msg)))"
  using build_strata_answers [OF demo_budget demo_clean] demo_budget demo_clean by blast

text \<open>
  C2.  Each plane of an answer stays within its budget, nodes plus aggregates.
\<close>

theorem build_strata_budget:
  assumes "budget_validate b = Inr b" "build_strata cat b focus page marks = Inr pl"
  shows "int (length (pl_credit_nodes pl)) + int (length (pl_credit_aggs pl)) \<le> b_credits b
    \<and> int (length (pl_master_nodes pl)) + int (length (pl_master_aggs pl)) \<le> b_masters b
    \<and> int (length (pl_release_nodes pl)) + int (length (pl_release_aggs pl)) \<le> b_releases b"
  using assms(2)
proof (rule build_strata_render)
  fix fo assume fo: "fo_ok (build_ladder cat marks) b fo" "render (build_ladder cat marks) b fo = Inr pl"
  have "budget_ok b" using assms(1) by (simp add: budget_validate_ok)
  then show ?thesis using built.render_budget [OF _ fo] by blast
qed

theorem build_strata_budget_witness:
  "\<exists>pl. build_strata demo_catalog DEFAULT_BUDGET None 0 None = Inr pl
     \<and> int (length (pl_release_nodes pl)) + int (length (pl_release_aggs pl)) \<le> 16"
proof -
  obtain pl where pl: "build_strata demo_catalog DEFAULT_BUDGET None 0 None = Inr pl" using demo_builds by blast
  from build_strata_budget [OF demo_budget pl] show ?thesis using pl by (simp add: DEFAULT_BUDGET_def)
qed

text \<open>
  C3.  Nothing is lost and nothing is shown twice: for every view the planner chooses, the releases
  drawn on the release plane, those its aggregates hold, those under a master bucket, those under
  the masters off a focused page, and those of the folded credits are together, with
  multiplicities, exactly the releases of the ladder.
\<close>

theorem view_partitions_releases:
  fixes cat marks
  defines "L \<equiv> build_ladder cat marks"
  assumes "budget_validate b = Inr b" "fo = None \<or> (\<exists>fid page. map_option Inr fo = Some (resolve_focus L fid page b))"
    and "fit L b fo = Inr p" "plan_releases L p b fo = Inr v"
  shows "mset (map fst (fst v)) + mset (concat (map ra_items (snd v)))
      + mset (concat (map (\<lambda>(k, ms). concat (map (items_of L) ms)) (p_buckets p)))
      + mset (concat (map (items_of L) (p_remainder p)))
      + mset (concat (map (credit_items L) (p_folded p))) = mset (l_items L)"
proof -
  have b: "budget_ok b" using assms(2) by (simp add: budget_validate_ok)
  have fo: "fo_ok L b fo"
    using assms(3) unfolding L_def by (cases fo) (auto simp: fo_ok_def intro: built.resolve_focus_ok)
  have "plan_ok L b fo p" using built.fit_plan_ok [OF b] fo assms(4) unfolding L_def by blast
  then show ?thesis
    using built.plan_covers built.plan_releases_items fo assms(5) unfolding L_def view_items_def by metis
qed

theorem view_partitions_releases_witness:
  "\<exists>p v. fit (build_ladder demo_catalog None) DEFAULT_BUDGET None = Inr p
     \<and> plan_releases (build_ladder demo_catalog None) p DEFAULT_BUDGET None = Inr v
     \<and> mset (map fst (fst v)) + mset (concat (map ra_items (snd v)))
      + mset (concat (map (\<lambda>(k, ms). concat (map (items_of (build_ladder demo_catalog None)) ms)) (p_buckets p)))
      + mset (concat (map (items_of (build_ladder demo_catalog None)) (p_remainder p)))
      + mset (concat (map (credit_items (build_ladder demo_catalog None)) (p_folded p)))
      = mset (l_items (build_ladder demo_catalog None))"
proof -
  have b: "budget_ok DEFAULT_BUDGET" by code_simp
  have fo: "fo_ok (build_ladder demo_catalog None) DEFAULT_BUDGET None" by (simp add: fo_ok_def)
  obtain p where p: "fit (build_ladder demo_catalog None) DEFAULT_BUDGET None = Inr p"
    using built.fit_total [OF b fo] by blast
  obtain v where v: "plan_releases (build_ladder demo_catalog None) p DEFAULT_BUDGET None = Inr v"
    using built.plan_releases_fits [OF fo built.fit_plan_ok [OF b fo p]] by blast
  show ?thesis using view_partitions_releases [OF demo_budget disjI1 [OF refl] p v] p v by blast
qed

text \<open>
  The counts of an answer agree with its totals: drawn releases, plus the release counts of the
  release aggregates, of the master buckets and of \<open>c:other\<close>, sum to the total of the root.
\<close>

theorem build_strata_conserves_counts:
  assumes "budget_validate b = Inr b" "build_strata cat b focus page marks = Inr pl"
  shows "length (pl_release_nodes pl) + sum_list (map (k_releases \<circ> ro_counts) (pl_release_aggs pl))
     + sum_list (map (k_releases \<circ> ma_counts) (filter (\<lambda>a. ma_kind a = MastersKind) (pl_master_aggs pl)))
     + sum_list (map (k_releases \<circ> ca_counts) (pl_credit_aggs pl)) = t_releases (pl_totals pl)"
  using assms(2)
proof (rule build_strata_render)
  fix fo assume fo: "fo_ok (build_ladder cat marks) b fo" "render (build_ladder cat marks) b fo = Inr pl"
  have "budget_ok b" using assms(1) by (simp add: budget_validate_ok)
  then show ?thesis using built.render_conserves [OF _ fo] by blast
qed

theorem build_strata_conserves_counts_witness:
  "\<exists>pl. build_strata demo_catalog DEFAULT_BUDGET None 0 None = Inr pl
     \<and> length (pl_release_nodes pl) + sum_list (map (k_releases \<circ> ro_counts) (pl_release_aggs pl))
     + sum_list (map (k_releases \<circ> ma_counts) (filter (\<lambda>a. ma_kind a = MastersKind) (pl_master_aggs pl)))
     + sum_list (map (k_releases \<circ> ca_counts) (pl_credit_aggs pl)) = t_releases (pl_totals pl)"
  using demo_builds build_strata_conserves_counts [OF demo_budget] by blast

text \<open>
  Every entry hangs under an entry drawn on the plane above: masters, buckets and lanes under a
  drawn credit, releases and release aggregates under a drawn master or a drawn no-master lane.
\<close>

theorem build_strata_parents_drawn:
  assumes "budget_validate b = Inr b" "build_strata cat b focus page marks = Inr pl"
  shows "mn_parent ` set (pl_master_nodes pl) \<union> ma_parent ` set (pl_master_aggs pl) \<subseteq> cn_id ` set (pl_credit_nodes pl)
    \<and> rn_parent ` set (pl_release_nodes pl) \<union> ro_parent ` set (pl_release_aggs pl)
      \<subseteq> mn_id ` set (pl_master_nodes pl) \<union> ma_id ` {a \<in> set (pl_master_aggs pl). ma_kind a = NoMasterKind}"
  using assms(2)
proof (rule build_strata_render)
  fix fo assume fo: "fo_ok (build_ladder cat marks) b fo" "render (build_ladder cat marks) b fo = Inr pl"
  have "budget_ok b" using assms(1) by (simp add: budget_validate_ok)
  then show ?thesis using built.render_parents [OF _ fo] by blast
qed

theorem build_strata_parents_drawn_witness:
  "\<exists>pl. build_strata demo_catalog DEFAULT_BUDGET None 0 None = Inr pl
     \<and> mn_parent ` set (pl_master_nodes pl) \<subseteq> cn_id ` set (pl_credit_nodes pl)"
  using demo_builds build_strata_parents_drawn [OF demo_budget] by blast

text \<open>
  A pressing cursor (\<open>r:<id>\<close> or \<open>mb:<mbid>\<close>) that names a release of the root is answered with
  a payload that draws that release, whatever page number the request carries.
\<close>

theorem pressing_is_drawn:
  assumes "budget_validate b = Inr b" "clean_catalog cat"
    and "pressing (build_ladder cat marks) fid = Some i"
  shows "\<exists>pl. build_strata cat b (Some fid) page marks = Inr pl
     \<and> node_id i \<in> rn_id ` set (pl_release_nodes pl)"
proof -
  let ?L = "build_ladder cat marks"
  have b: "budget_ok b" using assms(1) by (simp add: budget_validate_ok)
  obtain f where f: "resolve_focus ?L fid page b = Inr f" "i \<in> set (item_page f)"
    using resolve_pressing [OF assms(2,3)] by blast
  note ok = built.resolve_focus_ok [OF f(1)]
  obtain pl where pl: "render ?L b (Some f) = Inr pl"
    using built.render_total [OF b] ok by (fastforce simp: fo_ok_def)
  have "fid \<noteq> []" using assms(3) by (auto simp: pressing_def starts_with_def)
  then have "build_strata cat b (Some fid) page marks = Inr pl"
    using f(1) pl by (simp add: build_strata_def Let_def)
  moreover have "node_id i \<in> rn_id ` set (pl_release_nodes pl)"
    using built.focus_page_drawn [OF b ok pl] f(2)
    by (auto simp: page_members_def item_page_def split: members.splits)
  ultimately show ?thesis by blast
qed

lemma demo_pressing:
  "pressing (build_ladder demo_catalog None) ''r:12''
     = Some \<lparr>it_release = demo_release ''12'' None (Some 1984) [''1''], it_year = Some 1984,
             it_year_source = Some ''release'', it_credit = [''1''], it_state = None, it_mark = None\<rparr>"
  by code_simp

theorem pressing_is_drawn_witness:
  "\<exists>pl. build_strata demo_catalog DEFAULT_BUDGET (Some ''r:12'') 7 None = Inr pl
     \<and> ''r:12'' \<in> rn_id ` set (pl_release_nodes pl)"
  using pressing_is_drawn [OF demo_budget demo_clean demo_pressing, of 7]
  by (simp add: node_id_def demo_release_def)

text \<open>A canonical cursor id parses to the same cursor.\<close>

lemma parse_credit_canonical:
  assumes "parse_credit text = (Some c, l)"
  shows "text = credit_id c @ (case l of None \<Rightarrow> [] | Some d \<Rightarrow> '':'' @ d)"
proof -
  let ?ps = "split_on CHR '':'' text"
  have c: "length ?ps = 2 \<or> length ?ps = 3" "?ps ! 0 = ''c''" "c = split_on CHR ''+'' (?ps ! 1)"
    "l = (if length ?ps = 3 then Some (?ps ! 2) else None)"
    using assms by (auto simp: parse_credit_def Let_def split: if_splits)
  have j: "join_with '':'' ?ps = text" by simp
  have cid: "credit_id c = ''c:'' @ ?ps ! 1" by (simp add: credit_id_def c(3))
  show ?thesis
    using c(1)
  proof
    assume n: "length ?ps = 2"
    then have "?ps = [?ps ! 0, ?ps ! 1]" by (auto simp: length_Suc_conv numeral_2_eq_2)
    then have "text = ''c:'' @ ?ps ! 1" using j c(2) by (metis append_Cons append_Nil join_with.simps(2,3))
    then show ?thesis using n c(4) cid by simp
  next
    assume n: "length ?ps = 3"
    then have "?ps = [?ps ! 0, ?ps ! 1, ?ps ! 2]" by (auto simp: length_Suc_conv numeral_3_eq_3)
    then have "text = ''c:'' @ ?ps ! 1 @ '':'' @ ?ps ! 2"
      using j c(2) by (metis append_Cons append_Nil join_with.simps(2,3))
    then show ?thesis using n c(4) cid by simp
  qed
qed

lemma parse_focus_prefix:
  "parse_focus L (''ra:m:'' @ t) = parse_master_focus L t" "parse_focus L (''m:'' @ t) = parse_master_focus L t"
  "parse_focus L (''ra:nm:'' @ t) = parse_lane_focus L t" "parse_focus L (''nm:'' @ t) = parse_lane_focus L t"
  "parse_focus L (''ma:'' @ t) = parse_bucket_focus L t"
  by (simp_all add: parse_focus_def OTHER_CREDITS_def starts_with_def removeprefix_def)

lemma decade_nonempty [simp]: "decade y \<noteq> []"
  by (simp add: decade_def UNDATED_def split: option.splits)

lemma parse_lane_canonical:
  assumes "parse_lane_focus L t = Some p"
  shows "f_id p = ''ra:nm:'' @ t"
proof -
  obtain c l where cl: "parse_credit t = (Some c, l)"
    using assms by (auto simp: parse_lane_focus_def split: option.splits prod.splits)
  then have "l \<noteq> Some []"
    using assms by (auto simp: parse_lane_focus_def Let_def split: if_splits)
  moreover have "f_id p = ''ra:nm:'' @ credit_id c @ (case l of None \<Rightarrow> [] | Some d \<Rightarrow> if d = [] then [] else '':'' @ d)"
    using assms cl by (auto simp: parse_lane_focus_def Let_def split: if_splits)
  ultimately show ?thesis using parse_credit_canonical [OF cl] by (auto split: option.splits)
qed

lemma parse_bucket_canonical:
  assumes "parse_bucket_focus L t = Some p"
  shows "f_id p = ''ma:'' @ t"
proof -
  obtain c d where cl: "parse_credit t = (Some c, Some d)"
    using assms by (auto simp: parse_bucket_focus_def split: option.splits prod.splits)
  then show ?thesis
    using assms parse_credit_canonical [OF cl]
    by (auto simp: parse_bucket_focus_def Let_def split: if_splits)
qed

lemma parse_focus_canonical:
  assumes "parse_focus L fid = Some p"
  shows "parse_focus L (f_id p) = Some p"
proof -
  have ids: "f_id q = ''ra:m:'' @ t" if "parse_master_focus L t = Some q" for t q
    using that by (auto simp: parse_master_focus_def split: if_splits)
  show ?thesis
    using assms
    by (auto simp: parse_focus_def [of L fid] Let_def parse_focus_prefix ids parse_lane_canonical parse_bucket_canonical
        simp del: append.simps split: if_splits)
      (simp add: parse_focus_def)
qed

lemma canonical_not_pressing:
  assumes "parse_focus L fid = Some p"
  shows "pressing L (f_id p) = None"
proof -
  have ids: "f_id q = ''ra:m:'' @ t" if "parse_master_focus L t = Some q" for t q
    using that by (auto simp: parse_master_focus_def split: if_splits)
  have "f_id p = OTHER_CREDITS \<or> (\<exists>t. f_id p = ''ra:m:'' @ t \<or> f_id p = ''ra:nm:'' @ t \<or> f_id p = ''ma:'' @ t)"
    using assms ids parse_lane_canonical parse_bucket_canonical
    by (fastforce simp: parse_focus_def Let_def simp del: append.simps split: if_splits)
  then show ?thesis by (auto simp: pressing_def starts_with_def OTHER_CREDITS_def)
qed

lemma resolve_canonical:
  assumes "parse_focus L fid = Some p" "pressing L fid = None"
  shows "\<exists>f. resolve_focus L fid page b = Inr f \<and> f_members f = f_members p"
  using assms by (simp add: resolve_focus_def Let_def)

lemma clean_master_credit:
  assumes "clean_catalog cat" "dict_mem m (master_credits cat)"
  shows "clean_credit (credit_of (build_ladder cat marks) m)"
proof -
  obtain rs where rs: "(m, rs) \<in> set (by_master cat)"
    using assms(2) by (auto simp: dict_mem_keys master_credits_def)
  then have "rs \<noteq> []" "set rs \<subseteq> {r \<in> set (cat_releases cat). rel_provider r = Discogs}"
    by (auto simp: by_master_def dest!: group_by_value)
  moreover have "map_of (master_credits cat) m = Some (rel_credit (original rs))"
    using rs by (intro map_of_is_SomeI) (force simp: master_credits_def by_master_def)+
  moreover have "original rs \<in> set rs"
    using \<open>rs \<noteq> []\<close> min_by_mem [of original_key "hd rs" "tl rs"] by (simp add: original_def)
  ultimately show ?thesis
    using assms(1) by (auto simp: clean_catalog_def list_all_iff dict_get_def)
qed

lemma decade_no_colon: "CHR '':'' \<notin> set (decade y)"
proof -
  have "CHR '':'' \<notin> set (show_int k)" for k
    using show_int_digits [of "CHR '':''" k] by (auto simp: is_digit_def)
  then show ?thesis by (auto simp: decade_def UNDATED_def split: option.splits)
qed

lemma lane_cursor:
  assumes "clean_credit c" "is \<noteq> []" "set is \<subseteq> set (lane_of L c)"
    and "l = None \<or> (\<exists>d. l = Some d \<and> (\<forall>i \<in> set is. decade (it_year i) = d))"
  shows "\<exists>f. resolve_focus L (''ra:nm:'' @ credit_id c @ (case l of None \<Rightarrow> [] | Some d \<Rightarrow> '':'' @ d)) page b = Inr f
     \<and> set is \<subseteq> set (item_members f)"
proof -
  let ?t = "credit_id c @ (case l of None \<Rightarrow> [] | Some d \<Rightarrow> '':'' @ d)"
  let ?m = "case l of None \<Rightarrow> lane_of L c | Some d \<Rightarrow> filter (\<lambda>i. decade (it_year i) = d) (lane_of L c)"
  have sub: "set is \<subseteq> set ?m" using assms(3,4) by (auto split: option.splits)
  then have ne: "?m \<noteq> []" using assms(2) by (cases ?m) auto
  have "parse_credit ?t = (Some c, l)"
  proof (cases l)
    case (Some d)
    then have "d = decade (it_year (hd is))" using assms(2,4) by (cases "is") auto
    then show ?thesis using Some parse_credit_id(2) [OF assms(1)] decade_no_colon by simp
  qed (simp add: parse_credit_id(1) [OF assms(1)])
  then obtain p where p: "parse_lane_focus L ?t = Some p" "f_members p = ItemMembers ?m"
    using ne by (simp add: parse_lane_focus_def Let_def)
  then have pf: "parse_focus L (''ra:nm:'' @ ?t) = Some p" unfolding parse_focus_prefix by simp
  have "pressing L (''ra:nm:'' @ ?t) = None" by (simp add: pressing_def starts_with_def)
  then obtain f where "resolve_focus L (''ra:nm:'' @ ?t) page b = Inr f" "f_members f = ItemMembers ?m"
    using resolve_canonical [OF pf] p(2) by metis
  then show ?thesis using sub by (intro exI [of _ f]) (simp add: item_members_def)
qed

lemma master_cursor:
  assumes "dict_mem m (l_items_by_master L)"
  shows "\<exists>f. resolve_focus L (''ra:m:'' @ m) page b = Inr f \<and> item_members f = items_of L m"
proof -
  obtain p where p: "parse_master_focus L m = Some p" "f_members p = ItemMembers (items_of L m)"
    using assms by (simp add: parse_master_focus_def)
  then have pf: "parse_focus L (''ra:m:'' @ m) = Some p" unfolding parse_focus_prefix by simp
  have "pressing L (''ra:m:'' @ m) = None" by (simp add: pressing_def starts_with_def)
  then obtain f where "resolve_focus L (''ra:m:'' @ m) page b = Inr f" "f_members f = ItemMembers (items_of L m)"
    using resolve_canonical [OF pf] p(2) by metis
  then show ?thesis by (intro exI [of _ f]) (simp add: item_members_def)
qed

text \<open>The aggregates of a folded view: their ids, and where their releases come from.\<close>

lemma fold_aggs_origin:
  assumes "a \<in> set (snd (fold_releases L ms lanes st))"
  shows "(\<exists>m \<in> set ms. ra_id a = ''ra:m:'' @ m \<and> set (ra_items a) \<subseteq> set (items_of L m))
    \<or> (\<exists>c is l. (c, is) \<in> set lanes \<and> ra_id a = ''ra:nm:'' @ credit_id c @ (case l of None \<Rightarrow> [] | Some d \<Rightarrow> '':'' @ d)
         \<and> ra_items a \<noteq> [] \<and> set (ra_items a) \<subseteq> set is
         \<and> (l = None \<or> (\<exists>d. l = Some d \<and> (\<forall>i \<in> set (ra_items a). decade (it_year i) = d))))"
proof -
  obtain ko ks bd where st: "st = (ko, ks, bd)" by (cases st)
  from assms consider (m) m where "m \<in> set ms" "a \<in> set (snd (fold_master L ko ks m))"
    | (l) c "is" where "(c, is) \<in> set lanes" "a \<in> set (snd (fold_lane ks bd (c, is)))"
    by (auto simp: fold_releases_def st Let_def)
  then show ?thesis
  proof cases
    case m
    then have "ra_id a = ''ra:m:'' @ m \<and> set (ra_items a) \<subseteq> set (items_of L m)"
      by (auto simp: fold_master_def Let_def split: if_splits)
    then show ?thesis using m(1) by blast
  next
    case l
    let ?rest = "filter (\<lambda>i. \<not> (ks \<and> stateful i)) is"
    have "\<exists>l. ra_id a = ''ra:nm:'' @ credit_id c @ (case l of None \<Rightarrow> [] | Some d \<Rightarrow> '':'' @ d)
         \<and> ra_items a \<noteq> [] \<and> set (ra_items a) \<subseteq> set is
         \<and> (l = None \<or> (\<exists>d. l = Some d \<and> (\<forall>i \<in> set (ra_items a). decade (it_year i) = d)))"
    proof (cases bd)
      case True
      then obtain d g where "(d, g) \<in> set (group_by (\<lambda>i. decade (it_year i)) ?rest)"
        "a = \<lparr>ra_id = ''ra:nm:'' @ credit_id c @ '':'' @ d, ra_parent = ''nm:'' @ credit_id c, ra_items = g, ra_decade = Some d\<rparr>"
        using l(2) by (auto simp: fold_lane_def Let_def split: if_splits)
      then show ?thesis by (intro exI [of _ "Some d"]) (auto dest: group_by_value)
    next
      case False
      then show ?thesis using l(2) by (intro exI [of _ None]) (auto simp: fold_lane_def Let_def split: if_splits)
    qed
    then show ?thesis using l(1) by blast
  qed
qed

lemma bucket_cursor:
  assumes "clean_credit c" "ms \<noteq> []" "set ms \<subseteq> set (masters_of L c)"
    and "\<forall>m \<in> set ms. bucket L mode m = (c, label)"
  shows "\<exists>f ms'. resolve_focus L (''ma:'' @ credit_id c @ '':'' @ label) page b = Inr f
     \<and> f_members f = MasterMembers ms' \<and> set ms \<subseteq> set ms'"
proof -
  let ?t = "credit_id c @ '':'' @ label"
  let ?m = "filter (\<lambda>m. label = ALL_LABEL \<or> snd (bucket L ByDecade m) = label) (masters_of L c)"
  have label: "label = snd (bucket L mode (hd ms))" using assms(2,4) by auto
  have sub: "set ms \<subseteq> set ?m" using assms(3,4) by (cases mode) (auto simp: bucket_def)
  then have ne: "?m \<noteq> []" using assms(2) by (cases ?m) auto
  have "CHR '':'' \<notin> set label"
    unfolding label by (cases mode) (simp_all add: bucket_def decade_no_colon ALL_LABEL_def)
  then have "parse_credit ?t = (Some c, Some label)" by (rule parse_credit_id(2) [OF assms(1)])
  then obtain p where p: "parse_bucket_focus L ?t = Some p" "f_members p = MasterMembers ?m"
    using ne by (simp add: parse_bucket_focus_def Let_def)
  then have pf: "parse_focus L (''ma:'' @ ?t) = Some p" unfolding parse_focus_prefix by simp
  have "pressing L (''ma:'' @ ?t) = None" by (simp add: pressing_def starts_with_def)
  then obtain f where "resolve_focus L (''ma:'' @ ?t) page b = Inr f" "f_members f = MasterMembers ?m"
    using resolve_canonical [OF pf] p(2) by metis
  then show ?thesis using sub by (intro exI [of _ f] exI [of _ ?m]) simp
qed

text \<open>The buckets of a plan fold masters of their credit by one mode.\<close>

lemma fit_buckets:
  assumes "fit L b fo = Inr p"
  obtains mode where "\<forall>(k, ms) \<in> set (p_buckets p). ms \<noteq> [] \<and> (\<forall>m \<in> set ms. bucket L mode m = k)"
    "\<forall>(k, ms) \<in> set (p_buckets p). \<forall>m \<in> set ms. \<exists>c \<in> set (p_shown p). m \<in> set (masters_of L c)"
proof -
  obtain shown folded mode where pm: "plan_masters L shown folded b fo mode = Some p"
    using assms by (auto simp: fit_def dest!: first_some_SomeD split: option.splits)
  show ?thesis
    using pm
  proof (rule plan_masters_cases)
    fix keep
    let ?cs = "candidates L shown fo"
    assume p: "p = \<lparr>p_shown = shown, p_folded = folded, p_masters = pinned_masters fo @ take keep ?cs,
          p_buckets = group_by (bucket L mode) (drop keep ?cs),
          p_remainder = remainder_masters fo, p_lanes = filter (\<lambda>c. lane_of L c \<noteq> []) shown\<rparr>"
    have "\<forall>(k, ms) \<in> set (p_buckets p). ms \<noteq> [] \<and> (\<forall>m \<in> set ms. bucket L mode m = k)"
      by (auto simp: p dest: group_by_value)
    moreover have "\<forall>(k, ms) \<in> set (p_buckets p). \<forall>m \<in> set ms. \<exists>c \<in> set (p_shown p). m \<in> set (masters_of L c)"
      by (auto simp: p candidates_def dest!: group_by_value in_set_dropD)
    ultimately show ?thesis by (rule that)
  qed
qed

lemma clean_lane:
  assumes "clean_catalog cat" "lane_of (build_ladder cat marks) c \<noteq> []"
  shows "clean_credit c"
proof -
  obtain i where "i \<in> set (lane_of (build_ladder cat marks) c)" using assms(2) by (meson last_in_set)
  then have "i \<in> set (place_items cat marks)" "it_master i = None" "it_credit i = c"
    by (auto simp: lane_of_build)
  then show ?thesis using clean_item_credit [OF assms(1)] by blast
qed

lemma folded_agg_cursor:
  assumes "clean_catalog cat" "plan_ok (build_ladder cat marks) b' fo p"
    and a: "a \<in> set (snd (fold_releases (build_ladder cat marks) (open_masters p fo) (open_lanes (build_ladder cat marks) p fo) st))"
  shows "\<exists>f. resolve_focus (build_ladder cat marks) (ra_id a) page b = Inr f \<and> set (ra_items a) \<subseteq> set (item_members f)"
  using fold_aggs_origin [OF a]
proof (elim disjE)
  let ?L = "build_ladder cat marks"
  assume "\<exists>m \<in> set (open_masters p fo). ra_id a = ''ra:m:'' @ m \<and> set (ra_items a) \<subseteq> set (items_of ?L m)"
  then obtain m where m: "m \<in> set (open_masters p fo)" "ra_id a = ''ra:m:'' @ m" "set (ra_items a) \<subseteq> set (items_of ?L m)"
    by blast
  have "set (p_masters p) \<subseteq> set (concat (map (masters_of ?L) (p_shown p)))"
    using mset_eq_setD [OF plan_ok_masters [OF assms(2)]] unfolding set_append by blast
  moreover have "m \<in> set (p_masters p)" using m(1) by (simp add: open_masters_def)
  ultimately have "\<exists>c. m \<in> set (masters_of ?L c)" by auto
  then have "items_of ?L m \<noteq> []" using built.items_nonempty by blast
  then have "dict_mem m (l_items_by_master ?L)" unfolding dict_mem_def dict_get_def by (auto split: option.splits)
  from master_cursor [OF this, of page b] show ?thesis using m(2,3) by auto
next
  let ?L = "build_ladder cat marks"
  assume "\<exists>c is l. (c, is) \<in> set (open_lanes ?L p fo) \<and> ra_id a = ''ra:nm:'' @ credit_id c
          @ (case l of None \<Rightarrow> [] | Some d \<Rightarrow> '':'' @ d) \<and> ra_items a \<noteq> [] \<and> set (ra_items a) \<subseteq> set is
         \<and> (l = None \<or> (\<exists>d. l = Some d \<and> (\<forall>i \<in> set (ra_items a). decade (it_year i) = d)))"
  then obtain c "is" l where x: "(c, is) \<in> set (open_lanes ?L p fo)"
    and id: "ra_id a = ''ra:nm:'' @ credit_id c @ (case l of None \<Rightarrow> [] | Some d \<Rightarrow> '':'' @ d)"
    and it: "ra_items a \<noteq> []" "set (ra_items a) \<subseteq> set is"
    and l: "l = None \<or> (\<exists>d. l = Some d \<and> (\<forall>i \<in> set (ra_items a). decade (it_year i) = d))"
    by blast
  have "set is \<subseteq> set (lane_of ?L c)"
    using x unfolding open_lanes_def open_lane_items_def by (auto split: if_splits)
  then have sub: "set (ra_items a) \<subseteq> set (lane_of ?L c)" using it(2) by blast
  then have "lane_of ?L c \<noteq> []" using it(1) by (metis set_empty subset_empty)
  then have "clean_credit c" by (rule clean_lane [OF assms(1)])
  from lane_cursor [OF this it(1) sub l, of page b] show ?thesis unfolding id .
qed

lemma fixed_agg_cursor:
  assumes "resolve_focus L fid page b = Inr f" "a \<in> set (snd (focus_view f pa d))"
  shows "\<exists>g. resolve_focus L (ra_id a) page' b = Inr g \<and> set (ra_items a) \<subseteq> set (item_members g)"
proof -
  have a: "ra_id a = f_id f" "ra_items a = item_rest f"
    using assms(2) by (auto simp: focus_view_def split: if_splits)
  from assms(1) obtain q where q: "parse_focus L (f_id f) = Some q" "pressing L (f_id f) = None" "f_members q = f_members f"
  proof (rule resolve_focus_cases)
    fix p k
    assume p: "parse_focus L (case pressing L fid of None \<Rightarrow> fid | Some i \<Rightarrow> pressing_cursor i) = Some p"
      and f: "f = parsed_focus.extend p
         \<lparr>f_page = k mod ceil_div (n_members (f_members p)) (focus_size L b p), f_page_size = focus_size L b p\<rparr>"
    have "f_id f = f_id p" "f_members f = f_members p" unfolding f by (simp_all only: extend_sel)
    then show ?thesis using that parse_focus_canonical [OF p] canonical_not_pressing [OF p] by metis
  qed
  then obtain g where "resolve_focus L (f_id f) page' b = Inr g" "f_members g = f_members f"
    using resolve_canonical [OF q(1,2)] by metis
  moreover have "set (item_rest f) \<subseteq> set (item_members f)"
    by (cases "f_members f") (simp_all add: item_rest_def item_members_def rest_slice_subset)
  ultimately show ?thesis unfolding a by (intro exI [of _ g]) (simp add: item_members_def)
qed

lemma release_agg_cursor:
  assumes "clean_catalog cat" "plan_ok (build_ladder cat marks) b fo p"
    and "\<And>f. fo = Some f \<Longrightarrow> \<exists>fid page. resolve_focus (build_ladder cat marks) fid page b = Inr f"
    and "plan_releases (build_ladder cat marks) p b fo = Inr v" "a \<in> set (snd v)"
  shows "\<exists>f. resolve_focus (build_ladder cat marks) (ra_id a) page' b = Inr f \<and> set (ra_items a) \<subseteq> set (item_members f)"
  using assms(4)
proof (rule built.plan_releases_cases)
  let ?L = "build_ladder cat marks"
  fix v' assume v: "v = (concat (map fst (fixed_views p fo)) @ fst v', concat (map snd (fixed_views p fo)) @ snd v')"
    and v': "v' = (everything ?L (open_masters p fo) (open_lanes ?L p fo), [])
       \<or> (\<exists>st. v' = fold_releases ?L (open_masters p fo) (open_lanes ?L p fo) st)"
  have "a \<in> set (concat (map snd (fixed_views p fo))) \<or> a \<in> set (snd v')" using assms(5) v by simp
  then show ?thesis
  proof
    assume "a \<in> set (concat (map snd (fixed_views p fo)))"
    then obtain f pa d where f: "fo = Some f" "a \<in> set (snd (focus_view f pa d))"
      by (cases fo) (auto simp: fixed_views_def focuses_master_def focuses_lane_def)
    then show ?thesis using fixed_agg_cursor assms(3) by metis
  next
    assume a: "a \<in> set (snd v')"
    then obtain st where "v' = fold_releases ?L (open_masters p fo) (open_lanes ?L p fo) st" using v' by auto
    then show ?thesis using folded_agg_cursor [OF assms(1,2)] a by blast
  qed
qed

text \<open>
  C4.  The pages of a cursor partition its members: every page number is answered with the same
  member set and page size (the page index wraps around), and the pages, requested one after the
  other, list every member exactly once and in order.
\<close>

theorem focus_pages_partition:
  fixes cat marks
  defines "L \<equiv> build_ladder cat marks"
  assumes "resolve_focus L fid page b = Inr f" "pressing L fid = None"
  shows "0 < focus_pages f
    \<and> (\<forall>k. resolve_focus L fid k b = Inr (f\<lparr>f_page := k mod focus_pages f\<rparr>))
    \<and> concat (map (\<lambda>k. flat (page_members (projr (resolve_focus L fid (int k) b)))) [0..<nat (focus_pages f)])
        = flat (f_members f)"
proof -
  obtain p where p: "parse_focus L fid = Some p"
    and f: "f = parsed_focus.extend p
       \<lparr>f_page = page mod ceil_div (n_members (f_members p)) (focus_size L b p), f_page_size = focus_size L b p\<rparr>"
    using assms(2) by (rule resolve_focus_cases) (use assms(3) in auto)
  let ?s = "focus_size L b p" and ?xs = "flat (f_members p)"
  let ?n = "ceil_div (n_members (f_members p)) ?s"
  have ok: "parsed_ok L p" using built.parse_focus_ok p unfolding L_def by blast
  have s: "1 \<le> ?s" using ok by (rule focus_size_pos)
  have ne: "1 \<le> n_members (f_members p)" using ok by (rule parsed_ok_nonempty)
  have pg: "paging ?xs (nat ?s)" using s ne by unfold_locales (auto simp: n_members_flat)
  have n: "focus_pages f = ?n" by (simp add: focus_pages_def f)
  have all: "resolve_focus L fid k b = Inr (f\<lparr>f_page := k mod ?n\<rparr>)" for k
    using p assms(3) by (simp add: resolve_focus_def Let_def f)
  have pos: "0 < ?n" using pages_pos ne s by blast
  have num: "nat ?n = paging.n_pages ?xs (nat ?s)"
    using ceil_div_nat [OF s, of "length ?xs"] by (simp add: paging.n_pages_def [OF pg] n_members_flat)
  have "flat (page_members (projr (resolve_focus L fid (int k) b))) = paging.page_at ?xs (nat ?s) k"
    if "k < nat ?n" for k
    unfolding all flat_page_members
    using that paging_page_at [OF pg, of "int k"] s by (simp add: f)
  then have "concat (map (\<lambda>k. flat (page_members (projr (resolve_focus L fid (int k) b)))) [0..<nat ?n])
      = concat (map (paging.page_at ?xs (nat ?s)) [0..<nat ?n])"
    by (intro arg_cong [where f = concat] map_cong) auto
  also have "\<dots> = ?xs" unfolding num by (rule paging.pages_partition [OF pg])
  finally show ?thesis using pos all by (simp add: n) (simp add: f)
qed

theorem focus_pages_partition_witness:
  "\<exists>f. resolve_focus (build_ladder demo_catalog None) ''ra:m:5'' 0 DEFAULT_BUDGET = Inr f \<and> 0 < focus_pages f"
proof -
  have "dict_mem ''5'' (l_items_by_master (build_ladder demo_catalog None))" by code_simp
  then obtain f where f: "resolve_focus (build_ladder demo_catalog None) ''ra:m:5'' 0 DEFAULT_BUDGET = Inr f"
    using master_cursor [of "''5''"] by fastforce
  have "pressing (build_ladder demo_catalog None) ''ra:m:5'' = None" by code_simp
  from focus_pages_partition [OF f this] f show ?thesis by blast
qed



text \<open>
  C6.  An anonymous caller (\<open>marks is None\<close>) sees no collector field anywhere in the payload, and a
  signed-in caller sees one on every node.
\<close>

theorem collector_fields_only_when_signed_in:
  assumes "build_strata cat b focus page marks = Inr pl"
  shows "pl_signed_in pl = (marks \<noteq> None)
    \<and> (\<forall>n \<in> set (pl_credit_nodes pl). (cn_state n \<noteq> None) = (marks \<noteq> None) \<and> (k_states (cn_counts n) \<noteq> None) = (marks \<noteq> None))
    \<and> (\<forall>n \<in> set (pl_master_nodes pl). (mn_state n \<noteq> None) = (marks \<noteq> None) \<and> (k_states (mn_counts n) \<noteq> None) = (marks \<noteq> None))
    \<and> (\<forall>n \<in> set (pl_release_nodes pl). (rn_collector n \<noteq> None) = (marks \<noteq> None))
    \<and> (\<forall>a \<in> set (pl_credit_aggs pl). (k_states (ca_counts a) \<noteq> None) = (marks \<noteq> None))
    \<and> (\<forall>a \<in> set (pl_master_aggs pl). (k_states (ma_counts a) \<noteq> None) = (marks \<noteq> None))
    \<and> (\<forall>a \<in> set (pl_release_aggs pl). (k_states (ro_counts a) \<noteq> None) = (marks \<noteq> None))"
  using assms
proof (rule build_strata_render)
  let ?L = "build_ladder cat marks"
  fix fo assume "render ?L b fo = Inr pl"
  then obtain p v rems where fit: "fit ?L b fo = Inr p" "plan_releases ?L p b fo = Inr v"
    and r: "remainder_aggs ?L fo (p_remainder p) = Some rems" "pl_signed_in pl = l_signed_in ?L"
    "pl_credit_nodes pl = map (credit_node_of ?L) (p_shown p)"
    "pl_credit_aggs pl = credit_aggs_of ?L (p_folded p)"
    "pl_master_nodes pl = map (master_node_of ?L) (sort_key (master_node_key ?L) (p_masters p))"
    "pl_master_aggs pl = map (lane_agg ?L) (p_lanes p)
       @ map (\<lambda>((c, label), ms). bucket_agg ?L c label ms) (sort_key (bucket_key ?L) (p_buckets p)) @ rems"
    "pl_release_nodes pl = map (release_node_of ?L) (fst v)" "pl_release_aggs pl = map (release_agg_of ?L) (snd v)"
    by (rule render_cases)
  have rems: "\<forall>a \<in> set rems. (k_states (ma_counts a) \<noteq> None) = (marks \<noteq> None)"
    using r(1) by (auto simp: remainder_aggs_def bucket_agg_def counts_of_def split: if_splits option.splits)
  have "\<forall>a \<in> set (pl_master_aggs pl). (k_states (ma_counts a) \<noteq> None) = (marks \<noteq> None)"
    unfolding r(6) using rems by (auto simp: lane_agg_def bucket_agg_def counts_of_def state_if_def split: if_splits)
  moreover have "\<forall>n \<in> set (pl_credit_nodes pl). (cn_state n \<noteq> None) = (marks \<noteq> None) \<and> (k_states (cn_counts n) \<noteq> None) = (marks \<noteq> None)"
    unfolding r(3) by (auto simp: credit_node_of_def Let_def counts_of_def state_if_def split: if_splits)
  moreover have "\<forall>n \<in> set (pl_master_nodes pl). (mn_state n \<noteq> None) = (marks \<noteq> None) \<and> (k_states (mn_counts n) \<noteq> None) = (marks \<noteq> None)"
    unfolding r(5) by (auto simp: master_node_of_def Let_def counts_of_def state_if_def split: if_splits)
  moreover have "\<forall>n \<in> set (pl_release_nodes pl). (rn_collector n \<noteq> None) = (marks \<noteq> None)"
    unfolding r(7) by (auto simp: release_node_of_def split: if_splits)
  moreover have "\<forall>a \<in> set (pl_credit_aggs pl). (k_states (ca_counts a) \<noteq> None) = (marks \<noteq> None)"
    unfolding r(4) by (simp add: credit_aggs_of_def counts_of_def state_if_def split: if_splits)
  moreover have "\<forall>a \<in> set (pl_release_aggs pl). (k_states (ro_counts a) \<noteq> None) = (marks \<noteq> None)"
    unfolding r(8) by (auto simp: release_agg_of_def counts_of_def state_if_def split: if_splits)
  ultimately show ?thesis using r(2) by simp
qed

theorem collector_fields_only_when_signed_in_witness:
  "\<exists>pl. build_strata demo_catalog DEFAULT_BUDGET None 0 None = Inr pl
     \<and> list_all (\<lambda>n. rn_collector n = None) (pl_release_nodes pl)"
  using demo_builds collector_fields_only_when_signed_in [of demo_catalog DEFAULT_BUDGET None 0 None]
  unfolding list_all_iff by blast

lemma no_sep_digits: "list_all is_digit s \<Longrightarrow> CHR ''/'' \<notin> set s"
  by (auto simp: list_all_iff is_digit_def)

lemma strip_digits:
  assumes "list_all is_digit s"
  shows "strip s = s"
proof -
  have "\<not> is_space c" if "is_digit c" for c using that by (auto simp: is_digit_def is_space_def Let_def)
  then have "dropWhile is_space w = w" if "list_all is_digit w" for w
    using that by (cases w) auto
  then show ?thesis using assms by (simp add: strip_def list_all_iff)
qed

text \<open>
  \<open>Budget.parse\<close> accepts exactly the budgets within the floors and ceilings: the printed form
  of any three numbers parses to those numbers when they are within them, and is refused otherwise,
  and whatever is accepted is within them.
\<close>

theorem budget_parse_exact:
  "(budget_parse (show_nat c @ ''/'' @ show_nat m @ ''/'' @ show_nat r)
      = Inr \<lparr>b_credits = int c, b_masters = int m, b_releases = int r\<rparr>)
     = budget_ok \<lparr>b_credits = int c, b_masters = int m, b_releases = int r\<rparr>
   \<and> (\<forall>text b. budget_parse text = Inr b \<longrightarrow> budget_ok b)"
proof
  let ?t = "show_nat c @ ''/'' @ show_nat m @ ''/'' @ show_nat r"
  have d: "list_all is_digit (show_nat n)" for n using show_nat_digits by (simp add: list_all_iff)
  have "split_on CHR ''/'' ?t = [show_nat c, show_nat m, show_nat r]"
    by (simp add: split_on_append split_on_no_sep no_sep_digits d)
  then have "budget_parse ?t = budget_validate \<lparr>b_credits = int c, b_masters = int m, b_releases = int r\<rparr>"
    by (simp add: budget_parse_def strip_digits d isdigit_show_nat parse_show_nat)
  then show "(budget_parse ?t = Inr \<lparr>b_credits = int c, b_masters = int m, b_releases = int r\<rparr>)
     = budget_ok \<lparr>b_credits = int c, b_masters = int m, b_releases = int r\<rparr>"
    by (simp add: budget_validate_ok)
  show "\<forall>text b. budget_parse text = Inr b \<longrightarrow> budget_ok b"
    by (auto simp: budget_parse_def budget_validate_ok Let_def split: if_splits)
qed

theorem budget_parse_exact_witness:
  "budget_parse ''3/12/16'' = Inr DEFAULT_BUDGET \<and> budget_ok DEFAULT_BUDGET"
proof -
  have "budget_parse ''3/12/16'' = Inr DEFAULT_BUDGET" by code_simp
  then show ?thesis using conjunct2 [OF budget_parse_exact] by blast
qed

text \<open>
  A master hangs under the credit of its original: of the master's Discogs releases, one that is
  dated if any is, and the earliest of those, with the smallest id among equals.  Its anchor is that
  release.
\<close>

theorem master_credit_is_of_earliest:
  fixes cat marks
  defines "L \<equiv> build_ladder cat marks"
  assumes "dict_mem m (l_items_by_master L)"
  shows "\<exists>r \<in> set (cat_releases cat). rel_provider r = Discogs \<and> rel_master r = Some m
     \<and> credit_of L m = rel_credit r \<and> map_of (l_anchor L) m = Some (rel_id r)
     \<and> (\<forall>r' \<in> set (cat_releases cat). rel_provider r' = Discogs \<longrightarrow> rel_master r' = Some m \<longrightarrow>
          original_key r \<le> original_key r')"
proof -
  have "dict_mem m (master_credits cat)"
    using ladder_keys(1) [of m cat marks] assms(2) unfolding L_def by (simp add: dict_mem_keys del: set_map)
  then obtain rs where rs: "(m, rs) \<in> set (by_master cat)" by (auto simp: dict_mem_keys master_credits_def)
  then have rs': "rs = filter (\<lambda>r. the (rel_master r) = m)
      (filter (\<lambda>r. rel_provider r = Discogs \<and> rel_master r \<noteq> None) (cat_releases cat))" "rs \<noteq> []"
    unfolding by_master_def by (auto dest!: group_by_value)
  have mo: "map_of (by_master cat) m = Some rs" using rs by (intro map_of_is_SomeI) (simp_all add: by_master_def)
  then have "map_of (master_credits cat) m = Some (rel_credit (original rs))"
    "map_of (anchors cat) m = Some (rel_id (original rs))"
    by (simp_all add: master_credits_def anchors_def map_of_map)
  moreover have "original rs \<in> set rs" "\<forall>r' \<in> set rs. original_key (original rs) \<le> original_key r'"
    using rs'(2) min_by_mem [of original_key "hd rs" "tl rs"] min_by_le [of _ "hd rs" "tl rs" original_key]
    by (simp_all add: original_def)
  ultimately show ?thesis
    unfolding L_def by (intro bexI [of _ "original rs"]) (auto simp: rs'(1) dict_get_def)
qed

theorem master_credit_is_of_earliest_witness:
  "\<exists>r \<in> set (cat_releases demo_catalog). rel_provider r = Discogs \<and> rel_master r = Some ''5''
     \<and> map_of (l_anchor (build_ladder demo_catalog None)) ''5'' = Some (rel_id r)"
proof -
  have "dict_mem ''5'' (l_items_by_master (build_ladder demo_catalog None))" by code_simp
  from master_credit_is_of_earliest [OF this] show ?thesis by blast
qed

end
