(* ===== verification/Strata_Cache.thy ===== *)
theory Strata_Cache
  imports Strata_Ladder
begin

text \<open>
  The cached form of a catalog in \<^verbatim>\<open>api/strata.py\<close>: \<open>encode_catalog\<close> and \<open>decode_catalog\<close>.
  \<open>json.dumps\<close> and \<open>json.loads\<close> are taken at the level of JSON values: the encoder gives the value
  it serialises, and the decoder takes the value \<open>json.loads\<close> returns (\<open>None\<close> when it raises
  \<open>ValueError\<close>).  Numbers other than integers do not occur in this format.
\<close>

datatype json = JNull | JBool bool | JInt int | JStr string | JList "json list" | JObj "(string \<times> json) list"

definition CATALOG_FORMAT :: int where "CATALOG_FORMAT = 1"

section \<open>Encoding\<close>

definition json_opt_str :: "string option \<Rightarrow> json" where
  "json_opt_str s = (case s of None \<Rightarrow> JNull | Some t \<Rightarrow> JStr t)"

definition json_opt_int :: "int option \<Rightarrow> json" where
  "json_opt_int s = (case s of None \<Rightarrow> JNull | Some t \<Rightarrow> JInt t)"

definition provider_name :: "provider \<Rightarrow> string" where
  "provider_name p = (case p of Discogs \<Rightarrow> ''discogs'' | MusicBrainz \<Rightarrow> ''musicbrainz'')"

text \<open>
  The loop over the releases: \<open>credits.setdefault(release.credit, len(credits))\<close> gives the index of
  the release's credit in the table, which is the list of its keys.
\<close>

fun encode_rows :: "credit list \<Rightarrow> release list \<Rightarrow> credit list \<times> json list" where
  "encode_rows credits [] = (credits, [])"
| "encode_rows credits (r # rs) =
     (let index = length (takeWhile (\<lambda>c. c \<noteq> rel_credit r) credits);
          credits' = (if rel_credit r \<in> set credits then credits else credits @ [rel_credit r]);
          row = [JStr (rel_id r), json_opt_str (rel_master r), json_opt_int (rel_year r), JInt (int index)]
                @ (if rel_provider r \<noteq> Discogs \<or> rel_title r \<noteq> None
                   then [JStr (provider_name (rel_provider r)), json_opt_str (rel_title r)] else []);
          (table, rows) = encode_rows credits' rs
      in (table, JList row # rows))"

definition encode_catalog :: "catalog \<Rightarrow> json" where
  "encode_catalog cat =
     (let (credits, rows) = encode_rows [] (cat_releases cat) in
      JObj [(''format'', JInt CATALOG_FORMAT),
            (''root_id'', JStr (cat_root_id cat)),
            (''root_name'', json_opt_str (cat_root_name cat)),
            (''credits'', JList (map (\<lambda>c. JList (map JStr c)) credits)),
            (''releases'', JList rows),
            (''master_years'', JObj (map (\<lambda>(m, y). (m, json_opt_int y)) (cat_master_years cat)))])"

section \<open>Decoding\<close>

text \<open>
  The outcomes of reading an entry: a catalog, a miss (the \<open>except\<close> clause or another format), or an
  object whose fields have types this build never writes.  Python checks no field types, so the last
  outcome is a catalog there too, one that is outside this model.
\<close>

datatype 'a outcome = Hit 'a | Miss | IllTyped

fun outcome_bind :: "'a outcome \<Rightarrow> ('a \<Rightarrow> 'b outcome) \<Rightarrow> 'b outcome" where
  "outcome_bind (Hit x) f = f x"
| "outcome_bind Miss f = Miss"
| "outcome_bind IllTyped f = IllTyped"

fun outcome_map :: "('a \<Rightarrow> 'b outcome) \<Rightarrow> 'a list \<Rightarrow> 'b list outcome" where
  "outcome_map f [] = Hit []"
| "outcome_map f (x # xs) = outcome_bind (f x) (\<lambda>y. outcome_bind (outcome_map f xs) (\<lambda>ys. Hit (y # ys)))"

text \<open>\<open>data[key]\<close>: \<open>KeyError\<close> for a missing key, \<open>TypeError\<close> when \<open>data\<close> is not an object.\<close>

definition json_get :: "json \<Rightarrow> string \<Rightarrow> json outcome" where
  "json_get j k = (case j of JObj d \<Rightarrow> (case map_of d k of Some v \<Rightarrow> Hit v | None \<Rightarrow> Miss) | _ \<Rightarrow> Miss)"

definition as_str :: "json \<Rightarrow> string outcome" where
  "as_str j = (case j of JStr s \<Rightarrow> Hit s | _ \<Rightarrow> IllTyped)"

definition as_opt_str :: "json \<Rightarrow> string option outcome" where
  "as_opt_str j = (case j of JNull \<Rightarrow> Hit None | JStr s \<Rightarrow> Hit (Some s) | _ \<Rightarrow> IllTyped)"

definition as_opt_int :: "json \<Rightarrow> int option outcome" where
  "as_opt_int j = (case j of JNull \<Rightarrow> Hit None | JInt n \<Rightarrow> Hit (Some n) | _ \<Rightarrow> IllTyped)"

definition as_provider :: "json \<Rightarrow> provider outcome" where
  "as_provider j =
     (if j = JStr ''discogs'' then Hit Discogs else if j = JStr ''musicbrainz'' then Hit MusicBrainz else IllTyped)"

text \<open>Iterating a value: a number, a truth value or \<open>null\<close> is a \<open>TypeError\<close>.\<close>

definition json_iter :: "json \<Rightarrow> json list outcome" where
  "json_iter j = (case j of JList xs \<Rightarrow> Hit xs | JStr _ \<Rightarrow> IllTyped | JObj _ \<Rightarrow> IllTyped | _ \<Rightarrow> Miss)"

text \<open>\<open>credits[index]\<close>, negative indexes counting from the end, \<open>IndexError\<close> out of range.\<close>

definition credit_at :: "credit list \<Rightarrow> json \<Rightarrow> credit outcome" where
  "credit_at credits j =
     (case j of
        JInt n \<Rightarrow> (let k = (if n < 0 then n + int (length credits) else n) in
                   if 0 \<le> k \<and> k < int (length credits) then Hit (credits ! nat k) else Miss)
      | JBool t \<Rightarrow> (if (if t then 1 else 0) < length credits then Hit (credits ! (if t then 1 else 0)) else Miss)
      | _ \<Rightarrow> Miss)"

text \<open>
  \<open>Release(row[0], row[1], row[2], credits[row[3]], *row[4:])\<close>: fewer than four fields is an
  \<open>IndexError\<close>, more than six a \<open>TypeError\<close>.
\<close>

definition decode_row :: "credit list \<Rightarrow> json \<Rightarrow> release outcome" where
  "decode_row credits j =
     (case j of
        JList row \<Rightarrow>
          (if length row < 4 then Miss
           else outcome_bind (credit_at credits (row ! 3)) (\<lambda>c.
             if 6 < length row then Miss
             else outcome_bind (as_str (row ! 0)) (\<lambda>i.
               outcome_bind (as_opt_str (row ! 1)) (\<lambda>m.
               outcome_bind (as_opt_int (row ! 2)) (\<lambda>y.
               outcome_bind (if 4 < length row then as_provider (row ! 4) else Hit Discogs) (\<lambda>p.
               outcome_bind (if 5 < length row then as_opt_str (row ! 5) else Hit None) (\<lambda>t.
                 Hit \<lparr>rel_id = i, rel_master = m, rel_year = y, rel_credit = c, rel_provider = p, rel_title = t\<rparr>)))))))
      | JStr _ \<Rightarrow> IllTyped
      | _ \<Rightarrow> Miss)"

definition as_master_years :: "json \<Rightarrow> (string \<times> int option) list outcome" where
  "as_master_years j =
     (case j of
        JObj d \<Rightarrow> outcome_map (\<lambda>(m, y). outcome_bind (as_opt_int y) (\<lambda>v. Hit (m, v))) d
      | _ \<Rightarrow> IllTyped)"

text \<open>\<open>data["format"] != CATALOG_FORMAT\<close>, where Python counts \<open>True\<close> as \<open>1\<close>.\<close>

definition is_format :: "json \<Rightarrow> bool" where
  "is_format j \<longleftrightarrow> j = JInt CATALOG_FORMAT \<or> j = JBool True \<and> CATALOG_FORMAT = 1"

definition decode_catalog :: "json option \<Rightarrow> catalog outcome" where
  "decode_catalog text =
     (case text of
        None \<Rightarrow> Miss
      | Some data \<Rightarrow>
          outcome_bind (json_get data ''format'') (\<lambda>fmt.
          if \<not> is_format fmt then Miss
          else outcome_bind (json_get data ''credits'') (\<lambda>cj.
            outcome_bind (outcome_bind (json_iter cj) (outcome_map (\<lambda>c. outcome_bind (json_iter c) (outcome_map as_str)))) (\<lambda>credits.
            outcome_bind (json_get data ''releases'') (\<lambda>rj.
            outcome_bind (outcome_bind (json_iter rj) (outcome_map (decode_row credits))) (\<lambda>releases.
            outcome_bind (json_get data ''root_id'') (\<lambda>ri.
            outcome_bind (json_get data ''root_name'') (\<lambda>rn.
            outcome_bind (json_get data ''master_years'') (\<lambda>my.
            outcome_bind (as_str ri) (\<lambda>root_id.
            outcome_bind (as_opt_str rn) (\<lambda>root_name.
            outcome_bind (as_master_years my) (\<lambda>years.
              Hit \<lparr>cat_root_id = root_id, cat_root_name = root_name, cat_releases = releases,
                   cat_master_years = years\<rparr>))))))))))))"

section \<open>Round trip\<close>

lemma outcome_map_Hit: "(\<And>x. x \<in> set xs \<Longrightarrow> f x = Hit (g x)) \<Longrightarrow> outcome_map f xs = Hit (map g xs)"
  by (induction xs) auto

lemma as_opt_json [simp]: "as_opt_str (json_opt_str s) = Hit s" "as_opt_int (json_opt_int y) = Hit y"
  by (simp_all add: as_opt_str_def json_opt_str_def as_opt_int_def json_opt_int_def split: option.splits)

lemma as_provider_name [simp]: "as_provider (JStr (provider_name p)) = Hit p"
  by (cases p) (simp_all add: as_provider_def provider_name_def)

lemma encode_rows_extends: "encode_rows cs rs = (table, rows) \<Longrightarrow> \<exists>ext. table = cs @ ext"
  by (induction cs rs arbitrary: table rows rule: encode_rows.induct)
    (auto simp: Let_def split: prod.splits if_splits, blast+)

text \<open>The index a row carries is its credit's position in the finished table.\<close>

lemma credit_at_index:
  assumes "x \<in> set cs \<or> ext = x # rest"
  shows "credit_at (cs @ ext) (JInt (int (length (takeWhile (\<lambda>c. c \<noteq> x) cs)))) = Hit x"
proof (cases "x \<in> set cs")
  case True
  let ?k = "length (takeWhile (\<lambda>c. c \<noteq> x) cs)"
  have "?k < length cs"
  proof (rule ccontr)
    assume "\<not> ?k < length cs"
    then have "takeWhile (\<lambda>c. c \<noteq> x) cs = cs"
      by (metis length_takeWhile_le linorder_not_less order.antisym take_all takeWhile_eq_take order.refl)
    then show False using True by (auto simp: takeWhile_eq_all_conv)
  qed
  moreover from this have "cs ! ?k = x" using nth_length_takeWhile [of "\<lambda>c. c \<noteq> x" cs] by simp
  ultimately show ?thesis by (simp add: credit_at_def Let_def nth_append)
next
  case False
  then have "length (takeWhile (\<lambda>c. c \<noteq> x) cs) = length cs"
    by (intro arg_cong [where f = length]) (auto simp: takeWhile_eq_all_conv)
  then show ?thesis using False assms by (simp add: credit_at_def Let_def nth_append)
qed

lemma decode_encode_rows:
  "encode_rows cs rs = (table, rows) \<Longrightarrow> outcome_map (decode_row table) rows = Hit rs"
proof (induction rs arbitrary: cs rows)
  case (Cons r rs)
  let ?cs = "if rel_credit r \<in> set cs then cs else cs @ [rel_credit r]"
  let ?k = "length (takeWhile (\<lambda>c. c \<noteq> rel_credit r) cs)"
  obtain rows' where rest: "encode_rows ?cs rs = (table, rows')" and rows: "rows = JList
      ([JStr (rel_id r), json_opt_str (rel_master r), json_opt_int (rel_year r), JInt (int ?k)]
       @ (if rel_provider r \<noteq> Discogs \<or> rel_title r \<noteq> None
          then [JStr (provider_name (rel_provider r)), json_opt_str (rel_title r)] else [])) # rows'"
    using Cons.prems unfolding encode_rows.simps Let_def by (auto split: prod.splits)
  obtain ext where ext: "table = ?cs @ ext" using encode_rows_extends [OF rest] by blast
  have "credit_at table (JInt (int ?k)) = Hit (rel_credit r)"
    using credit_at_index [of "rel_credit r" cs "if rel_credit r \<in> set cs then ext else rel_credit r # ext" ext] ext
    by (auto split: if_splits)
  then have "decode_row table (hd rows) = Hit r"
    by (cases r) (simp add: rows decode_row_def as_str_def)
  moreover have "outcome_map (decode_row table) rows' = Hit rs" using rest by (rule Cons.IH)
  ultimately show ?case by (simp add: rows)
qed simp

text \<open>
  The cached form loses nothing: decoding what \<open>encode_catalog\<close> wrote gives back the catalog,
  for every catalog; an entry of another format, or text that is not JSON, is a miss.
\<close>

theorem catalog_cache_roundtrip:
  "decode_catalog (Some (encode_catalog cat)) = Hit cat
   \<and> (\<forall>data fmt. json_get data ''format'' = Hit fmt \<longrightarrow> \<not> is_format fmt \<longrightarrow> decode_catalog (Some data) = Miss)
   \<and> decode_catalog None = Miss"
proof (intro conjI allI impI)
  obtain credits rows where enc: "encode_rows [] (cat_releases cat) = (credits, rows)" by fastforce
  have strs: "outcome_map as_str (map JStr c) = Hit c" for c
    by (induction c) (simp_all add: as_str_def)
  have iter: "json_iter (JList xs) = Hit xs" for xs by (simp add: json_iter_def)
  have cr: "outcome_map (\<lambda>c. outcome_bind (json_iter c) (outcome_map as_str)) (map (\<lambda>c. JList (map JStr c)) cs) = Hit cs" for cs
    by (induction cs) (simp_all add: iter strs)
  have yr: "outcome_map (\<lambda>(m, y). outcome_bind (as_opt_int y) (\<lambda>v. Hit (m, v))) (map (\<lambda>(m, y). (m, json_opt_int y)) d) = Hit d" for d
    by (induction d) auto
  show "decode_catalog (Some (encode_catalog cat)) = Hit cat"
    using decode_encode_rows [OF enc]
    by (simp add: decode_catalog_def encode_catalog_def enc json_get_def is_format_def iter cr yr
        as_master_years_def as_str_def)
qed (simp_all add: decode_catalog_def)

theorem catalog_cache_roundtrip_witness:
  "json_get (JObj [(''format'', JInt 2)]) ''format'' = Hit (JInt 2)
   \<and> decode_catalog (Some (JObj [(''format'', JInt 2)])) = Miss"
proof -
  have "json_get (JObj [(''format'', JInt 2)]) ''format'' = Hit (JInt 2)" "\<not> is_format (JInt 2)" by code_simp+
  then show ?thesis using catalog_cache_roundtrip by blast
qed

end
