(* ===== verification/Rarity_Core.thy ===== *)
theory Rarity_Core
  imports Complex_Main Prelude
begin

text \<open>
  The media-neutral core of \<^verbatim>\<open>api/rarity/core.py\<close>: the score tables, media resolution, the
  per-signal scoring functions, and the weight renormalisation that keeps every composite on one
  0-100 scale.  Scores and weights are exact rationals; the code's floats round, so the equalities
  on renormalised weights hold there up to rounding.  The thresholds and the per-signal scores are
  multiples of one half, which floats represent exactly.  \<open>common.media\<close> (outside this repository)
  enters as the argument \<open>legacy\<close> of \<open>resolve_media\<close>.
\<close>

section \<open>Tables\<close>

definition CORE_SIGNAL_WEIGHTS :: "(string, rat) dict" where
  "CORE_SIGNAL_WEIGHTS =
     [(''label_catalog'', 1/10), (''medium_rarity'', 1/10), (''temporal_scarcity'', 1/5),
      (''graph_isolation'', 3/20), (''collection_prevalence'', 1/5)]"

definition RARITY_TIERS :: "(rat \<times> string) list" where
  "RARITY_TIERS =
     [(80, ''ultra-rare''), (60, ''rare''), (40, ''scarce''), (20, ''uncommon''), (0, ''common'')]"

definition MEDIUM_RARITY_SCORES :: "(string, rat) dict" where
  "MEDIUM_RARITY_SCORES =
     [(''vinyl_7'', 45), (''vinyl_10'', 65), (''vinyl_12'', 40), (''vinyl_unspecified'', 40),
      (''shellac_7'', 90), (''shellac_10'', 90), (''shellac_12'', 90), (''shellac_unspecified'', 90),
      (''grooved_acetate'', 96), (''grooved_lathe_cut'', 98), (''grooved_flexi_disc'', 95),
      (''grooved_cylinder'', 97), (''grooved_edison_disc'', 96), (''grooved_pathe_disc'', 96),
      (''grooved_piano_roll'', 92), (''grooved_other_unspecified'', 90), (''tape_cassette'', 35),
      (''tape_microcassette'', 75), (''tape_reel_to_reel'', 70), (''tape_8_track'', 60),
      (''tape_4_track'', 80), (''tape_playtape'', 85), (''tape_dat'', 70), (''tape_dcc'', 80),
      (''tape_elcaset'', 90), (''tape_unspecified'', 50), (''optical_cd'', 10),
      (''optical_cdr'', 50), (''optical_sacd'', 45), (''optical_dvd_audio'', 50),
      (''optical_minidisc'', 65), (''optical_dualdisc'', 60), (''optical_umd'', 75),
      (''optical_unspecified'', 20), (''digital_file'', 5), (''digital_usb'', 45),
      (''digital_memory_card'', 55), (''digital_download_card'', 20), (''digital_floppy_disk'', 75),
      (''digital_unspecified'', 5), (''video_dvd'', 20), (''video_dvdr'', 45),
      (''video_blu_ray'', 25), (''video_hd_dvd'', 70), (''video_laserdisc'', 55),
      (''video_cdv'', 70), (''video_vcd'', 55), (''video_svcd'', 65), (''video_vhs'', 40),
      (''video_betamax'', 75), (''video_vhd'', 85), (''video_ced'', 80), (''video_film_reel'', 85),
      (''video_unspecified'', 45), (''other_unspecified'', 50)]"

definition FAMILY_DEFAULT_MEDIUM_RARITY :: "(string, rat) dict" where
  "FAMILY_DEFAULT_MEDIUM_RARITY =
     [(''vinyl'', 40), (''shellac'', 90), (''grooved_other'', 90), (''tape'', 50), (''optical'', 20),
      (''digital'', 5), (''video'', 45), (''other'', 50)]"

definition DEFAULT_MEDIUM_RARITY :: rat where "DEFAULT_MEDIUM_RARITY = 50"

definition FORMAT_RARITY_SCORES :: "(string, rat) dict" where
  "FORMAT_RARITY_SCORES =
     [(''Test Pressing'', 100), (''Lathe Cut'', 98), (''Flexi-disc'', 95), (''Shellac'', 90),
      (''Blu-spec CD'', 80), (''Box Set'', 70), ([CHR ''1'', CHR ''0'', CHR 0x22], 65), (''8-Track Cartridge'', 60),
      (''CDr'', 50), (''Vinyl'', 40), (''Cassette'', 35), (''LP'', 30), (''CD'', 10), (''File'', 5)]"

definition DEFAULT_FORMAT_SCORE :: rat where "DEFAULT_FORMAT_SCORE = 50"

section \<open>Release media\<close>

record release_media =
  rm_mediums :: "(string \<times> string option) list"
  rm_families :: "string list"

definition medium_ids :: "release_media \<Rightarrow> string list" where
  "medium_ids media = map fst (rm_mediums media)"

definition no_media :: release_media where
  "no_media = \<lparr>rm_mediums = [], rm_families = []\<rparr>"

text \<open>
  One medium row: a bare id, a mapping or a pair (with \<open>None\<close> for a field that is missing or not a
  string), or a value of another shape.
\<close>

datatype medium_row = BareId string | FieldRow "string option" "string option" | OtherRow

definition non_empty :: "string option \<Rightarrow> string option" where
  "non_empty s = (case s of Some (c # t) \<Rightarrow> Some (c # t) | _ \<Rightarrow> None)"

definition medium_entry :: "medium_row \<Rightarrow> string option \<times> string option" where
  "medium_entry entry =
     (case entry of
        BareId s \<Rightarrow> (non_empty (Some s), None)
      | FieldRow medium family \<Rightarrow> (non_empty medium, non_empty family)
      | OtherRow \<Rightarrow> (None, None))"

definition add_medium :: "(string, string option) dict \<Rightarrow> medium_row \<Rightarrow> (string, string option) dict" where
  "add_medium pairs entry =
     (case medium_entry entry of
        (None, _) \<Rightarrow> pairs
      | (Some medium, family) \<Rightarrow>
          if dict_get pairs medium None = None then dict_set medium family pairs else pairs)"

text \<open>
  What \<open>legacy_format_names_to_media\<close> and \<open>families_of\<close> give for a list of format names: the items
  that are mappings with a string \<open>medium\<close>, and the families of the block.
\<close>

type_synonym legacy_media = "string list \<Rightarrow> (string \<times> string option) list \<times> string list"

definition resolve_media ::
  "legacy_media \<Rightarrow> medium_row list \<Rightarrow> string option list \<Rightarrow> string option list \<Rightarrow> release_media" where
  "resolve_media legacy mediums media_families formats =
     (let pairs = foldl add_medium [] mediums in
      if pairs \<noteq> [] then
        \<lparr>rm_mediums = sort_key fst pairs,
         rm_families = sort (remdups (List.map_filter (\<lambda>(m, f). f) pairs))\<rparr>
      else
        (let declared = sort (remdups (List.map_filter non_empty media_families)) in
         if declared \<noteq> [] then \<lparr>rm_mediums = [], rm_families = declared\<rparr>
         else
           (let names = List.map_filter (\<lambda>n. n) formats in
            if names = [] then no_media
            else
              (let (items, families) = legacy names; recovered = dict_update [] items in
               if recovered \<noteq> [] then \<lparr>rm_mediums = sort_key fst recovered, rm_families = families\<rparr>
               else no_media))))"

section \<open>Signals\<close>

definition medium_rarity_score :: "string \<Rightarrow> string option \<Rightarrow> rat" where
  "medium_rarity_score medium_id family =
     (case map_of MEDIUM_RARITY_SCORES medium_id of
        Some score \<Rightarrow> score
      | None \<Rightarrow> (case family of
                   Some f \<Rightarrow> dict_get FAMILY_DEFAULT_MEDIUM_RARITY f DEFAULT_MEDIUM_RARITY
                 | None \<Rightarrow> DEFAULT_MEDIUM_RARITY))"

text \<open>\<open>max(...)\<close> of a non-empty list.\<close>

definition max_of :: "rat list \<Rightarrow> rat" where
  "max_of xs = foldl max (hd xs) (tl xs)"

definition compute_medium_rarity_score :: "release_media \<Rightarrow> rat" where
  "compute_medium_rarity_score media =
     (if rm_mediums media \<noteq> [] then
        max_of (map (\<lambda>(medium, family). medium_rarity_score medium family) (rm_mediums media))
      else if rm_families media \<noteq> [] then
        max_of (map (\<lambda>f. dict_get FAMILY_DEFAULT_MEDIUM_RARITY f DEFAULT_MEDIUM_RARITY) (rm_families media))
      else DEFAULT_MEDIUM_RARITY)"

definition compute_label_catalog_score :: "int \<Rightarrow> rat" where
  "compute_label_catalog_score n =
     (if n < 10 then 100 else if n \<le> 50 then 75 else if n \<le> 200 then 50 else if n \<le> 1000 then 25 else 10)"

definition compute_format_rarity_score :: "string option list \<Rightarrow> rat" where
  "compute_format_rarity_score formats =
     (if formats = [] then DEFAULT_FORMAT_SCORE
      else (let scores = map (\<lambda>f. dict_get FORMAT_RARITY_SCORES f DEFAULT_FORMAT_SCORE) (List.map_filter (\<lambda>f. f) formats) in
            if scores \<noteq> [] then max_of scores else DEFAULT_FORMAT_SCORE))"

definition compute_temporal_scarcity_score :: "int option \<Rightarrow> int option \<Rightarrow> int \<Rightarrow> rat" where
  "compute_temporal_scarcity_score release_year latest_sibling_year current_year =
     (case release_year of
        None \<Rightarrow> 50
      | Some y \<Rightarrow>
          (let base = max 0 (min 100 (of_int (current_year - y) * (3/2))) in
           case latest_sibling_year of
             None \<Rightarrow> base
           | Some s \<Rightarrow> if s \<ge> current_year - 10 then max 0 (base - 40) else base))"

definition compute_graph_isolation_score :: "int \<Rightarrow> rat" where
  "compute_graph_isolation_score degree =
     (if degree \<le> 2 then 90 else if degree \<le> 4 then 70 else if degree \<le> 7 then 50
      else if degree \<le> 12 then 30 else 10)"

definition compute_collection_prevalence_score :: "int \<Rightarrow> int \<Rightarrow> rat" where
  "compute_collection_prevalence_score have_count want_count =
     (let base = (if have_count \<le> 0 then 95 else if have_count \<le> 10 then 85 else if have_count \<le> 100 then 70
                  else if have_count \<le> 1000 then 50 else if have_count \<le> 10000 then 25 else 10)
      in if want_count > have_count then min 100 (base + 5) else base)"

fun first_tier :: "rat \<Rightarrow> (rat \<times> string) list \<Rightarrow> string" where
  "first_tier score [] = ''common''"
| "first_tier score ((threshold, tier) # ts) = (if score \<ge> threshold then tier else first_tier score ts)"

definition compute_rarity_tier :: "rat \<Rightarrow> string" where
  "compute_rarity_tier score = first_tier score RARITY_TIERS"

section \<open>Weights and composition\<close>

definition effective_weights :: "string list \<Rightarrow> (string, rat) dict \<Rightarrow> (string, rat) dict" where
  "effective_weights signals weights =
     (let present = sort (filter (\<lambda>n. dict_mem n weights) signals);
          total = sum_list (map (\<lambda>n. dict_get weights n 0) present)
      in if total \<le> 0 then []
         else dict_update [] (map (\<lambda>n. (n, dict_get weights n 0 / total)) present))"

definition compose :: "(string, rat) dict \<Rightarrow> (string, rat) dict \<Rightarrow> rat" where
  "compose signals weights =
     (let applied = effective_weights (dict_keys signals) weights in
      if applied = [] then 0
      else sum_list (map (\<lambda>n. dict_get applied n 0 * dict_get signals n 0) (sort (dict_keys applied))))"

section \<open>Facts about the weights\<close>

lemma dict_update_distinct: "dict_wf (d @ e) \<Longrightarrow> dict_update d e = d @ e"
proof (induction e arbitrary: d)
  case (Cons x e)
  have snoc: "k \<notin> set (dict_keys a) \<Longrightarrow> dict_set k v a = a @ [(k, v)]" for k v and a :: "('a \<times> 'b) list"
    by (induction a) auto
  obtain k v where x: "x = (k, v)" by fastforce
  have "dict_update d (x # e) = dict_update (d @ [x]) e"
    using Cons.prems snoc [of k d v] by (simp add: dict_update_def x)
  also have "\<dots> = d @ x # e" using Cons.IH [of "d @ [x]"] Cons.prems by simp
  finally show ?case .
qed (simp add: dict_update_def)

definition present :: "string list \<Rightarrow> (string, rat) dict \<Rightarrow> string list" where
  "present signals weights = sort (filter (\<lambda>n. dict_mem n weights) signals)"

definition total_weight :: "string list \<Rightarrow> (string, rat) dict \<Rightarrow> rat" where
  "total_weight signals weights = sum_list (map (\<lambda>n. dict_get weights n 0) (present signals weights))"

lemma effective_weights_eq:
  assumes "distinct signals"
  shows "effective_weights signals weights =
    (if total_weight signals weights \<le> 0 then []
     else map (\<lambda>n. (n, dict_get weights n 0 / total_weight signals weights)) (present signals weights))"
proof -
  have "dict_wf ([] @ map (\<lambda>n. (n, dict_get weights n 0 / total_weight signals weights)) (present signals weights))"
    using assms by (simp add: comp_def present_def)
  from dict_update_distinct [OF this] show ?thesis
    by (simp add: effective_weights_def Let_def flip: present_def total_weight_def)
qed

lemma sum_list_divide: "sum_list (map (\<lambda>x. f x / t) xs) = sum_list (map f xs) / (t :: rat)"
  by (induction xs) (auto simp: add_divide_distrib)

lemma sum_weights:
  assumes "distinct signals" "0 < total_weight signals weights"
  shows "sum_list (map snd (effective_weights signals weights)) = 1"
  using assms
  by (simp add: effective_weights_eq comp_def sum_list_divide flip: total_weight_def)

lemma weighted_bounds:
  fixes f g :: "'a \<Rightarrow> rat"
  assumes "\<forall>x \<in> set xs. 0 \<le> f x" "\<forall>x \<in> set xs. lo \<le> g x \<and> g x \<le> hi"
  shows "lo * sum_list (map f xs) \<le> sum_list (map (\<lambda>x. f x * g x) xs)"
    and "sum_list (map (\<lambda>x. f x * g x) xs) \<le> hi * sum_list (map f xs)"
  using assms
  by (induction xs)
    (auto simp: distrib_left mult.commute [of lo] mult.commute [of hi] intro!: add_mono mult_left_mono)

lemma compose_eq:
  assumes "dict_wf signals"
  shows "compose signals weights =
    (if total_weight (dict_keys signals) weights \<le> 0 then 0
     else sum_list (map (\<lambda>n. dict_get weights n 0 / total_weight (dict_keys signals) weights * dict_get signals n 0)
            (present (dict_keys signals) weights)))"
proof (cases "total_weight (dict_keys signals) weights \<le> 0")
  case True
  then show ?thesis using assms by (simp add: compose_def effective_weights_eq)
next
  case False
  let ?t = "total_weight (dict_keys signals) weights" and ?ps = "present (dict_keys signals) weights"
  let ?ws = "map (\<lambda>n. (n, dict_get weights n 0 / ?t)) ?ps"
  have "distinct ?ps" using assms by (simp add: present_def)
  have ne: "?ps \<noteq> []" using False by (auto simp: total_weight_def)
  have "dict_get ?ws n 0 = dict_get weights n 0 / ?t" if "n \<in> set ?ps" for n
    using that by (simp add: dict_get_def map_of_map_restrict)
  moreover have "sort (dict_keys ?ws) = ?ps" by (simp add: comp_def present_def sorted_sort_id)
  ultimately show ?thesis
    using False assms ne by (simp add: compose_def effective_weights_eq Let_def cong: map_cong)
qed

text \<open>A composite lies between the least and the greatest of its weighted signals.\<close>

lemma compose_bounds:
  assumes "dict_wf signals" "\<forall>(n, w) \<in> set weights. 0 \<le> w" "0 < total_weight (dict_keys signals) weights"
    and "\<forall>(n, s) \<in> set signals. dict_mem n weights \<longrightarrow> lo \<le> s \<and> s \<le> hi"
  shows "lo \<le> compose signals weights \<and> compose signals weights \<le> hi"
proof -
  let ?t = "total_weight (dict_keys signals) weights" and ?ps = "present (dict_keys signals) weights"
  let ?f = "\<lambda>n. dict_get weights n 0 / ?t"
  have w: "0 \<le> dict_get weights n 0" for n
    using assms(2) by (auto simp: dict_get_def dest: map_of_SomeD split: option.splits)
  have "lo \<le> dict_get signals n 0 \<and> dict_get signals n 0 \<le> hi" if n: "n \<in> set ?ps" for n
  proof -
    obtain s where "map_of signals n = Some s"
      using n by (auto simp: present_def dict_mem_def dest!: weak_map_of_SomeI)
    then show ?thesis using assms(4) n by (auto simp: dict_get_def present_def dest!: map_of_SomeD)
  qed
  then have sig: "\<forall>n \<in> set ?ps. lo \<le> dict_get signals n 0 \<and> dict_get signals n 0 \<le> hi" by blast
  have "\<forall>n \<in> set ?ps. 0 \<le> ?f n" using assms(3) w by simp
  note bounds = weighted_bounds [OF this sig]
  have "sum_list (map ?f ?ps) = 1"
    using assms(3) by (simp add: sum_list_divide flip: total_weight_def)
  moreover have "compose signals weights = sum_list (map (\<lambda>n. ?f n * dict_get signals n 0) ?ps)"
    using assms(1,3) by (simp add: compose_eq)
  ultimately show ?thesis using bounds by simp
qed

end
