(* ===== verification/Rarity_Families.thy ===== *)
theory Rarity_Families
  imports Rarity_Core
begin

text \<open>
  The family extensions of \<^verbatim>\<open>api/rarity/families/\<close> (\<open>registry.py\<close>, \<open>grooved.py\<close>, \<open>__init__.py\<close>)
  and their composition with the core in \<^verbatim>\<open>api/rarity/composite.py\<close>.  The protocol
  \<open>FamilySignals\<close> is the locale \<open>family_signals\<close>, interpreted on the grooved module; what scoring
  relies on, that every registered module keeps the protocol, is the locale \<open>rarity_registry\<close>,
  interpreted on the registry the package installs.
\<close>

section \<open>Contexts and modules\<close>

record release_context =
  rc_release_id :: string
  rc_media :: release_media
  rc_year :: "int option"
  rc_facts :: "(string, (string, int option) dict) dict"

abbreviation rc_families :: "release_context \<Rightarrow> string list" where
  "rc_families ctx \<equiv> rm_families (rc_media ctx)"

text \<open>A module object; \<open>fm_obj\<close> is its identity, which the registry compares with \<open>is\<close>.\<close>

record family_module =
  fm_obj :: nat
  fm_id :: string
  fm_weights :: "(string, rat) dict"
  fm_queries :: "(string, string) dict"
  fm_applies :: "string list \<Rightarrow> bool"
  fm_signals :: "release_context \<Rightarrow> (string, rat) dict"

type_synonym registry = "(string, family_module) dict"

datatype register_error = FactClaimed string string | FamilyServed string string

section \<open>Registry\<close>

fun keep_new :: "family_module list \<Rightarrow> family_module list \<Rightarrow> family_module list" where
  "keep_new seen [] = seen"
| "keep_new seen (m # ms) =
     (if list_ex (\<lambda>k. fm_obj k = fm_obj m) seen then keep_new seen ms else keep_new (seen @ [m]) ms)"

definition distinct_modules :: "registry \<Rightarrow> family_module list" where
  "distinct_modules reg = keep_new [] (map snd reg)"

definition claimed_facts :: "registry \<Rightarrow> (string, family_module) dict" where
  "claimed_facts reg = dict_update [] (concat (map (\<lambda>owner. map (\<lambda>(fc, q). (fc, owner)) (fm_queries owner)) (distinct_modules reg)))"

fun check_facts :: "(string, family_module) dict \<Rightarrow> family_module \<Rightarrow> string list \<Rightarrow> register_error option" where
  "check_facts claimed m [] = None"
| "check_facts claimed m (fc # fcs) =
     (case map_of claimed fc of
        Some owner \<Rightarrow> if fm_obj owner \<noteq> fm_obj m then Some (FactClaimed fc (fm_id owner)) else check_facts claimed m fcs
      | None \<Rightarrow> check_facts claimed m fcs)"

text \<open>The loop writes family after family, so an error leaves the families before it registered.\<close>

fun add_families :: "registry \<Rightarrow> string list \<Rightarrow> family_module \<Rightarrow> registry \<times> register_error option" where
  "add_families reg [] m = (reg, None)"
| "add_families reg (f # fs) m =
     (case map_of reg f of
        Some e \<Rightarrow> if fm_obj e \<noteq> fm_obj m then (reg, Some (FamilyServed f (fm_id e)))
                  else add_families (dict_set f m reg) fs m
      | None \<Rightarrow> add_families (dict_set f m reg) fs m)"

definition register :: "registry \<Rightarrow> string list \<Rightarrow> family_module \<Rightarrow> registry \<times> register_error option" where
  "register reg families m =
     (case check_facts (claimed_facts reg) m (dict_keys (fm_queries m)) of
        Some e \<Rightarrow> (reg, Some e)
      | None \<Rightarrow> add_families reg families m)"

definition modules_for :: "registry \<Rightarrow> string list \<Rightarrow> family_module list" where
  "modules_for reg families =
     filter (\<lambda>m. fm_applies m families) (keep_new [] (List.map_filter (map_of reg) families))"

definition module_weights :: "registry \<Rightarrow> (string, (string, rat) dict) dict" where
  "module_weights reg = dict_update [] (map (\<lambda>m. (fm_id m, fm_weights m)) (distinct_modules reg))"

definition family_queries :: "registry \<Rightarrow> (string, string) dict" where
  "family_queries reg = dict_update [] (concat (map fm_queries (distinct_modules reg)))"

section \<open>The grooved module\<close>

definition GROOVED_FAMILIES :: "string list" where
  "GROOVED_FAMILIES = [''vinyl'', ''shellac'', ''grooved_other'']"

definition PRESSING_FACT :: string where "PRESSING_FACT = ''grooved_pressing''"
definition PRESSING_WEIGHT :: rat where "PRESSING_WEIGHT = 1/4"

definition compute_pressing_scarcity_score :: "int \<Rightarrow> rat" where
  "compute_pressing_scarcity_score n =
     (if n \<le> 0 then 90 else if n = 1 then 100 else if n = 2 then 85 else if n \<le> 5 then 60
      else if n \<le> 10 then 35 else 10)"

definition grooved_applies_to :: "string list \<Rightarrow> bool" where
  "grooved_applies_to families = list_ex (\<lambda>f. f \<in> set GROOVED_FAMILIES) families"

definition grooved_signals :: "release_context \<Rightarrow> (string, rat) dict" where
  "grooved_signals ctx =
     (let row = dict_get (rc_facts ctx) PRESSING_FACT [];
          n = (case dict_get row ''pressing_count'' None of None \<Rightarrow> 0 | Some k \<Rightarrow> k)
      in [(''pressing_scarcity'', compute_pressing_scarcity_score n)])"

text \<open>The Cypher text of the module's query is data of the graph service; \<open>query\<close> stands for it.\<close>

definition grooved :: "string \<Rightarrow> family_module" where
  "grooved query =
     \<lparr>fm_obj = 0, fm_id = ''grooved'', fm_weights = [(''pressing_scarcity'', PRESSING_WEIGHT)],
      fm_queries = [(PRESSING_FACT, query)], fm_applies = grooved_applies_to, fm_signals = grooved_signals\<rparr>"

definition installed :: "string \<Rightarrow> registry" where
  "installed query = fst (register [] GROOVED_FAMILIES (grooved query))"

section \<open>Composition\<close>

record rarity_score =
  rs_score :: rat
  rs_tier :: string
  rs_signals :: "(string, rat) dict"
  rs_family_signals :: "(string, (string, rat) dict) dict"
  rs_weights :: "(string, rat) dict"

text \<open>The loop of \<open>score_release\<close>, its state the signals, the weights and the family signals.\<close>

type_synonym score_state = "(string, rat) dict \<times> (string, rat) dict \<times> (string, (string, rat) dict) dict"

definition add_module :: "release_context \<Rightarrow> score_state \<Rightarrow> family_module \<Rightarrow> score_state" where
  "add_module ctx = (\<lambda>(signals, weights, family_signals) m.
     (let contributed = fm_signals m ctx in
      if contributed = [] then (signals, weights, family_signals)
      else (dict_update signals contributed, dict_update weights (fm_weights m),
            dict_set (fm_id m) contributed family_signals)))"

definition score_release :: "registry \<Rightarrow> release_context \<Rightarrow> (string, rat) dict \<Rightarrow> rarity_score" where
  "score_release reg ctx core_signals =
     (let (signals, weights, family_signals) =
            foldl (add_module ctx) (core_signals, CORE_SIGNAL_WEIGHTS, []) (modules_for reg (rc_families ctx));
          score = compose signals weights
      in \<lparr>rs_score = score, rs_tier = compute_rarity_tier score, rs_signals = signals,
          rs_family_signals = family_signals, rs_weights = effective_weights (dict_keys signals) weights\<rparr>)"

section \<open>The module protocol\<close>

locale family_signals =
  fixes m :: family_module
  assumes weight_pos: "(n, w) \<in> set (fm_weights m) \<Longrightarrow> 0 < w"
    and signals_keys: "fm_applies m (rc_families ctx) \<Longrightarrow> dict_wf (fm_signals m ctx)"
    and signal_range: "fm_applies m (rc_families ctx) \<Longrightarrow> (n, s) \<in> set (fm_signals m ctx) \<Longrightarrow>
      dict_mem n (fm_weights m) \<and> 0 \<le> s \<and> s \<le> 100"

lemma pressing_range: "0 \<le> compute_pressing_scarcity_score n \<and> compute_pressing_scarcity_score n \<le> 100"
  by (simp add: compute_pressing_scarcity_score_def)

interpretation grooved: family_signals "grooved query" for query
  by unfold_locales
    (auto simp: grooved_def PRESSING_WEIGHT_def grooved_signals_def Let_def dict_mem_def pressing_range)

lemma keep_new_subset: "set (keep_new seen ms) \<subseteq> set seen \<union> set ms"
  by (induction seen ms rule: keep_new.induct) auto

lemma modules_for_mem:
  assumes "m \<in> set (modules_for reg families)"
  shows "(\<exists>f \<in> set families. map_of reg f = Some m) \<and> fm_applies m families"
proof -
  have "m \<in> set (keep_new [] (List.map_filter (map_of reg) families))" "fm_applies m families"
    using assms by (simp_all add: modules_for_def)
  then show ?thesis
    using keep_new_subset [of "[]" "List.map_filter (map_of reg) families"]
    by (force simp: List.map_filter_def)
qed

text \<open>Folding a dictionary over another keeps any property of the entries.\<close>

lemma set_dict_set: "set (dict_set k v d) \<subseteq> insert (k, v) (set d)"
  by (induction k v d rule: dict_set.induct) auto

lemma set_dict_update: "set (dict_update d e) \<subseteq> set d \<union> set e"
proof (induction e arbitrary: d)
  case (Cons x e)
  obtain k v where x: "x = (k, v)" by fastforce
  have "dict_update d (x # e) = dict_update (dict_set k v d) e" by (simp add: dict_update_def x)
  then show ?case using Cons [of "dict_set k v d"] set_dict_set [of k v d] x by auto
qed (simp add: dict_update_def)

definition state_ok :: "score_state \<Rightarrow> bool" where
  "state_ok = (\<lambda>(signals, weights, fam). dict_wf signals \<and> dict_wf weights
     \<and> (\<forall>(n, s) \<in> set signals. 0 \<le> s \<and> s \<le> 100) \<and> (\<forall>(n, w) \<in> set weights. 0 \<le> w))"

locale rarity_registry =
  fixes reg :: registry
  assumes registered: "(f, m) \<in> set reg \<Longrightarrow> family_signals m"
begin

lemma module_ok: "m \<in> set (modules_for reg families) \<Longrightarrow> family_signals m \<and> fm_applies m families"
  using modules_for_mem registered by (meson map_of_SomeD)

lemma add_module_ok:
  assumes "state_ok st" "m \<in> set (modules_for reg (rc_families ctx))"
  shows "state_ok (add_module ctx st m)"
proof -
  obtain signals weights fam where st: "st = (signals, weights, fam)" by (cases st)
  have fm: "family_signals m" and ap: "fm_applies m (rc_families ctx)" using module_ok assms(2) by auto
  have w: "0 \<le> w" if "(n, w) \<in> set (fm_weights m)" for n w
    using family_signals.weight_pos [OF fm that] by simp
  have s: "0 \<le> s \<and> s \<le> 100" if "(n, s) \<in> set (fm_signals m ctx)" for n s
    using family_signals.signal_range [OF fm ap that] by simp
  show ?thesis
    using assms(1) w s set_dict_update [of signals "fm_signals m ctx"] set_dict_update [of weights "fm_weights m"]
    by (fastforce simp: state_ok_def st add_module_def Let_def)
qed

lemma fold_ok:
  assumes "state_ok st" "set ms \<subseteq> set (modules_for reg (rc_families ctx))"
  shows "state_ok (foldl (add_module ctx) st ms)"
  using assms
proof (induction ms arbitrary: st)
  case (Cons m ms)
  then have "state_ok (add_module ctx st m)" by (intro add_module_ok) auto
  then show ?case using Cons by simp
qed simp

text \<open>Whatever modules contribute, the composite stays on the 0-100 scale.\<close>

lemma score_range:
  assumes "dict_wf core" "\<forall>(n, s) \<in> set core. 0 \<le> s \<and> s \<le> 100"
  shows "0 \<le> rs_score (score_release reg ctx core) \<and> rs_score (score_release reg ctx core) \<le> 100"
proof -
  obtain signals weights fam where st: "foldl (add_module ctx) (core, CORE_SIGNAL_WEIGHTS, [])
      (modules_for reg (rc_families ctx)) = (signals, weights, fam)" by (metis prod.exhaust)
  have "state_ok (core, CORE_SIGNAL_WEIGHTS, [])"
    using assms by (simp add: state_ok_def CORE_SIGNAL_WEIGHTS_def)
  then have ok: "state_ok (signals, weights, fam)" using fold_ok st by (metis order.refl)
  show ?thesis
  proof (cases "total_weight (dict_keys signals) weights \<le> 0")
    case True
    then show ?thesis using ok by (simp add: score_release_def st compose_eq state_ok_def Let_def)
  next
    case False
    then have "0 \<le> compose signals weights \<and> compose signals weights \<le> 100"
      using ok by (intro compose_bounds) (auto simp: state_ok_def)
    then show ?thesis by (simp add: score_release_def st Let_def)
  qed
qed

end

lemma installed_eq: "installed query = [(''vinyl'', grooved query), (''shellac'', grooved query), (''grooved_other'', grooved query)]"
  by (simp add: installed_def register_def claimed_facts_def distinct_modules_def GROOVED_FAMILIES_def
      dict_update_def grooved_def)

interpretation installed: rarity_registry "installed query" for query
proof (rule rarity_registry.intro)
  fix f m assume "(f, m) \<in> set (installed query)"
  then have "m = grooved query" by (auto simp: installed_eq)
  then show "family_signals m" using grooved.family_signals_axioms by simp
qed

end
