(* ===== verification/Rarity_Properties.thy ===== *)
theory Rarity_Properties
  imports Rarity_Families
begin

text \<open>The properties of the rarity component, stated on the entry points of \<^verbatim>\<open>api/rarity/\<close>.\<close>

section \<open>Composition\<close>



text \<open>
  A composite is independent of the order in which the signals and the weights are held.
\<close>

theorem compose_order_independent:
  assumes "dict_wf signals" "dict_wf weights" "mset signals = mset signals'" "mset weights = mset weights'"
  shows "compose signals weights = compose signals' weights'"
proof -
  have maps: "map_of signals = map_of signals'" "map_of weights = map_of weights'"
    using assms by (auto intro: map_of_mset)
  have "mset (dict_keys signals) = mset (dict_keys signals')" using assms(3) by (metis mset_map)
  then have "sort (filter P (dict_keys signals)) = sort (filter P (dict_keys signals'))" for P
    by (metis mset_filter properties_for_sort sorted_sort mset_sort)
  moreover have "dict_mem n weights = dict_mem n weights'" for n by (simp add: dict_mem_def maps)
  ultimately have "effective_weights (dict_keys signals) weights = effective_weights (dict_keys signals') weights'"
    by (simp add: effective_weights_def dict_get_def [of weights] dict_get_def [of weights'] maps Let_def)
  then show ?thesis by (simp add: compose_def dict_get_def [of signals] dict_get_def [of signals'] maps Let_def)
qed

theorem compose_order_independent_witness:
  "compose [(''label_catalog'', 10), (''graph_isolation'', 90)] CORE_SIGNAL_WEIGHTS
     = compose [(''graph_isolation'', 90), (''label_catalog'', 10)] CORE_SIGNAL_WEIGHTS"
  by (rule compose_order_independent) (simp_all add: CORE_SIGNAL_WEIGHTS_def)

definition tier_range :: "string \<Rightarrow> rat \<Rightarrow> bool" where
  "tier_range tier score =
     (if tier = ''ultra-rare'' then 80 \<le> score else if tier = ''rare'' then 60 \<le> score \<and> score < 80
      else if tier = ''scarce'' then 40 \<le> score \<and> score < 60
      else if tier = ''uncommon'' then 20 \<le> score \<and> score < 40 else tier = ''common'' \<and> score < 20)"

text \<open>
  Every score is on the 0-100 scale and carries the tier of its range, whatever the media and
  the facts of the release, as soon as the core signals are on that scale.
\<close>

theorem score_release_range:
  assumes "dict_wf core" "\<forall>(n, s) \<in> set core. 0 \<le> s \<and> s \<le> 100"
  shows "0 \<le> rs_score (score_release (installed query) ctx core)
    \<and> rs_score (score_release (installed query) ctx core) \<le> 100
    \<and> tier_range (rs_tier (score_release (installed query) ctx core)) (rs_score (score_release (installed query) ctx core))"
proof -
  have "rs_tier (score_release (installed query) ctx core)
      = compute_rarity_tier (rs_score (score_release (installed query) ctx core))"
    by (simp add: score_release_def Let_def split: prod.splits)
  then show ?thesis
    using installed.score_range [OF assms] by (simp add: tier_range_def compute_rarity_tier_def RARITY_TIERS_def)
qed

definition demo_context :: "string list \<Rightarrow> int option \<Rightarrow> release_context" where
  "demo_context families pressings =
     \<lparr>rc_release_id = ''1'', rc_media = \<lparr>rm_mediums = [], rm_families = families\<rparr>, rc_year = None,
      rc_facts = [(PRESSING_FACT, [(''pressing_count'', pressings)])]\<rparr>"

theorem score_release_range_witness:
  "rs_score (score_release (installed []) (demo_context [''vinyl''] (Some 1)) [(''label_catalog'', 75)]) \<le> 100"
proof -
  have "dict_wf [(''label_catalog'', 75 :: rat)]" "\<forall>(n, s) \<in> set [(''label_catalog'', 75 :: rat)]. 0 \<le> s \<and> s \<le> 100" by simp_all
  from score_release_range [OF this] show ?thesis by blast
qed

text \<open>
  Pressing scarcity counts for grooved media only.  A release with a grooved family scores
  the historical six-signal composite, pressing scarcity at a quarter; any other release scores its
  five core signals alone, scaled up to the full range, and has no family signal.
\<close>

definition five_signals :: "rat \<Rightarrow> rat \<Rightarrow> rat \<Rightarrow> rat \<Rightarrow> rat \<Rightarrow> (string, rat) dict" where
  "five_signals a b c d e =
     [(''label_catalog'', a), (''medium_rarity'', b), (''temporal_scarcity'', c), (''graph_isolation'', d),
      (''collection_prevalence'', e)]"

lemma keep_new_same: "set ms \<subseteq> {m} \<Longrightarrow> keep_new [m] ms = [m]"
  by (induction ms) auto

lemma modules_installed:
  "modules_for (installed query) families = (if grooved_applies_to families then [grooved query] else [])"
proof -
  let ?ms = "List.map_filter (map_of (installed query)) families"
  have all: "set ?ms \<subseteq> {grooved query}" by (auto simp: List.map_filter_def installed_eq split: if_splits)
  have ne: "?ms = [] \<longleftrightarrow> \<not> grooved_applies_to families"
    by (induction families) (auto simp: List.map_filter_def installed_eq grooved_applies_to_def GROOVED_FAMILIES_def)
  show ?thesis
  proof (cases ?ms)
    case Nil
    then show ?thesis using ne by (simp add: modules_for_def)
  next
    case (Cons m ms)
    then have "m = grooved query" "keep_new [m] ms = [m]" using all keep_new_same by auto
    then show ?thesis using Cons ne by (simp add: modules_for_def grooved_def)
  qed
qed

lemma core_present:
  "present [''label_catalog'', ''medium_rarity'', ''temporal_scarcity'', ''graph_isolation'', ''collection_prevalence''] CORE_SIGNAL_WEIGHTS
     = [''collection_prevalence'', ''graph_isolation'', ''label_catalog'', ''medium_rarity'', ''temporal_scarcity'']"
  by code_simp

lemma grooved_present:
  "present [''label_catalog'', ''medium_rarity'', ''temporal_scarcity'', ''graph_isolation'', ''collection_prevalence'', ''pressing_scarcity'']
     (CORE_SIGNAL_WEIGHTS @ [(''pressing_scarcity'', 1/4)])
     = [''collection_prevalence'', ''graph_isolation'', ''label_catalog'', ''medium_rarity'', ''pressing_scarcity'', ''temporal_scarcity'']"
  by code_simp

lemma compose_core:
  "compose (five_signals a b c d e) CORE_SIGNAL_WEIGHTS = (a / 10 + b / 10 + c / 5 + d * 3 / 20 + e / 5) / (3/4)"
proof -
  have "dict_wf (five_signals a b c d e)" by (simp add: five_signals_def)
  from compose_eq [OF this] show ?thesis
    by (simp add: five_signals_def total_weight_def core_present) (simp add: CORE_SIGNAL_WEIGHTS_def dict_get_def field_simps)
qed

lemma compose_grooved:
  "compose (five_signals a b c d e @ [(''pressing_scarcity'', p)]) (CORE_SIGNAL_WEIGHTS @ [(''pressing_scarcity'', 1/4)])
     = a / 10 + b / 10 + c / 5 + d * 3 / 20 + e / 5 + p / 4"
proof -
  have "dict_wf (five_signals a b c d e @ [(''pressing_scarcity'', p)])" by (simp add: five_signals_def)
  from compose_eq [OF this] show ?thesis
    by (simp add: five_signals_def total_weight_def grooved_present) (simp add: CORE_SIGNAL_WEIGHTS_def dict_get_def field_simps)
qed

theorem score_release_families:
  "rs_score (score_release (installed query) ctx (five_signals a b c d e))
     = (if grooved_applies_to (rc_families ctx)
        then a / 10 + b / 10 + c / 5 + d * 3 / 20 + e / 5
             + compute_pressing_scarcity_score
                 (case dict_get (dict_get (rc_facts ctx) PRESSING_FACT []) ''pressing_count'' None of None \<Rightarrow> 0 | Some k \<Rightarrow> k) / 4
        else (a / 10 + b / 10 + c / 5 + d * 3 / 20 + e / 5) / (3/4))
   \<and> (rs_family_signals (score_release (installed query) ctx (five_signals a b c d e)) = [])
       = (\<not> grooved_applies_to (rc_families ctx))"
proof (cases "grooved_applies_to (rc_families ctx)")
  case True
  have upd: "dict_update (five_signals a b c d e) [(''pressing_scarcity'', p)] = five_signals a b c d e @ [(''pressing_scarcity'', p)]"
    "dict_update CORE_SIGNAL_WEIGHTS [(''pressing_scarcity'', 1/4)] = CORE_SIGNAL_WEIGHTS @ [(''pressing_scarcity'', 1/4)]" for p
    by (simp_all add: dict_update_def five_signals_def CORE_SIGNAL_WEIGHTS_def)
  show ?thesis
    using True
    by (simp add: score_release_def modules_installed add_module_def grooved_def grooved_signals_def Let_def PRESSING_WEIGHT_def
        upd compose_grooved)
next
  case False
  then show ?thesis by (simp add: score_release_def modules_installed Let_def compose_core)
qed

section \<open>Media\<close>

text \<open>What the loop over the medium rows has collected: per id, the first family any row gives.\<close>

definition row_family :: "string \<Rightarrow> medium_row \<Rightarrow> string option" where
  "row_family i row = (if fst (medium_entry row) = Some i then snd (medium_entry row) else None)"

lemma first_some_snoc:
  "first_some f (xs @ [x]) = (case first_some f xs of Some y \<Rightarrow> Some y | None \<Rightarrow> f x)"
  by (induction xs) (auto split: option.splits)

lemma collected_pairs:
  "dict_wf (foldl add_medium [] rows)
   \<and> map_of (foldl add_medium [] rows) i
       = (if \<exists>row \<in> set rows. fst (medium_entry row) = Some i then Some (first_some (row_family i) rows) else None)"
proof (induction rows rule: rev_induct)
  case (snoc row rows)
  define p where "p = foldl add_medium [] rows"
  let ?has = "\<exists>row \<in> set rows. fst (medium_entry row) = Some i"
  have wf: "dict_wf p" and get: "map_of p i = (if ?has then Some (first_some (row_family i) rows) else None)"
    using snoc by (simp_all add: p_def)
  have none: "\<not> ?has \<Longrightarrow> first_some (row_family i) rows = None"
    by (auto simp: first_some_None row_family_def)
  obtain medium family where e: "medium_entry row = (medium, family)" by fastforce
  have step: "foldl add_medium [] (rows @ [row]) = (case medium of None \<Rightarrow> p
      | Some m \<Rightarrow> if dict_get p m None = None then dict_set m family p else p)"
    by (simp add: add_medium_def e p_def split: option.splits)
  have row: "row_family i row = (if medium = Some i then family else None)" by (simp add: row_family_def e)
  have wf': "dict_wf (foldl add_medium [] (rows @ [row]))" using wf unfolding step by (simp split: option.splits)
  show ?case
  proof (cases "medium = Some i")
    case True
    have "dict_get p i None = first_some (row_family i) rows" using get none by (auto simp: dict_get_def)
    then have "map_of (foldl add_medium [] (rows @ [row])) i = Some (first_some (row_family i) (rows @ [row]))"
      using get none row True unfolding step first_some_snoc
      by (cases ?has) (auto split: option.splits)
    then show ?thesis using wf' True e by auto
  next
    case False
    then have "map_of (foldl add_medium [] (rows @ [row])) i = map_of p i"
      unfolding step by (auto split: option.splits)
    moreover have "first_some (row_family i) (rows @ [row]) = first_some (row_family i) rows"
      using False row by (simp add: first_some_snoc split: option.splits)
    moreover have "(\<exists>r \<in> set (rows @ [row]). fst (medium_entry r) = Some i) = ?has" using False e by auto
    ultimately show ?thesis using wf' get by (simp only: simp_thms)
  qed
qed simp

text \<open>
  The \<open>ISSUED_ON\<close> rows win over every other source: when any of them carries a medium id, the
  resolved media are exactly the ids they carry, once each and in order, each with the first family
  a row gives for it, and the families are exactly those families, once each and in order.
\<close>

theorem resolve_media_rows:
  assumes "\<exists>row \<in> set rows. fst (medium_entry row) \<noteq> None"
  shows "set (medium_ids (resolve_media legacy rows fams formats)) = {i. \<exists>row \<in> set rows. fst (medium_entry row) = Some i}
    \<and> sorted (medium_ids (resolve_media legacy rows fams formats)) \<and> distinct (medium_ids (resolve_media legacy rows fams formats))
    \<and> (\<forall>(i, f) \<in> set (rm_mediums (resolve_media legacy rows fams formats)). f = first_some (row_family i) rows)
    \<and> set (rm_families (resolve_media legacy rows fams formats)) = {f. \<exists>i. (i, Some f) \<in> set (rm_mediums (resolve_media legacy rows fams formats))}
    \<and> sorted (rm_families (resolve_media legacy rows fams formats)) \<and> distinct (rm_families (resolve_media legacy rows fams formats))"
proof -
  let ?p = "foldl add_medium [] rows"
  have wf: "dict_wf ?p" and get: "map_of ?p i = (if \<exists>row \<in> set rows. fst (medium_entry row) = Some i
      then Some (first_some (row_family i) rows) else None)" for i
    using collected_pairs by blast+
  have keys: "set (dict_keys ?p) = {i. \<exists>row \<in> set rows. fst (medium_entry row) = Some i}"
  proof -
    have "i \<in> set (dict_keys ?p) \<longleftrightarrow> (\<exists>row \<in> set rows. fst (medium_entry row) = Some i)" for i
      unfolding dict_mem_keys [symmetric] dict_mem_def get by simp
    then show ?thesis by blast
  qed
  then have ne: "?p \<noteq> []" using assms by auto
  then have r: "resolve_media legacy rows fams formats
      = \<lparr>rm_mediums = sort_key fst ?p, rm_families = sort (remdups (List.map_filter (\<lambda>(m, f). f) ?p))\<rparr>"
    by (simp add: resolve_media_def Let_def)
  have ids: "mset (map fst (sort_key fst ?p)) = mset (dict_keys ?p)" by (metis mset_map mset_sort)
  have "distinct (map fst (sort_key fst ?p))" using wf ids mset_eq_imp_distinct_iff by blast
  moreover have "set (map fst (sort_key fst ?p)) = set (dict_keys ?p)" by (simp del: set_map add: mset_eq_setD [OF ids])
  moreover have "f = first_some (row_family i) rows" if "(i, f) \<in> set ?p" for i f
    using map_of_is_SomeI [OF wf that] get [of i] by (simp split: if_splits)
  moreover have "set (List.map_filter (\<lambda>(m, f). f) ?p) = {f. \<exists>i. (i, Some f) \<in> set ?p}"
    by (force simp: List.map_filter_def)
  ultimately show ?thesis using keys unfolding r medium_ids_def by (auto simp del: set_map)
qed

theorem resolve_media_rows_witness:
  "set (medium_ids (resolve_media (\<lambda>_. ([], [])) [BareId ''optical_cd'', FieldRow (Some ''vinyl_7'') (Some ''vinyl'')] [] []))
     = {i. \<exists>row \<in> set [BareId ''optical_cd'', FieldRow (Some ''vinyl_7'') (Some ''vinyl'')]. fst (medium_entry row) = Some i}"
proof -
  have "\<exists>row \<in> set [BareId ''optical_cd'', FieldRow (Some ''vinyl_7'') (Some ''vinyl'')]. fst (medium_entry row) \<noteq> None"
    by (simp add: medium_entry_def non_empty_def)
  from resolve_media_rows [OF this] show ?thesis by blast
qed

lemma foldl_max: "foldl max x xs \<in> set (x # xs) \<and> (\<forall>y \<in> set (x # xs). y \<le> foldl max (x :: rat) xs)"
proof (induction xs arbitrary: x)
  case (Cons a xs)
  have "foldl max (max x a) xs \<in> set (max x a # xs)" "\<forall>y \<in> set (max x a # xs). y \<le> foldl max (max x a) xs"
    using Cons [of "max x a"] by blast+
  moreover have "max x a = x \<or> max x a = a" "x \<le> max x a" "a \<le> max x a" by (auto simp: max_def)
  ultimately show ?case by (auto intro: order.trans)
qed simp

lemma max_of_max: "xs \<noteq> [] \<Longrightarrow> max_of xs \<in> set xs \<and> (\<forall>y \<in> set xs. y \<le> max_of xs)"
  using foldl_max [of "hd xs" "tl xs"] by (simp add: max_of_def)

lemma medium_score_range: "5 \<le> medium_rarity_score i f \<and> medium_rarity_score i f \<le> 98"
proof -
  have t: "list_all (\<lambda>(k, v). 5 \<le> v \<and> v \<le> 98) MEDIUM_RARITY_SCORES" by (simp add: MEDIUM_RARITY_SCORES_def)
  have d: "list_all (\<lambda>(k, v). 5 \<le> v \<and> v \<le> 98) FAMILY_DEFAULT_MEDIUM_RARITY" by (simp add: FAMILY_DEFAULT_MEDIUM_RARITY_def)
  show ?thesis
    using t d unfolding medium_rarity_score_def dict_get_def DEFAULT_MEDIUM_RARITY_def list_all_iff
    by (auto split: option.splits dest!: map_of_SomeD)
qed

text \<open>
  A release scores as its rarest medium: the medium signal is the greatest score among its
  media, is attained by one of them, and lies between 5 and 98 for every medium and family.
\<close>

theorem medium_rarity_is_rarest:
  assumes "rm_mediums media \<noteq> []"
  shows "(\<forall>(i, f) \<in> set (rm_mediums media). medium_rarity_score i f \<le> compute_medium_rarity_score media)
    \<and> (\<exists>(i, f) \<in> set (rm_mediums media). compute_medium_rarity_score media = medium_rarity_score i f)
    \<and> 5 \<le> compute_medium_rarity_score media \<and> compute_medium_rarity_score media \<le> 98"
proof -
  let ?xs = "map (\<lambda>(i, f). medium_rarity_score i f) (rm_mediums media)"
  have "compute_medium_rarity_score media = max_of ?xs" using assms by (simp add: compute_medium_rarity_score_def)
  moreover have "max_of ?xs \<in> set ?xs" "\<forall>y \<in> set ?xs. y \<le> max_of ?xs" using max_of_max [of ?xs] assms by simp_all
  ultimately show ?thesis using medium_score_range by fastforce
qed

theorem medium_rarity_is_rarest_witness:
  "medium_rarity_score ''grooved_lathe_cut'' None
     \<le> compute_medium_rarity_score \<lparr>rm_mediums = [(''grooved_lathe_cut'', None), (''optical_cd'', None)], rm_families = []\<rparr>"
  using medium_rarity_is_rarest [of "\<lparr>rm_mediums = [(''grooved_lathe_cut'', None), (''optical_cd'', None)], rm_families = []\<rparr>"]
  by simp

text \<open>
  Scarcity is never punished: more catalog entries, more graph links, more owners (at the same
  number of wants) or more pressings of a known master never raise a signal, an older release never
  scores lower, and a unique pressing of a known master outranks a release without a master.
\<close>

theorem signals_monotone:
  assumes "x \<le> (y :: int)"
  shows "compute_label_catalog_score y \<le> compute_label_catalog_score x
    \<and> compute_graph_isolation_score y \<le> compute_graph_isolation_score x
    \<and> compute_collection_prevalence_score y want \<le> compute_collection_prevalence_score x want
    \<and> compute_temporal_scarcity_score (Some y) sibling now \<le> compute_temporal_scarcity_score (Some x) sibling now
    \<and> (1 \<le> x \<longrightarrow> compute_pressing_scarcity_score y \<le> compute_pressing_scarcity_score x)
    \<and> compute_pressing_scarcity_score 0 < compute_pressing_scarcity_score 1"
proof (intro conjI impI)
  show "compute_label_catalog_score y \<le> compute_label_catalog_score x" using assms by (simp add: compute_label_catalog_score_def)
  show "compute_graph_isolation_score y \<le> compute_graph_isolation_score x" using assms by (simp add: compute_graph_isolation_score_def)
  show "compute_collection_prevalence_score y want \<le> compute_collection_prevalence_score x want"
    using assms by (simp add: compute_collection_prevalence_score_def Let_def)
  show "compute_pressing_scarcity_score y \<le> compute_pressing_scarcity_score x" if "1 \<le> x"
    using assms that by (simp add: compute_pressing_scarcity_score_def)
  show "compute_pressing_scarcity_score 0 < compute_pressing_scarcity_score 1" by (simp add: compute_pressing_scarcity_score_def)
  have "max 0 (min 100 (of_int (now - y) * (3/2))) \<le> (max 0 (min 100 (of_int (now - x) * (3/2))) :: rat)"
    using assms by (intro max.mono min.mono order.refl mult_right_mono) simp_all
  then show "compute_temporal_scarcity_score (Some y) sibling now \<le> compute_temporal_scarcity_score (Some x) sibling now"
    unfolding compute_temporal_scarcity_score_def Let_def by (auto split: option.splits)
qed

theorem signals_monotone_witness:
  "(10 :: int) \<le> 60 \<and> compute_label_catalog_score 60 \<le> compute_label_catalog_score 10"
  using signals_monotone [of 10 60] by simp

section \<open>Registry\<close>

lemma add_families_ok:
  assumes "add_families reg fs m = (reg', err)"
  shows "(map_of reg f = Some e \<longrightarrow> fm_obj e \<noteq> fm_obj m \<longrightarrow> map_of reg' f = Some e)
    \<and> (f \<notin> set fs \<longrightarrow> map_of reg' f = map_of reg f)
    \<and> (err = None \<longrightarrow> (f \<in> set fs \<longrightarrow> map_of reg' f = Some m))
    \<and> (\<forall>fact owner. err \<noteq> Some (FactClaimed fact owner))"
  using assms
proof (induction reg fs m rule: add_families.induct)
  case (2 reg g fs m)
  show ?case
  proof (cases "map_of reg g = None \<or> (\<exists>h. map_of reg g = Some h \<and> fm_obj h = fm_obj m)")
    case True
    then have step: "add_families (dict_set g m reg) fs m = (reg', err)" using 2(3) by auto
    have "(map_of (dict_set g m reg) f = Some e \<longrightarrow> fm_obj e \<noteq> fm_obj m \<longrightarrow> map_of reg' f = Some e)
      \<and> (f \<notin> set fs \<longrightarrow> map_of reg' f = map_of (dict_set g m reg) f)
      \<and> (err = None \<longrightarrow> (f \<in> set fs \<longrightarrow> map_of reg' f = Some m))
      \<and> (\<forall>fact owner. err \<noteq> Some (FactClaimed fact owner))"
      using True 2(1,2) step by (cases "map_of reg g") auto
    then show ?thesis using True by (auto split: if_splits)
  next
    case False
    then show ?thesis using 2(3) by auto
  qed
qed simp

text \<open>
  Registering a module never takes a family from another module: a family served by another
  module keeps it, whether the call succeeds or raises; when it succeeds every requested family is
  served by the module and no other family changes; a claimed fact name leaves the registry as it was.
\<close>

theorem register_protects_owners:
  assumes "register reg families m = (reg', err)"
  shows "(\<forall>f e. map_of reg f = Some e \<longrightarrow> fm_obj e \<noteq> fm_obj m \<longrightarrow> map_of reg' f = Some e)
    \<and> (err = None \<longrightarrow> (\<forall>f. map_of reg' f = (if f \<in> set families then Some m else map_of reg f)))
    \<and> (\<forall>fact owner. err = Some (FactClaimed fact owner) \<longrightarrow> reg' = reg)"
proof (cases "check_facts (claimed_facts reg) m (dict_keys (fm_queries m))")
  case None
  then have "add_families reg families m = (reg', err)" using assms by (simp add: register_def)
  from add_families_ok [OF this] show ?thesis by auto
next
  case (Some e)
  then show ?thesis using assms by (auto simp: register_def)
qed

theorem register_protects_owners_witness:
  "map_of (installed []) ''vinyl'' = Some (grooved [])"
proof -
  have "register [] GROOVED_FAMILIES (grooved []) = (installed [], None)"
    by (simp add: installed_eq register_def claimed_facts_def distinct_modules_def GROOVED_FAMILIES_def
      dict_update_def grooved_def)
  from register_protects_owners [OF this] show ?thesis by (simp add: GROOVED_FAMILIES_def)
qed

end
