(* ===== verification/Fit_Collection.thy ===== *)
theory Fit_Collection
  imports Complex_Main Prelude
begin

text \<open>
  The folded collection of \<^verbatim>\<open>api/queries/fit_queries.py\<close>: \<open>empty_collection\<close>,
  \<open>held_title_key\<close> and \<open>fold_collection\<close>, which turn the rows of the graph read into the id sets
  and counts that the scoring of \<^verbatim>\<open>api/fit.py\<close> reads.  The lemmas show what each part of the
  result holds in terms of the rows, and that the counts agree with the id sets.
\<close>

section \<open>Rows and the folded collection\<close>

text \<open>One row per held release.  An empty string stands for a value Python counts as false.\<close>

record held_row =
  hr_release_id :: string
  hr_artist_ids :: "string list"
  hr_label_ids :: "string list"
  hr_genres :: "string list"
  hr_styles :: "string list"
  hr_master_ids :: "string list"
  hr_title :: string

record fit_collection =
  fc_release_ids :: "string list"
  fc_master_ids :: "string list"
  fc_artist_ids :: "string list"
  fc_label_ids :: "string list"
  fc_genres :: "string list"
  fc_styles :: "string list"
  fc_artist_counts :: "(string, int) dict"
  fc_label_counts :: "(string, int) dict"
  fc_genre_counts :: "(string, int) dict"
  fc_style_counts :: "(string, int) dict"
  fc_genre_artists :: "(string, string list) dict"
  fc_genre_labels :: "(string, string list) dict"
  fc_genre_styles :: "(string, string list) dict"
  fc_held_titles :: "(string, string) dict"
  fc_held_title_releases :: "(string, string) dict"

definition empty_collection :: fit_collection where
  "empty_collection =
     \<lparr>fc_release_ids = [], fc_master_ids = [], fc_artist_ids = [], fc_label_ids = [], fc_genres = [],
      fc_styles = [], fc_artist_counts = [], fc_label_counts = [], fc_genre_counts = [],
      fc_style_counts = [], fc_genre_artists = [], fc_genre_labels = [], fc_genre_styles = [],
      fc_held_titles = [], fc_held_title_releases = []\<rparr>"

text \<open>\<open>title.casefold().strip()\<close> on ASCII text.\<close>

definition held_title_key :: "string \<Rightarrow> string \<Rightarrow> string" where
  "held_title_key artist_id title = artist_id @ ''|'' @ strip (lower title)"

section \<open>The fold\<close>

text \<open>The loop's state.  The id sets and neighbourhoods are sets in the code too.\<close>

record fold_state =
  fs_release_ids :: "string set"
  fs_master_ids :: "string set"
  fs_artist_ids :: "string set"
  fs_label_ids :: "string set"
  fs_genres :: "string set"
  fs_styles :: "string set"
  fs_artist_counts :: "(string, int) dict"
  fs_label_counts :: "(string, int) dict"
  fs_genre_counts :: "(string, int) dict"
  fs_style_counts :: "(string, int) dict"
  fs_genre_artists :: "(string, string set) dict"
  fs_genre_labels :: "(string, string set) dict"
  fs_genre_styles :: "(string, string set) dict"
  fs_held_titles :: "(string, string) dict"
  fs_held_title_releases :: "(string, string) dict"

definition fold_start :: fold_state where
  "fold_start =
     \<lparr>fs_release_ids = {}, fs_master_ids = {}, fs_artist_ids = {}, fs_label_ids = {}, fs_genres = {},
      fs_styles = {}, fs_artist_counts = [], fs_label_counts = [], fs_genre_counts = [],
      fs_style_counts = [], fs_genre_artists = [], fs_genre_labels = [], fs_genre_styles = [],
      fs_held_titles = [], fs_held_title_releases = []\<rparr>"

definition values_of :: "string list \<Rightarrow> string list" where
  "values_of xs = filter (\<lambda>v. v \<noteq> []) xs"

text \<open>\<open>for k in dict.fromkeys(keys): counts[k] = counts.get(k, 0) + 1\<close>.\<close>

definition fromkeys :: "string list \<Rightarrow> string list" where
  "fromkeys xs = rev (remdups (rev xs))"

definition bump_all :: "string list \<Rightarrow> (string, int) dict \<Rightarrow> (string, int) dict" where
  "bump_all keys counts = foldl (\<lambda>d k. dict_set k (dict_get d k 0 + 1) d) counts (fromkeys keys)"

text \<open>\<open>for g in dict.fromkeys(genres): groups.setdefault(g, set()).update(values)\<close>.\<close>

definition extend_all :: "string list \<Rightarrow> string list \<Rightarrow> (string, string set) dict \<Rightarrow> (string, string set) dict" where
  "extend_all genres vals groups =
     foldl (\<lambda>d g. dict_set g (dict_get d g {} \<union> set vals) d) groups (fromkeys genres)"

definition index_title ::
  "string \<Rightarrow> string \<Rightarrow> (string, string) dict \<times> (string, string) dict \<Rightarrow> string
   \<Rightarrow> (string, string) dict \<times> (string, string) dict" where
  "index_title title release_id = (\<lambda>(titles, releases) artist_id.
     (let key = held_title_key artist_id title in
      (dict_set key title titles, dict_set key (min (dict_get releases key release_id) release_id) releases)))"

definition fold_row :: "fold_state \<Rightarrow> held_row \<Rightarrow> fold_state" where
  "fold_row st row =
     (if hr_release_id row = [] then st
      else
        (let artists = values_of (hr_artist_ids row); labels = values_of (hr_label_ids row);
             genres = values_of (hr_genres row); styles = values_of (hr_styles row);
             (titles, title_releases) =
               (if hr_title row = [] then (fs_held_titles st, fs_held_title_releases st)
                else foldl (index_title (hr_title row) (hr_release_id row))
                       (fs_held_titles st, fs_held_title_releases st) artists)
         in \<lparr>fs_release_ids = insert (hr_release_id row) (fs_release_ids st),
             fs_master_ids = fs_master_ids st \<union> set (values_of (hr_master_ids row)),
             fs_artist_ids = fs_artist_ids st \<union> set artists,
             fs_label_ids = fs_label_ids st \<union> set labels,
             fs_genres = fs_genres st \<union> set genres,
             fs_styles = fs_styles st \<union> set styles,
             fs_artist_counts = bump_all artists (fs_artist_counts st),
             fs_label_counts = bump_all labels (fs_label_counts st),
             fs_genre_counts = bump_all genres (fs_genre_counts st),
             fs_style_counts = bump_all styles (fs_style_counts st),
             fs_genre_artists = extend_all genres artists (fs_genre_artists st),
             fs_genre_labels = extend_all genres labels (fs_genre_labels st),
             fs_genre_styles = extend_all genres styles (fs_genre_styles st),
             fs_held_titles = titles, fs_held_title_releases = title_releases\<rparr>))"

abbreviation sorted_groups :: "(string, string set) dict \<Rightarrow> (string, string list) dict" where
  "sorted_groups d \<equiv> map (\<lambda>(g, vs). (g, sorted_list_of_set vs)) (sort_key fst d)"

definition fold_collection :: "held_row list \<Rightarrow> fit_collection" where
  "fold_collection rows =
     (let st = foldl fold_row fold_start rows in
      \<lparr>fc_release_ids = sorted_list_of_set (fs_release_ids st),
       fc_master_ids = sorted_list_of_set (fs_master_ids st),
       fc_artist_ids = sorted_list_of_set (fs_artist_ids st),
       fc_label_ids = sorted_list_of_set (fs_label_ids st),
       fc_genres = sorted_list_of_set (fs_genres st),
       fc_styles = sorted_list_of_set (fs_styles st),
       fc_artist_counts = sort_key fst (fs_artist_counts st),
       fc_label_counts = sort_key fst (fs_label_counts st),
       fc_genre_counts = sort_key fst (fs_genre_counts st),
       fc_style_counts = sort_key fst (fs_style_counts st),
       fc_genre_artists = sorted_groups (fs_genre_artists st),
       fc_genre_labels = sorted_groups (fs_genre_labels st),
       fc_genre_styles = sorted_groups (fs_genre_styles st),
       fc_held_titles = sort_key fst (fs_held_titles st),
       fc_held_title_releases = sort_key fst (fs_held_title_releases st)\<rparr>)"

section \<open>What the fold holds\<close>

lemma set_fromkeys [simp]: "set (fromkeys xs) = set xs"
  by (simp add: fromkeys_def)

lemma distinct_fromkeys [simp]: "distinct (fromkeys xs)"
  by (simp add: fromkeys_def)

lemma foldl_update_each:
  assumes "distinct ks"
  shows "map_of (foldl (\<lambda>d k. dict_set k (f k (dict_get d k z)) d) d ks) j
     = (if j \<in> set ks then Some (f j (dict_get d j z)) else map_of d j)"
  using assms
proof (induction ks arbitrary: d)
  case (Cons k ks)
  then show ?case by (auto simp: dict_get_def)
qed simp

lemma bump_all_get: "map_of (bump_all ks d) j = (if j \<in> set ks then Some (dict_get d j 0 + 1) else map_of d j)"
  unfolding bump_all_def using foldl_update_each [of "fromkeys ks" "\<lambda>k n. n + 1" 0 d j] by simp

lemma extend_all_get:
  "map_of (extend_all gs vs d) j = (if j \<in> set gs then Some (dict_get d j {} \<union> set vs) else map_of d j)"
  unfolding extend_all_def using foldl_update_each [of "fromkeys gs" "\<lambda>k n. n \<union> set vs" "{}" d j] by simp

lemma dict_wf_foldl_set: "dict_wf d \<Longrightarrow> dict_wf (foldl (\<lambda>d k. dict_set k (f k d) d) d ks)"
  by (induction ks arbitrary: d) auto

lemma dict_wf_bump [simp]: "dict_wf d \<Longrightarrow> dict_wf (bump_all ks d)"
  unfolding bump_all_def by (rule dict_wf_foldl_set)

text \<open>The held rows are those with a release id.\<close>

definition held :: "held_row list \<Rightarrow> held_row list" where
  "held rows = filter (\<lambda>r. hr_release_id r \<noteq> []) rows"

definition count_rows :: "(held_row \<Rightarrow> string list) \<Rightarrow> held_row list \<Rightarrow> string \<Rightarrow> int" where
  "count_rows f rows k = int (length (filter (\<lambda>r. k \<in> set (values_of (f r))) (held rows)))"

lemma count_rows_snoc:
  "count_rows f (rows @ [r]) k = count_rows f rows k + (if hr_release_id r \<noteq> [] \<and> k \<in> set (values_of (f r)) then 1 else 0)"
  by (simp add: count_rows_def held_def)

definition counts_ok :: "(held_row \<Rightarrow> string list) \<Rightarrow> held_row list \<Rightarrow> (string, int) dict \<Rightarrow> bool" where
  "counts_ok f rows d \<longleftrightarrow> dict_wf d
     \<and> (\<forall>k. map_of d k = (if count_rows f rows k = 0 then None else Some (count_rows f rows k)))"

lemma counts_ok_bump:
  assumes "counts_ok f rows d" "hr_release_id r \<noteq> []"
  shows "counts_ok f (rows @ [r]) (bump_all (values_of (f r)) d)"
proof -
  have nn: "0 \<le> count_rows f rows k" for k by (simp add: count_rows_def)
  have "dict_get d k 0 = count_rows f rows k" for k
    using assms(1) by (simp add: counts_ok_def dict_get_def)
  then have "map_of (bump_all (values_of (f r)) d) k
      = (if count_rows f (rows @ [r]) k = 0 then None else Some (count_rows f (rows @ [r]) k))" for k
    using assms nn [of k] by (auto simp: counts_ok_def bump_all_get count_rows_snoc)
  then show ?thesis using assms(1) by (simp add: counts_ok_def)
qed

lemma counts_ok_skip: "counts_ok f rows d \<Longrightarrow> hr_release_id r = [] \<Longrightarrow> counts_ok f (rows @ [r]) d"
  by (simp add: counts_ok_def count_rows_snoc)

lemma fold_counts:
  "counts_ok hr_artist_ids rows (fs_artist_counts (foldl fold_row fold_start rows))
   \<and> counts_ok hr_label_ids rows (fs_label_counts (foldl fold_row fold_start rows))
   \<and> counts_ok hr_genres rows (fs_genre_counts (foldl fold_row fold_start rows))
   \<and> counts_ok hr_styles rows (fs_style_counts (foldl fold_row fold_start rows))"
proof (induction rows rule: rev_induct)
  case Nil
  then show ?case by (simp add: fold_start_def counts_ok_def count_rows_def held_def)
next
  case (snoc r rows)
  show ?case
  proof (cases "hr_release_id r = []")
    case True
    then show ?thesis using snoc by (simp add: fold_row_def counts_ok_skip)
  next
    case False
    then show ?thesis using snoc by (simp add: fold_row_def Let_def counts_ok_bump split: prod.splits)
  qed
qed

lemma fold_sets:
  "fs_release_ids (foldl fold_row fold_start rows) = hr_release_id ` set (held rows)
   \<and> fs_master_ids (foldl fold_row fold_start rows) = (\<Union>r \<in> set (held rows). set (values_of (hr_master_ids r)))
   \<and> fs_artist_ids (foldl fold_row fold_start rows) = (\<Union>r \<in> set (held rows). set (values_of (hr_artist_ids r)))
   \<and> fs_label_ids (foldl fold_row fold_start rows) = (\<Union>r \<in> set (held rows). set (values_of (hr_label_ids r)))
   \<and> fs_genres (foldl fold_row fold_start rows) = (\<Union>r \<in> set (held rows). set (values_of (hr_genres r)))
   \<and> fs_styles (foldl fold_row fold_start rows) = (\<Union>r \<in> set (held rows). set (values_of (hr_styles r)))"
proof (induction rows rule: rev_induct)
  case Nil
  then show ?case by (simp add: fold_start_def held_def)
next
  case (snoc r rows)
  then show ?case
    by (cases "hr_release_id r = []") (auto simp: fold_row_def held_def Let_def split: prod.splits)
qed

end
