(* ===== verification/Fit.thy ===== *)
theory Fit
  imports Fit_Collection
begin

text \<open>
  The pure scoring of \<^verbatim>\<open>api/fit.py\<close>: the five components of a fit profile, their evidence, and
  the combined fit.  Scores are exact rationals and \<open>round(x, 4)\<close> rounds half to even, which is what
  Python's \<open>round\<close> does on the exact value; float rounding before that step is not modelled.
\<close>

section \<open>Constants and inputs\<close>

datatype dimension = Artist | Label | Genre | Style | ReleaseDim | BridgeDim

text \<open>\<open>FIT_CONSTANTS["affinity_weights"]\<close>, in the order of the dict.\<close>

definition affinity_weights :: "(dimension \<times> rat) list" where
  "affinity_weights = [(Artist, 7/20), (Label, 1/4), (Genre, 1/4), (Style, 3/20)]"

definition depth_saturation :: int where "depth_saturation = 5"
definition bridge_score_cap :: rat where "bridge_score_cap = 1"
definition redundancy_held_release :: rat where "redundancy_held_release = 1"
definition redundancy_same_master_same_family :: rat where "redundancy_same_master_same_family = 1"
definition redundancy_same_master_other_family :: rat where "redundancy_same_master_other_family = 3/5"
definition redundancy_same_artist_and_title :: rat where "redundancy_same_artist_and_title = 3/10"
definition evidence_limit :: nat where "evidence_limit = 3"
definition score_precision :: nat where "score_precision = 4"
definition FIT_VERSION :: string where "FIT_VERSION = ''cratefit_v0''"

text \<open>
  The candidate's context.  An empty string stands for a value Python counts as false (missing,
  \<open>None\<close> or empty).
\<close>

record facet_ref =
  fr_id :: string
  fr_name :: string

record sibling =
  sb_id :: string
  sb_title :: string
  sb_media :: "string list"

record fit_context =
  cx_id :: string
  cx_title :: string
  cx_master_id :: string
  cx_artists :: "facet_ref list"
  cx_labels :: "facet_ref list"
  cx_genres :: "string list"
  cx_styles :: "string list"
  cx_media_families :: "string list"
  cx_siblings :: "sibling list"

section \<open>Evidence\<close>

datatype kind = Shared | Unheld | Thread | Bridge | Heuristic | Duplicate | DuplicateTitle

record evidence_item =
  ev_dimension :: dimension
  ev_entity :: string
  ev_kind :: kind
  ev_count :: "int option"
  ev_release_id :: "string option"
  ev_detail :: "string option"

record evidence_entry = evidence_item +
  ev_entity_ref :: "(dimension \<times> string) option"
  ev_genres :: "string list option"
  ev_master_id :: "string option"
  ev_drawable :: bool

definition dimension_noun :: "dimension \<Rightarrow> string" where
  "dimension_noun d =
     (case d of Artist \<Rightarrow> ''artist'' | Label \<Rightarrow> ''label'' | Genre \<Rightarrow> ''genre'' | Style \<Rightarrow> ''style''
      | ReleaseDim \<Rightarrow> ''release'' | BridgeDim \<Rightarrow> ''bridge'')"

definition article :: "string \<Rightarrow> string" where
  "article noun = (if hd noun \<in> set ''aeiou'' then ''an'' else ''a'')"

definition on_atlas :: "dimension \<Rightarrow> bool" where
  "on_atlas d \<longleftrightarrow> d = Genre \<or> d = Style"

text \<open>\<open>_item\<close>: the projection of an entry onto the keys \<open>evidence_items\<close> carries.\<close>

definition item_of :: "evidence_entry \<Rightarrow> evidence_item" where
  "item_of e = evidence_item.truncate e"

text \<open>
  \<open>_render_entry\<close>.  It reads only keys of the item, so it is defined on items.  The \<open>ValueError\<close> of
  an unknown kind has no counterpart: the kinds are a datatype.
\<close>

definition render_entry :: "evidence_item \<Rightarrow> string" where
  "render_entry e =
     (let dim = dimension_noun (ev_dimension e); entity = ev_entity e;
          count = (case ev_count e of None \<Rightarrow> ''None'' | Some n \<Rightarrow> show_int n)
      in case ev_kind e of
           Shared \<Rightarrow> ''shares '' @ dim @ '' '' @ entity @ '' with '' @ count @ '' release''
                     @ (if ev_count e = Some 1 then [] else ''s'') @ '' you hold''
         | Unheld \<Rightarrow> entity @ '' is '' @ article dim @ '' '' @ dim @ '' your collection has never held''
         | Thread \<Rightarrow> ''deepens '' @ dim @ '' '' @ entity @ '' ('' @ count @ '' held)''
         | Bridge \<Rightarrow> ''bridges '' @ entity @ '', which share no artist or label in your collection''
         | Heuristic \<Rightarrow> ''region boundaries are the v0 genre heuristic, not a computed community''
         | Duplicate \<Rightarrow> (case ev_detail e of
                            None \<Rightarrow> ''you already hold this exact release''
                          | Some detail \<Rightarrow> ''you hold '' @ entity @ '', the same record on '' @ detail)
         | DuplicateTitle \<Rightarrow> ''you hold '' @ entity @ '' by ''
                     @ (case ev_detail e of None \<Rightarrow> ''None'' | Some detail \<Rightarrow> detail)
                     @ '', which no master links to this pressing'')"

record component =
  co_score :: rat
  co_evidence :: "string list"
  co_evidence_items :: "evidence_item list"
  co_evidence_entries :: "evidence_entry list"

definition round_half_even :: "rat \<Rightarrow> int" where
  "round_half_even x =
     (let f = \<lfloor>x\<rfloor>; d = x - of_int f in
      if d < 1/2 then f else if d > 1/2 then f + 1 else if even f then f else f + 1)"

definition round_score :: "rat \<Rightarrow> rat" where
  "round_score x = of_int (round_half_even (x * 10 ^ score_precision)) / 10 ^ score_precision"

definition clip :: "rat \<Rightarrow> rat" where
  "clip x = min 1 (max 0 x)"

definition mk_component :: "rat \<Rightarrow> evidence_entry list \<Rightarrow> component" where
  "mk_component score entries =
     (let capped = take evidence_limit entries in
      \<lparr>co_score = round_score (clip score), co_evidence = map (\<lambda>e. render_entry (item_of e)) capped,
       co_evidence_items = map item_of capped, co_evidence_entries = entries\<rparr>)"

section \<open>Facets\<close>

definition candidate_facets :: "fit_context \<Rightarrow> dimension \<Rightarrow> (string \<times> string) list" where
  "candidate_facets cx d =
     (let refs = (\<lambda>rs. map (\<lambda>r. (fr_id r, if fr_name r = [] then fr_id r else fr_name r))
                         (filter (\<lambda>r. fr_id r \<noteq> []) rs));
          names = (\<lambda>vs. map (\<lambda>v. (v, v)) (values_of vs))
      in case d of Artist \<Rightarrow> refs (cx_artists cx) | Label \<Rightarrow> refs (cx_labels cx)
         | Genre \<Rightarrow> names (cx_genres cx) | Style \<Rightarrow> names (cx_styles cx) | _ \<Rightarrow> [])"

definition held_ids :: "fit_collection \<Rightarrow> dimension \<Rightarrow> string list" where
  "held_ids col d =
     (case d of Artist \<Rightarrow> fc_artist_ids col | Label \<Rightarrow> fc_label_ids col | Genre \<Rightarrow> fc_genres col
      | Style \<Rightarrow> fc_styles col | _ \<Rightarrow> [])"

definition held_counts :: "fit_collection \<Rightarrow> dimension \<Rightarrow> (string, int) dict" where
  "held_counts col d =
     (case d of Artist \<Rightarrow> fc_artist_counts col | Label \<Rightarrow> fc_label_counts col | Genre \<Rightarrow> fc_genre_counts col
      | Style \<Rightarrow> fc_style_counts col | _ \<Rightarrow> [])"

definition facet_entry :: "kind \<Rightarrow> int option \<Rightarrow> bool \<Rightarrow> dimension \<Rightarrow> string \<Rightarrow> string \<Rightarrow> evidence_entry" where
  "facet_entry k n drawable d name i =
     \<lparr>ev_dimension = d, ev_entity = name, ev_kind = k, ev_count = n, ev_release_id = None, ev_detail = None,
      ev_entity_ref = Some (d, i), ev_genres = None, ev_master_id = None, ev_drawable = drawable\<rparr>"

section \<open>Affinity\<close>

definition matches :: "fit_collection \<Rightarrow> fit_context \<Rightarrow> dimension \<Rightarrow> (string \<times> string) list" where
  "matches col cx d = filter (\<lambda>(i, name). i \<in> set (held_ids col d)) (candidate_facets cx d)"

text \<open>The dimensions the candidate has a facet in, and the loop over them.\<close>

definition present_weights :: "fit_context \<Rightarrow> (dimension \<times> rat) list" where
  "present_weights cx = filter (\<lambda>(d, w). candidate_facets cx d \<noteq> []) affinity_weights"

definition affinity_score :: "fit_collection \<Rightarrow> fit_context \<Rightarrow> rat" where
  "affinity_score col cx =
     (let weighted = sum_list (map (\<lambda>(d, w). w * (of_nat (length (matches col cx d)) / of_nat (length (candidate_facets cx d))))
                       (present_weights cx));
          total = sum_list (map snd (present_weights cx))
      in if total \<noteq> 0 then weighted / total else 0)"

definition score_affinity :: "fit_collection \<Rightarrow> fit_context \<Rightarrow> component" where
  "score_affinity col cx =
     (let shared = concat (map (\<lambda>(d, w). map (\<lambda>(i, name). (dict_get (held_counts col d) i 0, d, name, i)) (matches col cx d))
                     (present_weights cx));
          ordered = sort_key (\<lambda>(count, d, name, i). (- count, dimension_noun d, name)) shared
      in mk_component (affinity_score col cx)
           (map (\<lambda>(count, d, name, i). facet_entry Shared (Some count) (on_atlas d) d name i)
             (filter (\<lambda>(count, d, name, i). count \<noteq> 0) ordered)))"

section \<open>Novelty\<close>

definition unheld :: "fit_collection \<Rightarrow> fit_context \<Rightarrow> (dimension \<times> string \<times> string) list" where
  "unheld col cx =
     concat (map (\<lambda>(d, w). map (\<lambda>(i, name). (d, name, i))
                    (filter (\<lambda>(i, name). i \<notin> set (held_ids col d)) (candidate_facets cx d))) (present_weights cx))"

definition facet_total :: "fit_context \<Rightarrow> nat" where
  "facet_total cx = sum_list (map (\<lambda>(d, w). length (candidate_facets cx d)) (present_weights cx))"

definition novelty_score :: "fit_collection \<Rightarrow> fit_context \<Rightarrow> rat" where
  "novelty_score col cx =
     (if facet_total cx \<noteq> 0 then of_nat (length (unheld col cx)) / of_nat (facet_total cx) else 0)"

definition score_novelty :: "fit_collection \<Rightarrow> fit_context \<Rightarrow> component" where
  "score_novelty col cx =
     mk_component (novelty_score col cx)
       (map (\<lambda>(d, name, i). facet_entry Unheld None (on_atlas d) d name i)
         (sort_key (\<lambda>(d, name, i). (dimension_noun d, name, i)) (unheld col cx)))"

section \<open>Depth\<close>

definition deepened :: "fit_collection \<Rightarrow> fit_context \<Rightarrow> (int \<times> dimension \<times> string \<times> string) list" where
  "deepened col cx =
     concat (map (\<lambda>d. map (\<lambda>(i, name). (dict_get (held_counts col d) i 0, d, name, i))
                        (filter (\<lambda>(i, name). 0 < dict_get (held_counts col d) i 0) (candidate_facets cx d)))
       [Label, Artist])"

definition depth_score :: "fit_collection \<Rightarrow> fit_context \<Rightarrow> rat" where
  "depth_score col cx =
     foldl (\<lambda>s (n, d, name, i). max s (min 1 (of_int n / of_int depth_saturation))) 0 (deepened col cx)"

definition score_depth :: "fit_collection \<Rightarrow> fit_context \<Rightarrow> component" where
  "score_depth col cx =
     mk_component (depth_score col cx)
       (map (\<lambda>(count, d, name, i). facet_entry Thread (Some count) False d name i)
         (sort_key (\<lambda>(count, d, name, i). (- count, dimension_noun d, name)) (deepened col cx)))"

section \<open>Bridge\<close>

definition neighbourhood :: "fit_collection \<Rightarrow> string \<Rightarrow> string list" where
  "neighbourhood col g = dict_get (fc_genre_artists col) g [] @ dict_get (fc_genre_labels col) g []"

definition touched :: "fit_collection \<Rightarrow> fit_context \<Rightarrow> string list" where
  "touched col cx =
     filter (\<lambda>g. g \<in> set (cx_genres cx)
              \<or> list_ex (\<lambda>s. s \<in> set (cx_styles cx)) (dict_get (fc_genre_styles col) g []))
       (sort (fc_genres col))"

fun pick_regions :: "(string \<Rightarrow> string list) \<Rightarrow> string list \<Rightarrow> string list \<Rightarrow> string list" where
  "pick_regions nb picked [] = picked"
| "pick_regions nb picked (g # gs) =
     (if list_ex (\<lambda>p. list_ex (\<lambda>v. v \<in> set (nb p)) (nb g)) picked
      then pick_regions nb picked gs else pick_regions nb (picked @ [g]) gs)"

definition picked_regions :: "fit_collection \<Rightarrow> fit_context \<Rightarrow> string list" where
  "picked_regions col cx = pick_regions (neighbourhood col) [] (touched col cx)"

definition score_bridge :: "fit_collection \<Rightarrow> fit_context \<Rightarrow> component" where
  "score_bridge col cx =
     (let picked = picked_regions col cx;
          score = min bridge_score_cap (of_int (max 0 (int (length picked) - 1)));
          entries =
            (if score > 0 then
               [\<lparr>ev_dimension = Genre, ev_entity = join_with '', '' (butlast picked) @ '' and '' @ last picked,
                 ev_kind = Bridge, ev_count = Some (int (length picked)), ev_release_id = None, ev_detail = None,
                 ev_entity_ref = None, ev_genres = Some picked, ev_master_id = None, ev_drawable = True\<rparr>,
                \<lparr>ev_dimension = BridgeDim, ev_entity = ''v0 heuristic'', ev_kind = Heuristic, ev_count = None,
                 ev_release_id = None, ev_detail = None, ev_entity_ref = None, ev_genres = None,
                 ev_master_id = None, ev_drawable = False\<rparr>]
             else [])
      in mk_component score entries)"

section \<open>Redundancy\<close>

definition duplicate_entry ::
  "fit_context \<Rightarrow> kind \<Rightarrow> string \<Rightarrow> string option \<Rightarrow> string option \<Rightarrow> string option \<Rightarrow> bool \<Rightarrow> evidence_entry" where
  "duplicate_entry cx k entity release_id detail entity_id under_master =
     (let master = (if under_master \<and> cx_master_id cx \<noteq> [] then Some (cx_master_id cx) else None) in
      \<lparr>ev_dimension = ReleaseDim, ev_entity = entity, ev_kind = k, ev_count = None, ev_release_id = release_id,
       ev_detail = detail, ev_entity_ref = map_option (\<lambda>i. (ReleaseDim, i)) entity_id, ev_genres = None,
       ev_master_id = master, ev_drawable = (master \<noteq> None)\<rparr>)"

definition sibling_media :: "sibling \<Rightarrow> string list" where
  "sibling_media s = values_of (sb_media s)"

definition shared_media :: "fit_context \<Rightarrow> sibling \<Rightarrow> string list" where
  "shared_media cx s = filter (\<lambda>f. f \<in> set (values_of (cx_media_families cx))) (sibling_media s)"

definition held_siblings :: "fit_collection \<Rightarrow> fit_context \<Rightarrow> sibling list" where
  "held_siblings col cx = filter (\<lambda>s. sb_id s \<in> set (fc_release_ids col)) (cx_siblings cx)"

definition first_sibling :: "sibling list \<Rightarrow> sibling" where
  "first_sibling ss = min_by sb_id (hd ss) (tl ss)"

definition sibling_name :: "sibling \<Rightarrow> string" where
  "sibling_name s = (if sb_title s = [] then sb_id s else sb_title s)"

definition title_match :: "fit_collection \<Rightarrow> fit_context \<Rightarrow> (string \<times> string \<times> string option) option" where
  "title_match col cx =
     (if cx_title cx = [] then None
      else first_some
        (\<lambda>(i, name).
           (let key = held_title_key i (cx_title cx) in
            case map_of (fc_held_titles col) key of
              Some (c # t) \<Rightarrow> Some (c # t, name, (case dict_get (fc_held_title_releases col) key [] of
                                                     [] \<Rightarrow> None | h # r \<Rightarrow> Some (h # r)))
            | _ \<Rightarrow> None))
        (candidate_facets cx Artist))"

definition score_redundancy :: "fit_collection \<Rightarrow> fit_context \<Rightarrow> component" where
  "score_redundancy col cx =
     (let hs = held_siblings col cx; same = filter (\<lambda>s. shared_media cx s \<noteq> []) hs in
      if cx_id cx \<noteq> [] \<and> cx_id cx \<in> set (fc_release_ids col) then
        mk_component redundancy_held_release
          [duplicate_entry cx Duplicate (cx_id cx) (Some (cx_id cx)) None (Some (cx_id cx)) True]
      else if same \<noteq> [] then
        (let s = first_sibling same in
         mk_component redundancy_same_master_same_family
           [duplicate_entry cx Duplicate (sibling_name s) (Some (sb_id s))
              (Some (join_with '', '' (sort (remdups (shared_media cx s))))) (Some (sb_id s)) True])
      else if hs \<noteq> [] then
        (let s = first_sibling hs; families = join_with '', '' (sort (remdups (sibling_media s))) in
         mk_component redundancy_same_master_other_family
           [duplicate_entry cx Duplicate (sibling_name s) (Some (sb_id s))
              (Some (if families = [] then ''another format'' else families)) (Some (sb_id s)) True])
      else
        (case title_match col cx of
           Some (held_title, name, held_id) \<Rightarrow>
             mk_component redundancy_same_artist_and_title
               [duplicate_entry cx DuplicateTitle held_title None (Some name) held_id False]
         | None \<Rightarrow> mk_component 0 []))"

section \<open>The profile\<close>

datatype confidence = Exact | MasterOnly

definition identity_confidence :: "fit_context \<Rightarrow> confidence" where
  "identity_confidence cx = (if cx_id cx \<noteq> [] then Exact else MasterOnly)"

record fit_profile =
  fp_fit :: rat
  fp_affinity :: component
  fp_novelty :: component
  fp_bridge :: component
  fp_depth :: component
  fp_redundancy :: component
  fp_confidence :: confidence
  fp_version :: string

definition compute_fit :: "fit_collection \<Rightarrow> fit_context \<Rightarrow> fit_profile" where
  "compute_fit col cx =
     (let a = score_affinity col cx; n = score_novelty col cx; b = score_bridge col cx;
          d = score_depth col cx; r = score_redundancy col cx;
          raw = co_score a + co_score n + co_score b + co_score d - co_score r
      in \<lparr>fp_fit = round_score (clip raw), fp_affinity = a, fp_novelty = n, fp_bridge = b, fp_depth = d,
          fp_redundancy = r, fp_confidence = identity_confidence cx, fp_version = FIT_VERSION\<rparr>)"

end
