(* ===== verification/Fit_Properties.thy ===== *)
theory Fit_Properties
  imports Fit
begin

text \<open>
  The properties of the fit component: the folded collection agrees with its rows, the scores are
  on the unit scale, the evidence is true of the collection, and each component scores what its
  rule says.
\<close>

section \<open>The folded collection\<close>

lemma sorted_dict_unique:
  assumes "dict_wf d" "dict_wf e" "map_of d = map_of e"
  shows "sort_key fst d = sort_key fst (e :: ('k :: linorder \<times> 'v) list)"
proof -
  have "set d = set e" using map_of_inject_set [OF assms(1,2)] assms(3) by simp
  moreover have "dict_wf (sort_key fst xs)" if "dict_wf xs" for xs :: "('k \<times> 'v) list"
    using that by (rule dict_wf_mset) simp
  ultimately show ?thesis
    using assms by (intro map_sorted_distinct_set_unique [of fst])
      (auto simp: inj_on_def dest: eq_key_imp_eq_value)
qed

lemma dict_get_sort_fst: "dict_wf d \<Longrightarrow> map_of (sort_key fst d) = map_of (d :: ('k :: linorder \<times> 'v) list)"
  by (rule map_of_mset [symmetric]) simp_all

lemma finite_fold_sets:
  "finite (fs_artist_ids (foldl fold_row fold_start rows))" "finite (fs_label_ids (foldl fold_row fold_start rows))"
  "finite (fs_genres (foldl fold_row fold_start rows))" "finite (fs_styles (foldl fold_row fold_start rows))"
  "finite (fs_release_ids (foldl fold_row fold_start rows))"
  using fold_sets [of rows] by simp_all

definition row_values :: "dimension \<Rightarrow> held_row \<Rightarrow> string list" where
  "row_values d r = values_of (case d of Artist \<Rightarrow> hr_artist_ids r | Label \<Rightarrow> hr_label_ids r | Genre \<Rightarrow> hr_genres r
     | Style \<Rightarrow> hr_styles r | _ \<Rightarrow> [])"

definition held_times :: "held_row list \<Rightarrow> dimension \<Rightarrow> string \<Rightarrow> int" where
  "held_times rows d k = int (length (filter (\<lambda>r. k \<in> set (row_values d r)) (held rows)))"

lemma held_times_count:
  "held_times rows Artist = count_rows hr_artist_ids rows" "held_times rows Label = count_rows hr_label_ids rows"
  "held_times rows Genre = count_rows hr_genres rows" "held_times rows Style = count_rows hr_styles rows"
  by (simp_all add: held_times_def row_values_def count_rows_def fun_eq_iff)

lemma dict_get_empty: "dict_get [] k v = v"
  by (simp add: dict_get_def)

lemma held_counts_fold:
  "dict_get (held_counts (fold_collection rows) d) k 0 = held_times rows d k"
proof -
  have get: "dict_get (sort_key fst c) k 0 = count_rows f rows k" if "counts_ok f rows c" for f c
    using that by (simp add: counts_ok_def dict_get_def dict_get_sort_fst)
  have none: "held_times rows ReleaseDim k = 0" "held_times rows BridgeDim k = 0"
    by (simp_all add: held_times_def row_values_def values_of_def)
  show ?thesis
    using fold_counts [of rows]
    by (cases d) (simp_all add: held_counts_def fold_collection_def Let_def get held_times_count none dict_get_empty)
qed

lemma held_ids_fold:
  "k \<in> set (held_ids (fold_collection rows) d) \<longleftrightarrow> 0 < held_times rows d k"
proof -
  have "k \<in> set (held_ids (fold_collection rows) d) \<longleftrightarrow> (\<exists>r \<in> set (held rows). k \<in> set (row_values d r))"
    using fold_sets [of rows] finite_fold_sets [of rows]
    by (cases d) (auto simp: held_ids_def fold_collection_def Let_def row_values_def values_of_def)
  also have "\<dots> \<longleftrightarrow> 0 < held_times rows d k"
    by (auto simp: held_times_def filter_empty_conv)
  finally show ?thesis .
qed

text \<open>
  The folded counts are right: in each dimension, the count of a facet is the number of held
  releases that carry it (once per release), the id list holds exactly the facets with a positive
  count, and the release ids are exactly those of the rows that have one.
\<close>

theorem fold_collection_counts:
  "dict_get (held_counts (fold_collection rows) d) k 0
     = int (length (filter (\<lambda>r. k \<in> set (row_values d r)) (filter (\<lambda>r. hr_release_id r \<noteq> []) rows)))
   \<and> (k \<in> set (held_ids (fold_collection rows) d)) = (0 < dict_get (held_counts (fold_collection rows) d) k 0)
   \<and> set (fc_release_ids (fold_collection rows)) = {i. i \<noteq> [] \<and> (\<exists>r \<in> set rows. hr_release_id r = i)}"
proof -
  have "set (fc_release_ids (fold_collection rows)) = {i. i \<noteq> [] \<and> (\<exists>r \<in> set rows. hr_release_id r = i)}"
    using fold_sets [of rows] finite_fold_sets(5) [of rows] by (auto simp: fold_collection_def Let_def held_def)
  then show ?thesis by (simp add: held_counts_fold held_ids_fold) (simp add: held_times_def held_def)
qed

section \<open>Scores\<close>

lemma round_half_even_range:
  assumes "0 \<le> x" "x \<le> of_int n"
  shows "0 \<le> round_half_even x \<and> round_half_even x \<le> n"
proof -
  let ?f = "\<lfloor>x\<rfloor>"
  have f: "0 \<le> ?f" "?f \<le> n" using assms by (simp_all add: floor_le_iff)
  have "?f + 1 \<le> n" if "1/2 \<le> x - of_int ?f"
  proof (rule ccontr)
    assume "\<not> ?f + 1 \<le> n"
    then have "?f = n" using f by simp
    then show False using that assms(2) by simp
  qed
  then show ?thesis using f by (auto simp: round_half_even_def Let_def)
qed

lemma round_half_even_close: "\<bar>of_int (round_half_even x) - x\<bar> \<le> 1/2"
proof -
  have "of_int \<lfloor>x\<rfloor> \<le> x" "x < of_int \<lfloor>x\<rfloor> + 1" by linarith+
  then show ?thesis unfolding round_half_even_def Let_def by (auto simp: abs_le_iff)
qed

lemma round_score_range: "0 \<le> x \<Longrightarrow> x \<le> 1 \<Longrightarrow> 0 \<le> round_score x \<and> round_score x \<le> 1"
  using round_half_even_range [of "x * 10 ^ score_precision" 10000] by (simp add: round_score_def score_precision_def)

lemma clip_range: "0 \<le> clip x \<and> clip x \<le> 1"
  by (simp add: clip_def)

lemma component_range: "0 \<le> co_score (mk_component s es) \<and> co_score (mk_component s es) \<le> 1"
  using round_score_range clip_range by (simp add: mk_component_def Let_def)

lemma redundancy_component: "\<exists>s es. score_redundancy col cx = mk_component s es"
  by (simp add: score_redundancy_def Let_def split: option.splits prod.splits) blast

text \<open>
  Every component and the combined fit are on the unit scale, the fit is the clipped sum of the
  four additive components minus redundancy to within half of the last decimal kept, and redundancy
  never raises it.
\<close>

theorem compute_fit_range:
  "(\<forall>c \<in> {fp_affinity (compute_fit col cx), fp_novelty (compute_fit col cx), fp_bridge (compute_fit col cx),
           fp_depth (compute_fit col cx), fp_redundancy (compute_fit col cx)}. 0 \<le> co_score c \<and> co_score c \<le> 1)
   \<and> 0 \<le> fp_fit (compute_fit col cx) \<and> fp_fit (compute_fit col cx) \<le> 1
   \<and> \<bar>fp_fit (compute_fit col cx)
        - clip (co_score (fp_affinity (compute_fit col cx)) + co_score (fp_novelty (compute_fit col cx))
                + co_score (fp_bridge (compute_fit col cx)) + co_score (fp_depth (compute_fit col cx))
                - co_score (fp_redundancy (compute_fit col cx)))\<bar> \<le> 1/20000"
proof -
  have comp: "0 \<le> co_score (score_affinity col cx) \<and> co_score (score_affinity col cx) \<le> 1"
    "0 \<le> co_score (score_novelty col cx) \<and> co_score (score_novelty col cx) \<le> 1"
    "0 \<le> co_score (score_bridge col cx) \<and> co_score (score_bridge col cx) \<le> 1"
    "0 \<le> co_score (score_depth col cx) \<and> co_score (score_depth col cx) \<le> 1"
    "0 \<le> co_score (score_redundancy col cx) \<and> co_score (score_redundancy col cx) \<le> 1"
    using component_range redundancy_component [of col cx]
    unfolding score_affinity_def score_novelty_def score_bridge_def score_depth_def Let_def by metis+
  have close: "\<bar>round_score x - x\<bar> \<le> 1/20000" for x
  proof -
    have "\<bar>of_int (round_half_even (x * 10000)) - x * 10000\<bar> \<le> 1/2" by (rule round_half_even_close)
    then show ?thesis unfolding round_score_def score_precision_def by (simp add: abs_le_iff field_simps)
  qed
  show ?thesis
    using comp round_score_range clip_range close by (simp add: compute_fit_def Let_def)
qed

theorem compute_fit_range_witness:
  "0 \<le> fp_fit (compute_fit (fold_collection []) \<lparr>cx_id = ''1'', cx_title = [], cx_master_id = [], cx_artists = [],
      cx_labels = [], cx_genres = [], cx_styles = [], cx_media_families = [], cx_siblings = []\<rparr>)"
  using compute_fit_range by blast

section \<open>Redundancy\<close>

lemma round_scores:
  "round_score (clip 0) = 0" "round_score (clip 1) = 1" "round_score (clip (3/5)) = 3/5" "round_score (clip (3/10)) = 3/10"
  by (simp_all add: clip_def round_score_def score_precision_def round_half_even_def Let_def)

lemma first_sibling_mem:
  assumes "ss \<noteq> []"
  shows "first_sibling ss \<in> set ss" "s \<in> set ss \<Longrightarrow> sb_id (first_sibling ss) \<le> sb_id s"
  using assms min_by_mem [of sb_id "hd ss" "tl ss"] min_by_le [of s "hd ss" "tl ss" sb_id]
  by (simp_all add: first_sibling_def)

text \<open>
  Redundancy is the strongest case that holds: one for this very release or for a held pressing
  of the same master on a shared media family, three fifths for a held pressing on other families
  only, three tenths for a held title of the same artist, and nothing otherwise.  The release it
  cites is always one the collector holds.
\<close>

theorem redundancy_strongest_case:
  "co_score (score_redundancy col cx)
     = (if cx_id cx \<noteq> [] \<and> cx_id cx \<in> set (fc_release_ids col) then 1
        else if \<exists>s \<in> set (cx_siblings cx). sb_id s \<in> set (fc_release_ids col)
                  \<and> set (sibling_media s) \<inter> set (values_of (cx_media_families cx)) \<noteq> {} then 1
        else if \<exists>s \<in> set (cx_siblings cx). sb_id s \<in> set (fc_release_ids col) then 3/5
        else if title_match col cx \<noteq> None then 3/10 else 0)
   \<and> list_all (\<lambda>e. case ev_release_id e of None \<Rightarrow> True | Some r \<Rightarrow> r \<in> set (fc_release_ids col))
       (co_evidence_entries (score_redundancy col cx))"
proof -
  let ?hs = "held_siblings col cx" and ?same = "filter (\<lambda>s. shared_media cx s \<noteq> []) (held_siblings col cx)"
  have same: "?same \<noteq> [] \<longleftrightarrow> (\<exists>s \<in> set (cx_siblings cx). sb_id s \<in> set (fc_release_ids col)
      \<and> set (sibling_media s) \<inter> set (values_of (cx_media_families cx)) \<noteq> {})"
    by (auto simp: held_siblings_def shared_media_def filter_empty_conv)
  have hs: "?hs \<noteq> [] \<longleftrightarrow> (\<exists>s \<in> set (cx_siblings cx). sb_id s \<in> set (fc_release_ids col))"
    by (auto simp: held_siblings_def filter_empty_conv)
  have "co_score (score_redundancy col cx)
      = (if cx_id cx \<noteq> [] \<and> cx_id cx \<in> set (fc_release_ids col) then 1 else if ?same \<noteq> [] then 1
         else if ?hs \<noteq> [] then 3/5 else if title_match col cx \<noteq> None then 3/10 else 0)"
    by (auto simp: score_redundancy_def Let_def mk_component_def round_scores redundancy_held_release_def
        redundancy_same_master_same_family_def redundancy_same_master_other_family_def
        redundancy_same_artist_and_title_def split: option.splits)
  moreover have "sb_id (first_sibling ?same) \<in> set (fc_release_ids col)" if "?same \<noteq> []"
    using first_sibling_mem(1) [OF that] by (simp add: held_siblings_def)
  moreover have "sb_id (first_sibling ?hs) \<in> set (fc_release_ids col)" if "?hs \<noteq> []"
    using first_sibling_mem(1) [OF that] by (simp add: held_siblings_def)
  ultimately show ?thesis
    unfolding same hs by (auto simp: score_redundancy_def Let_def mk_component_def duplicate_entry_def same hs split: option.splits)
qed

section \<open>Evidence\<close>

lemma facet_entry_sel [simp]:
  "ev_kind (facet_entry k n dr d name i) = k" "ev_count (facet_entry k n dr d name i) = n"
  "ev_entity_ref (facet_entry k n dr d name i) = Some (d, i)" "ev_entity (facet_entry k n dr d name i) = name"
  by (simp_all add: facet_entry_def)

lemma present_weightsI: "candidate_facets cx d \<noteq> [] \<Longrightarrow> \<exists>w. (d, w) \<in> set (present_weights cx)"
proof -
  assume ne: "candidate_facets cx d \<noteq> []"
  then have "d \<in> fst ` set affinity_weights"
    by (cases d) (simp_all add: affinity_weights_def candidate_facets_def)
  then obtain w where "(d, w) \<in> set affinity_weights" by force
  then have "(d, w) \<in> set (present_weights cx)" using ne by (simp add: present_weights_def)
  then show ?thesis ..
qed

lemma affinity_entries:
  "e \<in> set (co_evidence_entries (score_affinity (fold_collection rows) cx)) \<longleftrightarrow>
      (\<exists>d w i name. (d, w) \<in> set (present_weights cx) \<and> (i, name) \<in> set (matches (fold_collection rows) cx d)
         \<and> held_times rows d i \<noteq> 0 \<and> e = facet_entry Shared (Some (held_times rows d i)) (on_atlas d) d name i)"
  unfolding score_affinity_def Let_def mk_component_def component.select_convs set_map set_filter set_sort
  by (force simp: held_counts_fold)


lemma novelty_entries:
  "e \<in> set (co_evidence_entries (score_novelty (fold_collection rows) cx)) \<longleftrightarrow>
      (\<exists>d w i name. (d, w) \<in> set (present_weights cx) \<and> (i, name) \<in> set (candidate_facets cx d)
         \<and> i \<notin> set (held_ids (fold_collection rows) d) \<and> e = facet_entry Unheld None (on_atlas d) d name i)"
  unfolding score_novelty_def mk_component_def Let_def component.select_convs set_map set_sort unheld_def
  by force


lemma facet_has_evidence:
  assumes "i \<in> fst ` set (candidate_facets cx d)"
  shows "Some (d, i) \<in> ev_entity_ref ` (set (co_evidence_entries (score_affinity (fold_collection rows) cx))
                                     \<union> set (co_evidence_entries (score_novelty (fold_collection rows) cx)))"
proof -
  from assms obtain name where f: "(i, name) \<in> set (candidate_facets cx d)" by auto
  then have "candidate_facets cx d \<noteq> []" by force
  then obtain w where w: "(d, w) \<in> set (present_weights cx)" using present_weightsI by blast
  show ?thesis
  proof (cases "i \<in> set (held_ids (fold_collection rows) d)")
    case True
    then have "(i, name) \<in> set (matches (fold_collection rows) cx d)" "held_times rows d i \<noteq> 0"
      using f by (simp_all add: matches_def held_ids_fold)
    then have "facet_entry Shared (Some (held_times rows d i)) (on_atlas d) d name i
        \<in> set (co_evidence_entries (score_affinity (fold_collection rows) cx))"
      using w unfolding affinity_entries by blast
    then show ?thesis by (force intro: image_eqI [rotated])
  next
    case False
    then have "facet_entry Unheld None (on_atlas d) d name i
        \<in> set (co_evidence_entries (score_novelty (fold_collection rows) cx))"
      using f w unfolding novelty_entries by blast
    then show ?thesis by (force intro: image_eqI [rotated])
  qed
qed

text \<open>
  C8.  The evidence is true of the collection.  Scored against a folded collection, every fact
  affinity cites is a facet of the candidate carried by the stated, positive number of held releases;
  every fact novelty cites is a facet of the candidate that no held release carries; every thread
  depth cites has the stated, positive number of held releases; and the facts affinity and novelty
  cite are together all the candidate's facets.
\<close>

theorem evidence_is_true:
  "(\<forall>e \<in> set (co_evidence_entries (score_affinity (fold_collection rows) cx)).
       \<exists>d i n. ev_entity_ref e = Some (d, i) \<and> ev_count e = Some n \<and> i \<in> fst ` set (candidate_facets cx d)
         \<and> n = held_times rows d i \<and> 0 < n)
   \<and> (\<forall>e \<in> set (co_evidence_entries (score_novelty (fold_collection rows) cx)).
       \<exists>d i. ev_entity_ref e = Some (d, i) \<and> i \<in> fst ` set (candidate_facets cx d) \<and> held_times rows d i = 0)
   \<and> (\<forall>e \<in> set (co_evidence_entries (score_depth (fold_collection rows) cx)).
       \<exists>d i n. ev_entity_ref e = Some (d, i) \<and> ev_count e = Some n \<and> i \<in> fst ` set (candidate_facets cx d)
         \<and> n = held_times rows d i \<and> 0 < n)
   \<and> (\<forall>d i. i \<in> fst ` set (candidate_facets cx d) \<longrightarrow>
       Some (d, i) \<in> ev_entity_ref ` (set (co_evidence_entries (score_affinity (fold_collection rows) cx))
                                     \<union> set (co_evidence_entries (score_novelty (fold_collection rows) cx))))"
proof (intro conjI)
  have nn: "0 \<le> held_times rows d i" for d i by (simp add: held_times_def)
  let ?col = "fold_collection rows"
  show "\<forall>e \<in> set (co_evidence_entries (score_affinity ?col cx)).
       \<exists>d i n. ev_entity_ref e = Some (d, i) \<and> ev_count e = Some n \<and> i \<in> fst ` set (candidate_facets cx d)
         \<and> n = held_times rows d i \<and> 0 < n"
  proof
    fix e assume "e \<in> set (co_evidence_entries (score_affinity ?col cx))"
    then obtain d i name where e: "(i, name) \<in> set (matches ?col cx d)" "held_times rows d i \<noteq> 0"
      "e = facet_entry Shared (Some (held_times rows d i)) (on_atlas d) d name i" unfolding affinity_entries by blast
    have "i \<in> fst ` set (candidate_facets cx d)" using e(1) by (force simp: matches_def)
    moreover have "0 < held_times rows d i" using e(2) nn [of d i] by simp
    ultimately show "\<exists>d i n. ev_entity_ref e = Some (d, i) \<and> ev_count e = Some n \<and> i \<in> fst ` set (candidate_facets cx d)
         \<and> n = held_times rows d i \<and> 0 < n" using e(3) by simp
  qed
  show "\<forall>e \<in> set (co_evidence_entries (score_novelty ?col cx)).
       \<exists>d i. ev_entity_ref e = Some (d, i) \<and> i \<in> fst ` set (candidate_facets cx d) \<and> held_times rows d i = 0"
  proof
    fix e assume "e \<in> set (co_evidence_entries (score_novelty ?col cx))"
    then obtain d i name where e: "(i, name) \<in> set (candidate_facets cx d)" "i \<notin> set (held_ids ?col d)"
      "e = facet_entry Unheld None (on_atlas d) d name i" unfolding novelty_entries by blast
    have "i \<in> fst ` set (candidate_facets cx d)" using e(1) by force
    moreover have "held_times rows d i = 0" using e(2) nn [of d i] by (simp add: held_ids_fold)
    ultimately show "\<exists>d i. ev_entity_ref e = Some (d, i) \<and> i \<in> fst ` set (candidate_facets cx d) \<and> held_times rows d i = 0"
      using e(3) by simp
  qed
  show "\<forall>e \<in> set (co_evidence_entries (score_depth ?col cx)).
       \<exists>d i n. ev_entity_ref e = Some (d, i) \<and> ev_count e = Some n \<and> i \<in> fst ` set (candidate_facets cx d)
         \<and> n = held_times rows d i \<and> 0 < n"
    unfolding score_depth_def mk_component_def Let_def component.select_convs set_map set_sort deepened_def
    by (force simp: held_counts_fold)
  show "\<forall>d i. i \<in> fst ` set (candidate_facets cx d) \<longrightarrow>
       Some (d, i) \<in> ev_entity_ref ` (set (co_evidence_entries (score_affinity ?col cx))
                                     \<union> set (co_evidence_entries (score_novelty ?col cx)))"
    by (intro allI impI facet_has_evidence)
qed

definition demo_row :: held_row where
  "demo_row = \<lparr>hr_release_id = ''7'', hr_artist_ids = [''a''], hr_label_ids = [''l''], hr_genres = [''Jazz''],
               hr_styles = [], hr_master_ids = [''m''], hr_title = ''Blue''\<rparr>"

definition demo_fit_context :: fit_context where
  "demo_fit_context = \<lparr>cx_id = ''9'', cx_title = ''Blue'', cx_master_id = ''m'', cx_artists = [\<lparr>fr_id = ''a'', fr_name = ''A''\<rparr>],
     cx_labels = [], cx_genres = [''Jazz'', ''Funk''], cx_styles = [], cx_media_families = [''vinyl''],
     cx_siblings = [\<lparr>sb_id = ''7'', sb_title = ''Blue'', sb_media = [''optical'']\<rparr>]\<rparr>"

theorem evidence_is_true_witness:
  "''Funk'' \<in> fst ` set (candidate_facets demo_fit_context Genre)
   \<and> Some (Genre, ''Funk'') \<in> ev_entity_ref ` (set (co_evidence_entries (score_affinity (fold_collection [demo_row]) demo_fit_context))
        \<union> set (co_evidence_entries (score_novelty (fold_collection [demo_row]) demo_fit_context)))"
proof -
  have "''Funk'' \<in> fst ` set (candidate_facets demo_fit_context Genre)"
    by (simp add: candidate_facets_def demo_fit_context_def values_of_def)
  then show ?thesis using evidence_is_true by blast
qed

section \<open>Bridge\<close>

lemma pick_regions_props:
  fixes nb :: "string \<Rightarrow> string list"
  assumes "distinct (picked @ gs)" "\<forall>p \<in> set picked. \<forall>q \<in> set picked. p \<noteq> q \<longrightarrow> set (nb p) \<inter> set (nb q) = {}"
  shows "set (pick_regions nb picked gs) \<subseteq> set picked \<union> set gs" "set picked \<subseteq> set (pick_regions nb picked gs)"
    and "\<forall>p \<in> set (pick_regions nb picked gs). \<forall>q \<in> set (pick_regions nb picked gs). p \<noteq> q \<longrightarrow> set (nb p) \<inter> set (nb q) = {}"
    and "\<forall>g \<in> set gs. g \<in> set (pick_regions nb picked gs) \<or> (\<exists>p \<in> set (pick_regions nb picked gs). set (nb g) \<inter> set (nb p) \<noteq> {})"
    and "distinct (pick_regions nb picked gs)"
proof -
  have "set (pick_regions nb picked gs) \<subseteq> set picked \<union> set gs \<and> set picked \<subseteq> set (pick_regions nb picked gs)
    \<and> (\<forall>p \<in> set (pick_regions nb picked gs). \<forall>q \<in> set (pick_regions nb picked gs). p \<noteq> q \<longrightarrow> set (nb p) \<inter> set (nb q) = {})
    \<and> (\<forall>g \<in> set gs. g \<in> set (pick_regions nb picked gs) \<or> (\<exists>p \<in> set (pick_regions nb picked gs). set (nb g) \<inter> set (nb p) \<noteq> {}))
    \<and> distinct (pick_regions nb picked gs)"
    using assms
  proof (induction nb picked gs rule: pick_regions.induct)
    case (2 nb picked g gs)
    have ov: "list_ex (\<lambda>p. list_ex (\<lambda>v. v \<in> set (nb p)) (nb g)) picked \<longleftrightarrow> (\<exists>p \<in> set picked. set (nb g) \<inter> set (nb p) \<noteq> {})"
      by (auto simp: list_ex_iff)
    show ?case
    proof (cases "\<exists>p \<in> set picked. set (nb g) \<inter> set (nb p) \<noteq> {}")
      case True
      then have step: "pick_regions nb picked (g # gs) = pick_regions nb picked gs" by (simp add: ov)
      have "distinct (picked @ gs)" using 2(3) by simp
      note IH = 2(1) [OF _ this 2(4)]
      show ?thesis unfolding step using IH True ov by auto
    next
      case False
      then have step: "pick_regions nb picked (g # gs) = pick_regions nb (picked @ [g]) gs" by (simp add: ov)
      have d: "distinct ((picked @ [g]) @ gs)" using 2(3) by simp
      have sep: "\<forall>p \<in> set (picked @ [g]). \<forall>q \<in> set (picked @ [g]). p \<noteq> q \<longrightarrow> set (nb p) \<inter> set (nb q) = {}"
        using 2(4) False by auto
      note IH = 2(2) [OF _ d sep]
      show ?thesis unfolding step using IH False ov by auto
    qed
  qed simp
  then show "set (pick_regions nb picked gs) \<subseteq> set picked \<union> set gs" "set picked \<subseteq> set (pick_regions nb picked gs)"
    and "\<forall>p \<in> set (pick_regions nb picked gs). \<forall>q \<in> set (pick_regions nb picked gs). p \<noteq> q \<longrightarrow> set (nb p) \<inter> set (nb q) = {}"
    and "\<forall>g \<in> set gs. g \<in> set (pick_regions nb picked gs) \<or> (\<exists>p \<in> set (pick_regions nb picked gs). set (nb g) \<inter> set (nb p) \<noteq> {})"
    and "distinct (pick_regions nb picked gs)" by blast+
qed

text \<open>
  The bridged regions are separate and none is missed: the picked genres are touched by the
  candidate, no two share an artist or a label in the collection, every other touched genre shares one
  with a picked genre, and the score is one exactly when at least two are picked, else zero.
\<close>

theorem bridge_regions:
  assumes "distinct (fc_genres col)"
  shows "set (picked_regions col cx) \<subseteq> set (touched col cx)
    \<and> (\<forall>p \<in> set (picked_regions col cx). \<forall>q \<in> set (picked_regions col cx).
          p \<noteq> q \<longrightarrow> set (neighbourhood col p) \<inter> set (neighbourhood col q) = {})
    \<and> (\<forall>g \<in> set (touched col cx). g \<in> set (picked_regions col cx)
          \<or> (\<exists>p \<in> set (picked_regions col cx). set (neighbourhood col g) \<inter> set (neighbourhood col p) \<noteq> {}))
    \<and> co_score (score_bridge col cx)
        = (if \<exists>p \<in> set (picked_regions col cx). \<exists>q \<in> set (picked_regions col cx). p \<noteq> q then 1 else 0)"
proof -
  have d: "distinct ([] @ touched col cx)" using assms by (simp add: touched_def)
  note props = pick_regions_props [OF d, of "neighbourhood col", folded picked_regions_def]
  let ?n = "length (picked_regions col cx)"
  have dist: "distinct (picked_regions col cx)" using props(5) by simp
  have two: "(\<exists>p \<in> set (picked_regions col cx). \<exists>q \<in> set (picked_regions col cx). p \<noteq> q) \<longleftrightarrow> 2 \<le> ?n"
  proof -
    have "card (set (picked_regions col cx)) = ?n" using dist by (rule distinct_card)
    moreover have "(\<exists>p \<in> set (picked_regions col cx). \<exists>q \<in> set (picked_regions col cx). p \<noteq> q)
        \<longleftrightarrow> \<not> card (set (picked_regions col cx)) \<le> Suc 0"
      by (auto simp: card_le_Suc0_iff_eq)
    ultimately show ?thesis by linarith
  qed
  have "min bridge_score_cap (of_int (max 0 (int ?n - 1))) = (if 2 \<le> ?n then 1 else 0)"
  proof (cases "2 \<le> ?n")
    case True
    then have "1 \<le> max 0 (int ?n - 1)" by simp
    then have "(1 :: rat) \<le> of_int (max 0 (int ?n - 1))" by linarith
    then show ?thesis using True by (simp add: bridge_score_cap_def)
  next
    case False
    then have "max 0 (int ?n - 1) = 0" by simp
    then show ?thesis using False by (simp only: bridge_score_cap_def of_int_0) simp
  qed
  then have "co_score (score_bridge col cx) = (if 2 \<le> ?n then 1 else 0)"
    by (simp add: score_bridge_def Let_def mk_component_def round_scores)
  then show ?thesis using props(1,3,4) two by simp
qed

theorem bridge_regions_witness:
  "co_score (score_bridge (fold_collection [demo_row]) demo_fit_context) \<le> 1"
proof -
  have "distinct (fc_genres (fold_collection [demo_row]))" by (simp add: fold_collection_def Let_def)
  from bridge_regions [OF this, of demo_fit_context] show ?thesis by simp
qed

section \<open>Affinity and novelty\<close>

lemma weighted_extremes:
  fixes w x :: "'a \<Rightarrow> rat"
  assumes "\<forall>a \<in> set as. 0 < w a \<and> 0 \<le> x a \<and> x a \<le> 1"
  shows "sum_list (map (\<lambda>a. w a * x a) as) \<le> sum_list (map w as)" "0 \<le> sum_list (map (\<lambda>a. w a * x a) as)"
    and "sum_list (map (\<lambda>a. w a * x a) as) = sum_list (map w as) \<longleftrightarrow> (\<forall>a \<in> set as. x a = 1)"
    and "sum_list (map (\<lambda>a. w a * x a) as) = 0 \<longleftrightarrow> (\<forall>a \<in> set as. x a = 0)"
proof -
  have "sum_list (map (\<lambda>a. w a * x a) as) \<le> sum_list (map w as) \<and> 0 \<le> sum_list (map (\<lambda>a. w a * x a) as)
    \<and> (sum_list (map (\<lambda>a. w a * x a) as) = sum_list (map w as) \<longleftrightarrow> (\<forall>a \<in> set as. x a = 1))
    \<and> (sum_list (map (\<lambda>a. w a * x a) as) = 0 \<longleftrightarrow> (\<forall>a \<in> set as. x a = 0))"
    using assms
  proof (induction as)
    case (Cons a as)
    then have IH: "sum_list (map (\<lambda>a. w a * x a) as) \<le> sum_list (map w as)" "0 \<le> sum_list (map (\<lambda>a. w a * x a) as)"
      "sum_list (map (\<lambda>a. w a * x a) as) = sum_list (map w as) \<longleftrightarrow> (\<forall>a \<in> set as. x a = 1)"
      "sum_list (map (\<lambda>a. w a * x a) as) = 0 \<longleftrightarrow> (\<forall>a \<in> set as. x a = 0)" by auto
    have a: "0 < w a" "0 \<le> x a" "x a \<le> 1" using Cons.prems by auto
    then have le: "w a * x a \<le> w a" "0 \<le> w a * x a" by (simp_all add: mult_left_le)
    have eq: "w a * x a = w a \<longleftrightarrow> x a = 1" "w a * x a = 0 \<longleftrightarrow> x a = 0" using a by auto
    have "w a * x a + sum_list (map (\<lambda>a. w a * x a) as) = w a + sum_list (map w as)
        \<longleftrightarrow> w a * x a = w a \<and> sum_list (map (\<lambda>a. w a * x a) as) = sum_list (map w as)"
      using le IH by linarith
    moreover have "w a * x a + sum_list (map (\<lambda>a. w a * x a) as) = 0
        \<longleftrightarrow> w a * x a = 0 \<and> sum_list (map (\<lambda>a. w a * x a) as) = 0"
      using le IH by linarith
    ultimately show ?case using le IH eq by simp
  qed simp
  then show "sum_list (map (\<lambda>a. w a * x a) as) \<le> sum_list (map w as)" "0 \<le> sum_list (map (\<lambda>a. w a * x a) as)"
    and "sum_list (map (\<lambda>a. w a * x a) as) = sum_list (map w as) \<longleftrightarrow> (\<forall>a \<in> set as. x a = 1)"
    and "sum_list (map (\<lambda>a. w a * x a) as) = 0 \<longleftrightarrow> (\<forall>a \<in> set as. x a = 0)" by blast+
qed

definition all_held :: "fit_collection \<Rightarrow> fit_context \<Rightarrow> bool" where
  "all_held col cx \<longleftrightarrow> (\<forall>d. \<forall>(i, name) \<in> set (candidate_facets cx d). i \<in> set (held_ids col d))"

definition none_held :: "fit_collection \<Rightarrow> fit_context \<Rightarrow> bool" where
  "none_held col cx \<longleftrightarrow> (\<forall>d. \<forall>(i, name) \<in> set (candidate_facets cx d). i \<notin> set (held_ids col d))"

lemma present_dims:
  "(\<forall>(d, w) \<in> set (present_weights cx). P d) \<longleftrightarrow> (\<forall>d. candidate_facets cx d \<noteq> [] \<longrightarrow> P d)"
  using present_weightsI [of cx] by (fastforce simp: present_weights_def)

lemma affinity_extremes:
  assumes "present_weights cx \<noteq> []"
  shows "affinity_score col cx = 1 \<longleftrightarrow> all_held col cx" "affinity_score col cx = 0 \<longleftrightarrow> none_held col cx"
    and "0 \<le> affinity_score col cx \<and> affinity_score col cx \<le> 1"
proof -
  let ?x = "\<lambda>(d, w). of_nat (length (matches col cx d)) / (of_nat (length (candidate_facets cx d)) :: rat)"
  let ?t = "sum_list (map snd (present_weights cx))"
  let ?ws = "sum_list (map (\<lambda>a. snd a * ?x a) (present_weights cx))"
  have pos: "\<forall>a \<in> set (present_weights cx). 0 < snd a \<and> 0 \<le> ?x a \<and> ?x a \<le> 1"
    by (auto simp: present_weights_def affinity_weights_def matches_def divide_le_eq_1 split: if_splits)
  have t: "0 < ?t" using assms by (auto simp: present_weights_def affinity_weights_def split: if_splits)
  have sc: "affinity_score col cx = ?ws / ?t"
    using t unfolding affinity_score_def Let_def case_prod_beta by simp
  have full: "length (filter Q xs) = length xs \<longleftrightarrow> (\<forall>p \<in> set xs. Q p)" for Q and xs :: "(string \<times> string) list"
    using length_filter_less [of _ xs Q] filter_True [of xs Q] by fastforce
  have one: "?x a = 1 \<longleftrightarrow> (\<forall>p \<in> set (candidate_facets cx (fst a)). fst p \<in> set (held_ids col (fst a)))"
    if "a \<in> set (present_weights cx)" for a
  proof -
    have "candidate_facets cx (fst a) \<noteq> []" using that by (auto simp: present_weights_def case_prod_beta)
    then have "?x a = 1 \<longleftrightarrow> length (matches col cx (fst a)) = length (candidate_facets cx (fst a))"
      unfolding case_prod_beta by auto
    then show ?thesis unfolding matches_def case_prod_beta full .
  qed
  have zero: "?x a = 0 \<longleftrightarrow> (\<forall>p \<in> set (candidate_facets cx (fst a)). fst p \<notin> set (held_ids col (fst a)))"
    if "a \<in> set (present_weights cx)" for a
    using that by (auto simp: present_weights_def matches_def filter_empty_conv case_prod_beta)
  have dims: "(\<forall>a \<in> set (present_weights cx). P (fst a)) \<longleftrightarrow> (\<forall>d. candidate_facets cx d \<noteq> [] \<longrightarrow> P d)" for P
    using present_dims [of cx P] by (simp add: case_prod_beta)
  note wx = weighted_extremes [OF pos]
  have "affinity_score col cx = 1 \<longleftrightarrow> ?ws = ?t" using t sc by auto
  also have "\<dots> \<longleftrightarrow> (\<forall>a \<in> set (present_weights cx). \<forall>p \<in> set (candidate_facets cx (fst a)). fst p \<in> set (held_ids col (fst a)))"
    unfolding wx(3) using one by blast
  also have "\<dots> \<longleftrightarrow> all_held col cx"
    unfolding dims [of "\<lambda>d. \<forall>p \<in> set (candidate_facets cx d). fst p \<in> set (held_ids col d)"]
    unfolding all_held_def case_prod_beta by (metis empty_iff list.set(1))
  finally show "affinity_score col cx = 1 \<longleftrightarrow> all_held col cx" .
  have "affinity_score col cx = 0 \<longleftrightarrow> ?ws = 0" using t sc by auto
  also have "\<dots> \<longleftrightarrow> (\<forall>a \<in> set (present_weights cx). \<forall>p \<in> set (candidate_facets cx (fst a)). fst p \<notin> set (held_ids col (fst a)))"
    unfolding wx(4) using zero by blast
  also have "\<dots> \<longleftrightarrow> none_held col cx"
    unfolding dims [of "\<lambda>d. \<forall>p \<in> set (candidate_facets cx d). fst p \<notin> set (held_ids col d)"]
    unfolding none_held_def case_prod_beta by (metis empty_iff list.set(1))
  finally show "affinity_score col cx = 0 \<longleftrightarrow> none_held col cx" .
  show "0 \<le> affinity_score col cx \<and> affinity_score col cx \<le> 1"
    using wx(1,2) t unfolding sc by (simp add: divide_le_eq_1)
qed

lemma novelty_extremes:
  assumes "facet_total cx \<noteq> 0"
  shows "novelty_score col cx = 0 \<longleftrightarrow> all_held col cx" "novelty_score col cx = 1 \<longleftrightarrow> none_held col cx"
proof -
  let ?un = "\<lambda>(d, w). filter (\<lambda>(i, name). i \<notin> set (held_ids col d)) (candidate_facets cx d)"
  have len: "length (unheld col cx) = sum_list (map (\<lambda>a. length (?un a)) (present_weights cx))"
    by (simp add: unheld_def length_concat comp_def case_prod_beta)
  have dims: "(\<forall>a \<in> set (present_weights cx). P (fst a)) \<longleftrightarrow> (\<forall>d. candidate_facets cx d \<noteq> [] \<longrightarrow> P d)" for P
    using present_dims [of cx P] by (simp add: case_prod_beta)
  have "novelty_score col cx = 0 \<longleftrightarrow> unheld col cx = []" using assms by (simp add: novelty_score_def)
  also have "\<dots> \<longleftrightarrow> (\<forall>a \<in> set (present_weights cx). \<forall>p \<in> set (candidate_facets cx (fst a)). fst p \<in> set (held_ids col (fst a)))"
    by (auto simp: unheld_def filter_empty_conv case_prod_beta)
  also have "\<dots> \<longleftrightarrow> all_held col cx"
    unfolding dims [of "\<lambda>d. \<forall>p \<in> set (candidate_facets cx d). fst p \<in> set (held_ids col d)"]
    unfolding all_held_def case_prod_beta by (metis empty_iff list.set(1))
  finally show "novelty_score col cx = 0 \<longleftrightarrow> all_held col cx" .
  have full: "length (filter Q xs) = length xs \<longleftrightarrow> (\<forall>p \<in> set xs. Q p)" for Q and xs :: "(string \<times> string) list"
    using length_filter_less [of _ xs Q] filter_True [of xs Q] by fastforce
  have sums: "sum_list (map f as) = sum_list (map g as) \<longleftrightarrow> (\<forall>a \<in> set as. f a = g a)"
    if "\<forall>a \<in> set as. f a \<le> g a" for f g :: "dimension \<times> rat \<Rightarrow> nat" and as
    using that
  proof (induction as)
    case (Cons a as)
    have "sum_list (map f as) \<le> sum_list (map g as)" using Cons.prems by (intro sum_list_mono) auto
    moreover have "f a \<le> g a" using Cons.prems by simp
    ultimately have "f a + sum_list (map f as) = g a + sum_list (map g as)
        \<longleftrightarrow> f a = g a \<and> sum_list (map f as) = sum_list (map g as)" by linarith
    then show ?case using Cons by simp
  qed simp
  have "novelty_score col cx = 1 \<longleftrightarrow> length (unheld col cx) = facet_total cx" using assms by (auto simp: novelty_score_def)
  also have "\<dots> \<longleftrightarrow> (\<forall>a \<in> set (present_weights cx). length (?un a) = length (candidate_facets cx (fst a)))"
    unfolding len facet_total_def case_prod_beta by (intro sums) simp
  also have "\<dots> \<longleftrightarrow> (\<forall>a \<in> set (present_weights cx). \<forall>p \<in> set (candidate_facets cx (fst a)). fst p \<notin> set (held_ids col (fst a)))"
    unfolding case_prod_beta full ..
  also have "\<dots> \<longleftrightarrow> none_held col cx"
    unfolding dims [of "\<lambda>d. \<forall>p \<in> set (candidate_facets cx d). fst p \<notin> set (held_ids col d)"]
    unfolding none_held_def case_prod_beta by (metis empty_iff list.set(1))
  finally show "novelty_score col cx = 1 \<longleftrightarrow> none_held col cx" .
qed

text \<open>
  Affinity and novelty are two views of one question.  For a candidate with any facet, before
  rounding: affinity is full exactly when every facet is held, which is exactly when novelty is nil,
  and affinity is nil exactly when no facet is held, which is exactly when novelty is full.
\<close>

theorem affinity_novelty_extremes:
  assumes "facet_total cx \<noteq> 0"
  shows "(affinity_score col cx = 1) = (\<forall>d. \<forall>(i, name) \<in> set (candidate_facets cx d). i \<in> set (held_ids col d))
    \<and> (novelty_score col cx = 0) = (affinity_score col cx = 1)
    \<and> (affinity_score col cx = 0) = (\<forall>d. \<forall>(i, name) \<in> set (candidate_facets cx d). i \<notin> set (held_ids col d))
    \<and> (novelty_score col cx = 1) = (affinity_score col cx = 0)
    \<and> 0 \<le> affinity_score col cx \<and> affinity_score col cx \<le> 1"
proof -
  have "present_weights cx \<noteq> []" using assms by (auto simp: facet_total_def)
  note aff = affinity_extremes [OF this, of col] and nov = novelty_extremes [OF assms, of col]
  show ?thesis using aff nov unfolding all_held_def none_held_def by (intro conjI) blast+
qed

theorem affinity_novelty_extremes_witness:
  "(novelty_score (fold_collection [demo_row]) demo_fit_context = 0)
     = (affinity_score (fold_collection [demo_row]) demo_fit_context = 1)"
proof -
  have "facet_total demo_fit_context \<noteq> 0" by code_simp
  from affinity_novelty_extremes [OF this] show ?thesis by blast
qed

section \<open>Order of the rows\<close>

text \<open>The per-genre neighbourhoods and the title index, in terms of the rows.\<close>

definition groups_ok :: "(held_row \<Rightarrow> string list) \<Rightarrow> held_row list \<Rightarrow> (string, string set) dict \<Rightarrow> bool" where
  "groups_ok f rows d \<longleftrightarrow> dict_wf d
     \<and> (\<forall>g. map_of d g = (let rs = filter (\<lambda>r. g \<in> set (values_of (hr_genres r))) (held rows) in
             if rs = [] then None else Some (\<Union>r \<in> set rs. set (values_of (f r)))))"

lemma held_snoc: "held (rows @ [r]) = (if hr_release_id r = [] then held rows else held rows @ [r])"
  by (simp add: held_def)

lemma dict_wf_extend: "dict_wf d \<Longrightarrow> dict_wf (extend_all gs vs d)"
  unfolding extend_all_def by (rule dict_wf_foldl_set)

lemma groups_ok_extend:
  assumes "groups_ok f rows d" "hr_release_id r \<noteq> []"
  shows "groups_ok f (rows @ [r]) (extend_all (values_of (hr_genres r)) (values_of (f r)) d)"
  using assms by (auto simp: groups_ok_def extend_all_get held_snoc dict_wf_extend dict_get_def Let_def filter_empty_conv)

lemma fold_groups:
  "groups_ok hr_artist_ids rows (fs_genre_artists (foldl fold_row fold_start rows))
   \<and> groups_ok hr_label_ids rows (fs_genre_labels (foldl fold_row fold_start rows))
   \<and> groups_ok hr_styles rows (fs_genre_styles (foldl fold_row fold_start rows))"
proof (induction rows rule: rev_induct)
  case Nil
  then show ?case by (simp add: fold_start_def groups_ok_def held_def)
next
  case (snoc r rows)
  show ?case
  proof (cases "hr_release_id r = []")
    case True
    then have "groups_ok f (rows @ [r]) d = groups_ok f rows d" for f d by (simp add: groups_ok_def held_snoc)
    then show ?thesis using snoc True by (simp add: fold_row_def)
  next
    case False
    then show ?thesis using snoc by (simp add: fold_row_def Let_def groups_ok_extend split: prod.splits)
  qed
qed

definition row_keys :: "held_row \<Rightarrow> string set" where
  "row_keys r = (if hr_title r = [] then {} else (\<lambda>a. held_title_key a (hr_title r)) ` set (values_of (hr_artist_ids r)))"

definition title_releases :: "held_row list \<Rightarrow> string \<Rightarrow> string set" where
  "title_releases rows key = hr_release_id ` {r \<in> set (held rows). key \<in> row_keys r}"

lemma snd_index_title:
  "snd (index_title t rid st a)
     = dict_set (held_title_key a t) (min (dict_get (snd st) (held_title_key a t) rid) rid) (snd st)"
  by (cases st) (simp add: index_title_def Let_def)

lemma index_titles_get:
  "map_of (snd (foldl (index_title t rid) st as)) key
     = (if key \<in> (\<lambda>a. held_title_key a t) ` set as then Some (min (dict_get (snd st) key rid) rid) else map_of (snd st) key)"
proof (induction as arbitrary: st)
  case (Cons a as)
  show ?case unfolding foldl_Cons Cons snd_index_title by auto
qed simp

lemma index_titles_wf: "dict_wf (snd st) \<Longrightarrow> dict_wf (snd (foldl (index_title t rid) st as))"
  by (induction as arbitrary: st) (simp_all add: snd_index_title)

lemma fold_title_releases:
  "dict_wf (fs_held_title_releases (foldl fold_row fold_start rows))
   \<and> map_of (fs_held_title_releases (foldl fold_row fold_start rows)) key
       = (if title_releases rows key = {} then None else Some (Min (title_releases rows key)))"
proof (induction rows rule: rev_induct)
  case Nil
  then show ?case by (simp add: fold_start_def title_releases_def held_def)
next
  case (snoc r rows)
  let ?st = "foldl fold_row fold_start rows"
  have fin: "finite (title_releases rows key)" by (simp add: title_releases_def)
  show ?case
  proof (cases "hr_release_id r = [] \<or> hr_title r = []")
    case True
    then have "title_releases (rows @ [r]) key = title_releases rows key"
      by (auto simp: title_releases_def held_snoc row_keys_def)
    moreover have "fs_held_title_releases (fold_row ?st r) = fs_held_title_releases ?st"
      using True by (auto simp: fold_row_def Let_def)
    ultimately show ?thesis using snoc by simp
  next
    case False
    let ?i = "foldl (index_title (hr_title r) (hr_release_id r)) (fs_held_titles ?st, fs_held_title_releases ?st) (values_of (hr_artist_ids r))"
    have st: "fs_held_title_releases (fold_row ?st r) = snd ?i"
      using False by (simp add: fold_row_def Let_def split: prod.splits)
    have keys: "title_releases (rows @ [r]) key = title_releases rows key \<union> (if key \<in> row_keys r then {hr_release_id r} else {})"
      using False by (auto simp: title_releases_def held_snoc)
    have get: "map_of (snd ?i) key = (if key \<in> row_keys r
        then Some (min (dict_get (fs_held_title_releases ?st) key (hr_release_id r)) (hr_release_id r))
        else map_of (fs_held_title_releases ?st) key)"
      using False by (simp add: index_titles_get row_keys_def)
    have "dict_wf (snd ?i)" using snoc by (intro index_titles_wf) simp
    moreover have "map_of (snd ?i) key = (if title_releases (rows @ [r]) key = {} then None else Some (Min (title_releases (rows @ [r]) key)))"
      unfolding get keys using snoc fin by (auto simp: dict_get_def Min_insert min.commute)
    ultimately show ?thesis by (simp add: st)
  qed
qed

text \<open>
  The fold does not depend on the order in which the graph returns the rows, with one exception.
  Two orders of the same rows fold to the same collection in every field but \<open>held_titles\<close>, where the
  last row's spelling of a title wins, so two orders can differ.
\<close>

theorem fold_collection_order:
  assumes "mset rows = mset rows'"
  shows "(fold_collection rows)\<lparr>fc_held_titles := []\<rparr> = (fold_collection rows')\<lparr>fc_held_titles := []\<rparr>
    \<and> (\<exists>r s. fc_held_titles (fold_collection [r, s]) \<noteq> fc_held_titles (fold_collection [s, r]))"
proof
  have h: "mset (held rows) = mset (held rows')" using assms by (simp add: held_def)
  then have hs: "set (held rows) = set (held rows')" by (rule mset_eq_setD)
  have cr: "count_rows f rows = count_rows f rows'" for f
    using h by (metis count_rows_def ext mset_filter size_mset)
  have counts: "sort_key fst c = sort_key fst c'" if "counts_ok f rows c" "counts_ok f rows' c'" for f c c'
    using that cr [of f] by (intro sorted_dict_unique) (auto simp: counts_ok_def)
  have groups: "sort_key fst c = sort_key fst c'" if "groups_ok f rows c" "groups_ok f rows' c'" for f c c'
  proof (rule sorted_dict_unique)
    have eq: "set (filter P (held rows)) = set (filter P (held rows'))" for P using hs by auto
    then have "filter P (held rows) = [] \<longleftrightarrow> filter P (held rows') = []" for P by (metis set_empty)
    then show "map_of c = map_of c'" using that eq by (simp add: groups_ok_def fun_eq_iff Let_def)
  qed (use that in \<open>simp_all add: groups_ok_def\<close>)
  have titles: "sort_key fst (fs_held_title_releases (foldl fold_row fold_start rows))
      = sort_key fst (fs_held_title_releases (foldl fold_row fold_start rows'))"
  proof (rule sorted_dict_unique)
    have "title_releases rows = title_releases rows'" by (simp add: title_releases_def fun_eq_iff hs)
    then show "map_of (fs_held_title_releases (foldl fold_row fold_start rows))
        = map_of (fs_held_title_releases (foldl fold_row fold_start rows'))"
      using fold_title_releases by (simp add: fun_eq_iff)
  qed (use fold_title_releases in blast)+
  let ?a = "foldl fold_row fold_start rows" and ?b = "foldl fold_row fold_start rows'"
  have "sort_key fst (fs_artist_counts ?a) = sort_key fst (fs_artist_counts ?b)"
    "sort_key fst (fs_label_counts ?a) = sort_key fst (fs_label_counts ?b)"
    "sort_key fst (fs_genre_counts ?a) = sort_key fst (fs_genre_counts ?b)"
    "sort_key fst (fs_style_counts ?a) = sort_key fst (fs_style_counts ?b)"
    using fold_counts [of rows] fold_counts [of rows'] by (blast intro: counts)+
  moreover have "sort_key fst (fs_genre_artists ?a) = sort_key fst (fs_genre_artists ?b)"
    "sort_key fst (fs_genre_labels ?a) = sort_key fst (fs_genre_labels ?b)"
    "sort_key fst (fs_genre_styles ?a) = sort_key fst (fs_genre_styles ?b)"
    using fold_groups [of rows] fold_groups [of rows'] by (blast intro: groups)+
  moreover have "fs_release_ids ?a = fs_release_ids ?b" "fs_master_ids ?a = fs_master_ids ?b"
    "fs_artist_ids ?a = fs_artist_ids ?b" "fs_label_ids ?a = fs_label_ids ?b"
    "fs_genres ?a = fs_genres ?b" "fs_styles ?a = fs_styles ?b"
    using fold_sets [of rows] fold_sets [of rows'] by (simp_all add: hs)
  ultimately show "(fold_collection rows)\<lparr>fc_held_titles := []\<rparr> = (fold_collection rows')\<lparr>fc_held_titles := []\<rparr>"
    unfolding fold_collection_def Let_def by (simp add: titles)
  have "fc_held_titles (fold_collection [demo_row, demo_row\<lparr>hr_release_id := ''8'', hr_title := ''BLUE''\<rparr>])
      \<noteq> fc_held_titles (fold_collection [demo_row\<lparr>hr_release_id := ''8'', hr_title := ''BLUE''\<rparr>, demo_row])"
    by code_simp
  then show "\<exists>r s. fc_held_titles (fold_collection [r, s]) \<noteq> fc_held_titles (fold_collection [s, r])" by blast
qed

theorem fold_collection_order_witness:
  "(fold_collection [demo_row, demo_row\<lparr>hr_release_id := ''8''\<rparr>])\<lparr>fc_held_titles := []\<rparr>
     = (fold_collection [demo_row\<lparr>hr_release_id := ''8''\<rparr>, demo_row])\<lparr>fc_held_titles := []\<rparr>"
proof -
  have "mset [demo_row, demo_row\<lparr>hr_release_id := ''8''\<rparr>] = mset [demo_row\<lparr>hr_release_id := ''8''\<rparr>, demo_row]" by simp
  from fold_collection_order [OF this] show ?thesis by blast
qed

end
