(* ===== verification/Catalog_Merge.thy ===== *)
theory Catalog_Merge
  imports Prelude
begin

text \<open>
  The native-id merge of \<open>src/api/catalog_merge.py\<close>: two catalog items that turn out to be one
  are merged by opening a supersession row, compressing chains, re-pointing the artifacts and
  owned copies with a ledger entry each, and recomputing the \<open>gm_item_id\<close> caches; the exact
  reversal undoes it.

  The tables the module reads and writes are the fields of \<open>db\<close>, each a list of records in
  storage order.  A statement is a function on \<open>db\<close>; a \<open>RETURNING\<close> clause or a count is the
  second component of its result.  \<open>now()\<close>, the start of the transaction, and the identifiers
  the server's column default generates are not the module's own: they are the \<open>merge_env\<close>
  argument.  An exception leaves the caller's transaction, which rolls back whole, so a failing
  operation returns the error alone and no database.  A UUID is a \<open>nat\<close> (Python orders UUIDs by
  their integer value); a timestamp is an \<open>int\<close>.
\<close>

section \<open>The tables\<close>

record supersession =
  s_id :: nat
  superseded_id :: nat
  survivor_id :: nat
  s_cause :: string
  decision_ref :: nat
  valid_from :: int
  valid_to :: "int option"
  via_id :: "nat option"

text \<open>
  A row of \<open>artifacts\<close> or \<open>owned_copies\<close>: its id, the catalog item it asserts, its owner
  (\<open>created_by\<close> or \<open>user_id\<close>, named by \<open>MOVED_TABLES\<close>), and everything else in it.
\<close>

record asserted_row =
  row_id :: nat
  item_id :: nat
  row_owner :: "nat option"
  row_data :: string

record catalog_move =
  mv_supersession :: nat
  mv_table :: string
  mv_row :: nat
  mv_from :: nat
  mv_to :: nat
  mv_user :: "nat option"
  mv_at :: int

text \<open>
  A row of a table with a \<open>gm_item_id\<close> cache: its key column as text, the cached item, and, on
  the MusicBrainz tables, the Discogs id column.
\<close>

record cached_row =
  cr_key :: string
  gm_item_id :: "nat option"
  cr_discogs :: "string option"

record provider_alias =
  al_provider :: string
  al_kind :: string
  al_external :: string
  native_id :: nat
  al_source :: string
  al_confidence :: int
  al_from :: int
  al_to :: "int option"

text \<open>An observation hangs off an artifact or an owned copy; only those two columns matter here.\<close>

record observation =
  ob_artifact :: "nat option"
  ob_owned_copy :: "nat option"

record db =
  catalog_items :: "(nat \<times> string) list"
  observations :: "observation list"
  supersessions :: "supersession list"
  asserted :: "string \<Rightarrow> asserted_row list"
  moves :: "catalog_move list"
  cached :: "string \<Rightarrow> cached_row list"
  aliases :: "provider_alias list"

record merge_env =
  now_of :: int
  new_id :: "nat \<Rightarrow> nat"

datatype merge_error =
    ItSupersedesItself nat
  | ItemMissing nat
  | KindsDiffer nat string nat string
  | SurvivorSuperseded nat nat
  | AlreadySuperseded nat nat nat
  | UnknownCause string
  | UnknownKind string
  | SupersessionMissing nat
  | NotCurrent nat
  | CompressedBy nat nat
  | PredecessorMismatch nat nat nat

section \<open>The module's constants\<close>

definition CAUSES :: "string list" where
  "CAUSES = [''edition_promotion'', ''catalog_reattachment'']"

definition MOVED_TABLES :: "(string, string) dict" where
  "MOVED_TABLES = [(''artifacts'', ''created_by''), (''owned_copies'', ''user_id'')]"

record cache_table =
  ct_table :: string
  ct_key :: string
  ct_provider :: string
  ct_entity_kind :: string

definition cache_table :: "string \<Rightarrow> string \<Rightarrow> string \<Rightarrow> string \<Rightarrow> cache_table" where
  "cache_table t k p e = \<lparr>ct_table = t, ct_key = k, ct_provider = p, ct_entity_kind = e\<rparr>"

definition CACHE_TABLES :: "(string, cache_table list) dict" where
  "CACHE_TABLES =
     [(''release'',
       [cache_table ''public.releases'' ''data_id'' ''discogs'' ''release'',
        cache_table ''musicbrainz.releases'' ''mbid'' ''musicbrainz'' ''release'',
        cache_table ''user_collections'' ''release_id'' ''discogs'' ''release'',
        cache_table ''user_wantlists'' ''release_id'' ''discogs'' ''release'']),
      (''master'',
       [cache_table ''public.masters'' ''data_id'' ''discogs'' ''master'',
        cache_table ''musicbrainz.release_groups'' ''mbid'' ''musicbrainz'' ''master'']),
      (''artist'',
       [cache_table ''public.artists'' ''data_id'' ''discogs'' ''artist'',
        cache_table ''musicbrainz.artists'' ''mbid'' ''musicbrainz'' ''artist'']),
      (''label'',
       [cache_table ''public.labels'' ''data_id'' ''discogs'' ''label'',
        cache_table ''musicbrainz.labels'' ''mbid'' ''musicbrainz'' ''label''])]"

definition CACHE_TABLE_NAMES :: "string list" where
  "CACHE_TABLE_NAMES = remdups (map ct_table (concat (map snd CACHE_TABLES)))"

section \<open>Locking and checking a pair\<close>

text \<open>
  The \<open>SELECT ... FOR ...\<close> statements \<open>lock_items\<close> sends, in the order it sends them: the two
  ids sorted, the superseded one (both, in a revert) locked \<open>FOR UPDATE\<close>.
\<close>

definition lock_plan :: "nat \<Rightarrow> nat \<Rightarrow> bool \<Rightarrow> (nat \<times> string) list" where
  "lock_plan superseded survivor revert =
     map (\<lambda>i. (i, if revert \<or> i = superseded then ''UPDATE'' else ''NO KEY UPDATE''))
       (sort [superseded, survivor])"

fun read_kinds :: "(nat \<times> string) list \<Rightarrow> (nat \<times> string) list \<Rightarrow> (nat, string) dict
    \<Rightarrow> (merge_error, (nat, string) dict) result" where
  "read_kinds items [] kinds = Inr kinds"
| "read_kinds items ((i, strength) # plan) kinds =
     (case map_of items i of
        None \<Rightarrow> Inl (ItemMissing i)
      | Some k \<Rightarrow> read_kinds items plan (dict_set i k kinds))"

definition lock_items :: "db \<Rightarrow> nat \<Rightarrow> nat \<Rightarrow> bool \<Rightarrow> (merge_error, string) result" where
  "lock_items d superseded survivor revert =
     (if superseded = survivor then Inl (ItSupersedesItself superseded)
      else case read_kinds (catalog_items d) (lock_plan superseded survivor revert) [] of
        Inl e \<Rightarrow> Inl e
      | Inr kinds \<Rightarrow>
          let a = dict_get kinds superseded []; b = dict_get kinds survivor [] in
          if a \<noteq> b then Inl (KindsDiffer superseded a survivor b) else Inr a)"

definition is_open :: "supersession \<Rightarrow> bool" where
  "is_open r \<longleftrightarrow> valid_to r = None"

text \<open>\<open>_CURRENT_SURVIVORS\<close>, read into a dictionary: a later row replaces an earlier one.\<close>

definition current_survivors :: "db \<Rightarrow> nat list \<Rightarrow> (nat, nat \<times> nat) dict" where
  "current_survivors d ids =
     foldl (\<lambda>m r. dict_set (superseded_id r) (s_id r, survivor_id r) m) []
       (filter (\<lambda>r. superseded_id r \<in> set ids \<and> is_open r) (supersessions d))"

definition current_supersession :: "db \<Rightarrow> nat \<Rightarrow> nat \<Rightarrow> (merge_error, nat option) result" where
  "current_supersession d superseded survivor =
     (let current = current_survivors d [superseded, survivor] in
      case map_of current survivor of
        Some (s, other) \<Rightarrow> Inl (SurvivorSuperseded survivor other)
      | None \<Rightarrow>
          (case map_of current superseded of
             Some (s, resolved) \<Rightarrow>
               if resolved \<noteq> survivor then Inl (AlreadySuperseded superseded resolved survivor)
               else Inr (Some s)
           | None \<Rightarrow> Inr None))"

section \<open>Recomputing the caches\<close>

definition cache_hit :: "cache_table \<Rightarrow> nat list \<Rightarrow> cached_row \<Rightarrow> provider_alias \<Rightarrow> bool" where
  "cache_hit c ids row al \<longleftrightarrow>
     (case gm_item_id row of None \<Rightarrow> False | Some g \<Rightarrow> g \<in> set ids \<and> native_id al \<noteq> g)
     \<and> al_provider al = ct_provider c \<and> al_kind al = ct_entity_kind c
     \<and> al_external al = cr_key row \<and> al_to al = None"

definition recompute_row :: "cache_table \<Rightarrow> nat list \<Rightarrow> provider_alias list \<Rightarrow> cached_row \<Rightarrow> cached_row" where
  "recompute_row c ids als row =
     (case find (cache_hit c ids row) als of
        None \<Rightarrow> row
      | Some al \<Rightarrow> row\<lparr>gm_item_id := Some (native_id al)\<rparr>)"

text \<open>\<open>_RECOMPUTE\<close>: the table after the update, and how many of its rows were written.\<close>

definition recompute_table :: "cache_table \<Rightarrow> nat list \<Rightarrow> db \<Rightarrow> db \<times> nat" where
  "recompute_table c ids d =
     (let t = ct_table c; rows = cached d t in
      (d\<lparr>cached := (cached d)(t := map (recompute_row c ids (aliases d)) rows)\<rparr>,
       length (filter (\<lambda>row. find (cache_hit c ids row) (aliases d) \<noteq> None) rows)))"

fun recompute_tables :: "cache_table list \<Rightarrow> nat list \<Rightarrow> db \<Rightarrow> db \<times> (string, nat) dict" where
  "recompute_tables [] ids d = (d, [])"
| "recompute_tables (c # cs) ids d =
     (let (d1, n) = recompute_table c ids d; (d2, ns) = recompute_tables cs ids d1
      in (d2, (ct_table c, n) # ns))"

definition recompute_caches :: "db \<Rightarrow> string \<Rightarrow> nat list
    \<Rightarrow> (merge_error, db \<times> (string, nat) dict) result" where
  "recompute_caches d kind ids =
     (case map_of CACHE_TABLES kind of
        None \<Rightarrow> Inl (UnknownKind kind)
      | Some cs \<Rightarrow> Inr (recompute_tables cs ids d))"

section \<open>The merge\<close>

record merge_outcome =
  mo_supersession :: nat
  mo_opened :: bool
  mo_compressed :: nat
  mo_moved :: "(string, nat) dict"
  mo_caches :: "(string, nat) dict"

text \<open>\<open>_OPEN\<close>.\<close>

definition open_supersession :: "merge_env \<Rightarrow> nat \<Rightarrow> nat \<Rightarrow> string \<Rightarrow> nat \<Rightarrow> supersession" where
  "open_supersession e superseded survivor cause decision =
     \<lparr>s_id = new_id e 0, superseded_id = superseded, survivor_id = survivor, s_cause = cause,
      decision_ref = decision, valid_from = now_of e, valid_to = None, via_id = None\<rparr>"

text \<open>\<open>_CLOSE_SURVIVED\<close>: the rows the superseded item survives, and the table with them closed.\<close>

definition survives :: "nat \<Rightarrow> supersession \<Rightarrow> bool" where
  "survives x r \<longleftrightarrow> survivor_id r = x \<and> is_open r"

definition close_survived :: "merge_env \<Rightarrow> nat \<Rightarrow> supersession list \<Rightarrow> supersession list" where
  "close_survived e x rows =
     map (\<lambda>r. if survives x r then r\<lparr>valid_to := Some (now_of e)\<rparr> else r) rows"

text \<open>\<open>_OPEN_COMPRESSED\<close>, for the closed rows in the order they were returned.\<close>

definition compressed_row :: "merge_env \<Rightarrow> nat \<Rightarrow> nat \<Rightarrow> nat \<Rightarrow> supersession \<Rightarrow> supersession" where
  "compressed_row e survivor via n r =
     \<lparr>s_id = new_id e n, superseded_id = superseded_id r, survivor_id = survivor,
      s_cause = s_cause r, decision_ref = decision_ref r, valid_from = now_of e, valid_to = None,
      via_id = Some via\<rparr>"

fun open_compressed :: "merge_env \<Rightarrow> nat \<Rightarrow> nat \<Rightarrow> nat \<Rightarrow> supersession list \<Rightarrow> supersession list" where
  "open_compressed e survivor via n [] = []"
| "open_compressed e survivor via n (r # rs) =
     compressed_row e survivor via n r # open_compressed e survivor via (Suc n) rs"

text \<open>Step 5: the database, the supersession's id, whether it was opened, the chains compressed.\<close>

definition supersede :: "merge_env \<Rightarrow> db \<Rightarrow> nat \<Rightarrow> nat \<Rightarrow> string \<Rightarrow> nat \<Rightarrow> nat option
    \<Rightarrow> db \<times> nat \<times> bool \<times> nat" where
  "supersede e d superseded survivor cause decision existing =
     (case existing of
        Some s \<Rightarrow> (d, s, False, 0)
      | None \<Rightarrow>
          let opened = open_supersession e superseded survivor cause decision;
              rows = supersessions d @ [opened];
              survived = filter (survives superseded) rows
          in (d\<lparr>supersessions := close_survived e superseded rows
                  @ open_compressed e survivor (s_id opened) 1 survived\<rparr>,
              s_id opened, True, length survived))"

text \<open>
  Step 6, \<open>_REPOINT\<close>: the ledger's unique key admits a row once per supersession, so an
  insertion that meets it does nothing.
\<close>

definition ledger_key :: "catalog_move \<Rightarrow> nat \<times> string \<times> nat" where
  "ledger_key mv = (mv_supersession mv, mv_table mv, mv_row mv)"

definition ledger_insert :: "catalog_move list \<Rightarrow> catalog_move \<Rightarrow> catalog_move list" where
  "ledger_insert ms mv = (if ledger_key mv \<in> ledger_key ` set ms then ms else ms @ [mv])"

definition repoint_row :: "nat \<Rightarrow> nat \<Rightarrow> asserted_row \<Rightarrow> asserted_row" where
  "repoint_row superseded survivor row =
     (if item_id row = superseded then row\<lparr>item_id := survivor\<rparr> else row)"

definition ledger_entry :: "merge_env \<Rightarrow> nat \<Rightarrow> nat \<Rightarrow> nat \<Rightarrow> string \<Rightarrow> asserted_row \<Rightarrow> catalog_move" where
  "ledger_entry e s superseded survivor t row =
     \<lparr>mv_supersession = s, mv_table = t, mv_row = row_id row, mv_from = superseded,
      mv_to = survivor, mv_user = row_owner row, mv_at = now_of e\<rparr>"

definition repoint :: "merge_env \<Rightarrow> nat \<Rightarrow> nat \<Rightarrow> nat \<Rightarrow> string \<Rightarrow> db \<Rightarrow> db \<times> nat" where
  "repoint e s superseded survivor t d =
     (let moved = filter (\<lambda>row. item_id row = superseded) (asserted d t) in
      (d\<lparr>asserted := (asserted d)(t := map (repoint_row superseded survivor) (asserted d t)),
         moves := foldl ledger_insert (moves d) (map (ledger_entry e s superseded survivor t) moved)\<rparr>,
       length moved))"

fun repoint_tables :: "merge_env \<Rightarrow> nat \<Rightarrow> nat \<Rightarrow> nat \<Rightarrow> string list \<Rightarrow> db \<Rightarrow> db \<times> (string, nat) dict" where
  "repoint_tables e s superseded survivor [] d = (d, [])"
| "repoint_tables e s superseded survivor (t # ts) d =
     (let (d1, n) = repoint e s superseded survivor t d;
          (d2, ns) = repoint_tables e s superseded survivor ts d1
      in (d2, (t, n) # ns))"

definition merge_items :: "merge_env \<Rightarrow> db \<Rightarrow> nat \<Rightarrow> nat \<Rightarrow> string \<Rightarrow> string \<Rightarrow> nat \<Rightarrow> nat option
    \<Rightarrow> (merge_error, db \<times> merge_outcome) result" where
  "merge_items e d superseded survivor kind cause decision existing =
     (if cause \<notin> set CAUSES then Inl (UnknownCause cause)
      else
        let (d1, s, opened, compressed) = supersede e d superseded survivor cause decision existing;
            (d2, moved) = repoint_tables e s superseded survivor (dict_keys MOVED_TABLES) d1
        in case recompute_caches d2 kind [superseded, survivor] of
             Inl err \<Rightarrow> Inl err
           | Inr (d3, caches) \<Rightarrow>
               Inr (d3, \<lparr>mo_supersession = s, mo_opened = opened, mo_compressed = compressed,
                         mo_moved = moved, mo_caches = caches\<rparr>))"

section \<open>The revert\<close>

record revert_outcome =
  ro_supersession :: nat
  ro_reopened :: nat
  ro_moved_back :: "(string, nat) dict"
  ro_caches :: "(string, nat) dict"

definition find_supersession :: "db \<Rightarrow> nat \<Rightarrow> supersession option" where
  "find_supersession d s = find (\<lambda>r. s_id r = s) (supersessions d)"

definition close_row :: "merge_env \<Rightarrow> nat \<Rightarrow> supersession list \<Rightarrow> supersession list" where
  "close_row e s rows = map (\<lambda>r. if s_id r = s then r\<lparr>valid_to := Some (now_of e)\<rparr> else r) rows"

text \<open>\<open>_CLOSE_COMPRESSED\<close>: what it returns, and the table after it.\<close>

definition compressed_by :: "nat \<Rightarrow> supersession \<Rightarrow> bool" where
  "compressed_by s r \<longleftrightarrow> via_id r = Some s \<and> is_open r"

definition close_compressed :: "merge_env \<Rightarrow> nat \<Rightarrow> supersession list \<Rightarrow> supersession list" where
  "close_compressed e s rows =
     map (\<lambda>r. if compressed_by s r then r\<lparr>valid_to := Some (now_of e)\<rparr> else r) rows"

text \<open>\<open>_REOPEN_PREDECESSORS\<close>, for the returned pairs of item and opening time.\<close>

definition predecessor :: "nat \<Rightarrow> (nat \<times> int) list \<Rightarrow> supersession \<Rightarrow> bool" where
  "predecessor x compressed r \<longleftrightarrow>
     survivor_id r = x
     \<and> (\<exists>(a, from) \<in> set compressed. superseded_id r = a \<and> valid_to r = Some from)"

definition reopen_predecessors :: "nat \<Rightarrow> (nat \<times> int) list \<Rightarrow> supersession list \<Rightarrow> supersession list" where
  "reopen_predecessors x compressed rows =
     map (\<lambda>r. if predecessor x compressed r then r\<lparr>valid_to := None\<rparr> else r) rows"

text \<open>\<open>_MOVE_BACK\<close>: a row returns to where the ledger took it from, if it is still where it was put.\<close>

definition ledgered :: "nat \<Rightarrow> string \<Rightarrow> asserted_row \<Rightarrow> catalog_move \<Rightarrow> bool" where
  "ledgered s t row mv \<longleftrightarrow>
     mv_supersession mv = s \<and> mv_table mv = t \<and> row_id row = mv_row mv \<and> item_id row = mv_to mv"

definition move_back_row :: "nat \<Rightarrow> string \<Rightarrow> catalog_move list \<Rightarrow> asserted_row \<Rightarrow> asserted_row" where
  "move_back_row s t ms row =
     (case find (ledgered s t row) ms of
        None \<Rightarrow> row
      | Some mv \<Rightarrow> row\<lparr>item_id := mv_from mv\<rparr>)"

definition move_back :: "nat \<Rightarrow> string \<Rightarrow> db \<Rightarrow> db \<times> nat" where
  "move_back s t d =
     (d\<lparr>asserted := (asserted d)(t := map (move_back_row s t (moves d)) (asserted d t))\<rparr>,
      length (filter (\<lambda>row. find (ledgered s t row) (moves d) \<noteq> None) (asserted d t)))"

fun move_back_tables :: "nat \<Rightarrow> string list \<Rightarrow> db \<Rightarrow> db \<times> (string, nat) dict" where
  "move_back_tables s [] d = (d, [])"
| "move_back_tables s (t # ts) d =
     (let (d1, n) = move_back s t d; (d2, ns) = move_back_tables s ts d1 in (d2, (t, n) # ns))"

text \<open>
  The supersession rows after a revert's closings and re-openings, and the re-opened count; the
  re-opening is sent only when something was compressed.
\<close>

definition unchain :: "merge_env \<Rightarrow> nat \<Rightarrow> nat \<Rightarrow> supersession list
    \<Rightarrow> (merge_error, supersession list \<times> nat) result" where
  "unchain e s superseded rows =
     (let rows1 = close_row e s rows;
          compressed = map (\<lambda>r. (superseded_id r, valid_from r)) (filter (compressed_by s) rows1);
          rows2 = close_compressed e s rows1;
          reopened = length (filter (predecessor superseded compressed) rows2)
      in if compressed = [] then Inr (rows2, 0)
         else if reopened \<noteq> length compressed
              then Inl (PredecessorMismatch s (length compressed) reopened)
              else Inr (reopen_predecessors superseded compressed rows2, reopened))"

definition revert_supersession :: "merge_env \<Rightarrow> db \<Rightarrow> nat
    \<Rightarrow> (merge_error, db \<times> revert_outcome) result" where
  "revert_supersession e d s =
     (case find_supersession d s of
        None \<Rightarrow> Inl (SupersessionMissing s)
      | Some row \<Rightarrow>
          (case lock_items d (superseded_id row) (survivor_id row) True of
             Inl err \<Rightarrow> Inl err
           | Inr kind \<Rightarrow>
               if \<not> is_open row then Inl (NotCurrent s)
               else case via_id row of
                 Some via \<Rightarrow> Inl (CompressedBy s via)
               | None \<Rightarrow>
                   (case unchain e s (superseded_id row) (supersessions d) of
                      Inl err \<Rightarrow> Inl err
                    | Inr (rows, reopened) \<Rightarrow>
                        let (d2, back) = move_back_tables s (dict_keys MOVED_TABLES)
                                           (d\<lparr>supersessions := rows\<rparr>)
                        in case recompute_caches d2 kind [superseded_id row, survivor_id row] of
                             Inl err \<Rightarrow> Inl err
                           | Inr (d3, caches) \<Rightarrow>
                               Inr (d3, \<lparr>ro_supersession = s, ro_reopened = reopened,
                                         ro_moved_back = back, ro_caches = caches\<rparr>))))"

end
