(* ===== verification/Catalog_Merge_Properties.thy ===== *)
theory Catalog_Merge_Properties
  imports Catalog_Merge
begin

text \<open>
  Properties of the native-id merge: resolution stays one hop through any history of merges and
  reverts, a merge redirects exactly what resolved to the superseded item, moves and ledgers
  exactly its dependents, leaves every cache agreeing with the alias table, and is undone
  exactly by its revert.
\<close>

section \<open>Transactions\<close>

text \<open>
  \<open>conn.transaction()\<close>: the block commits when it returns and rolls back whole when it raises.
  A run of such blocks, each at its own time, is \<open>commits\<close>.
\<close>

definition commit :: "('s \<Rightarrow> ('e, 's \<times> 'o) result) \<Rightarrow> 's \<Rightarrow> 's" where
  "commit step s = (case step s of Inl e \<Rightarrow> s | Inr (s', out) \<Rightarrow> s')"

fun commits :: "('k \<Rightarrow> 's \<Rightarrow> ('e, 's \<times> 'o) result) \<Rightarrow> 'k list \<Rightarrow> 's \<Rightarrow> 's" where
  "commits step [] s = s"
| "commits step (k # ks) s = commits step ks (commit (step k) s)"

text \<open>
  A run is ready when each block, where it starts, meets the condition \<open>ready\<close> on what the server
  supplies to it.
\<close>

fun run_ready :: "('k \<Rightarrow> 's \<Rightarrow> ('e, 's \<times> 'o) result) \<Rightarrow> ('k \<Rightarrow> 's \<Rightarrow> bool) \<Rightarrow> 'k list \<Rightarrow> 's \<Rightarrow> bool" where
  "run_ready step ready [] s \<longleftrightarrow> True"
| "run_ready step ready (k # ks) s \<longleftrightarrow> ready k s \<and> run_ready step ready ks (commit (step k) s)"

text \<open>
  What a transaction promises of an invariant that also bounds the clock: committing keeps it,
  provided the transaction is ready and starts later than everything recorded so far.
\<close>

locale transaction =
  fixes step :: "'k \<Rightarrow> 's \<Rightarrow> ('e, 's \<times> 'o) result"
    and ready :: "'k \<Rightarrow> 's \<Rightarrow> bool"
    and start :: "'k \<Rightarrow> int"
    and inv :: "int \<Rightarrow> 's \<Rightarrow> bool"
  assumes step_keeps: "inv t s \<Longrightarrow> ready k s \<Longrightarrow> t < start k \<Longrightarrow> step k s = Inr (s', out)
            \<Longrightarrow> inv (start k) s'"
    and inv_later: "inv t s \<Longrightarrow> t \<le> t' \<Longrightarrow> inv t' s"
begin

lemma commit_keeps: "inv t s \<Longrightarrow> ready k s \<Longrightarrow> t < start k \<Longrightarrow> inv (start k) (commit (step k) s)"
  by (auto simp: commit_def split: sum.splits intro: step_keeps inv_later [of t])

lemma commits_keep:
  "inv t s \<Longrightarrow> run_ready step ready ks s \<Longrightarrow> sorted_wrt (<) (t # map start ks)
     \<Longrightarrow> inv (last (t # map start ks)) (commits step ks s)"
proof (induction ks arbitrary: t s)
  case (Cons k ks)
  have "inv (start k) (commit (step k) s)"
    using Cons.prems by (intro commit_keeps [of t]) auto
  from Cons.IH [OF this] Cons.prems show ?case by simp
qed simp

end

section \<open>What each statement leaves alone\<close>

lemma recompute_table_frame [simp]:
  "catalog_items (fst (recompute_table c ids d)) = catalog_items d"
  "supersessions (fst (recompute_table c ids d)) = supersessions d"
  "asserted (fst (recompute_table c ids d)) = asserted d"
  "moves (fst (recompute_table c ids d)) = moves d"
  "aliases (fst (recompute_table c ids d)) = aliases d"
  by (simp_all add: recompute_table_def Let_def)

lemma recompute_tables_frame [simp]:
  "catalog_items (fst (recompute_tables cs ids d)) = catalog_items d"
  "supersessions (fst (recompute_tables cs ids d)) = supersessions d"
  "asserted (fst (recompute_tables cs ids d)) = asserted d"
  "moves (fst (recompute_tables cs ids d)) = moves d"
  "aliases (fst (recompute_tables cs ids d)) = aliases d"
  by (induction cs arbitrary: d) (simp_all add: split_beta Let_def)

lemma repoint_frame [simp]:
  "catalog_items (fst (repoint e s x y t d)) = catalog_items d"
  "supersessions (fst (repoint e s x y t d)) = supersessions d"
  "cached (fst (repoint e s x y t d)) = cached d"
  "aliases (fst (repoint e s x y t d)) = aliases d"
  by (simp_all add: repoint_def Let_def)

lemma repoint_tables_frame [simp]:
  "catalog_items (fst (repoint_tables e s x y ts d)) = catalog_items d"
  "supersessions (fst (repoint_tables e s x y ts d)) = supersessions d"
  "cached (fst (repoint_tables e s x y ts d)) = cached d"
  "aliases (fst (repoint_tables e s x y ts d)) = aliases d"
  by (induction ts arbitrary: d) (simp_all add: split_beta Let_def)

lemma move_back_frame [simp]:
  "catalog_items (fst (move_back s t d)) = catalog_items d"
  "supersessions (fst (move_back s t d)) = supersessions d"
  "moves (fst (move_back s t d)) = moves d"
  "cached (fst (move_back s t d)) = cached d"
  "aliases (fst (move_back s t d)) = aliases d"
  by (simp_all add: move_back_def)

lemma move_back_tables_frame [simp]:
  "catalog_items (fst (move_back_tables s ts d)) = catalog_items d"
  "supersessions (fst (move_back_tables s ts d)) = supersessions d"
  "moves (fst (move_back_tables s ts d)) = moves d"
  "cached (fst (move_back_tables s ts d)) = cached d"
  "aliases (fst (move_back_tables s ts d)) = aliases d"
  by (induction ts arbitrary: d) (simp_all add: split_beta Let_def)

lemma supersede_frame [simp]:
  "catalog_items (fst (supersede e d x y c r ex)) = catalog_items d"
  "asserted (fst (supersede e d x y c r ex)) = asserted d"
  "moves (fst (supersede e d x y c r ex)) = moves d"
  "cached (fst (supersede e d x y c r ex)) = cached d"
  "aliases (fst (supersede e d x y c r ex)) = aliases d"
  by (simp_all add: supersede_def Let_def split: option.splits)

text \<open>A successful merge or revert, taken apart into its steps.\<close>

lemma merge_itemsE:
  assumes "merge_items e d x y kind cause r ex = Inr (d', out)"
  obtains cs where "cause \<in> set CAUSES" "map_of CACHE_TABLES kind = Some cs"
    "mo_supersession out = fst (snd (supersede e d x y cause r ex))"
    "mo_opened out = (ex = None)"
    "mo_moved out = snd (repoint_tables e (mo_supersession out) x y (dict_keys MOVED_TABLES)
                           (fst (supersede e d x y cause r ex)))"
    "d' = fst (recompute_tables cs [x, y]
                 (fst (repoint_tables e (mo_supersession out) x y (dict_keys MOVED_TABLES)
                         (fst (supersede e d x y cause r ex)))))"
proof -
  have opened: "fst (snd (snd (supersede e d x y cause r ex))) = (ex = None)"
    by (simp add: supersede_def Let_def split: option.splits)
  show thesis
    using assms opened
    by (intro that [of "the (map_of CACHE_TABLES kind)"]) (auto simp: merge_items_def recompute_caches_def split_beta Let_def
        split: if_splits option.splits)
qed

lemma revert_supersessionE:
  assumes "revert_supersession e d s = Inr (d', out)"
  obtains row kind cs rows n where "find_supersession d s = Some row" "is_open row" "via_id row = None"
    "lock_items d (superseded_id row) (survivor_id row) True = Inr kind"
    "unchain e s (superseded_id row) (supersessions d) = Inr (rows, n)"
    "map_of CACHE_TABLES kind = Some cs" "ro_reopened out = n"
    "d' = fst (recompute_tables cs [superseded_id row, survivor_id row]
                 (fst (move_back_tables s (dict_keys MOVED_TABLES) (d\<lparr>supersessions := rows\<rparr>))))"
  using assms
  by (auto simp: revert_supersession_def recompute_caches_def split_beta Let_def
      split: if_splits option.splits sum.splits prod.splits)

section \<open>The supersession table\<close>

text \<open>
  \<open>resolves d i\<close> is what \<open>public.resolve_catalog_item\<close> is documented to answer: the survivor of
  the item's current supersession, or the item itself.
\<close>

definition resolves :: "db \<Rightarrow> nat \<Rightarrow> nat" where
  "resolves d i =
     (case find (\<lambda>r. superseded_id r = i \<and> is_open r) (supersessions d) of
        None \<Rightarrow> i
      | Some r \<Rightarrow> survivor_id r)"

definition row_key :: "supersession \<Rightarrow> nat \<times> nat \<times> int option" where
  "row_key r = (superseded_id r, survivor_id r, valid_to r)"

text \<open>
  The table's invariant at time \<open>t\<close>: no item supersedes itself, nothing was closed after \<open>t\<close>, an
  item has one current supersession, no current survivor is currently superseded, ids are unique,
  and one item was not closed out of one survivor twice at one time.
\<close>

definition one_hop :: "supersession list \<Rightarrow> bool" where
  "one_hop rows \<longleftrightarrow>
     (let now_open = filter is_open rows in
      distinct (map superseded_id now_open)
      \<and> set (map survivor_id now_open) \<inter> set (map superseded_id now_open) = {})"

definition rows_ok :: "int \<Rightarrow> supersession list \<Rightarrow> bool" where
  "rows_ok t rows \<longleftrightarrow>
     one_hop rows \<and> distinct (map s_id rows) \<and> distinct (map row_key rows)
     \<and> (\<forall>r \<in> set rows. superseded_id r \<noteq> survivor_id r
                       \<and> (case valid_to r of None \<Rightarrow> True | Some u \<Rightarrow> u \<le> t))"

lemma one_hopD:
  assumes "one_hop rows"
  shows "r \<in> set rows \<Longrightarrow> r' \<in> set rows \<Longrightarrow> is_open r \<Longrightarrow> is_open r'
           \<Longrightarrow> survivor_id r \<noteq> superseded_id r'"
  using assms by (auto simp: one_hop_def Let_def)

lemma one_hop_unique:
  assumes "one_hop rows" "r \<in> set rows" "r' \<in> set rows" "is_open r" "is_open r'"
    "superseded_id r = superseded_id r'"
  shows "r = r'"
  using assms by (auto simp: one_hop_def Let_def distinct_map inj_on_def)

lemma one_hopI:
  assumes "distinct rows"
    and "\<And>r r'. r \<in> set rows \<Longrightarrow> r' \<in> set rows \<Longrightarrow> is_open r \<Longrightarrow> is_open r'
           \<Longrightarrow> superseded_id r = superseded_id r' \<Longrightarrow> r = r'"
    and "\<And>r r'. r \<in> set rows \<Longrightarrow> r' \<in> set rows \<Longrightarrow> is_open r \<Longrightarrow> is_open r'
           \<Longrightarrow> survivor_id r \<noteq> superseded_id r'"
  shows "one_hop rows"
  unfolding one_hop_def Let_def distinct_map inj_on_def using assms by auto

lemma rows_okD:
  assumes "rows_ok t rows" "r \<in> set rows"
  shows "superseded_id r \<noteq> survivor_id r" "valid_to r = Some u \<Longrightarrow> u \<le> t"
  using assms by (auto simp: rows_ok_def split: option.splits)

lemma row_key_inj:
  assumes "rows_ok t rows" "r \<in> set rows" "r' \<in> set rows" "row_key r = row_key r'"
  shows "r = r'"
  using assms by (auto simp: rows_ok_def distinct_map inj_on_def)

lemma rows_ok_distinct: "rows_ok t rows \<Longrightarrow> distinct rows"
  by (simp add: rows_ok_def distinct_map)

lemma rows_okI:
  assumes "distinct (map s_id rows)" "inj_on row_key (set rows)"
    and "\<And>r. r \<in> set rows \<Longrightarrow> superseded_id r \<noteq> survivor_id r"
    and "\<And>r u. r \<in> set rows \<Longrightarrow> valid_to r = Some u \<Longrightarrow> u \<le> t"
    and "\<And>r r'. r \<in> set rows \<Longrightarrow> r' \<in> set rows \<Longrightarrow> is_open r \<Longrightarrow> is_open r'
           \<Longrightarrow> superseded_id r = superseded_id r' \<Longrightarrow> r = r'"
    and "\<And>r r'. r \<in> set rows \<Longrightarrow> r' \<in> set rows \<Longrightarrow> is_open r \<Longrightarrow> is_open r'
           \<Longrightarrow> survivor_id r \<noteq> superseded_id r'"
  shows "rows_ok t rows"
proof -
  have d: "distinct rows" using assms(1) by (simp add: distinct_map)
  have "one_hop rows" by (rule one_hopI) (use d assms in blast)+
  with d assms(2) have "one_hop rows" "distinct (map row_key rows)" by (simp_all add: distinct_map)
  then show ?thesis
    unfolding rows_ok_def using assms(1,3,4) by (auto split: option.splits)
qed

lemma rows_ok_later: "rows_ok t rows \<Longrightarrow> t \<le> t' \<Longrightarrow> rows_ok t' rows"
  by (force simp: rows_ok_def split: option.splits)

subsection \<open>The check before a merge\<close>

lemma map_of_current_survivors:
  "map_of (current_survivors d ids) i =
     (if i \<in> set ids
      then map_option (\<lambda>r. (s_id r, survivor_id r))
             (find (\<lambda>r. superseded_id r = i \<and> is_open r) (rev (supersessions d)))
      else None)"
proof -
  have *: "map_of (foldl (\<lambda>m r. dict_set (superseded_id r) (s_id r, survivor_id r) m) [] (filter P rows)) i
       = map_option (\<lambda>r. (s_id r, survivor_id r)) (find (\<lambda>r. superseded_id r = i \<and> P r) (rev rows))"
    for P rows
    by (induction rows rule: rev_induct) auto
  show ?thesis
    unfolding current_survivors_def * by (auto intro!: arg_cong [where f = "map_option _"] simp: find_None_iff
        cong: conj_cong)
qed

lemma current_supersessionE:
  assumes "current_supersession d x y = Inr ex"
  shows "r \<in> set (supersessions d) \<Longrightarrow> is_open r \<Longrightarrow> superseded_id r \<noteq> y"
    "ex = None \<Longrightarrow> r \<in> set (supersessions d) \<Longrightarrow> is_open r \<Longrightarrow> superseded_id r \<noteq> x"
    "ex = Some s \<Longrightarrow> \<exists>r \<in> set (supersessions d). is_open r \<and> s_id r = s \<and> superseded_id r = x \<and> survivor_id r = y"
  using assms
  by (auto simp: current_supersession_def map_of_current_survivors find_None_iff
      split: option.splits if_splits dest!: find_SomeD)

subsection \<open>The rows a merge leaves\<close>

lemma open_compressed_superseded [simp]:
  "map superseded_id (open_compressed e y via n rs) = map superseded_id rs"
  by (induction rs arbitrary: n) (simp_all add: compressed_row_def)

lemma open_compressedD:
  "r \<in> set (open_compressed e y via n rs) \<Longrightarrow>
     survivor_id r = y \<and> valid_to r = None \<and> via_id r = Some via \<and> valid_from r = now_of e
     \<and> (\<exists>r0 \<in> set rs. superseded_id r = superseded_id r0 \<and> s_cause r = s_cause r0
                      \<and> decision_ref r = decision_ref r0)"
  by (induction rs arbitrary: n) (auto simp: compressed_row_def)

lemma length_open_compressed [simp]: "length (open_compressed e y via n rs) = length rs"
  by (induction rs arbitrary: n) simp_all

text \<open>The three groups of rows a merge leaves: the old ones, its own, and the compressed ones.\<close>

definition merged_rows :: "merge_env \<Rightarrow> supersession list \<Rightarrow> nat \<Rightarrow> nat \<Rightarrow> string \<Rightarrow> nat \<Rightarrow> supersession list" where
  "merged_rows e rows x y cause r =
     close_survived e x rows @ open_supersession e x y cause r
       # open_compressed e y (new_id e 0) 1 (filter (survives x) rows)"

lemma supersede_rows:
  assumes "x \<noteq> y"
  shows "supersessions (fst (supersede e d x y cause r None)) = merged_rows e (supersessions d) x y cause r"
    "fst (snd (supersede e d x y cause r None)) = new_id e 0"
  using assms
  by (auto simp: supersede_def merged_rows_def open_supersession_def survives_def close_survived_def Let_def)

text \<open>
  What \<open>current_supersession\<close> has checked when it answers \<open>None\<close>: neither item is currently
  superseded.
\<close>

definition mergeable :: "supersession list \<Rightarrow> nat \<Rightarrow> nat \<Rightarrow> bool" where
  "mergeable rows x y \<longleftrightarrow>
     x \<noteq> y \<and> (\<forall>r \<in> set rows. is_open r \<longrightarrow> superseded_id r \<noteq> x \<and> superseded_id r \<noteq> y)"

lemma mergeableI: "x \<noteq> y \<Longrightarrow> current_supersession d x y = Inr None \<Longrightarrow> mergeable (supersessions d) x y"
  by (auto simp: mergeable_def dest: current_supersessionE)

text \<open>Every row after a merge: an old row not closed, an old row closed now, the merge's own row,
  or a compressed row standing for an old one.\<close>

lemma merged_rows_cases:
  assumes "r \<in> set (merged_rows e rows x y cause dref)"
  obtains (kept) "r \<in> set rows" "\<not> survives x r"
  | (closed) r0 where "r0 \<in> set rows" "survives x r0" "r = r0\<lparr>valid_to := Some (now_of e)\<rparr>"
  | (own) "superseded_id r = x" "survivor_id r = y" "valid_to r = None" "via_id r = None"
      "r = open_supersession e x y cause dref"
  | (compressed) r0 where "r0 \<in> set rows" "survives x r0" "superseded_id r = superseded_id r0"
      "survivor_id r = y" "valid_to r = None" "via_id r = Some (new_id e 0)"
      "r \<in> set (open_compressed e y (new_id e 0) 1 (filter (survives x) rows))"
proof -
  consider (old) "r \<in> set (close_survived e x rows)" | (new) "r = open_supersession e x y cause dref"
    | (comp) "r \<in> set (open_compressed e y (new_id e 0) 1 (filter (survives x) rows))"
    using assms by (auto simp: merged_rows_def)
  then show thesis
  proof cases
    case old
    then show thesis by (auto simp: close_survived_def split: if_splits intro: kept closed)
  next
    case new
    then show thesis by (intro own) (simp_all add: open_supersession_def)
  next
    case comp
    from open_compressedD [OF this] obtain r0 where
      "r0 \<in> set (filter (survives x) rows)" "superseded_id r = superseded_id r0"
      "survivor_id r = y" "valid_to r = None" "via_id r = Some (new_id e 0)" by blast
    with comp show thesis by (intro compressed [of r0]) simp_all
  qed
qed

lemma merged_open_cases:
  assumes "r \<in> set (merged_rows e rows x y cause dref)" "is_open r"
  obtains (kept) "r \<in> set rows" "survivor_id r \<noteq> x"
  | (own) "superseded_id r = x" "survivor_id r = y" "r = open_supersession e x y cause dref"
  | (compressed) r0 where "r0 \<in> set rows" "is_open r0" "survivor_id r0 = x"
      "superseded_id r = superseded_id r0" "survivor_id r = y" "via_id r = Some (new_id e 0)"
      "r \<in> set (open_compressed e y (new_id e 0) 1 (filter (survives x) rows))"
  using assms(1)
proof (cases rule: merged_rows_cases)
qed (use assms(2) that in \<open>auto simp: is_open_def survives_def\<close>)

lemma survived_distinct:
  assumes "one_hop rows"
  shows "distinct (map superseded_id (filter (survives x) rows))"
proof -
  have "filter (survives x) rows = filter (\<lambda>r. survivor_id r = x) (filter is_open rows)"
    by (simp add: survives_def [abs_def] conj_commute)
  moreover have "distinct (map superseded_id (filter is_open rows))"
    using assms by (simp add: one_hop_def Let_def)
  ultimately show ?thesis by (metis distinct_map_filter)
qed

lemma compressed_inj:
  assumes "one_hop rows"
  shows "inj_on superseded_id (set (open_compressed e y via n (filter (survives x) rows)))"
proof -
  have "distinct (map superseded_id (open_compressed e y via n (filter (survives x) rows)))"
    unfolding open_compressed_superseded by (rule survived_distinct [OF assms])
  then show ?thesis unfolding distinct_map by blast
qed

lemma merged_open_unique:
  assumes ok: "one_hop rows" and m: "mergeable rows x y"
    and r: "r \<in> set (merged_rows e rows x y cause dref)" "is_open r"
    and r': "r' \<in> set (merged_rows e rows x y cause dref)" "is_open r'"
    and eq: "superseded_id r = superseded_id r'"
  shows "r = r'"
proof -
  let ?C = "open_compressed e y (new_id e 0) 1 (filter (survives x) rows)"
  have old: "a = b" if "a \<in> set rows" "is_open a" "b \<in> set rows" "is_open b" "superseded_id a = superseded_id b" for a b
    using one_hop_unique [OF ok] that by blast
  have notx: "superseded_id a \<noteq> x" if "a \<in> set rows" "is_open a" for a
    using m that by (auto simp: mergeable_def)
  have comp: "a = b" if "a \<in> set ?C" "b \<in> set ?C" "superseded_id a = superseded_id b" for a b
    using inj_onD [OF compressed_inj [OF ok]] that by blast
  from r show ?thesis
  proof (cases rule: merged_open_cases)
    case k: kept
    from r' show ?thesis
    proof (cases rule: merged_open_cases)
      case (compressed r0)
      then have "r0 = r" using k eq r(2) by (intro old) auto
      with compressed k show ?thesis by simp
    qed (use k eq r r' old notx in auto)
  next
    case o: own
    from r' show ?thesis
      by (cases rule: merged_open_cases) (use o eq r' notx in auto)
  next
    case (compressed r0)
    note c = this
    from r' show ?thesis
    proof (cases rule: merged_open_cases)
      case kept
      then have "r' = r0" using c eq r'(2) by (intro old) auto
      with c kept show ?thesis by simp
    next
      case own
      with c eq notx show ?thesis by auto
    next
      case (compressed r1)
      with c eq comp show ?thesis by blast
    qed
  qed
qed

lemma merged_one_hop:
  assumes ok: "one_hop rows" and m: "mergeable rows x y"
    and r: "r \<in> set (merged_rows e rows x y cause dref)" "is_open r"
    and r': "r' \<in> set (merged_rows e rows x y cause dref)" "is_open r'"
  shows "survivor_id r \<noteq> superseded_id r'"
proof -
  have y: "superseded_id r' \<noteq> y"
    using r' by (cases rule: merged_open_cases) (use m r' in \<open>auto simp: mergeable_def\<close>)
  from r show ?thesis
  proof (cases rule: merged_open_cases)
    case kept
    from r' show ?thesis
      by (cases rule: merged_open_cases) (use kept r r' one_hopD [OF ok] in auto)
  qed (use y in auto)
qed

text \<open>
  The identifiers the server generates for a statement: all different, and none of them already
  the id of a row.
\<close>

definition fresh_ids :: "merge_env \<Rightarrow> supersession list \<Rightarrow> bool" where
  "fresh_ids e rows \<longleftrightarrow> inj (new_id e) \<and> range (new_id e) \<inter> s_id ` set rows = {}"

lemma map_s_id_compressed:
  "map s_id (open_compressed e y via n rs) = map (new_id e) [n..<n + length rs]"
proof (induction rs arbitrary: n)
  case (Cons r rs)
  then show ?case by (subst upt_rec) (simp add: compressed_row_def)
qed simp

text \<open>A merge keeps the invariant; its transaction starts after everything recorded.\<close>

lemma merged_rows_ok:
  assumes ok: "rows_ok t rows" and m: "mergeable rows x y" and now: "t < now_of e"
    and fresh: "fresh_ids e rows"
  shows "rows_ok (now_of e) (merged_rows e rows x y cause dref)"
proof (rule rows_okI)
  let ?M = "merged_rows e rows x y cause dref" and ?C = "open_compressed e y (new_id e 0) 1 (filter (survives x) rows)"
  have hop: "one_hop rows" using ok by (simp add: rows_ok_def)
  have le: "u \<le> t" if "a \<in> set rows" "valid_to a = Some u" for a u
    using rows_okD(2) [OF ok] that by blast
  show unique: "r = r'" if "r \<in> set ?M" "r' \<in> set ?M" "is_open r" "is_open r'" "superseded_id r = superseded_id r'" for r r'
    using merged_open_unique [OF hop m] that by blast
  show "survivor_id r \<noteq> superseded_id r'" if "r \<in> set ?M" "r' \<in> set ?M" "is_open r" "is_open r'" for r r'
    using merged_one_hop [OF hop m] that by blast
  show "superseded_id r \<noteq> survivor_id r" if "r \<in> set ?M" for r
    using that by (cases rule: merged_rows_cases)
      (use rows_okD(1) [OF ok] m in \<open>auto simp: mergeable_def survives_def\<close>)
  show "u \<le> now_of e" if "r \<in> set ?M" "valid_to r = Some u" for r u
    using that(1) by (cases rule: merged_rows_cases) (use that(2) le now in \<open>force+\<close>)
  show "inj_on row_key (set ?M)"
  proof (rule inj_onI)
    fix r r'
    assume r: "r \<in> set ?M" and r': "r' \<in> set ?M" and key: "row_key r = row_key r'"
    then have same: "superseded_id r = superseded_id r'" "survivor_id r = survivor_id r'" "valid_to r = valid_to r'"
      by (simp_all add: row_key_def)
    show "r = r'"
    proof (cases "is_open r")
      case True
      then show ?thesis using unique [OF r r'] same by (auto simp: is_open_def)
    next
      case False
      have old: "a = b" if "a \<in> set rows" "b \<in> set rows" "survives x a" "survives x b" "superseded_id a = superseded_id b" for a b
        using one_hop_unique [OF hop] that by (auto simp: survives_def)
      from r show ?thesis
      proof (cases rule: merged_rows_cases)
        case k: kept
        from r' show ?thesis
          by (cases rule: merged_rows_cases)
            (use k key False same le [OF k(1)] now row_key_inj [OF ok] in \<open>force simp: is_open_def\<close>)+
      next
        case (closed r0)
        note c = this
        from r' show ?thesis
        proof (cases rule: merged_rows_cases)
          case kept
          with c same le [of r' "now_of e"] now show ?thesis by simp
        next
          case (closed r1)
          then have "r0 = r1" using c same by (intro old) auto
          with c closed show ?thesis by simp
        qed (use c same in auto)
      qed (use False in \<open>auto simp: is_open_def\<close>)
    qed
  qed
  have "map s_id ?M = map s_id rows @ map (new_id e) [0..<Suc (length (filter (survives x) rows))]"
    by (simp add: merged_rows_def close_survived_def open_supersession_def map_s_id_compressed
        upt_conv_Cons del: upt_Suc)
  moreover have "distinct (map s_id rows)" using ok by (simp add: rows_ok_def)
  moreover have "distinct (map (new_id e) [0..<Suc (length (filter (survives x) rows))])"
    using fresh by (simp add: fresh_ids_def distinct_map inj_on_subset [of _ UNIV] del: upt_Suc)
  ultimately show "distinct (map s_id ?M)"
    using fresh by (auto simp: fresh_ids_def simp del: upt_Suc)
qed

subsection \<open>The rows a revert leaves\<close>

text \<open>
  A revert closes its own row and the rows compressed by it, and re-opens the row each of those
  replaced.
\<close>

definition closes :: "nat \<Rightarrow> supersession \<Rightarrow> bool" where
  "closes s r \<longleftrightarrow> s_id r = s \<or> compressed_by s r"

definition compressed_pairs :: "nat \<Rightarrow> supersession list \<Rightarrow> (nat \<times> int) list" where
  "compressed_pairs s rows = map (\<lambda>r. (superseded_id r, valid_from r)) (filter (compressed_by s) rows)"

definition reverted_row :: "merge_env \<Rightarrow> nat \<Rightarrow> nat \<Rightarrow> supersession list \<Rightarrow> supersession \<Rightarrow> supersession" where
  "reverted_row e s x rows r =
     (if closes s r then r\<lparr>valid_to := Some (now_of e)\<rparr>
      else if predecessor x (compressed_pairs s rows) r then r\<lparr>valid_to := None\<rparr>
      else r)"

definition reopens :: "nat \<Rightarrow> nat \<Rightarrow> supersession list \<Rightarrow> supersession list" where
  "reopens s x rows = filter (\<lambda>r. \<not> closes s r \<and> predecessor x (compressed_pairs s rows) r) rows"

lemma unchain_eq:
  assumes hop: "one_hop rows" and row: "row \<in> set rows" "s_id row = s" "is_open row" "via_id row = None"
    and ids: "distinct (map s_id rows)" and x: "x = superseded_id row"
  shows "unchain e s x rows =
    (if length (reopens s x rows) = length (compressed_pairs s rows)
     then Inr (map (reverted_row e s x rows) rows, length (compressed_pairs s rows))
     else Inl (PredecessorMismatch s (length (compressed_pairs s rows)) (length (reopens s x rows))))"
proof -
  let ?cl = "\<lambda>r. if s_id r = s then r\<lparr>valid_to := Some (now_of e)\<rparr> else r"
  have own: "r = row" if "r \<in> set rows" "s_id r = s" for r
    using ids row that by (auto simp: distinct_map dest: inj_onD)
  have same: "compressed_by s (?cl r) = compressed_by s r \<and> (compressed_by s r \<longrightarrow> ?cl r = r)" if "r \<in> set rows" for r
    using own [OF that] row(4) by (auto simp: compressed_by_def)
  have pairs: "map (\<lambda>r. (superseded_id r, valid_from r)) (filter (compressed_by s) (close_row e s rows))
      = compressed_pairs s rows"
    using same unfolding close_row_def compressed_pairs_def by (induction rows) auto
  have notpred: "\<not> predecessor (superseded_id row) (compressed_pairs s rows) (r\<lparr>valid_to := v\<rparr>)"
    if "r \<in> set rows" "closes s r" for r v
    using that one_hopD [OF hop that(1) row(1) _ row(3)] own [OF that(1)] one_hopD [OF hop row(1) row(1) row(3) row(3)]
    by (auto simp: predecessor_def closes_def compressed_by_def)
  have closed: "close_compressed e s (close_row e s rows)
      = map (\<lambda>r. if closes s r then r\<lparr>valid_to := Some (now_of e)\<rparr> else r) rows"
    using same by (auto simp: close_compressed_def close_row_def closes_def)
  have reopened: "reopen_predecessors (superseded_id row) (compressed_pairs s rows)
        (map (\<lambda>r. if closes s r then r\<lparr>valid_to := Some (now_of e)\<rparr> else r) rows)
      = map (reverted_row e s (superseded_id row) rows) rows"
    using notpred by (auto simp: reopen_predecessors_def reverted_row_def)
  have none: "map (reverted_row e s (superseded_id row) rows) rows
      = map (\<lambda>r. if closes s r then r\<lparr>valid_to := Some (now_of e)\<rparr> else r) rows"
    if "compressed_pairs s rows = []"
    using that by (simp add: reverted_row_def predecessor_def)
  have count: "length (filter (predecessor x (compressed_pairs s rows))
        (map (\<lambda>r. if closes s r then r\<lparr>valid_to := Some (now_of e)\<rparr> else r) rows)) = length (reopens s x rows)"
    using notpred unfolding reopens_def x filter_map length_map comp_def
    by (intro arg_cong [where f = length] filter_cong) auto
  have empty: "reopens s x rows = []" if "compressed_pairs s rows = []"
    using that by (auto simp: reopens_def filter_empty_conv predecessor_def)
  show ?thesis
    unfolding unchain_def Let_def pairs closed count using none empty reopened by (auto simp: x)
qed

lemma reverted_row_fields [simp]:
  "s_id (reverted_row e s x rows r) = s_id r"
  "superseded_id (reverted_row e s x rows r) = superseded_id r"
  "survivor_id (reverted_row e s x rows r) = survivor_id r"
  "via_id (reverted_row e s x rows r) = via_id r"
  by (simp_all add: reverted_row_def)

text \<open>
  After a revert, an open row is an old one the revert does not close, or a re-opened
  predecessor; the latter stands for an open row that was compressed.
\<close>

lemma reverted_open_cases:
  assumes "is_open (reverted_row e s x rows r)" "r \<in> set rows"
  obtains (kept) "is_open r" "\<not> closes s r"
  | (reopened) c where "c \<in> set rows" "compressed_by s c" "superseded_id c = superseded_id r"
      "survivor_id r = x" "valid_to r = Some (valid_from c)" "\<not> closes s r"
  using assms
  by (auto simp: reverted_row_def is_open_def predecessor_def compressed_pairs_def split: if_splits)

lemma reverted_rows_ok:
  assumes ok: "rows_ok t rows" and now: "t < now_of e"
    and row: "row \<in> set rows" "s_id row = s" "is_open row" "via_id row = None"
  shows "rows_ok (now_of e) (map (reverted_row e s (superseded_id row) rows) rows)"
proof (rule rows_okI)
  let ?g = "reverted_row e s (superseded_id row) rows"
  have hop: "one_hop rows" and ids: "distinct (map s_id rows)" using ok by (simp_all add: rows_ok_def)
  have own: "r = row" if "r \<in> set rows" "s_id r = s" for r
    using ids row that by (auto simp: distinct_map dest: inj_onD)
  have closes_open: "is_open r" if "r \<in> set rows" "closes s r" for r
    using that own [OF that(1)] row(3) by (auto simp: closes_def compressed_by_def)
  have old: "a = b" if "a \<in> set rows" "b \<in> set rows" "is_open a" "is_open b" "superseded_id a = superseded_id b" for a b
    using one_hop_unique [OF hop] that by blast
  have le: "u \<le> t" if "a \<in> set rows" "valid_to a = Some u" for a u
    using rows_okD(2) [OF ok] that by blast
  have keyinj: "a = b" if "a \<in> set rows" "b \<in> set rows" "row_key a = row_key b" for a b
    using row_key_inj [OF ok] that by blast
  have unique: "r = r'" if r: "r \<in> set rows" "is_open (?g r)" and r': "r' \<in> set rows" "is_open (?g r')"
    and eq: "superseded_id r = superseded_id r'" for r r'
    using r(2,1)
  proof (cases rule: reverted_open_cases)
    case k: kept
    from r'(2,1) show ?thesis
    proof (cases rule: reverted_open_cases)
      case (reopened c)
      then have "c = r" using k r(1) eq by (intro old) (auto simp: compressed_by_def)
      with k reopened show ?thesis by (simp add: closes_def)
    qed (use k r r' eq old in auto)
  next
    case (reopened c)
    note c = this
    from r'(2,1) show ?thesis
    proof (cases rule: reverted_open_cases)
      case kept
      then have "c = r'" using c r'(1) eq by (intro old) (auto simp: compressed_by_def)
      with kept c show ?thesis by (simp add: closes_def)
    next
      case (reopened c')
      then have "c = c'" using c eq by (intro old) (auto simp: compressed_by_def)
      with c reopened r r' eq show ?thesis by (intro keyinj) (auto simp: row_key_def)
    qed
  qed
  then show "a = b" if ab: "a \<in> set (map ?g rows)" "b \<in> set (map ?g rows)" "is_open a" "is_open b" "superseded_id a = superseded_id b" for a b
  proof -
    obtain r r' where "a = ?g r" "r \<in> set rows" "b = ?g r'" "r' \<in> set rows" using ab(1,2) by auto
    with unique [of r r'] ab(3-) show ?thesis by simp
  qed
  show "survivor_id a \<noteq> superseded_id b"
    if ab: "a \<in> set (map ?g rows)" "b \<in> set (map ?g rows)" "is_open a" "is_open b" for a b
  proof -
    obtain r r' where r: "a = ?g r" "r \<in> set rows" and r': "b = ?g r'" "r' \<in> set rows" using ab(1,2) by auto
    obtain q where q: "q \<in> set rows" "is_open q" "superseded_id q = superseded_id r'" "q = r' \<or> compressed_by s q" "q \<noteq> row"
      using ab(4)[unfolded r'(1)] r'(2)
    proof (cases rule: reverted_open_cases)
      case kept
      then have "r' \<noteq> row" using row(2) by (auto simp: closes_def)
      with kept r' that [of r'] show thesis by blast
    next
      case (reopened c)
      then have "c \<noteq> row" using row(4) by (auto simp: compressed_by_def)
      with reopened that [of c] show thesis by (auto simp: compressed_by_def)
    qed
    have "survivor_id r \<noteq> superseded_id q"
      using ab(3)[unfolded r(1)] r(2)
    proof (cases rule: reverted_open_cases)
      case kept
      with one_hopD [OF hop r(2) q(1)] q show ?thesis by blast
    next
      case (reopened c)
      then show ?thesis using old [OF q(1) row(1) q(2) row(3)] q(5) by auto
    qed
    with q r r' show ?thesis by simp
  qed
  show "superseded_id a \<noteq> survivor_id a" if "a \<in> set (map ?g rows)" for a
    using that rows_okD(1) [OF ok] by auto
  show "u \<le> now_of e" if "a \<in> set (map ?g rows)" "valid_to a = Some u" for a u
    using that le now by (fastforce simp: reverted_row_def split: if_splits)
  show "inj_on row_key (set (map ?g rows))"
  proof (rule inj_onI)
    fix a b
    assume ab: "a \<in> set (map ?g rows)" "b \<in> set (map ?g rows)" and key: "row_key a = row_key b"
    obtain r r' where r: "a = ?g r" "r \<in> set rows" and r': "b = ?g r'" "r' \<in> set rows" using ab(1,2) by auto
    from key have same: "superseded_id r = superseded_id r'" "survivor_id r = survivor_id r'"
      "valid_to (?g r) = valid_to (?g r')" using r r' by (simp_all add: row_key_def)
    show "a = b"
    proof (cases "is_open (?g r)")
      case True
      then have "is_open (?g r')" using same by (simp add: is_open_def)
      with unique [OF r(2) True r'(2)] same r r' show ?thesis by simp
    next
      case False
      have closed_now: "closes s c \<longleftrightarrow> valid_to (?g c) = Some (now_of e)" if "c \<in> set rows" "\<not> is_open (?g c)" for c
        using le [OF that(1), of "now_of e"] that(2) now by (auto simp: reverted_row_def is_open_def split: if_splits)
      have iff: "closes s r \<longleftrightarrow> closes s r'"
        using closed_now r r' False same by (auto simp: is_open_def)
      have "r = r'"
      proof (cases "closes s r")
        case True
        then show ?thesis using iff r r' same by (intro old closes_open) auto
      next
        case nc: False
        have "valid_to (?g c) = valid_to c" if "\<not> is_open (?g c)" "\<not> closes s c" for c
          using that by (auto simp: reverted_row_def is_open_def)
        then have "valid_to r = valid_to r'" using nc iff False same by (simp add: is_open_def)
        then show ?thesis using same r r' by (intro keyinj) (auto simp: row_key_def)
      qed
      with r r' show ?thesis by simp
    qed
  qed
  show "distinct (map s_id (map ?g rows))" using ids by (simp add: comp_def)
qed

section \<open>Histories\<close>

text \<open>
  One transaction of a caller: lock the pair, check it, merge; or revert.  Its time and its
  generated identifiers come with it.
\<close>

datatype merge_op = Merge nat nat string nat | Revert nat

fun run_op :: "merge_env \<times> merge_op \<Rightarrow> db \<Rightarrow> (merge_error, db \<times> nat) result" where
  "run_op (e, Merge x y cause r) d =
     (case lock_items d x y False of
        Inl err \<Rightarrow> Inl err
      | Inr kind \<Rightarrow>
          (case current_supersession d x y of
             Inl err \<Rightarrow> Inl err
           | Inr ex \<Rightarrow>
               (case merge_items e d x y kind cause r ex of
                  Inl err \<Rightarrow> Inl err
                | Inr (d', out) \<Rightarrow> Inr (d', mo_supersession out))))"
| "run_op (e, Revert s) d =
     (case revert_supersession e d s of
        Inl err \<Rightarrow> Inl err
      | Inr (d', out) \<Rightarrow> Inr (d', ro_supersession out))"

definition op_ready :: "merge_env \<times> merge_op \<Rightarrow> db \<Rightarrow> bool" where
  "op_ready k d \<longleftrightarrow> fresh_ids (fst k) (supersessions d)"

definition op_start :: "merge_env \<times> merge_op \<Rightarrow> int" where
  "op_start k = now_of (fst k)"

definition db_ok :: "int \<Rightarrow> db \<Rightarrow> bool" where
  "db_ok t d \<longleftrightarrow> rows_ok t (supersessions d)"

lemma lock_items_distinct: "lock_items d x y b = Inr kind \<Longrightarrow> x \<noteq> y"
  by (auto simp: lock_items_def)

lemma merge_supersessions:
  assumes "merge_items e d x y kind cause r ex = Inr (d', out)" "x \<noteq> y"
  shows "supersessions d' =
    (if ex = None then merged_rows e (supersessions d) x y cause r else supersessions d)"
  using assms(1)
proof (cases rule: merge_itemsE)
  case (1 cs)
  then show ?thesis
    using assms(2) by (cases ex) (simp_all add: supersede_rows, simp add: supersede_def)
qed

lemma merge_keeps:
  assumes "db_ok t d" "t < now_of e" "fresh_ids e (supersessions d)" "x \<noteq> y"
    "current_supersession d x y = Inr ex" "merge_items e d x y kind cause r ex = Inr (d', out)"
  shows "db_ok (now_of e) d'"
proof (cases ex)
  case None
  then show ?thesis
    using merged_rows_ok [OF _ mergeableI] assms merge_supersessions [OF assms(6,4)] by (simp add: db_ok_def)
next
  case (Some s)
  then show ?thesis
    using assms merge_supersessions [OF assms(6,4)] by (auto simp: db_ok_def intro: rows_ok_later)
qed

lemma find_supersessionD: "find_supersession d s = Some row \<Longrightarrow> row \<in> set (supersessions d) \<and> s_id row = s"
  by (auto simp: find_supersession_def dest: find_SomeD)

lemma revert_keeps:
  assumes "db_ok t d" "t < now_of e" "revert_supersession e d s = Inr (d', out)"
  shows "db_ok (now_of e) d'"
  using assms(3)
proof (cases rule: revert_supersessionE)
  case (1 row kind cs rows n)
  note row = find_supersessionD [OF 1(1)]
  have "rows = map (reverted_row e s (superseded_id row) (supersessions d)) (supersessions d)"
    using assms(1) row 1 unchain_eq [of "supersessions d" row s "superseded_id row" e]
    by (auto simp: db_ok_def rows_ok_def split: if_splits)
  with 1 row show ?thesis
    using assms reverted_rows_ok [of t "supersessions d" e row s] by (simp add: db_ok_def)
qed

interpretation merging: transaction run_op op_ready op_start db_ok
proof unfold_locales
  fix t d k d' out
  assume ok: "db_ok t d" "op_ready k d" "t < op_start k" and run: "run_op k d = Inr (d', out)"
  obtain e op where k: "k = (e, op)" by force
  show "db_ok (op_start k) d'"
  proof (cases op)
    case (Merge x y cause r)
    then show ?thesis
      using ok run k by (auto simp: op_ready_def op_start_def split: sum.splits
          intro: merge_keeps dest: lock_items_distinct)
  next
    case (Revert s)
    then show ?thesis
      using ok run k by (auto simp: op_ready_def op_start_def split: sum.splits intro: revert_keeps)
  qed
next
  show "db_ok t d \<Longrightarrow> t \<le> t' \<Longrightarrow> db_ok t' d" for t t' d
    by (simp add: db_ok_def rows_ok_later)
qed

lemma resolves_open:
  assumes "one_hop (supersessions d)" "r \<in> set (supersessions d)" "is_open r"
  shows "resolves d (superseded_id r) = survivor_id r"
proof -
  have "find (\<lambda>q. superseded_id q = superseded_id r \<and> is_open q) (supersessions d) = Some r"
    using assms by (intro find_unique) (auto intro: one_hop_unique)
  then show ?thesis by (simp add: resolves_def)
qed

lemma resolves_self:
  assumes "\<And>r. r \<in> set (supersessions d) \<Longrightarrow> is_open r \<Longrightarrow> superseded_id r \<noteq> i"
  shows "resolves d i = i"
proof -
  have "find (\<lambda>r. superseded_id r = i \<and> is_open r) (supersessions d) = None"
    using assms by (auto simp: find_None_iff)
  then show ?thesis by (simp add: resolves_def)
qed

lemma resolves_cases:
  obtains (self) "resolves d i = i" "\<And>r. r \<in> set (supersessions d) \<Longrightarrow> is_open r \<Longrightarrow> superseded_id r \<noteq> i"
  | (superseded) r where "r \<in> set (supersessions d)" "is_open r" "superseded_id r = i" "resolves d i = survivor_id r"
proof (cases "find (\<lambda>r. superseded_id r = i \<and> is_open r) (supersessions d)")
  case None
  then have "resolves d i = i" by (simp add: resolves_def)
  with None show thesis by (intro self) (auto simp: find_None_iff)
next
  case (Some r)
  then show thesis using find_SomeD [OF Some] by (intro superseded [of r]) (simp_all add: resolves_def)
qed

lemma resolves_idem:
  assumes "one_hop (supersessions d)"
  shows "resolves d (resolves d i) = resolves d i"
proof (cases d i rule: resolves_cases)
  case (superseded r)
  have "resolves d (survivor_id r) = survivor_id r"
  proof (rule resolves_self)
    fix q
    assume "q \<in> set (supersessions d)" "is_open q"
    with one_hopD [OF assms superseded(1)] superseded(2) show "superseded_id q \<noteq> survivor_id r" by metis
  qed
  with superseded show ?thesis by simp
qed simp

text \<open>
  C9.  Resolution is always one hop.  Start from a database with no supersessions and run any
  sequence of merges and reverts, each in its own transaction (an operation that raises is
  rolled back), each starting later than the one before, with identifiers the server has not
  used: then every catalog item has at most one current supersession, no current survivor is
  itself currently superseded, and resolving an item twice is resolving it once.
\<close>

theorem history_resolves_in_one_hop:
  assumes "supersessions d = []"
    and "run_ready run_op op_ready ops d"
    and "sorted_wrt (<) (map op_start ops)"
  shows "one_hop (supersessions (commits run_op ops d))
    \<and> resolves (commits run_op ops d) (resolves (commits run_op ops d) i)
         = resolves (commits run_op ops d) i"
proof -
  let ?t = "case ops of [] \<Rightarrow> 0 | k # ks \<Rightarrow> op_start k - 1"
  have "db_ok ?t d" using assms(1) by (simp add: db_ok_def rows_ok_def one_hop_def)
  moreover have "sorted_wrt (<) (?t # map op_start ops)"
    using assms(3) by (cases ops) force+
  ultimately have "db_ok (last (?t # map op_start ops)) (commits run_op ops d)"
    using assms(2) by (intro merging.commits_keep)
  then have hop: "one_hop (supersessions (commits run_op ops d))" by (simp add: db_ok_def rows_ok_def)
  with resolves_idem [OF hop] show ?thesis by blast
qed

text \<open>
  A small catalog for the witnesses: four releases; an artifact on item 1, one on item 2, an owned
  copy on item 1; Discogs release 7 still cached on item 1 while its alias names item 2.
\<close>

definition ex_env :: "int \<Rightarrow> nat \<Rightarrow> merge_env" where
  "ex_env t n = \<lparr>now_of = t, new_id = (\<lambda>i. n + i)\<rparr>"

definition ex_db :: db where
  "ex_db = \<lparr>catalog_items = [(1, ''release''), (2, ''release''), (3, ''release''), (4, ''master'')], observations = [],
     supersessions = [],
     asserted = (\<lambda>t. if t = ''artifacts'' then [\<lparr>row_id = 11, item_id = 1, row_owner = Some 70, row_data = ''a''\<rparr>,
                                                \<lparr>row_id = 12, item_id = 2, row_owner = None, row_data = ''b''\<rparr>]
                     else if t = ''owned_copies'' then [\<lparr>row_id = 11, item_id = 1, row_owner = Some 71, row_data = ''c''\<rparr>]
                     else []),
     moves = [],
     cached = (\<lambda>t. if t = ''public.releases'' then [\<lparr>cr_key = ''7'', gm_item_id = Some 1, cr_discogs = None\<rparr>] else []),
     aliases = [\<lparr>al_provider = ''discogs'', al_kind = ''release'', al_external = ''7'', native_id = 2,
                 al_source = ''catalog'', al_confidence = 100, al_from = 0, al_to = None\<rparr>]\<rparr>"

definition ex_merge :: "nat \<Rightarrow> nat \<Rightarrow> merge_op" where
  "ex_merge x y = Merge x y ''catalog_reattachment'' 900"

lemmas ex_simps = ex_env_def ex_db_def ex_merge_def

lemma fresh_ex_env: "fresh_ids (ex_env t n) rows \<longleftrightarrow> (\<forall>r \<in> set rows. s_id r < n)"
proof -
  have "inj (new_id (ex_env t n))" by (auto simp: ex_env_def inj_def)
  moreover have "range (new_id (ex_env t n)) = {n..}"
    by (auto simp: ex_env_def image_def) presburger
  ultimately show ?thesis by (auto simp: fresh_ids_def not_le [symmetric])
qed

theorem history_resolves_in_one_hop_witness:
  "let ops = [(ex_env 10 100, ex_merge 1 2), (ex_env 20 200, ex_merge 2 3)];
       d = commits run_op ops ex_db
   in one_hop (supersessions d) \<and> resolves d (resolves d 1) = resolves d 1
      \<and> resolves d 1 = 3 \<and> length (supersessions d) = 3"
proof -
  let ?ops = "[(ex_env 10 100, ex_merge 1 2), (ex_env 20 200, ex_merge 2 3)]"
  have ready: "run_ready run_op op_ready ?ops ex_db"
    by (simp add: op_ready_def fresh_ex_env, code_simp)
  have "sorted_wrt (<) (map op_start ?ops)" by (simp add: op_start_def ex_env_def)
  moreover have "supersessions ex_db = []" by (simp add: ex_db_def)
  moreover have "resolves (commits run_op ?ops ex_db) 1 = 3" "length (supersessions (commits run_op ?ops ex_db)) = 3"
    by code_simp+
  ultimately show ?thesis
    using history_resolves_in_one_hop [of ex_db ?ops 1] ready unfolding Let_def by blast
qed

section \<open>What a merge redirects\<close>

lemma merged_rows_own: "open_supersession e x y cause r \<in> set (merged_rows e rows x y cause r)"
  by (simp add: merged_rows_def)

lemma merged_rows_kept: "q \<in> set rows \<Longrightarrow> \<not> survives x q \<Longrightarrow> q \<in> set (merged_rows e rows x y cause r)"
  by (force simp: merged_rows_def close_survived_def)

lemma merged_rows_compressed:
  assumes "q \<in> set rows" "survives x q"
  obtains c where "c \<in> set (merged_rows e rows x y cause r)" "is_open c" "superseded_id c = superseded_id q" "survivor_id c = y"
proof -
  let ?C = "open_compressed e y (new_id e 0) 1 (filter (survives x) rows)"
  have "superseded_id q \<in> set (map superseded_id ?C)"
    using assms unfolding open_compressed_superseded by auto
  then obtain c where "c \<in> set ?C" "superseded_id c = superseded_id q"
    unfolding set_map by (metis imageE)
  with open_compressedD [OF this(1)] show thesis
    by (intro that [of c]) (auto simp: merged_rows_def is_open_def)
qed

lemma merged_resolves:
  assumes hop: "one_hop (supersessions d)" and m: "mergeable (supersessions d) x y"
    and hop': "one_hop (supersessions d')"
    and rows: "supersessions d' = merged_rows e (supersessions d) x y cause r"
  shows "resolves d' i = (if resolves d i = x then y else resolves d i)"
proof (cases d i rule: resolves_cases)
  case self
  show ?thesis
  proof (cases "i = x")
    case True
    have "resolves d' (superseded_id (open_supersession e x y cause r)) = survivor_id (open_supersession e x y cause r)"
      by (rule resolves_open [OF hop']) (auto simp: rows merged_rows_own, simp add: open_supersession_def is_open_def)
    with True self(1) show ?thesis by (simp add: open_supersession_def)
  next
    case False
    have "resolves d' i = i"
    proof (rule resolves_self)
      fix q
      assume q: "q \<in> set (supersessions d')" "is_open q"
      from q [unfolded rows] show "superseded_id q \<noteq> i"
        by (cases rule: merged_open_cases) (use False self(2) q in auto)
    qed
    with False self(1) show ?thesis by simp
  qed
next
  case (superseded q)
  show ?thesis
  proof (cases "survives x q")
    case True
    then obtain c where "c \<in> set (supersessions d')" "is_open c" "superseded_id c = superseded_id q" "survivor_id c = y"
      using superseded(1) merged_rows_compressed unfolding rows by metis
    with resolves_open [OF hop', of c] superseded True show ?thesis by (auto simp: survives_def)
  next
    case False
    then have "q \<in> set (supersessions d')" using superseded(1) unfolding rows by (rule merged_rows_kept [rotated])
    with resolves_open [OF hop', of q] superseded False show ?thesis by (auto simp: survives_def)
  qed
qed

lemma merge_redirects_lib:
  assumes "db_ok t d" "t < now_of e" "fresh_ids e (supersessions d)"
    and "lock_items d x y False = Inr kind" "current_supersession d x y = Inr ex"
    and merge: "merge_items e d x y kind cause r ex = Inr (d', out)"
  shows "resolves d' i = (if resolves d i = x then y else resolves d i) \<and> resolves d' x = y"
proof -
  have xy: "x \<noteq> y" by (rule lock_items_distinct [OF assms(4)])
  have hop: "one_hop (supersessions d)" using assms(1) by (simp add: db_ok_def rows_ok_def)
  have hop': "one_hop (supersessions d')"
    using merge_keeps [OF assms(1-3) xy assms(5,6)] by (simp add: db_ok_def rows_ok_def)
  note rows = merge_supersessions [OF merge xy]
  show ?thesis
  proof (cases ex)
    case None
    have m: "mergeable (supersessions d) x y" using None assms(5) xy by (simp add: mergeableI)
    have eq: "resolves d' i = (if resolves d i = x then y else resolves d i)" for i
      by (rule merged_resolves [OF hop m hop']) (use rows None in simp)
    moreover have "resolves d x = x"
      using m by (intro resolves_self) (auto simp: mergeable_def)
    ultimately show ?thesis using eq [of x] by simp
  next
    case (Some s)
    then have same: "resolves d' = resolves d" using rows by (auto simp: resolves_def)
    obtain q where q: "q \<in> set (supersessions d)" "is_open q" "superseded_id q = x" "survivor_id q = y"
      using current_supersessionE(3) [OF assms(5) Some] by blast
    have "resolves d x = y" using resolves_open [OF hop q(1,2)] q by simp
    moreover have "resolves d i \<noteq> x"
    proof (cases d i rule: resolves_cases)
      case self
      then show ?thesis using q by auto
    next
      case (superseded p)
      then show ?thesis using one_hopD [OF hop superseded(1) q(1)] q by auto
    qed
    ultimately show ?thesis using same by simp
  qed
qed

text \<open>
  C10.  A merge redirects exactly what resolved to the superseded item.  For a pair that passed
  the locks and the check, an item that resolved to the superseded item resolves to the survivor
  after the merge, chains included, and every other item resolves as before; the superseded item
  itself then resolves to the survivor.  This holds whether the merge opens the supersession or
  adds to the one already open.
\<close>

theorem merge_redirects:
  assumes "db_ok t d" "t < now_of e" "fresh_ids e (supersessions d)"
    and "lock_items d x y False = Inr kind" "current_supersession d x y = Inr ex"
    and "merge_items e d x y kind cause r ex = Inr (d', out)"
  shows "resolves d' i = (if resolves d i = x then y else resolves d i) \<and> resolves d' x = y"
  using merge_redirects_lib [OF assms] .

theorem merge_redirects_witness:
  "let d = commits run_op [(ex_env 10 100, ex_merge 1 2)] ex_db in
   \<exists>d' out. merge_items (ex_env 20 200) d 2 3 ''release'' ''catalog_reattachment'' 900 None = Inr (d', out)
     \<and> resolves d 1 = 2 \<and> resolves d' 1 = 3 \<and> resolves d' 2 = 3"
proof -
  let ?d = "commits run_op [(ex_env 10 100, ex_merge 1 2)] ex_db"
  have ok: "db_ok 15 ?d" "15 < now_of (ex_env 20 200)" "fresh_ids (ex_env 20 200) (supersessions ?d)"
    "lock_items ?d 2 3 False = Inr ''release''" "current_supersession ?d 2 3 = Inr None" "resolves ?d 1 = 2"
    unfolding fresh_ex_env by code_simp+
  have "case merge_items (ex_env 20 200) ?d 2 3 ''release'' ''catalog_reattachment'' 900 None of Inl e \<Rightarrow> False | Inr z \<Rightarrow> True"
    by code_simp
  then obtain d' out where m: "merge_items (ex_env 20 200) ?d 2 3 ''release'' ''catalog_reattachment'' 900 None = Inr (d', out)"
    by (auto split: sum.splits)
  from merge_redirects [OF ok(1-5) m, of 1] ok(6) m show ?thesis unfolding Let_def by auto
qed

section \<open>What a merge moves\<close>

lemma ledger_insert_extends:
  "\<exists>new. foldl ledger_insert ms mvs = ms @ new \<and> set new \<subseteq> set mvs"
proof (induction mvs arbitrary: ms)
  case (Cons mv mvs)
  from Cons.IH [of "ledger_insert ms mv"] obtain new where
    "foldl ledger_insert (ledger_insert ms mv) mvs = ledger_insert ms mv @ new" "set new \<subseteq> set mvs" by blast
  then show ?case
    by (intro exI [of _ "(if ledger_key mv \<in> ledger_key ` set ms then [] else [mv]) @ new"])
      (auto simp: ledger_insert_def [of ms mv])
qed simp

lemma ledger_insert_keys:
  "ledger_key ` set (foldl ledger_insert ms mvs) = ledger_key ` set ms \<union> ledger_key ` set mvs"
proof (induction mvs arbitrary: ms)
  case (Cons mv mvs)
  have "ledger_key ` set (ledger_insert ms mv) = insert (ledger_key mv) (ledger_key ` set ms)"
    by (auto simp: ledger_insert_def)
  with Cons.IH [of "ledger_insert ms mv"] show ?case by simp
qed simp

lemma repoint_tables_asserted:
  "distinct ts \<Longrightarrow> asserted (fst (repoint_tables e s x y ts d)) t
     = (if t \<in> set ts then map (repoint_row x y) (asserted d t) else asserted d t)"
proof (induction ts arbitrary: d)
  case (Cons u ts)
  have "asserted (fst (repoint e s x y u d)) t = (if t = u then map (repoint_row x y) (asserted d t) else asserted d t)"
    by (simp add: repoint_def Let_def)
  with Cons show ?case by (auto simp: split_beta Let_def)
qed simp

lemma repoint_tables_counts:
  "distinct ts \<Longrightarrow> snd (repoint_tables e s x y ts d)
     = map (\<lambda>t. (t, length (filter (\<lambda>row. item_id row = x) (asserted d t)))) ts"
proof (induction ts arbitrary: d)
  case (Cons t ts)
  have "asserted (fst (repoint e s x y t d)) u = asserted d u" if "u \<in> set ts" for u
    using Cons.prems that by (auto simp: repoint_def Let_def)
  with Cons show ?case by (simp add: split_beta Let_def repoint_def)
qed simp

text \<open>The moves a merge means to record: one per dependent row of a moved table.\<close>

definition dependents_of :: "merge_env \<Rightarrow> nat \<Rightarrow> nat \<Rightarrow> nat \<Rightarrow> string list \<Rightarrow> db \<Rightarrow> catalog_move list" where
  "dependents_of e s x y ts d =
     concat (map (\<lambda>t. map (ledger_entry e s x y t) (filter (\<lambda>row. item_id row = x) (asserted d t))) ts)"

lemma repoint_tables_moves:
  "distinct ts \<Longrightarrow> moves (fst (repoint_tables e s x y ts d))
     = foldl ledger_insert (moves d) (dependents_of e s x y ts d)"
proof (induction ts arbitrary: d)
  case (Cons t ts)
  have "asserted (fst (repoint e s x y t d)) u = asserted d u" if "u \<in> set ts" for u
    using Cons.prems that by (auto simp: repoint_def Let_def)
  then have "dependents_of e s x y ts (fst (repoint e s x y t d)) = dependents_of e s x y ts d"
    by (simp add: dependents_of_def cong: map_cong)
  with Cons show ?case by (simp add: split_beta Let_def) (simp add: repoint_def dependents_of_def Let_def)
qed (simp add: dependents_of_def)

lemma moved_tables_distinct [simp]: "distinct (dict_keys MOVED_TABLES)"
  by (simp add: MOVED_TABLES_def)

lemma merge_tables:
  assumes "merge_items e d x y kind cause r ex = Inr (d', out)"
  shows "asserted d' t = (if t \<in> set (dict_keys MOVED_TABLES) then map (repoint_row x y) (asserted d t) else asserted d t)"
    "moves d' = foldl ledger_insert (moves d) (dependents_of e (mo_supersession out) x y (dict_keys MOVED_TABLES) d)"
    "mo_moved out = map (\<lambda>t. (t, length (filter (\<lambda>row. item_id row = x) (asserted d t)))) (dict_keys MOVED_TABLES)"
    "catalog_items d' = catalog_items d" "aliases d' = aliases d"
proof -
  from assms show "asserted d' t = (if t \<in> set (dict_keys MOVED_TABLES) then map (repoint_row x y) (asserted d t) else asserted d t)"
    by (cases rule: merge_itemsE) (simp add: repoint_tables_asserted)
  from assms show "moves d' = foldl ledger_insert (moves d) (dependents_of e (mo_supersession out) x y (dict_keys MOVED_TABLES) d)"
    by (cases rule: merge_itemsE) (simp add: repoint_tables_moves dependents_of_def)
  from assms show "mo_moved out = map (\<lambda>t. (t, length (filter (\<lambda>row. item_id row = x) (asserted d t)))) (dict_keys MOVED_TABLES)"
    by (cases rule: merge_itemsE) (simp add: repoint_tables_counts)
  from assms show "catalog_items d' = catalog_items d" "aliases d' = aliases d"
    by (cases rule: merge_itemsE, simp)+
qed

text \<open>
  C11.  A merge moves and ledgers exactly the dependents.  After a merge the artifacts and the
  owned copies are the same rows in the same order, differing only in that a row on the
  superseded item now names the survivor (no row is added or deleted, and no owner or other
  column is written); no other asserted table and no catalog item changes.  The reported counts
  are the numbers of rows moved.  The ledger keeps every earlier entry, names every moved row
  under this supersession, and any entry it gains is the entry of a row that moved, with that
  row's owner.
\<close>

theorem merge_moves_dependents:
  assumes "merge_items e d x y kind cause r ex = Inr (d', out)"
  shows "(\<forall>t. asserted d' t =
            (if t \<in> {''artifacts'', ''owned_copies''}
             then map (\<lambda>row. if item_id row = x then row\<lparr>item_id := y\<rparr> else row) (asserted d t)
             else asserted d t))
    \<and> catalog_items d' = catalog_items d
    \<and> mo_moved out = [(''artifacts'', length (filter (\<lambda>row. item_id row = x) (asserted d ''artifacts''))),
                      (''owned_copies'', length (filter (\<lambda>row. item_id row = x) (asserted d ''owned_copies'')))]
    \<and> (\<forall>t \<in> {''artifacts'', ''owned_copies''}. \<forall>row \<in> set (asserted d t). item_id row = x \<longrightarrow>
         (mo_supersession out, t, row_id row) \<in> ledger_key ` set (moves d'))
    \<and> (\<exists>new. moves d' = moves d @ new
         \<and> (\<forall>mv \<in> set new. \<exists>t \<in> {''artifacts'', ''owned_copies''}. \<exists>row \<in> set (asserted d t).
              item_id row = x \<and> mv = ledger_entry e (mo_supersession out) x y t row))"
proof -
  have tables: "dict_keys MOVED_TABLES = [''artifacts'', ''owned_copies'']" by (simp add: MOVED_TABLES_def)
  note m = merge_tables [OF assms, unfolded tables]
  let ?D = "dependents_of e (mo_supersession out) x y [''artifacts'', ''owned_copies''] d"
  have keys: "(mo_supersession out, t, row_id row) \<in> ledger_key ` set (moves d')"
    if "t \<in> {''artifacts'', ''owned_copies''}" "row \<in> set (asserted d t)" "item_id row = x" for t row
  proof -
    have "ledger_entry e (mo_supersession out) x y t row \<in> set ?D" using that by (auto simp: dependents_of_def)
    then have "ledger_key (ledger_entry e (mo_supersession out) x y t row) \<in> ledger_key ` set (moves d')"
      unfolding m(2) ledger_insert_keys by blast
    then show ?thesis by (simp add: ledger_key_def ledger_entry_def)
  qed
  have new: "\<exists>new. moves d' = moves d @ new
         \<and> (\<forall>mv \<in> set new. \<exists>t \<in> {''artifacts'', ''owned_copies''}. \<exists>row \<in> set (asserted d t).
              item_id row = x \<and> mv = ledger_entry e (mo_supersession out) x y t row)"
  proof -
    obtain new where "moves d' = moves d @ new" "set new \<subseteq> set ?D"
      using ledger_insert_extends m(2) by metis
    then show ?thesis by (intro exI [of _ new]) (auto simp: dependents_of_def)
  qed
  have rows: "asserted d' t = (if t \<in> {''artifacts'', ''owned_copies''}
      then map (\<lambda>row. if item_id row = x then row\<lparr>item_id := y\<rparr> else row) (asserted d t) else asserted d t)" for t
    using m(1) [of t] by (simp add: repoint_row_def [abs_def])
  show ?thesis
  proof (intro conjI)
    show "catalog_items d' = catalog_items d" by (rule m(4))
    show "mo_moved out = [(''artifacts'', length (filter (\<lambda>row. item_id row = x) (asserted d ''artifacts''))),
                      (''owned_copies'', length (filter (\<lambda>row. item_id row = x) (asserted d ''owned_copies'')))]"
      using m(3) by simp
  qed (use rows keys new in blast)+
qed

theorem merge_moves_dependents_witness:
  "\<exists>d' out. merge_items (ex_env 20 200) ex_db 1 3 ''release'' ''catalog_reattachment'' 900 None = Inr (d', out)
     \<and> map item_id (asserted d' ''artifacts'') = [3, 2]
     \<and> mo_moved out = [(''artifacts'', 1), (''owned_copies'', 1)]"
proof -
  have "case merge_items (ex_env 20 200) ex_db 1 3 ''release'' ''catalog_reattachment'' 900 None of Inl e \<Rightarrow> False | Inr z \<Rightarrow> True"
    by code_simp
  then obtain d' out where m: "merge_items (ex_env 20 200) ex_db 1 3 ''release'' ''catalog_reattachment'' 900 None = Inr (d', out)"
    by (auto split: sum.splits)
  from merge_moves_dependents [OF m] m show ?thesis
    by (intro exI [of _ d'] exI [of _ out]) (simp add: ex_db_def)
qed

section \<open>Undoing a merge\<close>

lemma read_kinds_strength:
  "map fst plan = map fst plan' \<Longrightarrow> read_kinds items plan kinds = read_kinds items plan' kinds"
proof (induction plan arbitrary: plan' kinds)
  case (Cons p plan)
  then obtain q plan'' where "plan' = q # plan''" "fst p = fst q" "map fst plan = map fst plan''"
    by (cases plan') auto
  with Cons.IH [of plan''] show ?case by (cases p; cases q) (auto split: option.splits)
qed simp

lemma lock_items_revert:
  assumes "catalog_items d' = catalog_items d"
  shows "lock_items d' x y True = lock_items d x y False"
  using read_kinds_strength [of "lock_plan x y True" "lock_plan x y False" "catalog_items d" "[]"] assms
  by (simp add: lock_items_def lock_plan_def comp_def)

text \<open>What the server guarantees of the identifier of a new supersession: nothing refers to it yet.\<close>

definition unused_id :: "nat \<Rightarrow> db \<Rightarrow> bool" where
  "unused_id s d \<longleftrightarrow>
     s \<notin> s_id ` set (supersessions d) \<and> (\<forall>r \<in> set (supersessions d). via_id r \<noteq> Some s)
     \<and> s \<notin> mv_supersession ` set (moves d)"

lemma compressed_pairs_merged:
  assumes "x \<noteq> y" "s = new_id e 0" "\<forall>r \<in> set rows. via_id r \<noteq> Some s"
  shows "compressed_pairs s (merged_rows e rows x y cause dref)
    = map (\<lambda>r. (superseded_id r, now_of e)) (filter (survives x) rows)"
proof -
  have comp: "filter (compressed_by s) (open_compressed e y s n rs) = open_compressed e y s n rs"
    "map (\<lambda>r. (superseded_id r, valid_from r)) (open_compressed e y s n rs) = map (\<lambda>r. (superseded_id r, now_of e)) rs" for n rs
    by (induction rs arbitrary: n) (simp_all add: compressed_row_def compressed_by_def is_open_def)
  have "filter (compressed_by s) (close_survived e x rows) = []"
    using assms(3) by (auto simp: filter_empty_conv close_survived_def compressed_by_def)
  then show ?thesis
    using assms(2) comp by (simp add: compressed_pairs_def merged_rows_def open_supersession_def compressed_by_def)
qed

text \<open>A row the merge closed is re-opened, its own and the compressed rows are closed, the rest stay.\<close>

lemma merged_row_reverted:
  assumes ok: "rows_ok t rows" and now: "t < now_of e" and xy: "x \<noteq> y" and s: "s = new_id e 0"
    and unused: "s \<notin> s_id ` set rows" "\<forall>r \<in> set rows. via_id r \<noteq> Some s"
    and q: "q \<in> set rows"
  shows "reverted_row e2 s x (merged_rows e rows x y cause dref)
           (if survives x q then q\<lparr>valid_to := Some (now_of e)\<rparr> else q) = q"
proof -
  let ?M = "merged_rows e rows x y cause dref"
  have nc: "\<not> closes s q" "\<not> closes s (q\<lparr>valid_to := v\<rparr>)" for v
    using unused q by (auto simp: closes_def compressed_by_def)
  have old: "valid_to q \<noteq> Some (now_of e)" using rows_okD(2) [OF ok q] now by force
  note pairs = compressed_pairs_merged [OF xy s unused(2), of cause dref]
  show ?thesis
  proof (cases "survives x q")
    case True
    then have "valid_to q = None" "survivor_id q = x" by (simp_all add: survives_def is_open_def)
    then have "predecessor x (compressed_pairs s ?M) (q\<lparr>valid_to := Some (now_of e)\<rparr>)"
      using q True unfolding pairs by (auto simp: predecessor_def)
    with nc True \<open>valid_to q = None\<close> show ?thesis by (simp add: reverted_row_def)
  next
    case False
    have "\<not> predecessor x (compressed_pairs s ?M) q"
      using old unfolding pairs by (auto simp: predecessor_def)
    with nc False show ?thesis by (simp add: reverted_row_def)
  qed
qed

lemma reopens_merged:
  assumes ok: "rows_ok t rows" and now: "t < now_of e" and xy: "x \<noteq> y" and s: "s = new_id e 0"
    and unused: "s \<notin> s_id ` set rows" "\<forall>r \<in> set rows. via_id r \<noteq> Some s"
  shows "length (reopens s x (merged_rows e rows x y cause dref))
    = length (compressed_pairs s (merged_rows e rows x y cause dref))"
proof -
  let ?P = "map (\<lambda>r. (superseded_id r, now_of e)) (filter (survives x) rows)"
  let ?R = "\<lambda>r. \<not> closes s r \<and> predecessor x ?P r"
  note pairs = compressed_pairs_merged [OF xy s unused(2), of cause dref]
  have "?R (if survives x q then q\<lparr>valid_to := Some (now_of e)\<rparr> else q) \<longleftrightarrow> survives x q" if q: "q \<in> set rows" for q
  proof -
    have "valid_to q \<noteq> Some (now_of e)" using rows_okD(2) [OF ok q] now by force
    then show ?thesis
      using unused q by (auto simp: predecessor_def survives_def closes_def compressed_by_def)
  qed
  then have "filter (\<lambda>q. ?R (if survives x q then q\<lparr>valid_to := Some (now_of e)\<rparr> else q)) rows = filter (survives x) rows"
    by (intro filter_cong) auto
  then have "length (filter ?R (close_survived e x rows)) = length (filter (survives x) rows)"
    by (simp add: close_survived_def filter_map comp_def)
  moreover have "\<not> ?R (open_supersession e x y cause dref)"
    using xy by (simp add: predecessor_def open_supersession_def)
  moreover have "filter ?R (open_compressed e y (new_id e 0) 1 (filter (survives x) rows)) = []"
    using xy by (auto simp: filter_empty_conv predecessor_def dest!: open_compressedD)
  ultimately show ?thesis
    unfolding reopens_def pairs by (simp add: merged_rows_def)
qed

lemma unchain_merged:
  assumes ok: "rows_ok t rows" and now: "t < now_of e" and m: "mergeable rows x y" and fresh: "fresh_ids e rows"
    and s: "s = new_id e 0" and via: "\<forall>r \<in> set rows. via_id r \<noteq> Some s"
  shows "\<exists>hist n. unchain e2 s x (merged_rows e rows x y cause dref) = Inr (rows @ hist, n)
           \<and> (\<forall>r \<in> set hist. \<not> is_open r)"
proof -
  let ?M = "merged_rows e rows x y cause dref"
  let ?own = "open_supersession e x y cause dref"
  let ?C = "open_compressed e y (new_id e 0) 1 (filter (survives x) rows)"
  have xy: "x \<noteq> y" using m by (simp add: mergeable_def)
  have unused: "s \<notin> s_id ` set rows" using fresh s by (auto simp: fresh_ids_def)
  have okM: "rows_ok (now_of e) ?M" by (rule merged_rows_ok [OF ok m now fresh])
  have old: "map (reverted_row e2 s x ?M) (close_survived e x rows) = rows"
    using merged_row_reverted [OF ok now xy s unused via] by (simp add: close_survived_def map_idI comp_def)
  have hist: "\<not> is_open (reverted_row e2 s x ?M r)" if "r \<in> set (?own # ?C)" for r
  proof -
    have "closes s r"
      using that s by (auto simp: closes_def compressed_by_def is_open_def open_supersession_def dest: open_compressedD)
    then show ?thesis by (simp add: reverted_row_def is_open_def)
  qed
  have "unchain e2 s x ?M = Inr (map (reverted_row e2 s x ?M) ?M, length (compressed_pairs s ?M))"
    using okM s reopens_merged [OF ok now xy s unused via, of cause dref]
    by (subst unchain_eq [of _ ?own]) (auto simp: rows_ok_def merged_rows_own, simp_all add: open_supersession_def is_open_def)
  moreover have "map (reverted_row e2 s x ?M) ?M = rows @ map (reverted_row e2 s x ?M) (?own # ?C)"
    using old by (subst (2) merged_rows_def) simp
  ultimately show ?thesis
    using hist by (intro exI [of _ "map (reverted_row e2 s x ?M) (?own # ?C)"]) auto
qed

lemma move_back_tables_asserted:
  "distinct ts \<Longrightarrow> asserted (fst (move_back_tables s ts d)) t
     = (if t \<in> set ts then map (move_back_row s t (moves d)) (asserted d t) else asserted d t)"
proof (induction ts arbitrary: d)
  case (Cons u ts)
  have "asserted (fst (move_back s u d)) t = (if t = u then map (move_back_row s t (moves d)) (asserted d t) else asserted d t)"
    by (simp add: move_back_def)
  with Cons show ?case by (auto simp: split_beta Let_def)
qed simp

text \<open>The ledger of a fresh supersession sends every moved row back and no other.\<close>

lemma move_back_repointed:
  assumes ids: "distinct (map row_id (asserted d t))" and t: "t \<in> set ts"
    and ms: "ms = foldl ledger_insert (moves d) (dependents_of e s x y ts d)"
    and unused: "s \<notin> mv_supersession ` set (moves d)" and row: "row \<in> set (asserted d t)"
  shows "move_back_row s t ms (repoint_row x y row) = row"
proof -
  have new: "\<exists>row0 \<in> set (asserted d t). item_id row0 = x \<and> row_id row0 = mv_row mv \<and> mv_from mv = x \<and> mv_to mv = y"
    if "mv \<in> set ms" "mv_supersession mv = s" "mv_table mv = t" for mv
  proof -
    obtain new where "ms = moves d @ new" "set new \<subseteq> set (dependents_of e s x y ts d)"
      using ledger_insert_extends ms by metis
    with that unused have "mv \<in> set (dependents_of e s x y ts d)" by auto
    with that(3) show ?thesis by (auto simp: dependents_of_def ledger_entry_def)
  qed
  show ?thesis
  proof (cases "find (ledgered s t (repoint_row x y row)) ms")
    case None
    have "item_id row \<noteq> x"
    proof
      assume "item_id row = x"
      then have "ledger_entry e s x y t row \<in> set (dependents_of e s x y ts d)"
        using row t by (auto simp: dependents_of_def)
      then have "(s, t, row_id row) \<in> ledger_key ` set ms"
        unfolding ms ledger_insert_keys by (force simp: ledger_key_def ledger_entry_def)
      then obtain mv where mv: "mv \<in> set ms" "mv_supersession mv = s" "mv_table mv = t" "mv_row mv = row_id row"
        by (auto simp: ledger_key_def)
      have "mv_to mv = y" using new [OF mv(1-3)] by blast
      with mv \<open>item_id row = x\<close> have "ledgered s t (repoint_row x y row) mv"
        by (simp add: ledgered_def repoint_row_def)
      with mv(1) None show False by (simp add: find_None_iff)
    qed
    with None show ?thesis by (simp add: move_back_row_def repoint_row_def)
  next
    case (Some mv)
    then have mv: "mv \<in> set ms" "ledgered s t (repoint_row x y row) mv" by (auto dest: find_SomeD)
    then obtain row0 where row0: "row0 \<in> set (asserted d t)" "item_id row0 = x" "row_id row0 = mv_row mv" "mv_from mv = x"
      using new [of mv] by (auto simp: ledgered_def)
    moreover have "row_id row = mv_row mv" using mv(2) by (simp add: ledgered_def repoint_row_def split: if_splits)
    ultimately have "row0 = row" using row by (intro distinct_map_eq [OF ids]) simp_all
    with row0 Some show ?thesis by (simp add: move_back_row_def repoint_row_def)
  qed
qed

text \<open>
  C12.  A revert is the exact reversal of its merge.  Take a pair that passed the locks and the
  check with no supersession open yet, merge it in a transaction later than everything recorded
  and under an identifier nothing refers to, and revert that supersession at any later time: the
  revert succeeds, every artifact and owned copy is again what it was, every supersession that
  was there before is again as it was (the compressed chains re-opened), the merge's own rows
  stay as closed history, and every item resolves as it did before the merge.
\<close>

theorem revert_undoes_merge:
  assumes "db_ok t d" "t < now_of e" "fresh_ids e (supersessions d)" "unused_id (new_id e 0) d"
    and ids: "\<forall>u \<in> {''artifacts'', ''owned_copies''}. distinct (map row_id (asserted d u))"
    and lock: "lock_items d x y False = Inr kind" and check: "current_supersession d x y = Inr None"
    and merge: "merge_items e d x y kind cause r None = Inr (d1, out)"
  shows "\<exists>d2 out2 hist. revert_supersession e2 d1 (mo_supersession out) = Inr (d2, out2)
    \<and> asserted d2 = asserted d
    \<and> supersessions d2 = supersessions d @ hist \<and> (\<forall>h \<in> set hist. \<not> is_open h)
    \<and> resolves d2 = resolves d"
proof -
  let ?s = "new_id e 0" and ?M = "merged_rows e (supersessions d) x y cause r"
  have xy: "x \<noteq> y" by (rule lock_items_distinct [OF lock])
  have ok: "rows_ok t (supersessions d)" using assms(1) by (simp add: db_ok_def)
  have m: "mergeable (supersessions d) x y" by (rule mergeableI [OF xy check])
  have okM: "rows_ok (now_of e) ?M" by (rule merged_rows_ok [OF ok m assms(2,3)])
  have rows: "supersessions d1 = ?M" using merge_supersessions [OF merge xy] by simp
  have s: "mo_supersession out = ?s"
    using merge by (cases rule: merge_itemsE) (simp add: supersede_rows [OF xy])
  obtain cs where cs: "map_of CACHE_TABLES kind = Some cs" using merge by (cases rule: merge_itemsE)
  have found: "find_supersession d1 ?s = Some (open_supersession e x y cause r)"
    unfolding find_supersession_def rows
  proof (rule find_unique)
    show "open_supersession e x y cause r \<in> set ?M" by (rule merged_rows_own)
    show own: "s_id (open_supersession e x y cause r) = ?s" by (simp add: open_supersession_def)
    show "q = open_supersession e x y cause r" if "q \<in> set ?M" "s_id q = ?s" for q
      using okM that own merged_rows_own [of e x y cause r "supersessions d"]
      by (intro distinct_map_eq [of s_id ?M]) (simp_all add: rows_ok_def)
  qed
  obtain hist n where un: "unchain e2 ?s x ?M = Inr (supersessions d @ hist, n)" and hist: "\<forall>h \<in> set hist. \<not> is_open h"
    using unchain_merged [OF ok assms(2) m assms(3) refl, of e2 cause r] assms(4) by (auto simp: unused_id_def)
  define db where "db = fst (move_back_tables ?s (dict_keys MOVED_TABLES) (d1\<lparr>supersessions := supersessions d @ hist\<rparr>))"
  define d2 where "d2 = fst (recompute_tables cs [x, y] db)"
  have lockM: "lock_items d1 x y True = Inr kind"
    using lock_items_revert [of d1 d x y] merge_tables(4) [OF merge] lock by simp
  have "\<exists>out2. revert_supersession e2 d1 ?s = Inr (d2, out2)"
    using found lockM un rows cs
    by (simp add: revert_supersession_def recompute_caches_def open_supersession_def is_open_def split_beta
        Let_def d2_def db_def)
  moreover have "asserted d2 u = asserted d u" for u
  proof (cases "u \<in> set (dict_keys MOVED_TABLES)")
    case True
    then have "distinct (map row_id (asserted d u))" using ids by (auto simp: MOVED_TABLES_def)
    then have "move_back_row ?s u (moves d1) (repoint_row x y row) = row" if "row \<in> set (asserted d u)" for row
      using that True assms(4) merge_tables(2) [OF merge] s
      by (intro move_back_repointed [where e = e and d = d and ts = "dict_keys MOVED_TABLES"]) (simp_all add: unused_id_def)
    then show ?thesis
      using True merge_tables(1) [OF merge, of u]
      by (simp add: d2_def db_def move_back_tables_asserted map_idI comp_def)
  qed (use merge_tables(1) [OF merge, of u] in \<open>simp add: d2_def db_def move_back_tables_asserted\<close>)
  moreover have rows2: "supersessions d2 = supersessions d @ hist" by (simp add: d2_def db_def)
  moreover have "resolves d2 = resolves d"
  proof
    have "find (\<lambda>q. superseded_id q = i \<and> is_open q) hist = None" for i
      using hist by (auto simp: find_None_iff)
    moreover have "find P (xs @ ys) = (case find P xs of None \<Rightarrow> find P ys | Some z \<Rightarrow> Some z)" for P and xs ys :: "supersession list"
      by (induction xs) auto
    ultimately show "resolves d2 i = resolves d i" for i
      by (simp add: resolves_def rows2 split: option.splits)
  qed
  ultimately show ?thesis using hist s by (metis ext)
qed

theorem revert_undoes_merge_witness:
  "let d = commits run_op [(ex_env 10 100, ex_merge 1 2)] ex_db in
   \<exists>d1 out d2 out2. merge_items (ex_env 20 200) d 2 3 ''release'' ''catalog_reattachment'' 900 None = Inr (d1, out)
     \<and> resolves d1 1 = 3
     \<and> revert_supersession (ex_env 30 300) d1 (mo_supersession out) = Inr (d2, out2)
     \<and> asserted d2 = asserted d \<and> resolves d2 1 = 2"
proof -
  let ?d = "commits run_op [(ex_env 10 100, ex_merge 1 2)] ex_db"
  have ok: "db_ok 15 ?d" "15 < now_of (ex_env 20 200)" "fresh_ids (ex_env 20 200) (supersessions ?d)"
    "unused_id (new_id (ex_env 20 200) 0) ?d"
    "\<forall>u \<in> {''artifacts'', ''owned_copies''}. distinct (map row_id (asserted ?d u))"
    "lock_items ?d 2 3 False = Inr ''release''" "current_supersession ?d 2 3 = Inr None" "resolves ?d 1 = 2"
    unfolding fresh_ex_env by code_simp+
  have run: "case merge_items (ex_env 20 200) ?d 2 3 ''release'' ''catalog_reattachment'' 900 None of Inl e \<Rightarrow> False
      | Inr z \<Rightarrow> resolves (fst z) 1 = 3"
    by code_simp
  then obtain d1 out where m: "merge_items (ex_env 20 200) ?d 2 3 ''release'' ''catalog_reattachment'' 900 None = Inr (d1, out)"
    and r: "resolves d1 1 = 3"
    by (auto split: sum.splits)
  from revert_undoes_merge [OF ok(1-7) m, of "ex_env 30 300"] m r ok(8) show ?thesis unfolding Let_def by auto
qed

section \<open>The caches\<close>

text \<open>
  The current holder of a provider key, and the partial unique index that makes it one: no two
  current aliases share provider, entity kind and external id.
\<close>

definition alias_key :: "provider_alias \<Rightarrow> string \<times> string \<times> string" where
  "alias_key al = (al_provider al, al_kind al, al_external al)"

definition is_current :: "provider_alias \<Rightarrow> bool" where
  "is_current al \<longleftrightarrow> al_to al = None"

definition alias_unique :: "provider_alias list \<Rightarrow> bool" where
  "alias_unique als \<longleftrightarrow> distinct (map alias_key (filter is_current als))"

definition holder :: "provider_alias list \<Rightarrow> string \<times> string \<times> string \<Rightarrow> nat option" where
  "holder als k = map_option native_id (find (\<lambda>al. alias_key al = k \<and> is_current al) als)"

lemma alias_uniqueD:
  "alias_unique als \<Longrightarrow> a \<in> set als \<Longrightarrow> b \<in> set als \<Longrightarrow> is_current a \<Longrightarrow> is_current b
    \<Longrightarrow> alias_key a = alias_key b \<Longrightarrow> a = b"
  unfolding alias_unique_def by (rule distinct_map_eq [of alias_key "filter is_current als"]) auto

lemma holder_SomeI:
  assumes "alias_unique als" "al \<in> set als" "is_current al"
  shows "holder als (alias_key al) = Some (native_id al)"
proof -
  have "find (\<lambda>b. alias_key b = alias_key al \<and> is_current b) als = Some al"
    using assms by (intro find_unique) (auto intro: alias_uniqueD)
  then show ?thesis by (simp add: holder_def)
qed

lemma holder_SomeD:
  "holder als k = Some n \<Longrightarrow> \<exists>al \<in> set als. is_current al \<and> alias_key al = k \<and> native_id al = n"
  by (auto simp: holder_def dest!: find_SomeD)

text \<open>The value a cached row should take: that of its own alias, if it names one of the items.\<close>

definition cache_key :: "cache_table \<Rightarrow> cached_row \<Rightarrow> string \<times> string \<times> string" where
  "cache_key c row = (ct_provider c, ct_entity_kind c, cr_key row)"

definition fresh_cache :: "cache_table \<Rightarrow> nat list \<Rightarrow> provider_alias list \<Rightarrow> cached_row \<Rightarrow> cached_row" where
  "fresh_cache c ids als row =
     (case gm_item_id row of
        None \<Rightarrow> row
      | Some g \<Rightarrow>
          (case holder als (cache_key c row) of
             Some n \<Rightarrow> if g \<in> set ids then row\<lparr>gm_item_id := Some n\<rparr> else row
           | None \<Rightarrow> row))"

lemma recompute_row_fresh:
  assumes "alias_unique als"
  shows "recompute_row c ids als row = fresh_cache c ids als row"
proof (cases "find (cache_hit c ids row) als")
  case None
  then have "holder als (cache_key c row) = None \<or> gm_item_id row = None
      \<or> (\<exists>g. gm_item_id row = Some g \<and> (g \<notin> set ids \<or> holder als (cache_key c row) = Some g))"
    by (cases "holder als (cache_key c row)"; cases "gm_item_id row")
       (auto dest!: holder_SomeD simp: find_None_iff cache_hit_def alias_key_def cache_key_def is_current_def)
  then show ?thesis using None by (auto simp: recompute_row_def fresh_cache_def split: option.splits)
next
  case (Some al)
  then have al: "al \<in> set als" "cache_hit c ids row al" by (auto dest: find_SomeD)
  then have "holder als (cache_key c row) = Some (native_id al)"
    using holder_SomeI [OF assms al(1)] by (simp add: cache_hit_def alias_key_def cache_key_def is_current_def)
  with Some al(2) show ?thesis
    by (auto simp: recompute_row_def fresh_cache_def cache_hit_def split: option.splits)
qed

lemma recompute_tables_cached:
  assumes "alias_unique (aliases d)" "distinct (map ct_table cs)"
  shows "c \<in> set cs \<Longrightarrow> cached (fst (recompute_tables cs ids d)) (ct_table c)
           = map (fresh_cache c ids (aliases d)) (cached d (ct_table c))"
    "t \<notin> ct_table ` set cs \<Longrightarrow> cached (fst (recompute_tables cs ids d)) t = cached d t"
proof -
  have "(c \<in> set cs \<longrightarrow> cached (fst (recompute_tables cs ids d)) (ct_table c)
           = map (fresh_cache c ids (aliases d)) (cached d (ct_table c)))
      \<and> (t \<notin> ct_table ` set cs \<longrightarrow> cached (fst (recompute_tables cs ids d)) t = cached d t)" for t
    using assms
  proof (induction cs arbitrary: d t)
    case (Cons b cs)
    let ?d = "fst (recompute_table b ids d)"
    have b: "cached ?d u = (if u = ct_table b then map (fresh_cache b ids (aliases d)) (cached d u) else cached d u)" for u
      using recompute_row_fresh [OF Cons.prems(1)] by (auto simp: recompute_table_def Let_def)
    have IH: "(c \<in> set cs \<longrightarrow> cached (fst (recompute_tables cs ids ?d)) (ct_table c)
           = map (fresh_cache c ids (aliases d)) (cached ?d (ct_table c)))
      \<and> (u \<notin> ct_table ` set cs \<longrightarrow> cached (fst (recompute_tables cs ids ?d)) u = cached ?d u)" for u
      using Cons.IH [of ?d u] Cons.prems by simp
    have "ct_table c \<noteq> ct_table b" if "c \<in> set cs"
      using imageI [OF that, of ct_table] Cons.prems(2) by auto
    then show ?case using Cons.prems(2) IH [of "ct_table b"] IH [of t] b by (auto simp: split_beta Let_def)
  qed simp
  then show "c \<in> set cs \<Longrightarrow> cached (fst (recompute_tables cs ids d)) (ct_table c)
           = map (fresh_cache c ids (aliases d)) (cached d (ct_table c))"
    "t \<notin> ct_table ` set cs \<Longrightarrow> cached (fst (recompute_tables cs ids d)) t = cached d t" by blast+
qed

lemma cache_tables_distinct: "map_of CACHE_TABLES kind = Some cs \<Longrightarrow> distinct (map ct_table cs)"
  by (auto simp: CACHE_TABLES_def cache_table_def split: if_splits)

text \<open>
  Recomputing the caches makes them agree with the alias table.  While the alias table has
  one current alias per key, recomputing the caches of a kind sets every cached row of that
  kind's tables that names one of the items to whatever the row's own alias resolves to now,
  leaves a row with no current alias or naming no such item as it is, and touches no other table
  and nothing but the cached item.
\<close>

theorem recompute_agrees_with_aliases:
  assumes "alias_unique (aliases d)" and "recompute_caches d kind ids = Inr (d', counts)"
    and "map_of CACHE_TABLES kind = Some cs" and "c \<in> set cs" and "t \<notin> ct_table ` set cs"
  shows "cached d' (ct_table c) = map (fresh_cache c ids (aliases d)) (cached d (ct_table c))
    \<and> cached d' t = cached d t \<and> asserted d' = asserted d \<and> supersessions d' = supersessions d
    \<and> aliases d' = aliases d \<and> map fst counts = map ct_table cs"
proof -
  have d': "d' = fst (recompute_tables cs ids d)" and counts: "counts = snd (recompute_tables cs ids d)"
    using assms(2,3) by (simp_all add: recompute_caches_def)
  have "map fst (snd (recompute_tables cs ids d)) = map ct_table cs"
    by (induction cs arbitrary: d) (simp_all add: split_beta Let_def)
  then show ?thesis
    using recompute_tables_cached [OF assms(1) cache_tables_distinct [OF assms(3)]] assms(4,5) d' counts by simp
qed

theorem recompute_agrees_with_aliases_witness:
  "\<exists>d' counts. recompute_caches ex_db ''release'' [1, 2] = Inr (d', counts)
     \<and> map gm_item_id (cached d' ''public.releases'') = [Some 2]"
proof -
  let ?cs = "the (map_of CACHE_TABLES ''release'')"
  let ?c = "hd ?cs"
  have u: "alias_unique (aliases ex_db)" by code_simp
  have cs: "map_of CACHE_TABLES ''release'' = Some ?cs" "?c \<in> set ?cs" "''public.masters'' \<notin> ct_table ` set ?cs"
    "ct_table ?c = ''public.releases''"
    by (simp_all add: CACHE_TABLES_def cache_table_def)
  obtain d' counts where r: "recompute_caches ex_db ''release'' [1, 2] = Inr (d', counts)"
    using cs(1) unfolding recompute_caches_def by (metis option.simps(5) surj_pair)
  have "map gm_item_id (map (fresh_cache ?c [1, 2] (aliases ex_db)) (cached ex_db ''public.releases'')) = [Some 2]"
    by code_simp
  with recompute_agrees_with_aliases [OF u r cs(1-3)] r cs(4) show ?thesis by auto
qed

end
