(* ===== verification/Reattach.thy ===== *)
theory Reattach
  imports Catalog_Merge_Properties
begin

text \<open>
  The re-attachment job of \<open>src/api/reattach.py\<close>: MusicBrainz rows whose alias resolves to another
  native item than the Discogs id they carry are re-attached, one transaction per item, to the
  Discogs item and the split item is merged into it.  The read-only census, the candidate pages,
  the per-item transaction, the per-kind tally, the paging run and its audit entry are modelled.

  The statements work on the tables of \<open>Catalog_Merge\<close>: a MusicBrainz table is the cached table
  \<open>musicbrainz.<table>\<close>, whose key is the mbid.  The time and identifiers of each transaction are
  arguments, and so is the one thing the census reads from a JSON document: whether a Discogs
  release's own record carries an identifier.
\<close>

section \<open>Constants\<close>

record split_kind =
  sk_table :: string
  sk_column :: string
  sk_entity_kind :: string

definition split_kind :: "string \<Rightarrow> string \<Rightarrow> string \<Rightarrow> split_kind" where
  "split_kind t c e = \<lparr>sk_table = t, sk_column = c, sk_entity_kind = e\<rparr>"

definition KINDS :: "(string, split_kind) dict" where
  "KINDS =
     [(''release'', split_kind ''releases'' ''discogs_release_id'' ''release''),
      (''release_group'', split_kind ''release_groups'' ''discogs_master_id'' ''master''),
      (''artist'', split_kind ''artists'' ''discogs_artist_id'' ''artist''),
      (''label'', split_kind ''labels'' ''discogs_label_id'' ''label'')]"

definition DEPENDENT_TABLES :: "string list" where
  "DEPENDENT_TABLES = [''artifacts'', ''owned_copies'', ''observations'', ''user_collections'', ''user_wantlists'']"

definition IDENTIFIER_PROVIDERS :: "string list" where
  "IDENTIFIER_PROVIDERS = [''barcode'', ''catalog_number'', ''isrc'', ''matrix'']"

definition GUARD_REASONS :: "string list" where
  "GUARD_REASONS = [''shared_native_id'', ''non_catalog_alias'']"

definition OUTCOMES :: "string list" where
  "OUTCOMES = [''reattached'', ''guarded'', ''unchanged'', ''failed'']"

definition FIRST_MBID :: string where
  "FIRST_MBID = ''00000000-0000-0000-0000-000000000000''"

definition mb_table :: "split_kind \<Rightarrow> string" where
  "mb_table kind = ''musicbrainz.'' @ sk_table kind"

section \<open>Linked rows and candidates\<close>

record linked =
  lk_mbid :: string
  lk_discogs :: string
  lk_gm :: "nat option"
  lk_mb_native :: "nat option"
  lk_discogs_native :: "nat option"

text \<open>One \<open>LEFT JOIN\<close> to the current aliases of a key: every match, or one \<open>NULL\<close>.\<close>

definition left_join :: "provider_alias list \<Rightarrow> string \<times> string \<times> string \<Rightarrow> nat option list" where
  "left_join als k =
     (case filter (\<lambda>al. alias_key al = k \<and> is_current al) als of
        [] \<Rightarrow> [None]
      | ms \<Rightarrow> map (\<lambda>al. Some (native_id al)) ms)"

definition linked_row :: "split_kind \<Rightarrow> provider_alias list \<Rightarrow> cached_row \<Rightarrow> linked list" where
  "linked_row kind als mb =
     (case cr_discogs mb of
        None \<Rightarrow> []
      | Some did \<Rightarrow>
          concat (map (\<lambda>dn. map (\<lambda>mn. \<lparr>lk_mbid = cr_key mb, lk_discogs = did, lk_gm = gm_item_id mb,
                                      lk_mb_native = mn, lk_discogs_native = dn\<rparr>)
                      (left_join als (''musicbrainz'', sk_entity_kind kind, cr_key mb)))
            (left_join als (''discogs'', sk_entity_kind kind, did))))"

definition linked_rows :: "split_kind \<Rightarrow> db \<Rightarrow> linked list" where
  "linked_rows kind d = concat (map (linked_row kind (aliases d)) (cached d (mb_table kind)))"

text \<open>\<open>_CANDIDATE\<close>: both aliases resolve, and they disagree or the cache does.\<close>

definition candidate :: "linked \<Rightarrow> bool" where
  "candidate l \<longleftrightarrow>
     (case (lk_discogs_native l, lk_mb_native l) of
        (Some dn, Some mn) \<Rightarrow> mn \<noteq> dn \<or> (case lk_gm l of None \<Rightarrow> False | Some g \<Rightarrow> g \<noteq> dn)
      | _ \<Rightarrow> False)"

text \<open>\<open>_SPLIT_ID\<close>, for a candidate.\<close>

definition split_id :: "linked \<Rightarrow> nat option" where
  "split_id l = (if lk_mb_native l \<noteq> lk_discogs_native l then lk_mb_native l else lk_gm l)"

definition is_split :: "linked \<Rightarrow> bool" where
  "is_split l \<longleftrightarrow> lk_mb_native l \<noteq> lk_discogs_native l"

text \<open>\<open>_GUARDS\<close>: another item's alias on the split id, or one a person or another source asserted.\<close>

definition shared_native_id :: "split_kind \<Rightarrow> string \<Rightarrow> nat \<Rightarrow> provider_alias list \<Rightarrow> bool" where
  "shared_native_id kind mbid split als \<longleftrightarrow>
     list_ex (\<lambda>held. native_id held = split \<and> is_current held
        \<and> \<not> (al_provider held \<in> set IDENTIFIER_PROVIDERS
             \<or> alias_key held = (''musicbrainz'', sk_entity_kind kind, mbid))) als"

definition non_catalog_alias :: "nat \<Rightarrow> provider_alias list \<Rightarrow> bool" where
  "non_catalog_alias split als \<longleftrightarrow>
     list_ex (\<lambda>held. native_id held = split \<and> is_current held \<and> al_source held \<noteq> ''catalog'') als"

definition guards :: "split_kind \<Rightarrow> string \<Rightarrow> nat \<Rightarrow> provider_alias list \<Rightarrow> bool list" where
  "guards kind mbid split als = [shared_native_id kind mbid split als, non_catalog_alias split als]"

definition guard_reasons :: "bool list \<Rightarrow> string list" where
  "guard_reasons flags = map fst (filter snd (zip GUARD_REASONS flags))"

section \<open>The census\<close>

text \<open>\<open>_DEPENDENTS\<close>: whether each dependent table references the split item.\<close>

definition observed :: "nat \<Rightarrow> db \<Rightarrow> bool" where
  "observed split d \<longleftrightarrow>
     list_ex (\<lambda>ob.
        list_ex (\<lambda>row. Some (row_id row) = ob_artifact ob \<and> item_id row = split) (asserted d ''artifacts'')
        \<or> list_ex (\<lambda>row. Some (row_id row) = ob_owned_copy ob \<and> item_id row = split) (asserted d ''owned_copies''))
       (observations d)"

definition depends :: "string \<Rightarrow> nat \<Rightarrow> db \<Rightarrow> bool" where
  "depends t split d \<longleftrightarrow>
     (if t = ''observations'' then observed split d
      else if t \<in> {''user_collections'', ''user_wantlists''}
           then list_ex (\<lambda>row. gm_item_id row = Some split) (cached d t)
           else list_ex (\<lambda>row. item_id row = split) (asserted d t))"

definition rows_on :: "string \<Rightarrow> nat \<Rightarrow> db \<Rightarrow> nat" where
  "rows_on t split d = length (filter (\<lambda>row. item_id row = split) (asserted d t))"

record census =
  ce_linked :: nat
  ce_unresolved :: nat
  ce_split :: nat
  ce_stale :: nat
  ce_eligible :: int
  ce_guarded :: nat
  ce_guard_reasons :: "(string, nat) dict"
  ce_dependents :: "(string, nat) dict"
  ce_will_items :: nat
  ce_will_artifacts :: nat
  ce_will_copies :: nat
  ce_identifiers :: "(string, nat \<times> nat) dict"

definition lk_guards :: "split_kind \<Rightarrow> db \<Rightarrow> linked \<Rightarrow> bool list" where
  "lk_guards kind d l =
     (case split_id l of
        None \<Rightarrow> [False, False]
      | Some x \<Rightarrow> guards kind (lk_mbid l) x (aliases d))"

definition lk_guarded :: "split_kind \<Rightarrow> db \<Rightarrow> linked \<Rightarrow> bool" where
  "lk_guarded kind d l \<longleftrightarrow> True \<in> set (lk_guards kind d l)"

definition on_split :: "(nat \<Rightarrow> 'a) \<Rightarrow> 'a \<Rightarrow> linked \<Rightarrow> 'a" where
  "on_split f z l = (case split_id l of None \<Rightarrow> z | Some x \<Rightarrow> f x)"

definition count_if :: "('a \<Rightarrow> bool) \<Rightarrow> 'a list \<Rightarrow> nat" where
  "count_if P xs = length (filter P xs)"

text \<open>
  \<open>_IDENTIFIERS\<close>: the identifier aliases candidates hold, and how many of them the Discogs item's
  own record also carries; only releases carry identifiers.
\<close>

definition identifier_counts :: "(string \<Rightarrow> string \<Rightarrow> string \<Rightarrow> bool) \<Rightarrow> split_kind \<Rightarrow> db \<Rightarrow> string \<Rightarrow> nat \<times> nat" where
  "identifier_counts carries kind d p =
     (let rows = concat (map (\<lambda>l. map (\<lambda>held. (l, held))
                   (filter (\<lambda>held. Some (native_id held) = split_id l \<and> is_current held \<and> al_provider held = p)
                      (aliases d)))
                 (filter candidate (linked_rows kind d)))
      in (length rows,
          count_if (\<lambda>(l, held). sk_entity_kind kind = ''release''
                              \<and> carries (lk_discogs l) (al_provider held) (al_external held)) rows))"

definition kind_census :: "(string \<Rightarrow> string \<Rightarrow> string \<Rightarrow> bool) \<Rightarrow> split_kind \<Rightarrow> db \<Rightarrow> census" where
  "kind_census carries kind d =
     (let rows = linked_rows kind d;
          cands = filter candidate rows;
          free = filter (\<lambda>l. \<not> lk_guarded kind d l) cands;
          splits = count_if is_split cands;
          stale = count_if (\<lambda>l. \<not> is_split l) cands;
          guarded = count_if (lk_guarded kind d) cands
      in \<lparr>ce_linked = length rows,
          ce_unresolved = count_if (\<lambda>l. lk_discogs_native l = None) rows,
          ce_split = splits, ce_stale = stale,
          ce_eligible = int (splits + stale) - int guarded,
          ce_guarded = guarded,
          ce_guard_reasons =
            map (\<lambda>reason. (reason, count_if (\<lambda>l. reason \<in> set (guard_reasons (lk_guards kind d l))) cands)) GUARD_REASONS,
          ce_dependents =
            map (\<lambda>t. (t, count_if (on_split (\<lambda>x. depends t x d) False) cands)) DEPENDENT_TABLES,
          ce_will_items =
            count_if (on_split (\<lambda>x. 0 < rows_on ''artifacts'' x d \<or> 0 < rows_on ''owned_copies'' x d) False) free,
          ce_will_artifacts = sum_list (map (on_split (\<lambda>x. rows_on ''artifacts'' x d) 0) free),
          ce_will_copies = sum_list (map (on_split (\<lambda>x. rows_on ''owned_copies'' x d) 0) free),
          ce_identifiers = map (\<lambda>p. (p, identifier_counts carries kind d p)) IDENTIFIER_PROVIDERS\<rparr>)"

definition run_census :: "(string \<Rightarrow> string \<Rightarrow> string \<Rightarrow> bool) \<Rightarrow> db \<Rightarrow> (string, census) dict" where
  "run_census carries d = map (\<lambda>(name, kind). (name, kind_census carries kind d)) KINDS"

text \<open>\<open>_CANDIDATE_PAGE\<close>: keyset paging on the mbid.\<close>

definition candidate_page :: "split_kind \<Rightarrow> db \<Rightarrow> string \<Rightarrow> nat \<Rightarrow> linked list" where
  "candidate_page kind d cursor limit =
     take limit (sort_key lk_mbid (filter (\<lambda>l. candidate l \<and> cursor < lk_mbid l) (linked_rows kind d)))"

section \<open>One item\<close>

text \<open>
  What can be raised: a conflict of the merge, an alias held by a third item, or a dictionary
  key that is not there.
\<close>

datatype reattach_error =
    MergeConflict merge_error
  | AliasesHeld "(string \<times> string \<times> string) list"
  | KeyMissing string
  | NeedsDecision

text \<open>\<open>MergeConflictError\<close> and \<open>ReattachConflictError\<close>, which the run counts as failed; the rest end it.\<close>

fun is_conflict :: "reattach_error \<Rightarrow> bool" where
  "is_conflict (AliasesHeld ks) = True"
| "is_conflict (MergeConflict (UnknownCause c)) = False"
| "is_conflict (MergeConflict (UnknownKind k)) = False"
| "is_conflict (MergeConflict e) = True"
| "is_conflict (KeyMissing k) = False"
| "is_conflict NeedsDecision = False"

record item_outcome =
  io_status :: string
  io_reasons :: "string list"
  io_split :: "nat option"
  io_discogs :: "nat option"
  io_aliases :: nat
  io_collisions :: nat
  io_opened :: bool
  io_compressed :: nat
  io_moved :: "(string, nat) dict"
  io_caches :: "(string, nat) dict"

definition item_outcome :: "string \<Rightarrow> item_outcome" where
  "item_outcome status =
     \<lparr>io_status = status, io_reasons = [], io_split = None, io_discogs = None, io_aliases = 0,
      io_collisions = 0, io_opened = False, io_compressed = 0,
      io_moved = map (\<lambda>t. (t, 0)) (dict_keys MOVED_TABLES), io_caches = []\<rparr>"

text \<open>\<open>_LOCK_ALIASES\<close>, read into a dictionary by provider: a later row replaces an earlier one.\<close>

definition resolve_aliases :: "string \<Rightarrow> string \<Rightarrow> string \<Rightarrow> provider_alias list \<Rightarrow> (string, nat) dict" where
  "resolve_aliases kind mbid did als =
     foldl (\<lambda>m al. dict_set (al_provider al) (native_id al) m) []
       (filter (\<lambda>al. is_current al \<and> al_kind al = kind
                  \<and> (al_provider al = ''musicbrainz'' \<and> al_external al = mbid
                     \<or> al_provider al = ''discogs'' \<and> al_external al = did)) als)"

text \<open>\<open>_CLOSE_ALIASES\<close>: the current aliases of an item, and the table with them closed.\<close>

definition held_by :: "nat \<Rightarrow> provider_alias \<Rightarrow> bool" where
  "held_by split al \<longleftrightarrow> native_id al = split \<and> is_current al"

definition close_aliases :: "merge_env \<Rightarrow> nat \<Rightarrow> provider_alias list \<Rightarrow> provider_alias list" where
  "close_aliases e split als =
     map (\<lambda>al. if held_by split al then al\<lparr>al_to := Some (now_of e)\<rparr> else al) als"

text \<open>\<open>_REINSERT_ALIASES\<close>: insertion of one alias unless its key has a current one; the table and
  whether it was inserted.\<close>

definition reinserted :: "merge_env \<Rightarrow> nat \<Rightarrow> provider_alias \<Rightarrow> provider_alias" where
  "reinserted e native al =
     \<lparr>al_provider = al_provider al, al_kind = al_kind al, al_external = al_external al,
      native_id = native, al_source = ''catalog'', al_confidence = al_confidence al,
      al_from = now_of e, al_to = None\<rparr>"

fun reinsert_aliases :: "merge_env \<Rightarrow> nat \<Rightarrow> provider_alias list \<Rightarrow> provider_alias list
    \<Rightarrow> provider_alias list \<times> (string \<times> string \<times> string) list" where
  "reinsert_aliases e native [] als = (als, [])"
| "reinsert_aliases e native (al # closed) als =
     (if list_ex (\<lambda>b. is_current b \<and> alias_key b = alias_key al) als
      then reinsert_aliases e native closed als
      else let (als', keys) = reinsert_aliases e native closed (als @ [reinserted e native al])
           in (als', alias_key al # keys))"

text \<open>\<open>_CURRENT_HOLDERS\<close>, read into a dictionary.\<close>

definition current_holders :: "(string \<times> string \<times> string) list \<Rightarrow> provider_alias list
    \<Rightarrow> (string \<times> string \<times> string, nat) dict" where
  "current_holders keys als =
     foldl (\<lambda>m (k, al). dict_set k (native_id al) m) []
       (concat (map (\<lambda>k. map (\<lambda>al. (k, al)) (filter (\<lambda>al. alias_key al = k \<and> is_current al) als)) keys))"

text \<open>The alias steps: the table, the number closed and the collisions.\<close>

definition move_aliases :: "merge_env \<Rightarrow> nat \<Rightarrow> nat \<Rightarrow> provider_alias list
    \<Rightarrow> (reattach_error, provider_alias list \<times> nat \<times> nat) result" where
  "move_aliases e split native als =
     (let closed = filter (held_by split) als;
          als1 = close_aliases e split als
      in if closed = [] then Inr (als1, 0, 0)
         else let (als2, inserted) = reinsert_aliases e native closed als1;
                  missing = filter (\<lambda>k. k \<notin> set inserted) (map alias_key closed);
                  holders = current_holders missing als2;
                  foreign = filter (\<lambda>k. map_of holders k \<noteq> Some native) missing
              in if missing \<noteq> [] \<and> foreign \<noteq> [] then Inl (AliasesHeld foreign)
                 else Inr (als2, length closed, length missing))"

definition set_gm_item_id :: "split_kind \<Rightarrow> nat \<Rightarrow> string \<Rightarrow> db \<Rightarrow> db" where
  "set_gm_item_id kind native mbid d =
     d\<lparr>cached := (cached d)(mb_table kind :=
         map (\<lambda>row. if cr_key row = mbid then row\<lparr>gm_item_id := Some native\<rparr> else row)
           (cached d (mb_table kind)))\<rparr>"

text \<open>The writing half, reached only by an item that is neither unchanged nor guarded.\<close>

definition apply_reattach :: "merge_env \<Rightarrow> db \<Rightarrow> split_kind \<Rightarrow> string \<Rightarrow> nat \<Rightarrow> nat \<Rightarrow> nat \<Rightarrow> string
    \<Rightarrow> (reattach_error, db \<times> item_outcome) result" where
  "apply_reattach e d kind mbid decision split native item_kind =
     (case current_supersession d split native of
        Inl err \<Rightarrow> Inl (MergeConflict err)
      | Inr existing \<Rightarrow>
          (case move_aliases e split native (aliases d) of
             Inl err \<Rightarrow> Inl err
           | Inr (als, closed, collisions) \<Rightarrow>
               (case merge_items e (set_gm_item_id kind native mbid (d\<lparr>aliases := als\<rparr>)) split native
                       item_kind ''catalog_reattachment'' decision existing of
                  Inl err \<Rightarrow> Inl (MergeConflict err)
                | Inr (d', merge) \<Rightarrow>
                    Inr (d', \<lparr>io_status = ''reattached'', io_reasons = [], io_split = Some split,
                              io_discogs = Some native, io_aliases = closed - collisions,
                              io_collisions = collisions, io_opened = mo_opened merge,
                              io_compressed = mo_compressed merge, io_moved = mo_moved merge,
                              io_caches = mo_caches merge\<rparr>))))"

text \<open>Which item the row splits from, re-decided under lock; \<open>None\<close> when there is nothing to do.\<close>

definition split_under_lock :: "nat option \<Rightarrow> nat option \<Rightarrow> nat option \<Rightarrow> (nat \<times> nat) option" where
  "split_under_lock gm mb_native discogs_native =
     (case (mb_native, discogs_native) of
        (Some mn, Some dn) \<Rightarrow>
          if mn \<noteq> dn then Some (mn, dn)
          else (case gm of
                  Some g \<Rightarrow> if g \<noteq> dn then Some (g, dn) else None
                | None \<Rightarrow> None)
      | _ \<Rightarrow> None)"

definition reattach_item :: "merge_env \<Rightarrow> db \<Rightarrow> split_kind \<Rightarrow> string \<Rightarrow> nat
    \<Rightarrow> (reattach_error, db \<times> item_outcome) result" where
  "reattach_item e d kind mbid decision =
     (case find (\<lambda>row. cr_key row = mbid) (cached d (mb_table kind)) of
        None \<Rightarrow> Inr (d, item_outcome ''unchanged'')
      | Some row \<Rightarrow>
          (case cr_discogs row of
             None \<Rightarrow> Inr (d, item_outcome ''unchanged'')
           | Some did \<Rightarrow>
               let resolved = resolve_aliases (sk_entity_kind kind) mbid did (aliases d) in
               (case split_under_lock (gm_item_id row) (map_of resolved ''musicbrainz'')
                       (map_of resolved ''discogs'') of
                  None \<Rightarrow> Inr (d, item_outcome ''unchanged'')
                | Some (split, native) \<Rightarrow>
                    (case lock_items d split native False of
                       Inl err \<Rightarrow> Inl (MergeConflict err)
                     | Inr item_kind \<Rightarrow>
                         let reasons = guard_reasons (guards kind mbid split (aliases d)) in
                         if reasons \<noteq> []
                         then Inr (d, (item_outcome ''guarded'')
                                      \<lparr>io_reasons := reasons, io_split := Some split, io_discogs := Some native\<rparr>)
                         else apply_reattach e d kind mbid decision split native item_kind))))"

section \<open>The tally\<close>

record kind_tally =
  kt_status :: "(string, nat) dict"
  kt_aliases :: nat
  kt_collisions :: nat
  kt_reasons :: "(string, nat) dict"
  kt_opened :: nat
  kt_compressed :: nat
  kt_with_dependents :: nat
  kt_moved :: "(string, nat) dict"
  kt_caches :: "(string, nat) dict"

text \<open>
  The four status fields \<open>reattached\<close>, \<open>guarded\<close>, \<open>unchanged\<close> and \<open>failed\<close> are read and set by
  name in the code; they are the entries of \<open>kt_status\<close>.
\<close>

definition new_tally :: kind_tally where
  "new_tally =
     \<lparr>kt_status = map (\<lambda>s. (s, 0)) OUTCOMES, kt_aliases = 0, kt_collisions = 0,
      kt_reasons = map (\<lambda>r. (r, 0)) GUARD_REASONS, kt_opened = 0, kt_compressed = 0,
      kt_with_dependents = 0, kt_moved = map (\<lambda>t. (t, 0)) (dict_keys MOVED_TABLES),
      kt_caches = map (\<lambda>t. (t, 0)) CACHE_TABLE_NAMES\<rparr>"

text \<open>\<open>d[k] += n\<close>: a key that is not there raises.\<close>

definition bump :: "string \<Rightarrow> nat \<Rightarrow> (string, nat) dict \<Rightarrow> (reattach_error, (string, nat) dict) result" where
  "bump k n m = (case map_of m k of None \<Rightarrow> Inl (KeyMissing k) | Some v \<Rightarrow> Inr (dict_set k (v + n) m))"

fun bump_each :: "(string \<times> nat) list \<Rightarrow> (string, nat) dict \<Rightarrow> (reattach_error, (string, nat) dict) result" where
  "bump_each [] m = Inr m"
| "bump_each ((k, n) # ks) m = (case bump k n m of Inl err \<Rightarrow> Inl err | Inr m' \<Rightarrow> bump_each ks m')"

definition tally_add :: "kind_tally \<Rightarrow> item_outcome \<Rightarrow> (reattach_error, kind_tally) result" where
  "tally_add t out =
     (case bump (io_status out) 1 (kt_status t) of
        Inl err \<Rightarrow> Inl err
      | Inr st \<Rightarrow>
          (case bump_each (map (\<lambda>r. (r, 1)) (io_reasons out)) (kt_reasons t) of
             Inl err \<Rightarrow> Inl err
           | Inr reasons \<Rightarrow>
               (case bump_each (io_moved out) (kt_moved t) of
                  Inl err \<Rightarrow> Inl err
                | Inr moved \<Rightarrow>
                    (case bump_each (io_caches out) (kt_caches t) of
                       Inl err \<Rightarrow> Inl err
                     | Inr caches \<Rightarrow>
                         Inr \<lparr>kt_status = st, kt_aliases = kt_aliases t + io_aliases out,
                              kt_collisions = kt_collisions t + io_collisions out, kt_reasons = reasons,
                              kt_opened = kt_opened t + of_bool (io_opened out),
                              kt_compressed = kt_compressed t + io_compressed out,
                              kt_with_dependents = kt_with_dependents t + of_bool (list_ex (\<lambda>(k, n). n \<noteq> 0) (io_moved out)),
                              kt_moved = moved, kt_caches = caches\<rparr>))))"

section \<open>The run\<close>

record run_state =
  rs_db :: db
  rs_tx :: nat
  rs_tally :: kind_tally
  rs_cursor :: string
  rs_log :: "(string \<times> item_outcome) list"

text \<open>
  \<open>_reattach_one\<close> under the loop's \<open>try\<close>: the item's own transaction commits or rolls back; a
  conflict becomes the outcome \<open>failed\<close>, any other exception leaves the run.  Transaction number
  \<open>n\<close> of the run has the time and the identifiers \<open>envs n\<close>.
\<close>

definition reattach_one :: "merge_env \<Rightarrow> db \<Rightarrow> split_kind \<Rightarrow> string \<Rightarrow> nat
    \<Rightarrow> (reattach_error, db \<times> item_outcome) result" where
  "reattach_one e d kind mbid decision =
     (case reattach_item e d kind mbid decision of
        Inl err \<Rightarrow> if is_conflict err then Inr (d, item_outcome ''failed'') else Inl err
      | Inr z \<Rightarrow> Inr z)"

fun run_page :: "(nat \<Rightarrow> merge_env) \<Rightarrow> split_kind \<Rightarrow> nat \<Rightarrow> linked list \<Rightarrow> run_state
    \<Rightarrow> (run_state \<times> reattach_error, run_state) result" where
  "run_page envs kind decision [] s = Inr s"
| "run_page envs kind decision (l # page) s =
     (case reattach_one (envs (rs_tx s)) (rs_db s) kind (lk_mbid l) decision of
        Inl err \<Rightarrow> Inl (s, err)
      | Inr (d, out) \<Rightarrow>
          (case tally_add (rs_tally s) out of
             Inl err \<Rightarrow> Inl (s\<lparr>rs_db := d\<rparr>, err)
           | Inr t \<Rightarrow>
               run_page envs kind decision page
                 (s\<lparr>rs_db := d, rs_tx := Suc (rs_tx s), rs_tally := t, rs_cursor := lk_mbid l,
                    rs_log := rs_log s @ [(lk_mbid l, out)]\<rparr>)))"

text \<open>What the measure of the page loop needs: no item changes the keys of a cached table.\<close>

definition keys_of :: "db \<Rightarrow> string \<Rightarrow> string list" where
  "keys_of d t = map cr_key (cached d t)"

lemma recompute_tables_keys [simp]: "keys_of (fst (recompute_tables cs ids d)) t = keys_of d t"
proof (induction cs arbitrary: d)
  case (Cons c cs)
  have "cr_key (recompute_row c ids als row) = cr_key row" for als row
    by (simp add: recompute_row_def split: option.splits)
  then have "keys_of (fst (recompute_table c ids d)) t = keys_of d t"
    by (simp add: keys_of_def recompute_table_def Let_def)
  with Cons.IH show ?case by (simp add: split_beta Let_def)
qed simp

lemma merge_items_keys: "merge_items e d x y kind cause r ex = Inr (d', out) \<Longrightarrow> keys_of d' t = keys_of d t"
  by (elim merge_itemsE) (simp, simp add: keys_of_def)

lemma set_gm_keys [simp]: "keys_of (set_gm_item_id kind n mbid d) t = keys_of d t"
  by (simp add: keys_of_def set_gm_item_id_def)

lemma apply_reattach_keys:
  "apply_reattach e d kind mbid r x y k = Inr (d', out) \<Longrightarrow> keys_of d' t = keys_of d t"
  by (auto simp: apply_reattach_def split: sum.splits dest!: merge_items_keys [where t = t])
     (simp add: keys_of_def)

lemma reattach_one_keys: "reattach_one e d kind mbid r = Inr (d', out) \<Longrightarrow> keys_of d' t = keys_of d t"
  by (auto simp: reattach_one_def reattach_item_def Let_def
      split: sum.splits option.splits if_splits prod.splits dest: apply_reattach_keys)

lemma run_page_keys:
  "run_page envs kind r page s = Inr s' \<Longrightarrow> keys_of (rs_db s') t = keys_of (rs_db s) t"
proof (induction page arbitrary: s)
  case (Cons l page)
  from Cons.prems obtain d out ta where
    d: "reattach_one (envs (rs_tx s)) (rs_db s) kind (lk_mbid l) r = Inr (d, out)" and
    rest: "run_page envs kind r page (s\<lparr>rs_db := d, rs_tx := Suc (rs_tx s), rs_tally := ta,
             rs_cursor := lk_mbid l, rs_log := rs_log s @ [(lk_mbid l, out)]\<rparr>) = Inr s'"
    by (auto split: sum.splits)
  from Cons.IH [OF rest] reattach_one_keys [OF d] show ?case by simp
qed simp

lemma run_page_cursor:
  "run_page envs kind r page s = Inr s' \<Longrightarrow> page \<noteq> [] \<Longrightarrow> rs_cursor s' = lk_mbid (last page)"
proof (induction page arbitrary: s)
  case (Cons l page)
  from Cons.prems(1) obtain d out ta where
    rest: "run_page envs kind r page (s\<lparr>rs_db := d, rs_tx := Suc (rs_tx s), rs_tally := ta,
             rs_cursor := lk_mbid l, rs_log := rs_log s @ [(lk_mbid l, out)]\<rparr>) = Inr s'"
    by (auto split: sum.splits)
  show ?case
  proof (cases "page = []")
    case True
    with rest show ?thesis by auto
  qed (use Cons.IH [OF rest] in simp)
qed simp

lemma candidate_pageD:
  assumes "l \<in> set (candidate_page kind d cursor n)"
  shows "cursor < lk_mbid l" "candidate l" "lk_mbid l \<in> set (keys_of d (mb_table kind))"
proof -
  from assms have l: "l \<in> set (linked_rows kind d)" "cursor < lk_mbid l" "candidate l"
    by (auto simp: candidate_page_def dest!: in_set_takeD)
  then show "cursor < lk_mbid l" "candidate l" by simp_all
  from l(1) show "lk_mbid l \<in> set (keys_of d (mb_table kind))"
    by (auto simp: linked_rows_def linked_row_def keys_of_def split: option.splits)
qed

text \<open>\<open>while True\<close>: read a page after the cursor, stop when it is empty, else process it.\<close>

definition keys_after :: "split_kind \<Rightarrow> run_state \<Rightarrow> nat" where
  "keys_after kind s = length (filter (\<lambda>k. rs_cursor s < k) (keys_of (rs_db s) (mb_table kind)))"

lemma run_page_progress:
  assumes "run_page envs kind r (candidate_page kind (rs_db s) (rs_cursor s) n) s = Inr s'"
    and "candidate_page kind (rs_db s) (rs_cursor s) n \<noteq> []"
  shows "keys_after kind s' < keys_after kind s"
proof -
  let ?page = "candidate_page kind (rs_db s) (rs_cursor s) n" and ?keys = "keys_of (rs_db s) (mb_table kind)"
  have cursor: "rs_cursor s' = lk_mbid (last ?page)" by (rule run_page_cursor [OF assms])
  have l: "last ?page \<in> set ?page" using assms(2) by simp
  note l = candidate_pageD [OF l]
  have sub: "filter (\<lambda>k. rs_cursor s' < k) ?keys = filter (\<lambda>k. rs_cursor s' < k) (filter (\<lambda>k. rs_cursor s < k) ?keys)"
    using l(1) unfolding filter_filter cursor by (intro filter_cong) auto
  have "length (filter (\<lambda>k. rs_cursor s' < k) (filter (\<lambda>k. rs_cursor s < k) ?keys))
      < length (filter (\<lambda>k. rs_cursor s < k) ?keys)"
    by (rule length_filter_less [of "rs_cursor s'"]) (use l in \<open>auto simp: cursor\<close>)
  then show ?thesis unfolding keys_after_def run_page_keys [OF assms(1)] sub .
qed

function run_kind :: "(nat \<Rightarrow> merge_env) \<Rightarrow> split_kind \<Rightarrow> nat \<Rightarrow> nat \<Rightarrow> run_state
    \<Rightarrow> (run_state \<times> reattach_error, run_state) result" where
  "run_kind envs kind decision batch s =
     (let page = candidate_page kind (rs_db s) (rs_cursor s) batch in
      if page = [] then Inr s
      else case run_page envs kind decision page s of
             Inl err \<Rightarrow> Inl err
           | Inr s' \<Rightarrow> run_kind envs kind decision batch s')"
  by pat_completeness auto
termination
  by (relation "measure (\<lambda>(envs, kind, decision, batch, s). keys_after kind s)")
     (auto intro: run_page_progress)

declare run_kind.simps [simp del]

definition start_kind :: "nat \<Rightarrow> db \<Rightarrow> run_state" where
  "start_kind tx d = \<lparr>rs_db = d, rs_tx = tx, rs_tally = new_tally, rs_cursor = FIRST_MBID, rs_log = []\<rparr>"

text \<open>The loop over the kinds: the state it leaves, and the tallies or the error that ended it.\<close>

fun run_kinds :: "(nat \<Rightarrow> merge_env) \<Rightarrow> nat \<Rightarrow> nat \<Rightarrow> (string, split_kind) dict \<Rightarrow> nat \<Rightarrow> db
    \<Rightarrow> db \<times> (reattach_error, (string, kind_tally) dict) result" where
  "run_kinds envs decision batch [] tx d = (d, Inr [])"
| "run_kinds envs decision batch ((name, kind) # kinds) tx d =
     (case run_kind envs kind decision batch (start_kind tx d) of
        Inl (s, err) \<Rightarrow> (rs_db s, Inl err)
      | Inr s \<Rightarrow>
          (case run_kinds envs decision batch kinds (rs_tx s) (rs_db s) of
             (d', Inl err) \<Rightarrow> (d', Inl err)
           | (d', Inr outs) \<Rightarrow> (d', Inr ((name, rs_tally s) # outs))))"

record report =
  rp_apply :: bool
  rp_census :: "(string, census) dict"
  rp_outcomes :: "(string, kind_tally) dict option"

definition run_reattachment :: "(string \<Rightarrow> string \<Rightarrow> string \<Rightarrow> bool) \<Rightarrow> (nat \<Rightarrow> merge_env) \<Rightarrow> bool \<Rightarrow> nat
    \<Rightarrow> nat option \<Rightarrow> db \<Rightarrow> db \<times> (reattach_error, report) result" where
  "run_reattachment carries envs apply_it batch decision d =
     (if apply_it \<and> decision = None then (d, Inl NeedsDecision)
      else let census = run_census carries d in
        case decision of
          None \<Rightarrow> (d, Inr \<lparr>rp_apply = apply_it, rp_census = census, rp_outcomes = None\<rparr>)
        | Some r \<Rightarrow>
            if \<not> apply_it then (d, Inr \<lparr>rp_apply = apply_it, rp_census = census, rp_outcomes = None\<rparr>)
            else (case run_kinds envs r batch KINDS 0 d of
                    (d', Inl err) \<Rightarrow> (d', Inl err)
                  | (d', Inr outs) \<Rightarrow>
                      (d', Inr \<lparr>rp_apply = apply_it, rp_census = census, rp_outcomes = Some outs\<rparr>)))"

section \<open>The audit entry\<close>

datatype audit_details =
    StartedDetails nat
  | AppliedDetails nat bool "(string, kind_tally) dict"
  | FailedDetails nat reattach_error

record audit_entry =
  ae_id :: nat
  ae_admin :: string
  ae_action :: string
  ae_target :: "nat option"
  ae_details :: audit_details

text \<open>
  What an applying run touches outside the catalog: the audit log, and the Identity Ledger
  refreshes it asks for (a refresh never raises, so only the request is recorded).
\<close>

record world =
  w_db :: db
  w_audit :: "audit_entry list"
  w_refreshes :: "(string \<times> nat) list"

definition STARTED_ACTION :: string where "STARTED_ACTION = ''identity.reattach.started''"
definition APPLY_ACTION :: string where "APPLY_ACTION = ''identity.reattach.apply''"
definition FAILED_ACTION :: string where "FAILED_ACTION = ''identity.reattach.failed''"

definition audit_details :: "report \<Rightarrow> nat \<Rightarrow> audit_details" where
  "audit_details report job =
     AppliedDetails job (rp_apply report) (case rp_outcomes report of None \<Rightarrow> [] | Some outs \<Rightarrow> outs)"

definition failure_details :: "nat \<Rightarrow> reattach_error \<Rightarrow> audit_details" where
  "failure_details job err = FailedDetails job err"

text \<open>\<open>insert_audit_entry\<close> and \<open>update_audit_entry\<close>; the flag says whether the statement goes through.\<close>

definition start_audit_entry :: "bool \<Rightarrow> audit_entry \<Rightarrow> world \<Rightarrow> world option" where
  "start_audit_entry goes entry w =
     (if goes then Some (w\<lparr>w_audit := w_audit w @ [entry]\<rparr>) else None)"

definition finalize_audit_entry :: "bool \<Rightarrow> nat \<Rightarrow> string \<Rightarrow> audit_details \<Rightarrow> world \<Rightarrow> world" where
  "finalize_audit_entry goes entry action details w =
     (if goes
      then w\<lparr>w_audit := map (\<lambda>a. if ae_id a = entry then a\<lparr>ae_action := action, ae_details := details\<rparr> else a) (w_audit w)\<rparr>
      else w)"

definition refresh_ledger :: "string \<Rightarrow> nat \<Rightarrow> world \<Rightarrow> world" where
  "refresh_ledger trigger job w = w\<lparr>w_refreshes := w_refreshes w @ [(trigger, job)]\<rparr>"

datatype run_error = AuditEntryError | RunFailed reattach_error

definition apply_with_audit :: "(string \<Rightarrow> string \<Rightarrow> string \<Rightarrow> bool) \<Rightarrow> (nat \<Rightarrow> merge_env) \<Rightarrow> bool \<times> bool
    \<Rightarrow> string \<Rightarrow> nat \<Rightarrow> nat \<Rightarrow> world \<Rightarrow> world \<times> (run_error, report) result" where
  "apply_with_audit carries envs goes admin job batch w =
     (case start_audit_entry (fst goes)
             \<lparr>ae_id = job, ae_admin = admin, ae_action = STARTED_ACTION, ae_target = Some job,
              ae_details = StartedDetails job\<rparr> w of
        None \<Rightarrow> (w, Inl AuditEntryError)
      | Some w1 \<Rightarrow>
          (case run_reattachment carries envs True batch (Some job) (w_db w1) of
             (d, Inl err) \<Rightarrow>
               (refresh_ledger ''reattach'' job
                  (finalize_audit_entry (snd goes) job FAILED_ACTION (failure_details job err) (w1\<lparr>w_db := d\<rparr>)),
                Inl (RunFailed err))
           | (d, Inr report) \<Rightarrow>
               (refresh_ledger ''reattach'' job
                  (finalize_audit_entry (snd goes) job APPLY_ACTION (audit_details report job) (w1\<lparr>w_db := d\<rparr>)),
                Inr report)))"

end
