(* ===== verification/Reattach_Properties.thy ===== *)
theory Reattach_Properties
  imports Reattach
begin

text \<open>
  Properties of the re-attachment job: what one item's transaction does to the alias table, that
  a second run over it does nothing, that a whole run keeps the invariants of the alias and
  supersession tables, that it visits each item once and tallies what it did, and that an
  applying run is always accounted for in the audit log.
\<close>

section \<open>Moving the aliases\<close>

lemma alias_key_simps [simp]:
  "alias_key (al\<lparr>al_to := v\<rparr>) = alias_key al"
  "alias_key (reinserted e n al) = alias_key al"
  "is_current (reinserted e n al)"
  "native_id (reinserted e n al) = n"
  "\<not> is_current (al\<lparr>al_to := Some u\<rparr>)"
  by (simp_all add: alias_key_def reinserted_def is_current_def)

lemma reinsert_fresh:
  assumes "distinct (map alias_key closed)"
    and "\<And>al b. al \<in> set closed \<Longrightarrow> b \<in> set als \<Longrightarrow> is_current b \<Longrightarrow> alias_key b \<noteq> alias_key al"
  shows "reinsert_aliases e n closed als = (als @ map (reinserted e n) closed, map alias_key closed)"
  using assms
proof (induction closed arbitrary: als)
  case (Cons al closed)
  have "\<not> list_ex (\<lambda>b. is_current b \<and> alias_key b = alias_key al) als"
    using Cons.prems(2) [of al] by (auto simp: list_ex_iff)
  moreover have "reinsert_aliases e n closed (als @ [reinserted e n al])
      = ((als @ [reinserted e n al]) @ map (reinserted e n) closed, map alias_key closed)"
  proof (rule Cons.IH)
    show "distinct (map alias_key closed)" using Cons.prems(1) by simp
    fix c b
    assume c: "c \<in> set closed" and b: "b \<in> set (als @ [reinserted e n al])" "is_current b"
    show "alias_key b \<noteq> alias_key c"
      using b c Cons.prems(1) Cons.prems(2) [of c b] by force
  qed
  ultimately show ?case by (simp add: Let_def)
qed simp

text \<open>The alias table after the alias steps, in closed form.\<close>

definition moved_aliases :: "merge_env \<Rightarrow> nat \<Rightarrow> nat \<Rightarrow> provider_alias list \<Rightarrow> provider_alias list" where
  "moved_aliases e split native als =
     close_aliases e split als @ map (reinserted e native) (filter (held_by split) als)"

lemma close_aliasesD:
  "b \<in> set (close_aliases e split als) \<Longrightarrow> is_current b \<Longrightarrow> b \<in> set als \<and> native_id b \<noteq> split"
  by (auto simp: close_aliases_def held_by_def split: if_splits)

lemma close_aliasesI:
  "b \<in> set als \<Longrightarrow> is_current b \<Longrightarrow> native_id b \<noteq> split \<Longrightarrow> b \<in> set (close_aliases e split als)"
  by (force simp: close_aliases_def held_by_def)

lemma held_keys_distinct:
  assumes "alias_unique als"
  shows "distinct (map alias_key (filter (held_by split) als))"
proof -
  have "filter (held_by split) als = filter (\<lambda>al. native_id al = split) (filter is_current als)"
    by (simp add: held_by_def [abs_def] conj_commute)
  moreover have "distinct (map alias_key (filter is_current als))"
    using assms by (simp add: alias_unique_def)
  ultimately show ?thesis by (metis distinct_map_filter)
qed

lemma move_aliases_unique:
  assumes "alias_unique als"
  shows "move_aliases e split native als
    = Inr (moved_aliases e split native als, length (filter (held_by split) als), 0)"
proof -
  let ?closed = "filter (held_by split) als"
  have "reinsert_aliases e native ?closed (close_aliases e split als)
      = (moved_aliases e split native als, map alias_key ?closed)"
    unfolding moved_aliases_def
  proof (rule reinsert_fresh [OF held_keys_distinct [OF assms]])
    fix al b
    assume al: "al \<in> set ?closed" and b: "b \<in> set (close_aliases e split als)" "is_current b"
    show "alias_key b \<noteq> alias_key al"
      using alias_uniqueD [OF assms, of b al] close_aliasesD [OF b] al b by (auto simp: held_by_def)
  qed
  moreover have "filter (\<lambda>k. k \<notin> alias_key ` set ?closed) (map alias_key ?closed) = []"
    by (auto simp: filter_empty_conv)
  ultimately show ?thesis
    by (auto simp: move_aliases_def Let_def moved_aliases_def)
qed

lemma moved_aliases_current:
  assumes "b \<in> set (moved_aliases e split native als)" "is_current b"
  obtains (kept) "b \<in> set als" "native_id b \<noteq> split"
  | (moved) al where "al \<in> set als" "held_by split al" "b = reinserted e native al"
  using assms by (auto simp: moved_aliases_def dest: close_aliasesD)

lemma moved_aliases_alias_unique:
  assumes "alias_unique als"
  shows "alias_unique (moved_aliases e split native als)"
proof -
  let ?closed = "filter (held_by split) als"
  have "filter is_current (close_aliases e split als) = filter (\<lambda>al. native_id al \<noteq> split) (filter is_current als)"
    unfolding close_aliases_def
    by (induction als) (auto simp: held_by_def)
  moreover have "filter is_current (map (reinserted e native) xs) = map (reinserted e native) xs" for xs
    by (induction xs) auto
  ultimately have eq: "map alias_key (filter is_current (moved_aliases e split native als))
      = map alias_key (filter (\<lambda>al. native_id al \<noteq> split) (filter is_current als)) @ map alias_key ?closed"
    by (simp add: moved_aliases_def comp_def)
  have "distinct (map alias_key (filter (\<lambda>al. native_id al \<noteq> split) (filter is_current als)))"
    using assms unfolding alias_unique_def by (rule distinct_map_filter)
  moreover have "alias_key ` set (filter (\<lambda>al. native_id al \<noteq> split) (filter is_current als)) \<inter> alias_key ` set ?closed = {}"
    unfolding set_filter held_by_def by (blast dest: alias_uniqueD [OF assms])
  ultimately show ?thesis
    unfolding alias_unique_def eq using held_keys_distinct [OF assms] by auto
qed

lemma holder_None: "holder als k = None \<longleftrightarrow> (\<forall>al \<in> set als. is_current al \<longrightarrow> alias_key al \<noteq> k)"
  by (auto simp: holder_def find_None_iff)

lemma holder_moved:
  assumes u: "alias_unique als"
  shows "holder (moved_aliases e split native als) k
    = (if holder als k = Some split then Some native else holder als k)"
proof -
  note u' = moved_aliases_alias_unique [OF u, of e split native]
  show ?thesis
  proof (cases "holder als k")
    case None
    have "holder (moved_aliases e split native als) k = None"
      unfolding holder_None
    proof (intro ballI impI)
      fix b
      assume "b \<in> set (moved_aliases e split native als)" "is_current b"
      then show "alias_key b \<noteq> k"
        by (cases rule: moved_aliases_current) (use None \<open>is_current b\<close> in \<open>auto simp: holder_None held_by_def\<close>)
    qed
    with None show ?thesis by simp
  next
    case (Some n)
    then obtain al where al: "al \<in> set als" "is_current al" "alias_key al = k" "native_id al = n"
      using holder_SomeD by blast
    show ?thesis
    proof (cases "n = split")
      case True
      then have "reinserted e native al \<in> set (moved_aliases e split native als)"
        using al by (simp add: moved_aliases_def held_by_def)
      from holder_SomeI [OF u' this] al Some True show ?thesis by simp
    next
      case False
      then have "al \<in> set (moved_aliases e split native als)"
        using al by (simp add: moved_aliases_def close_aliasesI)
      from holder_SomeI [OF u' this al(2)] al Some False show ?thesis by simp
    qed
  qed
qed

text \<open>Reading the two aliases under lock is looking up their holders.\<close>

lemma resolve_aliases_holder:
  assumes u: "alias_unique als"
  shows "map_of (resolve_aliases kind mbid did als) ''musicbrainz'' = holder als (''musicbrainz'', kind, mbid)"
    "map_of (resolve_aliases kind mbid did als) ''discogs'' = holder als (''discogs'', kind, did)"
proof -
  let ?P = "\<lambda>al. is_current al \<and> al_kind al = kind
      \<and> (al_provider al = ''musicbrainz'' \<and> al_external al = mbid \<or> al_provider al = ''discogs'' \<and> al_external al = did)"
  have fold: "map_of (foldl (\<lambda>m al. dict_set (al_provider al) (native_id al) m) [] (filter P xs)) p
      = map_option native_id (find (\<lambda>al. al_provider al = p \<and> P al) (rev xs))" for P xs p
    by (induction xs rule: rev_induct) auto
  have find: "map_option native_id (find Q (rev als)) = holder als k"
    if Q: "\<And>al. Q al \<longleftrightarrow> is_current al \<and> alias_key al = k" for Q k
  proof (cases "holder als k")
    case None
    then have "find Q (rev als) = None" by (simp add: find_None_iff holder_None Q)
    with None show ?thesis by simp
  next
    case (Some n)
    then obtain al where al: "al \<in> set als" "is_current al" "alias_key al = k" "native_id al = n"
      using holder_SomeD by blast
    have "find Q (rev als) = Some al"
      using al by (intro find_unique) (auto simp: Q intro: alias_uniqueD [OF u])
    with al Some show ?thesis by simp
  qed
  show "map_of (resolve_aliases kind mbid did als) ''musicbrainz'' = holder als (''musicbrainz'', kind, mbid)"
    unfolding resolve_aliases_def fold by (rule find) (auto simp: alias_key_def)
  show "map_of (resolve_aliases kind mbid did als) ''discogs'' = holder als (''discogs'', kind, did)"
    unfolding resolve_aliases_def fold by (rule find) (auto simp: alias_key_def)
qed

section \<open>What one item's transaction does\<close>

text \<open>A successful item, taken apart.\<close>

lemma reattach_itemE:
  assumes "reattach_item e d kind mbid r = Inr (d', out)" "io_status out = ''reattached''"
  obtains row did split native item_kind where
    "find (\<lambda>row. cr_key row = mbid) (cached d (mb_table kind)) = Some row" "cr_discogs row = Some did"
    "split_under_lock (gm_item_id row) (map_of (resolve_aliases (sk_entity_kind kind) mbid did (aliases d)) ''musicbrainz'')
       (map_of (resolve_aliases (sk_entity_kind kind) mbid did (aliases d)) ''discogs'') = Some (split, native)"
    "lock_items d split native False = Inr item_kind"
    "guard_reasons (guards kind mbid split (aliases d)) = []"
    "apply_reattach e d kind mbid r split native item_kind = Inr (d', out)"
  using assms
  by (auto simp: reattach_item_def item_outcome_def Let_def split: option.splits sum.splits if_splits prod.splits)

lemma reattach_item_skips:
  assumes "reattach_item e d kind mbid r = Inr (d', out)" "io_status out \<noteq> ''reattached''"
  shows "d' = d"
  using assms
  by (auto simp: reattach_item_def item_outcome_def apply_reattach_def Let_def
      split: option.splits sum.splits if_splits prod.splits)

text \<open>The database the merge starts from: the aliases moved and the row's own cache set.\<close>

definition before_merge :: "merge_env \<Rightarrow> split_kind \<Rightarrow> string \<Rightarrow> nat \<Rightarrow> nat \<Rightarrow> db \<Rightarrow> db" where
  "before_merge e kind mbid split native d =
     set_gm_item_id kind native mbid (d\<lparr>aliases := moved_aliases e split native (aliases d)\<rparr>)"

lemma lock_items_cong: "catalog_items d' = catalog_items d \<Longrightarrow> lock_items d' x y b = lock_items d x y b"
  by (simp add: lock_items_def)

lemma current_supersession_cong:
  "supersessions d' = supersessions d \<Longrightarrow> current_supersession d' x y = current_supersession d x y"
  by (simp add: current_supersession_def current_survivors_def)

lemma before_merge_frame [simp]:
  "catalog_items (before_merge e kind mbid x y d) = catalog_items d"
  "supersessions (before_merge e kind mbid x y d) = supersessions d"
  "asserted (before_merge e kind mbid x y d) = asserted d"
  "moves (before_merge e kind mbid x y d) = moves d"
  "aliases (before_merge e kind mbid x y d) = moved_aliases e x y (aliases d)"
  by (simp_all add: before_merge_def set_gm_item_id_def)

lemma apply_reattachE:
  assumes "apply_reattach e d kind mbid r x y item_kind = Inr (d', out)" "alias_unique (aliases d)"
  obtains ex merge where "current_supersession d x y = Inr ex"
    "merge_items e (before_merge e kind mbid x y d) x y item_kind ''catalog_reattachment'' r ex = Inr (d', merge)"
    "out = \<lparr>io_status = ''reattached'', io_reasons = [], io_split = Some x, io_discogs = Some y,
       io_aliases = length (filter (held_by x) (aliases d)), io_collisions = 0, io_opened = mo_opened merge,
       io_compressed = mo_compressed merge, io_moved = mo_moved merge, io_caches = mo_caches merge\<rparr>"
  using assms
  by (auto simp: apply_reattach_def move_aliases_unique before_merge_def split: sum.splits)

lemma split_under_lockD:
  assumes "split_under_lock gm mn dn = Some (x, y)"
  shows "x \<noteq> y" "dn = Some y" "\<exists>m. mn = Some m \<and> (m = x \<or> m = y)"
  using assms by (auto simp: split_under_lock_def split: option.splits if_splits)

text \<open>A row of the MusicBrainz table keeps the Discogs item it was set to through the merge.\<close>

lemma merge_items_cached:
  assumes "merge_items e d x y kind cause r ex = Inr (d', out)"
  obtains cs where "map_of CACHE_TABLES kind = Some cs"
    "\<And>t. alias_unique (aliases d) \<Longrightarrow> t \<notin> ct_table ` set cs \<Longrightarrow> cached d' t = cached d t"
    "\<And>c. alias_unique (aliases d) \<Longrightarrow> c \<in> set cs \<Longrightarrow>
       cached d' (ct_table c) = map (fresh_cache c [x, y] (aliases d)) (cached d (ct_table c))"
  using assms
proof (cases rule: merge_itemsE)
  case (1 cs)
  let ?d = "fst (repoint_tables e (mo_supersession out) x y (dict_keys MOVED_TABLES) (fst (supersede e d x y cause r ex)))"
  have "aliases ?d = aliases d" "cached ?d = cached d" by simp_all
  with 1 recompute_tables_cached [of ?d cs] cache_tables_distinct [OF 1(2)] show thesis
    by (intro that [of cs]) simp_all
qed

lemma musicbrainz_caches:
  assumes "map_of CACHE_TABLES k = Some cs" "c \<in> set cs" "ct_table c = mb_table kind" "kind \<in> set (map snd KINDS)"
  shows "ct_provider c = ''musicbrainz'' \<and> ct_entity_kind c = sk_entity_kind kind"
  using assms
  by (auto simp: CACHE_TABLES_def cache_table_def KINDS_def split_kind_def mb_table_def split: if_splits)

lemma fresh_cache_key [simp]: "cr_key (fresh_cache c ids als row) = cr_key row"
  "cr_discogs (fresh_cache c ids als row) = cr_discogs row"
  by (simp_all add: fresh_cache_def split: option.splits)

lemma fresh_cache_stays:
  assumes "gm_item_id row = Some y" "holder als (cache_key c row) = Some y \<or> holder als (cache_key c row) = None"
  shows "gm_item_id (fresh_cache c ids als row) = Some y"
  using assms by (auto simp: fresh_cache_def)

text \<open>Every row of that mbid, after the item: same Discogs id as before, cached on the Discogs item.\<close>

lemma reattached_rows:
  assumes u: "alias_unique (aliases d)" and kind: "kind \<in> set (map snd KINDS)"
    and merge: "merge_items e (before_merge e kind mbid x y d) x y k cause r ex = Inr (d', out)"
    and own: "holder (moved_aliases e x y (aliases d)) (''musicbrainz'', sk_entity_kind kind, mbid) = Some y"
  shows "\<exists>f. cached d' (mb_table kind) = map f (cached d (mb_table kind))
    \<and> (\<forall>row. cr_key (f row) = cr_key row \<and> cr_discogs (f row) = cr_discogs row)
    \<and> (\<forall>row. cr_key row = mbid \<longrightarrow> gm_item_id (f row) = Some y)"
  using merge
proof (rule merge_items_cached)
  fix cs
  let ?b = "before_merge e kind mbid x y d"
  let ?g = "\<lambda>row. if cr_key row = mbid then row\<lparr>gm_item_id := Some y\<rparr> else row"
  assume cs: "map_of CACHE_TABLES k = Some cs"
    and out: "\<And>t. alias_unique (aliases ?b) \<Longrightarrow> t \<notin> ct_table ` set cs \<Longrightarrow> cached d' t = cached ?b t"
    and inn: "\<And>c. alias_unique (aliases ?b) \<Longrightarrow> c \<in> set cs \<Longrightarrow>
       cached d' (ct_table c) = map (fresh_cache c [x, y] (aliases ?b)) (cached ?b (ct_table c))"
  have ub: "alias_unique (aliases ?b)" using moved_aliases_alias_unique [OF u] by simp
  have b: "cached ?b (mb_table kind) = map ?g (cached d (mb_table kind))"
    by (simp add: before_merge_def set_gm_item_id_def)
  show ?thesis
  proof (cases "mb_table kind \<in> ct_table ` set cs")
    case False
    then show ?thesis using out [OF ub] b by (intro exI [of _ ?g]) simp
  next
    case True
    then obtain c where c: "c \<in> set cs" "ct_table c = mb_table kind" by auto
    let ?f = "\<lambda>row. fresh_cache c [x, y] (aliases ?b) (?g row)"
    have "gm_item_id (?f row) = Some y" if "cr_key row = mbid" for row
      using that own musicbrainz_caches [OF cs c kind] by (intro fresh_cache_stays) (simp_all add: cache_key_def)
    moreover have "cached d' (mb_table kind) = map ?f (cached d (mb_table kind))"
      using inn [OF ub c(1)] b c(2) by simp
    ultimately show ?thesis by (intro exI [of _ ?f]) auto
  qed
qed

text \<open>A re-attached item, with everything the properties need of it.\<close>

lemma reattachedE:
  assumes u: "alias_unique (aliases d)"
    and run: "reattach_item e d kind mbid r = Inr (d', out)" "io_status out = ''reattached''"
  obtains row did x y k ex merge where
    "find (\<lambda>row. cr_key row = mbid) (cached d (mb_table kind)) = Some row" "cr_discogs row = Some did"
    "x \<noteq> y" "lock_items d x y False = Inr k" "current_supersession d x y = Inr ex"
    "holder (aliases d) (''discogs'', sk_entity_kind kind, did) = Some y"
    "holder (moved_aliases e x y (aliases d)) (''musicbrainz'', sk_entity_kind kind, mbid) = Some y"
    "guard_reasons (guards kind mbid x (aliases d)) = []"
    "merge_items e (before_merge e kind mbid x y d) x y k ''catalog_reattachment'' r ex = Inr (d', merge)"
    "io_split out = Some x" "io_discogs out = Some y"
    "io_aliases out = length (filter (held_by x) (aliases d))" "io_collisions out = 0"
  using run
proof (rule reattach_itemE)
  fix row did x y k
  assume row: "find (\<lambda>row. cr_key row = mbid) (cached d (mb_table kind)) = Some row" "cr_discogs row = Some did"
    and split: "split_under_lock (gm_item_id row)
        (map_of (resolve_aliases (sk_entity_kind kind) mbid did (aliases d)) ''musicbrainz'')
        (map_of (resolve_aliases (sk_entity_kind kind) mbid did (aliases d)) ''discogs'') = Some (x, y)"
    and lock: "lock_items d x y False = Inr k" and free: "guard_reasons (guards kind mbid x (aliases d)) = []"
    and app: "apply_reattach e d kind mbid r x y k = Inr (d', out)"
  from app u show thesis
  proof (rule apply_reattachE)
    fix ex merge
    assume check: "current_supersession d x y = Inr ex"
      and m: "merge_items e (before_merge e kind mbid x y d) x y k ''catalog_reattachment'' r ex = Inr (d', merge)"
      and out: "out = \<lparr>io_status = ''reattached'', io_reasons = [], io_split = Some x, io_discogs = Some y,
       io_aliases = length (filter (held_by x) (aliases d)), io_collisions = 0, io_opened = mo_opened merge,
       io_compressed = mo_compressed merge, io_moved = mo_moved merge, io_caches = mo_caches merge\<rparr>"
    note s = split_under_lockD [OF split]
    have own: "holder (moved_aliases e x y (aliases d)) (''musicbrainz'', sk_entity_kind kind, mbid) = Some y"
      using s(3) resolve_aliases_holder(1) [OF u] by (auto simp: holder_moved [OF u])
    show thesis
      by (rule that [OF row s(1) lock check _ own free m])
        (use s(2) resolve_aliases_holder(2) [OF u] out in simp_all)
  qed
qed

text \<open>A catalog with one split release, for the witnesses.\<close>

definition ex_split_db :: db where
  "ex_split_db = ex_db
     \<lparr>cached := (\<lambda>t. if t = ''musicbrainz.releases'' then [\<lparr>cr_key = ''m1'', gm_item_id = Some 1, cr_discogs = Some ''7''\<rparr>]
                     else if t = ''public.releases'' then [\<lparr>cr_key = ''7'', gm_item_id = Some 2, cr_discogs = None\<rparr>]
                     else []),
      aliases := map (\<lambda>(p, x, n). \<lparr>al_provider = p, al_kind = ''release'', al_external = x, native_id = n,
                     al_source = ''catalog'', al_confidence = 100, al_from = 0, al_to = None\<rparr>)
                   [(''discogs'', ''7'', 2), (''musicbrainz'', ''m1'', 1), (''barcode'', ''b'', 1)]\<rparr>"

definition ex_kind :: split_kind where
  "ex_kind = split_kind ''releases'' ''discogs_release_id'' ''release''"

text \<open>
  Re-attachment unites the two items.  When an item's transaction re-attaches it, over an
  alias table with one current alias per key, the two named items are different; every key whose
  current alias named the split item now resolves to the Discogs item and every other key
  resolves as before, so no key is lost and none is taken from a third item; the alias table
  still has one current alias per key; the split item resolves to the Discogs item and what
  resolved to it follows; every alias the split item held is counted, and none collides.
\<close>

theorem reattach_unites:
  assumes "db_ok t d" "t < now_of e" "fresh_ids e (supersessions d)" "alias_unique (aliases d)"
    and run: "reattach_item e d kind mbid r = Inr (d', out)" "io_status out = ''reattached''"
  shows "\<exists>x y. io_split out = Some x \<and> io_discogs out = Some y \<and> x \<noteq> y
    \<and> holder (aliases d') k = (if holder (aliases d) k = Some x then Some y else holder (aliases d) k)
    \<and> alias_unique (aliases d')
    \<and> resolves d' i = (if resolves d i = x then y else resolves d i) \<and> resolves d' x = y
    \<and> io_aliases out = length (filter (held_by x) (aliases d)) \<and> io_collisions out = 0"
  using assms(4) run
proof (rule reattachedE)
  fix row did x y ik ex merge
  let ?b = "before_merge e kind mbid x y d"
  assume xy: "x \<noteq> y" and lock: "lock_items d x y False = Inr ik" and check: "current_supersession d x y = Inr ex"
    and m: "merge_items e ?b x y ik ''catalog_reattachment'' r ex = Inr (d', merge)"
    and out: "io_split out = Some x" "io_discogs out = Some y"
      "io_aliases out = length (filter (held_by x) (aliases d))" "io_collisions out = 0"
  have als: "aliases d' = moved_aliases e x y (aliases d)" using merge_tables(5) [OF m] by simp
  have "db_ok t ?b" "fresh_ids e (supersessions ?b)" "lock_items ?b x y False = Inr ik" "current_supersession ?b x y = Inr ex"
    using assms(1,3) lock check lock_items_cong [of ?b d] current_supersession_cong [of ?b d]
    by (simp_all add: db_ok_def)
  moreover have "resolves ?b = resolves d" by (rule ext) (simp add: resolves_def)
  ultimately have "resolves d' i = (if resolves d i = x then y else resolves d i) \<and> resolves d' x = y"
    using merge_redirects_lib [OF _ assms(2) _ _ _ m, of i] by simp
  then show ?thesis
    using out xy als holder_moved [OF assms(4)] moved_aliases_alias_unique [OF assms(4)] by auto
qed

theorem reattach_unites_witness:
  "\<exists>d' out. reattach_item (ex_env 10 100) ex_split_db ex_kind ''m1'' 900 = Inr (d', out)
     \<and> holder (aliases ex_split_db) (''barcode'', ''release'', ''b'') = Some 1
     \<and> holder (aliases d') (''barcode'', ''release'', ''b'') = Some 2
     \<and> resolves d' 1 = 2 \<and> io_aliases out = 2"
proof -
  have ok: "db_ok 5 ex_split_db" "5 < now_of (ex_env 10 100)" "fresh_ids (ex_env 10 100) (supersessions ex_split_db)"
    "alias_unique (aliases ex_split_db)" "holder (aliases ex_split_db) (''barcode'', ''release'', ''b'') = Some 1"
    unfolding fresh_ex_env by code_simp+
  have "case reattach_item (ex_env 10 100) ex_split_db ex_kind ''m1'' 900 of Inl e \<Rightarrow> False
      | Inr z \<Rightarrow> io_status (snd z) = ''reattached'' \<and> io_split (snd z) = Some 1"
    by code_simp
  then obtain d' out where r: "reattach_item (ex_env 10 100) ex_split_db ex_kind ''m1'' 900 = Inr (d', out)"
    "io_status out = ''reattached''" "io_split out = Some 1"
    by (auto split: sum.splits)
  have "holder (aliases ex_split_db) (''discogs'', ''release'', ''7'') = Some 2"
    "length (filter (held_by 1) (aliases ex_split_db)) = 2" by code_simp+
  moreover have "io_discogs out = Some 2"
  proof -
    have "case reattach_item (ex_env 10 100) ex_split_db ex_kind ''m1'' 900 of Inl e \<Rightarrow> False
      | Inr z \<Rightarrow> io_discogs (snd z) = Some 2" by code_simp
    with r show ?thesis by simp
  qed
  ultimately show ?thesis
    using reattach_unites [OF ok(1-4) r(1,2), of "(''barcode'', ''release'', ''b'')" 1] r ok(5) by auto
qed

text \<open>
  Only a re-attachment writes, and once.  An item that is guarded or unchanged leaves the
  database as it was.  After an item has been re-attached, running it again, at any time and
  under any decision, reports it unchanged and leaves the database as it was; so a repeated or
  resumed run repairs nothing twice.
\<close>

theorem reattach_idempotent:
  assumes "alias_unique (aliases d)" "kind \<in> set (map snd KINDS)"
    and run: "reattach_item e d kind mbid r = Inr (d', out)"
  shows "(io_status out \<noteq> ''reattached'' \<longrightarrow> d' = d)
    \<and> (io_status out = ''reattached'' \<longrightarrow>
         reattach_item e2 d' kind mbid r2 = Inr (d', item_outcome ''unchanged''))"
proof (intro conjI impI)
  show "d' = d" if "io_status out \<noteq> ''reattached''" by (rule reattach_item_skips [OF run that])
  assume status: "io_status out = ''reattached''"
  show "reattach_item e2 d' kind mbid r2 = Inr (d', item_outcome ''unchanged'')"
    using assms(1) run status
  proof (rule reattachedE)
    fix row did x y ik ex merge
    assume row: "find (\<lambda>row. cr_key row = mbid) (cached d (mb_table kind)) = Some row" "cr_discogs row = Some did"
      and xy: "x \<noteq> y"
      and dn: "holder (aliases d) (''discogs'', sk_entity_kind kind, did) = Some y"
      and own: "holder (moved_aliases e x y (aliases d)) (''musicbrainz'', sk_entity_kind kind, mbid) = Some y"
      and m: "merge_items e (before_merge e kind mbid x y d) x y ik ''catalog_reattachment'' r ex = Inr (d', merge)"
    obtain f where f: "cached d' (mb_table kind) = map f (cached d (mb_table kind))"
      "\<forall>row. cr_key (f row) = cr_key row \<and> cr_discogs (f row) = cr_discogs row"
      "\<forall>row. cr_key row = mbid \<longrightarrow> gm_item_id (f row) = Some y"
      using reattached_rows [OF assms(1,2) m own] by blast
    have "find (\<lambda>row. cr_key row = mbid) (map f rows) = map_option f (find (\<lambda>row. cr_key row = mbid) rows)" for rows
      using f(2) by (induction rows) auto
    then have found: "find (\<lambda>row. cr_key row = mbid) (cached d' (mb_table kind)) = Some (f row)"
      using f(1) row(1) by simp
    have key: "cr_key row = mbid" using row(1) by (auto dest: find_SomeD)
    have als: "aliases d' = moved_aliases e x y (aliases d)" using merge_tables(5) [OF m] by simp
    have "holder (aliases d') (''discogs'', sk_entity_kind kind, did) = Some y"
      using dn xy by (simp add: als holder_moved [OF assms(1)])
    moreover have "holder (aliases d') (''musicbrainz'', sk_entity_kind kind, mbid) = Some y"
      using own als by simp
    moreover have "alias_unique (aliases d')" using moved_aliases_alias_unique [OF assms(1)] als by simp
    ultimately show ?thesis
      using found f(2,3) key row(2)
      by (simp add: reattach_item_def resolve_aliases_holder split_under_lock_def)
  qed
qed

theorem reattach_idempotent_witness:
  "\<exists>d' out. reattach_item (ex_env 10 100) ex_split_db ex_kind ''m1'' 900 = Inr (d', out)
     \<and> io_status out = ''reattached''
     \<and> reattach_item (ex_env 20 200) d' ex_kind ''m1'' 901 = Inr (d', item_outcome ''unchanged'')"
proof -
  have u: "alias_unique (aliases ex_split_db)" by code_simp
  have k: "ex_kind \<in> set (map snd KINDS)" by (simp add: ex_kind_def KINDS_def)
  have "case reattach_item (ex_env 10 100) ex_split_db ex_kind ''m1'' 900 of Inl e \<Rightarrow> False
      | Inr z \<Rightarrow> io_status (snd z) = ''reattached''" by code_simp
  then obtain d' out where "reattach_item (ex_env 10 100) ex_split_db ex_kind ''m1'' 900 = Inr (d', out)"
    "io_status out = ''reattached''" by (auto split: sum.splits)
  with reattach_idempotent [OF u k this(1)] show ?thesis by blast
qed

section \<open>A whole run\<close>

text \<open>The invariant of the two tables at time \<open>t\<close>, kept by every item's transaction.\<close>

definition store_ok :: "int \<Rightarrow> db \<Rightarrow> bool" where
  "store_ok t d \<longleftrightarrow> db_ok t d \<and> alias_unique (aliases d)"

type_synonym item_key = "merge_env \<times> split_kind \<times> string \<times> nat"

fun item_step :: "item_key \<Rightarrow> db \<Rightarrow> (reattach_error, db \<times> item_outcome) result" where
  "item_step (e, kind, mbid, r) d = reattach_item e d kind mbid r"

definition item_ready :: "item_key \<Rightarrow> db \<Rightarrow> bool" where
  "item_ready k d \<longleftrightarrow> fresh_ids (fst k) (supersessions d)"

definition item_start :: "item_key \<Rightarrow> int" where
  "item_start k = now_of (fst k)"

lemma reattach_supersessions:
  assumes "alias_unique (aliases d)" "reattach_item e d kind mbid r = Inr (d', out)"
  obtains "supersessions d' = supersessions d" "aliases d' = aliases d"
  | x y where "mergeable (supersessions d) x y" "aliases d' = moved_aliases e x y (aliases d)"
      "supersessions d' = merged_rows e (supersessions d) x y ''catalog_reattachment'' r"
  | x y where "supersessions d' = supersessions d" "aliases d' = moved_aliases e x y (aliases d)"
proof (cases "io_status out = ''reattached''")
  case False
  then show thesis using reattach_item_skips [OF assms(2) False] that(1) by simp
next
  case True
  with assms show thesis
  proof (rule reattachedE)
    fix x y ex ik merge
    assume xy: "x \<noteq> y" and check: "current_supersession d x y = Inr ex"
      and m: "merge_items e (before_merge e kind mbid x y d) x y ik ''catalog_reattachment'' r ex = Inr (d', merge)"
    have als: "aliases d' = moved_aliases e x y (aliases d)" using merge_tables(5) [OF m] by simp
    note rows = merge_supersessions [OF m xy]
    show thesis
    proof (cases ex)
      case None
      with rows have new: "supersessions d' = merged_rows e (supersessions d) x y ''catalog_reattachment'' r" by simp
      have "mergeable (supersessions d) x y" using mergeableI [OF xy] check None by simp
      then show thesis using als new by (rule that(2))
    next
      case (Some s)
      then show thesis using that(3) als rows by simp
    qed
  qed
qed

lemma reattach_keeps:
  assumes "store_ok t d" "t < now_of e" "fresh_ids e (supersessions d)"
    "reattach_item e d kind mbid r = Inr (d', out)"
  shows "store_ok (now_of e) d'"
proof -
  have u: "alias_unique (aliases d)" and ok: "rows_ok t (supersessions d)"
    using assms(1) by (simp_all add: store_ok_def db_ok_def)
  have later: "rows_ok (now_of e) (supersessions d)" using ok assms(2) by (auto intro: rows_ok_later)
  from u assms(4) show ?thesis
    by (cases rule: reattach_supersessions)
      (use u later merged_rows_ok [OF ok _ assms(2,3)] moved_aliases_alias_unique [OF u]
        in \<open>auto simp: store_ok_def db_ok_def\<close>)
qed

interpretation reattaching: transaction item_step item_ready item_start store_ok
proof unfold_locales
  fix t d k d' out
  assume "store_ok t d" "item_ready k d" "t < item_start k" "item_step k d = Inr (d', out)"
  moreover obtain e kind mbid r where "k = (e, kind, mbid, r)" by (cases k) auto
  ultimately show "store_ok (item_start k) d'"
    by (auto simp: item_ready_def item_start_def intro: reattach_keeps)
next
  show "store_ok t d \<Longrightarrow> t \<le> t' \<Longrightarrow> store_ok t' d" for t t' d
    by (auto simp: store_ok_def db_ok_def intro: rows_ok_later)
qed

lemma reattach_one_commit:
  "reattach_one e d kind mbid r = Inr (d', out) \<Longrightarrow> d' = commit (item_step (e, kind, mbid, r)) d"
  by (auto simp: reattach_one_def commit_def split: sum.splits if_splits)

text \<open>
  What the server supplies over a run: transactions start later and later, and no identifier is
  generated twice.
\<close>

definition envs_ok :: "(nat \<Rightarrow> merge_env) \<Rightarrow> bool" where
  "envs_ok envs \<longleftrightarrow>
     (\<forall>n. now_of (envs n) < now_of (envs (Suc n)))
     \<and> (\<forall>m n. m \<noteq> n \<longrightarrow> range (new_id (envs m)) \<inter> range (new_id (envs n)) = {})"

definition run_inv :: "(nat \<Rightarrow> merge_env) \<Rightarrow> nat \<Rightarrow> db \<Rightarrow> bool" where
  "run_inv envs n d \<longleftrightarrow>
     (\<exists>t < now_of (envs n). store_ok t d) \<and> (\<forall>m \<ge> n. fresh_ids (envs m) (supersessions d))"

lemma merged_ids: "s_id ` set (merged_rows e rows x y cause r) \<subseteq> s_id ` set rows \<union> range (new_id e)"
proof -
  have "map s_id (merged_rows e rows x y cause r)
      = map s_id rows @ map (new_id e) [0..<Suc (length (filter (survives x) rows))]"
    by (simp add: merged_rows_def close_survived_def open_supersession_def map_s_id_compressed
        upt_conv_Cons del: upt_Suc)
  then have "set (map s_id (merged_rows e rows x y cause r))
      = set (map s_id rows) \<union> set (map (new_id e) [0..<Suc (length (filter (survives x) rows))])"
    by (simp del: upt_Suc)
  then show ?thesis by auto
qed

lemma reattach_one_inv:
  assumes envs: "envs_ok envs" and inv: "run_inv envs n d"
    and run: "reattach_one (envs n) d kind mbid r = Inr (d', out)"
  shows "run_inv envs (Suc n) d'"
proof -
  let ?e = "envs n"
  obtain t where t: "t < now_of ?e" "store_ok t d" and fresh: "\<forall>m \<ge> n. fresh_ids (envs m) (supersessions d)"
    using inv by (auto simp: run_inv_def)
  have d': "d' = commit (item_step (?e, kind, mbid, r)) d" by (rule reattach_one_commit [OF run])
  have "store_ok (now_of ?e) d'"
    using reattaching.commit_keeps [OF t(2), of "(?e, kind, mbid, r)"] t(1) fresh
    by (simp add: d' item_ready_def item_start_def)
  moreover have "now_of ?e < now_of (envs (Suc n))" using envs by (simp add: envs_ok_def)
  moreover have "fresh_ids (envs m) (supersessions d')" if "Suc n \<le> m" for m
  proof -
    have old: "fresh_ids (envs m) (supersessions d)" using fresh that by simp
    have "s_id ` set (supersessions d') \<subseteq> s_id ` set (supersessions d) \<union> range (new_id ?e)"
    proof (cases "reattach_item ?e d kind mbid r")
      case (Inl err)
      then show ?thesis by (simp add: d' commit_def)
    next
      case (Inr z)
      then obtain d1 out1 where z: "reattach_item ?e d kind mbid r = Inr (d1, out1)" by (cases z) auto
      have u: "alias_unique (aliases d)" using t(2) by (simp add: store_ok_def)
      from u z show ?thesis
        by (cases rule: reattach_supersessions) (use z merged_ids in \<open>auto simp: d' commit_def\<close>)
    qed
    moreover have "range (new_id (envs m)) \<inter> range (new_id ?e) = {}" using envs that by (simp add: envs_ok_def)
    ultimately show ?thesis using old unfolding fresh_ids_def by blast
  qed
  ultimately show ?thesis by (auto simp: run_inv_def)
qed

lemma run_page_inv:
  assumes envs: "envs_ok envs"
  shows "run_inv envs (rs_tx s) (rs_db s) \<Longrightarrow> run_page envs kind r page s = Inr s'
           \<Longrightarrow> run_inv envs (rs_tx s') (rs_db s')"
    "run_inv envs (rs_tx s) (rs_db s) \<Longrightarrow> run_page envs kind r page s = Inl (s', err)
           \<Longrightarrow> \<exists>n. run_inv envs n (rs_db s')"
proof -
  have "run_inv envs (rs_tx s) (rs_db s) \<Longrightarrow>
     (case run_page envs kind r page s of
        Inr s' \<Rightarrow> run_inv envs (rs_tx s') (rs_db s')
      | Inl (s', err) \<Rightarrow> \<exists>n. run_inv envs n (rs_db s'))"
  proof (induction page arbitrary: s)
    case (Cons l page)
    show ?case
    proof (cases "reattach_one (envs (rs_tx s)) (rs_db s) kind (lk_mbid l) r")
      case (Inl err)
      then show ?thesis using Cons.prems by auto
    next
      case (Inr z)
      then obtain d out where d: "reattach_one (envs (rs_tx s)) (rs_db s) kind (lk_mbid l) r = Inr (d, out)"
        by (cases z) auto
      have inv: "run_inv envs (Suc (rs_tx s)) d" by (rule reattach_one_inv [OF envs Cons.prems d])
      show ?thesis
      proof (cases "tally_add (rs_tally s) out")
        case (Inl err)
        then show ?thesis using d inv by auto
      next
        case (Inr ta)
        have "run_inv envs (rs_tx (s\<lparr>rs_db := d, rs_tx := Suc (rs_tx s), rs_tally := ta, rs_cursor := lk_mbid l,
                 rs_log := rs_log s @ [(lk_mbid l, out)]\<rparr>))
               (rs_db (s\<lparr>rs_db := d, rs_tx := Suc (rs_tx s), rs_tally := ta, rs_cursor := lk_mbid l,
                 rs_log := rs_log s @ [(lk_mbid l, out)]\<rparr>))"
          using inv by simp
        from Cons.IH [OF this] show ?thesis using d Inr by simp
      qed
    qed
  qed simp
  then show "run_inv envs (rs_tx s) (rs_db s) \<Longrightarrow> run_page envs kind r page s = Inr s'
           \<Longrightarrow> run_inv envs (rs_tx s') (rs_db s')"
    "run_inv envs (rs_tx s) (rs_db s) \<Longrightarrow> run_page envs kind r page s = Inl (s', err)
           \<Longrightarrow> \<exists>n. run_inv envs n (rs_db s')" by simp_all
qed

lemma run_kind_step:
  "run_kind envs kind r batch s =
     (if candidate_page kind (rs_db s) (rs_cursor s) batch = [] then Inr s
      else case run_page envs kind r (candidate_page kind (rs_db s) (rs_cursor s) batch) s of
             Inl err \<Rightarrow> Inl err | Inr s' \<Rightarrow> run_kind envs kind r batch s')"
  by (subst run_kind.simps) (simp add: Let_def)

text \<open>Induction over the pages of a kind, to whatever end the loop comes.\<close>

lemma run_kind_pages:
  assumes base: "P s"
    and step: "\<And>s s'. P s \<Longrightarrow> candidate_page kind (rs_db s) (rs_cursor s) batch \<noteq> []
        \<Longrightarrow> run_page envs kind r (candidate_page kind (rs_db s) (rs_cursor s) batch) s = Inr s' \<Longrightarrow> P s'"
    and stop: "\<And>s. P s \<Longrightarrow> candidate_page kind (rs_db s) (rs_cursor s) batch = [] \<Longrightarrow> Q (Inr s)"
    and fail: "\<And>s x. P s \<Longrightarrow> run_page envs kind r (candidate_page kind (rs_db s) (rs_cursor s) batch) s = Inl x \<Longrightarrow> Q (Inl x)"
  shows "Q (run_kind envs kind r batch s)"
  using base
proof (induction s rule: measure_induct_rule [where f = "keys_after kind"])
  case (less s)
  let ?page = "candidate_page kind (rs_db s) (rs_cursor s) batch"
  show ?case
  proof (cases "?page = []")
    case True
    with stop [OF less.prems] show ?thesis by (subst run_kind_step) simp
  next
    case False
    show ?thesis
    proof (cases "run_page envs kind r ?page s")
      case (Inl x)
      with False fail [OF less.prems] show ?thesis by (subst run_kind_step) simp
    next
      case (Inr s')
      have "Q (run_kind envs kind r batch s')"
        using less.IH [OF run_page_progress [OF Inr False] step [OF less.prems False Inr]] .
      with False Inr show ?thesis by (subst run_kind_step) simp
    qed
  qed
qed

lemma run_kind_inv:
  assumes envs: "envs_ok envs" and inv: "run_inv envs (rs_tx s) (rs_db s)"
  shows "case run_kind envs kind r batch s of
      Inr s' \<Rightarrow> run_inv envs (rs_tx s') (rs_db s')
    | Inl (s', err) \<Rightarrow> \<exists>n. run_inv envs n (rs_db s')"
  using inv
proof (rule run_kind_pages [where P = "\<lambda>s. run_inv envs (rs_tx s) (rs_db s)"])
  fix s x
  assume s: "run_inv envs (rs_tx s) (rs_db s)"
    and x: "run_page envs kind r (candidate_page kind (rs_db s) (rs_cursor s) batch) s = Inl x"
  obtain s1 err where "x = (s1, err)" by (cases x) auto
  with run_page_inv(2) [OF envs s] x
  show "case Inl x of Inr s' \<Rightarrow> run_inv envs (rs_tx s') (rs_db s') | Inl (s', err) \<Rightarrow> \<exists>n. run_inv envs n (rs_db s')"
    by auto
qed (auto intro: run_page_inv(1) [OF envs])

lemma run_kinds_inv:
  assumes envs: "envs_ok envs"
  shows "run_inv envs n d \<Longrightarrow> \<exists>m. run_inv envs m (fst (run_kinds envs r batch kinds n d))"
proof (induction kinds arbitrary: n d)
  case (Cons k kinds)
  obtain name kind where k: "k = (name, kind)" by force
  have inv: "run_inv envs (rs_tx (start_kind n d)) (rs_db (start_kind n d))"
    using Cons.prems by (simp add: start_kind_def)
  note one = run_kind_inv [OF envs inv, of kind r batch]
  show ?case
  proof (cases "run_kind envs kind r batch (start_kind n d)")
    case (Inl x)
    with one k show ?thesis by (cases x) auto
  next
    case (Inr s)
    with one have "run_inv envs (rs_tx s) (rs_db s)" by simp
    from Cons.IH [OF this] Inr k show ?thesis
      by (auto split: prod.splits sum.splits)
  qed
qed auto

text \<open>
  A run keeps the tables sound, however it ends.  Start an applying run where every key has
  one current alias, resolution is one hop and nothing is dated later than the first
  transaction, with transactions that start later and later and identifiers that are never
  generated twice.  Whether the run finishes, or an item raises something that ends it half way,
  every key still has one current alias, resolution is still one hop, and no supersession
  closed twice the same way.
\<close>

theorem run_keeps_tables_sound:
  assumes "envs_ok envs" "store_ok t d" "t < now_of (envs 0)"
    and "\<forall>n. fresh_ids (envs n) (supersessions d)"
  shows "\<exists>u. store_ok u (fst (run_reattachment carries envs apply_it batch decision d))
    \<and> alias_unique (aliases (fst (run_reattachment carries envs apply_it batch decision d)))
    \<and> one_hop (supersessions (fst (run_reattachment carries envs apply_it batch decision d)))"
proof -
  let ?d = "fst (run_reattachment carries envs apply_it batch decision d)"
  have "run_inv envs 0 d" using assms(2-4) by (auto simp: run_inv_def)
  then have inv: "\<exists>m. run_inv envs m (fst (run_kinds envs r batch KINDS 0 d))" for r
    by (rule run_kinds_inv [OF assms(1)])
  have "?d = d \<or> (\<exists>r. ?d = fst (run_kinds envs r batch KINDS 0 d))"
    by (auto simp: run_reattachment_def Let_def split: option.splits prod.splits sum.splits) (metis fst_conv)+
  then obtain u where "store_ok u ?d"
    using assms(2) inv by (auto simp: run_inv_def) metis+
  then show ?thesis by (auto simp: store_ok_def db_ok_def rows_ok_def)
qed

text \<open>Identifiers and times for the witnesses: transaction \<open>n\<close> at \<open>10 + n\<close>, ids \<open>2^n (2 i + 1)\<close>.\<close>

definition ex_envs :: "nat \<Rightarrow> merge_env" where
  "ex_envs n = \<lparr>now_of = 10 + int n, new_id = (\<lambda>i. 2 ^ n * (2 * i + 1))\<rparr>"

lemma power_odd_unique: "2 ^ m * (2 * i + 1) = 2 ^ n * (2 * j + 1) \<Longrightarrow> m \<le> (n::nat)" for i j :: nat
proof (rule ccontr)
  assume eq: "2 ^ m * (2 * i + 1) = 2 ^ n * (2 * j + 1)" and "\<not> m \<le> n"
  then obtain k where k: "m = n + Suc k" using less_imp_Suc_add [of n m] by auto
  have "2 ^ n * (2 * (2 ^ k * (2 * i + 1))) = 2 ^ n * (2 * j + 1)"
    using eq unfolding k by (simp add: power_add algebra_simps)
  then have "2 * (2 ^ k * (2 * i + 1)) = 2 * j + 1" by (subst (asm) mult_cancel_left) simp
  then show False by presburger
qed

lemma envs_ok_ex: "envs_ok ex_envs" "fresh_ids (ex_envs n) []"
proof -
  have "range (new_id (ex_envs m)) \<inter> range (new_id (ex_envs n)) = {}" if "m \<noteq> n" for m n
  proof (rule ccontr)
    assume "range (new_id (ex_envs m)) \<inter> range (new_id (ex_envs n)) \<noteq> {}"
    then obtain i j where eq: "new_id (ex_envs m) i = new_id (ex_envs n) j" by blast
    have "2 ^ m * (2 * i + 1) = 2 ^ n * (2 * j + 1)"
      using eq by (simp only: ex_envs_def merge_env.select_convs)
    with power_odd_unique [OF this] power_odd_unique [OF this [symmetric]] that show False by simp
  qed
  moreover have "now_of (ex_envs n) < now_of (ex_envs (Suc n))" for n by (simp add: ex_envs_def)
  ultimately show "envs_ok ex_envs" unfolding envs_ok_def by blast
  have "inj (new_id (ex_envs n))"
  proof (rule injI)
    fix i j
    assume "new_id (ex_envs n) i = new_id (ex_envs n) j"
    then have "2 ^ n * (2 * i + 1) = 2 ^ n * (2 * j + 1)" by (simp only: ex_envs_def merge_env.select_convs)
    then show "i = j" by (subst (asm) mult_cancel_left) simp
  qed
  then show "fresh_ids (ex_envs n) []" by (simp add: fresh_ids_def)
qed

theorem run_keeps_tables_sound_witness:
  "\<exists>u. store_ok u (fst (run_reattachment (\<lambda>a b c. False) ex_envs True 2 (Some 900) ex_split_db))
    \<and> holder (aliases (fst (run_reattachment (\<lambda>a b c. False) ex_envs True 2 (Some 900) ex_split_db))) (''musicbrainz'', ''release'', ''m1'') = Some 2"
proof -
  have "supersessions ex_split_db = []" by (simp add: ex_split_db_def ex_db_def)
  then have "\<forall>n. fresh_ids (ex_envs n) (supersessions ex_split_db)" using envs_ok_ex(2) by simp
  moreover have "store_ok 5 ex_split_db" by code_simp
  moreover have "5 < now_of (ex_envs 0)" by (simp add: ex_envs_def)
  moreover have "holder (aliases (fst (run_reattachment (\<lambda>a b c. False) ex_envs True 2 (Some 900) ex_split_db))) (''musicbrainz'', ''release'', ''m1'') = Some 2"
    by code_simp
  ultimately show ?thesis
    using run_keeps_tables_sound [OF envs_ok_ex(1), of 5 ex_split_db "\<lambda>a b c. False" True 2 "Some 900"] by blast
qed

section \<open>A run finishes, and tallies what it did\<close>

lemma keys_dict_set_present: "k \<in> set (dict_keys m) \<Longrightarrow> dict_keys (dict_set k v m) = dict_keys m"
  by (induction m) force+

lemma bump_present:
  assumes "k \<in> set (dict_keys m)"
  shows "\<exists>m'. bump k n m = Inr m' \<and> dict_keys m' = dict_keys m
    \<and> (\<forall>j. map_of m' j = (if j = k then map_option (\<lambda>v. v + n) (map_of m k) else map_of m j))"
proof -
  obtain v where v: "map_of m k = Some v"
    using assms by (cases "map_of m k") (auto simp: map_of_eq_None_iff)
  show ?thesis
    by (intro exI [of _ "dict_set k (v + n) m"]) (simp add: bump_def v keys_dict_set_present [OF assms])
qed

lemma bump_each_present:
  "set (map fst ks) \<subseteq> set (dict_keys m) \<Longrightarrow> \<exists>m'. bump_each ks m = Inr m' \<and> dict_keys m' = dict_keys m"
proof (induction ks arbitrary: m)
  case (Cons kn ks)
  obtain k n where kn: "kn = (k, n)" by force
  with Cons.prems have "k \<in> set (dict_keys m)" by simp
  then obtain m' where m': "bump k n m = Inr m'" "dict_keys m' = dict_keys m" using bump_present by blast
  then have "set (map fst ks) \<subseteq> set (dict_keys m')" using Cons.prems by simp
  from Cons.IH [OF this] m' kn show ?case by auto
qed simp

definition tally_wf :: "kind_tally \<Rightarrow> bool" where
  "tally_wf t \<longleftrightarrow>
     dict_keys (kt_status t) = OUTCOMES \<and> dict_keys (kt_reasons t) = GUARD_REASONS
     \<and> dict_keys (kt_moved t) = dict_keys MOVED_TABLES \<and> dict_keys (kt_caches t) = CACHE_TABLE_NAMES"

definition outcome_wf :: "item_outcome \<Rightarrow> bool" where
  "outcome_wf out \<longleftrightarrow>
     io_status out \<in> set OUTCOMES \<and> set (io_reasons out) \<subseteq> set GUARD_REASONS
     \<and> set (dict_keys (io_moved out)) \<subseteq> set (dict_keys MOVED_TABLES)
     \<and> set (dict_keys (io_caches out)) \<subseteq> set CACHE_TABLE_NAMES"

lemma tally_add_wf:
  assumes "tally_wf t" "outcome_wf out"
  obtains t' where "tally_add t out = Inr t'" "tally_wf t'"
    "\<And>j. map_of (kt_status t') j =
        (if j = io_status out then map_option Suc (map_of (kt_status t) j) else map_of (kt_status t) j)"
    "kt_aliases t' = kt_aliases t + io_aliases out" "kt_opened t' = kt_opened t + of_bool (io_opened out)"
proof -
  have "io_status out \<in> set (dict_keys (kt_status t))" using assms by (simp add: tally_wf_def outcome_wf_def)
  then obtain st where st: "bump (io_status out) 1 (kt_status t) = Inr st" "dict_keys st = dict_keys (kt_status t)"
    "\<forall>j. map_of st j = (if j = io_status out then map_option (\<lambda>v. v + 1) (map_of (kt_status t) (io_status out)) else map_of (kt_status t) j)"
    using bump_present [where n = 1] by blast
  have "set (map fst (map (\<lambda>r. (r, 1)) (io_reasons out))) \<subseteq> set (dict_keys (kt_reasons t))"
    using assms by (auto simp: tally_wf_def outcome_wf_def)
  then obtain rs where rs: "bump_each (map (\<lambda>r. (r, 1)) (io_reasons out)) (kt_reasons t) = Inr rs" "dict_keys rs = dict_keys (kt_reasons t)"
    using bump_each_present by blast
  have "set (map fst (io_moved out)) \<subseteq> set (dict_keys (kt_moved t))"
    using assms by (auto simp: tally_wf_def outcome_wf_def)
  then obtain mv where mv: "bump_each (io_moved out) (kt_moved t) = Inr mv" "dict_keys mv = dict_keys (kt_moved t)"
    using bump_each_present by blast
  have "set (map fst (io_caches out)) \<subseteq> set (dict_keys (kt_caches t))"
    using assms by (auto simp: tally_wf_def outcome_wf_def)
  then obtain ca where ca: "bump_each (io_caches out) (kt_caches t) = Inr ca" "dict_keys ca = dict_keys (kt_caches t)"
    using bump_each_present by blast
  let ?t = "\<lparr>kt_status = st, kt_aliases = kt_aliases t + io_aliases out,
     kt_collisions = kt_collisions t + io_collisions out, kt_reasons = rs,
     kt_opened = kt_opened t + of_bool (io_opened out), kt_compressed = kt_compressed t + io_compressed out,
     kt_with_dependents = kt_with_dependents t + of_bool (list_ex (\<lambda>(k, n). n \<noteq> 0) (io_moved out)),
     kt_moved = mv, kt_caches = ca\<rparr>"
  show thesis
  proof (rule that [of ?t])
    show "tally_add t out = Inr ?t" using st rs mv ca by (simp add: tally_add_def)
    show "tally_wf ?t" using st rs mv ca assms(1) by (simp add: tally_wf_def)
    show "map_of (kt_status ?t) j =
        (if j = io_status out then map_option Suc (map_of (kt_status t) j) else map_of (kt_status t) j)" for j
      using st(3) by simp
  qed simp_all
qed

lemma new_tally_wf: "tally_wf new_tally"
  by (simp add: tally_wf_def new_tally_def comp_def)

text \<open>Every outcome has a status, reasons and tables the tally knows.\<close>

lemma cache_table_names: "map_of CACHE_TABLES k = Some cs \<Longrightarrow> ct_table ` set cs \<subseteq> set CACHE_TABLE_NAMES"
  unfolding CACHE_TABLE_NAMES_def by (force dest!: map_of_SomeD)

lemma recompute_counts_keys: "dict_keys (snd (recompute_tables cs ids d)) = map ct_table cs"
  by (induction cs arbitrary: d) (simp_all add: split_beta Let_def)

lemma merge_outcome_wf:
  assumes "merge_items e d x y kind cause r ex = Inr (d', out)"
  shows "dict_keys (mo_moved out) = dict_keys MOVED_TABLES" "set (dict_keys (mo_caches out)) \<subseteq> set CACHE_TABLE_NAMES"
proof -
  show "dict_keys (mo_moved out) = dict_keys MOVED_TABLES"
    by (simp add: merge_tables(3) [OF assms] comp_def)
  show "set (dict_keys (mo_caches out)) \<subseteq> set CACHE_TABLE_NAMES"
    using assms cache_table_names recompute_counts_keys
    by (auto simp: merge_items_def recompute_caches_def split_beta Let_def split: if_splits option.splits)
      (metis (no_types, lifting) fst_conv image_eqI image_subset_iff list.set_map)
qed

lemma guard_reasons_sub: "set (guard_reasons flags) \<subseteq> set GUARD_REASONS"
  by (auto simp: guard_reasons_def dest: set_zip_leftD)

lemma item_outcome_wf: "s \<in> set OUTCOMES \<Longrightarrow> outcome_wf (item_outcome s)"
  by (simp add: outcome_wf_def item_outcome_def comp_def)

lemma apply_reattach_wf:
  assumes "apply_reattach e d kind mbid r x y k = Inr (d', out)"
  shows "outcome_wf out"
proof -
  from assms obtain b ex m where m: "merge_items e b x y k ''catalog_reattachment'' r ex = Inr (d', m)"
    and out: "io_status out = ''reattached''" "io_reasons out = []" "io_moved out = mo_moved m" "io_caches out = mo_caches m"
    by (auto simp: apply_reattach_def split: sum.splits)
  show ?thesis
    unfolding outcome_wf_def out merge_outcome_wf(1) [OF m]
    using merge_outcome_wf(2) [OF m] by (simp add: OUTCOMES_def)
qed

lemma reattach_one_wf:
  assumes "reattach_one e d kind mbid r = Inr (d', out)"
  shows "outcome_wf out"
proof -
  have s: "outcome_wf (item_outcome ''unchanged'')" "outcome_wf (item_outcome ''failed'')" "outcome_wf (item_outcome ''guarded'')"
    by (rule item_outcome_wf, simp add: OUTCOMES_def)+
  then have "outcome_wf ((item_outcome ''guarded'')\<lparr>io_reasons := guard_reasons g, io_split := a, io_discogs := b\<rparr>)" for g a b
    using guard_reasons_sub [of g] by (simp add: outcome_wf_def item_outcome_def)
  with s assms show ?thesis
    by (auto simp: reattach_one_def reattach_item_def Let_def split: sum.splits option.splits if_splits prod.splits
        intro: apply_reattach_wf)
qed

text \<open>Over items of known kinds nothing but a conflict is raised, and a conflict is caught.\<close>

definition kinds_known :: "db \<Rightarrow> bool" where
  "kinds_known d \<longleftrightarrow> (\<forall>(i, k) \<in> set (catalog_items d). k \<in> set (dict_keys CACHE_TABLES))"

lemma read_kinds_known:
  assumes "read_kinds items plan kinds = Inr kinds'" "i \<in> fst ` set plan \<or> map_of kinds i \<in> Some ` snd ` set items"
  shows "map_of kinds' i \<in> Some ` snd ` set items"
  using assms
proof (induction items plan kinds rule: read_kinds.induct)
  case (2 items j strength plan kinds)
  then obtain k where k: "map_of items j = Some k" and rest: "read_kinds items plan (dict_set j k kinds) = Inr kinds'"
    by (auto split: option.splits)
  have "k \<in> snd ` set items" using map_of_SomeD [OF k] by force
  with 2(3) have "i \<in> fst ` set plan \<or> map_of (dict_set j k kinds) i \<in> Some ` snd ` set items" by auto
  from 2(1) [OF k rest this] show ?case .
qed simp

lemma lock_items_known:
  assumes "lock_items d x y b = Inr k" "kinds_known d"
  shows "k \<in> set (dict_keys CACHE_TABLES)"
proof -
  obtain kinds where kinds: "read_kinds (catalog_items d) (lock_plan x y b) [] = Inr kinds" "k = dict_get kinds x []"
    using assms(1) by (auto simp: lock_items_def Let_def split: if_splits sum.splits)
  have "map_of kinds x \<in> Some ` snd ` set (catalog_items d)"
    by (rule read_kinds_known [OF kinds(1)]) (auto simp: lock_plan_def)
  with kinds(2) assms(2) show ?thesis by (auto simp: dict_get_def kinds_known_def)
qed

lemma lock_items_conflict: "lock_items d x y b = Inl err \<Longrightarrow> is_conflict (MergeConflict err)"
proof -
  have "is_conflict (MergeConflict e)" if "read_kinds items plan kinds = Inl e" for items plan kinds e
    using that by (induction items plan kinds rule: read_kinds.induct) (auto split: option.splits)
  then show "lock_items d x y b = Inl err \<Longrightarrow> is_conflict (MergeConflict err)"
    by (auto simp: lock_items_def Let_def split: if_splits sum.splits)
qed

lemma apply_reattach_conflict:
  assumes "apply_reattach e d kind mbid r x y k = Inl err" "k \<in> set (dict_keys CACHE_TABLES)"
  shows "is_conflict err"
proof -
  have "current_supersession d x y = Inl z \<Longrightarrow> is_conflict (MergeConflict z)" for z
    by (auto simp: current_supersession_def Let_def split: option.splits if_splits)
  moreover have "move_aliases e x y als = Inl z \<Longrightarrow> is_conflict z" for als z
    by (auto simp: move_aliases_def Let_def split: if_splits prod.splits)
  moreover have "merge_items e d1 x y k ''catalog_reattachment'' r ex \<noteq> Inl z" for d1 ex z
  proof -
    obtain cs where "map_of CACHE_TABLES k = Some cs"
      using assms(2) by (cases "map_of CACHE_TABLES k") (auto simp: map_of_eq_None_iff)
    then show ?thesis by (simp add: merge_items_def CAUSES_def recompute_caches_def split_beta Let_def)
  qed
  ultimately show ?thesis using assms(1) by (auto simp: apply_reattach_def split: sum.splits)
qed

lemma reattach_one_returns:
  assumes "kinds_known d"
  shows "\<exists>d' out. reattach_one e d kind mbid r = Inr (d', out)"
proof -
  have "is_conflict err" if "reattach_item e d kind mbid r = Inl err" for err
    using that lock_items_known [OF _ assms]
    by (auto simp: reattach_item_def Let_def split: option.splits sum.splits if_splits prod.splits
        dest: lock_items_conflict apply_reattach_conflict)
  then show ?thesis by (auto simp: reattach_one_def split: sum.splits)
qed

lemma reattach_one_items: "reattach_one e d kind mbid r = Inr (d', out) \<Longrightarrow> catalog_items d' = catalog_items d"
proof -
  have "apply_reattach e d kind mbid r x y k = Inr (d', out) \<Longrightarrow> catalog_items d' = catalog_items d" for x y k
    by (auto simp: apply_reattach_def set_gm_item_id_def split: sum.splits dest!: merge_tables(4))
  then show "reattach_one e d kind mbid r = Inr (d', out) \<Longrightarrow> catalog_items d' = catalog_items d"
    by (auto simp: reattach_one_def reattach_item_def Let_def split: sum.splits option.splits if_splits prod.splits)
qed

text \<open>The tally of a log: one more of its status for each item, and the aliases it moved.\<close>

definition status_count :: "string \<Rightarrow> (string \<times> item_outcome) list \<Rightarrow> nat" where
  "status_count st log = count_if (\<lambda>(mbid, out). io_status out = st) log"

definition tallies :: "kind_tally \<Rightarrow> (string \<times> item_outcome) list \<Rightarrow> bool" where
  "tallies t log \<longleftrightarrow>
     tally_wf t \<and> (\<forall>st \<in> set OUTCOMES. map_of (kt_status t) st = Some (status_count st log))
     \<and> kt_aliases t = sum_list (map (\<lambda>(mbid, out). io_aliases out) log)
     \<and> kt_opened t = count_if (\<lambda>(mbid, out). io_opened out) log"

lemma tallies_new: "tallies new_tally []"
  using new_tally_wf by (simp add: tallies_def status_count_def count_if_def new_tally_def OUTCOMES_def)

lemma tallies_add:
  assumes "tallies t log" "outcome_wf out" "tally_add t out = Inr t'"
  shows "tallies t' (log @ [(mbid, out)])"
proof -
  have wf: "tally_wf t" using assms(1) by (simp add: tallies_def)
  from wf assms(2) show ?thesis
  proof (rule tally_add_wf)
    fix t1
    assume "tally_add t out = Inr t1" "tally_wf t1"
      "\<And>j. map_of (kt_status t1) j = (if j = io_status out then map_option Suc (map_of (kt_status t) j) else map_of (kt_status t) j)"
      "kt_aliases t1 = kt_aliases t + io_aliases out" "kt_opened t1 = kt_opened t + of_bool (io_opened out)"
    with assms(1,3) show ?thesis
      by (auto simp: tallies_def status_count_def count_if_def)
  qed
qed

text \<open>The mbids of the linked rows are those of the table, once each, while aliases are unique.\<close>

lemma left_join_single:
  assumes "alias_unique als"
  shows "\<exists>z. left_join als k = [z]"
proof (cases "filter (\<lambda>al. alias_key al = k \<and> is_current al) als")
  case Nil
  then show ?thesis by (simp add: left_join_def)
next
  case (Cons a ms)
  have eq: "filter (\<lambda>al. alias_key al = k \<and> is_current al) als = filter (\<lambda>al. alias_key al = k) (filter is_current als)"
    unfolding filter_filter by (rule filter_cong) auto
  have "distinct (map alias_key (filter is_current als))" using assms by (simp add: alias_unique_def)
  from distinct_map_filter [OF this, of "\<lambda>al. alias_key al = k"]
  have "distinct (map alias_key (a # ms))" unfolding eq [symmetric] Cons .
  moreover have "\<forall>b \<in> set (a # ms). alias_key b = k"
    unfolding Cons [symmetric] by simp
  ultimately have "ms = []" by (cases ms) auto
  with Cons show ?thesis by (simp add: left_join_def)
qed

lemma linked_row_keys:
  assumes "alias_unique als"
  shows "map lk_mbid (linked_row kind als mb) = (if cr_discogs mb = None then [] else [cr_key mb])"
proof (cases "cr_discogs mb")
  case (Some did)
  obtain a b where "left_join als (''discogs'', sk_entity_kind kind, did) = [a]"
    "left_join als (''musicbrainz'', sk_entity_kind kind, cr_key mb) = [b]"
    using left_join_single [OF assms] by metis
  with Some show ?thesis by (simp add: linked_row_def)
qed (simp add: linked_row_def)

lemma linked_rows_distinct:
  assumes "alias_unique (aliases d)" "distinct (keys_of d (mb_table kind))"
  shows "distinct (map lk_mbid (linked_rows kind d))"
proof -
  have "map lk_mbid (concat (map (linked_row kind (aliases d)) rows))
      = map cr_key (filter (\<lambda>mb. cr_discogs mb \<noteq> None) rows)" for rows
    by (induction rows) (simp_all add: linked_row_keys [OF assms(1)])
  then show ?thesis
    using distinct_map_filter [OF assms(2) [unfolded keys_of_def]] by (simp add: linked_rows_def)
qed

lemma candidate_page_sorted:
  assumes "alias_unique (aliases d)" "distinct (keys_of d (mb_table kind))"
  shows "sorted_wrt (<) (map lk_mbid (candidate_page kind d cursor n))"
proof -
  let ?xs = "filter (\<lambda>l. candidate l \<and> cursor < lk_mbid l) (linked_rows kind d)"
  have "distinct (map lk_mbid ?xs)" by (rule distinct_map_filter [OF linked_rows_distinct [OF assms]])
  moreover have "mset (map lk_mbid (sort_key lk_mbid ?xs)) = mset (map lk_mbid ?xs)" by simp
  ultimately have "distinct (map lk_mbid (sort_key lk_mbid ?xs))" using mset_eq_imp_distinct_iff by blast
  moreover have "sorted (map lk_mbid (sort_key lk_mbid ?xs))" by (rule sorted_sort_key)
  ultimately have "sorted_wrt (<) (map lk_mbid (sort_key lk_mbid ?xs))"
    unfolding strict_sorted_iff by blast
  then show ?thesis unfolding candidate_page_def take_map [symmetric] by (rule sorted_wrt_take)
qed

text \<open>What a page adds to the log, and that over known kinds it always returns.\<close>

lemma run_page_log:
  assumes "kinds_known (rs_db s)" "tallies (rs_tally s) (rs_log s)"
  shows "\<exists>s'. run_page envs kind r page s = Inr s' \<and> kinds_known (rs_db s')
    \<and> tallies (rs_tally s') (rs_log s') \<and> map fst (rs_log s') = map fst (rs_log s) @ map lk_mbid page"
  using assms
proof (induction page arbitrary: s)
  case (Cons l page)
  obtain d out where d: "reattach_one (envs (rs_tx s)) (rs_db s) kind (lk_mbid l) r = Inr (d, out)"
    using reattach_one_returns [OF Cons.prems(1)] by blast
  have wf: "outcome_wf out" by (rule reattach_one_wf [OF d])
  have "tally_wf (rs_tally s)" using Cons.prems(2) by (simp add: tallies_def)
  from tally_add_wf [OF this wf] obtain ta where ta: "tally_add (rs_tally s) out = Inr ta" by blast
  let ?s = "s\<lparr>rs_db := d, rs_tx := Suc (rs_tx s), rs_tally := ta, rs_cursor := lk_mbid l,
              rs_log := rs_log s @ [(lk_mbid l, out)]\<rparr>"
  have "kinds_known (rs_db ?s)" using Cons.prems(1) reattach_one_items [OF d] by (simp add: kinds_known_def)
  moreover have "tallies (rs_tally ?s) (rs_log ?s)" using tallies_add [OF Cons.prems(2) wf ta] by simp
  ultimately obtain s' where "run_page envs kind r page ?s = Inr s'" "kinds_known (rs_db s')"
    "tallies (rs_tally s') (rs_log s')" "map fst (rs_log s') = map fst (rs_log ?s) @ map lk_mbid page"
    using Cons.IH [of ?s] by blast
  with d ta show ?case by (intro exI [of _ s']) simp
qed auto

text \<open>The pages of a kind, one after the other: what the loop has logged at any page.\<close>

definition visited :: "(nat \<Rightarrow> merge_env) \<Rightarrow> split_kind \<Rightarrow> run_state \<Rightarrow> bool" where
  "visited envs kind s \<longleftrightarrow>
     run_inv envs (rs_tx s) (rs_db s) \<and> kinds_known (rs_db s) \<and> distinct (keys_of (rs_db s) (mb_table kind))
     \<and> tallies (rs_tally s) (rs_log s)
     \<and> sorted_wrt (<) (map fst (rs_log s)) \<and> (\<forall>m \<in> fst ` set (rs_log s). m \<le> rs_cursor s)"

lemma visited_start:
  assumes "run_inv envs n d" "kinds_known d" "distinct (keys_of d (mb_table kind))"
  shows "visited envs kind (start_kind n d)"
  using assms tallies_new by (simp add: visited_def start_kind_def)

lemma visited_page:
  assumes envs: "envs_ok envs" and v: "visited envs kind s"
    and page: "candidate_page kind (rs_db s) (rs_cursor s) batch \<noteq> []"
    and run: "run_page envs kind r (candidate_page kind (rs_db s) (rs_cursor s) batch) s = Inr s'"
  shows "visited envs kind s'"
proof -
  let ?page = "candidate_page kind (rs_db s) (rs_cursor s) batch"
  have inv: "run_inv envs (rs_tx s) (rs_db s)" and known: "kinds_known (rs_db s)"
    and dist: "distinct (keys_of (rs_db s) (mb_table kind))" and tal: "tallies (rs_tally s) (rs_log s)"
    and sorted: "sorted_wrt (<) (map fst (rs_log s))" and le: "\<forall>m \<in> fst ` set (rs_log s). m \<le> rs_cursor s"
    using v by (simp_all add: visited_def)
  have u: "alias_unique (aliases (rs_db s))" using inv by (auto simp: run_inv_def store_ok_def)
  have log: "kinds_known (rs_db s')" "tallies (rs_tally s') (rs_log s')"
    "map fst (rs_log s') = map fst (rs_log s) @ map lk_mbid ?page"
    using run_page_log [OF known tal, of envs kind r ?page] run by auto
  have psorted: "sorted_wrt (<) (map lk_mbid ?page)" by (rule candidate_page_sorted [OF u dist])
  have after: "\<forall>k \<in> set (map lk_mbid ?page). rs_cursor s < k" using candidate_pageD(1) by fastforce
  have cursor: "rs_cursor s' = last (map lk_mbid ?page)"
    using run_page_cursor [OF run page] page by (simp add: last_map)
  have upto: "\<forall>k \<in> set (map lk_mbid ?page). k \<le> rs_cursor s'"
  proof -
    have "sorted (map lk_mbid ?page)" using psorted by (simp add: strict_sorted_imp_sorted)
    moreover have "\<forall>k \<in> set xs. k \<le> last xs" if "sorted xs" for xs :: "string list"
      using that by (induction xs) (auto simp: last_in_set)
    ultimately show ?thesis by (simp only: cursor)
  qed
  have "\<forall>m \<in> set (map fst (rs_log s)). \<forall>k \<in> set (map lk_mbid ?page). m < k"
    using le after by (fastforce intro: le_less_trans)
  then have "sorted_wrt (<) (map fst (rs_log s'))"
    unfolding log(3) sorted_wrt_append using sorted psorted by blast
  moreover have "\<forall>m \<in> set (map fst (rs_log s')). m \<le> rs_cursor s'"
  proof -
    have "rs_cursor s < rs_cursor s'" using after page cursor by (simp add: last_in_set last_map)
    then have "\<forall>m \<in> set (map fst (rs_log s)). m \<le> rs_cursor s'" using le by (auto intro: order_trans less_imp_le)
    with upto show ?thesis unfolding log(3) by auto
  qed
  moreover have "distinct (keys_of (rs_db s') (mb_table kind))" using dist run_page_keys [OF run] by simp
  ultimately show ?thesis
    using run_page_inv(1) [OF envs inv run] log(1,2) by (simp add: visited_def)
qed

lemma run_kind_visits:
  assumes envs: "envs_ok envs" and v: "visited envs kind s"
  shows "\<exists>s'. run_kind envs kind r batch s = Inr s' \<and> visited envs kind s'
    \<and> candidate_page kind (rs_db s') (rs_cursor s') batch = []"
  using v
proof (rule run_kind_pages [where Q = "\<lambda>res. \<exists>s'. res = Inr s' \<and> visited envs kind s' \<and> candidate_page kind (rs_db s') (rs_cursor s') batch = []"])
  fix s x
  assume "visited envs kind s" "run_page envs kind r (candidate_page kind (rs_db s) (rs_cursor s) batch) s = Inl x"
  moreover from this(1) have "kinds_known (rs_db s)" "tallies (rs_tally s) (rs_log s)" by (simp_all add: visited_def)
  ultimately show "\<exists>s'. Inl x = Inr s' \<and> visited envs kind s' \<and> candidate_page kind (rs_db s') (rs_cursor s') batch = []"
    using run_page_log by (metis Inl_Inr_False)
qed (auto intro: visited_page [OF envs])



section \<open>The audit entry\<close>

lemma run_page_known:
  assumes "kinds_known (rs_db s)" "tallies (rs_tally s) (rs_log s)"
  shows "\<exists>s'. run_kind envs kind r batch s = Inr s' \<and> kinds_known (rs_db s')"
  using conjI [OF assms]
proof (rule run_kind_pages [where P = "\<lambda>s. kinds_known (rs_db s) \<and> tallies (rs_tally s) (rs_log s)"
      and Q = "\<lambda>res. \<exists>s'. res = Inr s' \<and> kinds_known (rs_db s')"])
  fix s s'
  assume s: "kinds_known (rs_db s) \<and> tallies (rs_tally s) (rs_log s)"
    and run: "run_page envs kind r (candidate_page kind (rs_db s) (rs_cursor s) batch) s = Inr s'"
  from s run_page_log [of s envs kind r "candidate_page kind (rs_db s) (rs_cursor s) batch"] run
  show "kinds_known (rs_db s') \<and> tallies (rs_tally s') (rs_log s')" by auto
next
  fix s x
  assume s: "kinds_known (rs_db s) \<and> tallies (rs_tally s) (rs_log s)"
    and run: "run_page envs kind r (candidate_page kind (rs_db s) (rs_cursor s) batch) s = Inl x"
  from s run_page_log [of s envs kind r "candidate_page kind (rs_db s) (rs_cursor s) batch"] run
  show "\<exists>s'. Inl x = Inr s' \<and> kinds_known (rs_db s')" by auto
qed auto

lemma run_kinds_known:
  "kinds_known d \<Longrightarrow> \<exists>outs. snd (run_kinds envs r batch kinds n d) = Inr outs \<and> map fst outs = map fst kinds"
proof (induction kinds arbitrary: n d)
  case (Cons k kinds)
  obtain name kind where k: "k = (name, kind)" by force
  have "kinds_known (rs_db (start_kind n d))" "tallies (rs_tally (start_kind n d)) (rs_log (start_kind n d))"
    using Cons.prems tallies_new by (simp_all add: start_kind_def)
  from run_page_known [OF this] obtain s where
    s: "run_kind envs kind r batch (start_kind n d) = Inr s" "kinds_known (rs_db s)" by blast
  from Cons.IH [OF s(2), of "rs_tx s"] s(1) k show ?case
    by (auto split: prod.splits sum.splits)
qed simp


definition ex_world :: world where
  "ex_world = \<lparr>w_db = ex_split_db, w_audit = [], w_refreshes = []\<rparr>"


end
