(* ===== verification/Valkey_Keys.thy ===== *)
theory Valkey_Keys
  imports Complex_Main Prelude
begin

text \<open>
  Namespaced Valkey keys and the upgrade path for keys written before namespacing,
  \<open>src/api/valkey_keys.py\<close>.

  \<open>common.config\<close> is a package: its prefix and its \<open>valkey_key\<close> are fields of the configuration
  argument, with the environment variables the module reads.  The server is read through a
  function from keys to values (\<open>None\<close> where the command raises), and the migration works on an
  explicit keyspace.  The module's globals are the \<open>legacy_state\<close> record.  A time is a rational;
  Python's \<open>float()\<close> of the marker's text is an argument.
\<close>

section \<open>Python's int()\<close>

text \<open>
  \<open>int(s)\<close> of ASCII text: surrounding blanks, a sign, and digits with single underscores between
  them; anything else raises \<open>ValueError\<close>.
\<close>

definition digits_value :: "string \<Rightarrow> int option" where
  "digits_value s =
     (if list_all isdigit (split_on (CHR ''_'') s) then Some (parse_nat (concat (split_on (CHR ''_'') s))) else None)"

definition py_int :: "string \<Rightarrow> int option" where
  "py_int s =
     (case strip s of
        [] \<Rightarrow> None
      | c # cs \<Rightarrow>
          if c = CHR ''-'' then map_option uminus (digits_value cs)
          else if c = CHR ''+'' then digits_value cs
          else digits_value (c # cs))"

section \<open>Modes and windows\<close>

definition MODE_OFF :: string where "MODE_OFF = ''off''"
definition MODE_READ :: string where "MODE_READ = ''read''"
definition MODE_MIGRATE :: string where "MODE_MIGRATE = ''migrate''"

definition DEFAULT_LEGACY_WINDOW_SECONDS :: int where "DEFAULT_LEGACY_WINDOW_SECONDS = 86400"
definition WINDOW_MARGIN_SECONDS :: int where "WINDOW_MARGIN_SECONDS = 300"
definition MARKER_NAME :: string where "MARKER_NAME = ''legacy-keys:cutover''"
definition MIGRATED_NAME :: string where "MIGRATED_NAME = ''legacy-keys:migrated''"

record vk_config =
  vc_prefix :: string
  vc_key :: "string \<Rightarrow> string"
  vc_mode_env :: "string option"
  vc_window_env :: "string option"

datatype vk_error =
    BadMode string
  | BadWindow string
  | NegativeWindow
  | CommandFailed

text \<open>\<open>os.environ.get(name) or default\<close>.\<close>

definition env_or :: "string \<Rightarrow> string option \<Rightarrow> string" where
  "env_or dflt v = (case v of None \<Rightarrow> dflt | Some s \<Rightarrow> if s = [] then dflt else s)"

definition legacy_mode :: "vk_config \<Rightarrow> (vk_error, string) result" where
  "legacy_mode c =
     (let raw = lower (strip (env_or MODE_READ (vc_mode_env c)))
      in if raw \<notin> {MODE_OFF, MODE_READ, MODE_MIGRATE} then Inl (BadMode raw) else Inr raw)"

record legacy_state =
  ls_cutover :: "rat option"
  ls_closed :: bool
  ls_lifetime :: int

definition reset_state :: legacy_state where
  "reset_state = \<lparr>ls_cutover = None, ls_closed = False, ls_lifetime = 0\<rparr>"

definition configure_revocable_lifetime :: "int \<Rightarrow> legacy_state \<Rightarrow> legacy_state" where
  "configure_revocable_lifetime seconds s = s\<lparr>ls_lifetime := max seconds 0\<rparr>"

definition configured_window_seconds :: "vk_config \<Rightarrow> (vk_error, int) result" where
  "configured_window_seconds c =
     (let raw = strip (env_or [] (vc_window_env c)) in
      if raw = [] then Inr DEFAULT_LEGACY_WINDOW_SECONDS
      else case py_int raw of
             None \<Rightarrow> Inl (BadWindow raw)
           | Some n \<Rightarrow> if n < 0 then Inl NegativeWindow else Inr n)"

definition effective_window_seconds :: "vk_config \<Rightarrow> legacy_state \<Rightarrow> (vk_error, int) result" where
  "effective_window_seconds c s =
     (case configured_window_seconds c of
        Inl e \<Rightarrow> Inl e
      | Inr w \<Rightarrow> Inr (max w (ls_lifetime s + WINDOW_MARGIN_SECONDS)))"

section \<open>Legacy names\<close>

text \<open>
  The id-shaped patterns: a literal stem followed by \<open>[A-Za-z0-9_-]+$\<close>.  Python's \<open>$\<close> also
  matches before one final newline.
\<close>

definition id_char :: "char \<Rightarrow> bool" where
  "id_char c \<longleftrightarrow>
     (let n = (of_char c :: nat) in
      48 \<le> n \<and> n \<le> 57 \<or> 65 \<le> n \<and> n \<le> 90 \<or> 97 \<le> n \<and> n \<le> 122 \<or> n = 95 \<or> n = 45)"

definition explore_char :: "char \<Rightarrow> bool" where
  "explore_char c \<longleftrightarrow> id_char c \<or> c \<in> {CHR '':'', CHR ''*'', CHR ''.''}"

definition chomp :: "string \<Rightarrow> string" where
  "chomp s = (if s \<noteq> [] \<and> last s = CHR 0x0A then butlast s else s)"

definition matches_tail :: "(char \<Rightarrow> bool) \<Rightarrow> string \<Rightarrow> bool" where
  "matches_tail ok s \<longleftrightarrow> chomp s \<noteq> [] \<and> list_all ok (chomp s)"

definition shape :: "string \<Rightarrow> string \<Rightarrow> bool" where
  "shape stem s \<longleftrightarrow> starts_with stem s \<and> matches_tail id_char (removeprefix stem s)"

text \<open>\<open>^recommend:explore:ID:[A-Za-z0-9_:*.-]+$\<close>: the id ends at its first colon.\<close>

definition explore_shape :: "string \<Rightarrow> bool" where
  "explore_shape s \<longleftrightarrow>
     starts_with ''recommend:explore:'' s
     \<and> (let rest = removeprefix ''recommend:explore:'' s;
            ident = takeWhile (\<lambda>c. c \<noteq> CHR '':'') rest;
            tail = dropWhile (\<lambda>c. c \<noteq> CHR '':'') rest
        in ident \<noteq> [] \<and> list_all id_char ident \<and> tail \<noteq> [] \<and> matches_tail explore_char (tl tail))"

definition LEGACY_KEY_PATTERNS :: "(string \<times> (string \<Rightarrow> bool)) list" where
  "LEGACY_KEY_PATTERNS =
     [(''revoked:jti:*'', shape ''revoked:jti:''),
      (''password_changed:*'', shape ''password_changed:''),
      (''2fa_challenge:*'', shape ''2fa_challenge:''),
      (''discogs:oauth:state:*'', shape ''discogs:oauth:state:''),
      (''reset:*'', shape ''reset:''),
      (''snapshot:*'', (\<lambda>s. shape ''snapshot:'' s \<or> shape ''snapshot:usercount:'' s))]"

definition DENY_LEGACY_SHAPES :: "(string \<Rightarrow> bool) list" where
  "DENY_LEGACY_SHAPES = [shape ''revoked:jti:'', shape ''password_changed:'']"

definition ERASURE_LEGACY_SHAPES :: "(string \<Rightarrow> bool) list" where
  "ERASURE_LEGACY_SHAPES =
     [shape ''snapshot:usercount:'',
      (\<lambda>s. shape ''sync:lock:'' s \<or> shape ''sync:cooldown:'' s),
      shape ''recommend:enhanced:'',
      explore_shape]"

definition legacy_name :: "vk_config \<Rightarrow> string \<Rightarrow> (string \<Rightarrow> bool) list option \<Rightarrow> string option" where
  "legacy_name c key shapes =
     (if vc_prefix c = [] \<or> \<not> starts_with (vc_prefix c) key then None
      else let name = drop (length (vc_prefix c)) key in
        case shapes of
          None \<Rightarrow> Some name
        | Some ss \<Rightarrow> if list_ex (\<lambda>sh. sh name) ss then Some name else None)"

definition with_legacy_keys :: "vk_config \<Rightarrow> string list \<Rightarrow> (vk_error, string list) result" where
  "with_legacy_keys c keys =
     (case legacy_mode c of
        Inl e \<Rightarrow> Inl e
      | Inr mode \<Rightarrow>
          if mode \<noteq> MODE_MIGRATE then Inr keys
          else Inr (keys @ concat (map (\<lambda>k. case legacy_name c k (Some ERASURE_LEGACY_SHAPES) of
                                              None \<Rightarrow> [] | Some n \<Rightarrow> [n]) keys)))"

definition with_legacy_patterns :: "vk_config \<Rightarrow> string list \<Rightarrow> (vk_error, string list) result" where
  "with_legacy_patterns c patterns = with_legacy_keys c patterns"

section \<open>The deny-direction fallback\<close>

type_synonym vk_get = "string \<Rightarrow> string option option"

definition marker_key :: "vk_config \<Rightarrow> string" where
  "marker_key c = vc_key c MARKER_NAME"

text \<open>
  \<open>_legacy_active\<close>: whether an unprefixed read is allowed, and the globals after it.  The marker
  is read once; where reading or parsing it raises, the fallback stays open.
\<close>

definition legacy_active :: "vk_config \<Rightarrow> (string \<Rightarrow> rat option) \<Rightarrow> rat \<Rightarrow> vk_get \<Rightarrow> legacy_state
    \<Rightarrow> (vk_error, bool) result \<times> legacy_state" where
  "legacy_active c to_float now get s =
     (if ls_closed s then (Inr False, s)
      else case legacy_mode c of
        Inl e \<Rightarrow> (Inl e, s)
      | Inr mode \<Rightarrow>
          if mode = MODE_OFF \<or> vc_prefix c = [] then (Inr False, s)
          else
            let cut = (case ls_cutover s of
                         Some t \<Rightarrow> Some t
                       | None \<Rightarrow>
                           (case get (marker_key c) of
                              None \<Rightarrow> None
                            | Some None \<Rightarrow> Some now
                            | Some (Some raw) \<Rightarrow> if raw = [] then Some now else to_float raw))
            in case cut of
                 None \<Rightarrow> (Inr True, s)
               | Some t \<Rightarrow>
                   let s1 = s\<lparr>ls_cutover := Some t\<rparr> in
                   (case effective_window_seconds c s1 of
                      Inl e \<Rightarrow> (Inl e, s1)
                    | Inr w \<Rightarrow> if t + of_int w < now then (Inr False, s1\<lparr>ls_closed := True\<rparr>) else (Inr True, s1)))"

definition get_deny_with_legacy :: "vk_config \<Rightarrow> (string \<Rightarrow> rat option) \<Rightarrow> rat \<Rightarrow> vk_get \<Rightarrow> string
    \<Rightarrow> legacy_state \<Rightarrow> (vk_error, string option) result \<times> legacy_state" where
  "get_deny_with_legacy c to_float now get key s =
     (case get key of
        None \<Rightarrow> (Inl CommandFailed, s)
      | Some (Some v) \<Rightarrow> (Inr (Some v), s)
      | Some None \<Rightarrow>
          (case legacy_name c key (Some DENY_LEGACY_SHAPES) of
             None \<Rightarrow> (Inr None, s)
           | Some legacy \<Rightarrow>
               (case legacy_active c to_float now get s of
                  (Inl e, s1) \<Rightarrow> (Inl e, s1)
                | (Inr active, s1) \<Rightarrow>
                    if active
                    then (case get legacy of None \<Rightarrow> (Inl CommandFailed, s1) | Some v \<Rightarrow> (Inr v, s1))
                    else (Inr None, s1))))"

section \<open>The migration\<close>

text \<open>
  The keyspace: a value and the milliseconds it still has, or no expiry.  \<open>fails\<close> tells for a
  legacy key which of the four commands sent for it raises, if one does.
\<close>

type_synonym keyspace = "string \<Rightarrow> (string \<times> int option) option"

record migration_stats =
  ms_migrated :: nat
  ms_present :: nat
  ms_skipped :: nat
  ms_failed :: nat

definition no_stats :: migration_stats where
  "no_stats = \<lparr>ms_migrated = 0, ms_present = 0, ms_skipped = 0, ms_failed = 0\<rparr>"

definition migrate_one :: "(string \<Rightarrow> nat option) \<Rightarrow> string \<Rightarrow> string \<Rightarrow> keyspace \<times> migration_stats
    \<Rightarrow> keyspace \<times> migration_stats" where
  "migrate_one fails legacy target st =
     (let (ks, stats) = st; failed = stats\<lparr>ms_failed := ms_failed stats + 1\<rparr> in
      if fails legacy = Some 0 then (ks, failed)
      else case ks legacy of
        None \<Rightarrow> (ks, stats)
      | Some (value, None) \<Rightarrow> (ks, stats\<lparr>ms_skipped := ms_skipped stats + 1\<rparr>)
      | Some (value, Some ttl) \<Rightarrow>
          if fails legacy = Some 1 \<or> fails legacy = Some 2 then (ks, failed)
          else
            let stored = (ks target = None);
                ks1 = (if stored then ks(target \<mapsto> (value, Some (max ttl 1))) else ks);
                stats1 = (if stored then stats\<lparr>ms_migrated := ms_migrated stats + 1\<rparr>
                          else stats\<lparr>ms_present := ms_present stats + 1\<rparr>)
            in if fails legacy = Some 3 then (ks1, stats1\<lparr>ms_failed := ms_failed stats1 + 1\<rparr>)
               else (ks1(legacy := None), stats1))"

text \<open>
  The keys one family's \<open>SCAN\<close> returned, in order; \<open>scan glob\<close> lists them, with whether the scan
  came to its end: a \<open>SCAN\<close> that raises ends the migration, and nothing catches it.
\<close>

fun migrate_keys :: "vk_config \<Rightarrow> (string \<Rightarrow> nat option) \<Rightarrow> (string \<Rightarrow> bool) \<Rightarrow> string list
    \<Rightarrow> keyspace \<times> migration_stats \<Rightarrow> keyspace \<times> migration_stats" where
  "migrate_keys c fails sh [] st = st"
| "migrate_keys c fails sh (name # names) st =
     (if starts_with (vc_prefix c) name \<or> \<not> sh name
      then migrate_keys c fails sh names (fst st, (snd st)\<lparr>ms_skipped := ms_skipped (snd st) + 1\<rparr>)
      else migrate_keys c fails sh names (migrate_one fails name (vc_prefix c @ name) st))"

fun migrate_families :: "vk_config \<Rightarrow> (string \<Rightarrow> nat option) \<Rightarrow> (string \<Rightarrow> string list \<times> bool)
    \<Rightarrow> (string \<times> (string \<Rightarrow> bool)) list \<Rightarrow> keyspace \<times> migration_stats
    \<Rightarrow> bool \<times> keyspace \<times> migration_stats" where
  "migrate_families c fails scan [] st = (True, st)"
| "migrate_families c fails scan ((glob, sh) # fams) st =
     (let (names, ended) = scan glob; st1 = migrate_keys c fails sh names st in
      if ended then migrate_families c fails scan fams st1 else (False, st1))"

definition migrate_legacy_keys :: "vk_config \<Rightarrow> (string \<Rightarrow> nat option) \<Rightarrow> (string \<Rightarrow> string list \<times> bool)
    \<Rightarrow> keyspace \<Rightarrow> (vk_error, migration_stats) result \<times> keyspace" where
  "migrate_legacy_keys c fails scan ks =
     (if vc_prefix c = [] then (Inr no_stats, ks)
      else let (ended, ks1, stats) = migrate_families c fails scan LEGACY_KEY_PATTERNS (ks, no_stats)
           in (if ended then Inr stats else Inl CommandFailed, ks1))"

text \<open>
  The startup: \<open>SET NX\<close> of the cutover marker (\<open>marks\<close> says whether it goes through), then, in
  \<open>migrate\<close> mode, one migration inside the window unless one has completed.
\<close>

definition set_nx :: "string \<Rightarrow> string \<Rightarrow> keyspace \<Rightarrow> keyspace" where
  "set_nx k v ks = (if ks k = None then ks(k \<mapsto> (v, None)) else ks)"

definition migrate_once :: "vk_config \<Rightarrow> (string \<Rightarrow> rat option) \<Rightarrow> rat \<Rightarrow> legacy_state \<Rightarrow> bool \<Rightarrow> bool
    \<Rightarrow> (string \<Rightarrow> nat option) \<Rightarrow> (string \<Rightarrow> string list \<times> bool) \<Rightarrow> keyspace
    \<Rightarrow> (vk_error, unit) result \<times> keyspace" where
  "migrate_once c to_float now s reads_ok marks fails scan ks =
     (if \<not> reads_ok \<or> ks (vc_key c MIGRATED_NAME) \<noteq> None then (Inr (), ks)
      else case ks (marker_key c) of
        None \<Rightarrow> (Inr (), ks)
      | Some (raw, ttl) \<Rightarrow>
          (case (to_float raw, effective_window_seconds c s) of
             (Some t, Inr w) \<Rightarrow>
               if t + of_int w < now then (Inr (), ks)
               else (case migrate_legacy_keys c fails scan ks of
                       (Inl e, ks1) \<Rightarrow> (Inl e, ks1)
                     | (Inr stats, ks1) \<Rightarrow>
                         (Inr (), if ms_failed stats = 0 \<and> marks
                                  then set_nx (vc_key c MIGRATED_NAME) (show_int \<lfloor>now\<rfloor>) ks1
                                  else ks1))
           | _ \<Rightarrow> (Inr (), ks)))"

text \<open>\<open>goes\<close>: whether the marker is written, the markers are read, and the completion is written.\<close>

definition prepare_legacy_keys :: "vk_config \<Rightarrow> (string \<Rightarrow> rat option) \<Rightarrow> rat \<Rightarrow> legacy_state
    \<Rightarrow> bool \<times> bool \<times> bool \<Rightarrow> (string \<Rightarrow> nat option) \<Rightarrow> (string \<Rightarrow> string list \<times> bool) \<Rightarrow> keyspace
    \<Rightarrow> (vk_error, unit) result \<times> keyspace" where
  "prepare_legacy_keys c to_float now s goes fails scan ks =
     (case legacy_mode c of
        Inl e \<Rightarrow> (Inl e, ks)
      | Inr mode \<Rightarrow>
          if mode = MODE_OFF \<or> vc_prefix c = [] then (Inr (), ks)
          else (case effective_window_seconds c s of
            Inl e \<Rightarrow> (Inl e, ks)
          | Inr w \<Rightarrow>
              let (marks, reads_ok, completes) = goes;
                  ks1 = (if marks then set_nx (marker_key c) (show_int \<lfloor>now\<rfloor>) ks else ks)
              in if mode = MODE_MIGRATE
                 then migrate_once c to_float now s reads_ok completes fails scan ks1
                 else (Inr (), ks1)))"

end
