(* ===== verification/Auth.thy ===== *)
theory Auth
  imports Valkey_Keys
begin

text \<open>
  JSON web tokens and the policy every authenticated endpoint goes through: the base64url codec,
  \<open>decode_token\<close>, \<open>token_revocation_reason\<close> and \<open>create_challenge_token\<close> of \<open>src/api/auth.py\<close>, and
  \<open>validate_token\<close>, the optional, required and admin user dependencies of
  \<open>src/api/dependencies.py\<close>.

  Bytes and characters are both \<open>char\<close> (an HTTP header is Latin-1 text).  HMAC-SHA256 and the JSON
  reader and writer are arguments (\<open>crypto\<close>).  A JSON value a claim can have is a \<open>claim\<close>; the
  values the code only tests for truth or prints are \<open>COther\<close> with their text.
\<close>

section \<open>Base64url\<close>

definition byte_of :: "nat \<Rightarrow> char" where
  "byte_of n = char_of n"

text \<open>The URL-safe alphabet: capitals, small letters, digits, hyphen and underscore.\<close>

definition b64_char :: "nat \<Rightarrow> char" where
  "b64_char n =
     char_of (if n < 26 then 65 + n else if n < 52 then 71 + n else if n < 62 then n - 4
              else if n = 62 then 45 else 95)"

text \<open>\<open>urlsafe_b64encode\<close> without its padding: three bytes to four characters.\<close>

fun b64url_encode :: "string \<Rightarrow> string" where
  "b64url_encode [] = []"
| "b64url_encode [a] =
     (let x = (of_char a :: nat) in [b64_char (x div 4), b64_char (x mod 4 * 16)])"
| "b64url_encode [a, b] =
     (let x = (of_char a :: nat); y = (of_char b :: nat)
      in [b64_char (x div 4), b64_char (x mod 4 * 16 + y div 16), b64_char (y mod 16 * 4)])"
| "b64url_encode (a # b # c # bs) =
     (let x = (of_char a :: nat); y = (of_char b :: nat); z = (of_char c :: nat)
      in b64_char (x div 4) # b64_char (x mod 4 * 16 + y div 16)
         # b64_char (y mod 16 * 4 + z div 64) # b64_char (z mod 64) # b64url_encode bs)"

text \<open>The value of a character: the URL alphabet, and the standard one it is translated to.\<close>

definition b64_val :: "char \<Rightarrow> nat option" where
  "b64_val c =
     (let n = (of_char c :: nat) in
      if 65 \<le> n \<and> n \<le> 90 then Some (n - 65)
      else if 97 \<le> n \<and> n \<le> 122 then Some (n - 71)
      else if 48 \<le> n \<and> n \<le> 57 then Some (n + 4)
      else if n = 45 \<or> n = 43 then Some 62
      else if n = 95 \<or> n = 47 then Some 63
      else None)"

text \<open>
  The non-strict reader of \<open>binascii\<close>: the position in the quad, the bits left over and the pads
  seen; characters outside the alphabet are skipped, a pad sequence that completes the quad ends
  the input, and an unfinished quad is an error.
\<close>

fun a2b_base64 :: "nat \<Rightarrow> nat \<Rightarrow> nat \<Rightarrow> string \<Rightarrow> string option" where
  "a2b_base64 q l p [] = (if q = 0 then Some [] else None)"
| "a2b_base64 q l p (c # cs) =
     (if c = CHR ''=''
      then if 2 \<le> q \<and> 4 \<le> q + p + 1 then Some []
           else a2b_base64 q l (if 2 \<le> q then p + 1 else p) cs
      else case b64_val c of
        None \<Rightarrow> a2b_base64 q l p cs
      | Some v \<Rightarrow>
          if q = 0 then a2b_base64 1 v 0 cs
          else if q = 1 then map_option (Cons (byte_of (l * 4 + v div 16))) (a2b_base64 2 (v mod 16) 0 cs)
          else if q = 2 then map_option (Cons (byte_of (l * 16 + v div 4))) (a2b_base64 3 (v mod 4) 0 cs)
          else map_option (Cons (byte_of (l * 64 + v))) (a2b_base64 0 0 0 cs))"

definition b64url_decode :: "string \<Rightarrow> string option" where
  "b64url_decode s =
     (let padding = 4 - length s mod 4;
          padded = (if padding \<noteq> 4 then s @ replicate padding (CHR ''='') else s)
      in a2b_base64 0 0 0 padded)"

section \<open>Claims\<close>

datatype claim =
    CNull
  | CBool bool
  | CInt int
  | CFloat rat string
  | CStr string
  | COther string bool

type_synonym payload = "(string, claim) dict"

datatype json_doc = Claims payload | NotAnObject

record crypto =
  cr_mac :: "string \<Rightarrow> string \<Rightarrow> string"
  cr_loads :: "string \<Rightarrow> json_doc option"
  cr_dumps :: "payload \<Rightarrow> string"

text \<open>Truth and text of a claim; a missing key reads as \<open>None\<close>.\<close>

definition get_claim :: "payload \<Rightarrow> string \<Rightarrow> claim" where
  "get_claim p k = dict_get p k CNull"

fun truthy :: "claim \<Rightarrow> bool" where
  "truthy CNull = False"
| "truthy (CBool b) = b"
| "truthy (CInt n) = (n \<noteq> 0)"
| "truthy (CFloat r t) = (r \<noteq> 0)"
| "truthy (CStr s) = (s \<noteq> [])"
| "truthy (COther t b) = b"

fun claim_text :: "claim \<Rightarrow> string" where
  "claim_text CNull = ''None''"
| "claim_text (CBool b) = (if b then ''True'' else ''False'')"
| "claim_text (CInt n) = show_int n"
| "claim_text (CFloat r t) = t"
| "claim_text (CStr s) = s"
| "claim_text (COther t b) = t"

text \<open>What a call can raise: a \<open>ValueError\<close>, which callers catch, or anything else, which they do not.\<close>

datatype auth_error = ValueErr string | Uncaught string

text \<open>\<open>int(claim)\<close>: truncation of a float, the reading of a text, \<open>TypeError\<close> on the rest.\<close>

fun claim_int :: "claim \<Rightarrow> (auth_error, int) result" where
  "claim_int (CBool b) = Inr (of_bool b)"
| "claim_int (CInt n) = Inr n"
| "claim_int (CFloat r t) = Inr (if 0 \<le> r then \<lfloor>r\<rfloor> else \<lceil>r\<rceil>)"
| "claim_int (CStr s) = (case py_int s of None \<Rightarrow> Inl (ValueErr ''invalid literal for int()'') | Some n \<Rightarrow> Inr n)"
| "claim_int CNull = Inl (Uncaught ''TypeError'')"
| "claim_int (COther t b) = Inl (Uncaught ''TypeError'')"

section \<open>Decoding a token\<close>

definition is_ascii :: "string \<Rightarrow> bool" where
  "is_ascii s \<longleftrightarrow> list_all (\<lambda>c. (of_char c :: nat) < 128) s"

text \<open>
  \<open>datetime.fromtimestamp(n, UTC)\<close>: defined for the years 1 to 9999; \<open>ValueError\<close> for a year the
  calendar has not, another exception for a second the platform has not.
\<close>

definition from_timestamp :: "int \<Rightarrow> (auth_error, int) result" where
  "from_timestamp n =
     (if - 62135596800 \<le> n \<and> n \<le> 253402300799 then Inr n
      else if - 67768040609740800 \<le> n \<and> n \<le> 67768036191676799 then Inl (ValueErr ''year is out of range'')
      else Inl (Uncaught ''OverflowError''))"

definition check_expiry :: "rat \<Rightarrow> payload \<Rightarrow> (auth_error, payload) result" where
  "check_expiry now p =
     (let ex = get_claim p ''exp'' in
      if \<not> truthy ex then Inr p
      else case claim_int ex of
        Inl e \<Rightarrow> Inl e
      | Inr n \<Rightarrow>
          (case from_timestamp n of
             Inl e \<Rightarrow> Inl e
           | Inr t \<Rightarrow> if of_int t < now then Inl (ValueErr ''Token has expired'') else Inr p))"

text \<open>
  \<open>decode_token\<close>.  Encoding the signing input as ASCII raises a \<open>ValueError\<close>; comparing a
  signature that is not ASCII raises a \<open>TypeError\<close>.
\<close>

definition decode_token :: "crypto \<Rightarrow> rat \<Rightarrow> string \<Rightarrow> string \<Rightarrow> (auth_error, payload) result" where
  "decode_token cr now token secret =
     (case split_on (CHR ''.'') token of
        [header, body, sig] \<Rightarrow>
          let signing_input = header @ [CHR ''.''] @ body in
          if \<not> is_ascii signing_input then Inl (ValueErr ''ordinal not in range(128)'')
          else if \<not> is_ascii sig then Inl (Uncaught ''TypeError'')
          else if sig \<noteq> b64url_encode (cr_mac cr secret signing_input)
               then Inl (ValueErr ''Invalid token signature'')
          else (case b64url_decode body of
                  None \<Rightarrow> Inl (ValueErr ''Incorrect padding'')
                | Some raw \<Rightarrow>
                    (case cr_loads cr raw of
                       None \<Rightarrow> Inl (ValueErr ''JSONDecodeError'')
                     | Some NotAnObject \<Rightarrow> Inl (Uncaught ''AttributeError'')
                     | Some (Claims p) \<Rightarrow> check_expiry now p))
      | _ \<Rightarrow> Inl (ValueErr ''Invalid token format''))"

text \<open>\<open>create_challenge_token\<close>: its claims, and any token signed over a payload.\<close>

definition sign_token :: "crypto \<Rightarrow> string \<Rightarrow> string \<Rightarrow> payload \<Rightarrow> string" where
  "sign_token cr header_json secret p =
     (let signing_input = b64url_encode header_json @ [CHR ''.''] @ b64url_encode (cr_dumps cr p)
      in signing_input @ [CHR ''.''] @ b64url_encode (cr_mac cr secret signing_input))"

definition HEADER_JSON :: string where
  "HEADER_JSON = [CHR ''{''] @ [CHR 0x22] @ ''alg'' @ [CHR 0x22] @ '':'' @ [CHR 0x22] @ ''HS256'' @ [CHR 0x22] @ '',''
     @ [CHR 0x22] @ ''typ'' @ [CHR 0x22] @ '':'' @ [CHR 0x22] @ ''JWT'' @ [CHR 0x22] @ ''}''"

definition challenge_payload :: "rat \<Rightarrow> string \<Rightarrow> string \<Rightarrow> int option \<Rightarrow> string \<Rightarrow> payload" where
  "challenge_payload now user_id email issued_at jti =
     [(''sub'', CStr user_id), (''email'', CStr email), (''type'', CStr ''2fa_challenge''),
      (''exp'', CInt \<lfloor>now + 300\<rfloor>),
      (''iat'', CInt (case issued_at of None \<Rightarrow> \<lfloor>now\<rfloor> | Some i \<Rightarrow> i)),
      (''jti'', CStr jti)]"

definition create_challenge_token :: "crypto \<Rightarrow> rat \<Rightarrow> string \<Rightarrow> string \<Rightarrow> string \<Rightarrow> int option \<Rightarrow> string \<Rightarrow> string" where
  "create_challenge_token cr now user_id email secret issued_at jti =
     sign_token cr HEADER_JSON secret (challenge_payload now user_id email issued_at jti)"

section \<open>Revocation\<close>

definition REASON_REVOKED :: string where "REASON_REVOKED = ''revoked''"
definition REASON_CREDENTIALS_CHANGED :: string where "REASON_CREDENTIALS_CHANGED = ''password_changed''"

text \<open>
  The request's view of Valkey: absent when none is configured, else the configuration, the
  clock's text reader and the read of a key; the module globals are threaded through.
\<close>

record revocations =
  rv_config :: vk_config
  rv_float :: "string \<Rightarrow> rat option"
  rv_get :: vk_get

definition deny_value :: "revocations \<Rightarrow> rat \<Rightarrow> string \<Rightarrow> legacy_state
    \<Rightarrow> (auth_error, string option) result \<times> legacy_state" where
  "deny_value rv now name s =
     (case get_deny_with_legacy (rv_config rv) (rv_float rv) now (rv_get rv) (vc_key (rv_config rv) name) s of
        (Inl e, s1) \<Rightarrow> (Inl (Uncaught ''ValkeyError''), s1)
      | (Inr v, s1) \<Rightarrow> (Inr v, s1))"

text \<open>\<open>issued_at <= n\<close> for the \<open>iat\<close> claim, zero when missing; other types do not compare.\<close>

fun issued_by :: "claim option \<Rightarrow> int \<Rightarrow> bool option" where
  "issued_by None n = Some (0 \<le> n)"
| "issued_by (Some (CInt i)) n = Some (i \<le> n)"
| "issued_by (Some (CBool b)) n = Some (of_bool b \<le> n)"
| "issued_by (Some (CFloat r t)) n = Some (r \<le> of_int n)"
| "issued_by (Some c) n = None"

definition password_check :: "revocations \<Rightarrow> rat \<Rightarrow> payload \<Rightarrow> legacy_state
    \<Rightarrow> (auth_error, string option) result \<times> legacy_state" where
  "password_check rv now p s =
     (let user = get_claim p ''sub'' in
      if \<not> truthy user then (Inr None, s)
      else case deny_value rv now (''password_changed:'' @ claim_text user) s of
        (Inl e, s1) \<Rightarrow> (Inl e, s1)
      | (Inr None, s1) \<Rightarrow> (Inr None, s1)
      | (Inr (Some raw), s1) \<Rightarrow>
          if raw = [] then (Inr None, s1)
          else (case py_int raw of
                  None \<Rightarrow> (Inl (Uncaught ''ValueError''), s1)
                | Some changed \<Rightarrow>
                    (case issued_by (map_of p ''iat'') changed of
                       None \<Rightarrow> (Inl (Uncaught ''TypeError''), s1)
                     | Some True \<Rightarrow> (Inr (Some REASON_CREDENTIALS_CHANGED), s1)
                     | Some False \<Rightarrow> (Inr None, s1))))"

definition token_revocation_reason :: "revocations option \<Rightarrow> rat \<Rightarrow> payload \<Rightarrow> legacy_state
    \<Rightarrow> (auth_error, string option) result \<times> legacy_state" where
  "token_revocation_reason valkey now p s =
     (case valkey of
        None \<Rightarrow> (Inr None, s)
      | Some rv \<Rightarrow>
          let jti = get_claim p ''jti'' in
          if truthy jti
          then (case deny_value rv now (''revoked:jti:'' @ claim_text jti) s of
                  (Inl e, s1) \<Rightarrow> (Inl e, s1)
                | (Inr v, s1) \<Rightarrow>
                    if (case v of None \<Rightarrow> False | Some x \<Rightarrow> x \<noteq> []) then (Inr (Some REASON_REVOKED), s1)
                    else password_check rv now p s1)
          else password_check rv now p s)"

section \<open>The policy\<close>

datatype jwt_kind = ACCESS | ADMIN | TWO_FACTOR_CHALLENGE

text \<open>An HTTP error with its status and detail, or an exception nothing handles.\<close>

datatype http_error = HTTPError nat string | Crash string

definition type_check :: "jwt_kind \<Rightarrow> bool \<Rightarrow> claim \<Rightarrow> http_error option" where
  "type_check kind expose actual =
     (case kind of
        ACCESS \<Rightarrow>
          if actual = CStr ''admin'' \<and> expose then Some (HTTPError 403 ''Admin tokens cannot be used for user endpoints'')
          else if actual \<noteq> CNull then Some (HTTPError 401 ''Invalid token'') else None
      | ADMIN \<Rightarrow> if actual \<noteq> CStr ''admin'' then Some (HTTPError 403 ''Admin access required'') else None
      | TWO_FACTOR_CHALLENGE \<Rightarrow>
          if actual \<noteq> CStr ''2fa_challenge'' then Some (HTTPError 401 ''Invalid challenge token type'') else None)"

definition validate_token :: "crypto \<Rightarrow> rat \<Rightarrow> string \<Rightarrow> string option \<Rightarrow> revocations option
    \<Rightarrow> jwt_kind \<Rightarrow> bool \<Rightarrow> legacy_state \<Rightarrow> (http_error, payload) result \<times> legacy_state" where
  "validate_token cr now token jwt_secret valkey kind expose s =
     (case jwt_secret of
        None \<Rightarrow> (Inl (HTTPError 503 ''Authentication not configured''), s)
      | Some secret \<Rightarrow>
          (case decode_token cr now token secret of
             Inl (Uncaught e) \<Rightarrow> (Inl (Crash e), s)
           | Inl (ValueErr e) \<Rightarrow>
               (Inl (HTTPError 401 (if kind = TWO_FACTOR_CHALLENGE then ''Invalid or expired challenge token''
                                    else ''Invalid or expired token'')), s)
           | Inr p \<Rightarrow>
               (case type_check kind expose (get_claim p ''type'') of
                  Some err \<Rightarrow> (Inl err, s)
                | None \<Rightarrow>
                    if \<not> truthy (get_claim p ''sub'')
                    then (Inl (HTTPError 401 (if kind = TWO_FACTOR_CHALLENGE then ''Invalid challenge token''
                                              else ''Invalid token'')), s)
                    else (case token_revocation_reason valkey now p s of
                       (Inl e, s1) \<Rightarrow> (Inl (Crash (case e of ValueErr x \<Rightarrow> x | Uncaught x \<Rightarrow> x)), s1)
                     | (Inr None, s1) \<Rightarrow> (Inr p, s1)
                     | (Inr (Some reason), s1) \<Rightarrow>
                         (Inl (if kind = TWO_FACTOR_CHALLENGE
                               then HTTPError 401 ''Challenge invalidated by password change''
                               else if reason = REASON_REVOKED then HTTPError 401 ''Token has been revoked''
                               else HTTPError 401 ''Token invalidated by password change (revoked)''), s1)))))"

record auth_config =
  ac_secret :: "string option"
  ac_valkey :: "revocations option"

definition get_optional_user :: "crypto \<Rightarrow> rat \<Rightarrow> auth_config \<Rightarrow> string option \<Rightarrow> legacy_state
    \<Rightarrow> (http_error, payload option) result \<times> legacy_state" where
  "get_optional_user cr now cfg credentials s =
     (case (credentials, ac_secret cfg) of
        (Some token, Some secret) \<Rightarrow>
          (case validate_token cr now token (Some secret) (ac_valkey cfg) ACCESS False s of
             (Inr p, s1) \<Rightarrow> (Inr (Some p), s1)
           | (Inl (HTTPError code d), s1) \<Rightarrow> (Inr None, s1)
           | (Inl (Crash e), s1) \<Rightarrow> (Inl (Crash e), s1))
      | _ \<Rightarrow> (Inr None, s))"

definition require_user :: "crypto \<Rightarrow> rat \<Rightarrow> auth_config \<Rightarrow> string option \<Rightarrow> legacy_state
    \<Rightarrow> (http_error, payload) result \<times> legacy_state" where
  "require_user cr now cfg credentials s =
     (case ac_secret cfg of
        None \<Rightarrow> (Inl (HTTPError 503 ''Personalized endpoints not enabled''), s)
      | Some secret \<Rightarrow>
          (case credentials of
             None \<Rightarrow> (Inl (HTTPError 401 ''Authentication required''), s)
           | Some token \<Rightarrow> validate_token cr now token (Some secret) (ac_valkey cfg) ACCESS True s))"

text \<open>
  \<open>require_admin\<close>; the users table is a list of ids with their admin and active flags, absent when
  no pool is configured (an id, and the subject of an admin token, is the text of a UUID; a subject
  that is not text makes the query fail).
\<close>

definition require_admin :: "crypto \<Rightarrow> rat \<Rightarrow> auth_config \<Rightarrow> (string \<times> bool \<times> bool) list option
    \<Rightarrow> string option \<Rightarrow> legacy_state \<Rightarrow> (http_error, payload) result \<times> legacy_state" where
  "require_admin cr now cfg users credentials s =
     (case ac_secret cfg of
        None \<Rightarrow> (Inl (HTTPError 503 ''Admin endpoints not configured''), s)
      | Some secret \<Rightarrow>
          (case credentials of
             None \<Rightarrow> (Inl (HTTPError 401 ''Authentication required''), s)
           | Some token \<Rightarrow>
               (case validate_token cr now token (Some secret) (ac_valkey cfg) ADMIN False s of
                  (Inl e, s1) \<Rightarrow> (Inl e, s1)
                | (Inr p, s1) \<Rightarrow>
                    ((case users of
                       None \<Rightarrow> Inr p
                     | Some rows \<Rightarrow>
                         (case get_claim p ''sub'' of
                            CStr user \<Rightarrow>
                              (case find (\<lambda>(i, adm, active). i = user \<and> active) rows of
                                 Some (i, True, active) \<Rightarrow> Inr p
                               | _ \<Rightarrow> Inl (HTTPError 403 ''Admin access required''))
                          | _ \<Rightarrow> Inl (Crash ''DatabaseError''))), s1))))"

end
