(* ===== verification/App_Tokens.thy ===== *)
theory App_Tokens
  imports Auth
begin

text \<open>
  Revocable app tokens, \<open>src/api/app_tokens.py\<close>, and the dependency that accepts either a token or
  a login session, \<open>require_user_or_app_token\<close> of \<open>src/api/dependencies.py\<close>.

  The tables are the fields of \<open>token_db\<close>, absent when no pool is configured.  SHA-256, the random
  text of \<open>secrets.token_urlsafe\<close> and the id and time the server stamps a row with are arguments.
  A request is answered when the dependency returns; the fire-and-forget update it starts is
  \<open>touch_last_used_at\<close>, run at any later point.
\<close>

definition TOKEN_PREFIX :: string where
  "TOKEN_PREFIX = ''dscg_''"

record app_token =
  at_id :: nat
  at_user :: string
  at_name :: string
  at_scope :: "string list option"
  at_hash :: string
  at_created :: int
  at_last_used :: "int option"
  at_revoked :: "int option"

record token_db =
  tokens :: "app_token list"
  users :: "(string \<times> bool) list"

record app_token_auth =
  aa_user :: string
  aa_token :: nat
  aa_name :: string
  aa_scopes :: "string list"

definition generate_plaintext_token :: "string \<Rightarrow> string" where
  "generate_plaintext_token random = TOKEN_PREFIX @ random"

definition hash_token :: "(string \<Rightarrow> string) \<Rightarrow> string \<Rightarrow> string" where
  "hash_token sha plaintext = sha plaintext"

datatype token_error = NotConfigured | TokenHTTP http_error

definition mint_token :: "(string \<Rightarrow> string) \<Rightarrow> string \<Rightarrow> nat \<Rightarrow> int \<Rightarrow> string \<Rightarrow> string \<Rightarrow> string list
    \<Rightarrow> token_db option \<Rightarrow> (token_error, token_db \<times> nat \<times> string) result" where
  "mint_token sha random new_id now user_id name scopes pool =
     (case pool of
        None \<Rightarrow> Inl NotConfigured
      | Some d \<Rightarrow>
          let plaintext = generate_plaintext_token random;
              row = \<lparr>at_id = new_id, at_user = user_id, at_name = name, at_scope = Some scopes,
                     at_hash = hash_token sha plaintext, at_created = now, at_last_used = None,
                     at_revoked = None\<rparr>
          in Inr (d\<lparr>tokens := tokens d @ [row]\<rparr>, new_id, plaintext))"

text \<open>What a listing shows of a row: everything but the hash.\<close>

record token_view =
  tv_id :: nat
  tv_name :: string
  tv_scope :: "string list option"
  tv_created :: int
  tv_last_used :: "int option"
  tv_revoked :: "int option"

definition token_view :: "app_token \<Rightarrow> token_view" where
  "token_view r =
     \<lparr>tv_id = at_id r, tv_name = at_name r, tv_scope = at_scope r, tv_created = at_created r,
      tv_last_used = at_last_used r, tv_revoked = at_revoked r\<rparr>"

definition list_user_tokens :: "string \<Rightarrow> token_db option
    \<Rightarrow> (token_error, token_view list \<times> token_view list) result" where
  "list_user_tokens user_id pool =
     (case pool of
        None \<Rightarrow> Inl NotConfigured
      | Some d \<Rightarrow>
          let rows = map token_view (sort_key (\<lambda>r. - at_created r) (filter (\<lambda>r. at_user r = user_id) (tokens d)))
          in Inr (filter (\<lambda>r. tv_revoked r = None) rows, filter (\<lambda>r. tv_revoked r \<noteq> None) rows))"

definition revocable :: "nat \<Rightarrow> string \<Rightarrow> app_token \<Rightarrow> bool" where
  "revocable token_id user_id r \<longleftrightarrow> at_id r = token_id \<and> at_user r = user_id \<and> at_revoked r = None"

definition revoke_token :: "int \<Rightarrow> nat \<Rightarrow> string \<Rightarrow> token_db option \<Rightarrow> (token_error, token_db \<times> bool) result" where
  "revoke_token now token_id user_id pool =
     (case pool of
        None \<Rightarrow> Inl NotConfigured
      | Some d \<Rightarrow>
          Inr (d\<lparr>tokens := map (\<lambda>r. if revocable token_id user_id r then r\<lparr>at_revoked := Some now\<rparr> else r) (tokens d)\<rparr>,
               0 < length (filter (revocable token_id user_id) (tokens d))))"

text \<open>The update may fail; nothing is raised either way.\<close>

definition touch_last_used_at :: "bool \<Rightarrow> int \<Rightarrow> nat \<Rightarrow> token_db \<Rightarrow> token_db" where
  "touch_last_used_at goes now token_id d =
     (if goes
      then d\<lparr>tokens := map (\<lambda>r. if at_id r = token_id then r\<lparr>at_last_used := Some now\<rparr> else r) (tokens d)\<rparr>
      else d)"

definition parse_bearer :: "string option \<Rightarrow> (http_error, string) result" where
  "parse_bearer credentials =
     (case credentials of
        None \<Rightarrow> Inl (HTTPError 401 ''Authentication required'')
      | Some plaintext \<Rightarrow>
          if plaintext = [] then Inl (HTTPError 401 ''Authentication required'')
          else if \<not> starts_with TOKEN_PREFIX plaintext then Inl (HTTPError 401 ''Invalid app token'')
          else Inr plaintext)"

text \<open>The query: a token row that is not revoked joined with an active user of its owner's id.\<close>

definition active_row :: "token_db \<Rightarrow> string \<Rightarrow> app_token \<Rightarrow> bool" where
  "active_row d h r \<longleftrightarrow>
     at_hash r = h \<and> at_revoked r = None \<and> list_ex (\<lambda>(u, active). u = at_user r \<and> active) (users d)"

definition lookup_active_token :: "string \<Rightarrow> token_db option \<Rightarrow> (http_error, app_token option) result" where
  "lookup_active_token h pool =
     (case pool of
        None \<Rightarrow> Inl (HTTPError 503 ''App-token auth not enabled'')
      | Some d \<Rightarrow> Inr (find (active_row d h) (tokens d)))"

text \<open>The checks both entry points make on a looked-up row.\<close>

definition scope_detail :: "string list \<Rightarrow> string" where
  "scope_detail missing = ''App token missing required scope(s): '' @ join_with '', '' missing"

definition granted_scopes :: "app_token \<Rightarrow> string list" where
  "granted_scopes r = (case at_scope r of None \<Rightarrow> [] | Some ss \<Rightarrow> ss)"

definition require_app_token :: "(string \<Rightarrow> string) \<Rightarrow> string list \<Rightarrow> string option \<Rightarrow> token_db option
    \<Rightarrow> (http_error, app_token_auth) result" where
  "require_app_token sha required credentials pool =
     (case parse_bearer credentials of
        Inl e \<Rightarrow> Inl e
      | Inr plaintext \<Rightarrow>
          (case lookup_active_token (hash_token sha plaintext) pool of
             Inl e \<Rightarrow> Inl e
           | Inr None \<Rightarrow> Inl (HTTPError 401 ''Invalid or revoked app token'')
           | Inr (Some row) \<Rightarrow>
               if at_hash row \<noteq> hash_token sha plaintext then Inl (HTTPError 401 ''Invalid app token'')
               else let missing = filter (\<lambda>s. s \<notin> set (granted_scopes row)) required in
                 if missing \<noteq> [] then Inl (HTTPError 403 (scope_detail missing))
                 else Inr \<lparr>aa_user = at_user row, aa_token = at_id row, aa_name = at_name row,
                           aa_scopes = granted_scopes row\<rparr>))"

datatype auth_path = JWT | APP_TOKEN

record unified_auth =
  ua_user :: string
  ua_via :: auth_path
  ua_token :: "nat option"
  ua_scopes :: "string list"

definition require_user_or_app_token :: "crypto \<Rightarrow> rat \<Rightarrow> auth_config \<Rightarrow> (string \<Rightarrow> string) \<Rightarrow> string list
    \<Rightarrow> string option \<Rightarrow> token_db option \<Rightarrow> legacy_state
    \<Rightarrow> (http_error, unified_auth) result \<times> legacy_state" where
  "require_user_or_app_token cr now cfg sha required credentials pool s =
     (if (case credentials of None \<Rightarrow> False | Some c \<Rightarrow> starts_with TOKEN_PREFIX c)
      then let c = the credentials in
        (case lookup_active_token (hash_token sha c) pool of
           Inl e \<Rightarrow> Inl e
         | Inr None \<Rightarrow> Inl (HTTPError 401 ''Invalid or revoked app token'')
         | Inr (Some row) \<Rightarrow>
             if at_hash row \<noteq> hash_token sha c then Inl (HTTPError 401 ''Invalid app token'')
             else let missing = filter (\<lambda>x. x \<notin> set (granted_scopes row)) required in
               if missing \<noteq> [] then Inl (HTTPError 403 (scope_detail missing))
               else Inr \<lparr>ua_user = at_user row, ua_via = APP_TOKEN, ua_token = Some (at_id row),
                         ua_scopes = granted_scopes row\<rparr>, s)
      else (case require_user cr now cfg credentials s of
              (Inl e, s1) \<Rightarrow> (Inl e, s1)
            | (Inr p, s1) \<Rightarrow>
                (if \<not> truthy (get_claim p ''sub'') then Inl (HTTPError 401 ''Invalid token'')
                 else Inr \<lparr>ua_user = claim_text (get_claim p ''sub''), ua_via = JWT, ua_token = None,
                           ua_scopes = []\<rparr>, s1)))"

section \<open>The management endpoints\<close>

text \<open>
  \<open>src/api/routers/app_tokens.py\<close>: the caller is the payload \<open>require_user\<close> returned; the text of a
  UUID is read by an argument.  A \<open>RuntimeError\<close> and a failing query are crashes.
\<close>

definition ALLOWED_SCOPES :: "string list" where
  "ALLOWED_SCOPES =
     [''collection:read'', ''activity:write'', ''consent:read'', ''consent:write'', ''observations:read'',
      ''observations:write'', ''fit:read'']"

text \<open>\<open>current_user.get("sub", "")\<close>, refused when empty; a subject that is not text fails in the query.\<close>

definition caller_id :: "payload \<Rightarrow> (http_error, string) result" where
  "caller_id p =
     (if \<not> truthy (get_claim p ''sub'') then Inl (HTTPError 401 ''Invalid token'')
      else case get_claim p ''sub'' of CStr u \<Rightarrow> Inr u | _ \<Rightarrow> Inl (Crash ''DatabaseError''))"

record minted =
  mi_id :: nat
  mi_name :: string
  mi_scopes :: "string list"
  mi_token :: string
  mi_created :: "int option"

definition mint_app_token :: "(string \<Rightarrow> string) \<Rightarrow> string \<Rightarrow> nat \<Rightarrow> int \<Rightarrow> string \<Rightarrow> string list \<Rightarrow> payload
    \<Rightarrow> token_db option \<Rightarrow> (http_error, token_db \<times> minted) result" where
  "mint_app_token sha random new_id now body_name scopes user pool =
     (let unknown = filter (\<lambda>s. s \<notin> set ALLOWED_SCOPES) scopes in
      if unknown \<noteq> [] then Inl (HTTPError 400 (''Unknown scope(s): '' @ join_with '', '' unknown))
      else case caller_id user of
        Inl e \<Rightarrow> Inl e
      | Inr user_id \<Rightarrow>
          let name = strip body_name in
          if name = [] then Inl (HTTPError 400 ''name must be non-empty'')
          else case mint_token sha random new_id now user_id name scopes pool of
            Inl e \<Rightarrow> Inl (Crash ''RuntimeError'')
          | Inr (d, token_id, plaintext) \<Rightarrow>
              (case list_user_tokens user_id (Some d) of
                 Inl e \<Rightarrow> Inl (Crash ''RuntimeError'')
               | Inr (active, revoked) \<Rightarrow>
                   Inr (d, \<lparr>mi_id = token_id, mi_name = name, mi_scopes = scopes, mi_token = plaintext,
                            mi_created = map_option tv_created (find (\<lambda>t. tv_id t = token_id) active)\<rparr>)))"

record shaped_active =
  sa_id :: nat
  sa_name :: string
  sa_scopes :: "string list"
  sa_created :: int
  sa_last_used :: "int option"

record shaped_revoked =
  sr_id :: nat
  sr_name :: string
  sr_revoked :: "int option"

definition shape_active :: "token_view \<Rightarrow> shaped_active" where
  "shape_active t =
     \<lparr>sa_id = tv_id t, sa_name = tv_name t,
      sa_scopes = (case tv_scope t of None \<Rightarrow> [] | Some ss \<Rightarrow> ss),
      sa_created = tv_created t, sa_last_used = tv_last_used t\<rparr>"

definition shape_revoked :: "token_view \<Rightarrow> shaped_revoked" where
  "shape_revoked t = \<lparr>sr_id = tv_id t, sr_name = tv_name t, sr_revoked = tv_revoked t\<rparr>"

definition list_app_tokens :: "payload \<Rightarrow> token_db option
    \<Rightarrow> (http_error, shaped_active list \<times> shaped_revoked list) result" where
  "list_app_tokens user pool =
     (case caller_id user of
        Inl e \<Rightarrow> Inl e
      | Inr user_id \<Rightarrow>
          (case list_user_tokens user_id pool of
             Inl e \<Rightarrow> Inl (Crash ''RuntimeError'')
           | Inr (active, revoked) \<Rightarrow> Inr (map shape_active active, map shape_revoked revoked)))"

definition revoke_app_token :: "(string \<Rightarrow> nat option) \<Rightarrow> int \<Rightarrow> string \<Rightarrow> payload \<Rightarrow> token_db option
    \<Rightarrow> (http_error, token_db) result" where
  "revoke_app_token uuid_of now token_id user pool =
     (case caller_id user of
        Inl e \<Rightarrow> Inl e
      | Inr user_id \<Rightarrow>
          (case uuid_of token_id of
             None \<Rightarrow> Inl (HTTPError 404 ''Token not found'')
           | Some i \<Rightarrow>
               (case revoke_token now i user_id pool of
                  Inl e \<Rightarrow> Inl (Crash ''RuntimeError'')
                | Inr (d, success) \<Rightarrow>
                    if \<not> success then Inl (HTTPError 404 ''Token not found'') else Inr d)))"

end
