(* ===== verification/Auth_Properties.thy ===== *)
theory Auth_Properties
  imports App_Tokens
begin

text \<open>
  Properties of authentication: the base64url codec is a round trip, a minted challenge validates
  as one and as nothing else, every accepted token passed the whole policy, a revoked app token
  stays dead through any later history, and the two app-token entry points agree.
\<close>

section \<open>Base64url\<close>

lemma b64_code:
  assumes "n < 64"
  shows "(of_char (b64_char n) :: nat)
    = (if n < 26 then 65 + n else if n < 52 then 71 + n else if n < 62 then n - 4 else if n = 62 then 45 else 95)"
  using assms by (simp add: b64_char_def)

lemma b64_val_char: "n < 64 \<Longrightarrow> b64_val (b64_char n) = Some n"
  by (auto simp: b64_val_def b64_code Let_def)

lemma b64_char_plain:
  assumes "n < 64"
  shows "b64_char n \<noteq> CHR ''=''" "b64_char n \<noteq> CHR ''.''" "(of_char (b64_char n) :: nat) < 128"
proof -
  have "(of_char (b64_char n) :: nat) \<noteq> of_char (CHR ''='')" "(of_char (b64_char n) :: nat) \<noteq> of_char (CHR ''.'')"
    using assms by (auto simp: b64_code)
  then show "b64_char n \<noteq> CHR ''=''" "b64_char n \<noteq> CHR ''.''" by metis+
  show "(of_char (b64_char n) :: nat) < 128" using assms by (auto simp: b64_code)
qed

lemma of_char_less [simp]: "(of_char c :: nat) < 256"
  using of_char_mod_256 [of c] by (metis mod_less_divisor zero_less_numeral)

lemma byte_of_char [simp]: "byte_of (of_char c) = c"
  by (simp add: byte_of_def)

text \<open>Reading one encoded character at each position of the quad.\<close>

lemma a2b_char [simp]:
  assumes "n < 64"
  shows "a2b_base64 0 l p (b64_char n # cs) = a2b_base64 (Suc 0) n 0 cs"
    "a2b_base64 (Suc 0) l p (b64_char n # cs) = map_option (Cons (byte_of (l * 4 + n div 16))) (a2b_base64 2 (n mod 16) 0 cs)"
    "a2b_base64 2 l p (b64_char n # cs) = map_option (Cons (byte_of (l * 16 + n div 4))) (a2b_base64 3 (n mod 4) 0 cs)"
    "a2b_base64 3 l p (b64_char n # cs) = map_option (Cons (byte_of (l * 64 + n))) (a2b_base64 0 0 0 cs)"
  using assms b64_char_plain [OF assms] by (simp_all add: b64_val_char)

text \<open>The quantities the encoder writes fit six bits, and the reader puts the bytes back together.\<close>

lemma sextets:
  assumes "x < 256" "y < 256" "z < (256::nat)"
  shows "x div 4 < 64" "x mod 4 * 16 < 64" "x mod 4 * 16 + y div 16 < 64" "y mod 16 * 4 < 64"
    "y mod 16 * 4 + z div 64 < 64" "z mod 64 < 64"
    "x div 4 * 4 + (x mod 4 * 16) div 16 = x" "x div 4 * 4 + (x mod 4 * 16 + y div 16) div 16 = x"
    "(x mod 4 * 16 + y div 16) mod 16 * 16 + (y mod 16 * 4) div 4 = y"
    "(x mod 4 * 16 + y div 16) mod 16 * 16 + (y mod 16 * 4 + z div 64) div 4 = y"
    "(y mod 16 * 4 + z div 64) mod 4 * 64 + z mod 64 = z"
proof -
  have small: "y div 16 < 16" "z div 64 < 4" "x div 4 < 64" "x mod 4 < 4" "y mod 16 < 16" "z mod 64 < 64"
    using assms by (simp_all add: less_mult_imp_div_less)
  have split: "(a * k + b) div k = a" "(a * k + b) mod k = b" if "b < k" for a b k :: nat
    using that by (simp_all add: add.commute)
  show "x div 4 < 64" "z mod 64 < 64" by (fact small)+
  show "x mod 4 * 16 < 64" "y mod 16 * 4 < 64" using small(4,5) by linarith+
  show "x mod 4 * 16 + y div 16 < 64" using small(1,4) by linarith
  show "y mod 16 * 4 + z div 64 < 64" using small(2,5) by linarith
  show "x div 4 * 4 + (x mod 4 * 16) div 16 = x" by simp
  show "x div 4 * 4 + (x mod 4 * 16 + y div 16) div 16 = x" unfolding split(1) [OF small(1)] by simp
  show "(x mod 4 * 16 + y div 16) mod 16 * 16 + (y mod 16 * 4) div 4 = y" unfolding split(2) [OF small(1)] by simp
  show "(x mod 4 * 16 + y div 16) mod 16 * 16 + (y mod 16 * 4 + z div 64) div 4 = y"
    unfolding split(2) [OF small(1)] split(1) [OF small(2)] by simp
  show "(y mod 16 * 4 + z div 64) mod 4 * 64 + z mod 64 = z" unfolding split(2) [OF small(2)] by simp
qed

lemma quad_digits [simp]:
  "(of_char b :: nat) div 16 mod 16 = of_char b div 16" "(of_char b :: nat) div 64 mod 4 = of_char b div 64"
  using of_char_less [of b] by (simp_all add: less_mult_imp_div_less)

definition padding_of :: "string \<Rightarrow> string" where
  "padding_of s = (let k = 4 - length s mod 4 in if k = 4 then [] else replicate k (CHR ''=''))"

lemma padding_cases [simp]:
  "length s mod 4 = 0 \<Longrightarrow> padding_of s = []"
  "length s mod 4 = 2 \<Longrightarrow> padding_of s = [CHR ''='', CHR ''='']"
  "length s mod 4 = 3 \<Longrightarrow> padding_of s = [CHR ''='']"
  by (simp_all add: padding_of_def numeral_2_eq_2)

lemma a2b_pads [simp]:
  "a2b_base64 2 l 0 [CHR ''='', CHR ''=''] = Some []" "a2b_base64 3 l 0 [CHR ''=''] = Some []"
  by simp_all

declare a2b_base64.simps(2) [simp del]

lemma a2b_encode: "a2b_base64 0 0 0 (b64url_encode bs @ padding_of (b64url_encode bs)) = Some bs"
proof (induction bs rule: b64url_encode.induct)
  case 1
  show ?case by (simp add: padding_of_def)
next
  case (2 a)
  have "padding_of (b64url_encode [a]) = [CHR ''='', CHR ''='']" by (rule padding_cases) (simp add: Let_def)
  then show ?case using sextets [of "of_char a" 0 0] by (simp add: Let_def)
next
  case (3 a b)
  have "padding_of (b64url_encode [a, b]) = [CHR ''='']" by (rule padding_cases) (simp add: Let_def)
  then show ?case using sextets [of "of_char a" "of_char b" 0] by (simp add: Let_def)
next
  case (4 a b c bs)
  have pad: "padding_of (b64url_encode (a # b # c # bs)) = padding_of (b64url_encode bs)"
    by (simp add: padding_of_def Let_def)
  have IH: "a2b_base64 0 0 0 (b64url_encode bs @ padding_of (b64url_encode bs)) = Some bs" using 4 by blast
  note s = sextets [OF of_char_less [of a] of_char_less [of b] of_char_less [of c]]
  show ?case
    by (subst pad) (simp only: b64url_encode.simps(4) Let_def append_Cons a2b_char(1) [OF s(1)]
        a2b_char(2) [OF s(3)] a2b_char(3) [OF s(5)] a2b_char(4) [OF s(6)] s(8,10,11) IH byte_of_char option.map)
qed

lemma b64url_chars: "c \<in> set (b64url_encode bs) \<Longrightarrow> \<exists>n < 64. c = b64_char n"
proof (induction bs rule: b64url_encode.induct)
  case (2 a)
  then consider "c = b64_char (of_char a div 4)" | "c = b64_char (of_char a mod 4 * 16)"
    by (auto simp: Let_def)
  then show ?case using sextets(1,2) [OF of_char_less [of a] zero_less_numeral zero_less_numeral] by cases blast+
next
  case (3 a b)
  then consider "c = b64_char (of_char a div 4)" | "c = b64_char (of_char a mod 4 * 16 + of_char b div 16)"
    | "c = b64_char (of_char b mod 16 * 4)"
    by (auto simp: Let_def)
  then show ?case using sextets(1,3,4) [OF of_char_less [of a] of_char_less [of b] zero_less_numeral] by cases blast+
next
  case (4 a b d bs)
  then consider "c = b64_char (of_char a div 4)" | "c = b64_char (of_char a mod 4 * 16 + of_char b div 16)"
    | "c = b64_char (of_char b mod 16 * 4 + of_char d div 64)" | "c = b64_char (of_char d mod 64)"
    | "c \<in> set (b64url_encode bs)"
    by (auto simp: Let_def)
  then show ?case
    using 4 sextets(1,3,5,6) [OF of_char_less [of a] of_char_less [of b] of_char_less [of d]] by cases blast+
qed simp

lemma b64url_plain: "c \<in> set (b64url_encode bs) \<Longrightarrow> c \<noteq> CHR ''.'' \<and> (of_char c :: nat) < 128"
proof -
  assume "c \<in> set (b64url_encode bs)"
  then obtain n where "n < 64" "c = b64_char n" using b64url_chars by blast
  with b64_char_plain(2,3) [of n] show ?thesis by simp
qed

lemma b64url_decode_encode: "b64url_decode (b64url_encode bs) = Some bs"
proof -
  have "b64url_decode (b64url_encode bs) = a2b_base64 0 0 0 (b64url_encode bs @ padding_of (b64url_encode bs))"
    by (simp add: b64url_decode_def padding_of_def Let_def)
  then show ?thesis by (simp add: a2b_encode)
qed

text \<open>
  The base64url codec is a round trip on all byte strings.  Decoding what the encoder
  wrote, without its padding, gives the bytes back, so the encoder is injective; and what it
  writes is ASCII and holds no full stop, so the parts of a token cannot run into each other.
\<close>

theorem b64url_roundtrip:
  "b64url_decode (b64url_encode bs) = Some bs
    \<and> (b64url_encode bs = b64url_encode cs \<longrightarrow> bs = cs)
    \<and> is_ascii (b64url_encode bs) \<and> CHR ''.'' \<notin> set (b64url_encode bs)"
proof -
  have "bs = cs" if "b64url_encode bs = b64url_encode cs"
    using that by (metis b64url_decode_encode option.inject)
  moreover have "is_ascii (b64url_encode bs)" "CHR ''.'' \<notin> set (b64url_encode bs)"
    unfolding is_ascii_def list_all_iff using b64url_plain by blast+
  ultimately show ?thesis using b64url_decode_encode by blast
qed

theorem b64url_roundtrip_witness:
  "b64url_encode ''hi?'' = ''aGk_'' \<and> b64url_decode ''aGk_'' = Some ''hi?''"
proof -
  have "b64url_encode ''hi?'' = ''aGk_''" by (simp add: b64_char_def Let_def char_of_eq_iff)
  then show ?thesis using b64url_roundtrip [of "''hi?''" "''hi?''"] by simp
qed

section \<open>Signed tokens\<close>

text \<open>What a decoded token has shown: its three parts, its signature, its body and its expiry.\<close>

definition signed :: "crypto \<Rightarrow> string \<Rightarrow> string \<Rightarrow> payload \<Rightarrow> bool" where
  "signed cr secret token p \<longleftrightarrow>
     (\<exists>h b raw. token = h @ ''.'' @ b @ ''.'' @ b64url_encode (cr_mac cr secret (h @ ''.'' @ b))
        \<and> b64url_decode b = Some raw \<and> cr_loads cr raw = Some (Claims p))"

definition unexpired :: "rat \<Rightarrow> payload \<Rightarrow> bool" where
  "unexpired now p \<longleftrightarrow>
     (truthy (get_claim p ''exp'') \<longrightarrow> (\<exists>n. claim_int (get_claim p ''exp'') = Inr n \<and> now \<le> of_int n))"

lemma split_three:
  assumes "split_on c s = [x, y, z]"
  shows "s = x @ [c] @ y @ [c] @ z"
  using join_split [of c s] assms by simp

lemma split_on_three:
  assumes "c \<notin> set x" "c \<notin> set y" "c \<notin> set z"
  shows "split_on c (x @ [c] @ y @ [c] @ z) = [x, y, z]"
proof -
  have "split_on c (x @ c # (y @ c # z)) = x # split_on c (y @ c # z)" by (rule split_on_append [OF assms(1)])
  also have "split_on c (y @ c # z) = y # split_on c z" by (rule split_on_append [OF assms(2)])
  finally show ?thesis by (simp add: split_on_no_sep [OF assms(3)])
qed

lemma check_expiry_Inr: "check_expiry now p = Inr q \<longleftrightarrow> q = p \<and> check_expiry now p = Inr p"
  by (auto simp: check_expiry_def Let_def split: if_splits sum.splits)

lemma check_expiryD: "check_expiry now p = Inr q \<Longrightarrow> q = p \<and> unexpired now p"
  by (auto simp: check_expiry_def unexpired_def from_timestamp_def Let_def not_less split: if_splits sum.splits)

lemma decode_tokenD:
  assumes "decode_token cr now token secret = Inr p"
  shows "signed cr secret token p \<and> unexpired now p"
proof -
  from assms obtain h b sig where parts: "split_on (CHR ''.'') token = [h, b, sig]"
    by (auto simp: decode_token_def split: list.splits)
  with assms obtain raw q where sig: "sig = b64url_encode (cr_mac cr secret (h @ [CHR ''.''] @ b))"
    and body: "b64url_decode b = Some raw" "cr_loads cr raw = Some (Claims q)" and ex: "check_expiry now q = Inr p"
    by (auto simp: decode_token_def Let_def split: if_splits option.splits json_doc.splits)
  have p: "p = q" "unexpired now p" using check_expiryD [OF ex] by auto
  have "token = h @ ''.'' @ b @ ''.'' @ b64url_encode (cr_mac cr secret (h @ ''.'' @ b))"
    using split_three [OF parts] sig by simp
  with body p show ?thesis unfolding signed_def by blast
qed

lemma decode_sign_token:
  assumes "cr_loads cr (cr_dumps cr p) = Some (Claims p)"
  shows "decode_token cr now (sign_token cr hdr secret p) secret = check_expiry now p"
proof -
  let ?h = "b64url_encode hdr" and ?b = "b64url_encode (cr_dumps cr p)"
  let ?sig = "b64url_encode (cr_mac cr secret (?h @ [CHR ''.''] @ ?b))"
  have dot: "CHR ''.'' \<notin> set (b64url_encode x)" and ascii: "is_ascii (b64url_encode x)" for x
    using b64url_plain [of _ x] by (auto simp: is_ascii_def list_all_iff)
  have "sign_token cr hdr secret p = ?h @ [CHR ''.''] @ ?b @ [CHR ''.''] @ ?sig"
    by (simp add: sign_token_def Let_def)
  then have parts: "split_on (CHR ''.'') (sign_token cr hdr secret p) = [?h, ?b, ?sig]"
    using split_on_three [OF dot dot dot] by simp
  have "is_ascii (?h @ [CHR ''.''] @ ?b)" using ascii by (simp add: is_ascii_def)
  then show ?thesis
    using ascii assms by (simp add: decode_token_def parts Let_def b64url_decode_encode)
qed

section \<open>The policy\<close>

text \<open>What revocation has shown when it gives no reason.\<close>

definition not_revoked :: "revocations option \<Rightarrow> rat \<Rightarrow> payload \<Rightarrow> bool" where
  "not_revoked valkey now p \<longleftrightarrow>
     (\<forall>rv. valkey = Some rv \<longrightarrow>
        (truthy (get_claim p ''jti'') \<longrightarrow>
           rv_get rv (vc_key (rv_config rv) (''revoked:jti:'' @ claim_text (get_claim p ''jti''))) \<in> {Some None, Some (Some [])})
        \<and> (truthy (get_claim p ''sub'') \<longrightarrow>
           (case rv_get rv (vc_key (rv_config rv) (''password_changed:'' @ claim_text (get_claim p ''sub''))) of
              None \<Rightarrow> False
            | Some None \<Rightarrow> True
            | Some (Some raw) \<Rightarrow>
                raw = [] \<or> (\<exists>n. py_int raw = Some n \<and> issued_by (map_of p ''iat'') n = Some False))))"

lemma deny_valueD:
  assumes "deny_value rv now name s = (Inr v, s1)"
  shows "(\<exists>w. rv_get rv (vc_key (rv_config rv) name) = Some (Some w) \<and> v = Some w)
    \<or> rv_get rv (vc_key (rv_config rv) name) = Some None"
  using assms
  by (auto simp: deny_value_def get_deny_with_legacy_def split: sum.splits option.splits)

lemma password_checkD:
  assumes "password_check rv now p s = (Inr None, s1)" "truthy (get_claim p ''sub'')"
  shows "case rv_get rv (vc_key (rv_config rv) (''password_changed:'' @ claim_text (get_claim p ''sub''))) of
              None \<Rightarrow> False
            | Some None \<Rightarrow> True
            | Some (Some raw) \<Rightarrow>
                raw = [] \<or> (\<exists>n. py_int raw = Some n \<and> issued_by (map_of p ''iat'') n = Some False)"
proof -
  from assms obtain v s2 where v: "deny_value rv now (''password_changed:'' @ claim_text (get_claim p ''sub'')) s = (Inr v, s2)"
    by (auto simp: password_check_def Let_def split: sum.splits prod.splits)
  from deny_valueD [OF v] show ?thesis
    using assms v
    by (auto simp: password_check_def Let_def split: if_splits option.splits bool.splits prod.splits sum.splits)
qed

lemma token_revocation_reasonD:
  assumes "token_revocation_reason valkey now p s = (Inr None, s1)"
  shows "not_revoked valkey now p"
  unfolding not_revoked_def
proof (intro allI impI conjI)
  fix rv
  assume rv: "valkey = Some rv"
  show "rv_get rv (vc_key (rv_config rv) (''revoked:jti:'' @ claim_text (get_claim p ''jti''))) \<in> {Some None, Some (Some [])}"
    if jti: "truthy (get_claim p ''jti'')"
  proof -
    from assms rv jti obtain v s2 where v: "deny_value rv now (''revoked:jti:'' @ claim_text (get_claim p ''jti'')) s = (Inr v, s2)"
      by (auto simp: token_revocation_reason_def Let_def split: sum.splits prod.splits)
    from deny_valueD [OF v] show ?thesis
      using assms rv jti v by (auto simp: token_revocation_reason_def Let_def split: if_splits option.splits prod.splits sum.splits)
  qed
  have "\<exists>s2. password_check rv now p s2 = (Inr None, s1)"
    using assms rv by (auto simp: token_revocation_reason_def Let_def split: if_splits sum.splits prod.splits)
  then show "case rv_get rv (vc_key (rv_config rv) (''password_changed:'' @ claim_text (get_claim p ''sub''))) of
              None \<Rightarrow> False
            | Some None \<Rightarrow> True
            | Some (Some raw) \<Rightarrow>
                raw = [] \<or> (\<exists>n. py_int raw = Some n \<and> issued_by (map_of p ''iat'') n = Some False)"
    if "truthy (get_claim p ''sub'')"
    using password_checkD that by blast
qed

definition kind_type :: "jwt_kind \<Rightarrow> claim" where
  "kind_type kind = (case kind of ACCESS \<Rightarrow> CNull | ADMIN \<Rightarrow> CStr ''admin'' | TWO_FACTOR_CHALLENGE \<Rightarrow> CStr ''2fa_challenge'')"

lemma type_check_None: "type_check kind expose c = None \<longleftrightarrow> c = kind_type kind"
  by (auto simp: type_check_def kind_type_def split: jwt_kind.splits)

lemma validate_tokenD:
  assumes "validate_token cr now token jwt_secret valkey kind expose s = (Inr p, s1)"
  obtains secret where "jwt_secret = Some secret" "decode_token cr now token secret = Inr p"
    "get_claim p ''type'' = kind_type kind" "truthy (get_claim p ''sub'')" "not_revoked valkey now p"
  using assms
  by (auto simp: validate_token_def type_check_None split: option.splits sum.splits auth_error.splits if_splits prod.splits)
    (use token_revocation_reasonD in blast)

text \<open>
  C15.  Every accepted token passed the whole policy.  If validation accepts a token for a kind of
  use, then a secret is configured and the token's third part is the MAC, under that secret, of
  its first two; it has not expired; its type is the one of that kind, so no token is accepted
  for two kinds of use; it has a subject; no revocation of its id is recorded under the
  namespaced key; and, if the subject's password was changed, it was issued strictly after.
\<close>

theorem accepted_tokens_pass_policy:
  assumes "validate_token cr now token jwt_secret valkey kind expose s = (Inr p, s1)"
  shows "(\<exists>secret. jwt_secret = Some secret \<and> signed cr secret token p)
    \<and> unexpired now p
    \<and> get_claim p ''type'' = kind_type kind
    \<and> truthy (get_claim p ''sub'')
    \<and> not_revoked valkey now p
    \<and> (\<forall>kind' expose' s' q. fst (validate_token cr now token jwt_secret valkey kind' expose' s') = Inr q \<longrightarrow> kind' = kind)"
  using assms
proof (rule validate_tokenD)
  fix secret
  assume v: "jwt_secret = Some secret" "decode_token cr now token secret = Inr p"
    "get_claim p ''type'' = kind_type kind" "truthy (get_claim p ''sub'')" "not_revoked valkey now p"
  have only: "kind' = kind" if "validate_token cr now token jwt_secret valkey kind' expose' s' = (Inr q, s'')" for kind' expose' s' q s''
    using that
  proof (rule validate_tokenD)
    fix secret'
    assume "jwt_secret = Some secret'" "decode_token cr now token secret' = Inr q" "get_claim q ''type'' = kind_type kind'"
    with v have "kind_type kind' = kind_type kind" by simp
    then show "kind' = kind" by (cases kind; cases kind') (simp_all add: kind_type_def)
  qed
  have "kind' = kind" if "fst (validate_token cr now token jwt_secret valkey kind' expose' s') = Inr q" for kind' expose' s' q
    using only [OF prod_eqI, of kind' expose' s' q] that by simp
  then show ?thesis using v decode_tokenD [OF v(2)] by auto
qed

text \<open>
  A concrete world for the witnesses: a MAC that echoes its message's length, a JSON reader and
  writer for one payload, no keys in Valkey.
\<close>

definition ex_payload :: payload where
  "ex_payload = challenge_payload 1000 ''u1'' ''u1@example.org'' None ''j1''"

definition ex_crypto :: crypto where
  "ex_crypto = \<lparr>cr_mac = (\<lambda>k m. k @ show_nat (length m)), cr_loads = (\<lambda>s. if s = ''doc'' then Some (Claims ex_payload) else None),
     cr_dumps = (\<lambda>p. ''doc'')\<rparr>"

definition ex_config :: vk_config where
  "ex_config = \<lparr>vc_prefix = ''groovemap:'', vc_key = (\<lambda>n. ''groovemap:'' @ n), vc_mode_env = None, vc_window_env = None\<rparr>"

definition ex_revocations :: revocations where
  "ex_revocations = \<lparr>rv_config = ex_config, rv_float = (\<lambda>s. map_option of_int (py_int s)), rv_get = (\<lambda>k. Some None)\<rparr>"

lemma ex_token_accepted:
  "\<exists>s1. validate_token ex_crypto 1001 (create_challenge_token ex_crypto 1000 ''u1'' ''u1@example.org'' ''k'' None ''j1'')
     (Some ''k'') (Some ex_revocations) TWO_FACTOR_CHALLENGE False reset_state = (Inr ex_payload, s1)"
proof -
  let ?t = "create_challenge_token ex_crypto 1000 ''u1'' ''u1@example.org'' ''k'' None ''j1''"
  have "cr_loads ex_crypto (cr_dumps ex_crypto ex_payload) = Some (Claims ex_payload)" by (simp add: ex_crypto_def)
  then have "decode_token ex_crypto 1001 ?t ''k'' = check_expiry 1001 ex_payload"
    unfolding create_challenge_token_def ex_payload_def [symmetric] by (rule decode_sign_token)
  moreover have "check_expiry 1001 ex_payload = Inr ex_payload" by code_simp
  moreover have "\<exists>s1. token_revocation_reason (Some ex_revocations) 1001 ex_payload reset_state = (Inr None, s1)"
  proof -
    have "case token_revocation_reason (Some ex_revocations) 1001 ex_payload reset_state of
      (Inr None, s1) \<Rightarrow> True | _ \<Rightarrow> False" by code_simp
    then show ?thesis by (auto split: sum.splits option.splits)
  qed
  moreover have "get_claim ex_payload ''type'' = kind_type TWO_FACTOR_CHALLENGE" "truthy (get_claim ex_payload ''sub'')"
    by code_simp+
  ultimately show ?thesis by (auto simp: validate_token_def type_check_None [THEN iffD2])
qed

theorem accepted_tokens_pass_policy_witness:
  "signed ex_crypto ''k'' (create_challenge_token ex_crypto 1000 ''u1'' ''u1@example.org'' ''k'' None ''j1'') ex_payload
    \<and> unexpired 1001 ex_payload \<and> not_revoked (Some ex_revocations) 1001 ex_payload"
proof -
  obtain s1 where "validate_token ex_crypto 1001 (create_challenge_token ex_crypto 1000 ''u1'' ''u1@example.org'' ''k'' None ''j1'')
     (Some ''k'') (Some ex_revocations) TWO_FACTOR_CHALLENGE False reset_state = (Inr ex_payload, s1)"
    using ex_token_accepted by blast
  from accepted_tokens_pass_policy [OF this] show ?thesis by auto
qed

text \<open>
  A challenge token validates as what it was minted for.  If the JSON reader reads back
  what the writer wrote, a challenge token minted at one time and checked under the same secret
  within its five minutes is accepted as a challenge, with the claims it was minted with, unless
  it is revoked; after its expiry it is refused; and it is never accepted for access or
  administration.
\<close>

theorem challenge_token_roundtrip:
  assumes json: "cr_loads cr (cr_dumps cr (challenge_payload now user email issued jti))
      = Some (Claims (challenge_payload now user email issued jti))"
    and "user \<noteq> []" "0 \<le> now" "now + 300 < 253402300799"
  shows "let p = challenge_payload now user email issued jti;
             token = create_challenge_token cr now user email secret issued jti in
    (later \<le> of_int \<lfloor>now + 300\<rfloor> \<and> token_revocation_reason valkey later p s = (Inr None, s1) \<longrightarrow>
       validate_token cr later token (Some secret) valkey TWO_FACTOR_CHALLENGE expose s = (Inr p, s1))
    \<and> (of_int \<lfloor>now + 300\<rfloor> < later \<longrightarrow>
       validate_token cr later token (Some secret) valkey kind expose s
         = (Inl (HTTPError 401 (if kind = TWO_FACTOR_CHALLENGE then ''Invalid or expired challenge token''
                                else ''Invalid or expired token'')), s))
    \<and> (kind \<noteq> TWO_FACTOR_CHALLENGE \<longrightarrow>
       fst (validate_token cr later token (Some secret) valkey kind expose s) \<noteq> Inr q)"
proof -
  define p where "p = challenge_payload now user email issued jti"
  define token where "token = create_challenge_token cr now user email secret issued jti"
  have dec: "decode_token cr later token secret = check_expiry later p"
    unfolding token_def p_def create_challenge_token_def by (rule decode_sign_token [OF json])
  have type: "get_claim p ''type'' = CStr ''2fa_challenge''" and sub: "truthy (get_claim p ''sub'')"
    and ex: "get_claim p ''exp'' = CInt \<lfloor>now + 300\<rfloor>"
    using assms(2) by (simp_all add: p_def challenge_payload_def get_claim_def dict_get_def)
  have "0 < \<lfloor>now + 300\<rfloor>" using assms(3) by linarith
  moreover have "\<lfloor>now + 300\<rfloor> \<le> 253402300799" using assms(4) by linarith
  ultimately have exp: "check_expiry later p = (if of_int \<lfloor>now + 300\<rfloor> < later then Inl (ValueErr ''Token has expired'') else Inr p)"
    by (simp add: check_expiry_def ex from_timestamp_def)
  have "later \<le> of_int \<lfloor>now + 300\<rfloor> \<and> token_revocation_reason valkey later p s = (Inr None, s1) \<longrightarrow>
       validate_token cr later token (Some secret) valkey TWO_FACTOR_CHALLENGE expose s = (Inr p, s1)"
    by (simp add: validate_token_def dec exp type sub type_check_def)
  moreover have "of_int \<lfloor>now + 300\<rfloor> < later \<longrightarrow>
       validate_token cr later token (Some secret) valkey kind expose s
         = (Inl (HTTPError 401 (if kind = TWO_FACTOR_CHALLENGE then ''Invalid or expired challenge token''
                                else ''Invalid or expired token'')), s)"
    by (simp add: validate_token_def dec exp)
  moreover have "kind \<noteq> TWO_FACTOR_CHALLENGE \<longrightarrow> fst (validate_token cr later token (Some secret) valkey kind expose s) \<noteq> Inr q"
    by (cases kind) (simp_all add: validate_token_def dec exp type type_check_def)
  ultimately show ?thesis unfolding Let_def p_def token_def by blast
qed

theorem challenge_token_roundtrip_witness:
  "validate_token ex_crypto 1001 (create_challenge_token ex_crypto 1000 ''u1'' ''u1@example.org'' ''k'' None ''j1'')
     (Some ''k'') None TWO_FACTOR_CHALLENGE False reset_state = (Inr ex_payload, reset_state)"
proof -
  have "cr_loads ex_crypto (cr_dumps ex_crypto (challenge_payload 1000 ''u1'' ''u1@example.org'' None ''j1''))
      = Some (Claims (challenge_payload 1000 ''u1'' ''u1@example.org'' None ''j1''))"
    by (simp add: ex_crypto_def ex_payload_def)
  from challenge_token_roundtrip [OF this, where later = 1001 and valkey = None and s = reset_state
      and ?s1.0 = reset_state and secret = "''k''" and expose = False]
  show ?thesis by (simp add: Let_def token_revocation_reason_def ex_payload_def)
qed

section \<open>App tokens over time\<close>

text \<open>What can happen to the tables: minting, revoking, the late bookkeeping, and accounts.\<close>

datatype token_op =
    MintOp string nat int string string "string list"
  | RevokeOp int nat string
  | TouchOp bool int nat
  | SetActive string bool

fun token_step :: "(string \<Rightarrow> string) \<Rightarrow> token_op \<Rightarrow> token_db \<Rightarrow> token_db" where
  "token_step sha (MintOp random i now user name scopes) d =
     (case mint_token sha random i now user name scopes (Some d) of Inl e \<Rightarrow> d | Inr (d', z) \<Rightarrow> d')"
| "token_step sha (RevokeOp now i user) d =
     (case revoke_token now i user (Some d) of Inl e \<Rightarrow> d | Inr (d', z) \<Rightarrow> d')"
| "token_step sha (TouchOp goes now i) d = touch_last_used_at goes now i d"
| "token_step sha (SetActive user flag) d =
     d\<lparr>users := map (\<lambda>(u, a). if u = user then (u, flag) else (u, a)) (users d)\<rparr>"

text \<open>The random text of a later token differs, under the hash, from a given one.\<close>

fun other_hash :: "(string \<Rightarrow> string) \<Rightarrow> string \<Rightarrow> token_op \<Rightarrow> bool" where
  "other_hash sha h (MintOp random i now user name scopes) \<longleftrightarrow> hash_token sha (generate_plaintext_token random) \<noteq> h"
| "other_hash sha h op \<longleftrightarrow> True"

definition owned :: "string \<Rightarrow> nat \<Rightarrow> string \<Rightarrow> token_db \<Rightarrow> bool" where
  "owned h i user d \<longleftrightarrow> (\<forall>r \<in> set (tokens d). at_hash r = h \<longrightarrow> at_id r = i \<and> at_user r = user)"

definition dead :: "string \<Rightarrow> token_db \<Rightarrow> bool" where
  "dead h d \<longleftrightarrow> (\<forall>r \<in> set (tokens d). at_hash r = h \<longrightarrow> at_revoked r \<noteq> None)"

interpretation owner: history "token_step sha" "other_hash sha h" "owned h i user" for sha h i user
proof unfold_locales
  fix d op
  assume "owned h i user d" "other_hash sha h op"
  then show "owned h i user (token_step sha op d)"
    by (cases op) (auto simp: owned_def mint_token_def revoke_token_def touch_last_used_at_def Let_def)
qed

interpretation tombstone: history "token_step sha" "other_hash sha h" "dead h" for sha h
proof unfold_locales
  fix d op
  assume "dead h d" "other_hash sha h op"
  then show "dead h (token_step sha op d)"
    by (cases op) (auto simp: dead_def mint_token_def revoke_token_def touch_last_used_at_def Let_def)
qed

lemma dead_refused:
  assumes "dead (hash_token sha plain) d"
  shows "\<exists>msg. require_app_token sha required (Some plain) (Some d) = Inl (HTTPError 401 msg)"
proof -
  have "find (active_row d (hash_token sha plain)) (tokens d) = None"
    using assms by (auto simp: find_None_iff active_row_def dead_def)
  then show ?thesis by (simp add: require_app_token_def parse_bearer_def lookup_active_token_def)
qed

lemma revoke_kills:
  assumes "owned h i user d" "revoke_token now i user (Some d) = Inr (d', ok)"
  shows "dead h d'"
proof -
  have d': "tokens d' = map (\<lambda>r. if revocable i user r then r\<lparr>at_revoked := Some now\<rparr> else r) (tokens d)"
    using assms(2) by (auto simp: revoke_token_def)
  have "at_revoked (if revocable i user r then r\<lparr>at_revoked := Some now\<rparr> else r) \<noteq> None"
    if "r \<in> set (tokens d)" "at_hash r = h" for r
    using assms(1) that by (simp add: owned_def revocable_def)
  then show ?thesis by (fastforce simp: dead_def d' split: if_splits)
qed

text \<open>
  C16.  The life of an app token.  A freshly minted token, under a hash no row has, authenticates
  its active owner with its id and its scopes when they cover the required ones, and is refused
  with 403, naming what is missing, when they do not.  Whatever happens afterwards (other tokens
  minted, revoked or used, accounts deactivated and reactivated), once its owner revokes it, it
  is refused with 401 from then on, whatever happens after that.
\<close>

theorem app_token_lifecycle:
  assumes mint: "mint_token sha random i now user name scopes (Some d) = Inr (d1, j, plain)"
    and new: "\<forall>r \<in> set (tokens d). at_hash r \<noteq> hash_token sha plain"
    and active: "(user, True) \<in> set (users d)"
    and ops: "list_all (other_hash sha (hash_token sha plain)) ops"
      "list_all (other_hash sha (hash_token sha plain)) ops2"
    and revoke: "revoke_token later i user (Some (foldl (\<lambda>d op. token_step sha op d) d1 ops)) = Inr (d2, ok)"
  shows "(set required \<subseteq> set scopes \<longrightarrow>
       require_app_token sha required (Some plain) (Some d1)
         = Inr \<lparr>aa_user = user, aa_token = i, aa_name = name, aa_scopes = scopes\<rparr>)
    \<and> (\<not> set required \<subseteq> set scopes \<longrightarrow>
       require_app_token sha required (Some plain) (Some d1)
         = Inl (HTTPError 403 (scope_detail (filter (\<lambda>s. s \<notin> set scopes) required))))
    \<and> (\<exists>msg. require_app_token sha required (Some plain)
                (Some (foldl (\<lambda>d op. token_step sha op d) d2 ops2)) = Inl (HTTPError 401 msg))"
proof -
  let ?h = "hash_token sha plain"
  let ?row = "\<lparr>at_id = i, at_user = user, at_name = name, at_scope = Some scopes, at_hash = ?h,
     at_created = now, at_last_used = None, at_revoked = None\<rparr>"
  have d1: "d1 = d\<lparr>tokens := tokens d @ [?row]\<rparr>" and plain: "plain = TOKEN_PREFIX @ random"
    using mint by (auto simp: mint_token_def generate_plaintext_token_def Let_def)
  have old: "find (active_row d1 ?h) (tokens d) = None"
    using new by (auto simp: find_None_iff active_row_def)
  have "active_row d1 ?h ?row" using active by (auto simp: active_row_def d1 list_ex_iff)
  moreover have "find P (xs @ ys) = (case find P xs of None \<Rightarrow> find P ys | Some z \<Rightarrow> Some z)" for P and xs ys :: "app_token list"
    by (induction xs) auto
  ultimately have found: "find (active_row d1 ?h) (tokens d1) = Some ?row" using old by (simp add: d1)
  have parse: "parse_bearer (Some plain) = Inr plain"
    by (simp add: parse_bearer_def plain) (simp add: TOKEN_PREFIX_def)
  have auth: "require_app_token sha required (Some plain) (Some d1) =
      (if filter (\<lambda>s. s \<notin> set scopes) required \<noteq> []
       then Inl (HTTPError 403 (scope_detail (filter (\<lambda>s. s \<notin> set scopes) required)))
       else Inr \<lparr>aa_user = user, aa_token = i, aa_name = name, aa_scopes = scopes\<rparr>)"
    by (simp add: require_app_token_def parse lookup_active_token_def found granted_scopes_def Let_def)
  have "owned ?h i user d1" using new by (auto simp: owned_def d1)
  then have "owned ?h i user (foldl (\<lambda>d op. token_step sha op d) d1 ops)" by (rule owner.foldl_inv [OF _ ops(1)])
  from revoke_kills [OF this revoke] have "dead ?h (foldl (\<lambda>d op. token_step sha op d) d2 ops2)"
    by (rule tombstone.foldl_inv [OF _ ops(2)])
  note gone = dead_refused [OF this, of required]
  have "filter (\<lambda>s. s \<notin> set scopes) required = [] \<longleftrightarrow> set required \<subseteq> set scopes"
    by (auto simp: filter_empty_conv)
  with auth gone show ?thesis by auto
qed

theorem app_token_lifecycle_witness:
  "let d = \<lparr>tokens = [], users = [(''u1'', True)]\<rparr>;
       d1 = token_step id (MintOp ''abc'' 1 5 ''u1'' ''kiosk'' [''fit:read'']) d;
       d2 = token_step id (RevokeOp 9 1 ''u1'') (token_step id (TouchOp True 7 1) d1)
   in require_app_token id [''fit:read''] (Some ''dscg_abc'') (Some d1)
        = Inr \<lparr>aa_user = ''u1'', aa_token = 1, aa_name = ''kiosk'', aa_scopes = [''fit:read'']\<rparr>
      \<and> (\<exists>msg. require_app_token id [''fit:read''] (Some ''dscg_abc'')
                 (Some (token_step id (SetActive ''u1'' True) d2)) = Inl (HTTPError 401 msg))"
proof -
  let ?d = "\<lparr>tokens = [], users = [(''u1'', True)]\<rparr>"
  let ?d1 = "token_step id (MintOp ''abc'' 1 5 ''u1'' ''kiosk'' [''fit:read'']) ?d"
  let ?d2 = "token_step id (RevokeOp 9 1 ''u1'') (token_step id (TouchOp True 7 1) ?d1)"
  have mint: "mint_token id ''abc'' 1 5 ''u1'' ''kiosk'' [''fit:read''] (Some ?d) = Inr (?d1, 1, ''dscg_abc'')"
    by (simp add: mint_token_def generate_plaintext_token_def TOKEN_PREFIX_def Let_def)
  have revoke: "\<exists>ok. revoke_token 9 1 ''u1'' (Some (foldl (\<lambda>d op. token_step id op d) ?d1 [TouchOp True 7 1])) = Inr (?d2, ok)"
    by (simp add: revoke_token_def)
  then obtain ok where revoke: "revoke_token 9 1 ''u1'' (Some (foldl (\<lambda>d op. token_step id op d) ?d1 [TouchOp True 7 1])) = Inr (?d2, ok)"
    by blast
  have "list_all (other_hash id (hash_token id ''dscg_abc'')) [TouchOp True 7 1]"
    "list_all (other_hash id (hash_token id ''dscg_abc'')) [SetActive ''u1'' True]" by simp_all
  from app_token_lifecycle [OF mint _ _ this revoke, of "[''fit:read'']"] show ?thesis
    unfolding Let_def by auto
qed

text \<open>
  The two app-token entry points agree.  A credential with the token prefix is answered by
  the unified entry exactly as by the token-only one, same refusals and same identity, leaving
  the revocation state alone; any other credential, or none, is answered as \<open>require_user\<close>
  answers it, whatever tokens exist.
\<close>

theorem unified_entry_agrees:
  "(starts_with TOKEN_PREFIX c \<longrightarrow>
      require_user_or_app_token cr now cfg sha required (Some c) pool s =
        (case require_app_token sha required (Some c) pool of
           Inl e \<Rightarrow> Inl e
         | Inr a \<Rightarrow> Inr \<lparr>ua_user = aa_user a, ua_via = APP_TOKEN, ua_token = Some (aa_token a),
                        ua_scopes = aa_scopes a\<rparr>, s))
    \<and> ((case cred of None \<Rightarrow> True | Some x \<Rightarrow> \<not> starts_with TOKEN_PREFIX x) \<longrightarrow>
      require_user_or_app_token cr now cfg sha required cred pool s =
        (case require_user cr now cfg cred s of
           (Inl e, s1) \<Rightarrow> (Inl e, s1)
         | (Inr p, s1) \<Rightarrow> (Inr \<lparr>ua_user = claim_text (get_claim p ''sub''), ua_via = JWT, ua_token = None,
                                ua_scopes = []\<rparr>, s1)))"
proof (intro conjI impI)
  assume pre: "starts_with TOKEN_PREFIX c"
  then have "parse_bearer (Some c) = Inr c"
    by (auto simp: parse_bearer_def starts_with_def TOKEN_PREFIX_def)
  with pre show "require_user_or_app_token cr now cfg sha required (Some c) pool s =
        (case require_app_token sha required (Some c) pool of
           Inl e \<Rightarrow> Inl e
         | Inr a \<Rightarrow> Inr \<lparr>ua_user = aa_user a, ua_via = APP_TOKEN, ua_token = Some (aa_token a),
                        ua_scopes = aa_scopes a\<rparr>, s)"
    by (auto simp: require_user_or_app_token_def require_app_token_def Let_def split: sum.splits option.splits prod.splits)
next
  assume "case cred of None \<Rightarrow> True | Some x \<Rightarrow> \<not> starts_with TOKEN_PREFIX x"
  moreover have "truthy (get_claim p ''sub'')" if "require_user cr now cfg cred s = (Inr p, s1)" for p s1
    using that by (auto simp: require_user_def split: option.splits elim: validate_tokenD)
  ultimately show "require_user_or_app_token cr now cfg sha required cred pool s =
        (case require_user cr now cfg cred s of
           (Inl e, s1) \<Rightarrow> (Inl e, s1)
         | (Inr p, s1) \<Rightarrow> (Inr \<lparr>ua_user = claim_text (get_claim p ''sub''), ua_via = JWT, ua_token = None,
                                ua_scopes = []\<rparr>, s1))"
    by (cases cred) (auto simp: require_user_or_app_token_def split: sum.splits prod.splits option.splits)
qed


theorem unified_entry_agrees_witness:
  "let pool = Some \<lparr>tokens = [\<lparr>at_id = 7, at_user = ''u1'', at_name = ''kiosk'', at_scope = Some [''fit:read''],
                at_hash = ''dscg_abc'', at_created = 5, at_last_used = None, at_revoked = None\<rparr>],
              users = [(''u1'', True)]\<rparr>;
       cfg = \<lparr>ac_secret = Some ''k'', ac_valkey = None\<rparr>
   in require_user_or_app_token ex_crypto 1001 cfg id [''fit:read''] (Some ''dscg_abc'') pool reset_state
        = (Inr \<lparr>ua_user = ''u1'', ua_via = APP_TOKEN, ua_token = Some 7, ua_scopes = [''fit:read'']\<rparr>, reset_state)
    \<and> require_user_or_app_token ex_crypto 1001 cfg id [''fit:read''] None pool reset_state
        = (Inl (HTTPError 401 ''Authentication required''), reset_state)"
proof -
  let ?row = "\<lparr>at_id = 7, at_user = ''u1'', at_name = ''kiosk'', at_scope = Some [''fit:read''],
                at_hash = ''dscg_abc'', at_created = 5, at_last_used = None, at_revoked = None\<rparr>"
  let ?pool = "Some \<lparr>tokens = [?row], users = [(''u1'', True)]\<rparr>"
  let ?cfg = "\<lparr>ac_secret = Some ''k'', ac_valkey = None\<rparr>"
  have prefix: "starts_with TOKEN_PREFIX ''dscg_abc''" by (simp add: starts_with_def TOKEN_PREFIX_def)
  note agree = unified_entry_agrees [where cr = ex_crypto and now = 1001 and cfg = ?cfg and sha = id
      and required = "[''fit:read'']" and c = "''dscg_abc''" and pool = ?pool and s = reset_state and cred = None]
  have token: "require_app_token id [''fit:read''] (Some ''dscg_abc'') ?pool
      = Inr \<lparr>aa_user = ''u1'', aa_token = 7, aa_name = ''kiosk'', aa_scopes = [''fit:read'']\<rparr>"
    using prefix by (simp add: require_app_token_def parse_bearer_def lookup_active_token_def active_row_def
        hash_token_def granted_scopes_def)
  show ?thesis using agree prefix unfolding Let_def by (simp add: token require_user_def)
qed


text \<open>
  A signature that is not ASCII is not refused as a bad signature: the comparison raises, and
  nothing catches it, also where authentication is optional.
\<close>

lemma nonascii_signature_crashes:
  assumes "split_on (CHR ''.'') token = [header, body, sig]" "is_ascii (header @ [CHR ''.''] @ body)" "\<not> is_ascii sig"
    and "ac_secret cfg = Some secret"
  shows "fst (get_optional_user cr now cfg (Some token) s) = Inl (Crash ''TypeError'')"
  using assms by (simp add: get_optional_user_def validate_token_def decode_token_def)

end
