(* ===== verification/Valkey_Properties.thy ===== *)
theory Valkey_Properties
  imports Valkey_Keys
begin

text \<open>
  Properties of the key upgrade: the bounded window in which a deny check may read an unprefixed
  key, over any history of reads, and what the startup migration may do to the keyspace.
\<close>

section \<open>The deny window\<close>

text \<open>One deny read: the clock, the server as it answers then, and the key.\<close>

type_synonym deny_read = "rat \<times> vk_get \<times> string"

fun deny_step :: "vk_config \<Rightarrow> (string \<Rightarrow> rat option) \<Rightarrow> deny_read \<Rightarrow> legacy_state \<Rightarrow> legacy_state" where
  "deny_step c to_float (now, get, key) s = snd (get_deny_with_legacy c to_float now get key s)"

text \<open>The marker, at each read, is unreadable or says \<open>t\<close>.\<close>

definition marker_says :: "vk_config \<Rightarrow> (string \<Rightarrow> rat option) \<Rightarrow> rat \<Rightarrow> vk_get \<Rightarrow> bool" where
  "marker_says c to_float t get \<longleftrightarrow>
     (case get (marker_key c) of
        None \<Rightarrow> True
      | Some None \<Rightarrow> False
      | Some (Some raw) \<Rightarrow> raw \<noteq> [] \<and> to_float raw \<in> {None, Some t})"

definition deny_reads_ok :: "vk_config \<Rightarrow> (string \<Rightarrow> rat option) \<Rightarrow> rat \<Rightarrow> deny_read \<Rightarrow> bool" where
  "deny_reads_ok c to_float t r \<longleftrightarrow> marker_says c to_float t (fst (snd r))"

definition window_state :: "rat \<Rightarrow> int \<Rightarrow> legacy_state \<Rightarrow> bool" where
  "window_state t L s \<longleftrightarrow> ls_lifetime s = L \<and> ls_cutover s \<in> {None, Some t}"

lemma legacy_active_state:
  assumes "window_state t L s" "marker_says c to_float t get"
  shows "window_state t L (snd (legacy_active c to_float now get s))"
  using assms
  by (auto simp: legacy_active_def window_state_def marker_says_def Let_def
      split: sum.splits option.splits if_splits)

lemma deny_state:
  "snd (get_deny_with_legacy c to_float now get key s) \<in> {s, snd (legacy_active c to_float now get s)}"
  by (auto simp: get_deny_with_legacy_def split: option.splits sum.splits prod.splits)

interpretation window: history "deny_step c to_float" "deny_reads_ok c to_float t" "window_state t L"
  for c to_float t L
proof unfold_locales
  fix s r
  assume "window_state t L s" "deny_reads_ok c to_float t r"
  then show "window_state t L (deny_step c to_float r s)"
    using deny_state [of c to_float "fst r" "fst (snd r)" "snd (snd r)" s]
      legacy_active_state [of t L s c to_float "fst (snd r)" "fst r"]
    by (cases r) (auto simp: deny_reads_ok_def)
qed

text \<open>No read before the deadline closes the window.\<close>

definition open_state :: "rat \<Rightarrow> int \<Rightarrow> legacy_state \<Rightarrow> bool" where
  "open_state t L s \<longleftrightarrow> window_state t L s \<and> \<not> ls_closed s"

definition early_read :: "vk_config \<Rightarrow> (string \<Rightarrow> rat option) \<Rightarrow> rat \<Rightarrow> int \<Rightarrow> deny_read \<Rightarrow> bool" where
  "early_read c to_float t L r \<longleftrightarrow> deny_reads_ok c to_float t r \<and> fst r \<le> t + of_int (L + WINDOW_MARGIN_SECONDS)"

lemma window_covers_lifetime:
  assumes "effective_window_seconds c s = Inr w"
  shows "ls_lifetime s + WINDOW_MARGIN_SECONDS \<le> w"
  using assms by (auto simp: effective_window_seconds_def split: sum.splits)

lemma early_stays_open:
  assumes "open_state t L s" "marker_says c to_float t get" "now \<le> t + of_int (L + WINDOW_MARGIN_SECONDS)"
  shows "open_state t L (snd (legacy_active c to_float now get s))"
proof -
  have late: "\<not> t + of_int w < now" if "effective_window_seconds c (s\<lparr>ls_cutover := Some t\<rparr>) = Inr w" for w
  proof -
    from window_covers_lifetime [OF that] have "L + WINDOW_MARGIN_SECONDS \<le> w"
      using assms(1) by (simp add: open_state_def window_state_def)
    then have "(of_int (L + WINDOW_MARGIN_SECONDS) :: rat) \<le> of_int w" by (simp only: of_int_le_iff)
    with assms(3) show ?thesis by linarith
  qed
  then show ?thesis
    using assms(1,2) legacy_active_state [of t L s c to_float get now]
    by (auto simp: legacy_active_def open_state_def window_state_def marker_says_def Let_def
        split: sum.splits option.splits)
qed

interpretation opened: history "deny_step c to_float" "early_read c to_float t L" "open_state t L"
  for c to_float t L
proof unfold_locales
  fix s r
  assume "open_state t L s" "early_read c to_float t L r"
  then show "open_state t L (deny_step c to_float r s)"
    using deny_state [of c to_float "fst r" "fst (snd r)" "snd (snd r)" s]
      early_stays_open [of t L s c to_float "fst (snd r)" "fst r"]
    by (cases r) (auto simp: early_read_def deny_reads_ok_def)
qed

lemma legacy_name_SomeD:
  assumes "legacy_name c key (Some shapes) = Some name"
  shows "vc_prefix c \<noteq> [] \<and> key = vc_prefix c @ name \<and> list_ex (\<lambda>sh. sh name) shapes"
proof -
  from assms have "take (length (vc_prefix c)) key = vc_prefix c" "drop (length (vc_prefix c)) key = name"
    by (simp_all add: legacy_name_def Let_def starts_with_def split: if_splits)
  then have "key = vc_prefix c @ name" by (metis append_take_drop_id)
  with assms show ?thesis by (simp add: legacy_name_def Let_def split: if_splits)
qed

lemma legacy_name_prefixed:
  "vc_prefix c \<noteq> [] \<Longrightarrow> list_ex (\<lambda>sh. sh name) shapes \<Longrightarrow>
     legacy_name c (vc_prefix c @ name) (Some shapes) = Some name"
  by (simp add: legacy_name_def Let_def)

lemma effective_window_Inr:
  assumes "configured_window_seconds c = Inr w0"
  shows "effective_window_seconds c s = Inr (max w0 (ls_lifetime s + WINDOW_MARGIN_SECONDS))"
  using assms by (simp add: effective_window_seconds_def)

lemma active_when_early:
  assumes "open_state t L s" "marker_says c to_float t get" "now \<le> t + of_int (L + WINDOW_MARGIN_SECONDS)"
    and "legacy_mode c = Inr m" "m \<noteq> MODE_OFF" "vc_prefix c \<noteq> []" "configured_window_seconds c = Inr w0"
  shows "fst (legacy_active c to_float now get s) = Inr True"
proof -
  have "(of_int (L + WINDOW_MARGIN_SECONDS) :: rat) \<le> of_int (max w0 (L + WINDOW_MARGIN_SECONDS))"
    by (simp only: of_int_le_iff max.cobounded2)
  with assms(3) have "\<not> t + of_int (max w0 (L + WINDOW_MARGIN_SECONDS)) < now" by linarith
  then show ?thesis
    using assms by (auto simp: legacy_active_def open_state_def window_state_def marker_says_def
        effective_window_Inr Let_def split: option.splits)
qed

lemma inactive_when_late:
  assumes "window_state t L s" "get (marker_key c) = Some (Some raw)" "raw \<noteq> []" "to_float raw = Some t"
    and "legacy_mode c = Inr m" "configured_window_seconds c = Inr w0"
    and "t + of_int (max w0 (L + WINDOW_MARGIN_SECONDS)) < now"
  shows "fst (legacy_active c to_float now get s) = Inr False"
  using assms by (auto simp: legacy_active_def window_state_def effective_window_Inr Let_def split: option.splits)

text \<open>
  C17.  The bounded window of the deny fallback, over any history of deny reads from a fresh process
  that was told the longest token lifetime and whose cutover marker, when it can be read and
  parsed, always says the same time.  Up to that time plus the lifetime and the margin, a miss on
  a namespaced revocation is answered by its legacy key, so no unexpired token is un-revoked by
  the upgrade, whatever window is configured; once the window is over, a read answers from the
  namespaced key alone; and at any time a value that did not come from the namespaced key came
  from the legacy key of a revocation or password-change entry, in a mode other than \<open>off\<close>.
\<close>

theorem deny_window_covers_tokens:
  assumes mode: "legacy_mode c = Inr m" and win: "configured_window_seconds c = Inr w0"
    and reads: "list_all (deny_reads_ok c to_float t) reads" "marker_says c to_float t get"
    and s: "s = foldl (\<lambda>s r. deny_step c to_float r s) (configure_revocable_lifetime lifetime reset_state) reads"
  shows "(m \<noteq> MODE_OFF \<and> vc_prefix c \<noteq> [] \<and> key = vc_prefix c @ name \<and> list_ex (\<lambda>sh. sh name) DENY_LEGACY_SHAPES
        \<and> list_all (\<lambda>r. fst r \<le> t + of_int (max lifetime 0 + 300)) reads \<and> now \<le> t + of_int (max lifetime 0 + 300)
        \<and> get key = Some None \<and> get name = Some v \<longrightarrow>
       fst (get_deny_with_legacy c to_float now get key s) = Inr v)
    \<and> (t + of_int (max w0 (max lifetime 0 + 300)) < now \<and> get (marker_key c) = Some (Some raw)
        \<and> raw \<noteq> [] \<and> to_float raw = Some t \<and> get key = Some v \<longrightarrow>
       fst (get_deny_with_legacy c to_float now get key s) = Inr v)
    \<and> (fst (get_deny_with_legacy c to_float now get key s) = Inr (Some x) \<longrightarrow>
       get key = Some (Some x)
       \<or> get key = Some None \<and> m \<noteq> MODE_OFF
         \<and> (\<exists>n. key = vc_prefix c @ n \<and> get n = Some (Some x)
               \<and> (shape ''revoked:jti:'' n \<or> shape ''password_changed:'' n)))"
proof (intro conjI impI)
  let ?L = "max lifetime 0"
  assume a: "m \<noteq> MODE_OFF \<and> vc_prefix c \<noteq> [] \<and> key = vc_prefix c @ name \<and> list_ex (\<lambda>sh. sh name) DENY_LEGACY_SHAPES
        \<and> list_all (\<lambda>r. fst r \<le> t + of_int (?L + 300)) reads \<and> now \<le> t + of_int (?L + 300)
        \<and> get key = Some None \<and> get name = Some v"
  have "open_state t ?L (configure_revocable_lifetime lifetime reset_state)"
    by (simp add: open_state_def window_state_def configure_revocable_lifetime_def reset_state_def)
  moreover have "list_all (early_read c to_float t ?L) reads"
    using a reads(1) by (simp add: list_all_iff early_read_def WINDOW_MARGIN_SECONDS_def)
  ultimately have "open_state t ?L s" unfolding s by (rule opened.foldl_inv)
  then have "fst (legacy_active c to_float now get s) = Inr True"
    by (rule active_when_early [OF _ _ _ mode _ _ win]) (use a reads(2) in \<open>simp_all add: WINDOW_MARGIN_SECONDS_def\<close>)
  then show "fst (get_deny_with_legacy c to_float now get key s) = Inr v"
    using a by (auto simp: get_deny_with_legacy_def legacy_name_prefixed split: prod.splits)
next
  let ?L = "max lifetime 0"
  assume a: "t + of_int (max w0 (?L + 300)) < now \<and> get (marker_key c) = Some (Some raw)
        \<and> raw \<noteq> [] \<and> to_float raw = Some t \<and> get key = Some v"
  have "window_state t ?L (configure_revocable_lifetime lifetime reset_state)"
    by (simp add: window_state_def configure_revocable_lifetime_def reset_state_def)
  from window.foldl_inv [OF this reads(1)] have "window_state t ?L s" unfolding s .
  then have "fst (legacy_active c to_float now get s) = Inr False"
    by (rule inactive_when_late [where raw = raw, OF _ _ _ _ mode win]) (use a in \<open>simp_all add: WINDOW_MARGIN_SECONDS_def\<close>)
  then show "fst (get_deny_with_legacy c to_float now get key s) = Inr v"
    using a by (auto simp: get_deny_with_legacy_def split: prod.splits option.splits)
next
  assume a: "fst (get_deny_with_legacy c to_float now get key s) = Inr (Some x)"
  have on: "m \<noteq> MODE_OFF" if "legacy_active c to_float now get s = (Inr True, s1)" for s1
    using that mode by (auto simp: legacy_active_def split: if_splits)
  show "get key = Some (Some x)
       \<or> get key = Some None \<and> m \<noteq> MODE_OFF
         \<and> (\<exists>n. key = vc_prefix c @ n \<and> get n = Some (Some x)
               \<and> (shape ''revoked:jti:'' n \<or> shape ''password_changed:'' n))"
    using a on
    by (auto simp: get_deny_with_legacy_def DENY_LEGACY_SHAPES_def dest: legacy_name_SomeD
        split: option.splits sum.splits prod.splits if_splits)
qed


theorem deny_window_covers_tokens_witness:
  "let c = \<lparr>vc_prefix = ''gm:'', vc_key = (@) ''gm:'', vc_mode_env = None, vc_window_env = Some ''60''\<rparr>;
       get = (\<lambda>k. if k = ''gm:legacy-keys:cutover'' then Some (Some ''1000'')
                 else if k = ''revoked:jti:a'' then Some (Some ''1'') else Some None)
   in fst (get_deny_with_legacy c (\<lambda>raw. Some 1000) 4000 get ''gm:revoked:jti:a''
             (configure_revocable_lifetime 3600 reset_state)) = Inr (Some ''1'')
    \<and> fst (get_deny_with_legacy c (\<lambda>raw. Some 1000) 4901 get ''gm:revoked:jti:a''
             (configure_revocable_lifetime 3600 reset_state)) = Inr None"
proof -
  let ?c = "\<lparr>vc_prefix = ''gm:'', vc_key = (@) ''gm:'', vc_mode_env = None, vc_window_env = Some ''60''\<rparr>"
  let ?get = "\<lambda>k. if k = ''gm:legacy-keys:cutover'' then Some (Some ''1000'')
                 else if k = ''revoked:jti:a'' then Some (Some ''1'') else Some None"
  have mode: "legacy_mode ?c = Inr ''read''" by code_simp
  have win: "configured_window_seconds ?c = Inr 60" by code_simp
  have marker: "marker_key ?c = ''gm:legacy-keys:cutover''" by (simp add: marker_key_def MARKER_NAME_def)
  have says: "marker_says ?c (\<lambda>raw. Some 1000) 1000 ?get" by (simp add: marker_says_def marker)
  have shape: "list_ex (\<lambda>sh. sh ''revoked:jti:a'') DENY_LEGACY_SHAPES"
    by (simp add: DENY_LEGACY_SHAPES_def shape_def starts_with_def removeprefix_def matches_tail_def chomp_def
        id_char_def Let_def char_of_eq_iff)
  note both = deny_window_covers_tokens [OF mode win, of "\<lambda>raw. Some 1000" 1000 "[]" ?get _ 3600, simplified,
      OF says refl]
  show ?thesis
    using both [where now = 4000 and key = "''gm:revoked:jti:a''" and name = "''revoked:jti:a''" and v = "Some ''1''"]
      both [where now = 4901 and key = "''gm:revoked:jti:a''" and v = None and raw = "''1000''"] shape
    by (simp add: Let_def marker MODE_OFF_def)
qed


section \<open>The startup migration\<close>

text \<open>
  The abstract promise, between the keyspace a migration found and the one it left.  A prefixed
  key keeps the value it had, and one that had none can only have got the value of its legacy
  key, with its remaining time; an unprefixed key is as it was, or was a legacy key with a time
  to live, is gone, and its prefixed name has a value.
\<close>

definition legacy_shaped :: "vk_config \<Rightarrow> string \<Rightarrow> bool" where
  "legacy_shaped c name \<longleftrightarrow>
     \<not> starts_with (vc_prefix c) name \<and> list_ex (\<lambda>(g, sh). sh name) LEGACY_KEY_PATTERNS"

definition moved_only :: "vk_config \<Rightarrow> keyspace \<Rightarrow> keyspace \<Rightarrow> bool" where
  "moved_only c before after \<longleftrightarrow>
     (\<forall>k. (starts_with (vc_prefix c) k \<longrightarrow>
            (\<forall>x. before k = Some x \<longrightarrow> after k = Some x)
            \<and> (\<forall>x. before k = None \<and> after k = Some x \<longrightarrow>
                 (\<exists>name v ttl. k = vc_prefix c @ name \<and> legacy_shaped c name
                     \<and> before name = Some (v, Some ttl) \<and> x = (v, Some (max ttl 1)))))
       \<and> (\<not> starts_with (vc_prefix c) k \<longrightarrow>
            after k = before k
            \<or> after k = None \<and> legacy_shaped c k \<and> (\<exists>v ttl. before k = Some (v, Some ttl))
              \<and> after (vc_prefix c @ k) \<noteq> None))"

lemma moved_only_refl: "moved_only c ks ks"
  by (auto simp: moved_only_def)

lemma moved_onlyD:
  assumes "moved_only c before after" "starts_with (vc_prefix c) k"
  shows "before k = Some x \<Longrightarrow> after k = Some x"
    and "before k = None \<Longrightarrow> after k = Some x \<Longrightarrow>
      \<exists>name v ttl. k = vc_prefix c @ name \<and> legacy_shaped c name
         \<and> before name = Some (v, Some ttl) \<and> x = (v, Some (max ttl 1))"
  using assms unfolding moved_only_def by blast+

lemma moved_only_unprefixed:
  assumes "moved_only c before after" "\<not> starts_with (vc_prefix c) k"
  shows "after k = before k
    \<or> after k = None \<and> legacy_shaped c k \<and> (\<exists>v ttl. before k = Some (v, Some ttl)) \<and> after (vc_prefix c @ k) \<noteq> None"
  using assms by (auto simp: moved_only_def)

text \<open>The two writes keep the promise.\<close>

lemma moved_only_copy:
  assumes "moved_only c before ks" "legacy_shaped c name" "ks name = Some (v, Some ttl)" "ks (vc_prefix c @ name) = None"
  shows "moved_only c before (ks(vc_prefix c @ name \<mapsto> (v, Some (max ttl 1))))"
proof -
  have un: "\<not> starts_with (vc_prefix c) name" using assms(2) by (simp add: legacy_shaped_def)
  have b: "before name = Some (v, Some ttl)" using moved_only_unprefixed [OF assms(1) un] assms(3) by auto
  have n: "before (vc_prefix c @ name) = None"
    using moved_onlyD(1) [OF assms(1), of "vc_prefix c @ name"] assms(4) by (cases "before (vc_prefix c @ name)") auto
  show ?thesis unfolding moved_only_def
  proof (intro allI conjI impI)
    fix k x
    assume k: "starts_with (vc_prefix c) k"
    show "(ks(vc_prefix c @ name \<mapsto> (v, Some (max ttl 1)))) k = Some x" if "before k = Some x"
      using that n moved_onlyD(1) [OF assms(1) k] by auto
    show "\<exists>na va t. k = vc_prefix c @ na \<and> legacy_shaped c na \<and> before na = Some (va, Some t) \<and> x = (va, Some (max t 1))"
      if "before k = None \<and> (ks(vc_prefix c @ name \<mapsto> (v, Some (max ttl 1)))) k = Some x"
      using that b assms(2) moved_onlyD(2) [OF assms(1) k] by (auto split: if_splits)
  next
    fix k
    assume k: "\<not> starts_with (vc_prefix c) k"
    then have "k \<noteq> vc_prefix c @ name" by auto
    with k show "(ks(vc_prefix c @ name \<mapsto> (v, Some (max ttl 1)))) k = before k
      \<or> (ks(vc_prefix c @ name \<mapsto> (v, Some (max ttl 1)))) k = None \<and> legacy_shaped c k
        \<and> (\<exists>v ttl. before k = Some (v, Some ttl))
        \<and> (ks(vc_prefix c @ name \<mapsto> (v, Some (max ttl 1)))) (vc_prefix c @ k) \<noteq> None"
      using moved_only_unprefixed [OF assms(1) k] by simp blast
  qed
qed

lemma moved_only_delete:
  assumes "moved_only c before ks" "legacy_shaped c name" "ks name = Some (v, Some ttl)" "ks (vc_prefix c @ name) \<noteq> None"
  shows "moved_only c before (ks(name := None))"
proof -
  have un: "\<not> starts_with (vc_prefix c) name" using assms(2) by (simp add: legacy_shaped_def)
  have b: "before name = Some (v, Some ttl)" using moved_only_unprefixed [OF assms(1) un] assms(3) by auto
  show ?thesis unfolding moved_only_def
  proof (intro allI conjI impI)
    fix k x
    assume k: "starts_with (vc_prefix c) k"
    then have "k \<noteq> name" using un by auto
    then show "(ks(name := None)) k = Some x" if "before k = Some x"
      using that moved_onlyD(1) [OF assms(1) k] by auto
    show "\<exists>na va t. k = vc_prefix c @ na \<and> legacy_shaped c na \<and> before na = Some (va, Some t) \<and> x = (va, Some (max t 1))"
      if "before k = None \<and> (ks(name := None)) k = Some x"
      using that \<open>k \<noteq> name\<close> moved_onlyD(2) [OF assms(1) k] by auto
  next
    fix k
    assume k: "\<not> starts_with (vc_prefix c) k"
    have p: "vc_prefix c @ k \<noteq> name" using un by auto
    show "(ks(name := None)) k = before k
      \<or> (ks(name := None)) k = None \<and> legacy_shaped c k \<and> (\<exists>v ttl. before k = Some (v, Some ttl))
        \<and> (ks(name := None)) (vc_prefix c @ k) \<noteq> None"
      using moved_only_unprefixed [OF assms(1) k] p b assms(2,4) by (cases "k = name") auto
  qed
qed


lemma migrate_one_moves:
  assumes "moved_only c before (fst st)" "legacy_shaped c name"
  shows "moved_only c before (fst (migrate_one fails name (vc_prefix c @ name) st))"
proof -
  obtain ks stats where st: "st = (ks, stats)" by (cases st)
  have un: "\<not> starts_with (vc_prefix c) name" using assms(2) by (simp add: legacy_shaped_def)
  have away: "vc_prefix c @ name \<noteq> name" using un by (metis starts_with_append)
  show ?thesis
  proof (cases "\<exists>v ttl. ks name = Some (v, Some ttl)")
    case True
    then obtain v ttl where v: "ks name = Some (v, Some ttl)" by blast
    let ?ks1 = "if ks (vc_prefix c @ name) = None then ks(vc_prefix c @ name \<mapsto> (v, Some (max ttl 1))) else ks"
    have m1: "moved_only c before ?ks1"
      using moved_only_copy [where ks = ks, OF _ assms(2) v] assms(1) st by simp
    have "moved_only c before (?ks1(name := None))"
      by (rule moved_only_delete [OF m1 assms(2)]) (use v away in auto)
    with m1 assms(1) v show ?thesis by (simp add: st migrate_one_def Let_def)
  next
    case False
    then show ?thesis using assms(1) by (auto simp: st migrate_one_def Let_def split: option.splits)
  qed
qed

lemma migrate_keys_moves:
  assumes "(g, sh) \<in> set LEGACY_KEY_PATTERNS" "moved_only c before (fst st)"
  shows "moved_only c before (fst (migrate_keys c fails sh names st))"
  using assms(2)
proof (induction names arbitrary: st)
  case (Cons n names)
  have "legacy_shaped c n" if "\<not> starts_with (vc_prefix c) n" "sh n"
    using that assms(1) by (auto simp: legacy_shaped_def list_ex_iff)
  then show ?case
    using Cons.IH [OF migrate_one_moves [OF Cons.prems, of n fails]]
      Cons.IH [of "(fst st, (snd st)\<lparr>ms_skipped := ms_skipped (snd st) + 1\<rparr>)"] Cons.prems by auto
qed simp

lemma migrate_families_moves:
  assumes "set fams \<subseteq> set LEGACY_KEY_PATTERNS" "moved_only c before (fst st)"
  shows "moved_only c before (fst (snd (migrate_families c fails scan fams st)))"
  using assms
proof (induction fams arbitrary: st)
  case (Cons f fams)
  obtain g sh where f: "f = (g, sh)" by (cases f)
  have "moved_only c before (fst (migrate_keys c fails sh names st))" for names
    using Cons.prems by (auto simp: f intro: migrate_keys_moves)
  then show ?case using Cons by (auto simp: f Let_def split: prod.splits)
qed simp

text \<open>Nothing is left behind by a migration without failures.\<close>

definition gone :: "keyspace \<Rightarrow> string \<Rightarrow> bool" where
  "gone ks n \<longleftrightarrow> (\<forall>v ttl. ks n \<noteq> Some (v, Some ttl))"

lemma gone_mono:
  assumes "gone ks n" "moved_only c ks ks'" "\<not> starts_with (vc_prefix c) n"
  shows "gone ks' n"
  using assms(1) moved_only_unprefixed [OF assms(2,3)] by (auto simp: gone_def)

lemma migrate_one_failed:
  "ms_failed (snd st) \<le> ms_failed (snd (migrate_one fails legacy target st))"
  "ms_failed (snd (migrate_one fails legacy target st)) = ms_failed (snd st) \<Longrightarrow>
     gone (fst (migrate_one fails legacy target st)) legacy"
  by (cases st; auto simp: migrate_one_def Let_def gone_def split: option.splits prod.splits if_splits)+

lemma migrate_keys_failed:
  "ms_failed (snd st) \<le> ms_failed (snd (migrate_keys c fails sh names st))"
proof (induction names arbitrary: st)
  case (Cons n names)
  show ?case
    using Cons [of "(fst st, (snd st)\<lparr>ms_skipped := ms_skipped (snd st) + 1\<rparr>)"]
      Cons [of "migrate_one fails n (vc_prefix c @ n) st"] migrate_one_failed(1) [of st fails n "vc_prefix c @ n"]
    by auto
qed simp

lemma migrate_keys_gone:
  assumes "(g, sh) \<in> set LEGACY_KEY_PATTERNS"
    and "ms_failed (snd (migrate_keys c fails sh names st)) = ms_failed (snd st)"
    and "n \<in> set names" "sh n" "\<not> starts_with (vc_prefix c) n"
  shows "gone (fst (migrate_keys c fails sh names st)) n"
  using assms(2,3)
proof (induction names arbitrary: st)
  case (Cons m names)
  let ?st1 = "if starts_with (vc_prefix c) m \<or> \<not> sh m then (fst st, (snd st)\<lparr>ms_skipped := ms_skipped (snd st) + 1\<rparr>)
    else migrate_one fails m (vc_prefix c @ m) st"
  have eq: "migrate_keys c fails sh (m # names) st = migrate_keys c fails sh names ?st1" by simp
  have up: "ms_failed (snd st) \<le> ms_failed (snd ?st1)" using migrate_one_failed(1) by auto
  have same: "ms_failed (snd (migrate_keys c fails sh names ?st1)) = ms_failed (snd ?st1)"
    "ms_failed (snd ?st1) = ms_failed (snd st)"
    using Cons.prems(1) migrate_keys_failed [of ?st1 c fails sh names] up unfolding eq by linarith+
  show ?case
  proof (cases "n \<in> set names")
    case True
    then show ?thesis unfolding eq by (rule Cons.IH [OF same(1)])
  next
    case False
    then have "m = n" using Cons.prems(2) by simp
    then have "gone (fst ?st1) n" using same(2) assms(4,5) migrate_one_failed(2) by auto
    moreover have "moved_only c (fst ?st1) (fst (migrate_keys c fails sh names ?st1))"
      by (rule migrate_keys_moves [OF assms(1) moved_only_refl])
    ultimately show ?thesis unfolding eq using assms(5) by (rule gone_mono)
  qed
qed simp

lemma migrate_families_failed:
  "ms_failed (snd st) \<le> ms_failed (snd (snd (migrate_families c fails scan fams st)))"
proof (induction fams arbitrary: st)
  case (Cons f fams)
  show ?case
    using le_trans [OF migrate_keys_failed Cons [of "migrate_keys c fails (snd f) (fst (scan (fst f))) st"]]
      migrate_keys_failed [of st c fails "snd f" "fst (scan (fst f))"]
    by (cases f) (auto simp: Let_def split: prod.splits)
qed simp

lemma migrate_families_gone:
  assumes "set fams \<subseteq> set LEGACY_KEY_PATTERNS" "fst (migrate_families c fails scan fams st)"
    and "ms_failed (snd (snd (migrate_families c fails scan fams st))) = ms_failed (snd st)"
    and "(g, sh) \<in> set fams" "n \<in> set (fst (scan g))" "sh n" "\<not> starts_with (vc_prefix c) n"
  shows "snd (scan g) \<and> gone (fst (snd (migrate_families c fails scan fams st))) n"
  using assms(1-4)
proof (induction fams arbitrary: st)
  case (Cons f fams)
  obtain g' sh' where f: "f = (g', sh')" by (cases f)
  let ?st1 = "migrate_keys c fails sh' (fst (scan g')) st"
  have ended: "snd (scan g')" using Cons.prems(2) by (auto simp: f Let_def split: prod.splits if_splits)
  then have eq: "migrate_families c fails scan (f # fams) st = migrate_families c fails scan fams ?st1"
    by (auto simp: f Let_def split: prod.splits)
  have same: "ms_failed (snd (snd (migrate_families c fails scan fams ?st1))) = ms_failed (snd ?st1)"
    "ms_failed (snd ?st1) = ms_failed (snd st)"
    using Cons.prems(3) migrate_families_failed [of ?st1 c fails scan fams]
      migrate_keys_failed [of st c fails sh' "fst (scan g')"] unfolding eq by linarith+
  have fams: "set fams \<subseteq> set LEGACY_KEY_PATTERNS" and mem: "(g', sh') \<in> set LEGACY_KEY_PATTERNS"
    using Cons.prems(1) f by auto
  show ?case
  proof (cases "(g, sh) \<in> set fams")
    case True
    show ?thesis unfolding eq using Cons.IH [OF fams _ same(1) True] Cons.prems(2) unfolding eq by blast
  next
    case False
    then have gs: "g = g'" "sh = sh'" using Cons.prems(4) f by auto
    have "gone (fst ?st1) n" using migrate_keys_gone [OF mem same(2)] assms(5-7) gs by simp
    moreover have "moved_only c (fst ?st1) (fst (snd (migrate_families c fails scan fams ?st1)))"
      by (rule migrate_families_moves [OF fams moved_only_refl])
    ultimately show ?thesis unfolding eq using gone_mono assms(7) ended gs by blast
  qed
qed simp


lemma migrate_legacy_moves:
  "moved_only c ks (snd (migrate_legacy_keys c fails scan ks))"
  using migrate_families_moves [of LEGACY_KEY_PATTERNS c ks "(ks, no_stats)" fails scan]
  by (auto simp: migrate_legacy_keys_def moved_only_refl split: prod.splits)

lemma migrate_legacy_gone:
  assumes "migrate_legacy_keys c fails scan ks = (Inr stats, ks1)" "ms_failed stats = 0" "vc_prefix c \<noteq> []"
    and "(g, sh) \<in> set LEGACY_KEY_PATTERNS" "n \<in> set (fst (scan g))" "sh n" "\<not> starts_with (vc_prefix c) n"
  shows "gone ks1 n"
  using assms migrate_families_gone [of LEGACY_KEY_PATTERNS c fails scan "(ks, no_stats)" g sh n]
  by (auto simp: migrate_legacy_keys_def no_stats_def split: prod.splits if_splits)

text \<open>A marker's name has no legacy shape, so a migration never brings one in.\<close>

lemma markers_not_legacy:
  "\<not> legacy_shaped c MARKER_NAME" "\<not> legacy_shaped c MIGRATED_NAME"
  by (simp_all add: legacy_shaped_def LEGACY_KEY_PATTERNS_def shape_def starts_with_def MARKER_NAME_def MIGRATED_NAME_def)

lemma moved_only_marker:
  assumes "moved_only c before after" "\<not> legacy_shaped c name" "before (vc_prefix c @ name) = None"
  shows "after (vc_prefix c @ name) = None"
proof (rule ccontr)
  assume "after (vc_prefix c @ name) \<noteq> None"
  then obtain x where "after (vc_prefix c @ name) = Some x" by auto
  from moved_onlyD(2) [OF assms(1) starts_with_append assms(3) this] assms(2) show False by auto
qed

lemma set_nx_same: "k' \<noteq> k \<Longrightarrow> set_nx k v ks k' = ks k'"
  by (simp add: set_nx_def)




text \<open>A scan that fails is not caught: it ends the startup.\<close>

lemma scan_failure_blocks_startup:
  assumes "legacy_mode c = Inr MODE_MIGRATE" "vc_prefix c \<noteq> []" "effective_window_seconds c s = Inr w"
    and "before (vc_key c MIGRATED_NAME) = None" "before (marker_key c) = Some (raw, ttl)" "to_float raw = Some t"
    and "now \<le> t + of_int w" "\<not> snd (scan ''revoked:jti:*'')"
  shows "fst (prepare_legacy_keys c to_float now s (False, True, True) fails scan before) = Inl CommandFailed"
  using assms
  by (auto simp: prepare_legacy_keys_def migrate_once_def migrate_legacy_keys_def LEGACY_KEY_PATTERNS_def
      MODE_MIGRATE_def MODE_OFF_def Let_def split: prod.splits)

end
