(* ===== verification/Cache_Budget.thy ===== *)
theory Cache_Budget
  imports Complex_Main Prelude
begin

text \<open>
  The key budget of a Valkey cache, \<open>src/api/cache_budget.py\<close>.

  A cache is its index (a sorted set of keys by expiry), its costs (a sorted set of the same keys
  by cost) and its values, each with the time at which the server drops it.  A writer sends its
  commands one at a time and others may come between them, so it is a machine whose program
  counter names the command it sends next; \<open>step\<close> sends it.  \<open>run\<close> is a writer that nobody
  interrupts, with the clock standing still.  A value is its bytes and a time a rational.
\<close>

section \<open>Sorted sets with an expiry\<close>

record 'a zset =
  z_members :: "(string, 'a) dict"
  z_until :: "rat option"

definition no_zset :: "'a zset" where
  "no_zset = \<lparr>z_members = [], z_until = None\<rparr>"

text \<open>A key whose time has come is gone, and so is a sorted set without members.\<close>

definition z_live :: "rat \<Rightarrow> 'a zset \<Rightarrow> 'a zset" where
  "z_live now z = (case z_until z of None \<Rightarrow> z | Some u \<Rightarrow> if u \<le> now then no_zset else z)"

definition z_keep :: "(string \<times> 'a \<Rightarrow> bool) \<Rightarrow> 'a zset \<Rightarrow> 'a zset" where
  "z_keep P z =
     (let members = filter P (z_members z)
      in if members = [] then no_zset else z\<lparr>z_members := members\<rparr>)"

definition zrem :: "string list \<Rightarrow> 'a zset \<Rightarrow> 'a zset" where
  "zrem ks z = z_keep (\<lambda>(k, s). k \<notin> set ks) z"

definition zadd :: "string \<Rightarrow> 'a \<Rightarrow> 'a zset \<Rightarrow> 'a zset" where
  "zadd k s z = z\<lparr>z_members := dict_set k s (z_members z)\<rparr>"

definition z_expire :: "rat \<Rightarrow> 'a zset \<Rightarrow> 'a zset" where
  "z_expire t z = (if z_members z = [] then z else z\<lparr>z_until := Some t\<rparr>)"

text \<open>\<open>ZRANGE key 0 0\<close>: the least member by score, then by name.\<close>

definition z_first :: "'a::linorder zset \<Rightarrow> (string \<times> 'a) option" where
  "z_first z =
     (case z_members z of
        [] \<Rightarrow> None
      | m # ms \<Rightarrow> Some (min_by (\<lambda>(k, s). (s, k)) m ms))"

section \<open>The cache and its writers\<close>

record cache =
  c_index :: "rat zset"
  c_costs :: "int zset"
  c_values :: "(string, string \<times> rat) dict"

definition empty_cache :: cache where
  "empty_cache = \<lparr>c_index = no_zset, c_costs = no_zset, c_values = []\<rparr>"

definition tick :: "rat \<Rightarrow> cache \<Rightarrow> cache" where
  "tick now c =
     \<lparr>c_index = z_live now (c_index c), c_costs = z_live now (c_costs c),
      c_values = filter (\<lambda>(k, v, u). now < u) (c_values c)\<rparr>"

definition MAX_KEY_LENGTH :: nat where "MAX_KEY_LENGTH = 256"
definition DEFAULT_MAX_KEYS :: nat where "DEFAULT_MAX_KEYS = 10000"
definition DEFAULT_MAX_VALUE_BYTES :: nat where "DEFAULT_MAX_VALUE_BYTES = 10240"
definition EVICTION_ATTEMPTS :: nat where "EVICTION_ATTEMPTS = 5"

text \<open>What a cache allows, and one call of \<open>store_within_budget\<close>.\<close>

record cache_limits =
  cl_max_keys :: nat
  cl_max_value_bytes :: nat

definition default_limits :: cache_limits where
  "default_limits = \<lparr>cl_max_keys = DEFAULT_MAX_KEYS, cl_max_value_bytes = DEFAULT_MAX_VALUE_BYTES\<rparr>"

record store_call =
  sc_key :: string
  sc_value :: string
  sc_ttl :: int
  sc_cost :: "int option"
  sc_min_cost :: int

definition weight :: "store_call \<Rightarrow> int" where
  "weight q = (case sc_cost q of None \<Rightarrow> 0 | Some x \<Rightarrow> x)"

definition admissible_call :: "cache_limits \<Rightarrow> store_call \<Rightarrow> bool" where
  "admissible_call L q \<longleftrightarrow>
     \<not> (MAX_KEY_LENGTH < length (sc_key q) \<or> cl_max_value_bytes L < length (sc_value q))
     \<and> \<not> (case sc_cost q of None \<Rightarrow> False | Some x \<Rightarrow> x < sc_min_cost q)"

datatype pc =
    Begin
  | DropCosts "string list"
  | DropIndex
  | Score
  | Count
  | Rank nat
  | AnyIndexed
  | AnyCosts
  | ForgetIndex
  | ClaimCost nat string
  | ClaimIndex nat string
  | DropValue string
  | AddIndex
  | AddCost
  | ExpireIndex
  | ExpireCosts
  | SetValue
  | Returned bool
  | Raised

record writer =
  w_call :: store_call
  w_now :: rat
  w_pc :: pc

definition start :: "store_call \<Rightarrow> writer" where
  "start q = \<lparr>w_call = q, w_now = 0, w_pc = Begin\<rparr>"

abbreviation goto :: "pc \<Rightarrow> writer \<Rightarrow> writer" where
  "goto p w \<equiv> w\<lparr>w_pc := p\<rparr>"

text \<open>
  One command at server time \<open>now\<close>.  \<open>Begin\<close> is the checks, the reading of the clock and
  \<open>ZRANGEBYSCORE\<close>; from \<open>Rank\<close> to \<open>DropValue\<close> is \<open>_evict_lightest_below\<close>, with the attempts left.
\<close>

definition step :: "cache_limits \<Rightarrow> rat \<Rightarrow> writer \<Rightarrow> cache \<Rightarrow> writer \<times> cache" where
  "step L now w c0 =
     (let c = tick now c0; q = w_call w; key = sc_key q in
      case w_pc w of
        Begin \<Rightarrow>
          if \<not> admissible_call L q then (goto (Returned False) w, c)
          else let expired = dict_keys (filter (\<lambda>(k, s). s \<le> now) (z_members (c_index c)))
               in (goto (if expired = [] then Score else DropCosts expired) (w\<lparr>w_now := now\<rparr>), c)
      | DropCosts ks \<Rightarrow> (goto DropIndex w, c\<lparr>c_costs := zrem ks (c_costs c)\<rparr>)
      | DropIndex \<Rightarrow> (goto Score w, c\<lparr>c_index := z_keep (\<lambda>(k, s). \<not> s \<le> w_now w) (c_index c)\<rparr>)
      | Score \<Rightarrow> (goto (if dict_mem key (z_members (c_index c)) then AddIndex else Count) w, c)
      | Count \<Rightarrow>
          (goto (if cl_max_keys L \<le> length (z_members (c_index c)) then Rank EVICTION_ATTEMPTS else AddIndex) w, c)
      | Rank n \<Rightarrow>
          (case n of
             0 \<Rightarrow> (goto (Returned False) w, c)
           | Suc m \<Rightarrow>
               (case z_first (c_costs c) of
                  None \<Rightarrow> (goto AnyIndexed w, c)
                | Some (victim, victim_cost) \<Rightarrow>
                    (goto (if weight q \<le> victim_cost then Returned False else ClaimCost m victim) w, c)))
      | AnyIndexed \<Rightarrow> (goto (if z_members (c_index c) = [] then Returned False else AnyCosts) w, c)
      | AnyCosts \<Rightarrow> (goto (if z_members (c_costs c) \<noteq> [] then Returned False else ForgetIndex) w, c)
      | ForgetIndex \<Rightarrow> (goto AddIndex w, c\<lparr>c_index := no_zset\<rparr>)
      | ClaimCost n victim \<Rightarrow>
          (goto (if dict_mem victim (z_members (c_costs c)) then ClaimIndex n victim else Rank n) w,
           c\<lparr>c_costs := zrem [victim] (c_costs c)\<rparr>)
      | ClaimIndex n victim \<Rightarrow>
          (goto (if dict_mem victim (z_members (c_index c)) then DropValue victim else Rank n) w,
           c\<lparr>c_index := zrem [victim] (c_index c)\<rparr>)
      | DropValue victim \<Rightarrow> (goto AddIndex w, c\<lparr>c_values := filter (\<lambda>(k, v). k \<noteq> victim) (c_values c)\<rparr>)
      | AddIndex \<Rightarrow> (goto AddCost w, c\<lparr>c_index := zadd key (w_now w + of_int (sc_ttl q)) (c_index c)\<rparr>)
      | AddCost \<Rightarrow> (goto ExpireIndex w, c\<lparr>c_costs := zadd key (weight q) (c_costs c)\<rparr>)
      | ExpireIndex \<Rightarrow> (goto ExpireCosts w, c\<lparr>c_index := z_expire (now + of_int (sc_ttl q)) (c_index c)\<rparr>)
      | ExpireCosts \<Rightarrow> (goto SetValue w, c\<lparr>c_costs := z_expire (now + of_int (sc_ttl q)) (c_costs c)\<rparr>)
      | SetValue \<Rightarrow>
          (goto (Returned True) w, c\<lparr>c_values := dict_set key (sc_value q, now + of_int (sc_ttl q)) (c_values c)\<rparr>)
      | Returned b \<Rightarrow> (w, c)
      | Raised \<Rightarrow> (w, c))"

text \<open>A command that raises ends its writer, the cache being as it was.\<close>

definition fail :: "writer \<Rightarrow> writer" where
  "fail w = (case w_pc w of Returned b \<Rightarrow> w | p \<Rightarrow> goto Raised w)"

section \<open>A writer alone\<close>

fun stopped :: "pc \<Rightarrow> bool" where
  "stopped (Returned b) \<longleftrightarrow> True"
| "stopped Raised \<longleftrightarrow> True"
| "stopped p \<longleftrightarrow> False"

text \<open>How many commands a writer may still send, whatever the others do.\<close>

fun rank :: "pc \<Rightarrow> nat" where
  "rank Begin = 31"
| "rank (DropCosts ks) = 30"
| "rank DropIndex = 29"
| "rank Score = 28"
| "rank Count = 27"
| "rank (Rank n) = 9 + 3 * n"
| "rank (ClaimCost n v) = 11 + 3 * n"
| "rank (ClaimIndex n v) = 10 + 3 * n"
| "rank AnyIndexed = 8"
| "rank AnyCosts = 7"
| "rank ForgetIndex = 6"
| "rank (DropValue v) = 6"
| "rank AddIndex = 5"
| "rank AddCost = 4"
| "rank ExpireIndex = 3"
| "rank ExpireCosts = 2"
| "rank SetValue = 1"
| "rank (Returned b) = 0"
| "rank Raised = 0"

lemma step_rank: "\<not> stopped (w_pc w) \<Longrightarrow> rank (w_pc (fst (step L now w c))) < rank (w_pc w)"
  by (cases "w_pc w") (auto simp: step_def Let_def EVICTION_ATTEMPTS_def split: option.splits nat.splits)

function run :: "cache_limits \<Rightarrow> rat \<Rightarrow> writer \<times> cache \<Rightarrow> writer \<times> cache" where
  "run L now (w, c) = (if stopped (w_pc w) then (w, c) else run L now (step L now w c))"
  by pat_completeness auto
termination
  by (relation "measure (\<lambda>(L, now, w, c). rank (w_pc w))") (auto intro: step_rank simp: case_prod_beta)

declare run.simps [simp del]

definition store_within_budget :: "cache_limits \<Rightarrow> rat \<Rightarrow> store_call \<Rightarrow> cache \<Rightarrow> bool \<times> cache" where
  "store_within_budget L now q c =
     (case run L now (start q, c) of (w, c') \<Rightarrow> (w_pc w = Returned True, c'))"

section \<open>Writers together\<close>

text \<open>
  A schedule picks, one command at a time, a writer, the server's clock, and whether the command
  raises.
\<close>

type_synonym world = "writer list \<times> cache"

definition pick :: "cache_limits \<Rightarrow> nat \<times> rat \<times> bool \<Rightarrow> world \<Rightarrow> world" where
  "pick L e s =
     (let (i, now, raises) = e; (ws, c) = s in
      if length ws \<le> i then s
      else if raises then (ws[i := fail (ws ! i)], c)
      else let (w, c') = step L now (ws ! i) c in (ws[i := w], c'))"

definition schedule :: "cache_limits \<Rightarrow> (nat \<times> rat \<times> bool) list \<Rightarrow> world \<Rightarrow> world" where
  "schedule L es s = foldl (\<lambda>s e. pick L e s) s es"

end
