(* ===== verification/Cache_Budget_Properties.thy ===== *)
theory Cache_Budget_Properties
  imports Cache_Budget
begin

text \<open>
  Properties of the key budget.  Alone, the three structures implement one bounded map that
  prefers costly entries, so a cache is bounded in keys and in bytes; together, every writer
  finishes, an entry gives way only to a costlier one, and the bound can be overrun.
\<close>

section \<open>The abstract map\<close>

text \<open>What a cache holds: for a key its value, the time it is dropped, and its cost.\<close>

type_synonym bounded_map = "string \<Rightarrow> (string \<times> rat \<times> int) option"

definition alive :: "rat \<Rightarrow> bounded_map \<Rightarrow> bounded_map" where
  "alive now A = (\<lambda>k. case A k of None \<Rightarrow> None | Some (v, u, x) \<Rightarrow> if now < u then A k else None)"

text \<open>
  One store in it: refused because it is too large or too cheap; written because its key is held
  or there is room; written in place of the cheapest entry, which is strictly cheaper; or refused
  because every entry costs as much.
\<close>

inductive bounded_store :: "cache_limits \<Rightarrow> rat \<Rightarrow> store_call \<Rightarrow> bounded_map \<Rightarrow> bool \<Rightarrow> bounded_map \<Rightarrow> bool"
  for L now q A where
  inadmissible: "\<not> admissible_call L q \<Longrightarrow> bounded_store L now q A False (alive now A)"
| written: "admissible_call L q \<Longrightarrow> A1 = alive now A \<Longrightarrow> sc_key q \<in> dom A1 \<or> card (dom A1) < cl_max_keys L \<Longrightarrow>
    bounded_store L now q A True (A1(sc_key q \<mapsto> (sc_value q, now + of_int (sc_ttl q), weight q)))"
| displaced: "admissible_call L q \<Longrightarrow> A1 = alive now A \<Longrightarrow> sc_key q \<notin> dom A1 \<Longrightarrow> cl_max_keys L \<le> card (dom A1) \<Longrightarrow>
    A1 victim = Some (v, u, x) \<Longrightarrow> x < weight q \<Longrightarrow> (\<forall>k v' u' x'. A1 k = Some (v', u', x') \<longrightarrow> x \<le> x') \<Longrightarrow>
    bounded_store L now q A True ((A1(victim := None))(sc_key q \<mapsto> (sc_value q, now + of_int (sc_ttl q), weight q)))"
| refused: "admissible_call L q \<Longrightarrow> A1 = alive now A \<Longrightarrow> sc_key q \<notin> dom A1 \<Longrightarrow> cl_max_keys L \<le> card (dom A1) \<Longrightarrow>
    (\<forall>k v' u' x'. A1 k = Some (v', u', x') \<longrightarrow> weight q \<le> x') \<Longrightarrow>
    bounded_store L now q A False A1"

definition in_budget :: "cache_limits \<Rightarrow> bounded_map \<Rightarrow> bool" where
  "in_budget L A \<longleftrightarrow> finite (dom A) \<and> card (dom A) \<le> cl_max_keys L
     \<and> (\<forall>k v u x. A k = Some (v, u, x) \<longrightarrow> length k \<le> MAX_KEY_LENGTH \<and> length v \<le> cl_max_value_bytes L)"

lemma dom_alive: "dom (alive now A) \<subseteq> dom A"
  by (auto simp: alive_def split: option.splits)

lemma alive_SomeD: "alive now A k = Some z \<Longrightarrow> A k = Some z"
  by (auto simp: alive_def split: option.splits if_splits)

lemma in_budget_alive:
  assumes "in_budget L A"
  shows "in_budget L (alive now A)"
proof -
  have "card (dom (alive now A)) \<le> card (dom A)"
    using assms dom_alive [of now A] by (auto simp: in_budget_def intro: card_mono)
  moreover have "length k \<le> MAX_KEY_LENGTH \<and> length v \<le> cl_max_value_bytes L"
    if "alive now A k = Some (v, u, x)" for k v u x
    using assms alive_SomeD [OF that] by (auto simp: in_budget_def)
  ultimately show ?thesis
    using assms dom_alive [of now A] by (auto simp: in_budget_def intro: finite_subset)
qed

lemma bounded_store_in_budget:
  assumes "bounded_store L now q A b A'" "in_budget L A"
  shows "in_budget L A'"
  using assms(1)
proof cases
  case inadmissible
  then show ?thesis using assms(2) by (simp add: in_budget_alive)
next
  case (written A1)
  have "in_budget L A1" using written assms(2) by (simp add: in_budget_alive)
  then show ?thesis using written
    by (auto simp: in_budget_def admissible_call_def insert_absorb card_insert_if)
next
  case (displaced A1 victim v u x)
  have w: "in_budget L A1" using displaced assms(2) by (simp add: in_budget_alive)
  then have fin: "finite (dom A1)" by (simp add: in_budget_def)
  have "victim \<in> dom A1" "sc_key q \<noteq> victim" using displaced by auto
  then have "card (insert (sc_key q) (dom A1 - {victim})) = card (dom A1)"
    using fin displaced card_gt_0_iff [of "dom A1"] by (subst card_insert_disjoint) auto
  then have "card (dom A') \<le> cl_max_keys L"
    using displaced w by (simp add: in_budget_def)
  then show ?thesis using displaced w
    by (auto simp: in_budget_def admissible_call_def)
next
  case refused
  then show ?thesis using assms(2) by (simp add: in_budget_alive)
qed


section \<open>A writer alone implements the map\<close>

lemma z_keep_sel [simp]:
  "z_members (z_keep P z) = filter P (z_members z)"
  "z_until (z_keep P z) = (if filter P (z_members z) = [] then None else z_until z)"
  by (auto simp: z_keep_def no_zset_def Let_def)

lemma no_zset_sel [simp]: "z_members no_zset = []" "z_until no_zset = None"
  by (simp_all add: no_zset_def)

lemma map_of_filter_key:
  "dict_wf d \<Longrightarrow> map_of (filter (\<lambda>(k, s). P k s) d) k
     = (case map_of d k of None \<Rightarrow> None | Some s \<Rightarrow> if P k s then Some s else None)"
  by (induction d) (auto simp: map_of_eq_None_iff image_iff split: option.splits)

lemma dict_wf_filter: "dict_wf d \<Longrightarrow> dict_wf (filter P d)"
  by (induction d) auto

lemma map_of_zrem:
  "map_of (z_members (zrem ks z)) k = (if k \<in> set ks then None else map_of (z_members z) k)"
proof -
  have "map_of (filter (\<lambda>(k, s). k \<notin> set ks) d) k = (if k \<in> set ks then None else map_of d k)" for d :: "(string \<times> 'a) list"
    by (induction d) auto
  then show ?thesis by (simp add: zrem_def)
qed

lemma map_of_empty_iff: "map_of d = Map.empty \<longleftrightarrow> d = []"
  by (cases d) auto

text \<open>The three structures as maps.\<close>

abbreviation idx :: "cache \<Rightarrow> string \<Rightarrow> rat option" where "idx c \<equiv> map_of (z_members (c_index c))"
abbreviation cst :: "cache \<Rightarrow> string \<Rightarrow> int option" where "cst c \<equiv> map_of (z_members (c_costs c))"
abbreviation val :: "cache \<Rightarrow> string \<Rightarrow> (string \<times> rat) option" where "val c \<equiv> map_of (c_values c)"

text \<open>
  Nothing is overdue at \<open>now\<close>: the three structures have the same keys, a value is indexed under
  its own time, and the two sorted sets have one expiry, which no entry outlives.
\<close>

definition settled :: "rat \<Rightarrow> cache \<Rightarrow> bool" where
  "settled now c \<longleftrightarrow>
     dict_wf (z_members (c_index c)) \<and> dict_wf (z_members (c_costs c)) \<and> dict_wf (c_values c)
     \<and> dom (idx c) = dom (cst c) \<and> idx c = map_option snd \<circ> val c
     \<and> (\<forall>k u. idx c k = Some u \<longrightarrow> now < u)
     \<and> z_until (c_index c) = z_until (c_costs c)
     \<and> (if z_members (c_index c) = [] then z_until (c_index c) = None
        else \<exists>U. z_until (c_index c) = Some U \<and> (\<forall>k u. idx c k = Some u \<longrightarrow> u \<le> U))"

text \<open>Between calls a cache is a settled one on which time has passed.\<close>

definition cache_inv :: "rat \<Rightarrow> cache \<Rightarrow> bool" where
  "cache_inv t c \<longleftrightarrow> (\<exists>t0 c0. t0 \<le> t \<and> settled t0 c0 \<and> c = tick t c0)"

definition held :: "cache \<Rightarrow> bounded_map" where
  "held c = (\<lambda>k.
     case (val c k, cst c k) of
       (Some (v, u), Some x) \<Rightarrow> Some (v, u, x)
     | _ \<Rightarrow> None)"

lemma settledD:
  assumes "settled now c"
  shows "dict_wf (z_members (c_index c))" "dict_wf (z_members (c_costs c))" "dict_wf (c_values c)"
    and "dom (idx c) = dom (cst c)" "idx c k = map_option snd (val c k)"
    and "idx c k = Some u \<Longrightarrow> now < u" "z_until (c_costs c) = z_until (c_index c)"
    and "z_members (c_index c) = [] \<Longrightarrow> z_until (c_index c) = None"
  using assms by (auto simp: settled_def fun_eq_iff)

lemma settled_until:
  assumes "settled now c" "idx c k = Some u"
  obtains U where "z_until (c_index c) = Some U" "u \<le> U"
proof -
  have "z_members (c_index c) \<noteq> []" using assms(2) by auto
  moreover have "if z_members (c_index c) = [] then z_until (c_index c) = None
        else \<exists>U. z_until (c_index c) = Some U \<and> (\<forall>k u. idx c k = Some u \<longrightarrow> u \<le> U)"
    using assms(1) unfolding settled_def by blast
  ultimately have "\<exists>U. z_until (c_index c) = Some U \<and> (\<forall>k u. idx c k = Some u \<longrightarrow> u \<le> U)"
    by presburger
  with assms(2) that show thesis by blast
qed

definition purged :: "rat \<Rightarrow> cache \<Rightarrow> cache" where
  "purged now c =
     (let c1 = tick now c;
          expired = dict_keys (filter (\<lambda>(k, s). s \<le> now) (z_members (c_index c1)))
      in if expired = [] then c1
         else c1\<lparr>c_costs := zrem expired (c_costs c1), c_index := z_keep (\<lambda>(k, s). \<not> s \<le> now) (c_index c1)\<rparr>)"

lemma purged_values: "c_values (purged now c) = c_values (tick now c)"
  by (simp add: purged_def Let_def)

lemma tick_tick: "t \<le> now \<Longrightarrow> tick now (tick t c) = tick now c"
  by (auto simp: tick_def z_live_def no_zset_def split: option.splits intro!: filter_cong)

lemma purged_tick: "t \<le> now \<Longrightarrow> purged now (tick t c) = purged now c"
  by (simp add: purged_def tick_tick)


lemma live_cases:
  assumes "settled t c"
  obtains (gone) U where "z_until (c_index c) = Some U" "U \<le> now"
  | (kept) "z_live now (c_index c) = c_index c" "z_live now (c_costs c) = c_costs c"
proof (cases "\<exists>U. z_until (c_index c) = Some U \<and> U \<le> now")
  case False
  then have "z_live now (c_index c) = c_index c" "z_live now (c_costs c) = c_costs c"
    using settledD(7) [OF assms] by (auto simp: z_live_def split: option.splits)
  then show ?thesis by (rule kept)
qed (use gone in blast)

text \<open>The purge leaves what is alive, settled.\<close>

lemma held_settled:
  assumes "settled now c"
  shows "held c k = (case val c k of None \<Rightarrow> None | Some (v, u) \<Rightarrow> map_option (\<lambda>x. (v, u, x)) (cst c k))"
    and "dom (held c) = dom (idx c)"
proof -
  show "held c k = (case val c k of None \<Rightarrow> None | Some (v, u) \<Rightarrow> map_option (\<lambda>x. (v, u, x)) (cst c k))"
    by (auto simp: held_def split: option.splits)
  have "held c k = None \<longleftrightarrow> idx c k = None" for k
  proof -
    have "idx c k = None \<longleftrightarrow> cst c k = None" using settledD(4) [OF assms] by (metis domIff)
    then show ?thesis using settledD(5) [OF assms, of k] by (auto simp: held_def split: option.splits)
  qed
  then show "dom (held c) = dom (idx c)" by (auto simp: dom_def)
qed

lemma purged_views:
  assumes "settled t c" "t \<le> now"
  shows "val (purged now c) k = (case val c k of None \<Rightarrow> None | Some (v, u) \<Rightarrow> if now < u then Some (v, u) else None)"
    and "idx (purged now c) k = (case idx c k of None \<Rightarrow> None | Some u \<Rightarrow> if now < u then Some u else None)"
    and "cst (purged now c) k = (case idx c k of None \<Rightarrow> None | Some u \<Rightarrow> if now < u then cst c k else None)"
proof -
  note d = settledD [OF assms(1)]
  have v: "val (tick now c) k = (case val c k of None \<Rightarrow> None | Some (v, u) \<Rightarrow> if now < u then Some (v, u) else None)"
    using map_of_filter_key [OF d(3), of "\<lambda>k (v, u). now < u" k]
    by (auto simp: tick_def case_prod_unfold split: option.splits)
  then show "val (purged now c) k = (case val c k of None \<Rightarrow> None | Some (v, u) \<Rightarrow> if now < u then Some (v, u) else None)"
    by (simp add: purged_def Let_def)
  have none: "cst c k = None" if "idx c k = None" for k
    using that d(4) by (metis domIff)
  show "idx (purged now c) k = (case idx c k of None \<Rightarrow> None | Some u \<Rightarrow> if now < u then Some u else None)"
   and "cst (purged now c) k = (case idx c k of None \<Rightarrow> None | Some u \<Rightarrow> if now < u then cst c k else None)"
  proof -
    from assms(1) have "idx (purged now c) k = (case idx c k of None \<Rightarrow> None | Some u \<Rightarrow> if now < u then Some u else None)
      \<and> cst (purged now c) k = (case idx c k of None \<Rightarrow> None | Some u \<Rightarrow> if now < u then cst c k else None)"
    proof (cases rule: live_cases [where now = now])
      case (gone U)
      have "\<not> now < u" if "idx c k = Some u" for u
        using settled_until [OF assms(1) that] gone by (metis leD le_less_trans option.inject order_trans)
      moreover have "purged now c = tick now c" "idx (tick now c) = Map.empty" "cst (tick now c) = Map.empty"
        using gone d(7) by (simp_all add: purged_def tick_def z_live_def)
      ultimately show ?thesis using none by (auto split: option.splits)
    next
      case kept
      let ?ex = "dict_keys (filter (\<lambda>(k, s). s \<le> now) (z_members (c_index c)))"
      have mem: "k \<in> set ?ex \<longleftrightarrow> (\<exists>u. idx c k = Some u \<and> \<not> now < u)" for k
        using d(1) by (force simp: image_iff)
      have keep: "map_of (filter (\<lambda>(k, s). \<not> s \<le> now) (z_members (c_index c))) k
          = (case idx c k of None \<Rightarrow> None | Some u \<Rightarrow> if now < u then Some u else None)"
        using map_of_filter_key [OF d(1), of "\<lambda>k s. \<not> s \<le> now" k] by (simp add: not_le split: option.splits)
      show ?thesis
      proof (cases "?ex = []")
        case True
        then have "\<not> (\<exists>u. idx c k = Some u \<and> \<not> now < u)" using mem [of k] by simp
        then show ?thesis using True kept none by (auto simp: purged_def tick_def Let_def split: option.splits)
      next
        case False
        then have p: "purged now c = (tick now c)\<lparr>c_costs := zrem ?ex (c_costs c), c_index := z_keep (\<lambda>(k, s). \<not> s \<le> now) (c_index c)\<rparr>"
          using kept by (simp add: purged_def tick_def Let_def)
        show ?thesis unfolding p using keep mem [of k] none [of k]
          by (auto simp: map_of_zrem split: option.splits)
      qed
    qed
    then show "idx (purged now c) k = (case idx c k of None \<Rightarrow> None | Some u \<Rightarrow> if now < u then Some u else None)"
      "cst (purged now c) k = (case idx c k of None \<Rightarrow> None | Some u \<Rightarrow> if now < u then cst c k else None)" by simp_all
  qed
qed


lemma filter_keys_empty: "filter (\<lambda>(k, s). k \<notin> S) d = [] \<longleftrightarrow> set (dict_keys d) \<subseteq> S"
  by (induction d) auto

lemma expired_all:
  fixes d :: "(string, rat) dict"
  assumes "dict_wf d"
  shows "set (dict_keys d) \<subseteq> set (dict_keys (filter (\<lambda>(k, s). s \<le> now) d))
    \<longleftrightarrow> filter (\<lambda>(k, s). \<not> s \<le> now) d = []"
proof
  assume sub: "set (dict_keys d) \<subseteq> set (dict_keys (filter (\<lambda>(k, s). s \<le> now) d))"
  have "s \<le> now" if "(k, s) \<in> set d" for k s
  proof -
    have "k \<in> set (dict_keys (filter (\<lambda>(k, s). s \<le> now) d))" using that sub by force
    then obtain s' where "(k, s') \<in> set d" "s' \<le> now" by auto
    then show ?thesis using that eq_key_imp_eq_value [OF assms] by metis
  qed
  then show "filter (\<lambda>(k, s). \<not> s \<le> now) d = []" by (auto simp: filter_empty_conv)
next
  assume "filter (\<lambda>(k, s). \<not> s \<le> now) d = []"
  then show "set (dict_keys d) \<subseteq> set (dict_keys (filter (\<lambda>(k, s). s \<le> now) d))"
    by (force simp: filter_empty_conv)
qed

lemma purged_sel:
  assumes "settled t c" "t \<le> now"
  shows "dict_wf (z_members (c_index (purged now c)))" "dict_wf (z_members (c_costs (purged now c)))"
    and "dict_wf (c_values (purged now c))"
    and "z_until (c_costs (purged now c)) = z_until (c_index (purged now c))"
    and "z_until (c_index (purged now c))
      = (if z_members (c_index (purged now c)) = [] then None else z_until (c_index c))"
proof -
  note d = settledD [OF assms(1)]
  show "dict_wf (c_values (purged now c))"
    using d(3) by (simp add: purged_def tick_def Let_def dict_wf_filter)
  have keys: "set (dict_keys (z_members (c_index c))) = set (dict_keys (z_members (c_costs c)))"
    using d(4) by (simp add: dom_map_of_conv_image_fst)
  from assms(1) have "dict_wf (z_members (c_index (purged now c))) \<and> dict_wf (z_members (c_costs (purged now c)))
    \<and> z_until (c_costs (purged now c)) = z_until (c_index (purged now c))
    \<and> z_until (c_index (purged now c)) = (if z_members (c_index (purged now c)) = [] then None else z_until (c_index c))"
  proof (cases rule: live_cases [where now = now])
    case (gone U)
    then show ?thesis using d(7) by (simp add: purged_def tick_def z_live_def)
  next
    case kept
    let ?ex = "dict_keys (filter (\<lambda>(k, s). s \<le> now) (z_members (c_index c)))"
    have "filter (\<lambda>(k, s). k \<notin> set ?ex) (z_members (c_costs c)) = [] \<longleftrightarrow>
        filter (\<lambda>(k, s). \<not> s \<le> now) (z_members (c_index c)) = []"
    proof -
      have "filter (\<lambda>(k, s). k \<notin> set ?ex) (z_members (c_costs c)) = [] \<longleftrightarrow>
          set (dict_keys (z_members (c_costs c))) \<subseteq> set ?ex"
        by (rule filter_keys_empty)
      also have "\<dots> \<longleftrightarrow> filter (\<lambda>(k, s). \<not> s \<le> now) (z_members (c_index c)) = []"
        unfolding keys [symmetric] using expired_all [OF d(1)] by (simp only:)
      finally show ?thesis .
    qed
    then show ?thesis using kept d
      by (auto simp: purged_def tick_def Let_def zrem_def intro: dict_wf_filter)
  qed
  then show "dict_wf (z_members (c_index (purged now c)))" "dict_wf (z_members (c_costs (purged now c)))"
    "z_until (c_costs (purged now c)) = z_until (c_index (purged now c))"
    "z_until (c_index (purged now c)) = (if z_members (c_index (purged now c)) = [] then None else z_until (c_index c))"
    by blast+
qed

lemma purged_settled:
  assumes "settled t c" "t \<le> now"
  shows "settled now (purged now c)" "held (purged now c) = alive now (held c)"
proof -
  note v = purged_views [OF assms] and d = settledD [OF assms(1)] and sel = purged_sel [OF assms]
  have none: "cst c k = None \<longleftrightarrow> idx c k = None" for k using d(4) by (metis domIff)
  have "\<exists>U. z_until (c_index (purged now c)) = Some U \<and> (\<forall>k u. idx (purged now c) k = Some u \<longrightarrow> u \<le> U)"
    if ne: "z_members (c_index (purged now c)) \<noteq> []"
  proof -
    from ne obtain k u where k: "idx (purged now c) k = Some u" by (metis map_of_empty_iff not_None_eq ext)
    then have "idx c k = Some u" using v(2) [of k] by (auto split: option.splits if_splits)
    then obtain U where U: "z_until (c_index c) = Some U" using settled_until [OF assms(1)] by blast
    have "u \<le> U" if "idx (purged now c) k = Some u" for k u
    proof -
      from that have "idx c k = Some u" using v(2) [of k] by (auto split: option.splits if_splits)
      then show ?thesis using settled_until [OF assms(1)] U by (metis option.inject)
    qed
    then show ?thesis using U ne sel(5) by simp
  qed
  moreover have "dom (idx (purged now c)) = dom (cst (purged now c))"
    using none by (auto simp: dom_def v(2,3) split: option.splits if_splits)
  moreover have "idx (purged now c) k = (map_option snd \<circ> val (purged now c)) k" for k
    using d(5) [of k] by (auto simp: v(1,2) split: option.splits)
  moreover have "now < u" if "idx (purged now c) k = Some u" for k u
    using that by (auto simp: v(2) split: option.splits if_splits)
  ultimately show "settled now (purged now c)"
    using sel unfolding settled_def fun_eq_iff by simp
  show "held (purged now c) = alive now (held c)"
  proof
    fix k
    show "held (purged now c) k = alive now (held c) k"
      using d(5) [of k] none [of k] by (auto simp: held_def alive_def v split: option.splits)
  qed
qed


text \<open>At one moment nothing more expires.\<close>

lemma tick_iff:
  "tick now c = c \<longleftrightarrow>
     (\<forall>U. z_until (c_index c) = Some U \<longrightarrow> now < U) \<and> (\<forall>U. z_until (c_costs c) = Some U \<longrightarrow> now < U)
     \<and> (\<forall>(k, v, u) \<in> set (c_values c). now < u)"
proof -
  have live: "z_live now z = z \<longleftrightarrow> (\<forall>U. z_until z = Some U \<longrightarrow> now < U)" for z :: "'a zset"
    by (auto simp: z_live_def no_zset_def split: option.splits)
  have vals: "filter (\<lambda>(k, v, u). now < u) d = d \<longleftrightarrow> (\<forall>(k, v, u) \<in> set d. now < u)" for d :: "(string, string \<times> rat) dict"
    by (auto simp: filter_id_conv)
  have "tick now c = c \<longleftrightarrow> z_live now (c_index c) = c_index c \<and> z_live now (c_costs c) = c_costs c
      \<and> filter (\<lambda>(k, v, u). now < u) (c_values c) = c_values c"
    by (cases c) (auto simp: tick_def)
  then show ?thesis by (simp add: live vals)
qed

lemma run_step:
  assumes "\<not> stopped (w_pc w)" "step L now w c = z"
  shows "run L now (w, c) = run L now z"
  using assms by (simp add: run.simps)

lemma run_stopped: "stopped (w_pc w) \<Longrightarrow> run L now (w, c) = (w, c)"
  by (simp add: run.simps)

definition added :: "rat \<Rightarrow> store_call \<Rightarrow> cache \<Rightarrow> cache" where
  "added now q c =
     (let u = now + of_int (sc_ttl q) in
      \<lparr>c_index = (zadd (sc_key q) u (c_index c))\<lparr>z_until := Some u\<rparr>,
       c_costs = (zadd (sc_key q) (weight q) (c_costs c))\<lparr>z_until := Some u\<rparr>,
       c_values = dict_set (sc_key q) (sc_value q, u) (c_values c)\<rparr>)"

lemma dict_set_nonempty [simp]: "dict_set k v d \<noteq> []"
  by (cases d) (auto split: if_splits)

lemma run_add:
  assumes "tick now c = c" "w_pc w = AddIndex" "w_call w = q" "w_now w = now" "0 < sc_ttl q"
  shows "run L now (w, c) = (goto (Returned True) w, added now q c)"
proof -
  let ?u = "now + of_int (sc_ttl q)"
  have u: "now < ?u" using assms(5) by simp
  let ?c1 = "c\<lparr>c_index := zadd (sc_key q) ?u (c_index c)\<rparr>"
  let ?c2 = "?c1\<lparr>c_costs := zadd (sc_key q) (weight q) (c_costs c)\<rparr>"
  let ?c3 = "?c2\<lparr>c_index := z_expire ?u (c_index ?c2)\<rparr>"
  let ?c4 = "?c3\<lparr>c_costs := z_expire ?u (c_costs ?c3)\<rparr>"
  have t: "tick now ?c1 = ?c1" "tick now ?c2 = ?c2" "tick now ?c3 = ?c3" "tick now ?c4 = ?c4"
    using assms(1) u unfolding tick_iff by (simp_all add: zadd_def z_expire_def)
  have "run L now (w, c) = run L now (goto AddCost w, ?c1)"
    by (rule run_step) (simp_all add: assms step_def Let_def)
  also have "\<dots> = run L now (goto ExpireIndex w, ?c2)"
    by (rule run_step) (use t(1) in \<open>simp_all add: assms step_def Let_def\<close>)
  also have "\<dots> = run L now (goto ExpireCosts w, ?c3)"
    by (rule run_step) (use t(2) in \<open>simp_all add: assms step_def Let_def\<close>)
  also have "\<dots> = run L now (goto SetValue w, ?c4)"
    by (rule run_step) (use t(3) in \<open>simp_all add: assms step_def Let_def\<close>)
  also have "\<dots> = run L now (goto (Returned True) w, added now q c)"
    by (rule run_step)
      (use t(4) in \<open>simp_all add: assms step_def Let_def added_def z_expire_def zadd_def\<close>)
  also have "\<dots> = (goto (Returned True) w, added now q c)" by (simp add: run_stopped)
  finally show ?thesis .
qed

lemma run_begin:
  assumes "admissible_call L q"
  shows "run L now (start q, c) = run L now (\<lparr>w_call = q, w_now = now, w_pc = Score\<rparr>, purged now c)"
proof -
  have tt: "tick now (tick now c) = tick now c" by (simp add: tick_tick)
  let ?c1 = "tick now c"
  let ?ex = "dict_keys (filter (\<lambda>(k, s). s \<le> now) (z_members (c_index ?c1)))"
  show ?thesis
  proof (cases "?ex = []")
    case True
    show ?thesis
      by (rule run_step) (use True assms in \<open>simp_all add: start_def step_def purged_def Let_def\<close>)
  next
    case False
    let ?c2 = "?c1\<lparr>c_costs := zrem ?ex (c_costs ?c1)\<rparr>"
    have t2: "tick now ?c2 = ?c2" using tt unfolding tick_iff by (simp add: zrem_def)
    have "run L now (start q, c) = run L now (\<lparr>w_call = q, w_now = now, w_pc = DropCosts ?ex\<rparr>, ?c1)"
      by (rule run_step) (use False assms in \<open>simp_all add: start_def step_def Let_def\<close>)
    also have "\<dots> = run L now (\<lparr>w_call = q, w_now = now, w_pc = DropIndex\<rparr>, ?c2)"
      by (rule run_step) (use tt in \<open>simp_all add: step_def Let_def\<close>)
    also have "\<dots> = run L now (\<lparr>w_call = q, w_now = now, w_pc = Score\<rparr>, purged now c)"
      by (rule run_step) (use t2 False in \<open>simp_all add: step_def purged_def Let_def\<close>)
    finally show ?thesis .
  qed
qed


definition evicted :: "string \<Rightarrow> cache \<Rightarrow> cache" where
  "evicted v c =
     c\<lparr>c_costs := zrem [v] (c_costs c), c_index := zrem [v] (c_index c),
       c_values := filter (\<lambda>(k, x). k \<noteq> v) (c_values c)\<rparr>"

lemma settled_tick:
  assumes "settled now c"
  shows "tick now c = c"
proof -
  note d = settledD [OF assms]
  have "now < U" if "z_until (c_index c) = Some U" for U
  proof -
    have "z_members (c_index c) \<noteq> []" using that d(8) by auto
    then obtain k u where "idx c k = Some u" by (metis map_of_empty_iff not_None_eq ext)
    then show ?thesis using settled_until [OF assms] d(6) that by (metis less_le_trans option.inject)
  qed
  moreover have "now < u" if "(k, v, u) \<in> set (c_values c)" for k v u
  proof -
    have "val c k = Some (v, u)" using that d(3) by simp
    then show ?thesis using d(5) [of k] d(6) by simp
  qed
  ultimately show ?thesis unfolding tick_iff using d(7) by auto
qed

lemma evicted_tick: "tick now c = c \<Longrightarrow> tick now (evicted v c) = evicted v c"
  unfolding tick_iff by (auto simp: evicted_def zrem_def)

lemma z_first_SomeD:
  assumes "z_first z = Some (v, x)"
  shows "(v, x) \<in> set (z_members z)" "(k, y) \<in> set (z_members z) \<Longrightarrow> x \<le> y"
proof -
  obtain m ms where z: "z_members z = m # ms" and v: "(v, x) = min_by (\<lambda>(k, s). (s, k)) m ms"
    using assms by (auto simp: z_first_def split: list.splits)
  show "(v, x) \<in> set (z_members z)" using min_by_mem [of "\<lambda>(k, s). (s, k)" m ms] by (simp add: z v)
  show "x \<le> y" if "(k, y) \<in> set (z_members z)"
    using min_by_le [of "(k, y)" m ms "\<lambda>(k, s). (s, k)"] that
    by (simp add: z flip: v) (auto simp: less_eq_prod_def)
qed

lemma z_first_None: "z_first z = None \<longleftrightarrow> z_members z = []"
  by (auto simp: z_first_def split: list.splits)

text \<open>From \<open>Score\<close> on, a writer alone does one of four things.\<close>

lemma run_score:
  assumes set: "settled now c" and w: "w = \<lparr>w_call = q, w_now = now, w_pc = Score\<rparr>" and ttl: "0 < sc_ttl q"
  shows "run L now (w, c) =
    (if dict_mem (sc_key q) (z_members (c_index c)) \<or> length (z_members (c_index c)) < cl_max_keys L
     then (goto (Returned True) w, added now q c)
     else case z_first (c_costs c) of
       None \<Rightarrow> (goto (Returned False) w, c)
     | Some (v, x) \<Rightarrow>
         if weight q \<le> x then (goto (Returned False) w, c)
         else (goto (Returned True) w, added now q (evicted v c)))"
proof -
  note t = settled_tick [OF set] and d = settledD [OF set]
  have add: "run L now (goto AddIndex w, c') = (goto (Returned True) w, added now q c')" if "tick now c' = c'" for c'
    using run_add [of now c' "goto AddIndex w" q L] that w ttl by simp
  have stop: "run L now (goto (Returned b) w, c') = (goto (Returned b) w, c')" for b c'
    by (simp add: run_stopped)
  show ?thesis
  proof (cases "dict_mem (sc_key q) (z_members (c_index c))")
    case True
    have "run L now (w, c) = run L now (goto AddIndex w, c)"
      by (rule run_step) (use True t in \<open>simp_all add: w step_def Let_def\<close>)
    then show ?thesis using True add [OF t] by simp
  next
    case new: False
    have 1: "run L now (w, c) = run L now (goto Count w, c)"
      by (rule run_step) (use new t in \<open>simp_all add: w step_def Let_def\<close>)
    show ?thesis
    proof (cases "length (z_members (c_index c)) < cl_max_keys L")
      case True
      have "run L now (goto Count w, c) = run L now (goto AddIndex w, c)"
        by (rule run_step) (use True t in \<open>simp_all add: w step_def Let_def\<close>)
      then show ?thesis using True 1 add [OF t] by simp
    next
      case full: False
      have 2: "run L now (goto Count w, c) = run L now (goto (Rank (Suc 4)) w, c)"
        by (rule run_step) (use full t in \<open>simp_all add: w step_def Let_def EVICTION_ATTEMPTS_def\<close>)
      show ?thesis
      proof (cases "z_first (c_costs c)")
        case None
        then have "z_members (c_index c) = []" using d(4) by (simp add: z_first_None map_of_empty_iff)
        have "run L now (goto (Rank (Suc 4)) w, c) = run L now (goto AnyIndexed w, c)"
          by (rule run_step) (use None t in \<open>simp_all add: w step_def Let_def\<close>)
        also have "\<dots> = run L now (goto (Returned False) w, c)"
          by (rule run_step) (use \<open>z_members (c_index c) = []\<close> t in \<open>simp_all add: w step_def Let_def\<close>)
        finally show ?thesis using new full None 1 2 stop by simp
      next
        case (Some vx)
        obtain v x where vx: "z_first (c_costs c) = Some (v, x)" using Some by (cases vx) simp
        show ?thesis
        proof (cases "weight q \<le> x")
          case True
          have "run L now (goto (Rank (Suc 4)) w, c) = run L now (goto (Returned False) w, c)"
            by (rule run_step) (use vx True t in \<open>simp_all add: w step_def Let_def\<close>)
          then show ?thesis using new full vx True 1 2 stop by simp
        next
          case heavier: False
          have vc: "dict_mem v (z_members (c_costs c))"
            using z_first_SomeD(1) [OF vx] by (force simp: dict_mem_keys)
          then have vi: "dict_mem v (z_members (c_index c))" using d(4) by (auto simp: dict_mem_def dom_def set_eq_iff)
          let ?c1 = "c\<lparr>c_costs := zrem [v] (c_costs c)\<rparr>"
          let ?c2 = "?c1\<lparr>c_index := zrem [v] (c_index c)\<rparr>"
          have t12: "tick now ?c1 = ?c1" "tick now ?c2 = ?c2" using t unfolding tick_iff by (auto simp: zrem_def)
          have "run L now (goto (Rank (Suc 4)) w, c) = run L now (goto (ClaimCost 4 v) w, c)"
            by (rule run_step) (use vx heavier t in \<open>simp_all add: w step_def Let_def\<close>)
          also have "\<dots> = run L now (goto (ClaimIndex 4 v) w, ?c1)"
            by (rule run_step) (use vc t in \<open>simp_all add: w step_def Let_def\<close>)
          also have "\<dots> = run L now (goto (DropValue v) w, ?c2)"
            by (rule run_step) (use vi t12 in \<open>simp_all add: w step_def Let_def\<close>)
          also have "\<dots> = run L now (goto AddIndex w, evicted v c)"
            by (rule run_step) (use t12 in \<open>simp_all add: w step_def Let_def evicted_def case_prod_unfold\<close>)
          finally show ?thesis using new full vx heavier 1 2 add [OF evicted_tick [OF t]] by simp
        qed
      qed
    qed
  qed
qed


lemma settledI:
  assumes "dict_wf (z_members (c_index c))" "dict_wf (z_members (c_costs c))" "dict_wf (c_values c)"
    and "dom (idx c) = dom (cst c)" "idx c = map_option snd \<circ> val c"
    and "\<And>k u. idx c k = Some u \<Longrightarrow> now < u" "z_until (c_index c) = z_until (c_costs c)"
    and "z_members (c_index c) = [] \<Longrightarrow> z_until (c_index c) = None"
    and "z_members (c_index c) \<noteq> [] \<Longrightarrow> \<exists>U. z_until (c_index c) = Some U \<and> (\<forall>k u. idx c k = Some u \<longrightarrow> u \<le> U)"
  shows "settled now c"
  unfolding settled_def
  by (intro conjI allI impI; (rule assms(1-5,7) | erule assms(6))?)
    (use assms(8,9) in \<open>cases "z_members (c_index c) = []"; simp only: if_True if_False simp_thms\<close>)

lemma alive_settled:
  assumes "settled now c"
  shows "alive now (held c) = held c"
proof
  fix k
  show "alive now (held c) k = held c k"
  proof (cases "val c k")
    case None
    then show ?thesis by (simp add: alive_def held_def)
  next
    case (Some vu)
    obtain v u where vu: "val c k = Some (v, u)" using Some by (cases vu) simp
    then have "now < u" using settledD(5,6) [OF assms, of k] by simp
    then show ?thesis unfolding alive_def held_def vu by (simp split: option.splits)
  qed
qed

text \<open>The two writes keep the cache settled, when all calls ask for one time to live.\<close>

definition young :: "int \<Rightarrow> rat \<Rightarrow> cache \<Rightarrow> bool" where
  "young D now c \<longleftrightarrow> (\<forall>k u. idx c k = Some u \<longrightarrow> u \<le> now + of_int D)"

lemma added_views [simp]:
  "idx (added now q c) = (idx c)(sc_key q \<mapsto> now + of_int (sc_ttl q))"
  "cst (added now q c) = (cst c)(sc_key q \<mapsto> weight q)"
  "val (added now q c) = (val c)(sc_key q \<mapsto> (sc_value q, now + of_int (sc_ttl q)))"
  by (simp_all add: added_def zadd_def Let_def)

lemma settled_added:
  assumes "settled now c" "young (sc_ttl q) now c" "0 < sc_ttl q"
  shows "settled now (added now q c)" "young (sc_ttl q) now (added now q c)"
    and "held (added now q c) = (held c)(sc_key q \<mapsto> (sc_value q, now + of_int (sc_ttl q), weight q))"
proof -
  note d = settledD [OF assms(1)]
  let ?u = "now + of_int (sc_ttl q)"
  have sel: "z_until (c_index (added now q c)) = Some ?u" "z_until (c_costs (added now q c)) = Some ?u"
    "z_members (c_index (added now q c)) \<noteq> []" "dict_wf (z_members (c_index (added now q c)))"
    "dict_wf (z_members (c_costs (added now q c)))" "dict_wf (c_values (added now q c))"
    using d(1-3) by (simp_all add: added_def zadd_def Let_def)
  have le: "u \<le> ?u" if "idx (added now q c) k = Some u" for k u
    using that assms(2) by (auto simp: young_def split: if_splits)
  then show "young (sc_ttl q) now (added now q c)" by (simp add: young_def)
  have late: "now < u" if "idx (added now q c) k = Some u" for k u
    using that assms(3) d(6) by (auto split: if_splits)
  have "idx (added now q c) = map_option snd \<circ> val (added now q c)"
    using d(5) by (auto simp: fun_eq_iff)
  moreover have "dom (idx (added now q c)) = dom (cst (added now q c))" using d(4) by simp
  ultimately show "settled now (added now q c)"
    using sel le late unfolding settled_def by simp
  show "held (added now q c) = (held c)(sc_key q \<mapsto> (sc_value q, ?u, weight q))"
    by (auto simp: held_def fun_eq_iff)
qed

lemma evicted_views:
  "idx (evicted v c) k = (if k = v then None else idx c k)"
  "cst (evicted v c) k = (if k = v then None else cst c k)"
  "val (evicted v c) k = (if k = v then None else val c k)"
proof -
  have "map_of (filter (\<lambda>(k, x). k \<noteq> v) d) k = (if k = v then None else map_of d k)" for d :: "(string, string \<times> rat) dict"
    by (induction d) auto
  then show "idx (evicted v c) k = (if k = v then None else idx c k)"
    "cst (evicted v c) k = (if k = v then None else cst c k)"
    "val (evicted v c) k = (if k = v then None else val c k)"
    by (simp_all add: evicted_def map_of_zrem)
qed

lemma settled_evicted:
  assumes "settled now c" "young D now c"
  shows "settled now (evicted v c)" "young D now (evicted v c)" "held (evicted v c) = (held c)(v := None)"
proof -
  note d = settledD [OF assms(1)]
  have keys: "set (dict_keys (z_members (c_index c))) = set (dict_keys (z_members (c_costs c)))"
    using d(4) by (simp add: dom_map_of_conv_image_fst)
  show "held (evicted v c) = (held c)(v := None)"
    by (auto simp: held_def evicted_views fun_eq_iff)
  show "young D now (evicted v c)" using assms(2) by (simp add: young_def evicted_views)
  have empty: "z_members (c_index (evicted v c)) = [] \<longleftrightarrow> z_members (c_costs (evicted v c)) = []"
    using keys filter_keys_empty [of "{v}" "z_members (c_index c)"] filter_keys_empty [of "{v}" "z_members (c_costs c)"]
    by (simp add: evicted_def zrem_def)
  have wf: "dict_wf (z_members (c_index (evicted v c)))" "dict_wf (z_members (c_costs (evicted v c)))"
    "dict_wf (c_values (evicted v c))"
    using d(1-3) by (simp_all add: evicted_def zrem_def dict_wf_filter)
  have until: "z_until (c_index (evicted v c)) = (if z_members (c_index (evicted v c)) = [] then None else z_until (c_index c))"
    "z_until (c_costs (evicted v c)) = (if z_members (c_costs (evicted v c)) = [] then None else z_until (c_index c))"
    using d(7) by (simp_all add: evicted_def zrem_def)
  have some: "\<exists>U. z_until (c_index (evicted v c)) = Some U \<and> (\<forall>k u. idx (evicted v c) k = Some u \<longrightarrow> u \<le> U)"
    if ne: "z_members (c_index (evicted v c)) \<noteq> []"
  proof -
    from ne obtain k u where k: "idx (evicted v c) k = Some u" by (metis map_of_empty_iff not_None_eq ext)
    then have "idx c k = Some u" by (simp add: evicted_views split: if_splits)
    then obtain U where U: "z_until (c_index c) = Some U" using settled_until [OF assms(1)] by blast
    have "u \<le> U" if "idx (evicted v c) k = Some u" for k u
      using that settled_until [OF assms(1)] U by (metis evicted_views(1) option.inject option.distinct(1))
    then show ?thesis using U ne until(1) by simp
  qed
  have same: "idx (evicted v c) = map_option snd \<circ> val (evicted v c)"
    using d(5) by (auto simp: fun_eq_iff evicted_views)
  have dom: "dom (idx (evicted v c)) = dom (cst (evicted v c))"
    using d(4) by (auto simp: dom_def evicted_views set_eq_iff)
  have late: "now < u" if "idx (evicted v c) k = Some u" for k u
    using that d(6) by (simp add: evicted_views split: if_splits)
  show "settled now (evicted v c)"
    by (rule settledI [OF wf dom same late _ _ some]) (use until empty in \<open>simp_all split: if_splits\<close>)
qed

text \<open>So a call alone is one step of the map.\<close>

lemma length_dict_keys:
  assumes "dict_wf d"
  shows "length d = card (dom (map_of d))"
  using distinct_card [OF assms] by (simp add: dom_map_of_conv_image_fst)

lemma purged_young:
  assumes "settled t c" "t \<le> now" "young D t c"
  shows "young D now (purged now c)"
  unfolding young_def
proof (intro allI impI)
  fix k u
  assume "idx (purged now c) k = Some u"
  then have "idx c k = Some u" unfolding purged_views(2) [OF assms(1,2)] by (simp split: option.splits if_splits)
  then have "u \<le> t + of_int D" using assms(3) by (simp only: young_def)
  then show "u \<le> now + of_int D" using assms(2) by linarith
qed

lemma store_implements:
  assumes "settled t0 c0" "young (sc_ttl q) t0 c0" "t0 \<le> t" "t \<le> now" "c = tick t c0" "0 < sc_ttl q"
    and "store_within_budget L now q c = (b, c')"
  obtains (fin) c1 t1 where "t1 \<le> now" "settled t1 c1" "young (sc_ttl q) t1 c1" "c' = tick now c1"
    "bounded_store L now q (held c0) b (alive now (held c1))"
proof (cases "admissible_call L q")
  case False
  have "run L now (start q, c) = run L now (goto (Returned False) (start q), tick now c)"
    by (rule run_step) (use False in \<open>simp_all add: start_def step_def Let_def\<close>)
  then have "b = False" "c' = tick now c0"
    using assms(3-5,7) by (auto simp: store_within_budget_def run_stopped tick_tick)
  with False fin [OF _ assms(1,2)] assms(3,4) show thesis by (auto intro: bounded_store.inadmissible)
next
  case True
  let ?c1 = "purged now c0"
  note s1 = purged_settled [OF assms(1), of now] and y1 = purged_young [OF assms(1) _ assms(2), of now]
  have le: "t0 \<le> now" using assms(3,4) by simp
  note s1 = s1 [OF le] and y1 = y1 [OF le]
  note d1 = settledD [OF s1(1)]
  let ?w = "\<lparr>w_call = q, w_now = now, w_pc = Score\<rparr>"
  have run: "run L now (start q, c) = run L now (?w, ?c1)"
    using run_begin [OF True, of now c] assms(4) by (simp add: assms(5) purged_tick)
  have dom: "dom (idx ?c1) = dom (alive now (held c0))" using held_settled(2) [OF s1(1)] s1(2) by simp
  have card: "length (z_members (c_index ?c1)) = card (dom (alive now (held c0)))"
    using length_dict_keys [OF d1(1)] dom by simp
  have mem: "dict_mem (sc_key q) (z_members (c_index ?c1)) \<longleftrightarrow> sc_key q \<in> dom (alive now (held c0))"
    using dom by (auto simp: dict_mem_def)
  note score = run_score [OF s1(1) refl assms(6), of L]
  have finish: thesis
    if "c' = c2" "settled now c2" "young (sc_ttl q) now c2" "bounded_store L now q (held c0) b (held c2)" for c2
  proof -
    have "alive now (held c2) = held c2" by (rule alive_settled [OF that(2)])
    then show thesis using that settled_tick [OF that(2)] by (intro fin) auto
  qed
  have out: "b = (w_pc w' = Returned True)" "c' = c2" if "run L now (?w, ?c1) = (w', c2)" for w' c2
    using assms(7) run that by (auto simp: store_within_budget_def)
  show thesis
  proof (cases "dict_mem (sc_key q) (z_members (c_index ?c1)) \<or> length (z_members (c_index ?c1)) < cl_max_keys L")
    case room: True
    note a = settled_added [OF s1(1) y1 assms(6)]
    have "run L now (?w, ?c1) = (goto (Returned True) ?w, added now q ?c1)" using score room by simp
    then have "b = True" "c' = added now q ?c1" by (auto dest: out)
    moreover have "bounded_store L now q (held c0) True (held (added now q ?c1))"
      unfolding a(3) s1(2) by (rule bounded_store.written [OF True refl]) (use room mem card in auto)
    ultimately show thesis using a(1,2) by (intro finish) auto
  next
    case full: False
    then have full': "sc_key q \<notin> dom (alive now (held c0))" "cl_max_keys L \<le> card (dom (alive now (held c0)))"
      using mem card by auto
    have costs: "(k, x) \<in> set (z_members (c_costs ?c1))" if "alive now (held c0) k = Some (v, u, x)" for k v u x
    proof -
      have "held ?c1 k = Some (v, u, x)" using that s1(2) by simp
      then have "cst ?c1 k = Some x" by (auto simp: held_def split: option.splits)
      then show ?thesis by (rule map_of_SomeD)
    qed
    show thesis
    proof (cases "z_first (c_costs ?c1)")
      case None
      then have "cst ?c1 = Map.empty" by (simp add: z_first_None)
      then have "dom (alive now (held c0)) = {}" using d1(4) dom by simp
      then have "bounded_store L now q (held c0) False (alive now (held c0))"
        by (intro bounded_store.refused [OF True refl full']) auto
      moreover have "run L now (?w, ?c1) = (goto (Returned False) ?w, ?c1)" using score full None by simp
      then have "b = False" "c' = ?c1" by (auto dest: out)
      ultimately show thesis using s1 y1 by (intro finish) auto
    next
      case (Some vx)
      obtain v x where vx: "z_first (c_costs ?c1) = Some (v, x)" using Some by (cases vx) simp
      note least = z_first_SomeD [OF vx]
      show thesis
      proof (cases "weight q \<le> x")
        case True
        have "bounded_store L now q (held c0) False (alive now (held c0))"
          by (rule bounded_store.refused [OF \<open>admissible_call L q\<close> refl full'])
            (use True least(2) costs order_trans in blast)
        moreover have "run L now (?w, ?c1) = (goto (Returned False) ?w, ?c1)" using score full vx True by simp
        then have "b = False" "c' = ?c1" by (auto dest: out)
        ultimately show thesis using s1 y1 by (intro finish) auto
      next
        case False
        note e = settled_evicted [OF s1(1) y1, of v]
        note a = settled_added [OF e(1,2) assms(6)]
        have "cst ?c1 v = Some x" using least(1) d1(2) by simp
        moreover have "v \<in> dom (held ?c1)" using held_settled(2) [OF s1(1)] d1(4) \<open>cst ?c1 v = Some x\<close> by auto
        ultimately obtain y u where v: "held ?c1 v = Some (y, u, x)" by (auto simp: held_def split: option.splits)
        have "bounded_store L now q (held c0) True (held (added now q (evicted v ?c1)))"
          unfolding a(3) e(3) s1(2)
        proof (rule bounded_store.displaced [OF \<open>admissible_call L q\<close> refl full'])
          show "alive now (held c0) v = Some (y, u, x)" using v s1(2) by simp
          show "\<forall>k v' u' x'. alive now (held c0) k = Some (v', u', x') \<longrightarrow> x \<le> x'"
            using least(2) costs by blast
        qed (use False in simp)
        moreover have "run L now (?w, ?c1) = (goto (Returned True) ?w, added now q (evicted v ?c1))" using score full vx False by simp
        then have "b = True" "c' = added now q (evicted v ?c1)" by (auto dest: out)
        ultimately show thesis using a(1,2) by (intro finish) auto
      qed
    qed
  qed
qed


text \<open>A history of calls, each alone, with the results; and the same calls in the map.\<close>

fun store_all :: "cache_limits \<Rightarrow> (rat \<times> store_call) list \<Rightarrow> cache \<Rightarrow> bool list \<times> cache" where
  "store_all L [] c = ([], c)"
| "store_all L ((now, q) # qs) c =
     (let (b, c1) = store_within_budget L now q c; (bs, c2) = store_all L qs c1 in (b # bs, c2))"

inductive bounded_run :: "cache_limits \<Rightarrow> (rat \<times> store_call) list \<Rightarrow> bounded_map \<Rightarrow> bool list \<Rightarrow> bounded_map \<Rightarrow> bool"
  for L where
  run_Nil: "bounded_run L [] A [] A"
| run_Cons: "bounded_store L now q A b A1 \<Longrightarrow> bounded_run L qs A1 bs A2 \<Longrightarrow> bounded_run L ((now, q) # qs) A (b # bs) A2"

lemma alive_alive: "t \<le> now \<Longrightarrow> alive now (alive t A) = alive now A"
  by (auto simp: alive_def fun_eq_iff split: option.splits)

lemma bounded_store_alive:
  assumes "bounded_store L now q A b A'" "t \<le> now"
  shows "bounded_store L now q (alive t A) b A'"
proof -
  have eq: "alive now (alive t A) = alive now A" using assms(2) by (rule alive_alive)
  note rules = bounded_store.intros [where A = "alive t A" and now = now, unfolded eq]
  show ?thesis using assms(1)
  proof cases
    case inadmissible
    then show ?thesis using rules(1) by simp
  next
    case (written A1)
    then show ?thesis using rules(2) by simp
  next
    case (displaced A1 victim v u x)
    then show ?thesis using rules(3) by blast
  next
    case refused
    then show ?thesis using rules(4) by blast
  qed
qed

lemma bounded_run_in_budget: "bounded_run L qs A bs A' \<Longrightarrow> in_budget L A \<Longrightarrow> in_budget L A'"
  by (induction rule: bounded_run.induct) (auto intro: bounded_store_in_budget)

lemma settled_empty: "settled t empty_cache"
  by (auto simp: settled_def empty_cache_def fun_eq_iff)

lemma store_all_implements:
  assumes "settled t0 c0" "young D t0 c0" "t0 \<le> t" "c = tick t c0" "0 < D"
    and "sorted (t # map fst qs)" "list_all (\<lambda>(now, q). sc_ttl q = D) qs" "store_all L qs c = (bs, c')"
  shows "\<exists>t1 c1 t'. t1 \<le> t' \<and> settled t1 c1 \<and> c' = tick t' c1
    \<and> bounded_run L qs (alive t (held c0)) bs (alive t' (held c1))"
  using assms
proof (induction qs arbitrary: t0 c0 t c bs)
  case Nil
  then show ?case by (auto intro: run_Nil)
next
  case (Cons nq qs)
  obtain now q where nq: "nq = (now, q)" by (cases nq)
  obtain b c1 where b: "store_within_budget L now q c = (b, c1)" by fastforce
  obtain bs' where bs: "store_all L qs c1 = (bs', c')" "bs = b # bs'"
    using Cons.prems(8) by (auto simp: nq b split: prod.splits)
  have le: "t \<le> now" and D: "sc_ttl q = D" and sorted: "sorted (now # map fst qs)"
    using Cons.prems(6,7) by (auto simp: nq)
  from Cons.prems(1-5) le D b obtain c2 t2 where
    s: "t2 \<le> now" "settled t2 c2" "young D t2 c2" "c1 = tick now c2"
      "bounded_store L now q (held c0) b (alive now (held c2))"
    using store_implements [of t0 c0 q t now c L b c1] by metis
  from Cons.IH [OF s(2,3,1,4) Cons.prems(5) sorted _ bs(1)] Cons.prems(7) obtain t1 c3 t' where
    "t1 \<le> t'" "settled t1 c3" "c' = tick t' c3" "bounded_run L qs (alive now (held c2)) bs' (alive t' (held c3))"
    by (auto simp: nq)
  then show ?case
    using run_Cons [OF bounded_store_alive [OF s(5) le]] unfolding nq bs(2) by blast
qed

lemma sum_list_le: "list_all (\<lambda>x. f x \<le> b) xs \<Longrightarrow> sum_list (map f xs) \<le> length xs * (b :: nat)"
  by (induction xs) auto

text \<open>
  C19.  A cache is a bounded map.  Calls that come one after another, with one time to live, on a cache
  that starts empty, give the same answers and leave the same values as the stores of the
  abstract map: a value is refused only if it is too large or too cheap, or if the cache is full
  of entries that cost at least as much; and room is only made by dropping a cheapest entry for
  one that costs strictly more.  So the cache never holds more than \<open>max_keys\<close> values, nor more
  bytes than \<open>max_keys\<close> times \<open>max_value_bytes\<close>.
\<close>

theorem cache_is_bounded_map:
  assumes "store_all L qs empty_cache = (bs, c)"
    and "sorted (map fst qs)" "list_all (\<lambda>(now, q). sc_ttl q = D) qs" "0 < D"
  shows "\<exists>A. bounded_run L qs Map.empty bs A
      \<and> (\<forall>k v u. map_of (c_values c) k = Some (v, u) \<longleftrightarrow> (\<exists>x. A k = Some (v, u, x)))
      \<and> length (c_values c) \<le> cl_max_keys L
      \<and> sum_list (map (\<lambda>(k, v, u). length v) (c_values c)) \<le> cl_max_keys L * cl_max_value_bytes L"
proof -
  define t where "t = (case qs of [] \<Rightarrow> 0 | (now, q) # _ \<Rightarrow> now)"
  have sorted: "sorted (t # map fst qs)" using assms(2) by (cases qs) (auto simp: t_def)
  have empty: "tick t empty_cache = empty_cache" by (simp add: tick_def z_live_def empty_cache_def)
  have "held empty_cache = Map.empty" by (auto simp: held_def empty_cache_def fun_eq_iff)
  then have held: "alive t (held empty_cache) = Map.empty" by (auto simp: alive_def fun_eq_iff)
  have young: "young D t empty_cache" by (simp add: young_def empty_cache_def)
  obtain t1 c1 t' where c1: "t1 \<le> t'" "settled t1 c1" "c = tick t' c1"
    and run: "bounded_run L qs Map.empty bs (alive t' (held c1))"
    using store_all_implements [OF settled_empty young order_refl _ assms(4) sorted assms(3,1)] held empty by auto
  let ?A = "alive t' (held c1)"
  note d = settledD [OF c1(2)]
  have budget: "in_budget L ?A" using run by (rule bounded_run_in_budget) (simp add: in_budget_def)
  have val: "val c k = (case val c1 k of None \<Rightarrow> None | Some (v, u) \<Rightarrow> if t' < u then Some (v, u) else None)" for k
    using purged_views(1) [OF c1(2,1), of k] by (simp add: c1(3) purged_values)
  have some: "\<exists>x. cst c1 k = Some x" if "val c1 k = Some z" for k z
    using that d(4) d(5) [of k] by (auto simp: dom_def set_eq_iff)
  have same: "val c k = Some (v, u) \<longleftrightarrow> (\<exists>x. ?A k = Some (v, u, x))" for k v u
    using some [of k] unfolding val alive_def held_def by (auto split: option.splits)
  have wf: "dict_wf (c_values c)" using d(3) by (simp add: c1(3) tick_def dict_wf_filter)
  have dom: "dom (val c) = dom ?A"
  proof -
    have "val c k \<noteq> None \<longleftrightarrow> ?A k \<noteq> None" for k using same [of k] by (metis not_None_eq surj_pair)
    then show ?thesis by (auto simp: dom_def)
  qed
  then have len: "length (c_values c) \<le> cl_max_keys L"
    using budget length_dict_keys [OF wf] by (simp add: in_budget_def)
  have "length v \<le> cl_max_value_bytes L" if "(k, v, u) \<in> set (c_values c)" for k v u
    using that wf same [of k v u] budget by (auto simp: in_budget_def)
  then have "list_all (\<lambda>x. (case x of (k, v, u) \<Rightarrow> length v) \<le> cl_max_value_bytes L) (c_values c)"
    by (auto simp: list_all_iff)
  from sum_list_le [OF this] have
    "sum_list (map (\<lambda>(k, v, u). length v) (c_values c)) \<le> cl_max_keys L * cl_max_value_bytes L"
    using len by (meson le_trans mult_le_mono1)
  with run same len show ?thesis by blast
qed


section \<open>Writers together\<close>

text \<open>A writer's own commands bring it to its end, whatever comes between them.\<close>

lemma fail_rank: "rank (w_pc (fail w)) \<le> rank (w_pc w) - 1 \<and> (w_pc (fail w) = Raised \<or> w_pc (fail w) = w_pc w)"
  by (cases "w_pc w") (auto simp: fail_def)

lemma stopped_rank: "stopped p \<longleftrightarrow> rank p = 0"
  by (cases p) auto

lemma step_rank_le: "rank (w_pc (fst (step L now w c))) \<le> rank (w_pc w) - 1"
proof (cases "stopped (w_pc w)")
  case True
  then show ?thesis by (cases "w_pc w") (auto simp: step_def Let_def)
next
  case False
  from step_rank [OF this, of L now c] show ?thesis by simp
qed

lemma pick_rank:
  assumes "i < length ws" "pick L e (ws, c) = (ws', c')"
  shows "length ws' = length ws"
    and "rank (w_pc (ws' ! i)) \<le> rank (w_pc (ws ! i)) - (if fst e = i then 1 else 0)"
proof -
  obtain j now raises where e: "e = (j, now, raises)" by (cases e)
  show "length ws' = length ws" using assms(2) by (auto simp: pick_def e Let_def split: if_splits prod.splits)
  show "rank (w_pc (ws' ! i)) \<le> rank (w_pc (ws ! i)) - (if fst e = i then 1 else 0)"
    using assms fail_rank [of "ws ! i"] step_rank_le [of L now "ws ! i" c]
    by (auto simp: pick_def e Let_def nth_list_update split: if_splits prod.splits)
qed

lemma schedule_rank:
  assumes "i < length ws"
  shows "rank (w_pc (fst (schedule L es (ws, c)) ! i)) \<le> rank (w_pc (ws ! i)) - length (filter (\<lambda>e. fst e = i) es)"
  using assms
proof (induction es arbitrary: ws c)
  case (Cons e es)
  obtain ws' c' where p: "pick L e (ws, c) = (ws', c')" by fastforce
  note r = pick_rank [OF Cons.prems p]
  have "rank (w_pc (fst (schedule L es (ws', c')) ! i)) \<le> rank (w_pc (ws' ! i)) - length (filter (\<lambda>e. fst e = i) es)"
    by (rule Cons.IH) (use r Cons.prems in simp)
  then show ?case using r(2) by (simp add: schedule_def p split: if_splits)
qed (simp add: schedule_def)

text \<open>
  C20.  Every writer finishes.  In any interleaving, with any clock and any commands raising, a writer
  that has been given thirty-one turns of its own has returned or raised; nothing the other
  writers do can hold it up.
\<close>

theorem writers_finish:
  assumes "i < length qs" "31 \<le> length (filter (\<lambda>e. fst e = i) es)"
  shows "stopped (w_pc (fst (schedule L es (map start qs, c)) ! i))"
  using schedule_rank [of i "map start qs" L es c] assms
  by (simp add: stopped_rank start_def)

theorem writers_finish_witness:
  "stopped (w_pc (fst (schedule default_limits (concat (replicate 31 [(0, 5, False), (1, 5, False)]))
      (map start [\<lparr>sc_key = ''a'', sc_value = ''v'', sc_ttl = 9, sc_cost = None, sc_min_cost = 0\<rparr>,
                  \<lparr>sc_key = ''b'', sc_value = ''w'', sc_ttl = 9, sc_cost = Some 1, sc_min_cost = 0\<rparr>], empty_cache)) ! 1))"
  by (rule writers_finish) (simp_all add: eval_nat_numeral)

theorem cache_is_bounded_map_witness:
  "let L = \<lparr>cl_max_keys = 1, cl_max_value_bytes = 9\<rparr>;
       qs = [(5, \<lparr>sc_key = ''a'', sc_value = ''v'', sc_ttl = 9, sc_cost = None, sc_min_cost = 0\<rparr>),
             (7, \<lparr>sc_key = ''b'', sc_value = ''w'', sc_ttl = 9, sc_cost = Some 3, sc_min_cost = 2\<rparr>)];
       r = store_all L qs empty_cache
   in (\<exists>A. bounded_run L qs Map.empty (fst r) A) \<and> length (c_values (snd r)) \<le> 1"
  unfolding Let_def
  using cache_is_bounded_map [OF prod.collapse [symmetric], where L = "\<lparr>cl_max_keys = 1, cl_max_value_bytes = 9\<rparr>"
      and qs = "[(5, \<lparr>sc_key = ''a'', sc_value = ''v'', sc_ttl = 9, sc_cost = None, sc_min_cost = 0\<rparr>),
        (7, \<lparr>sc_key = ''b'', sc_value = ''w'', sc_ttl = 9, sc_cost = Some 3, sc_min_cost = 2\<rparr>)]" and D = 9]
  by (auto simp del: store_all.simps)

text \<open>One round of two writers: the first has found its key indexed when the second makes its call.\<close>

definition round :: "cache_limits \<Rightarrow> rat \<Rightarrow> store_call \<Rightarrow> store_call \<Rightarrow> cache \<Rightarrow> world" where
  "round L now a b c =
     schedule L (replicate 2 (0, now, False) @ replicate 31 (1, now, False) @ replicate 31 (0, now, False))
       ([start a, start b], c)"

fun iter :: "nat \<Rightarrow> cache_limits \<Rightarrow> rat \<Rightarrow> writer \<times> cache \<Rightarrow> writer \<times> cache" where
  "iter 0 L now z = z"
| "iter (Suc n) L now z = iter n L now (step L now (fst z) (snd z))"

lemma schedule_own:
  assumes "i < length ws"
  shows "schedule L (replicate n (i, now, False)) (ws, c)
    = (ws[i := fst (iter n L now (ws ! i, c))], snd (iter n L now (ws ! i, c)))"
  using assms
proof (induction n arbitrary: ws c)
  case (Suc n)
  obtain w c' where s: "step L now (ws ! i) c = (w, c')" by fastforce
  have "schedule L (replicate (Suc n) (i, now, False)) (ws, c) = schedule L (replicate n (i, now, False)) (ws[i := w], c')"
    using Suc.prems by (simp add: schedule_def pick_def s)
  then show ?case using Suc.IH [of "ws[i := w]" c'] Suc.prems by (simp add: s)
qed (simp add: schedule_def)

lemma schedule_append: "schedule L (es @ fs) s = schedule L fs (schedule L es s)"
  by (simp add: schedule_def)

lemma iter_stopped:
  assumes "stopped (w_pc w)" "tick now c = c"
  shows "iter n L now (w, c) = (w, c)"
proof -
  have "step L now w c = (w, c)" using assms by (cases "w_pc w") (simp_all add: step_def Let_def)
  then show ?thesis by (induction n) simp_all
qed

lemma iter_run:
  assumes "rank (w_pc w) \<le> n" "run L now (w, c) = (w', c')" "tick now c' = c'"
  shows "iter n L now (w, c) = (w', c')"
  using assms
proof (induction n arbitrary: w c)
  case 0
  then show ?case by (simp add: run_stopped stopped_rank)
next
  case (Suc n)
  show ?case
  proof (cases "stopped (w_pc w)")
    case True
    then show ?thesis using Suc.prems iter_stopped [OF True] by (simp add: run_stopped del: iter.simps)
  next
    case False
    obtain w1 c1 where s: "step L now w c = (w1, c1)" by fastforce
    have "rank (w_pc w1) \<le> n" using step_rank [OF False, of L now c] Suc.prems(1) by (simp add: s)
    moreover have "run L now (w1, c1) = (w', c')" using run_step [OF False s] Suc.prems(2) by simp
    ultimately show ?thesis using Suc.IH Suc.prems(3) by (simp add: s)
  qed
qed


lemma round_result:
  assumes set: "settled now c" and y: "young D now c" and "0 < D" and ttl: "sc_ttl a = D" "sc_ttl b = D"
    and adm: "admissible_call L a" "admissible_call L b"
    and x: "z_first (c_costs c) = Some (sc_key a, w0)" and heavy: "w0 < weight b"
    and new: "sc_key b \<notin> dom (idx c)" and full: "cl_max_keys L \<le> length (z_members (c_index c))"
  shows "round L now a b c =
    ([goto (Returned True) ((start a)\<lparr>w_now := now\<rparr>), goto (Returned True) ((start b)\<lparr>w_now := now\<rparr>)],
     added now a (added now b (evicted (sc_key a) c)))"
proof -
  note t = settled_tick [OF set] and d = settledD [OF set]
  let ?wa = "(start a)\<lparr>w_now := now\<rparr>" and ?wb = "(start b)\<lparr>w_now := now\<rparr>"
  let ?c1 = "added now b (evicted (sc_key a) c)"
  have none_due: "filter (\<lambda>(k, s). s \<le> now) (z_members (c_index c)) = []"
    using d(1,6) by (fastforce simp: filter_empty_conv)
  then have purged: "purged now c = c" using t by (simp add: purged_def Let_def)
  have "sc_key a \<in> dom (cst c)" using z_first_SomeD(1) [OF x] d(2) by auto
  then have ai: "dict_mem (sc_key a) (z_members (c_index c))" using d(4) by (auto simp: dict_mem_def)
  have bi: "\<not> dict_mem (sc_key b) (z_members (c_index c))" using new by (auto simp: dict_mem_def)
  have expired: "dict_keys (filter (\<lambda>(k, s). s \<le> now) (z_members (c_index c))) = []" by (simp only: none_due list.map)
  have "step L now (start a) c = (goto Score ?wa, c)"
    using adm(1) t unfolding step_def by (simp only: expired Let_def start_def writer.simps pc.case if_True simp_thms if_False)
  moreover have "step L now (goto Score ?wa) c = (goto AddIndex ?wa, c)"
    using ai t by (simp add: step_def start_def Let_def)
  ultimately have "iter 2 L now (start a, c) = (goto AddIndex ?wa, c)" by (simp add: eval_nat_numeral)
  then have first: "schedule L (replicate 2 (0, now, False)) ([start a, start b], c) = ([goto AddIndex ?wa, start b], c)"
    by (simp add: schedule_own)
  note e = settled_evicted [OF set y, of "sc_key a"]
  have b1: "settled now ?c1" "young D now ?c1"
    using settled_added [OF e(1), of b] e(2) assms(3) ttl(2) by simp_all
  have "run L now (start b, c) = run L now (\<lparr>w_call = b, w_now = now, w_pc = Score\<rparr>, c)"
    using run_begin [OF adm(2), of now c] purged by simp
  also have "\<dots> = (goto (Returned True) ?wb, ?c1)"
    using run_score [OF set refl, of b L] assms(3) ttl(2) bi full x heavy by (simp add: start_def)
  finally have "iter 31 L now (start b, c) = (goto (Returned True) ?wb, ?c1)"
    by (intro iter_run settled_tick [OF b1(1)]) (simp_all add: start_def)
  then have second: "schedule L (replicate 31 (Suc 0, now, False)) ([goto AddIndex ?wa, start b], c)
      = ([goto AddIndex ?wa, goto (Returned True) ?wb], ?c1)"
    by (simp add: schedule_own)
  have a1: "settled now (added now a ?c1)"
    using settled_added(1) [OF b1(1), of a] b1(2) assms(3) ttl(1) by simp
  have "run L now (goto AddIndex ?wa, ?c1) = (goto (Returned True) ?wa, added now a ?c1)"
    using run_add [OF settled_tick [OF b1(1)], of "goto AddIndex ?wa" a L] assms(3) ttl(1) by (simp add: start_def)
  then have "iter 31 L now (goto AddIndex ?wa, ?c1) = (goto (Returned True) ?wa, added now a ?c1)"
    by (intro iter_run settled_tick [OF a1]) simp_all
  then have third: "schedule L (replicate 31 (0, now, False)) ([goto AddIndex ?wa, goto (Returned True) ?wb], ?c1)
      = ([goto (Returned True) ?wa, goto (Returned True) ?wb], added now a ?c1)"
    by (simp add: schedule_own)
  show ?thesis by (simp add: round_def schedule_append first second third)
qed


text \<open>Round after round, always the first writer's key that the second one displaces.\<close>

fun rounds :: "cache_limits \<Rightarrow> rat \<Rightarrow> store_call \<Rightarrow> store_call list \<Rightarrow> cache \<Rightarrow> writer list \<times> cache" where
  "rounds L now a [] c = ([], c)"
| "rounds L now a (b # bs) c =
     (let (ws, c1) = round L now a b c; (ws', c2) = rounds L now a bs c1 in (ws @ ws', c2))"

definition lightest :: "string \<Rightarrow> int \<Rightarrow> cache \<Rightarrow> bool" where
  "lightest x w0 c \<longleftrightarrow> cst c x = Some w0 \<and> (\<forall>k y. k \<noteq> x \<and> cst c k = Some y \<longrightarrow> w0 < y)"

lemma lightest_first:
  assumes "lightest x w0 c" "dict_wf (z_members (c_costs c))"
  shows "z_first (c_costs c) = Some (x, w0)"
proof (cases "z_first (c_costs c)")
  case None
  then show ?thesis using assms(1) by (simp add: z_first_None lightest_def)
next
  case (Some vy)
  obtain v y where v: "z_first (c_costs c) = Some (v, y)" using Some by (cases vy) simp
  note least = z_first_SomeD [OF v]
  have vc: "cst c v = Some y" using least(1) assms(2) by simp
  have "(x, w0) \<in> set (z_members (c_costs c))" using assms(1) by (auto simp: lightest_def dest: map_of_SomeD)
  then have "y \<le> w0" by (rule least(2))
  then have "v = x" using assms(1) vc unfolding lightest_def by (metis leD)
  then show ?thesis using v vc assms(1) by (simp add: lightest_def)
qed

lemma round_step:
  assumes "settled now c" "young D now c" "0 < D" "lightest (sc_key a) w0 c"
    and "sc_ttl a = D" "sc_ttl b = D" "admissible_call L a" "admissible_call L b"
    and "weight a = w0" "w0 < weight b" "sc_key b \<notin> dom (idx c)" "cl_max_keys L \<le> length (z_members (c_index c))"
  obtains ws c' where "round L now a b c = (ws, c')" "length ws = 2" "\<forall>w \<in> set ws. w_pc w = Returned True"
    "settled now c'" "young D now c'" "lightest (sc_key a) w0 c'" "dom (idx c') = insert (sc_key b) (dom (idx c))"
proof -
  let ?e = "evicted (sc_key a) c"
  let ?c1 = "added now b ?e"
  let ?c2 = "added now a ?c1"
  note d = settledD [OF assms(1)]
  have first: "z_first (c_costs c) = Some (sc_key a, w0)" by (rule lightest_first [OF assms(4) d(2)])
  note e = settled_evicted [OF assms(1,2), of "sc_key a"]
  have b1: "settled now ?c1" "young D now ?c1" using settled_added [OF e(1), of b] e(2) assms(3,6) by simp_all
  have a1: "settled now ?c2" "young D now ?c2" using settled_added [OF b1(1), of a] b1(2) assms(3,5) by simp_all
  have ai: "sc_key a \<in> dom (idx c)" using assms(4) d(4) by (auto simp: lightest_def)
  have dom: "dom (idx ?c2) = insert (sc_key b) (dom (idx c))"
    using ai by (auto simp: dom_def evicted_views)
  have light: "lightest (sc_key a) w0 ?c2"
    using assms(4,9,10) ai assms(11) by (auto simp: lightest_def evicted_views)
  have result: "round L now a b c =
    ([goto (Returned True) ((start a)\<lparr>w_now := now\<rparr>), goto (Returned True) ((start b)\<lparr>w_now := now\<rparr>)], ?c2)"
    using round_result [OF assms(1-3,5-8) first assms(10-12)] .
  show thesis by (rule that [OF result _ _ a1 light dom]) simp_all
qed

text \<open>
  The budget can be overrun by far more than the number of writers.  Take a full cache whose
  cheapest entry is alone the cheapest.  If, call after call, one writer finds that entry indexed,
  another displaces it for a costlier new key, and the first then writes it again, every command
  succeeds, every call answers that it has stored, never more than two writers are at work, and
  the cache has grown by one live key for each round.
\<close>

theorem overshoot_ratchets:
  assumes "settled now c" "young D now c" "0 < D" "lightest (sc_key a) (weight a) c"
    and "cl_max_keys L \<le> length (z_members (c_index c))" "sc_ttl a = D" "admissible_call L a"
    and "\<forall>b \<in> set bs. sc_ttl b = D \<and> admissible_call L b \<and> weight a < weight b \<and> sc_key b \<notin> dom (idx c)"
    and "distinct (map sc_key bs)"
  shows "let (ws, c') = rounds L now a bs c in
    length ws = 2 * length bs \<and> (\<forall>w \<in> set ws. w_pc w = Returned True)
    \<and> length (c_values c') = length (z_members (c_index c)) + length bs
    \<and> (\<forall>(k, v, u) \<in> set (c_values c'). now < u)"
proof -
  have "\<exists>ws c'. rounds L now a bs c = (ws, c') \<and> length ws = 2 * length bs \<and> (\<forall>w \<in> set ws. w_pc w = Returned True)
    \<and> settled now c' \<and> dom (idx c') = dom (idx c) \<union> set (map sc_key bs)"
    using assms
  proof (induction bs arbitrary: c)
    case (Cons b bs)
    obtain ws c1 where r: "round L now a b c = (ws, c1)" "length ws = 2" "\<forall>w \<in> set ws. w_pc w = Returned True"
      "settled now c1" "young D now c1" "lightest (sc_key a) (weight a) c1" "dom (idx c1) = insert (sc_key b) (dom (idx c))"
      by (rule round_step [where ?w0.0 = "weight a" and b = b and L = L, OF Cons.prems(1-4)]) (use Cons.prems(5-8) in auto)
    have "length (z_members (c_index c)) \<le> length (z_members (c_index c1))"
      unfolding length_dict_keys [OF settledD(1) [OF Cons.prems(1)]] length_dict_keys [OF settledD(1) [OF r(4)]] r(7)
      by (auto intro: card_mono simp: finite_dom_map_of)
    then have full: "cl_max_keys L \<le> length (z_members (c_index c1))" using Cons.prems(5) by simp
    have "\<forall>b' \<in> set bs. sc_ttl b' = D \<and> admissible_call L b' \<and> weight a < weight b' \<and> sc_key b' \<notin> dom (idx c1)"
    proof
      fix b'
      assume "b' \<in> set bs"
      moreover from this have "sc_key b' \<noteq> sc_key b" using Cons.prems(9) by (metis distinct.simps(2) image_eqI list.set_map list.simps(9))
      ultimately show "sc_ttl b' = D \<and> admissible_call L b' \<and> weight a < weight b' \<and> sc_key b' \<notin> dom (idx c1)"
        using Cons.prems(8) r(7) by simp
    qed
    from Cons.IH [OF r(4,5) Cons.prems(3) r(6) full Cons.prems(6,7) this] Cons.prems(9)
    show ?case using r by auto
  qed simp
  then obtain ws c' where r: "rounds L now a bs c = (ws, c')" "length ws = 2 * length bs"
    "\<forall>w \<in> set ws. w_pc w = Returned True" "settled now c'" "dom (idx c') = dom (idx c) \<union> set (map sc_key bs)" by blast
  note d = settledD [OF r(4)]
  have "dom (val c') = dom (idx c')" using d(5) by (auto simp: dom_def)
  then have "length (c_values c') = card (dom (idx c) \<union> set (map sc_key bs))"
    using length_dict_keys [OF d(3)] r(5) by simp
  also have "\<dots> = card (dom (idx c)) + card (set (map sc_key bs))"
    using assms(8) by (intro card_Un_disjoint) (auto simp: finite_dom_map_of)
  also have "\<dots> = length (z_members (c_index c)) + length bs"
    using length_dict_keys [OF settledD(1) [OF assms(1)]] distinct_card [OF assms(9)] by simp
  finally have len: "length (c_values c') = length (z_members (c_index c)) + length bs" .
  have "\<forall>(k, v, u) \<in> set (c_values c'). now < u" using settled_tick [OF r(4)] by (simp add: tick_iff)
  with r len show ?thesis by simp
qed


theorem overshoot_ratchets_witness:
  "let L = \<lparr>cl_max_keys = 1, cl_max_value_bytes = 9\<rparr>;
       call = (\<lambda>k x. \<lparr>sc_key = k, sc_value = ''v'', sc_ttl = 9, sc_cost = Some x, sc_min_cost = 0\<rparr>);
       c = snd (store_within_budget L 5 (call ''a'' 0) empty_cache)
   in length (c_values (snd (rounds L 5 (call ''a'' 0) (map (\<lambda>k. call k 1) [''b'', ''c'', ''d'']) c))) = 4"
proof -
  let ?L = "\<lparr>cl_max_keys = 1, cl_max_value_bytes = 9\<rparr>"
  let ?call = "\<lambda>k x. \<lparr>sc_key = k, sc_value = ''v'', sc_ttl = 9, sc_cost = Some x, sc_min_cost = 0\<rparr>"
  let ?c = "added 5 (?call ''a'' 0) empty_cache"
  have adm: "admissible_call ?L (?call [k] x)" if "0 \<le> x" for k x
    using that by (simp add: admissible_call_def MAX_KEY_LENGTH_def)
  have purged: "purged 5 empty_cache = empty_cache"
    by (simp add: purged_def tick_def z_live_def empty_cache_def)
  have young: "young 9 5 empty_cache" by (simp add: young_def empty_cache_def)
  have "run ?L 5 (start (?call ''a'' 0), empty_cache)
      = (goto (Returned True) \<lparr>w_call = ?call ''a'' 0, w_now = 5, w_pc = Score\<rparr>, ?c)"
    using run_begin [OF adm, of 0 5 "CHR ''a''" empty_cache] run_score [OF settled_empty refl, of "?call ''a'' 0" ?L 5] purged
    by (simp add: empty_cache_def)
  then have stored: "snd (store_within_budget ?L 5 (?call ''a'' 0) empty_cache) = ?c"
    by (simp add: store_within_budget_def)
  have sets: "settled 5 ?c" "young 9 5 ?c"
    using settled_added [OF settled_empty, of "?call ''a'' 0" 5] young by simp_all
  have light: "lightest ''a'' 0 ?c"
    by (simp add: lightest_def empty_cache_def weight_def)
  have one: "length (z_members (c_index ?c)) = 1" by (simp add: added_def zadd_def empty_cache_def Let_def)
  have "let (ws, c') = rounds ?L 5 (?call ''a'' 0) (map (\<lambda>k. ?call k 1) [''b'', ''c'', ''d'']) ?c in
    length ws = 2 * length (map (\<lambda>k. ?call k 1) [''b'', ''c'', ''d'']) \<and> (\<forall>w \<in> set ws. w_pc w = Returned True)
    \<and> length (c_values c') = length (z_members (c_index ?c)) + length (map (\<lambda>k. ?call k 1) [''b'', ''c'', ''d''])
    \<and> (\<forall>(k, v, u) \<in> set (c_values c'). 5 < u)"
    by (rule overshoot_ratchets [OF sets]) (use light one adm in \<open>simp_all add: weight_def empty_cache_def\<close>)
  then show ?thesis unfolding Let_def stored by (simp add: one split: prod.splits del: rounds.simps)
qed

end
