(* ===== verification/Explore.thy ===== *)
theory Explore
  imports Prelude
begin

text \<open>
  Discoveries of \<open>/api/recommend/explore\<close>, \<open>src/api/explore_discovery.py\<close>: the start lookup, the
  breadth-first expansion, the choice of the nearest hundred, and the entry point.

  The graph is what the module's Cypher reads of it: nodes with an element id, a first label and
  the properties \<open>name\<close>, \<open>title\<close>, \<open>id\<close> and \<open>release_count\<close>, and directed typed edges.  A query is the
  list of rows its text describes.  The stored answers of hub entities are an argument.
\<close>

section \<open>The graph and its queries\<close>

record graph_node =
  gn_eid :: string
  gn_label :: string
  gn_name :: "string option"
  gn_title :: "string option"
  gn_id :: "string option"
  gn_release_count :: "nat option"

type_synonym edge = "string \<times> string \<times> string"

record graph =
  gr_nodes :: "graph_node list"
  gr_edges :: "edge list"

text \<open>\<open>coalesce\<close> of two values, and Python's \<open>str\<close> of what may be null.\<close>

definition coalesce :: "'a option \<Rightarrow> 'a option \<Rightarrow> 'a option" where
  "coalesce a b = (case a of None \<Rightarrow> b | Some x \<Rightarrow> Some x)"

definition py_str :: "string option \<Rightarrow> string" where
  "py_str v = (case v of None \<Rightarrow> ''None'' | Some s \<Rightarrow> s)"

definition HUB_MIN_RELEASES :: nat where "HUB_MIN_RELEASES = 50000"
definition ARTIST_LABEL_LIMIT :: nat where "ARTIST_LABEL_LIMIT = 100"

definition EXPAND_ALL :: "string list" where
  "EXPAND_ALL = [''BY'', ''ON'', ''IS'', ''ALIAS_OF'', ''MEMBER_OF'', ''DERIVED_FROM'']"
definition LAST_HOP_FROM_RELEASE :: "string list" where
  "LAST_HOP_FROM_RELEASE = [''BY'', ''ON'', ''IS'']"
definition LAST_HOP_FROM_ARTIST :: "string list" where
  "LAST_HOP_FROM_ARTIST = [''ALIAS_OF'', ''MEMBER_OF'']"
definition ELIGIBLE :: "string list" where
  "ELIGIBLE = [''Artist'', ''Label'', ''Genre'', ''Style'']"
definition ALLOWED :: "(string, string) dict" where
  "ALLOWED = [(''genre'', ''Genre''), (''style'', ''Style''), (''artist'', ''Artist''), (''label'', ''Label''),
     (''release'', ''Release''), (''master'', ''Master'')]"

record explore_node =
  en_eid :: string
  en_label :: string
  en_name :: string
  en_id :: string
  en_nameless :: bool

text \<open>\<open>_find_start\<close>: the first node of the label with that name (genres, styles) or id.\<close>

definition find_start :: "graph \<Rightarrow> string \<Rightarrow> string \<Rightarrow> (explore_node \<times> nat) option" where
  "find_start g entity_type entity_id =
     (let label = the (map_of ALLOWED entity_type);
          key = (if entity_type \<in> {''genre'', ''style''} then gn_name else gn_id)
      in case find (\<lambda>n. gn_label n = label \<and> key n = Some entity_id) (gr_nodes g) of
           None \<Rightarrow> None
         | Some n \<Rightarrow>
             Some (\<lparr>en_eid = gn_eid n, en_label = label,
                    en_name = py_str (coalesce (gn_name n) (coalesce (gn_title n) (gn_id n))),
                    en_id = py_str (coalesce (gn_id n) (gn_name n)), en_nameless = False\<rparr>,
                   if gn_label n \<in> {''Genre'', ''Style'', ''Label''}
                   then (case gn_release_count n of None \<Rightarrow> 0 | Some k \<Rightarrow> k) else 0))"

text \<open>The codes of the relationship types, and back.\<close>

definition REL_BY_CODE :: "string list" where
  "REL_BY_CODE = [''ALIAS_OF'', ''BY'', ''DERIVED_FROM'', ''IS'', ''MEMBER_OF'', ''ON'']"

definition rel_code :: "string \<Rightarrow> nat" where
  "rel_code r =
     (if r = ''ALIAS_OF'' then 0 else if r = ''BY'' then 1 else if r = ''DERIVED_FROM'' then 2
      else if r = ''IS'' then 3 else if r = ''MEMBER_OF'' then 4 else 5)"

text \<open>\<open>_EXPAND_Q\<close>: an edge between two nodes, in either direction; one row for each neighbour.\<close>

definition joins :: "edge \<Rightarrow> string \<Rightarrow> string \<Rightarrow> bool" where
  "joins e f n \<longleftrightarrow> (fst e = f \<and> snd (snd e) = n) \<or> (fst e = n \<and> snd (snd e) = f)"

record expand_row =
  er_eid :: string
  er_label :: string
  er_name :: "string option"
  er_id :: "string option"
  er_nameless :: bool
  er_best :: nat

definition ways :: "graph \<Rightarrow> string list \<Rightarrow> string list \<Rightarrow> string \<Rightarrow> nat list" where
  "ways g frontier types n =
     concat (map (\<lambda>(i, f). map (\<lambda>e. i * 8 + rel_code (fst (snd e)))
                     (filter (\<lambda>e. fst (snd e) \<in> set types \<and> joins e f n) (gr_edges g)))
              (enumerate 0 frontier))"

definition expand_q :: "graph \<Rightarrow> string list \<Rightarrow> string list \<Rightarrow> expand_row list" where
  "expand_q g frontier types =
     concat (map (\<lambda>n. case ways g frontier types (gn_eid n) of
                        [] \<Rightarrow> []
                      | w # ws \<Rightarrow>
                          [\<lparr>er_eid = gn_eid n, er_label = gn_label n,
                            er_name = coalesce (gn_name n) (coalesce (gn_title n) (gn_id n)),
                            er_id = coalesce (gn_id n) (gn_name n), er_nameless = (gn_name n = None),
                            er_best = min_by (\<lambda>x. x) w ws\<rparr>])
              (gr_nodes g))"

definition expand :: "graph \<Rightarrow> explore_node list \<Rightarrow> string list \<Rightarrow> expand_row list" where
  "expand g frontier types = (if frontier = [] then [] else expand_q g (map en_eid frontier) types)"

text \<open>\<open>_POPULARITY_Q\<close>.\<close>

definition popularity :: "graph \<Rightarrow> string \<Rightarrow> nat" where
  "popularity g eid =
     (case find (\<lambda>n. gn_eid n = eid) (gr_nodes g) of
        None \<Rightarrow> 0
      | Some n \<Rightarrow>
          let degree = (\<lambda>rel. length (filter (\<lambda>(a, r, b). r = rel \<and> b = eid) (gr_edges g))) in
          if gn_label n = ''Label'' then (case gn_release_count n of None \<Rightarrow> degree ''ON'' | Some k \<Rightarrow> k)
          else degree ''BY'')"

section \<open>Breadth-first expansion\<close>

record bfs_state =
  bs_nodes :: "(string, explore_node) dict"
  bs_dist :: "(string, nat) dict"
  bs_parent :: "(string, string \<times> string) dict"

text \<open>
  \<open>_path\<close>: from a node up to one without a parent.  A climb cannot be longer than the number of
  parents, so that number is its fuel.
\<close>

fun climb :: "nat \<Rightarrow> (string, string \<times> string) dict \<Rightarrow> string \<Rightarrow> string list \<times> string list" where
  "climb 0 parent eid = ([eid], [])"
| "climb (Suc n) parent eid =
     (case map_of parent eid of
        None \<Rightarrow> ([eid], [])
      | Some (p, rel) \<Rightarrow> (case climb n parent p of (es, rs) \<Rightarrow> (es @ [eid], rs @ [rel])))"

definition name_of :: "bfs_state \<Rightarrow> string \<Rightarrow> string" where
  "name_of s eid = (case map_of (bs_nodes s) eid of None \<Rightarrow> [] | Some n \<Rightarrow> en_name n)"

definition path_of :: "bfs_state \<Rightarrow> string \<Rightarrow> string list \<times> string list" where
  "path_of s eid =
     (case climb (length (bs_parent s)) (bs_parent s) eid of (es, rs) \<Rightarrow> (map (name_of s) es, rs))"

definition path_names :: "bfs_state \<Rightarrow> string \<Rightarrow> string list" where
  "path_names s eid = fst (path_of s eid)"

definition node_of_row :: "expand_row \<Rightarrow> explore_node" where
  "node_of_row r =
     \<lparr>en_eid = er_eid r, en_label = er_label r, en_name = py_str (er_name r), en_id = py_str (er_id r),
      en_nameless = (er_nameless r \<and> er_label r = ''Artist'')\<rparr>"

text \<open>One row of an expansion, with the next frontier.\<close>

definition absorb :: "bool \<Rightarrow> nat \<Rightarrow> explore_node list \<Rightarrow> expand_row \<Rightarrow> bfs_state \<times> explore_node list
    \<Rightarrow> bfs_state \<times> explore_node list" where
  "absorb final depth members r st =
     (let (s, nxt) = st; eid = er_eid r;
          parent_eid = en_eid (members ! (er_best r div 8));
          rel = REL_BY_CODE ! (er_best r mod 8)
      in case map_of (bs_dist s) eid of
           None \<Rightarrow>
             if final \<and> er_label r \<notin> set ELIGIBLE then (s, nxt)
             else (\<lparr>bs_nodes = dict_set eid (node_of_row r) (bs_nodes s),
                    bs_dist = dict_set eid (depth + 1) (bs_dist s),
                    bs_parent = dict_set eid (parent_eid, rel) (bs_parent s)\<rparr>,
                   nxt @ [node_of_row r])
         | Some d \<Rightarrow>
             if d = depth + 1
                \<and> path_names s parent_eid < path_names s (fst (the (map_of (bs_parent s) eid)))
             then (s\<lparr>bs_parent := dict_set eid (parent_eid, rel) (bs_parent s)\<rparr>, nxt)
             else (s, nxt))"

definition bfs_batch :: "graph \<Rightarrow> bool \<Rightarrow> nat \<Rightarrow> bfs_state \<times> explore_node list \<Rightarrow> explore_node list \<times> string list
    \<Rightarrow> bfs_state \<times> explore_node list" where
  "bfs_batch g final depth st batch =
     (let (members, types) = batch in
      foldl (\<lambda>st r. absorb final depth members r st) st
        (sort_key (\<lambda>r. (py_str (er_name r), er_eid r)) (expand g members types)))"

definition bfs_batches :: "bool \<Rightarrow> explore_node list \<Rightarrow> (explore_node list \<times> string list) list" where
  "bfs_batches final frontier =
     (if final
      then [(filter (\<lambda>n. en_label n \<in> {''Release'', ''Master''}) frontier, LAST_HOP_FROM_RELEASE),
            (filter (\<lambda>n. en_label n = ''Artist'') frontier, LAST_HOP_FROM_ARTIST)]
      else [(frontier, EXPAND_ALL)])"

definition bfs_level :: "graph \<Rightarrow> nat \<Rightarrow> nat \<Rightarrow> bfs_state \<times> explore_node list \<Rightarrow> bfs_state \<times> explore_node list" where
  "bfs_level g hops depth st =
     (let (s, frontier) = st; final = (depth + 1 = hops);
          sorted = sort_key (\<lambda>n. (path_names s (en_eid n), en_eid n)) frontier
      in foldl (bfs_batch g final depth) (s, []) (bfs_batches final sorted))"

record discovery =
  di_eid :: string
  di_label :: string
  di_id :: string
  di_name :: string
  di_path_names :: "string list"
  di_rel_types :: "string list"
  di_dist :: nat
  di_placeholder :: bool

definition bfs_start :: "explore_node \<Rightarrow> bfs_state" where
  "bfs_start n = \<lparr>bs_nodes = [(en_eid n, n)], bs_dist = [(en_eid n, 0)], bs_parent = []\<rparr>"

definition bfs_run :: "graph \<Rightarrow> explore_node \<Rightarrow> nat \<Rightarrow> bfs_state \<times> explore_node list" where
  "bfs_run g n hops = foldl (\<lambda>st depth. bfs_level g hops depth st) (bfs_start n, [n]) [0..<hops]"

definition discovery_of :: "bfs_state \<Rightarrow> string \<times> nat \<Rightarrow> discovery" where
  "discovery_of s ed =
     (let (eid, d) = ed; n = the (map_of (bs_nodes s) eid); (names, rels) = path_of s eid
      in \<lparr>di_eid = eid, di_label = en_label n, di_id = en_id n, di_name = en_name n,
          di_path_names = names, di_rel_types = rels, di_dist = d, di_placeholder = en_nameless n\<rparr>)"

definition bfs :: "graph \<Rightarrow> explore_node \<Rightarrow> nat \<Rightarrow> discovery list" where
  "bfs g n hops =
     (let s = fst (bfs_run g n hops) in
      map (discovery_of s)
        (filter (\<lambda>(eid, d). eid \<noteq> en_eid n \<and> en_label (the (map_of (bs_nodes s) eid)) \<in> set ELIGIBLE) (bs_dist s)))"

section \<open>The selection\<close>

text \<open>Booleans sort as \<open>False < True\<close> and a popularity is negated; ties keep their order.\<close>

fun select_tiers :: "(string \<Rightarrow> nat) \<Rightarrow> discovery list \<Rightarrow> nat list \<Rightarrow> discovery list \<Rightarrow> discovery list" where
  "select_tiers pop al [] chosen = chosen"
| "select_tiers pop al (d # ds) chosen =
     (let tier = filter (\<lambda>x. di_dist x = d) al; room = int ARTIST_LABEL_LIMIT - int (length chosen) in
      if room \<le> 0 then chosen
      else if room < int (length tier)
           then select_tiers pop al ds
                  (chosen @ take (nat room) (sort_key (\<lambda>x. (di_placeholder x, - int (pop (di_eid x)), di_id x)) tier))
           else select_tiers pop al ds (chosen @ sort_key (\<lambda>x. (di_placeholder x, di_id x)) tier))"

record explore_row =
  xr_id :: string
  xr_name :: string
  xr_type :: string
  xr_path_names :: "string list"
  xr_rel_types :: "string list"
  xr_dist :: nat

definition explore_row :: "discovery \<Rightarrow> explore_row" where
  "explore_row d =
     \<lparr>xr_id = di_id d, xr_name = di_name d, xr_type = lower (di_label d), xr_path_names = di_path_names d,
      xr_rel_types = di_rel_types d, xr_dist = di_dist d\<rparr>"

definition chosen_artists_labels :: "(string \<Rightarrow> nat) \<Rightarrow> discovery list \<Rightarrow> discovery list" where
  "chosen_artists_labels pop discovered =
     (let al = filter (\<lambda>d. di_label d \<in> {''Artist'', ''Label''}) discovered
      in select_tiers pop al (sorted_list_of_set (set (map di_dist al))) [])"

definition explore_select :: "(string \<Rightarrow> nat) \<Rightarrow> discovery list \<Rightarrow> explore_row list" where
  "explore_select pop discovered =
     (let gs = filter (\<lambda>d. di_label d \<in> {''Genre'', ''Style''}) discovered;
          out = sort_key (\<lambda>d. (di_dist d, di_label d, di_name d)) gs @ chosen_artists_labels pop discovered
      in map explore_row (sort_key di_dist out))"

section \<open>The entry point\<close>

datatype explore_error = HubNotReady

definition get_explore_traversal :: "graph \<Rightarrow> (string \<Rightarrow> string \<Rightarrow> explore_row list option) \<Rightarrow> string \<Rightarrow> string \<Rightarrow> int
    \<Rightarrow> (explore_error, explore_row list) result" where
  "get_explore_traversal g hub_result entity_type entity_id hops0 =
     (let hops = (if \<not> (1 \<le> hops0 \<and> hops0 \<le> 3) then 2 else hops0) in
      if map_of ALLOWED entity_type = None then Inr []
      else case find_start g entity_type entity_id of
        None \<Rightarrow> Inr []
      | Some (n, releases) \<Rightarrow>
          if entity_type \<in> {''genre'', ''style'', ''label''} \<and> HUB_MIN_RELEASES \<le> releases
          then if hops = 1 then Inr []
               else (case hub_result entity_type entity_id of None \<Rightarrow> Inl HubNotReady | Some rows \<Rightarrow> Inr rows)
          else Inr (explore_select (popularity g) (bfs g n (nat hops))))"

end
