(* ===== verification/Explore_Properties.thy ===== *)
theory Explore_Properties
  imports Explore
begin

text \<open>
  Properties of the exploration: the expansion finds exactly the eligible nodes within reach, at
  their distance, each with the least of its shortest paths; and the selection is the first
  hundred of one total order.
\<close>

section \<open>Reference: distance and paths\<close>

definition adjacent :: "graph \<Rightarrow> string list \<Rightarrow> string \<Rightarrow> string \<Rightarrow> bool" where
  "adjacent g types x y \<longleftrightarrow> (\<exists>e \<in> set (gr_edges g). fst (snd e) \<in> set types \<and> joins e x y)"

text \<open>The nodes reached from \<open>s\<close> in at most \<open>d\<close> steps, and those at distance \<open>d\<close>.\<close>

fun ball :: "graph \<Rightarrow> string \<Rightarrow> nat \<Rightarrow> string set" where
  "ball g s 0 = {s}"
| "ball g s (Suc d) = ball g s d \<union> {y. \<exists>x \<in> ball g s d. adjacent g EXPAND_ALL x y}"

definition distance :: "graph \<Rightarrow> string \<Rightarrow> string \<Rightarrow> nat \<Rightarrow> bool" where
  "distance g s y d \<longleftrightarrow> y \<in> ball g s d \<and> (\<forall>j < d. y \<notin> ball g s j)"

text \<open>A walk: its nodes and the types of its steps.\<close>

inductive walk :: "graph \<Rightarrow> string \<Rightarrow> string list \<Rightarrow> string list \<Rightarrow> string \<Rightarrow> bool" for g s where
  walk_start: "walk g s [s] [] s"
| walk_step: "walk g s xs rs x \<Longrightarrow> rel \<in> set EXPAND_ALL \<Longrightarrow> adjacent g [rel] x y \<Longrightarrow> walk g s (xs @ [y]) (rs @ [rel]) y"

definition label_of :: "graph \<Rightarrow> string \<Rightarrow> string" where
  "label_of g y = (case find (\<lambda>n. gn_eid n = y) (gr_nodes g) of None \<Rightarrow> [] | Some n \<Rightarrow> gn_label n)"

definition shown_name :: "graph \<Rightarrow> string \<Rightarrow> string" where
  "shown_name g y =
     (case find (\<lambda>n. gn_eid n = y) (gr_nodes g) of
        None \<Rightarrow> [] | Some n \<Rightarrow> py_str (coalesce (gn_name n) (coalesce (gn_title n) (gn_id n))))"

definition graph_ok :: "graph \<Rightarrow> bool" where
  "graph_ok g \<longleftrightarrow> distinct (map gn_eid (gr_nodes g))
     \<and> (\<forall>(a, r, b) \<in> set (gr_edges g). a \<in> gn_eid ` set (gr_nodes g) \<and> b \<in> gn_eid ` set (gr_nodes g))"

text \<open>
  The schema the last hop relies on: an artist, label, genre or style is only joined to a release
  or master by \<open>BY\<close>, \<open>ON\<close> or \<open>IS\<close>, and to an artist by \<open>ALIAS_OF\<close> or \<open>MEMBER_OF\<close>.
\<close>

definition schema_ok :: "graph \<Rightarrow> bool" where
  "schema_ok g \<longleftrightarrow> (\<forall>x y. \<forall>e \<in> set (gr_edges g).
     fst (snd e) \<in> set EXPAND_ALL \<and> joins e x y \<and> label_of g y \<in> set ELIGIBLE \<longrightarrow>
       label_of g x \<in> {''Release'', ''Master''} \<and> fst (snd e) \<in> set LAST_HOP_FROM_RELEASE
       \<or> label_of g x = ''Artist'' \<and> fst (snd e) \<in> set LAST_HOP_FROM_ARTIST)"

lemma ball_mono: "d \<le> d' \<Longrightarrow> ball g s d \<subseteq> ball g s d'"
  by (induction d' rule: nat_induct_at_least) (auto intro: subset_trans elim: less_imp_le)

lemma distance_0: "distance g s y 0 \<longleftrightarrow> y = s"
  by (simp add: distance_def)

lemma distance_Suc:
  "distance g s y (Suc d) \<longleftrightarrow> y \<notin> ball g s d \<and> (\<exists>x. distance g s x d \<and> adjacent g EXPAND_ALL x y)"
proof
  assume y: "distance g s y (Suc d)"
  then have new: "y \<notin> ball g s d" by (simp add: distance_def)
  with y obtain x where x: "x \<in> ball g s d" "adjacent g EXPAND_ALL x y" by (auto simp: distance_def)
  have "x \<notin> ball g s j" if "j < d" for j
  proof
    assume "x \<in> ball g s j"
    then have "y \<in> ball g s (Suc j)" using x(2) by auto
    then show False using new ball_mono [of "Suc j" d g s] that by auto
  qed
  then show "y \<notin> ball g s d \<and> (\<exists>x. distance g s x d \<and> adjacent g EXPAND_ALL x y)"
    using new x by (auto simp: distance_def)
next
  assume r: "y \<notin> ball g s d \<and> (\<exists>x. distance g s x d \<and> adjacent g EXPAND_ALL x y)"
  then have "y \<in> ball g s (Suc d)" by (auto simp: distance_def)
  moreover have "y \<notin> ball g s j" if "j < Suc d" for j using r ball_mono [of j d g s] that by auto
  ultimately show "distance g s y (Suc d)" by (simp add: distance_def)
qed

lemma distance_unique: "distance g s y d \<Longrightarrow> distance g s y d' \<Longrightarrow> d = d'"
  unfolding distance_def by (meson linorder_neqE_nat)

lemma ball_distance: "y \<in> ball g s d \<longleftrightarrow> (\<exists>j \<le> d. distance g s y j)"
proof
  assume "y \<in> ball g s d"
  then have "distance g s y (LEAST j. y \<in> ball g s j)" "(LEAST j. y \<in> ball g s j) \<le> d"
    by (auto simp: distance_def intro: LeastI Least_le dest: not_less_Least)
  then show "\<exists>j \<le> d. distance g s y j" by blast
qed (auto simp: distance_def dest: ball_mono)

lemma walk_ball: "walk g s xs rs y \<Longrightarrow> length xs = Suc (length rs) \<and> y \<in> ball g s (length rs)"
  by (induction rule: walk.induct) (auto simp: adjacent_def)

section \<open>One expansion\<close>

lemma rel_code_inverse: "r \<in> set EXPAND_ALL \<Longrightarrow> REL_BY_CODE ! rel_code r = r \<and> rel_code r < 8"
  by (auto simp: EXPAND_ALL_def REL_BY_CODE_def rel_code_def)

lemma bex_nth: "(\<exists>x \<in> set xs. P x) \<longleftrightarrow> (\<exists>i < length xs. P (xs ! i))"
  by (metis in_set_conv_nth)

lemma mem_concat_map: "w \<in> set (concat (map F xs)) \<longleftrightarrow> (\<exists>p \<in> set xs. w \<in> set (F p))"
  by auto

lemma mem_map_filter: "w \<in> set (map h (filter P es)) \<longleftrightarrow> (\<exists>e \<in> set es. P e \<and> w = h e)"
  by auto

lemma ways_mem:
  "w \<in> set (ways g fr types n) \<longleftrightarrow>
     (\<exists>i < length fr. \<exists>e \<in> set (gr_edges g). fst (snd e) \<in> set types \<and> joins e (fr ! i) n \<and> w = i * 8 + rel_code (fst (snd e)))"
proof -
  have "w \<in> set (ways g fr types n) \<longleftrightarrow>
      (\<exists>p \<in> set (enumerate 0 fr). \<exists>e \<in> set (gr_edges g). fst (snd e) \<in> set types \<and> joins e (snd p) n
         \<and> w = fst p * 8 + rel_code (fst (snd e)))"
    unfolding ways_def case_prod_unfold mem_concat_map mem_map_filter by (simp only: conj_assoc)
  also have "\<dots> \<longleftrightarrow> (\<exists>i < length fr. \<exists>e \<in> set (gr_edges g). fst (snd e) \<in> set types \<and> joins e (fr ! i) n
         \<and> w = i * 8 + rel_code (fst (snd e)))"
    unfolding bex_nth [of "enumerate 0 fr"] by (simp add: nth_enumerate_eq cong: conj_cong)
  finally show ?thesis .
qed

lemma ways_empty: "ways g fr types n = [] \<longleftrightarrow> \<not> (\<exists>x \<in> set fr. adjacent g types x n)"
proof -
  have "ways g fr types n = [] \<longleftrightarrow> (\<forall>w. w \<notin> set (ways g fr types n))" by (metis all_not_in_conv set_empty)
  also have "\<dots> \<longleftrightarrow> \<not> (\<exists>x \<in> set fr. adjacent g types x n)"
    unfolding ways_mem adjacent_def bex_nth [of fr] by blast
  finally show ?thesis .
qed


definition row_of :: "graph_node \<Rightarrow> nat \<Rightarrow> expand_row" where
  "row_of n b =
     \<lparr>er_eid = gn_eid n, er_label = gn_label n, er_name = coalesce (gn_name n) (coalesce (gn_title n) (gn_id n)),
      er_id = coalesce (gn_id n) (gn_name n), er_nameless = (gn_name n = None), er_best = b\<rparr>"

definition step_rel :: "expand_row \<Rightarrow> string" where
  "step_rel r = REL_BY_CODE ! (er_best r mod 8)"

definition step_from :: "explore_node list \<Rightarrow> expand_row \<Rightarrow> string" where
  "step_from members r = en_eid (members ! (er_best r div 8))"

lemma expand_row:
  assumes "r \<in> set (expand g members types)" "set types \<subseteq> set EXPAND_ALL"
  obtains n i where "n \<in> set (gr_nodes g)" "r = row_of n (er_best r)" "i < length members" "er_best r div 8 = i"
    "step_rel r \<in> set types" "adjacent g [step_rel r] (step_from members r) (gn_eid n)"
    "\<And>j. j < length members \<Longrightarrow> adjacent g types (en_eid (members ! j)) (gn_eid n) \<Longrightarrow> i \<le> j"
proof -
  let ?fr = "map en_eid members"
  from assms(1) have "r \<in> set (expand_q g ?fr types)" by (auto simp: expand_def split: if_splits)
  then obtain n where n: "n \<in> set (gr_nodes g)"
    and r: "r \<in> set (case ways g ?fr types (gn_eid n) of [] \<Rightarrow> [] | w # ws \<Rightarrow> [row_of n (min_by (\<lambda>x. x) w ws)])"
    unfolding expand_q_def mem_concat_map row_of_def by blast
  then obtain w ws where w: "ways g ?fr types (gn_eid n) = w # ws" and rr: "r = row_of n (min_by (\<lambda>x. x) w ws)"
    using r by (cases "ways g ?fr types (gn_eid n)") simp_all
  have best: "er_best r = min_by (\<lambda>x. x) w ws" by (simp add: rr row_of_def)
  have "er_best r \<in> set (ways g ?fr types (gn_eid n))" using min_by_mem [of "\<lambda>x. x" w ws] by (simp add: w best)
  then obtain i e where i: "i < length ?fr" and e: "e \<in> set (gr_edges g)" "fst (snd e) \<in> set types" "joins e (?fr ! i) (gn_eid n)"
    and b: "er_best r = i * 8 + rel_code (fst (snd e))"
    unfolding ways_mem by blast
  have code: "REL_BY_CODE ! rel_code (fst (snd e)) = fst (snd e)" "rel_code (fst (snd e)) < 8"
    using rel_code_inverse [of "fst (snd e)"] e(2) assms(2) by auto
  have di: "er_best r div 8 = i" and mo: "er_best r mod 8 = rel_code (fst (snd e))" using b code(2) by simp_all
  have rel: "step_rel r = fst (snd e)" by (simp add: step_rel_def mo code)
  have "i \<le> j" if j: "j < length members" and adj: "adjacent g types (en_eid (members ! j)) (gn_eid n)" for j
  proof -
    obtain e' where e': "e' \<in> set (gr_edges g)" "fst (snd e') \<in> set types" "joins e' (?fr ! j) (gn_eid n)"
      using adj j by (auto simp: adjacent_def)
    then have "j * 8 + rel_code (fst (snd e')) \<in> set (w # ws)"
      unfolding w [symmetric] ways_mem
      by (intro exI [of _ j] conjI bexI [of _ e']) (use e' j in simp_all)
    then have "er_best r \<le> j * 8 + rel_code (fst (snd e'))" unfolding best by (rule min_by_le)
    moreover have "rel_code (fst (snd e')) < 8" using rel_code_inverse [of "fst (snd e')"] e'(2) assms(2) by auto
    ultimately show "i \<le> j" using b by linarith
  qed
  moreover have "adjacent g [step_rel r] (step_from members r) (gn_eid n)"
    unfolding adjacent_def step_from_def di using e i by (auto simp: rel)
  moreover have "r = row_of n (er_best r)" by (simp add: rr row_of_def)
  ultimately show thesis using that n i di rel e(2) by simp
qed

lemma expand_mem:
  assumes "n \<in> set (gr_nodes g)" "m \<in> set members" "adjacent g types (en_eid m) (gn_eid n)"
  obtains r where "r \<in> set (expand g members types)" "er_eid r = gn_eid n"
proof -
  let ?fr = "map en_eid members"
  have "ways g ?fr types (gn_eid n) \<noteq> []" unfolding ways_empty using assms(2,3) by auto
  then obtain w ws where w: "ways g ?fr types (gn_eid n) = w # ws" by (cases "ways g ?fr types (gn_eid n)") auto
  have "row_of n (min_by (\<lambda>x. x) w ws) \<in> set (expand_q g ?fr types)"
    unfolding expand_q_def mem_concat_map row_of_def by (rule bexI [OF _ assms(1)]) (simp add: w)
  moreover have "members \<noteq> []" using assms(2) by auto
  ultimately show thesis using that by (simp add: expand_def row_of_def)
qed

lemma node_unique:
  assumes "graph_ok g" "n \<in> set (gr_nodes g)"
  shows "find (\<lambda>m. gn_eid m = gn_eid n) (gr_nodes g) = Some n"
  using assms by (intro find_unique) (auto simp: graph_ok_def distinct_map inj_on_def)

lemma joins_node:
  assumes "graph_ok g" "adjacent g types x y"
  obtains n where "n \<in> set (gr_nodes g)" "gn_eid n = y"
proof -
  obtain e where e: "e \<in> set (gr_edges g)" "joins e x y" using assms(2) by (auto simp: adjacent_def)
  obtain a r b where abr: "e = (a, r, b)" by (cases e)
  then have "a \<in> gn_eid ` set (gr_nodes g)" "b \<in> gn_eid ` set (gr_nodes g)"
    using assms(1) e(1) by (auto simp: graph_ok_def)
  then show thesis using that e(2) by (auto simp: joins_def abr)
qed


section \<open>Climbing\<close>

text \<open>A parent table in which every step goes down one level, from \<open>s\<close> on level zero.\<close>

definition levelled :: "(string \<Rightarrow> nat option) \<Rightarrow> (string, string \<times> string) dict \<Rightarrow> string \<Rightarrow> bool" where
  "levelled dist parent s \<longleftrightarrow> dist s = Some 0 \<and> map_of parent s = None
     \<and> (\<forall>y d. dist y = Some d \<and> y \<noteq> s \<longrightarrow>
          0 < d \<and> (\<exists>p rel. map_of parent y = Some (p, rel) \<and> dist p = Some (d - 1)))"

lemma levelledD:
  assumes "levelled dist parent s" "dist y = Some d"
  shows "d = 0 \<longleftrightarrow> y = s"
    and "y \<noteq> s \<Longrightarrow> \<exists>p rel. map_of parent y = Some (p, rel) \<and> dist p = Some (d - 1)"
  using assms by (fastforce simp: levelled_def)+

lemma climb_step:
  assumes "map_of parent y = Some (p, rel)"
  shows "climb (Suc n) parent y = (fst (climb n parent p) @ [y], snd (climb n parent p) @ [rel])"
  using assms by (simp add: case_prod_unfold)

lemma climb_fuel:
  assumes "levelled dist parent s" "dist y = Some d" "d \<le> n"
  shows "climb n parent y = climb d parent y"
  using assms(2,3)
proof (induction d arbitrary: y n)
  case 0
  then have "y = s" using levelledD(1) [OF assms(1)] by blast
  then have "map_of parent y = None" using assms(1) by (simp add: levelled_def)
  then show ?case by (cases n) simp_all
next
  case (Suc d)
  then have "y \<noteq> s" using levelledD(1) [OF assms(1)] by blast
  then obtain p rel where p: "map_of parent y = Some (p, rel)" "dist p = Some d"
    using levelledD(2) [OF assms(1) Suc.prems(1)] by auto
  obtain m where n: "n = Suc m" "d \<le> m" using Suc.prems(2) by (cases n) auto
  show ?case unfolding n(1) climb_step [OF p(1)] Suc.IH [OF p(2) n(2)] by simp
qed

lemma climb_walk:
  assumes "levelled dist parent s" "dist y = Some d"
    and steps: "\<And>y p rel. dist y \<noteq> None \<Longrightarrow> map_of parent y = Some (p, rel) \<Longrightarrow> rel \<in> set EXPAND_ALL \<and> adjacent g [rel] p y"
  shows "walk g s (fst (climb d parent y)) (snd (climb d parent y)) y \<and> length (snd (climb d parent y)) = d"
  using assms(2)
proof (induction d arbitrary: y)
  case 0
  then have "y = s" using levelledD(1) [OF assms(1)] by blast
  then show ?case by (simp add: walk_start)
next
  case (Suc d)
  then have "y \<noteq> s" using levelledD(1) [OF assms(1)] by blast
  then obtain p rel where p: "map_of parent y = Some (p, rel)" "dist p = Some d"
    using levelledD(2) [OF assms(1) Suc.prems] by auto
  have "rel \<in> set EXPAND_ALL \<and> adjacent g [rel] p y" using steps [OF _ p(1)] Suc.prems by simp
  then show ?case using Suc.IH [OF p(2)] unfolding climb_step [OF p(1)] by (auto intro: walk_step)
qed

text \<open>The levels below a node are all inhabited, so the table has at least as many entries.\<close>

lemma levels_below:
  assumes "levelled dist parent s" "dist y = Some d" "0 < j" "j \<le> d"
  shows "\<exists>z. dist z = Some j \<and> z \<in> dom (map_of parent)"
  using assms(2,4)
proof (induction d arbitrary: y)
  case 0
  then show ?case using assms(3) by simp
next
  case (Suc d)
  then have "y \<noteq> s" using levelledD(1) [OF assms(1)] by blast
  then obtain p rel where p: "map_of parent y = Some (p, rel)" "dist p = Some d"
    using levelledD(2) [OF assms(1) Suc.prems(1)] by auto
  show ?case
  proof (cases "j = Suc d")
    case True
    then show ?thesis using p(1) Suc.prems(1) by blast
  next
    case False
    then show ?thesis using Suc.IH [OF p(2)] Suc.prems(2) by simp
  qed
qed

lemma level_le_fuel:
  assumes "levelled dist parent s" "dist y = Some d"
  shows "d \<le> length parent"
proof -
  let ?f = "\<lambda>z. case dist z of None \<Rightarrow> 0 | Some j \<Rightarrow> j"
  have "{1..d} \<subseteq> ?f ` dom (map_of parent)"
  proof
    fix j
    assume "j \<in> {1..d}"
    then obtain z where "dist z = Some j" "z \<in> dom (map_of parent)" using levels_below [OF assms, of j] by auto
    then show "j \<in> ?f ` dom (map_of parent)" by force
  qed
  then have "card {1..d} \<le> card (?f ` dom (map_of parent))" by (intro card_mono) (simp_all add: finite_dom_map_of)
  also have "\<dots> \<le> card (dom (map_of parent))" by (intro card_image_le) (simp add: finite_dom_map_of)
  also have "\<dots> \<le> length parent" using card_length [of "dict_keys parent"] by (simp add: dom_map_of_conv_image_fst)
  finally show ?thesis by simp
qed

lemma climb_cong:
  assumes "levelled dist parent s" "dist y = Some d"
    and "\<And>z j. dist z = Some j \<Longrightarrow> j \<le> d \<Longrightarrow> map_of parent' z = map_of parent z"
  shows "climb d parent' y = climb d parent y"
  using assms(2,3)
proof (induction d arbitrary: y)
  case (Suc d)
  then have "y \<noteq> s" using levelledD(1) [OF assms(1)] by blast
  then obtain p rel where p: "map_of parent y = Some (p, rel)" "dist p = Some d"
    using levelledD(2) [OF assms(1) Suc.prems(1)] by auto
  have "map_of parent' y = Some (p, rel)" using Suc.prems p(1) by auto
  moreover have "climb d parent' p = climb d parent p" using Suc.IH [OF p(2)] Suc.prems(2) by simp
  ultimately show ?case using p(1) by (simp only: climb_step)
qed simp


section \<open>One level\<close>

abbreviation dst :: "bfs_state \<Rightarrow> string \<Rightarrow> nat option" where "dst s \<equiv> map_of (bs_dist s)"
abbreviation par :: "bfs_state \<Rightarrow> string \<Rightarrow> (string \<times> string) option" where "par s \<equiv> map_of (bs_parent s)"
abbreviation nds :: "bfs_state \<Rightarrow> string \<Rightarrow> explore_node option" where "nds s \<equiv> map_of (bs_nodes s)"

definition node_ok :: "graph \<Rightarrow> explore_node \<Rightarrow> bool" where
  "node_ok g n \<longleftrightarrow> en_label n = label_of g (en_eid n) \<and> en_name n = shown_name g (en_eid n)"

definition named :: "graph \<Rightarrow> bfs_state \<Rightarrow> bool" where
  "named g s \<longleftrightarrow> (\<forall>y. dst s y \<noteq> None \<longrightarrow> (\<exists>n. nds s y = Some n \<and> en_eid n = y \<and> node_ok g n))"

lemma named_name: "named g s \<Longrightarrow> dst s y \<noteq> None \<Longrightarrow> name_of s y = shown_name g y"
  by (fastforce simp: named_def name_of_def node_ok_def)

lemma climb_names:
  assumes "levelled (dst s) (bs_parent s) a" "named g s" "dst s y = Some d"
  shows "map (name_of s) (fst (climb d (bs_parent s) y)) = map (shown_name g) (fst (climb d (bs_parent s) y))"
  using assms(3)
proof (induction d arbitrary: y)
  case 0
  then show ?case using named_name [OF assms(2)] by simp
next
  case (Suc d)
  then have "y \<noteq> a" using levelledD(1) [OF assms(1)] by blast
  then obtain p rel where p: "par s y = Some (p, rel)" "dst s p = Some d"
    using levelledD(2) [OF assms(1) Suc.prems] by auto
  show ?case using Suc.IH [OF p(2)] named_name [OF assms(2)] Suc.prems unfolding climb_step [OF p(1)] by simp
qed

lemma path_of_eq:
  assumes "levelled (dst s) (bs_parent s) a" "named g s" "dst s y = Some d"
  shows "path_of s y = (map (shown_name g) (fst (climb d (bs_parent s) y)), snd (climb d (bs_parent s) y))"
  using climb_names [OF assms] climb_fuel [OF assms(1,3) level_le_fuel [OF assms(1,3)]]
  by (simp add: path_of_def case_prod_unfold)

text \<open>
  In the middle of a level: what was there is kept; a new node is in at the next distance if some
  offer of it was taken in, under the parent whose path is least among the offers.
\<close>

type_synonym offer = "string \<times> string \<times> expand_row"

definition offered :: "offer set \<Rightarrow> bool \<Rightarrow> string \<Rightarrow> bool" where
  "offered ofs final y \<longleftrightarrow> (\<exists>(q, rel, r) \<in> ofs. er_eid r = y \<and> (final \<longrightarrow> er_label r \<in> set ELIGIBLE))"

definition best_offer :: "bfs_state \<Rightarrow> offer set \<Rightarrow> string \<Rightarrow> string \<Rightarrow> string \<Rightarrow> bool" where
  "best_offer s0 ofs y q rel \<longleftrightarrow> (\<exists>r. (q, rel, r) \<in> ofs \<and> er_eid r = y)
     \<and> (\<forall>(q', rel', r') \<in> ofs. er_eid r' = y \<longrightarrow> path_names s0 q \<le> path_names s0 q')"

definition mid_level :: "graph \<Rightarrow> bfs_state \<Rightarrow> nat \<Rightarrow> bool \<Rightarrow> offer set \<Rightarrow> bfs_state \<times> explore_node list \<Rightarrow> bool" where
  "mid_level g s0 k final ofs st \<longleftrightarrow>
     (let (s, nxt) = st in
      (\<forall>y. dst s0 y \<noteq> None \<longrightarrow> dst s y = dst s0 y \<and> par s y = par s0 y \<and> nds s y = nds s0 y)
      \<and> (\<forall>y. dst s0 y = None \<longrightarrow> dst s y = (if offered ofs final y then Some (Suc k) else None))
      \<and> (\<forall>y. dst s0 y = None \<and> dst s y = None \<longrightarrow> par s y = None)
      \<and> (\<forall>y. dst s0 y = None \<and> dst s y \<noteq> None \<longrightarrow> (\<exists>q rel. par s y = Some (q, rel) \<and> best_offer s0 ofs y q rel))
      \<and> named g s \<and> dict_wf (bs_dist s)
      \<and> distinct (map en_eid nxt) \<and> (\<forall>n \<in> set nxt. node_ok g n)
      \<and> set (map en_eid nxt) = {y. dst s0 y = None \<and> dst s y \<noteq> None})"

text \<open>What an offer may be: from a node of the frontier, one row of a node of the graph.\<close>

definition offer_ok :: "graph \<Rightarrow> bfs_state \<Rightarrow> nat \<Rightarrow> offer \<Rightarrow> bool" where
  "offer_ok g s0 k = (\<lambda>(q, rel, r). dst s0 q = Some k \<and> rel \<in> set EXPAND_ALL \<and> adjacent g [rel] q (er_eid r)
     \<and> node_ok g (node_of_row r) \<and> er_label r = label_of g (er_eid r))"

lemma node_of_row_eid [simp]: "en_eid (node_of_row r) = er_eid r"
  by (simp add: node_of_row_def)

lemma mid_levelled:
  assumes lev: "levelled (dst s0) (bs_parent s0) a" and mid: "mid_level g s0 k final ofs (s, nxt)"
    and ok: "\<forall>z \<in> ofs. offer_ok g s0 k z"
  shows "levelled (dst s) (bs_parent s) a"
  unfolding levelled_def
proof (intro conjI allI impI)
  have a: "dst s0 a = Some 0" "par s0 a = None" using lev by (simp_all add: levelled_def)
  then show "dst s a = Some 0" "par s a = None" using mid by (simp_all add: mid_level_def)
  fix y d
  assume y: "dst s y = Some d \<and> y \<noteq> a"
  show "0 < d" and "\<exists>p rel. par s y = Some (p, rel) \<and> dst s p = Some (d - 1)"
  proof -
    have "0 < d \<and> (\<exists>p rel. par s y = Some (p, rel) \<and> dst s p = Some (d - 1))"
    proof (cases "dst s0 y")
      case None
      then have "d = Suc k" using y mid by (auto simp: mid_level_def split: if_splits)
      moreover obtain q rel where q: "par s y = Some (q, rel)" "best_offer s0 ofs y q rel"
        using mid y None unfolding mid_level_def by auto
      moreover have "dst s0 q = Some k" using q(2) ok by (fastforce simp: best_offer_def offer_ok_def)
      moreover from this have "dst s q = Some k" using mid by (simp add: mid_level_def)
      ultimately show ?thesis by auto
    next
      case (Some d0)
      then have same: "dst s y = Some d0" "par s y = par s0 y" using mid by (simp_all add: mid_level_def)
      then have d0: "d0 = d" using y by simp
      from lev Some y obtain p rel where p: "0 < d0" "par s0 y = Some (p, rel)" "dst s0 p = Some (d0 - 1)"
        unfolding levelled_def by blast
      moreover have "dst s p = dst s0 p" using p(3) mid by (simp add: mid_level_def)
      ultimately show ?thesis using same d0 by simp
    qed
    then show "0 < d" "\<exists>p rel. par s y = Some (p, rel) \<and> dst s p = Some (d - 1)" by blast+
  qed
qed


lemma mid_path:
  assumes lev: "levelled (dst s0) (bs_parent s0) a" and nam: "named g s0"
    and mid: "mid_level g s0 k final ofs (s, nxt)" and ok: "\<forall>z \<in> ofs. offer_ok g s0 k z"
    and q: "dst s0 q = Some k"
  shows "path_names s q = path_names s0 q"
proof -
  have lev': "levelled (dst s) (bs_parent s) a" by (rule mid_levelled [OF lev mid ok])
  have nam': "named g s" and q': "dst s q = Some k"
    using mid q by (simp_all add: mid_level_def)
  have same: "climb k (bs_parent s) q = climb k (bs_parent s0) q"
    by (rule climb_cong [OF lev q]) (use mid in \<open>simp add: mid_level_def\<close>)
  show ?thesis
    by (simp add: path_names_def path_of_eq [OF lev' nam' q'] path_of_eq [OF lev nam q] same)
qed

lemma offered_insert:
  "offered (insert (q, rel, r) ofs) final y \<longleftrightarrow>
     offered ofs final y \<or> er_eid r = y \<and> (final \<longrightarrow> er_label r \<in> set ELIGIBLE)"
  by (auto simp: offered_def)

lemma best_offer_insert_other:
  "er_eid r \<noteq> y \<Longrightarrow> best_offer s0 (insert (q, rel, r) ofs) y p rel' \<longleftrightarrow> best_offer s0 ofs y p rel'"
  by (auto simp: best_offer_def)

lemma mid_levelI:
  assumes "\<And>y. dst s0 y \<noteq> None \<Longrightarrow> dst s y = dst s0 y \<and> par s y = par s0 y \<and> nds s y = nds s0 y"
    and "\<And>y. dst s0 y = None \<Longrightarrow> dst s y = (if offered ofs final y then Some (Suc k) else None)"
    and "\<And>y. dst s0 y = None \<Longrightarrow> dst s y = None \<Longrightarrow> par s y = None"
    and "\<And>y. dst s0 y = None \<Longrightarrow> dst s y \<noteq> None \<Longrightarrow> \<exists>q rel. par s y = Some (q, rel) \<and> best_offer s0 ofs y q rel"
    and "named g s" and "dict_wf (bs_dist s)"
    and "distinct (map en_eid nxt) \<and> (\<forall>n \<in> set nxt. node_ok g n) \<and> set (map en_eid nxt) = {y. dst s0 y = None \<and> dst s y \<noteq> None}"
  shows "mid_level g s0 k final ofs (s, nxt)"
  unfolding mid_level_def Let_def split using assms by blast

lemma mid_absorb:
  assumes lev: "levelled (dst s0) (bs_parent s0) a" and nam: "named g s0"
    and lt: "\<forall>y d. dst s0 y = Some d \<longrightarrow> d \<le> k"
    and mid: "mid_level g s0 k final ofs (s, nxt)" and ok: "\<forall>z \<in> ofs. offer_ok g s0 k z"
    and new: "offer_ok g s0 k (step_from members r, step_rel r, r)"
  shows "mid_level g s0 k final (insert (step_from members r, step_rel r, r) ofs) (absorb final k members r (s, nxt))"
proof -
  let ?q = "step_from members r" and ?rel = "step_rel r" and ?y = "er_eid r"
  let ?ofs = "insert (?q, ?rel, r) ofs"
  have q: "dst s0 ?q = Some k" and nok: "node_ok g (node_of_row r)" and lab: "er_label r = label_of g ?y"
    using new by (simp_all add: offer_ok_def)
  have labels: "er_label r' = er_label r" if "(q', rel', r') \<in> ofs" "er_eid r' = ?y" for q' rel' r'
    using ok that lab by (fastforce simp: offer_ok_def)
  note m = mid [unfolded mid_level_def Let_def split]
  have old: "dst s0 y \<noteq> None \<Longrightarrow> dst s y = dst s0 y \<and> par s y = par s0 y \<and> nds s y = nds s0 y"
    and fresh: "dst s0 y = None \<Longrightarrow> dst s y = (if offered ofs final y then Some (Suc k) else None)"
    and orphan: "dst s0 y = None \<Longrightarrow> dst s y = None \<Longrightarrow> par s y = None"
    and best: "dst s0 y = None \<Longrightarrow> dst s y \<noteq> None \<Longrightarrow> \<exists>q rel. par s y = Some (q, rel) \<and> best_offer s0 ofs y q rel" for y
    using m by blast+
  have rest: "named g s" "dict_wf (bs_dist s)" "distinct (map en_eid nxt)" "\<forall>n \<in> set nxt. node_ok g n"
    "set (map en_eid nxt) = {y. dst s0 y = None \<and> dst s y \<noteq> None}" using m by blast+
  show ?thesis
  proof (cases "dst s ?y")
    case None
    then have y0: "dst s0 ?y = None" using old [of ?y] by (cases "dst s0 ?y") auto
    then have noff: "\<not> offered ofs final ?y" using fresh [of ?y] None by (auto split: if_splits)
    show ?thesis
    proof (cases "final \<and> er_label r \<notin> set ELIGIBLE")
      case True
      then have st: "absorb final k members r (s, nxt) = (s, nxt)" using None by (simp add: absorb_def Let_def)
      have off: "offered ?ofs final y = offered ofs final y" for y using True by (auto simp: offered_insert)
      have b2: "\<exists>q rel. par s y = Some (q, rel) \<and> best_offer s0 ?ofs y q rel" if "dst s0 y = None" "dst s y \<noteq> None" for y
      proof -
        have "?y \<noteq> y" using that None by auto
        then show ?thesis using best [OF that] by (simp add: best_offer_insert_other)
      qed
      then show ?thesis unfolding st mid_level_def Let_def split off
        using old fresh orphan b2 rest by blast
    next
      case False
      let ?s = "\<lparr>bs_nodes = dict_set ?y (node_of_row r) (bs_nodes s), bs_dist = dict_set ?y (k + 1) (bs_dist s),
                 bs_parent = dict_set ?y (?q, ?rel) (bs_parent s)\<rparr>"
      have st: "absorb final k members r (s, nxt) = (?s, nxt @ [node_of_row r])"
        using None False by (simp add: absorb_def Let_def step_from_def step_rel_def)
      have none: "er_eid r' \<noteq> ?y" if "(q', rel', r') \<in> ofs" for q' rel' r'
        using noff False labels that unfolding offered_def by fastforce
      have b: "best_offer s0 ?ofs ?y ?q ?rel" using none by (auto simp: best_offer_def)
      have "named g ?s" using rest(1) nok unfolding named_def by auto
      moreover have "?y \<notin> set (map en_eid nxt)" using rest(5) None by auto
      ultimately show ?thesis unfolding st
      proof (intro mid_levelI, goal_cases)
        case (1 y)
        then show ?case using old [of y] y0 by auto
      next
        case (2 y)
        then show ?case using fresh [of y] False by (auto simp: offered_insert)
      next
        case (3 y)
        then show ?case using orphan [of y] by (auto split: if_splits)
      next
        case (4 y)
        then show ?case
        proof (cases "y = ?y")
          case False
          then show ?thesis using 4 best [of y] by (simp add: best_offer_insert_other)
        qed (use b in auto)
      next
        case 7
        then show ?case using rest(3-5) nok y0 by (auto simp del: map_of_eq_None_iff)
      qed (use rest(2) in simp_all)
    qed
  next
    case (Some d)
    show ?thesis
    proof (cases "dst s0 ?y")
      case (Some d0)
      then have "d = d0" "d0 \<le> k" using old [of ?y] \<open>dst s ?y = Some d\<close> lt by auto
      then have st: "absorb final k members r (s, nxt) = (s, nxt)" using \<open>dst s ?y = Some d\<close> by (simp add: absorb_def Let_def)
      have other: "y \<noteq> ?y" if "dst s0 y = None" for y using that Some by auto
      show ?thesis unfolding st
      proof (intro mid_levelI, goal_cases)
        case (2 y)
        then show ?case using fresh [of y] other [of y] by (auto simp: offered_insert)
      next
        case (4 y)
        then show ?case using best [of y] other [of y] by (auto simp: best_offer_insert_other)
      qed (use old orphan rest in blast)+
    next
      case y0: None
      then have off: "offered ofs final ?y" and d: "d = Suc k" using fresh [of ?y] Some by (auto split: if_splits)
      then have elig: "final \<longrightarrow> er_label r \<in> set ELIGIBLE" using labels unfolding offered_def by fastforce
      obtain p prel where p: "par s ?y = Some (p, prel)" "best_offer s0 ofs ?y p prel" using best [OF y0] Some by auto
      then have p0: "dst s0 p = Some k" using ok by (fastforce simp: best_offer_def offer_ok_def)
      have paths: "path_names s ?q = path_names s0 ?q" "path_names s p = path_names s0 p"
        by (rule mid_path [OF lev nam mid ok q], rule mid_path [OF lev nam mid ok p0])
      have off': "offered ?ofs final y = offered ofs final y" for y using off elig by (auto simp: offered_insert)
      show ?thesis
      proof (cases "path_names s0 ?q < path_names s0 p")
        case True
        let ?s = "s\<lparr>bs_parent := dict_set ?y (?q, ?rel) (bs_parent s)\<rparr>"
        have st: "absorb final k members r (s, nxt) = (?s, nxt)"
          using Some d p True paths by (simp add: absorb_def Let_def step_from_def step_rel_def)
        have b: "best_offer s0 ?ofs ?y ?q ?rel" using p(2) True unfolding best_offer_def by fastforce
        show ?thesis unfolding st
        proof (intro mid_levelI, goal_cases)
          case (1 y)
          then show ?case using old [of y] y0 by auto
        next
          case (2 y)
          then show ?case using fresh [of y] off' by simp
        next
          case (3 y)
          then show ?case using orphan [of y] Some by (auto split: if_splits)
        next
          case (4 y)
          then show ?case
          proof (cases "y = ?y")
            case False
            then show ?thesis using 4 best [of y] by (simp add: best_offer_insert_other)
          qed (use b in auto)
        qed (use rest in \<open>simp_all add: named_def\<close>)
      next
        case False
        have st: "absorb final k members r (s, nxt) = (s, nxt)"
          using Some d p False paths by (simp add: absorb_def Let_def step_from_def step_rel_def)
        have b: "best_offer s0 ?ofs ?y p prel" using p(2) False unfolding best_offer_def by fastforce
        have b2: "\<exists>q rel. par s y = Some (q, rel) \<and> best_offer s0 ?ofs y q rel" if "dst s0 y = None" "dst s y \<noteq> None" for y
          using best [OF that] b p(1) by (cases "y = ?y") (auto simp: best_offer_insert_other)
        show ?thesis unfolding st mid_level_def Let_def split off'
          using old fresh orphan b2 rest by blast
      qed
    qed
  qed
qed


text \<open>A level is one batch, or at the last hop two; its offers are the rows of its batches.\<close>

definition batch_offers :: "graph \<Rightarrow> explore_node list \<times> string list \<Rightarrow> offer set" where
  "batch_offers g b =
     (\<lambda>r. (step_from (fst b) r, step_rel r, r)) ` set (expand g (fst b) (snd b))"

lemma batch_offer_ok:
  assumes "graph_ok g" "set (snd b) \<subseteq> set EXPAND_ALL"
    and "\<forall>n \<in> set (fst b). dst s0 (en_eid n) = Some k"
    and "z \<in> batch_offers g b"
  shows "offer_ok g s0 k z"
proof -
  obtain r where z: "z = (step_from (fst b) r, step_rel r, r)" and r: "r \<in> set (expand g (fst b) (snd b))"
    using assms(4) by (auto simp: batch_offers_def)
  obtain n i where n: "n \<in> set (gr_nodes g)" "r = row_of n (er_best r)" "i < length (fst b)" "er_best r div 8 = i"
    "step_rel r \<in> set (snd b)" "adjacent g [step_rel r] (step_from (fst b) r) (gn_eid n)"
    by (rule expand_row [OF r assms(2)])
  have eid: "er_eid r = gn_eid n" and lab: "er_label r = gn_label n"
    and nam: "er_name r = coalesce (gn_name n) (coalesce (gn_title n) (gn_id n))"
    by (subst n(2), simp add: row_of_def)+
  note u = node_unique [OF assms(1) n(1)]
  have "dst s0 (step_from (fst b) r) = Some k" using assms(3) n(3,4) by (simp add: step_from_def)
  moreover have "node_ok g (node_of_row r)"
    using u by (simp add: node_ok_def node_of_row_def label_of_def shown_name_def eid lab nam)
  moreover have "er_label r = label_of g (er_eid r)" using u by (simp add: label_of_def eid lab)
  ultimately show ?thesis using n(5,6) assms(2) by (auto simp: offer_ok_def z eid)
qed

lemma mid_batch:
  assumes "levelled (dst s0) (bs_parent s0) a" "named g s0" "\<forall>y d. dst s0 y = Some d \<longrightarrow> d \<le> k"
    and "mid_level g s0 k final ofs st" "\<forall>z \<in> ofs. offer_ok g s0 k z"
    and "\<forall>z \<in> batch_offers g b. offer_ok g s0 k z"
  shows "mid_level g s0 k final (ofs \<union> batch_offers g b) (bfs_batch g final k st b)"
proof -
  have "mid_level g s0 k final (ofs' \<union> (\<lambda>r. (step_from members r, step_rel r, r)) ` set rs) (foldl (\<lambda>st r. absorb final k members r st) st' rs)"
    if "mid_level g s0 k final ofs' st'" "\<forall>z \<in> ofs'. offer_ok g s0 k z"
      "\<forall>r \<in> set rs. offer_ok g s0 k (step_from members r, step_rel r, r)" for ofs' st' rs members
    using that
  proof (induction rs arbitrary: ofs' st')
    case (Cons r rs)
    let ?o = "(step_from members r, step_rel r, r)"
    obtain s nxt where st': "st' = (s, nxt)" by (cases st')
    have "mid_level g s0 k final (insert ?o ofs') (absorb final k members r st')"
      unfolding st' by (rule mid_absorb [OF assms(1-3)]) (use Cons.prems st' in auto)
    from Cons.IH [OF this] Cons.prems show ?case by simp
  qed simp
  from this [OF assms(4,5), of "sort_key (\<lambda>r. (py_str (er_name r), er_eid r)) (expand g (fst b) (snd b))" "fst b"] assms(6)
  show ?thesis by (simp add: bfs_batch_def batch_offers_def case_prod_unfold Let_def)
qed

text \<open>
  The invariant between levels: at depth \<open>k\<close> the table holds the nodes at distance at most \<open>k\<close>
  (after the last level, at distance \<open>k\<close> only the eligible ones), with steps that are edges and
  with paths that no walk of that length beats.
\<close>

definition level_inv :: "graph \<Rightarrow> string \<Rightarrow> nat \<Rightarrow> bool \<Rightarrow> bfs_state \<times> explore_node list \<Rightarrow> bool" where
  "level_inv g a k final st \<longleftrightarrow>
     (let (s, fr) = st in
      (\<forall>y d. dst s y = Some d \<longleftrightarrow>
         d \<le> k \<and> distance g a y d \<and> (final \<and> d = k \<and> 0 < k \<longrightarrow> label_of g y \<in> set ELIGIBLE))
      \<and> levelled (dst s) (bs_parent s) a \<and> named g s \<and> dict_wf (bs_dist s)
      \<and> (\<forall>y. dst s y = None \<longrightarrow> par s y = None)
      \<and> (\<forall>y p rel. dst s y \<noteq> None \<and> par s y = Some (p, rel) \<longrightarrow> rel \<in> set EXPAND_ALL \<and> adjacent g [rel] p y)
      \<and> (\<forall>y d xs rs. dst s y = Some d \<and> walk g a xs rs y \<and> length rs = d \<longrightarrow>
           path_names s y \<le> map (shown_name g) xs)
      \<and> distinct (map en_eid fr) \<and> (\<forall>n \<in> set fr. node_ok g n)
      \<and> set (map en_eid fr) = {y. dst s y = Some k})"

lemma append_le:
  fixes a b :: "'a::linorder list"
  shows "length a = length b \<Longrightarrow> a \<le> b \<Longrightarrow> a @ zs \<le> b @ zs"
  by (induction a b rule: list_induct2) auto

lemma walk_snoc:
  assumes "walk g a xs rs y" "length rs = Suc d"
  obtains xs' rs' x rel where "xs = xs' @ [y]" "rs = rs' @ [rel]" "walk g a xs' rs' x" "length rs' = d"
    "rel \<in> set EXPAND_ALL" "adjacent g [rel] x y"
  using assms by (cases rule: walk.cases) auto

lemma path_names_snoc:
  assumes "levelled (dst s) (bs_parent s) a" "named g s" "dst s y = Some d" "y \<noteq> a" "par s y = Some (p, rel)"
  shows "path_names s y = path_names s p @ [shown_name g y]"
proof -
  obtain d' where d: "d = Suc d'" using levelledD(1) [OF assms(1,3)] assms(4) by (cases d) auto
  have p: "dst s p = Some d'" using levelledD(2) [OF assms(1,3,4)] assms(5) d by auto
  show ?thesis
    by (simp add: path_names_def path_of_eq [OF assms(1-3)] path_of_eq [OF assms(1,2) p] d climb_step [OF assms(5)] del: climb.simps)
qed

lemma path_names_length:
  assumes "levelled (dst s) (bs_parent s) a" "named g s" "dst s y = Some d"
    and steps: "\<forall>y p rel. dst s y \<noteq> None \<and> par s y = Some (p, rel) \<longrightarrow> rel \<in> set EXPAND_ALL \<and> adjacent g [rel] p y"
  shows "length (path_names s y) = Suc d"
proof -
  have "walk g a (fst (climb d (bs_parent s) y)) (snd (climb d (bs_parent s) y)) y \<and> length (snd (climb d (bs_parent s) y)) = d"
    by (rule climb_walk [OF assms(1,3)]) (use steps in blast)
  then have "length (fst (climb d (bs_parent s) y)) = Suc d" using walk_ball by metis
  then show ?thesis by (simp add: path_names_def path_of_eq [OF assms(1-3)])
qed

lemma batch_offers_reach:
  assumes "graph_ok g" "set types \<subseteq> set EXPAND_ALL"
    and "sorted (map (\<lambda>n. (path_names s (en_eid n), en_eid n)) members)"
    and "m \<in> set members" "adjacent g types (en_eid m) y"
  shows "\<exists>(q, rel, r) \<in> batch_offers g (members, types). er_eid r = y \<and> path_names s q \<le> path_names s (en_eid m)"
proof -
  obtain n where n: "n \<in> set (gr_nodes g)" "gn_eid n = y" by (rule joins_node [OF assms(1,5)])
  have adj: "adjacent g types (en_eid m) (gn_eid n)" using assms(5) n(2) by simp
  obtain r where r: "r \<in> set (expand g members types)" "er_eid r = gn_eid n"
    by (rule expand_mem [OF n(1) assms(4) adj])
  obtain n' i where n': "r = row_of n' (er_best r)" "i < length members" "er_best r div 8 = i"
    and least: "\<And>j. j < length members \<Longrightarrow> adjacent g types (en_eid (members ! j)) (gn_eid n') \<Longrightarrow> i \<le> j"
    by (rule expand_row [OF r(1) assms(2)]) blast
  have "gn_eid n' = gn_eid n" using r(2) by (subst (asm) n'(1)) (simp add: row_of_def)
  obtain j where j: "j < length members" "members ! j = m" using assms(4) by (meson in_set_conv_nth)
  have "i \<le> j" using least [OF j(1)] j(2) adj \<open>gn_eid n' = gn_eid n\<close> by simp
  then have "(path_names s (en_eid (members ! i)), en_eid (members ! i)) \<le> (path_names s (en_eid m), en_eid m)"
    using sorted_nth_mono [OF assms(3), of i j] j by simp
  then have "path_names s (step_from members r) \<le> path_names s (en_eid m)"
    using n'(3) by (auto simp: step_from_def less_eq_prod_def)
  moreover have "(step_from members r, step_rel r, r) \<in> batch_offers g (members, types)"
    using r(1) by (auto simp: batch_offers_def)
  ultimately show ?thesis using r(2) n(2) by (intro bexI [of _ "(step_from members r, step_rel r, r)"]) simp_all
qed

text \<open>A level from any set of offers that misses nothing the next distance needs.\<close>

definition offers_reach :: "graph \<Rightarrow> bfs_state \<Rightarrow> nat \<Rightarrow> bool \<Rightarrow> offer set \<Rightarrow> bool" where
  "offers_reach g s k final ofs \<longleftrightarrow> (\<forall>x y. dst s x = Some k \<and> adjacent g EXPAND_ALL x y
     \<and> (final \<longrightarrow> label_of g y \<in> set ELIGIBLE) \<longrightarrow>
     (\<exists>(q, rel, r) \<in> ofs. er_eid r = y \<and> path_names s q \<le> path_names s x))"

lemma adjacent_mono: "adjacent g ts x y \<Longrightarrow> set ts \<subseteq> set us \<Longrightarrow> adjacent g us x y"
  by (auto simp: adjacent_def)

lemma level_dist:
  assumes inv: "level_inv g a k False (s, fr)" and mid: "mid_level g s k final ofs (s', nxt)"
    and ok: "\<forall>z \<in> ofs. offer_ok g s k z" and reach: "offers_reach g s k final ofs"
  shows "dst s' y = Some d \<longleftrightarrow>
         d \<le> Suc k \<and> distance g a y d \<and> (final \<and> d = Suc k \<and> 0 < Suc k \<longrightarrow> label_of g y \<in> set ELIGIBLE)"
proof -
  have old: "dst s y = Some d \<longleftrightarrow> d \<le> k \<and> distance g a y d" for y d using inv by (simp add: level_inv_def)
  have off: "offered ofs final y \<longleftrightarrow> distance g a y (Suc k) \<and> (final \<longrightarrow> label_of g y \<in> set ELIGIBLE)" if none: "dst s y = None"
  proof
    assume "offered ofs final y"
    then obtain q rel r where z: "(q, rel, r) \<in> ofs" "er_eid r = y" "final \<longrightarrow> er_label r \<in> set ELIGIBLE"
      by (auto simp: offered_def)
    then have q: "dst s q = Some k" "rel \<in> set EXPAND_ALL" "adjacent g [rel] q y" "er_label r = label_of g y"
      using ok by (fastforce simp: offer_ok_def)+
    have "adjacent g EXPAND_ALL q y" by (rule adjacent_mono [OF q(3)]) (use q(2) in simp)
    moreover have "y \<notin> ball g a k" unfolding ball_distance using none old by (metis option.distinct(1))
    ultimately show "distance g a y (Suc k) \<and> (final \<longrightarrow> label_of g y \<in> set ELIGIBLE)"
      unfolding distance_Suc using q(1,4) z(3) old by metis
  next
    assume r: "distance g a y (Suc k) \<and> (final \<longrightarrow> label_of g y \<in> set ELIGIBLE)"
    then obtain x where "dst s x = Some k" "adjacent g EXPAND_ALL x y" unfolding distance_Suc using old by auto
    then obtain q rel r' where z: "(q, rel, r') \<in> ofs" "er_eid r' = y" using reach r unfolding offers_reach_def by blast
    moreover have "er_label r' = label_of g y" using ok z by (fastforce simp: offer_ok_def)
    ultimately show "offered ofs final y" using r unfolding offered_def by fastforce
  qed
  show ?thesis
  proof (cases "dst s y")
    case None
    then have "dst s' y = (if offered ofs final y then Some (Suc k) else None)" using mid by (simp add: mid_level_def)
    moreover have "\<not> (d \<le> k \<and> distance g a y d)" using old None by (metis option.distinct(1))
    ultimately show ?thesis using off [OF None] by (auto simp: le_Suc_eq split: if_splits)
  next
    case (Some d0)
    then have "dst s' y = Some d0" using mid by (simp add: mid_level_def)
    moreover have "d0 \<le> k" "distance g a y d0" using old Some by auto
    ultimately show ?thesis using distance_unique by (auto simp: le_Suc_eq)
  qed
qed

lemma level_paths:
  assumes inv: "level_inv g a k False (s, fr)" and mid: "mid_level g s k final ofs (s', nxt)"
    and ok: "\<forall>z \<in> ofs. offer_ok g s k z" and reach: "offers_reach g s k final ofs"
    and y: "dst s' y = Some d" and w: "walk g a xs rs y" "length rs = d"
  shows "path_names s' y \<le> map (shown_name g) xs"
proof -
  have lev: "levelled (dst s) (bs_parent s) a" and nam: "named g s" and wf: "dict_wf (bs_dist s)"
    and steps: "\<forall>y p rel. dst s y \<noteq> None \<and> par s y = Some (p, rel) \<longrightarrow> rel \<in> set EXPAND_ALL \<and> adjacent g [rel] p y"
    and least: "\<And>y d xs rs. dst s y = Some d \<Longrightarrow> walk g a xs rs y \<Longrightarrow> length rs = d \<Longrightarrow> path_names s y \<le> map (shown_name g) xs"
    and old: "\<And>y d. dst s y = Some d \<longleftrightarrow> d \<le> k \<and> distance g a y d"
    using inv unfolding level_inv_def Let_def split by blast+
  have lev': "levelled (dst s') (bs_parent s') a" by (rule mid_levelled [OF lev mid ok])
  have nam': "named g s'" using mid by (simp add: mid_level_def)
  show ?thesis
  proof (cases "dst s y")
    case (Some d0)
    then have y0: "dst s' y = Some d0" using mid by (simp add: mid_level_def)
    then have d: "dst s y = Some d" using Some y by simp
    then have dk: "d \<le> k" using old by blast
    have "climb d (bs_parent s') y = climb d (bs_parent s) y"
      by (rule climb_cong [OF lev d]) (use mid in \<open>simp add: mid_level_def\<close>)
    then have "path_names s' y = path_names s y"
      by (simp add: path_names_def path_of_eq [OF lev' nam' y] path_of_eq [OF lev nam d])
    then show ?thesis using least [OF d w] by simp
  next
    case None
    then have "dst s' y = (if offered ofs final y then Some (Suc k) else None)" using mid by (simp add: mid_level_def)
    then have d: "d = Suc k" using y by (simp split: if_splits)
    have elig: "final \<longrightarrow> label_of g y \<in> set ELIGIBLE" and far: "distance g a y (Suc k)"
      using y level_dist [OF inv mid ok reach, of y d] d by auto
    obtain xs' rs' x rel where x: "xs = xs' @ [y]" "walk g a xs' rs' x" "length rs' = k" "rel \<in> set EXPAND_ALL" "adjacent g [rel] x y"
      by (rule walk_snoc [OF w(1)]) (use w(2) d in auto)
    have adj: "adjacent g EXPAND_ALL x y" by (rule adjacent_mono [OF x(5)]) (use x(4) in simp)
    have xb: "x \<in> ball g a k" and lx: "length xs' = Suc k" using walk_ball [OF x(2)] x(3) by auto
    have "x \<notin> ball g a j" if "j < k" for j
    proof
      assume "x \<in> ball g a j"
      then have "y \<in> ball g a (Suc j)" using adj by auto
      then show False using far that by (auto simp: distance_def)
    qed
    then have dx: "dst s x = Some k" using xb old by (simp add: distance_def)
    obtain q rel' r where q: "(q, rel', r) \<in> ofs" "er_eid r = y" "path_names s q \<le> path_names s x"
      using reach dx adj elig unfolding offers_reach_def by blast
    obtain p prel where p: "par s' y = Some (p, prel)" "best_offer s ofs y p prel"
      using mid None y unfolding mid_level_def by auto
    have pq: "path_names s p \<le> path_names s q" using p(2) q(1,2) unfolding best_offer_def by blast
    have dp: "dst s p = Some k" using p(2) ok by (fastforce simp: best_offer_def offer_ok_def)
    have ya: "y \<noteq> a" using None lev by (auto simp: levelled_def)
    have "path_names s' y = path_names s' p @ [shown_name g y]" by (rule path_names_snoc [OF lev' nam' y ya p(1)])
    also have "path_names s' p = path_names s p" by (rule mid_path [OF lev nam mid ok dp])
    finally have py: "path_names s' y = path_names s p @ [shown_name g y]" .
    have lp: "length (path_names s p) = Suc k" by (rule path_names_length [OF lev nam dp steps])
    have "path_names s p \<le> map (shown_name g) xs'"
      using pq q(3) least [OF dx x(2,3)] by (meson order_trans)
    then have "path_names s p @ [shown_name g y] \<le> map (shown_name g) xs' @ [shown_name g y]"
      by (intro append_le) (simp_all add: lp lx)
    then show ?thesis unfolding py x(1) by simp
  qed
qed

lemma level_invI:
  assumes "\<And>y d. dst s y = Some d \<longleftrightarrow>
         d \<le> k \<and> distance g a y d \<and> (final \<and> d = k \<and> 0 < k \<longrightarrow> label_of g y \<in> set ELIGIBLE)"
    and "levelled (dst s) (bs_parent s) a" and "named g s" and "dict_wf (bs_dist s)"
    and "\<And>y. dst s y = None \<Longrightarrow> par s y = None"
    and "\<And>y p rel. dst s y \<noteq> None \<Longrightarrow> par s y = Some (p, rel) \<Longrightarrow> rel \<in> set EXPAND_ALL \<and> adjacent g [rel] p y"
    and "\<And>y d xs rs. dst s y = Some d \<Longrightarrow> walk g a xs rs y \<Longrightarrow> length rs = d \<Longrightarrow>
           path_names s y \<le> map (shown_name g) xs"
    and "distinct (map en_eid fr) \<and> (\<forall>n \<in> set fr. node_ok g n) \<and> set (map en_eid fr) = {y. dst s y = Some k}"
  shows "level_inv g a k final (s, fr)"
  unfolding level_inv_def Let_def split using assms by (intro conjI allI impI) (elim conjE; assumption | blast)+

lemma level_advance:
  assumes inv: "level_inv g a k False (s, fr)" and mid: "mid_level g s k final ofs st"
    and ok: "\<forall>z \<in> ofs. offer_ok g s k z" and reach: "offers_reach g s k final ofs"
  shows "level_inv g a (Suc k) final st"
proof -
  obtain s' nxt where st: "st = (s', nxt)" by (cases st)
  note mid = mid [unfolded st]
  note i = inv [unfolded level_inv_def Let_def split]
  note m = mid [unfolded mid_level_def Let_def split]
  have lev: "levelled (dst s) (bs_parent s) a" using i by blast
  have orphan: "par s' y = None" if "dst s' y = None" for y
    using m that by (metis option.distinct(1))
  have old_le: "dst s y \<noteq> Some (Suc k)" for y using i by (metis Suc_n_not_le_n)
  have steps: "rel \<in> set EXPAND_ALL \<and> adjacent g [rel] p y" if y: "dst s' y \<noteq> None" and p: "par s' y = Some (p, rel)" for y p rel
  proof (cases "dst s y")
    case None
    then obtain q rel' where "par s' y = Some (q, rel')" "best_offer s ofs y q rel'" using m y by blast
    then show ?thesis using p ok by (fastforce simp: best_offer_def offer_ok_def)
  next
    case (Some d)
    then have "par s y = Some (p, rel)" using m p by (metis option.distinct(1))
    then show ?thesis using i Some by blast
  qed
  have front: "{y. dst s y = None \<and> dst s' y \<noteq> None} = {y. dst s' y = Some (Suc k)}"
  proof (intro set_eqI iffI CollectI; elim CollectE)
    fix y
    assume a: "dst s y = None \<and> dst s' y \<noteq> None"
    moreover from a have "dst s' y = (if offered ofs final y then Some (Suc k) else None)" using m by blast
    ultimately show "dst s' y = Some (Suc k)" by (metis)
  next
    fix y
    assume a: "dst s' y = Some (Suc k)"
    then have "dst s y = None" using m old_le by (metis)
    then show "dst s y = None \<and> dst s' y \<noteq> None" using a by simp
  qed
  have rest: "distinct (map en_eid nxt) \<and> (\<forall>n \<in> set nxt. node_ok g n) \<and> set (map en_eid nxt) = {y. dst s' y = Some (Suc k)}"
    using m front by simp
  show ?thesis unfolding st
  proof (intro level_invI)
    show "named g s'" "dict_wf (bs_dist s')" using m by blast+
  qed (fact level_dist [OF inv mid ok reach] mid_levelled [OF lev mid ok] orphan steps level_paths [OF inv mid ok reach] rest)+
qed

lemma mid_level_init:
  assumes "level_inv g a k False (s, fr)"
  shows "mid_level g s k final {} (s, [])"
proof (rule mid_levelI, goal_cases)
  case 3
  then show ?case using assms unfolding level_inv_def Let_def split by blast
next
  case 5
  then show ?case using assms unfolding level_inv_def Let_def split by blast
next
  case 6
  then show ?case using assms unfolding level_inv_def Let_def split by blast
next
  case (4 y)
  then show ?case by simp
qed (auto simp: offered_def)

lemma sorted_members:
  "sorted (map f (filter P (sort_key f xs)))"
  by (metis sorted_sort_key sorted_filter)

lemma last_hop_types:
  "set LAST_HOP_FROM_RELEASE \<subseteq> set EXPAND_ALL" "set LAST_HOP_FROM_ARTIST \<subseteq> set EXPAND_ALL"
  by (auto simp: LAST_HOP_FROM_RELEASE_def LAST_HOP_FROM_ARTIST_def EXPAND_ALL_def)

lemma schema_last_hop:
  assumes "schema_ok g" "adjacent g EXPAND_ALL x y" "label_of g y \<in> set ELIGIBLE"
  shows "label_of g x \<in> {''Release'', ''Master''} \<and> adjacent g LAST_HOP_FROM_RELEASE x y
       \<or> label_of g x = ''Artist'' \<and> adjacent g LAST_HOP_FROM_ARTIST x y"
proof -
  obtain e where "e \<in> set (gr_edges g)" "fst (snd e) \<in> set EXPAND_ALL" "joins e x y"
    using assms(2) by (auto simp: adjacent_def)
  then show ?thesis using assms(1,3) unfolding schema_ok_def adjacent_def by blast
qed

lemma level_inv_step:
  assumes g: "graph_ok g" "schema_ok g" and inv: "level_inv g a k False st"
  shows "level_inv g a (Suc k) (Suc k = hops) (bfs_level g hops k st)"
proof -
  obtain s fr where st: "st = (s, fr)" by (cases st)
  note inv = inv [unfolded st]
  let ?key = "\<lambda>n. (path_names s (en_eid n), en_eid n)"
  let ?fr = "sort_key ?key fr" and ?final = "Suc k = hops"
  have i: "\<forall>y d. dst s y = Some d \<longleftrightarrow> d \<le> k \<and> distance g a y d \<and> (False \<and> d = k \<and> 0 < k \<longrightarrow> label_of g y \<in> set ELIGIBLE)"
    and lev: "levelled (dst s) (bs_parent s) a" "named g s" and nok: "\<forall>n \<in> set fr. node_ok g n"
    and fr: "set (map en_eid fr) = {y. dst s y = Some k}"
    using inv unfolding level_inv_def Let_def split by blast+
  have le: "\<forall>y d. dst s y = Some d \<longrightarrow> d \<le> k" using i by blast
  have mem: "\<forall>n \<in> set fr. dst s (en_eid n) = Some k" using fr by auto
  have front: "\<exists>n \<in> set fr. en_eid n = x" if "dst s x = Some k" for x
  proof -
    have "x \<in> set (map en_eid fr)" unfolding fr using that by simp
    then show ?thesis by auto
  qed
  have batch: "\<forall>z \<in> batch_offers g (filter P ?fr, types). offer_ok g s k z" if "set types \<subseteq> set EXPAND_ALL" for P types
    by (intro ballI batch_offer_ok [OF g(1)]) (use that mem in auto)
  have reach: "\<exists>(q, rel, r) \<in> batch_offers g (filter P ?fr, types). er_eid r = y \<and> path_names s q \<le> path_names s (en_eid n)"
    if "set types \<subseteq> set EXPAND_ALL" "n \<in> set fr" "P n" "adjacent g types (en_eid n) y" for P types n y
    by (rule batch_offers_reach [OF g(1) that(1) sorted_members]) (use that in auto)
  show ?thesis
  proof (cases ?final)
    case False
    let ?b = "(?fr, EXPAND_ALL)"
    have st': "bfs_level g hops k st = bfs_batch g False k (s, []) ?b"
      using False by (simp add: bfs_level_def st bfs_batches_def Let_def)
    have ok: "\<forall>z \<in> batch_offers g ?b. offer_ok g s k z" using batch [of EXPAND_ALL "\<lambda>_. True"] by simp
    have mid: "mid_level g s k False ({} \<union> batch_offers g ?b) (bfs_batch g False k (s, []) ?b)"
      by (rule mid_batch [OF lev le mid_level_init [OF inv] _ ok]) simp
    have "offers_reach g s k False ({} \<union> batch_offers g ?b)"
      unfolding offers_reach_def using reach [of EXPAND_ALL _ "\<lambda>_. True"] front by fastforce
    from level_advance [OF inv mid _ this] ok False show ?thesis unfolding st' by simp
  next
    case True
    let ?P = "\<lambda>n. en_label n \<in> {''Release'', ''Master''}" and ?Q = "\<lambda>n. en_label n = ''Artist''"
    let ?b = "(filter ?P ?fr, LAST_HOP_FROM_RELEASE)" and ?c = "(filter ?Q ?fr, LAST_HOP_FROM_ARTIST)"
    let ?ofs = "{} \<union> batch_offers g ?b \<union> batch_offers g ?c"
    have st': "bfs_level g hops k st = bfs_batch g True k (bfs_batch g True k (s, []) ?b) ?c"
      using True by (simp add: bfs_level_def st bfs_batches_def Let_def)
    note okb = batch [OF last_hop_types(1), of ?P] and okc = batch [OF last_hop_types(2), of ?Q]
    have midb: "mid_level g s k True ({} \<union> batch_offers g ?b) (bfs_batch g True k (s, []) ?b)"
      by (rule mid_batch [OF lev le mid_level_init [OF inv] _ okb]) simp
    have mid: "mid_level g s k True ?ofs (bfs_batch g True k (bfs_batch g True k (s, []) ?b) ?c)"
      by (rule mid_batch [OF lev le midb _ okc]) (use okb in simp)
    have "offers_reach g s k True ?ofs"
      unfolding offers_reach_def
    proof (intro allI impI; elim conjE)
      fix x y
      assume x: "dst s x = Some k" "adjacent g EXPAND_ALL x y" "True \<longrightarrow> label_of g y \<in> set ELIGIBLE"
      obtain n where n: "n \<in> set fr" "en_eid n = x" using front [OF x(1)] by blast
      then have lab: "en_label n = label_of g x" using nok by (simp add: node_ok_def)
      have "label_of g y \<in> set ELIGIBLE" using x(3) by simp
      from schema_last_hop [OF g(2) x(2) this]
      show "\<exists>(q, rel, r) \<in> ?ofs. er_eid r = y \<and> path_names s q \<le> path_names s x"
      proof
        assume "label_of g x \<in> {''Release'', ''Master''} \<and> adjacent g LAST_HOP_FROM_RELEASE x y"
        then show ?thesis using reach [OF last_hop_types(1) n(1), of ?P y] lab n(2) by auto
      next
        assume "label_of g x = ''Artist'' \<and> adjacent g LAST_HOP_FROM_ARTIST x y"
        then show ?thesis using reach [OF last_hop_types(2) n(1), of ?Q y] lab n(2) by auto
      qed
    qed
    from level_advance [OF inv mid _ this] okb okc True show ?thesis unfolding st' by auto
  qed
qed

lemma find_start_node:
  assumes "graph_ok g" "find_start g et ei = Some (n, c)"
  shows "node_ok g n"
proof -
  let ?l = "the (map_of ALLOWED et)" and ?key = "if et \<in> {''genre'', ''style''} then gn_name else gn_id"
  obtain m where m: "find (\<lambda>n. gn_label n = ?l \<and> ?key n = Some ei) (gr_nodes g) = Some m"
    and n: "en_eid n = gn_eid m" "en_label n = ?l" "en_name n = py_str (coalesce (gn_name m) (coalesce (gn_title m) (gn_id m)))"
    using assms(2) by (auto simp: find_start_def Let_def split: option.splits)
  from m have "m \<in> set (gr_nodes g)" "gn_label m = ?l" by (auto simp: find_Some_iff)
  then show ?thesis using node_unique [OF assms(1)] n by (simp add: node_ok_def label_of_def shown_name_def)
qed

lemma level_inv_start:
  assumes "node_ok g n"
  shows "level_inv g (en_eid n) 0 final (bfs_start n, [n])"
proof (rule level_invI)
  show "map_of (bs_dist (bfs_start n)) y = Some d \<longleftrightarrow>
      d \<le> 0 \<and> distance g (en_eid n) y d \<and> (final \<and> d = 0 \<and> 0 < (0::nat) \<longrightarrow> label_of g y \<in> set ELIGIBLE)" for y d
    by (auto simp: bfs_start_def distance_0)
  show "path_names (bfs_start n) y \<le> map (shown_name g) xs"
    if "dst (bfs_start n) y = Some d" "walk g (en_eid n) xs rs y" "length rs = d" for y d xs rs
    using that(2,1,3) assms
    by (cases rule: walk.cases)
      (auto simp: bfs_start_def path_names_def path_of_def name_of_def node_ok_def split: if_splits)
qed (use assms in \<open>auto simp: bfs_start_def levelled_def named_def split: if_splits\<close>)

lemma bfs_run_inv:
  assumes "graph_ok g" "schema_ok g" "node_ok g n"
  shows "level_inv g (en_eid n) hops True (bfs_run g n hops)"
proof -
  have "level_inv g (en_eid n) m (m = hops) (foldl (\<lambda>st depth. bfs_level g hops depth st) (bfs_start n, [n]) [0..<m])"
    if "m \<le> hops" for m
    using that
  proof (induction m)
    case 0
    then show ?case using level_inv_start [OF assms(3)] by simp
  next
    case (Suc m)
    then have "m \<noteq> hops" "m \<le> hops" by simp_all
    then show ?case using level_inv_step [OF assms(1,2)] Suc.IH by simp
  qed
  from this [of hops] show ?thesis by (simp add: bfs_run_def)
qed

text \<open>What is read off the table at the end.\<close>

lemma bfs_facts:
  fixes g n hops
  assumes "graph_ok g" "schema_ok g" "node_ok g n"
  defines "s \<equiv> fst (bfs_run g n hops)"
  shows "\<And>y d. dst s y = Some d \<longleftrightarrow>
         d \<le> hops \<and> distance g (en_eid n) y d \<and> (d = hops \<and> 0 < hops \<longrightarrow> label_of g y \<in> set ELIGIBLE)"
    and "levelled (dst s) (bs_parent s) (en_eid n)" "named g s" "dict_wf (bs_dist s)"
    and "\<And>y p rel. dst s y \<noteq> None \<Longrightarrow> par s y = Some (p, rel) \<Longrightarrow> rel \<in> set EXPAND_ALL \<and> adjacent g [rel] p y"
    and "\<And>y d xs rs. dst s y = Some d \<Longrightarrow> walk g (en_eid n) xs rs y \<Longrightarrow> length rs = d \<Longrightarrow> path_names s y \<le> map (shown_name g) xs"
proof -
  have "level_inv g (en_eid n) hops True (s, snd (bfs_run g n hops))"
    using bfs_run_inv [OF assms(1-3), of hops] by (simp add: s_def)
  note i = this [unfolded level_inv_def Let_def split]
  show "\<And>y d. dst s y = Some d \<longleftrightarrow>
         d \<le> hops \<and> distance g (en_eid n) y d \<and> (d = hops \<and> 0 < hops \<longrightarrow> label_of g y \<in> set ELIGIBLE)"
    using i by blast
  show "levelled (dst s) (bs_parent s) (en_eid n)" "named g s" "dict_wf (bs_dist s)" using i by blast+
  show "\<And>y p rel. dst s y \<noteq> None \<Longrightarrow> par s y = Some (p, rel) \<Longrightarrow> rel \<in> set EXPAND_ALL \<and> adjacent g [rel] p y"
    using i by blast
  show "\<And>y d xs rs. dst s y = Some d \<Longrightarrow> walk g (en_eid n) xs rs y \<Longrightarrow> length rs = d \<Longrightarrow> path_names s y \<le> map (shown_name g) xs"
    using i by blast
qed

lemma discovery_fields:
  "di_eid (discovery_of s (y, d)) = y" "di_dist (discovery_of s (y, d)) = d"
  "di_label (discovery_of s (y, d)) = en_label (the (nds s y))" "di_name (discovery_of s (y, d)) = en_name (the (nds s y))"
  "di_path_names (discovery_of s (y, d)) = fst (path_of s y)" "di_rel_types (discovery_of s (y, d)) = snd (path_of s y)"
  by (simp_all add: discovery_of_def case_prod_unfold Let_def)

lemma bfs_member:
  assumes "graph_ok g" "schema_ok g" "node_ok g n" "1 \<le> hops"
  shows "x \<in> set (bfs g n hops) \<longleftrightarrow>
     (\<exists>y d. x = discovery_of (fst (bfs_run g n hops)) (y, d) \<and> 1 \<le> d \<and> d \<le> hops
        \<and> distance g (en_eid n) y d \<and> label_of g y \<in> set ELIGIBLE)"
proof -
  let ?s = "fst (bfs_run g n hops)" and ?a = "en_eid n"
  note f = bfs_facts [OF assms(1-3), of hops]
  have lab: "en_label (the (nds ?s y)) = label_of g y" if y: "dst ?s y = Some d" for y d
  proof -
    obtain m where "nds ?s y = Some m" "en_eid m = y" "node_ok g m"
      using f(3) [unfolded named_def, rule_format, of y] y by auto
    then show ?thesis by (simp add: node_ok_def)
  qed
  have mem: "(y, d) \<in> set (bs_dist ?s) \<longleftrightarrow> dst ?s y = Some d" for y d using f(4) by simp
  have zero: "y \<noteq> ?a \<longleftrightarrow> 1 \<le> d" if "distance g ?a y d" for y d
    using that distance_unique [OF that, of 0] by (cases d) (auto simp: distance_0)
  have "x \<in> set (bfs g n hops) \<longleftrightarrow> (\<exists>y d. dst ?s y = Some d \<and> y \<noteq> ?a
      \<and> en_label (the (nds ?s y)) \<in> set ELIGIBLE \<and> x = discovery_of ?s (y, d))"
    unfolding bfs_def Let_def set_map set_filter using mem by fastforce
  also have "\<dots> \<longleftrightarrow> (\<exists>y d. dst ?s y = Some d \<and> y \<noteq> ?a \<and> label_of g y \<in> set ELIGIBLE \<and> x = discovery_of ?s (y, d))"
    using lab by metis
  also have "\<dots> \<longleftrightarrow> (\<exists>y d. x = discovery_of ?s (y, d) \<and> 1 \<le> d \<and> d \<le> hops \<and> distance g ?a y d \<and> label_of g y \<in> set ELIGIBLE)"
    unfolding f(1) using zero by blast
  finally show ?thesis .
qed

lemma bfs_distinct:
  assumes "graph_ok g" "schema_ok g" "node_ok g n"
  shows "distinct (map di_eid (bfs g n hops))"
proof -
  let ?s = "fst (bfs_run g n hops)"
  have "di_eid \<circ> discovery_of ?s = fst" by (rule ext) (simp add: discovery_of_def case_prod_unfold Let_def)
  then show ?thesis using bfs_facts(4) [OF assms, of hops]
    by (simp add: bfs_def Let_def distinct_map_filter)
qed

text \<open>
  C21.  The breadth-first expansion of exploration finds exactly the artists, labels, genres and
  styles whose graph distance from the start is between one and \<open>hops\<close>, each once and at exactly
  that distance.  The last hop expands only releases, masters and artists, and only along the edge
  types of the schema; nothing is lost by it.
\<close>

theorem bfs_exact:
  assumes "graph_ok g" "schema_ok g" "find_start g entity_type entity_id = Some (n, releases)" "1 \<le> hops"
  shows "distinct (map di_eid (bfs g n hops)) \<and>
    (\<lambda>x. (di_eid x, di_dist x)) ` set (bfs g n hops)
      = {(y, d). 1 \<le> d \<and> d \<le> hops \<and> distance g (en_eid n) y d \<and> label_of g y \<in> set ELIGIBLE}"
proof
  note n = find_start_node [OF assms(1,3)]
  show "distinct (map di_eid (bfs g n hops))" by (rule bfs_distinct [OF assms(1,2) n])
  show "(\<lambda>x. (di_eid x, di_dist x)) ` set (bfs g n hops)
      = {(y, d). 1 \<le> d \<and> d \<le> hops \<and> distance g (en_eid n) y d \<and> label_of g y \<in> set ELIGIBLE}"
  proof (intro set_eqI iffI; clarify)
    fix x
    assume "x \<in> set (bfs g n hops)"
    then show "1 \<le> di_dist x \<and> di_dist x \<le> hops \<and> distance g (en_eid n) (di_eid x) (di_dist x) \<and> label_of g (di_eid x) \<in> set ELIGIBLE"
      unfolding bfs_member [OF assms(1,2) n assms(4)] by (auto simp: discovery_fields)
  next
    fix y d
    assume "1 \<le> d" "d \<le> hops" "distance g (en_eid n) y d" "label_of g y \<in> set ELIGIBLE"
    then have "discovery_of (fst (bfs_run g n hops)) (y, d) \<in> set (bfs g n hops)"
      unfolding bfs_member [OF assms(1,2) n assms(4)] by blast
    then show "(y, d) \<in> (\<lambda>x. (di_eid x, di_dist x)) ` set (bfs g n hops)"
      by (rule image_eqI [rotated]) (simp add: discovery_fields)
  qed
qed

text \<open>
  C22.  Every discovery comes with a shortest path: the relationship types and the names returned are
  those of one walk from the start to it with as many steps as its distance, no walk is shorter,
  and among the walks of that length none has a smaller list of names.
\<close>

theorem bfs_paths:
  assumes "graph_ok g" "schema_ok g" "find_start g entity_type entity_id = Some (n, releases)" "1 \<le> hops"
    and "x \<in> set (bfs g n hops)"
  shows "(\<exists>xs. walk g (en_eid n) xs (di_rel_types x) (di_eid x) \<and> di_path_names x = map (shown_name g) xs)
    \<and> length (di_rel_types x) = di_dist x
    \<and> (\<forall>xs rs. walk g (en_eid n) xs rs (di_eid x) \<longrightarrow> di_dist x \<le> length rs
         \<and> (length rs = di_dist x \<longrightarrow> di_path_names x \<le> map (shown_name g) xs))"
proof -
  note n = find_start_node [OF assms(1,3)]
  let ?s = "fst (bfs_run g n hops)" and ?a = "en_eid n"
  note f = bfs_facts [OF assms(1,2) n, of hops]
  obtain y d where x: "x = discovery_of ?s (y, d)" and d: "d \<le> hops" "distance g ?a y d" "label_of g y \<in> set ELIGIBLE"
    using bfs_member [OF assms(1,2) n assms(4), of x] assms(5) by blast
  have y: "dst ?s y = Some d" unfolding f(1) using d by blast
  let ?c = "climb d (bs_parent ?s) y"
  have w: "walk g ?a (fst ?c) (snd ?c) y \<and> length (snd ?c) = d" by (rule climb_walk [OF f(2) y f(5)])
  have p: "path_of ?s y = (map (shown_name g) (fst ?c), snd ?c)" by (rule path_of_eq [OF f(2,3) y])
  have "d \<le> length rs" if "walk g ?a xs rs y" for xs rs
    using walk_ball [OF that] d(2) unfolding distance_def by (meson not_less)
  moreover have "path_names ?s y \<le> map (shown_name g) xs" if "walk g ?a xs rs y" "length rs = d" for xs rs
    by (rule f(6) [OF y that])
  ultimately show ?thesis using w by (auto simp: x discovery_fields p path_names_def)
qed

text \<open>A small catalogue: a style, a release of it, its artist and label, an alias of the artist.\<close>

definition sample_graph :: graph where
  "sample_graph =
     \<lparr>gr_nodes =
        [\<lparr>gn_eid = ''j'', gn_label = ''Style'', gn_name = Some ''Jazz'', gn_title = None, gn_id = None, gn_release_count = Some 1\<rparr>,
         \<lparr>gn_eid = ''r'', gn_label = ''Release'', gn_name = None, gn_title = Some ''Blue'', gn_id = Some ''1'', gn_release_count = None\<rparr>,
         \<lparr>gn_eid = ''a'', gn_label = ''Artist'', gn_name = Some ''Ann'', gn_title = None, gn_id = Some ''2'', gn_release_count = None\<rparr>,
         \<lparr>gn_eid = ''l'', gn_label = ''Label'', gn_name = Some ''Lux'', gn_title = None, gn_id = Some ''3'', gn_release_count = Some 1\<rparr>,
         \<lparr>gn_eid = ''b'', gn_label = ''Artist'', gn_name = Some ''Bea'', gn_title = None, gn_id = Some ''4'', gn_release_count = None\<rparr>],
      gr_edges = [(''r'', ''IS'', ''j''), (''r'', ''BY'', ''a''), (''r'', ''ON'', ''l''), (''b'', ''ALIAS_OF'', ''a'')]\<rparr>"

definition sample_start :: explore_node where
  "sample_start = \<lparr>en_eid = ''j'', en_label = ''Style'', en_name = ''Jazz'', en_id = ''Jazz'', en_nameless = False\<rparr>"

lemma sample_ok: "graph_ok sample_graph" "schema_ok sample_graph" "find_start sample_graph ''style'' ''Jazz'' = Some (sample_start, 1)"
  and sample_bfs: "map (\<lambda>x. (di_eid x, di_dist x)) (bfs sample_graph sample_start 3) = [(''a'', 2), (''l'', 2), (''b'', 3)]"
     "map di_path_names (bfs sample_graph sample_start 3) = [[''Jazz'', ''Blue'', ''Ann''], [''Jazz'', ''Blue'', ''Lux''], [''Jazz'', ''Blue'', ''Ann'', ''Bea'']]"
subgoal by code_simp
subgoal by (auto simp: schema_ok_def sample_graph_def joins_def label_of_def EXPAND_ALL_def ELIGIBLE_def LAST_HOP_FROM_RELEASE_def LAST_HOP_FROM_ARTIST_def)
subgoal by code_simp
subgoal by code_simp
subgoal by code_simp
  done

theorem bfs_exact_witness:
  "{(y, d). 1 \<le> d \<and> d \<le> 3 \<and> distance sample_graph (en_eid sample_start) y d \<and> label_of sample_graph y \<in> set ELIGIBLE}
     = {(''a'', 2), (''l'', 2), (''b'', 3)}"
proof -
  have "(\<lambda>x. (di_eid x, di_dist x)) ` set (bfs sample_graph sample_start 3) = {(''a'', 2), (''l'', 2), (''b'', 3)}"
    using arg_cong [OF sample_bfs(1), of set] by simp
  moreover have "(1::nat) \<le> 3" by simp
  ultimately show ?thesis using bfs_exact [OF sample_ok(1-3), of 3] by simp
qed

theorem bfs_paths_witness:
  "\<exists>x \<in> set (bfs sample_graph sample_start 3). di_eid x = ''b'' \<and> di_path_names x = [''Jazz'', ''Blue'', ''Ann'', ''Bea'']
     \<and> (\<exists>xs. walk sample_graph ''j'' xs (di_rel_types x) ''b'') \<and> (\<forall>xs rs. walk sample_graph ''j'' xs rs ''b'' \<longrightarrow> 3 \<le> length rs)"
proof -
  let ?d = "bfs sample_graph sample_start 3"
  have len: "length ?d = 3" using arg_cong [OF sample_bfs(1), of length] by simp
  define x where "x = ?d ! 2"
  have mem: "x \<in> set ?d" using len by (simp add: x_def)
  have "di_eid x = ''b''" "di_dist x = 3"
    using arg_cong [OF sample_bfs(1), of "\<lambda>l. l ! 2"] len by (simp_all add: x_def)
  moreover have "di_path_names x = [''Jazz'', ''Blue'', ''Ann'', ''Bea'']"
    using arg_cong [OF sample_bfs(2), of "\<lambda>l. l ! 2"] len by (simp add: x_def)
  moreover have "en_eid sample_start = ''j''" by (simp add: sample_start_def)
  ultimately show ?thesis using bfs_paths [OF sample_ok(1-3) _ mem] mem by (intro bexI [OF _ mem]) fastforce
qed

section \<open>The selection\<close>

lemma filter_concat_single:
  "distinct ds \<Longrightarrow> (\<And>d. d \<in> set ds \<Longrightarrow> d \<noteq> c \<Longrightarrow> filter P (F d) = []) \<Longrightarrow>
     filter P (concat (map F ds)) = (if c \<in> set ds then filter P (F c) else [])"
  by (induction ds) (auto simp: filter_concat)

lemma mset_tiers:
  assumes "distinct ds"
  shows "mset (concat (map (\<lambda>d. sort_key k (filter (\<lambda>x. f x = d) xs)) ds)) = filter_mset (\<lambda>x. f x \<in> set ds) (mset xs)"
  using assms
proof (induction ds)
  case (Cons d ds)
  have "{#x \<in># mset xs. f x = d \<or> f x \<in> set ds#} = {#x \<in># mset xs. f x = d#} + {#x \<in># mset xs. f x \<in> set ds#}"
    using Cons.prems by (intro multiset_eqI) auto
  then show ?case using Cons by (simp flip: mset_filter)
qed simp

lemma sorted_tiers:
  fixes f :: "'a \<Rightarrow> 'b::linorder" and k :: "'a \<Rightarrow> 'c::linorder"
  assumes "sorted_wrt (<) ds"
  shows "sorted (map (\<lambda>x. (f x, k x)) (concat (map (\<lambda>d. sort_key k (filter (\<lambda>x. f x = d) xs)) ds)))"
  using assms
proof (induction ds)
  case (Cons d ds)
  have "sorted (map (\<lambda>x. (f x, k x)) (sort_key k (filter (\<lambda>x. f x = d) xs)))"
  proof -
    have "sorted_wrt (\<lambda>x y. k x \<le> k y) (sort_key k (filter (\<lambda>x. f x = d) xs))"
      using sorted_sort_key [of k "filter (\<lambda>x. f x = d) xs"] by (simp add: sorted_map)
    then have "sorted_wrt (\<lambda>x y. (f x, k x) \<le> (f y, k y)) (sort_key k (filter (\<lambda>x. f x = d) xs))"
      by (rule sorted_wrt_mono_rel [rotated]) auto
    then show ?thesis by (simp add: sorted_map)
  qed
  then show ?case using Cons by (auto simp: sorted_append)
qed simp

lemma sort_key_tiers:
  fixes f :: "'a \<Rightarrow> 'b::linorder" and k :: "'a \<Rightarrow> 'c::linorder"
  assumes "sorted_wrt (<) ds" "f ` set xs \<subseteq> set ds"
  shows "sort_key (\<lambda>x. (f x, k x)) xs = concat (map (\<lambda>d. sort_key k (filter (\<lambda>x. f x = d) xs)) ds)"
proof (rule properties_for_sort_key)
  let ?F = "\<lambda>d. sort_key k (filter (\<lambda>x. f x = d) xs)"
  have ds: "distinct ds" using assms(1) by (simp add: strict_sorted_iff)
  have "filter_mset (\<lambda>x. f x \<in> set ds) (mset xs) = mset xs"
    using assms(2) by (simp add: filter_mset_eq_conv image_subset_iff)
  then show "mset (concat (map ?F ds)) = mset xs" by (simp only: mset_tiers [OF ds])
  show "sorted (map (\<lambda>x. (f x, k x)) (concat (map ?F ds)))" by (rule sorted_tiers [OF assms(1)])
  fix y
  assume "y \<in> set (concat (map ?F ds))"
  then have y: "f y \<in> set ds" by auto
  let ?P = "\<lambda>x. (f y, k y) = (f x, k x)"
  have "filter ?P (concat (map ?F ds)) = filter ?P (?F (f y))"
    by (subst filter_concat_single [OF ds, of "f y"]) (use y in \<open>auto simp: filter_empty_conv\<close>)
  also have "\<dots> = filter (\<lambda>x. k x = k y) (?F (f y))" by (rule filter_cong) auto
  also have "\<dots> = filter (\<lambda>x. k x = k y) (filter (\<lambda>x. f x = f y) xs)" by (rule sort_key_stable)
  also have "\<dots> = filter ?P xs" unfolding filter_filter by (rule filter_cong) auto
  finally show "filter ?P (concat (map ?F ds)) = filter ?P xs" .
qed

text \<open>The tiers, one after the other, and what the loop takes of them.\<close>

definition tier_order :: "(string \<Rightarrow> nat) \<Rightarrow> discovery list \<Rightarrow> nat \<Rightarrow> discovery list" where
  "tier_order pop al d = sort_key (\<lambda>x. (di_placeholder x, - int (pop (di_eid x)), di_id x)) (filter (\<lambda>x. di_dist x = d) al)"

lemma tier_order_dist: "x \<in> set (tier_order pop al d) \<Longrightarrow> di_dist x = d"
  by (auto simp: tier_order_def)

lemma select_full: "ARTIST_LABEL_LIMIT \<le> length chosen \<Longrightarrow> select_tiers pop al ds chosen = chosen"
  by (cases ds) (simp_all add: Let_def)

lemma sorted_dist_prepend:
  assumes "\<And>x. x \<in> set t \<Longrightarrow> di_dist x = d" "sorted (map di_dist u)" "\<And>x. x \<in> set u \<Longrightarrow> d \<le> di_dist x"
  shows "sorted (map di_dist (t @ u))"
proof -
  have "map di_dist t = replicate (length t) d" using assms(1) by (induction t) auto
  then show ?thesis using assms by (simp add: sorted_append sorted_replicate)
qed

lemma select_tiers_takes:
  assumes "sorted_wrt (<) ds" "length chosen \<le> ARTIST_LABEL_LIMIT"
  shows "\<exists>rest. select_tiers pop al ds chosen = chosen @ rest
    \<and> mset rest = mset (take (ARTIST_LABEL_LIMIT - length chosen) (concat (map (tier_order pop al) ds)))
    \<and> sorted (map di_dist rest) \<and> di_dist ` set rest \<subseteq> set ds"
  using assms
proof (induction ds arbitrary: chosen)
  case (Cons d ds)
  let ?tier = "filter (\<lambda>x. di_dist x = d) al" and ?n = "ARTIST_LABEL_LIMIT - length chosen"
  let ?t = "tier_order pop al d"
  have len: "length ?t = length ?tier" by (simp add: tier_order_def)
  consider (full) "length chosen = ARTIST_LABEL_LIMIT" | (over) "0 < ?n" "?n < length ?tier" | (fits) "0 < ?n" "length ?tier \<le> ?n"
    using Cons.prems(2) by linarith
  then show ?case
  proof cases
    case full
    then show ?thesis by (simp add: select_full)
  next
    case over
    then have "int ARTIST_LABEL_LIMIT - int (length chosen) < int (length ?tier)"
      "nat (int ARTIST_LABEL_LIMIT - int (length chosen)) = ?n" "\<not> int ARTIST_LABEL_LIMIT - int (length chosen) \<le> 0"
      by linarith+
    then have "select_tiers pop al (d # ds) chosen = select_tiers pop al ds (chosen @ take ?n ?t)"
      by (simp only: select_tiers.simps Let_def if_True if_False tier_order_def)
    also have "\<dots> = chosen @ take ?n ?t" by (rule select_full) (use over len in simp)
    finally show ?thesis
      using over len by (intro exI [of _ "take ?n ?t"])
        (auto simp: dest!: in_set_takeD tier_order_dist intro!: sorted_dist_prepend [where u = "[]" and d = d, simplified])
  next
    case fits
    let ?u = "sort_key (\<lambda>x. (di_placeholder x, di_id x)) ?tier"
    have "\<not> int ARTIST_LABEL_LIMIT - int (length chosen) < int (length ?tier)" "\<not> int ARTIST_LABEL_LIMIT - int (length chosen) \<le> 0"
      using fits by linarith+
    then have step: "select_tiers pop al (d # ds) chosen = select_tiers pop al ds (chosen @ ?u)"
      by (simp only: select_tiers.simps Let_def if_True if_False)
    obtain rest where r: "select_tiers pop al ds (chosen @ ?u) = (chosen @ ?u) @ rest"
      "mset rest = mset (take (ARTIST_LABEL_LIMIT - length (chosen @ ?u)) (concat (map (tier_order pop al) ds)))"
      "sorted (map di_dist rest)" "di_dist ` set rest \<subseteq> set ds"
    proof -
      have "length (chosen @ ?u) \<le> ARTIST_LABEL_LIMIT" unfolding length_append length_sort using fits by linarith
      then show thesis using Cons.IH [of "chosen @ ?u"] Cons.prems(1) that by auto
    qed
    have "mset (?u @ rest) = mset (take ?n (concat (map (tier_order pop al) (d # ds))))"
      using r(2) fits len by (simp add: tier_order_def)
    moreover have "sorted (map di_dist (?u @ rest))"
      by (rule sorted_dist_prepend [where d = d]) (use r(3,4) Cons.prems(1) in \<open>auto intro: less_imp_le\<close>)
    moreover have "di_dist ` set (?u @ rest) \<subseteq> set (d # ds)" using r(4) by auto
    ultimately show ?thesis using step r(1) by (intro exI [of _ "?u @ rest"]) simp
  qed
qed simp

text \<open>The order the limit cuts: distance, placeholders last, most established first, id.\<close>

definition established_order :: "(string \<Rightarrow> nat) \<Rightarrow> discovery list \<Rightarrow> discovery list" where
  "established_order pop = sort_key (\<lambda>x. (di_dist x, di_placeholder x, - int (pop (di_eid x)), di_id x))"

lemma chosen_artists_labels_takes:
  "\<exists>sel. chosen_artists_labels pop discovered = sel \<and> sorted (map di_dist sel)
     \<and> mset sel = mset (take ARTIST_LABEL_LIMIT (established_order pop (filter (\<lambda>d. di_label d \<in> {''Artist'', ''Label''}) discovered)))"
proof -
  let ?al = "filter (\<lambda>d. di_label d \<in> {''Artist'', ''Label''}) discovered"
  let ?ds = "sorted_list_of_set (set (map di_dist ?al))"
  have ds: "sorted_wrt (<) ?ds" by (rule strict_sorted_list_of_set)
  have "established_order pop ?al = concat (map (tier_order pop ?al) ?ds)"
    unfolding established_order_def tier_order_def by (rule sort_key_tiers [OF ds]) simp
  then show ?thesis
    using select_tiers_takes [OF ds, of "[]" pop ?al] by (auto simp: chosen_artists_labels_def Let_def)
qed

text \<open>
  C23.  Of what was found, the answer holds every genre and style, and of the artists and labels
  exactly the first hundred in the order of distance, placeholders last, most established first
  and id; and its rows come by distance.  The limit is exact: the loop over distance tiers keeps
  the same rows a single sort of everything would.
\<close>

theorem selection_exact:
  "\<exists>sel. explore_select pop discovered = map explore_row sel \<and> sorted (map di_dist sel)
     \<and> mset sel = filter_mset (\<lambda>d. di_label d \<in> {''Genre'', ''Style''}) (mset discovered)
         + mset (take ARTIST_LABEL_LIMIT (established_order pop (filter (\<lambda>d. di_label d \<in> {''Artist'', ''Label''}) discovered)))"
proof -
  let ?out = "sort_key (\<lambda>d. (di_dist d, di_label d, di_name d)) (filter (\<lambda>d. di_label d \<in> {''Genre'', ''Style''}) discovered)
     @ chosen_artists_labels pop discovered"
  show ?thesis
    using chosen_artists_labels_takes [of pop discovered]
    by (intro exI [of _ "sort_key di_dist ?out"]) (simp add: explore_select_def Let_def)
qed

end
