(* ===== verification/Sync.thy ===== *)
theory Sync
  imports Prelude
begin

text \<open>
  The tables and the page transactions of the Discogs sync, \<open>src/api/syncer.py\<close>: one page of the
  collection or of the wantlist is written to PostgreSQL in one transaction, which also mints the
  owned copies and yields the change events, and then to the graph in one query.

  The tables are lists of rows, and ids the database generates are numbers it hands out in order.
  A timestamp is a number; \<open>sync_started\<close> is one, and the text the graph stores it as orders the
  same way.  The JSON and digest functions are arguments, and so is \<open>resolve_aliases\<close> of the
  \<open>common\<close> package: a map from the release ids of a page to native ids.
\<close>

section \<open>Items as Discogs sends them\<close>

record coll_item =
  ci_release :: "int option"
  ci_instance :: "int option"
  ci_folder :: "int option"
  ci_title :: "string option"
  ci_artists :: "string list"
  ci_year :: "int option"
  ci_formats :: "string list"
  ci_labels :: "(string \<times> string option) list"
  ci_rating :: "int option"
  ci_date :: "int option"

record want_item =
  wi_release :: "int option"
  wi_title :: "string option"
  wi_artists :: "string list"
  wi_year :: "int option"
  wi_formats :: "(string \<times> string) list"
  wi_labels :: "(string \<times> string option) list"
  wi_rating :: "int option"
  wi_notes :: "string option"
  wi_date :: "int option"

text \<open>The functions of other packages: \<open>json.dumps\<close> of the formats and of the metadata bag, the
  media block of the formats as JSON, the SHA-256 digest, and the text of an owned copy's id.\<close>

record sync_codec =
  sc_formats :: "string list \<Rightarrow> string"
  sc_media :: "string list \<Rightarrow> string"
  sc_metadata :: "string \<Rightarrow> string"
  sc_digest :: "string \<Rightarrow> string"
  sc_id :: "nat \<Rightarrow> string"

text \<open>A missing id and the id zero are both skipped.\<close>

definition given_id :: "int option \<Rightarrow> bool" where
  "given_id v = (case v of None \<Rightarrow> False | Some i \<Rightarrow> i \<noteq> 0)"

definition first_of :: "'a list \<Rightarrow> 'a option" where
  "first_of xs = (case xs of [] \<Rightarrow> None | x # _ \<Rightarrow> Some x)"

definition rating_or_zero :: "int option \<Rightarrow> int" where
  "rating_or_zero r = (case r of None \<Rightarrow> 0 | Some n \<Rightarrow> n)"

text \<open>The catalog number of the first label, when it has one.\<close>

definition catno_of :: "(string \<times> string option) list \<Rightarrow> string option" where
  "catno_of labels =
     (case labels of
        [] \<Rightarrow> None
      | (name, catno) # _ \<Rightarrow> (case catno of None \<Rightarrow> None | Some c \<Rightarrow> if c = [] then None else Some c))"

section \<open>Rows\<close>

record coll_param =
  cp_user :: string
  cp_release :: int
  cp_instance :: "int option"
  cp_folder :: "int option"
  cp_title :: "string option"
  cp_artist :: "string option"
  cp_year :: "int option"
  cp_formats :: "string option"
  cp_label :: "string option"
  cp_rating :: int
  cp_date :: "int option"
  cp_metadata :: "string option"
  cp_media :: string
  cp_stamp :: int

definition coll_param :: "sync_codec \<Rightarrow> string \<Rightarrow> int \<Rightarrow> coll_item \<Rightarrow> coll_param option" where
  "coll_param sc user t i =
     (if given_id (ci_release i)
      then Some \<lparr>cp_user = user, cp_release = the (ci_release i), cp_instance = ci_instance i,
                 cp_folder = ci_folder i, cp_title = ci_title i, cp_artist = first_of (ci_artists i),
                 cp_year = ci_year i,
                 cp_formats = (if ci_formats i = [] then None else Some (sc_formats sc (ci_formats i))),
                 cp_label = map_option fst (first_of (ci_labels i)), cp_rating = rating_or_zero (ci_rating i),
                 cp_date = ci_date i, cp_metadata = map_option (sc_metadata sc) (catno_of (ci_labels i)),
                 cp_media = sc_media sc (ci_formats i), cp_stamp = t\<rparr>
      else None)"

definition coll_batch :: "sync_codec \<Rightarrow> string \<Rightarrow> int \<Rightarrow> coll_item list \<Rightarrow> coll_param list" where
  "coll_batch sc user t items = List.map_filter (coll_param sc user t) items"

record coll_row =
  uc_id :: nat
  uc_user :: string
  uc_release :: int
  uc_instance :: "int option"
  uc_folder :: "int option"
  uc_title :: "string option"
  uc_artist :: "string option"
  uc_year :: "int option"
  uc_formats :: "string option"
  uc_label :: "string option"
  uc_rating :: int
  uc_date :: "int option"
  uc_metadata :: "string option"
  uc_media :: string
  uc_item :: "nat option"
  uc_copy :: "nat option"
  uc_updated :: int

record owned_copy =
  oc_id :: nat
  oc_user :: string
  oc_item :: nat
  oc_row :: "nat option"
  oc_acquired :: "int option"
  oc_updated :: int

record want_param =
  wp_user :: string
  wp_release :: int
  wp_title :: "string option"
  wp_artist :: "string option"
  wp_year :: "int option"
  wp_format :: "string option"
  wp_rating :: int
  wp_notes :: "string option"
  wp_date :: "int option"
  wp_media :: string
  wp_stamp :: int

definition want_param :: "sync_codec \<Rightarrow> string \<Rightarrow> int \<Rightarrow> want_item \<Rightarrow> want_param option" where
  "want_param sc user t i =
     (if given_id (wi_release i)
      then Some \<lparr>wp_user = user, wp_release = the (wi_release i), wp_title = wi_title i,
                 wp_artist = first_of (wi_artists i), wp_year = wi_year i,
                 wp_format = map_option fst (first_of (wi_formats i)), wp_rating = rating_or_zero (wi_rating i),
                 wp_notes = wi_notes i, wp_date = wi_date i, wp_media = sc_media sc (map snd (wi_formats i)),
                 wp_stamp = t\<rparr>
      else None)"

definition want_batch :: "sync_codec \<Rightarrow> string \<Rightarrow> int \<Rightarrow> want_item list \<Rightarrow> want_param list" where
  "want_batch sc user t items = List.map_filter (want_param sc user t) items"

record want_row =
  uw_id :: nat
  uw_user :: string
  uw_release :: int
  uw_title :: "string option"
  uw_artist :: "string option"
  uw_year :: "int option"
  uw_format :: "string option"
  uw_rating :: int
  uw_notes :: "string option"
  uw_date :: "int option"
  uw_media :: string
  uw_item :: "nat option"
  uw_updated :: int

text \<open>The edges of the graph, and a snapshot of a collection.\<close>

record coll_edge =
  ce_user :: string
  ce_release :: int
  ce_instance :: int
  ce_rating :: int
  ce_folder :: "int option"
  ce_date :: "int option"
  ce_synced :: int

record want_edge =
  we_user :: string
  we_release :: int
  we_rating :: int
  we_date :: "int option"
  we_synced :: int

record coll_snapshot =
  cs_user :: string
  cs_taken :: int
  cs_count :: nat
  cs_copies :: "nat list"
  cs_hash :: string

text \<open>Change events: the item, its owned copy, and the fields an update names.\<close>

datatype sync_event =
    CollectionAdded nat "nat option"
  | CollectionUpdated nat "nat option" "string list"
  | CollectionRemoved nat "nat option"
  | WantAdded nat
  | WantRemoved nat

record sync_db =
  sd_next :: nat
  sd_rows :: "coll_row list"
  sd_copies :: "owned_copy list"
  sd_wants :: "want_row list"
  sd_snapshots :: "coll_snapshot list"
  sd_users :: "(string, string) dict"
  sd_releases :: "(int, string option) dict"
  sd_edges :: "coll_edge list"
  sd_want_edges :: "want_edge list"
  sd_events :: "(string \<times> sync_event) list"

definition emit_events :: "string \<Rightarrow> sync_event list \<Rightarrow> sync_db \<Rightarrow> sync_db" where
  "emit_events user evs db = db\<lparr>sd_events := sd_events db @ map (Pair user) evs\<rparr>"

section \<open>A collection page in PostgreSQL\<close>

text \<open>\<open>coalesce\<close>: what this run brought, or else what is stored.\<close>

definition keep_stored :: "'a option \<Rightarrow> 'a option \<Rightarrow> 'a option" where
  "keep_stored new old = (case new of None \<Rightarrow> old | Some x \<Rightarrow> Some x)"

text \<open>A null instance id is equal to no other in the unique index.\<close>

definition coll_conflict :: "coll_param \<Rightarrow> coll_row \<Rightarrow> bool" where
  "coll_conflict p r \<longleftrightarrow> uc_user r = cp_user p \<and> uc_release r = cp_release p
     \<and> cp_instance p \<noteq> None \<and> uc_instance r = cp_instance p"

definition new_coll_row :: "nat \<Rightarrow> coll_param \<Rightarrow> nat option \<Rightarrow> coll_row" where
  "new_coll_row n p native =
     \<lparr>uc_id = n, uc_user = cp_user p, uc_release = cp_release p, uc_instance = cp_instance p,
      uc_folder = cp_folder p, uc_title = cp_title p, uc_artist = cp_artist p, uc_year = cp_year p,
      uc_formats = cp_formats p, uc_label = cp_label p, uc_rating = cp_rating p, uc_date = cp_date p,
      uc_metadata = cp_metadata p, uc_media = cp_media p, uc_item = native, uc_copy = None, uc_updated = cp_stamp p\<rparr>"

definition update_coll_row :: "coll_param \<Rightarrow> nat option \<Rightarrow> coll_row \<Rightarrow> coll_row" where
  "update_coll_row p native r =
     r\<lparr>uc_folder := cp_folder p, uc_title := cp_title p, uc_artist := cp_artist p, uc_year := cp_year p,
       uc_formats := keep_stored (cp_formats p) (uc_formats r), uc_label := cp_label p, uc_rating := cp_rating p,
       uc_date := keep_stored (cp_date p) (uc_date r), uc_metadata := keep_stored (cp_metadata p) (uc_metadata r),
       uc_media := cp_media p, uc_item := keep_stored native (uc_item r), uc_updated := cp_stamp p\<rparr>"

definition upsert_coll :: "(int \<Rightarrow> nat option) \<Rightarrow> sync_db \<Rightarrow> coll_param \<Rightarrow> sync_db" where
  "upsert_coll native db p =
     (if \<exists>r \<in> set (sd_rows db). coll_conflict p r
      then db\<lparr>sd_rows := map (\<lambda>r. if coll_conflict p r then update_coll_row p (native (cp_release p)) r else r) (sd_rows db)\<rparr>
      else db\<lparr>sd_next := Suc (sd_next db),
              sd_rows := sd_rows db @ [new_coll_row (sd_next db) p (native (cp_release p))]\<rparr>)"

definition select_page :: "string \<Rightarrow> int list \<Rightarrow> coll_row list \<Rightarrow> coll_row list" where
  "select_page user ids rows = filter (\<lambda>r. uc_user r = user \<and> uc_release r \<in> set ids) rows"

type_synonym coll_key = "int \<times> int option"

definition row_key :: "coll_row \<Rightarrow> coll_key" where
  "row_key r = (uc_release r, uc_instance r)"

definition param_key :: "coll_param \<Rightarrow> coll_key" where
  "param_key p = (cp_release p, cp_instance p)"

definition page_index :: "coll_row list \<Rightarrow> (coll_key, coll_row) dict" where
  "page_index rows = foldl (\<lambda>d r. dict_set (row_key r) r d) [] rows"

text \<open>
  \<open>_MINT_OWNED_COPIES\<close>: an \<open>INSERT ... ON CONFLICT DO UPDATE\<close> may not affect one row twice; a
  copy that is already right is left alone and does not count.
\<close>

definition copy_differs :: "nat \<Rightarrow> int option \<Rightarrow> owned_copy \<Rightarrow> bool" where
  "copy_differs item acquired c \<longleftrightarrow> oc_item c \<noteq> item \<or> (acquired \<noteq> None \<and> oc_acquired c \<noteq> acquired)"

fun mint_copies :: "string \<Rightarrow> int \<Rightarrow> (nat \<times> nat \<times> int option) list \<Rightarrow> nat list \<Rightarrow> nat \<Rightarrow> owned_copy list
    \<Rightarrow> (string, nat \<times> owned_copy list) result" where
  "mint_copies user now [] touched n copies = Inr (n, copies)"
| "mint_copies user now ((row, item, acquired) # ms) touched n copies =
     (if row \<in> set touched then Inl ''ON CONFLICT DO UPDATE command cannot affect row a second time''
      else case find (\<lambda>c. oc_row c = Some row) copies of
        None \<Rightarrow>
          mint_copies user now ms (row # touched) (Suc n)
            (copies @ [\<lparr>oc_id = n, oc_user = user, oc_item = item, oc_row = Some row, oc_acquired = acquired, oc_updated = now\<rparr>])
      | Some c \<Rightarrow>
          if copy_differs item acquired c
          then mint_copies user now ms (row # touched) n
                 (map (\<lambda>c. if oc_row c = Some row
                           then c\<lparr>oc_item := item, oc_acquired := keep_stored acquired (oc_acquired c), oc_updated := now\<rparr>
                           else c) copies)
          else mint_copies user now ms touched n copies)"

text \<open>\<open>_LINK_OWNED_COPIES\<close>, with the links it made.\<close>

definition copy_of_row :: "owned_copy list \<Rightarrow> nat \<Rightarrow> nat option" where
  "copy_of_row copies row = map_option oc_id (find (\<lambda>c. oc_row c = Some row) copies)"

definition needs_link :: "owned_copy list \<Rightarrow> nat list \<Rightarrow> coll_row \<Rightarrow> bool" where
  "needs_link copies ids r \<longleftrightarrow> uc_id r \<in> set ids \<and> copy_of_row copies (uc_id r) \<noteq> None
     \<and> uc_copy r \<noteq> copy_of_row copies (uc_id r)"

definition link_copies :: "owned_copy list \<Rightarrow> nat list \<Rightarrow> coll_row list \<Rightarrow> coll_row list" where
  "link_copies copies ids rows =
     map (\<lambda>r. if needs_link copies ids r then r\<lparr>uc_copy := copy_of_row copies (uc_id r)\<rparr> else r) rows"

definition links_made :: "owned_copy list \<Rightarrow> nat list \<Rightarrow> coll_row list \<Rightarrow> (nat \<times> nat) list" where
  "links_made copies ids rows =
     map (\<lambda>r. (uc_id r, the (copy_of_row copies (uc_id r)))) (filter (needs_link copies ids) rows)"

definition ensure_owned_copies :: "string \<Rightarrow> int \<Rightarrow> coll_row list \<Rightarrow> sync_db
    \<Rightarrow> (string, (nat, nat) dict \<times> sync_db) result" where
  "ensure_owned_copies user now page_rows db =
     (let identified = filter (\<lambda>r. uc_item r \<noteq> None) page_rows; ids = map uc_id identified in
      if identified = [] then Inr ([], db)
      else case mint_copies user now (map (\<lambda>r. (uc_id r, the (uc_item r), uc_date r)) identified) [] (sd_next db) (sd_copies db) of
        Inl e \<Rightarrow> Inl e
      | Inr (n, copies) \<Rightarrow>
          let known = foldl (\<lambda>d r. dict_set (uc_id r) (the (uc_copy r)) d) [] (filter (\<lambda>r. uc_copy r \<noteq> None) identified);
              ids_of = foldl (\<lambda>d (row, copy). dict_set row copy d) known (links_made copies ids (sd_rows db))
          in Inr (ids_of, db\<lparr>sd_next := n, sd_copies := copies, sd_rows := link_copies copies ids (sd_rows db)\<rparr>))"

section \<open>Change events of a page\<close>

definition COLLECTION_TRACKED_FIELDS :: "string list" where
  "COLLECTION_TRACKED_FIELDS = [''folder_id'', ''rating'', ''date_added'']"

definition KEEP_WHEN_MISSING :: "string list" where
  "KEEP_WHEN_MISSING = [''date_added'']"

text \<open>A tracked field of a row, as a value that may be null.\<close>

definition tracked_field :: "string \<Rightarrow> coll_row \<Rightarrow> int option" where
  "tracked_field f r =
     (if f = ''folder_id'' then uc_folder r else if f = ''rating'' then Some (uc_rating r) else uc_date r)"

definition changed_fields :: "coll_row \<Rightarrow> coll_row \<Rightarrow> string list" where
  "changed_fields previous row =
     filter (\<lambda>f. tracked_field f previous \<noteq> tracked_field f row
                 \<and> \<not> (f \<in> set KEEP_WHEN_MISSING \<and> tracked_field f row = None)) COLLECTION_TRACKED_FIELDS"

text \<open>\<open>dict.fromkeys\<close>: each key once, in the order of its first occurrence.\<close>

definition first_keys :: "'k list \<Rightarrow> 'k list" where
  "first_keys ks = rev (remdups (rev ks))"

definition key_events :: "(coll_key, coll_row) dict \<Rightarrow> (coll_key, coll_row) dict \<Rightarrow> (nat, nat) dict \<Rightarrow> coll_key
    \<Rightarrow> sync_event list" where
  "key_events prior after copy_ids key =
     (case map_of after key of
        None \<Rightarrow> []
      | Some row \<Rightarrow>
          (case uc_item row of
             None \<Rightarrow> []
           | Some item \<Rightarrow>
               (case map_of prior key of
                  None \<Rightarrow> [CollectionAdded item (map_of copy_ids (uc_id row))]
                | Some previous \<Rightarrow>
                    if changed_fields previous row = [] then []
                    else [CollectionUpdated item (map_of copy_ids (uc_id row)) (changed_fields previous row)])))"

definition collection_page_events :: "coll_key list \<Rightarrow> (coll_key, coll_row) dict \<Rightarrow> (coll_key, coll_row) dict
    \<Rightarrow> (nat, nat) dict \<Rightarrow> sync_event list" where
  "collection_page_events keys prior after copy_ids =
     concat (map (key_events prior after copy_ids) (first_keys keys))"

text \<open>One page, one transaction: an error leaves everything as it was.\<close>

definition persist_collection_page :: "string \<Rightarrow> (int \<Rightarrow> nat option) \<Rightarrow> int \<Rightarrow> coll_param list \<Rightarrow> sync_db
    \<Rightarrow> (string, sync_event list \<times> sync_db) result" where
  "persist_collection_page user native now params db =
     (let ids = map cp_release params; keys = map param_key params;
          prior = page_index (select_page user ids (sd_rows db));
          db1 = foldl (upsert_coll native) db params;
          after = page_index (select_page user ids (sd_rows db1))
      in case ensure_owned_copies user now (List.map_filter (map_of after) keys) db1 of
           Inl e \<Rightarrow> Inl e
         | Inr (copy_ids, db2) \<Rightarrow> Inr (collection_page_events keys prior after copy_ids, db2))"

section \<open>A wantlist page in PostgreSQL\<close>

definition want_conflict :: "want_param \<Rightarrow> want_row \<Rightarrow> bool" where
  "want_conflict p r \<longleftrightarrow> uw_user r = wp_user p \<and> uw_release r = wp_release p"

definition new_want_row :: "nat \<Rightarrow> want_param \<Rightarrow> nat option \<Rightarrow> want_row" where
  "new_want_row n p native =
     \<lparr>uw_id = n, uw_user = wp_user p, uw_release = wp_release p, uw_title = wp_title p, uw_artist = wp_artist p,
      uw_year = wp_year p, uw_format = wp_format p, uw_rating = wp_rating p, uw_notes = wp_notes p,
      uw_date = wp_date p, uw_media = wp_media p, uw_item = native, uw_updated = wp_stamp p\<rparr>"

definition update_want_row :: "want_param \<Rightarrow> nat option \<Rightarrow> want_row \<Rightarrow> want_row" where
  "update_want_row p native r =
     r\<lparr>uw_title := wp_title p, uw_artist := wp_artist p, uw_year := wp_year p, uw_format := wp_format p,
       uw_rating := wp_rating p, uw_notes := wp_notes p, uw_date := keep_stored (wp_date p) (uw_date r),
       uw_media := wp_media p, uw_item := keep_stored native (uw_item r), uw_updated := wp_stamp p\<rparr>"

definition upsert_want :: "(int \<Rightarrow> nat option) \<Rightarrow> sync_db \<Rightarrow> want_param \<Rightarrow> sync_db" where
  "upsert_want native db p =
     (if \<exists>r \<in> set (sd_wants db). want_conflict p r
      then db\<lparr>sd_wants := map (\<lambda>r. if want_conflict p r then update_want_row p (native (wp_release p)) r else r) (sd_wants db)\<rparr>
      else db\<lparr>sd_next := Suc (sd_next db),
              sd_wants := sd_wants db @ [new_want_row (sd_next db) p (native (wp_release p))]\<rparr>)"

definition persist_wantlist_page :: "string \<Rightarrow> (int \<Rightarrow> nat option) \<Rightarrow> want_param list \<Rightarrow> sync_db
    \<Rightarrow> sync_event list \<times> sync_db" where
  "persist_wantlist_page user native params db =
     (let ids = map wp_release params;
          prior = map uw_release (filter (\<lambda>r. uw_user r = user \<and> uw_release r \<in> set ids) (sd_wants db));
          db1 = foldl (upsert_want native) db params
      in (concat (map (\<lambda>i. case native i of None \<Rightarrow> [] | Some item \<Rightarrow> if i \<in> set prior then [] else [WantAdded item])
                   (first_keys ids)), db1))"

section \<open>A page in the graph\<close>

text \<open>
  The query of a page: the user node, then for each item whose release is a node of the graph its
  edge, merged on the instance id.  Cypher refuses to merge on a null property, and an error rolls
  the whole query back.
\<close>

record rel_entry =
  re_release :: int
  re_instance :: "int option"
  re_rating :: int
  re_folder :: "int option"
  re_date :: "int option"
  re_catno :: "string option"

definition coll_entries :: "coll_item list \<Rightarrow> rel_entry list" where
  "coll_entries items =
     map (\<lambda>i. \<lparr>re_release = the (ci_release i), re_instance = (if given_id (ci_instance i) then ci_instance i else None),
               re_rating = rating_or_zero (ci_rating i), re_folder = ci_folder i, re_date = ci_date i,
               re_catno = catno_of (ci_labels i)\<rparr>)
       (filter (\<lambda>i. given_id (ci_release i)) items)"

definition want_entries :: "want_item list \<Rightarrow> rel_entry list" where
  "want_entries items =
     map (\<lambda>i. \<lparr>re_release = the (wi_release i), re_instance = None, re_rating = rating_or_zero (wi_rating i),
               re_folder = None, re_date = wi_date i, re_catno = catno_of (wi_labels i)\<rparr>)
       (filter (\<lambda>i. given_id (wi_release i)) items)"

definition set_catno :: "rel_entry \<Rightarrow> (int, string option) dict \<Rightarrow> (int, string option) dict" where
  "set_catno e releases =
     map (\<lambda>(r, c). if r = re_release e then (r, keep_stored (re_catno e) c) else (r, c)) releases"

definition coll_edge_match :: "string \<Rightarrow> int \<Rightarrow> int \<Rightarrow> coll_edge \<Rightarrow> bool" where
  "coll_edge_match user release inst c \<longleftrightarrow> ce_user c = user \<and> ce_release c = release \<and> ce_instance c = inst"

definition merge_coll_edge :: "string \<Rightarrow> int \<Rightarrow> rel_entry \<Rightarrow> int \<Rightarrow> coll_edge list \<Rightarrow> coll_edge list" where
  "merge_coll_edge user t e inst edges =
     (if \<exists>c \<in> set edges. coll_edge_match user (re_release e) inst c
      then map (\<lambda>c. if coll_edge_match user (re_release e) inst c
                    then c\<lparr>ce_rating := re_rating e, ce_folder := re_folder e, ce_date := keep_stored (re_date e) (ce_date c), ce_synced := t\<rparr>
                    else c) edges
      else edges @ [\<lparr>ce_user = user, ce_release = re_release e, ce_instance = inst, ce_rating = re_rating e,
                     ce_folder = re_folder e, ce_date = re_date e, ce_synced = t\<rparr>])"

fun merge_collected :: "string \<Rightarrow> int \<Rightarrow> rel_entry list \<Rightarrow> sync_db \<Rightarrow> (string, sync_db) result" where
  "merge_collected user t [] db = Inr db"
| "merge_collected user t (e # es) db =
     (if map_of (sd_releases db) (re_release e) = None then merge_collected user t es db
      else case re_instance e of
        None \<Rightarrow> Inl ''Cannot merge relationship using null property value for instance_id''
      | Some inst \<Rightarrow>
          merge_collected user t es
            (db\<lparr>sd_edges := merge_coll_edge user t e inst (sd_edges db), sd_releases := set_catno e (sd_releases db)\<rparr>))"

definition want_edge_match :: "string \<Rightarrow> int \<Rightarrow> want_edge \<Rightarrow> bool" where
  "want_edge_match user release w \<longleftrightarrow> we_user w = user \<and> we_release w = release"

definition merge_want_edge :: "string \<Rightarrow> int \<Rightarrow> rel_entry \<Rightarrow> want_edge list \<Rightarrow> want_edge list" where
  "merge_want_edge user t e edges =
     (if \<exists>w \<in> set edges. want_edge_match user (re_release e) w
      then map (\<lambda>w. if want_edge_match user (re_release e) w
                    then w\<lparr>we_rating := re_rating e, we_date := keep_stored (re_date e) (we_date w), we_synced := t\<rparr>
                    else w) edges
      else edges @ [\<lparr>we_user = user, we_release = re_release e, we_rating = re_rating e, we_date = re_date e, we_synced = t\<rparr>])"

definition merge_wanted :: "string \<Rightarrow> int \<Rightarrow> rel_entry list \<Rightarrow> sync_db \<Rightarrow> sync_db" where
  "merge_wanted user t es db =
     foldl (\<lambda>db e. if map_of (sd_releases db) (re_release e) = None then db
                   else db\<lparr>sd_want_edges := merge_want_edge user t e (sd_want_edges db),
                           sd_releases := set_catno e (sd_releases db)\<rparr>) db es"

definition graph_collection_page :: "string \<Rightarrow> string \<Rightarrow> int \<Rightarrow> rel_entry list \<Rightarrow> sync_db \<Rightarrow> (string, sync_db) result" where
  "graph_collection_page user username t es db =
     merge_collected user t es (db\<lparr>sd_users := dict_set user username (sd_users db)\<rparr>)"

definition graph_wantlist_page :: "string \<Rightarrow> string \<Rightarrow> int \<Rightarrow> rel_entry list \<Rightarrow> sync_db \<Rightarrow> sync_db" where
  "graph_wantlist_page user username t es db =
     merge_wanted user t es (db\<lparr>sd_users := dict_set user username (sd_users db)\<rparr>)"

end
