(* ===== verification/Sync_Run.thy ===== *)
theory Sync_Run
  imports Sync
begin

text \<open>
  The runs of \<open>src/api/syncer.py\<close>: the paging loop over the Discogs API with its rate-limit
  retries, the sweep of what a run did not touch, the snapshot, and the full sync with the record
  it leaves in the history.

  The Discogs API answers request \<open>k\<close> for page \<open>p\<close> as the environment says; a request, a page's
  transaction, its graph query, a sweep or the snapshot may fail, and the task may be cancelled
  while one of them is awaited.  The loop may run for ever if the API keeps announcing pages, so it
  takes fuel: one unit for each request.
\<close>

section \<open>The paging loop\<close>

definition MAX_RATE_LIMIT_RETRIES :: nat where "MAX_RATE_LIMIT_RETRIES = 5"

datatype sync_failure = SyncFailed string | SyncCancelled

record 'i page_reply =
  pr_status :: nat
  pr_items :: "'i list option"
  pr_pages :: "nat option"

text \<open>What \<open>data.get\<close> gives with its default.\<close>

definition reply_items :: "'i page_reply \<Rightarrow> 'i list" where
  "reply_items r = (case pr_items r of None \<Rightarrow> [] | Some items \<Rightarrow> items)"

definition reply_pages :: "'i page_reply \<Rightarrow> nat" where
  "reply_pages r = (case pr_pages r of None \<Rightarrow> 1 | Some n \<Rightarrow> n)"

text \<open>
  The environment of a run: the replies, the failures of a page's transaction and of its graph
  query, those of the two sweeps and of the snapshot, the native ids the page of a request
  resolves to, and the clock of the database at each request.
\<close>

record 'i sync_env =
  se_reply :: "nat \<Rightarrow> nat \<Rightarrow> (sync_failure, 'i page_reply) result"
  se_page :: "nat \<Rightarrow> sync_failure option"
  se_graph :: "nat \<Rightarrow> sync_failure option"
  se_sweep :: "sync_failure option"
  se_graph_sweep :: "sync_failure option"
  se_snapshot :: "sync_failure option"
  se_native :: "nat \<Rightarrow> int \<Rightarrow> nat option"
  se_now :: "nat \<Rightarrow> int"

text \<open>A step that may fail before it changes anything.\<close>

definition unless_failing :: "sync_failure option \<Rightarrow> 's \<Rightarrow> 's \<times> (sync_failure, 'a) result \<Rightarrow> 's \<times> (sync_failure, 'a) result" where
  "unless_failing f s r = (case f of Some e \<Rightarrow> (s, Inl e) | None \<Rightarrow> r)"

fun sync_pages :: "nat \<Rightarrow> (nat \<Rightarrow> nat \<Rightarrow> (sync_failure, 'i page_reply) result)
    \<Rightarrow> (nat \<Rightarrow> 'i list \<Rightarrow> 's \<Rightarrow> 's \<times> (sync_failure, nat) result)
    \<Rightarrow> nat \<Rightarrow> nat \<Rightarrow> nat \<Rightarrow> nat \<Rightarrow> 's \<Rightarrow> ('s \<times> (sync_failure, nat) result) option" where
  "sync_pages 0 reply handle k page retries synced s = None"
| "sync_pages (Suc n) reply handle k page retries synced s =
     (case reply k page of
        Inl f \<Rightarrow> Some (s, Inl f)
      | Inr r \<Rightarrow>
          if pr_status r = 429
          then if MAX_RATE_LIMIT_RETRIES < Suc retries then Some (s, Inl (SyncFailed ''Discogs rate limit retries exhausted''))
               else sync_pages n reply handle (Suc k) page (Suc retries) synced s
          else if pr_status r \<noteq> 200 then Some (s, Inl (SyncFailed ''Discogs API error''))
          else if reply_items r = [] then Some (s, Inr synced)
          else case handle k (reply_items r) s of
                 (s', Inl f) \<Rightarrow> Some (s', Inl f)
               | (s', Inr c) \<Rightarrow>
                   if reply_pages r \<le> page then Some (s', Inr (synced + c))
                   else sync_pages n reply handle (Suc k) (Suc page) 0 (synced + c) s')"

section \<open>The collection\<close>

text \<open>One fetched page: PostgreSQL and the events of the page, then the graph.\<close>

definition store_collection_page :: "sync_codec \<Rightarrow> 'i sync_env \<Rightarrow> string \<Rightarrow> int \<Rightarrow> nat \<Rightarrow> coll_item list \<Rightarrow> sync_db
    \<Rightarrow> sync_db \<times> (sync_failure, nat) result" where
  "store_collection_page sc env user t k items db =
     (let batch = coll_batch sc user t items in
      if batch = [] then (db, Inr 0)
      else unless_failing (se_page env k) db
        (case persist_collection_page user (se_native env k) (se_now env k) batch db of
           Inl e \<Rightarrow> (db, Inl (SyncFailed e))
         | Inr (evs, db') \<Rightarrow> (emit_events user evs db', Inr (length batch))))"

definition graph_page :: "'i sync_env \<Rightarrow> nat \<Rightarrow> nat \<Rightarrow> rel_entry list \<Rightarrow> (sync_db \<Rightarrow> (string, sync_db) result) \<Rightarrow> sync_db
    \<Rightarrow> sync_db \<times> (sync_failure, nat) result" where
  "graph_page env k c es query db =
     (if es = [] then (db, Inr c)
      else unless_failing (se_graph env k) db
        (case query db of Inl e \<Rightarrow> (db, Inl (SyncFailed e)) | Inr db' \<Rightarrow> (db', Inr c)))"

definition collection_page :: "sync_codec \<Rightarrow> 'i sync_env \<Rightarrow> string \<Rightarrow> string \<Rightarrow> int \<Rightarrow> nat \<Rightarrow> coll_item list \<Rightarrow> sync_db
    \<Rightarrow> sync_db \<times> (sync_failure, nat) result" where
  "collection_page sc env user username t k items db =
     (case store_collection_page sc env user t k items db of
        (db1, Inl f) \<Rightarrow> (db1, Inl f)
      | (db1, Inr c) \<Rightarrow> graph_page env k c (coll_entries items) (graph_collection_page user username t (coll_entries items)) db1)"

text \<open>
  The sweep: rows and edges of the user older than the run go; the owned copy of a deleted row
  stays and loses its link, as the foreign key nulls it.
\<close>

definition stale_row :: "string \<Rightarrow> int \<Rightarrow> coll_row \<Rightarrow> bool" where
  "stale_row user t r \<longleftrightarrow> uc_user r = user \<and> uc_updated r < t"

definition delete_stale_collection :: "string \<Rightarrow> int \<Rightarrow> sync_db \<Rightarrow> sync_db" where
  "delete_stale_collection user t db =
     (let gone = map uc_id (filter (stale_row user t) (sd_rows db)) in
      db\<lparr>sd_rows := filter (\<lambda>r. \<not> stale_row user t r) (sd_rows db),
         sd_copies := map (\<lambda>c. case oc_row c of
                                 None \<Rightarrow> c
                               | Some row \<Rightarrow> if row \<in> set gone then c\<lparr>oc_row := None\<rparr> else c) (sd_copies db)\<rparr>)"

definition removal_events :: "coll_row list \<Rightarrow> sync_event list" where
  "removal_events rows =
     concat (map (\<lambda>r. case uc_item r of None \<Rightarrow> [] | Some item \<Rightarrow> [CollectionRemoved item (uc_copy r)]) rows)"

definition delete_stale_edges :: "string \<Rightarrow> int \<Rightarrow> sync_db \<Rightarrow> sync_db" where
  "delete_stale_edges user t db = db\<lparr>sd_edges := filter (\<lambda>c. \<not> (ce_user c = user \<and> ce_synced c < t)) (sd_edges db)\<rparr>"

definition reconcile_stale_collection :: "'i sync_env \<Rightarrow> string \<Rightarrow> int \<Rightarrow> sync_db
    \<Rightarrow> sync_db \<times> (sync_failure, sync_event list) result" where
  "reconcile_stale_collection env user t db =
     unless_failing (se_sweep env) db
       (let db1 = delete_stale_collection user t db in
        unless_failing (se_graph_sweep env) db1
          (delete_stale_edges user t db1, Inr (removal_events (filter (stale_row user t) (sd_rows db)))))"

definition content_hash :: "sync_codec \<Rightarrow> nat list \<Rightarrow> string" where
  "content_hash sc ids = sc_digest sc (join_with [CHR 0x0A] (map (sc_id sc) ids))"

definition snapshot_of :: "sync_codec \<Rightarrow> string \<Rightarrow> int \<Rightarrow> sync_db \<Rightarrow> coll_snapshot" where
  "snapshot_of sc user t db =
     (let ids = sort (map oc_id (filter (\<lambda>c. oc_user c = user \<and> oc_row c \<noteq> None) (sd_copies db)))
      in \<lparr>cs_user = user, cs_taken = t, cs_count = length ids, cs_copies = ids, cs_hash = content_hash sc ids\<rparr>)"

definition write_collection_snapshot :: "sync_codec \<Rightarrow> string \<Rightarrow> int \<Rightarrow> sync_db \<Rightarrow> sync_db" where
  "write_collection_snapshot sc user t db = db\<lparr>sd_snapshots := sd_snapshots db @ [snapshot_of sc user t db]\<rparr>"

text \<open>What follows the loop, reached only when it ended normally.\<close>

definition finish_collection :: "sync_codec \<Rightarrow> 'i sync_env \<Rightarrow> string \<Rightarrow> int \<Rightarrow> nat \<Rightarrow> sync_db
    \<Rightarrow> sync_db \<times> (sync_failure, nat) result" where
  "finish_collection sc env user t synced db =
     (case reconcile_stale_collection env user t db of
        (db1, Inl f) \<Rightarrow> (db1, Inl f)
      | (db1, Inr removed) \<Rightarrow>
          let db2 = emit_events user removed db1 in
          unless_failing (se_snapshot env) db2 (write_collection_snapshot sc user t db2, Inr synced))"

definition sync_collection :: "nat \<Rightarrow> sync_codec \<Rightarrow> coll_item sync_env \<Rightarrow> string \<Rightarrow> string \<Rightarrow> int \<Rightarrow> sync_db
    \<Rightarrow> (sync_db \<times> (sync_failure, nat) result) option" where
  "sync_collection fuel sc env user username t db =
     (case sync_pages fuel (se_reply env) (collection_page sc env user username t) 0 1 0 0 db of
        None \<Rightarrow> None
      | Some (db1, Inl f) \<Rightarrow> Some (db1, Inl f)
      | Some (db1, Inr synced) \<Rightarrow> Some (finish_collection sc env user t synced db1))"

section \<open>The wantlist\<close>

definition store_wantlist_page :: "sync_codec \<Rightarrow> 'i sync_env \<Rightarrow> string \<Rightarrow> int \<Rightarrow> nat \<Rightarrow> want_item list \<Rightarrow> sync_db
    \<Rightarrow> sync_db \<times> (sync_failure, nat) result" where
  "store_wantlist_page sc env user t k items db =
     (let batch = want_batch sc user t items in
      if batch = [] then (db, Inr 0)
      else unless_failing (se_page env k) db
        (case persist_wantlist_page user (se_native env k) batch db of
           (evs, db') \<Rightarrow> (emit_events user evs db', Inr (length batch))))"

definition wantlist_page :: "sync_codec \<Rightarrow> 'i sync_env \<Rightarrow> string \<Rightarrow> string \<Rightarrow> int \<Rightarrow> nat \<Rightarrow> want_item list \<Rightarrow> sync_db
    \<Rightarrow> sync_db \<times> (sync_failure, nat) result" where
  "wantlist_page sc env user username t k items db =
     (case store_wantlist_page sc env user t k items db of
        (db1, Inl f) \<Rightarrow> (db1, Inl f)
      | (db1, Inr c) \<Rightarrow>
          graph_page env k c (want_entries items) (\<lambda>db. Inr (graph_wantlist_page user username t (want_entries items) db)) db1)"

definition stale_want :: "string \<Rightarrow> int \<Rightarrow> want_row \<Rightarrow> bool" where
  "stale_want user t r \<longleftrightarrow> uw_user r = user \<and> uw_updated r < t"

definition want_removal_events :: "want_row list \<Rightarrow> sync_event list" where
  "want_removal_events rows =
     concat (map (\<lambda>r. case uw_item r of None \<Rightarrow> [] | Some item \<Rightarrow> [WantRemoved item]) rows)"

definition reconcile_stale_wantlist :: "'i sync_env \<Rightarrow> string \<Rightarrow> int \<Rightarrow> sync_db
    \<Rightarrow> sync_db \<times> (sync_failure, sync_event list) result" where
  "reconcile_stale_wantlist env user t db =
     unless_failing (se_sweep env) db
       (let db1 = db\<lparr>sd_wants := filter (\<lambda>r. \<not> stale_want user t r) (sd_wants db)\<rparr> in
        unless_failing (se_graph_sweep env) db1
          (db1\<lparr>sd_want_edges := filter (\<lambda>w. \<not> (we_user w = user \<and> we_synced w < t)) (sd_want_edges db1)\<rparr>,
           Inr (want_removal_events (filter (stale_want user t) (sd_wants db)))))"

definition finish_wantlist :: "'i sync_env \<Rightarrow> string \<Rightarrow> int \<Rightarrow> nat \<Rightarrow> sync_db \<Rightarrow> sync_db \<times> (sync_failure, nat) result" where
  "finish_wantlist env user t synced db =
     (case reconcile_stale_wantlist env user t db of
        (db1, Inl f) \<Rightarrow> (db1, Inl f)
      | (db1, Inr removed) \<Rightarrow> (emit_events user removed db1, Inr synced))"

definition sync_wantlist :: "nat \<Rightarrow> sync_codec \<Rightarrow> want_item sync_env \<Rightarrow> string \<Rightarrow> string \<Rightarrow> int \<Rightarrow> sync_db
    \<Rightarrow> (sync_db \<times> (sync_failure, nat) result) option" where
  "sync_wantlist fuel sc env user username t db =
     (case sync_pages fuel (se_reply env) (wantlist_page sc env user username t) 0 1 0 0 db of
        None \<Rightarrow> None
      | Some (db1, Inl f) \<Rightarrow> Some (db1, Inl f)
      | Some (db1, Inr synced) \<Rightarrow> Some (finish_wantlist env user t synced db1))"

section \<open>The full sync and its history\<close>

record oauth_token =
  ot_user :: string
  ot_provider :: string
  ot_access :: string
  ot_secret :: string
  ot_username :: string

record sync_history_row =
  sh_id :: nat
  sh_user :: string
  sh_status :: string
  sh_items :: "nat option"
  sh_error :: "string option"

record sync_service =
  sv_db :: sync_db
  sv_tokens :: "oauth_token list"
  sv_config :: "(string, string) dict"
  sv_history :: "sync_history_row list"
  sv_invalidated :: "string list"

text \<open>The environment of a full sync: the two runs', the decryption of stored tokens, the failures of the
  two queries for them, whether there is a Valkey client, and whether the history update is rejected.\<close>

record full_env =
  fe_collection :: "coll_item sync_env"
  fe_wantlist :: "want_item sync_env"
  fe_codec :: sync_codec
  fe_collection_started :: int
  fe_wantlist_started :: int
  fe_decrypt :: "string \<Rightarrow> (sync_failure, string) result"
  fe_query :: "sync_failure option"
  fe_config_query :: "sync_failure option"
  fe_valkey :: bool
  fe_update_fails :: bool

record sync_result =
  sr_sync_id :: nat
  sr_status :: string
  sr_collection :: nat
  sr_wantlist :: nat
  sr_error :: "string option"

definition NO_TOKEN :: string where
  "NO_TOKEN = ''No Discogs OAuth token found for user. Please connect Discogs first.''"
definition NO_CREDENTIALS :: string where
  "NO_CREDENTIALS = ''Discogs app credentials not configured in app_config table''"
definition CANCELLED_MESSAGE :: string where
  "CANCELLED_MESSAGE = ''Sync cancelled (service shutdown or restart)''"

text \<open>The credentials: the user's token and the two keys of the application, each decrypted.\<close>

fun decrypt_all :: "(string \<Rightarrow> (sync_failure, string) result) \<Rightarrow> string list \<Rightarrow> (sync_failure, string list) result" where
  "decrypt_all dec [] = Inr []"
| "decrypt_all dec (c # cs) =
     (case dec c of
        Inl f \<Rightarrow> Inl f
      | Inr p \<Rightarrow> (case decrypt_all dec cs of Inl f \<Rightarrow> Inl f | Inr ps \<Rightarrow> Inr (p # ps)))"

definition discogs_username :: "full_env \<Rightarrow> string \<Rightarrow> sync_service \<Rightarrow> (sync_failure, string) result" where
  "discogs_username env user sv =
     (case fe_query env of
        Some f \<Rightarrow> Inl f
      | None \<Rightarrow>
          (case find (\<lambda>ot. ot_user ot = user \<and> ot_provider ot = ''discogs'') (sv_tokens sv) of
             None \<Rightarrow> Inl (SyncFailed NO_TOKEN)
           | Some ot \<Rightarrow>
               (case decrypt_all (fe_decrypt env) [ot_access ot, ot_secret ot] of
                  Inl f \<Rightarrow> Inl f
                | Inr _ \<Rightarrow>
                    (case fe_config_query env of
                       Some f \<Rightarrow> Inl f
                     | None \<Rightarrow>
                         let keys = [''discogs_consumer_key'', ''discogs_consumer_secret''];
                             stored = List.map_filter (map_of (sv_config sv)) keys
                         in (case decrypt_all (fe_decrypt env) stored of
                               Inl f \<Rightarrow> Inl f
                             | Inr _ \<Rightarrow> if list_all (\<lambda>k. dict_mem k (sv_config sv)) keys then Inr (ot_username ot)
                                        else Inl (SyncFailed NO_CREDENTIALS))))))"

text \<open>The body of the \<open>try\<close>: what it did, the two counts, and how it ended.\<close>

definition sync_body :: "nat \<Rightarrow> full_env \<Rightarrow> string \<Rightarrow> sync_service \<Rightarrow> (sync_db \<times> nat \<times> nat \<times> sync_failure option) option" where
  "sync_body fuel env user sv =
     (case discogs_username env user sv of
        Inl f \<Rightarrow> Some (sv_db sv, 0, 0, Some f)
      | Inr username \<Rightarrow>
          (case sync_collection fuel (fe_codec env) (fe_collection env) user username (fe_collection_started env) (sv_db sv) of
             None \<Rightarrow> None
           | Some (db1, Inl f) \<Rightarrow> Some (db1, 0, 0, Some f)
           | Some (db1, Inr c) \<Rightarrow>
               (case sync_wantlist fuel (fe_codec env) (fe_wantlist env) user username (fe_wantlist_started env) db1 of
                  None \<Rightarrow> None
                | Some (db2, Inl f) \<Rightarrow> Some (db2, c, 0, Some f)
                | Some (db2, Inr w) \<Rightarrow> Some (db2, c, w, None))))"

definition failure_message :: "sync_failure option \<Rightarrow> string option" where
  "failure_message f =
     (case f of None \<Rightarrow> None | Some (SyncFailed m) \<Rightarrow> Some m | Some SyncCancelled \<Rightarrow> Some CANCELLED_MESSAGE)"

text \<open>An empty message is no error to the status: \<open>str(exc)\<close> of an exception without arguments.\<close>

definition final_status :: "sync_failure option \<Rightarrow> string" where
  "final_status f =
     (if f = Some SyncCancelled then ''cancelled''
      else case failure_message f of
             None \<Rightarrow> ''completed''
           | Some m \<Rightarrow> if m = [] then ''completed'' else ''failed'')"

definition update_history :: "nat \<Rightarrow> string \<Rightarrow> nat \<Rightarrow> string option \<Rightarrow> sync_history_row list \<Rightarrow> sync_history_row list" where
  "update_history sync_id status items err rows =
     map (\<lambda>h. if sh_id h = sync_id then h\<lparr>sh_status := status, sh_items := Some items, sh_error := err\<rparr> else h) rows"

text \<open>The full sync: the state it leaves, and its result, or the cancellation it raises again.\<close>

definition run_full_sync :: "nat \<Rightarrow> full_env \<Rightarrow> string \<Rightarrow> nat \<Rightarrow> sync_service
    \<Rightarrow> (sync_service \<times> (sync_failure, sync_result) result) option" where
  "run_full_sync fuel env user sync_id sv =
     (case sync_body fuel env user sv of
        None \<Rightarrow> None
      | Some (db, c, w, f) \<Rightarrow>
          let status = final_status f;
              sv1 = sv\<lparr>sv_db := db,
                       sv_invalidated := (if fe_valkey env then sv_invalidated sv @ [user] else sv_invalidated sv),
                       sv_history := (if fe_update_fails env then sv_history sv
                                      else update_history sync_id status (c + w) (failure_message f) (sv_history sv))\<rparr>
          in Some (sv1,
                   if f = Some SyncCancelled then Inl SyncCancelled
                   else Inr \<lparr>sr_sync_id = sync_id, sr_status = status, sr_collection = c, sr_wantlist = w,
                             sr_error = failure_message f\<rparr>))"

definition reconcile_stale_sync_history :: "sync_history_row list \<Rightarrow> sync_history_row list" where
  "reconcile_stale_sync_history rows =
     map (\<lambda>h. if sh_status h = ''running''
              then h\<lparr>sh_status := ''failed'', sh_error := Some ''Interrupted by service restart''\<rparr> else h) rows"

end
