(* ===== verification/Sync_Loop.thy ===== *)
theory Sync_Loop
  imports Sync_Run
begin

text \<open>
  The paging loop on its own: which pages it reads, that it ends, and that what every page keeps
  the loop keeps.
\<close>

section \<open>The pages a run reads\<close>

fun pages_read :: "nat \<Rightarrow> (nat \<Rightarrow> nat \<Rightarrow> (sync_failure, 'i page_reply) result) \<Rightarrow> nat \<Rightarrow> nat \<Rightarrow> nat
    \<Rightarrow> (nat \<times> 'i list) list option" where
  "pages_read 0 reply k page retries = None"
| "pages_read (Suc n) reply k page retries =
     (case reply k page of
        Inl f \<Rightarrow> None
      | Inr r \<Rightarrow>
          if pr_status r = 429
          then if MAX_RATE_LIMIT_RETRIES < Suc retries then None else pages_read n reply (Suc k) page (Suc retries)
          else if pr_status r \<noteq> 200 then None
          else if reply_items r = [] then Some []
          else if reply_pages r \<le> page then Some [(k, reply_items r)]
          else map_option (Cons (k, reply_items r)) (pages_read n reply (Suc k) (Suc page) 0))"

fun handle_pages :: "(nat \<Rightarrow> 'i list \<Rightarrow> 's \<Rightarrow> 's \<times> (sync_failure, nat) result) \<Rightarrow> (nat \<times> 'i list) list \<Rightarrow> nat \<Rightarrow> 's
    \<Rightarrow> 's \<times> (sync_failure, nat) result" where
  "handle_pages handle [] got s = (s, Inr got)"
| "handle_pages handle ((k, items) # ps) got s =
     (case handle k items s of
        (s', Inl f) \<Rightarrow> (s', Inl f)
      | (s', Inr c) \<Rightarrow> handle_pages handle ps (got + c) s')"

text \<open>A run that ends normally has read its pages and handled them one after the other.\<close>

lemma sync_pages_completed:
  "sync_pages n reply handle k page retries got s = Some (s', Inr m) \<Longrightarrow>
   \<exists>ps. pages_read n reply k page retries = Some ps \<and> handle_pages handle ps got s = (s', Inr m)"
proof (induction n arbitrary: k page retries got s)
  case (Suc n)
  then obtain r where r: "reply k page = Inr r" by (auto split: sum.splits)
  show ?case
  proof (cases "pr_status r = 429")
    case True
    then show ?thesis using Suc r by (auto split: if_splits)
  next
    case False
    with Suc.prems r have ok: "pr_status r = 200" by (auto split: if_splits)
    show ?thesis
    proof (cases "reply_items r = []")
      case True
      then show ?thesis using Suc.prems r False ok by simp
    next
      case items: False
      obtain s1 res where h: "handle k (reply_items r) s = (s1, res)" by fastforce
      with Suc.prems r ok items obtain c where res: "res = Inr c" by (cases res) auto
      show ?thesis
      proof (cases "reply_pages r \<le> page")
        case True
        then show ?thesis using Suc.prems r ok items h res by auto
      next
        case more: False
        then have "sync_pages n reply handle (Suc k) (Suc page) 0 (got + c) s1 = Some (s', Inr m)"
          using Suc.prems r ok items h res by simp
        from Suc.IH [OF this] show ?thesis using r ok items h res more by auto
      qed
    qed
  qed
qed simp

lemma pages_read_ok:
  "pages_read n reply k page retries = Some ps \<Longrightarrow> \<forall>k page r. reply k page = Inr r \<longrightarrow> P (reply_items r) \<Longrightarrow>
   \<forall>(k, items) \<in> set ps. P items"
proof (induction n arbitrary: k page retries ps)
  case (Suc n)
  then obtain r where r: "reply k page = Inr r" by (auto split: sum.splits)
  then have "P (reply_items r)" using Suc.prems(2) by blast
  then show ?case using Suc.IH [OF _ Suc.prems(2)] Suc.prems(1) r by (fastforce split: if_splits)
qed simp

lemma handle_pages_completed:
  "handle_pages handle ps got s = (s', Inr m) \<Longrightarrow> (k, items) \<in> set ps \<Longrightarrow> \<exists>s1 s2 c. handle k items s1 = (s2, Inr c)"
proof (induction ps arbitrary: got s)
  case (Cons p ps)
  obtain k' items' where p: "p = (k', items')" by fastforce
  obtain s1 res where h: "handle k' items' s = (s1, res)" by fastforce
  then obtain c where "res = Inr c" using Cons.prems(1) p by (cases res) auto
  then show ?case using Cons p h by auto
qed simp

section \<open>What every page keeps\<close>

text \<open>
  A client of the loop: its handler keeps a relation to the state the run started from, whether
  the page succeeds or fails, and the relation is reflexive and transitive where the invariant
  holds.
\<close>

locale paged_sync =
  fixes handle :: "nat \<Rightarrow> 'i list \<Rightarrow> 's \<Rightarrow> 's \<times> (sync_failure, nat) result"
    and inv :: "'s \<Rightarrow> bool"
    and keeps :: "'s \<Rightarrow> 's \<Rightarrow> bool"
    and ok :: "'i list \<Rightarrow> bool"
  assumes handle_inv: "inv s \<Longrightarrow> ok items \<Longrightarrow> handle k items s = (s', r) \<Longrightarrow> inv s'"
    and handle_keeps: "inv s \<Longrightarrow> ok items \<Longrightarrow> handle k items s = (s', r) \<Longrightarrow> keeps s s'"
    and keeps_refl: "keeps s s"
    and keeps_trans: "keeps s s' \<Longrightarrow> keeps s' s'' \<Longrightarrow> keeps s s''"
begin

lemma pages_keep:
  "\<forall>k page r. reply k page = Inr r \<longrightarrow> ok (reply_items r) \<Longrightarrow> inv s \<Longrightarrow> sync_pages n reply handle k page retries got s = Some (s', r) \<Longrightarrow> inv s' \<and> keeps s s'"
proof (induction n arbitrary: k page retries got s)
  case (Suc n)
  show ?case
  proof (cases "reply k page")
    case (Inl f)
    then show ?thesis using Suc.prems keeps_refl by auto
  next
    case (Inr q)
    consider (limited) "pr_status q = 429" | (failed) "pr_status q \<noteq> 429" "pr_status q \<noteq> 200"
      | (empty) "pr_status q = 200" "reply_items q = []" | (page) "pr_status q = 200" "reply_items q \<noteq> []" by blast
    then show ?thesis
    proof cases
      case limited
      then show ?thesis using Suc Inr keeps_refl by (auto split: if_splits)
    next
      case page
      obtain s1 res where h: "handle k (reply_items q) s = (s1, res)" by fastforce
      have i: "inv s1" "keeps s s1" using handle_inv [OF Suc.prems(2) _ h] handle_keeps [OF Suc.prems(2) _ h] Suc.prems(1) Inr by simp_all
      show ?thesis
      proof (cases res)
        case (Inl f)
        then show ?thesis using Suc.prems Inr page h i \<open>reply k page = Inr q\<close> by auto
      next
        case res: (Inr c)
        show ?thesis
        proof (cases "reply_pages q \<le> page")
          case True
          then show ?thesis using Suc.prems \<open>reply k page = Inr q\<close> page h i res by auto
        next
          case False
          then have "sync_pages n reply handle (Suc k) (Suc page) 0 (got + c) s1 = Some (s', r)"
            using Suc.prems \<open>reply k page = Inr q\<close> page h res by simp
          from Suc.IH [OF Suc.prems(1) i(1) this] show ?thesis using keeps_trans [OF i(2)] by blast
        qed
      qed
    qed (use Suc.prems Inr keeps_refl in auto)
  qed
qed simp

lemma handled_keep: "\<forall>(k, items) \<in> set ps. ok items \<Longrightarrow> inv s \<Longrightarrow> handle_pages handle ps got s = (s', r) \<Longrightarrow> inv s' \<and> keeps s s'"
proof (induction ps arbitrary: got s)
  case (Cons p ps)
  obtain k items where p: "p = (k, items)" by fastforce
  obtain s1 res where h: "handle k items s = (s1, res)" by fastforce
  have i: "inv s1" "keeps s s1" using handle_inv [OF Cons.prems(2) _ h] handle_keeps [OF Cons.prems(2) _ h] Cons.prems(1) p by simp_all
  show ?case
  proof (cases res)
    case (Inr c)
    then show ?thesis using Cons.IH [OF _ i(1), of "got + c"] Cons.prems(1,3) p h keeps_trans [OF i(2)] by auto
  qed (use Cons.prems p h i in auto)
qed (simp add: keeps_refl)

end

section \<open>The loop ends\<close>

text \<open>An API that never announces more than \<open>m\<close> pages.\<close>

definition pages_bounded :: "nat \<Rightarrow> (nat \<Rightarrow> nat \<Rightarrow> (sync_failure, 'i page_reply) result) \<Rightarrow> bool" where
  "pages_bounded m reply \<longleftrightarrow> (\<forall>k page r. reply k page = Inr r \<longrightarrow> reply_pages r \<le> m)"

lemma sync_pages_ends:
  assumes "pages_bounded m reply"
  shows "retries \<le> MAX_RATE_LIMIT_RETRIES \<Longrightarrow> page \<le> m \<Longrightarrow>
    (m - page) * Suc MAX_RATE_LIMIT_RETRIES + (Suc MAX_RATE_LIMIT_RETRIES - retries) \<le> n \<Longrightarrow>
    sync_pages n reply handle k page retries got s \<noteq> None"
proof (induction n arbitrary: k page retries got s)
  case 0
  then show ?case by simp
next
  case (Suc n)
  show ?case
  proof (cases "reply k page")
    case (Inr r)
    have le: "reply_pages r \<le> m" using assms Inr by (auto simp: pages_bounded_def)
    show ?thesis
    proof (cases "pr_status r = 429")
      case True
      show ?thesis
      proof (cases "MAX_RATE_LIMIT_RETRIES < Suc retries")
        case False
        then have "sync_pages n reply handle (Suc k) page (Suc retries) got s \<noteq> None"
          using Suc.prems by (intro Suc.IH) auto
        then show ?thesis using Inr True False by simp
      qed (use Inr True in simp)
    next
      case ok: False
      show ?thesis
      proof (cases "pr_status r \<noteq> 200 \<or> reply_items r = []")
        case True
        then show ?thesis using Inr ok by auto
      next
        case False
        obtain s1 res where h: "handle k (reply_items r) s = (s1, res)" by fastforce
        show ?thesis
        proof (cases res)
          case res: (Inr c)
          show ?thesis
          proof (cases "reply_pages r \<le> page")
            case more: False
            then have p: "Suc page \<le> m" using le by simp
            then have "m - page = Suc (m - Suc page)" by simp
            then have "(m - Suc page) * Suc MAX_RATE_LIMIT_RETRIES + (Suc MAX_RATE_LIMIT_RETRIES - 0) \<le> n"
              using Suc.prems by simp
            then have "sync_pages n reply handle (Suc k) (Suc page) 0 (got + c) s1 \<noteq> None"
              using p by (intro Suc.IH) simp_all
            then show ?thesis using Inr False h res more by simp
          qed (use Inr False h res in simp)
        qed (use Inr False h in simp)
      qed
    qed
  qed simp
qed

text \<open>More fuel changes nothing.\<close>

lemma sync_pages_mono:
  "sync_pages n reply handle k page retries got s = Some x \<Longrightarrow> n \<le> n' \<Longrightarrow>
   sync_pages n' reply handle k page retries got s = Some x"
proof (induction n arbitrary: n' k page retries got s)
  case (Suc n)
  then obtain m where n': "n' = Suc m" "n \<le> m" by (cases n') auto
  show ?case using Suc.prems(1) Suc.IH [OF _ n'(2)]
    by (auto simp: n' split: sum.splits if_splits prod.splits)
qed simp

text \<open>An API that always answers a page and announces one more keeps the loop going for ever.\<close>

lemma endless_pages:
  assumes "\<And>k page. \<exists>r. reply k page = Inr r \<and> pr_status r = 200 \<and> reply_items r \<noteq> [] \<and> page < reply_pages r"
    and "\<And>k items s. \<exists>s' c. handle k items s = (s', Inr c)"
  shows "sync_pages n reply handle k page retries got s = None"
proof (induction n arbitrary: k page retries got s)
  case (Suc n)
  obtain r where r: "reply k page = Inr r" "pr_status r = 200" "reply_items r \<noteq> []" "page < reply_pages r"
    using assms(1) by blast
  obtain s' c where "handle k (reply_items r) s = (s', Inr c)" using assms(2) by blast
  then show ?case using r Suc.IH by simp
qed simp

end
