(* ===== verification/Sync_Tables.thy ===== *)
theory Sync_Tables
  imports Sync_Loop
begin

text \<open>
  The page transactions on their tables: the invariant of the collection and its owned copies, and
  what a page's upserts, mints and links do to the row of each key.
\<close>

section \<open>The invariant\<close>

definition rows_ok :: "nat \<Rightarrow> coll_row list \<Rightarrow> bool" where
  "rows_ok n rows \<longleftrightarrow> distinct (map uc_id rows) \<and> (\<forall>r \<in> set rows. uc_id r < n \<and> uc_instance r \<noteq> None)
     \<and> distinct (map (\<lambda>r. (uc_user r, row_key r)) rows)"

text \<open>At most one copy for a row, and a linked copy is of a row of its user.\<close>

definition copies_ok :: "nat \<Rightarrow> coll_row list \<Rightarrow> owned_copy list \<Rightarrow> bool" where
  "copies_ok n rows copies \<longleftrightarrow> distinct (map oc_id copies) \<and> (\<forall>c \<in> set copies. oc_id c < n)
     \<and> (\<forall>c \<in> set copies. \<forall>c' \<in> set copies. oc_row c = oc_row c' \<and> oc_row c \<noteq> None \<longrightarrow> c = c')
     \<and> (\<forall>c \<in> set copies. \<forall>row. oc_row c = Some row \<longrightarrow> (\<exists>r \<in> set rows. uc_id r = row \<and> uc_user r = oc_user c))"

text \<open>A row with an item has the copy that names it, and the copy is of that item.\<close>

definition linked_ok :: "coll_row list \<Rightarrow> owned_copy list \<Rightarrow> bool" where
  "linked_ok rows copies \<longleftrightarrow> (\<forall>r \<in> set rows.
     (uc_item r = None \<longrightarrow> uc_copy r = None) \<and>
     (\<forall>item. uc_item r = Some item \<longrightarrow>
        (\<exists>c \<in> set copies. oc_row c = Some (uc_id r) \<and> uc_copy r = Some (oc_id c) \<and> oc_item c = item
            \<and> (uc_date r \<noteq> None \<longrightarrow> oc_acquired c = uc_date r))))"

section \<open>The row of a key\<close>

definition row_of :: "string \<Rightarrow> coll_row list \<Rightarrow> coll_key \<Rightarrow> coll_row option" where
  "row_of user rows key = find (\<lambda>r. uc_user r = user \<and> row_key r = key) rows"

lemma find_map_same:
  "(\<And>x. x \<in> set xs \<Longrightarrow> P (f x) = P x) \<Longrightarrow> find P (map f xs) = map_option f (find P xs)"
  by (induction xs) auto

lemma find_append: "find P (xs @ ys) = (case find P xs of None \<Rightarrow> find P ys | Some x \<Rightarrow> Some x)"
  by (induction xs) auto

lemma find_iff:
  assumes "\<And>x y. x \<in> set xs \<Longrightarrow> y \<in> set xs \<Longrightarrow> P x \<Longrightarrow> P y \<Longrightarrow> x = y"
  shows "find P xs = Some x \<longleftrightarrow> x \<in> set xs \<and> P x"
proof
  show "find P xs = Some x \<Longrightarrow> x \<in> set xs \<and> P x" by (auto simp: find_Some_iff)
  assume x: "x \<in> set xs \<and> P x"
  then obtain y where y: "find P xs = Some y" by (cases "find P xs") (auto simp: find_None_iff)
  then have "y \<in> set xs \<and> P y" by (auto simp: find_Some_iff)
  then show "find P xs = Some x" using assms x y by blast
qed

lemma row_unique:
  assumes "rows_ok n rows" "r \<in> set rows" "r' \<in> set rows" "uc_user r = uc_user r'" "row_key r = row_key r'"
  shows "r = r'"
  using assms by (auto simp: rows_ok_def distinct_map inj_on_def)

lemma row_of_iff:
  assumes "rows_ok n rows"
  shows "row_of user rows key = Some r \<longleftrightarrow> r \<in> set rows \<and> uc_user r = user \<and> row_key r = key"
  unfolding row_of_def by (rule find_iff) (auto dest: row_unique [OF assms])

lemma row_ofD: "row_of user rows key = Some r \<Longrightarrow> r \<in> set rows \<and> uc_user r = user \<and> row_key r = key"
  unfolding row_of_def by (induction rows) (auto split: if_splits)

lemma row_of_None: "row_of user rows key = None \<longleftrightarrow> (\<forall>r \<in> set rows. \<not> (uc_user r = user \<and> row_key r = key))"
  by (auto simp: row_of_def find_None_iff)

section \<open>Upserts\<close>

lemma update_row_fields [simp]:
  "uc_id (update_coll_row p n r) = uc_id r" "uc_user (update_coll_row p n r) = uc_user r"
  "uc_release (update_coll_row p n r) = uc_release r" "uc_instance (update_coll_row p n r) = uc_instance r"
  "uc_copy (update_coll_row p n r) = uc_copy r" "row_key (update_coll_row p n r) = row_key r"
  by (simp_all add: update_coll_row_def row_key_def)

lemma new_row_fields [simp]:
  "uc_id (new_coll_row m p n) = m" "uc_user (new_coll_row m p n) = cp_user p" "row_key (new_coll_row m p n) = param_key p"
  "uc_instance (new_coll_row m p n) = cp_instance p" "uc_copy (new_coll_row m p n) = None" "uc_item (new_coll_row m p n) = n"
  by (simp_all add: new_coll_row_def row_key_def param_key_def)

lemma conflict_key:
  "cp_instance p \<noteq> None \<Longrightarrow> coll_conflict p r \<longleftrightarrow> uc_user r = cp_user p \<and> row_key r = param_key p"
  by (auto simp: coll_conflict_def row_key_def param_key_def)

text \<open>The table after an upsert, and the other tables.\<close>

definition upserted :: "(int \<Rightarrow> nat option) \<Rightarrow> coll_param \<Rightarrow> coll_row \<Rightarrow> coll_row" where
  "upserted native p r = (if coll_conflict p r then update_coll_row p (native (cp_release p)) r else r)"

lemma upserted_fields [simp]:
  "uc_id (upserted native p r) = uc_id r" "uc_user (upserted native p r) = uc_user r"
  "row_key (upserted native p r) = row_key r" "uc_instance (upserted native p r) = uc_instance r"
  "uc_copy (upserted native p r) = uc_copy r"
  by (simp_all add: upserted_def)

lemma upsert_cases:
  obtains (update) "\<exists>r \<in> set (sd_rows db). coll_conflict p r"
      "upsert_coll native db p = db\<lparr>sd_rows := map (upserted native p) (sd_rows db)\<rparr>"
    | (insert) "\<not> (\<exists>r \<in> set (sd_rows db). coll_conflict p r)"
      "upsert_coll native db p = db\<lparr>sd_next := Suc (sd_next db),
         sd_rows := sd_rows db @ [new_coll_row (sd_next db) p (native (cp_release p))]\<rparr>"
proof (cases "\<exists>r \<in> set (sd_rows db). coll_conflict p r")
  case True
  then have "upsert_coll native db p = db\<lparr>sd_rows := map (upserted native p) (sd_rows db)\<rparr>"
    unfolding upsert_coll_def upserted_def by simp
  then show thesis using update [OF True] by blast
next
  case False
  then have "upsert_coll native db p = db\<lparr>sd_next := Suc (sd_next db),
         sd_rows := sd_rows db @ [new_coll_row (sd_next db) p (native (cp_release p))]\<rparr>"
    unfolding upsert_coll_def by simp
  then show thesis using insert [OF False] by blast
qed

lemma upsert_other_tables [simp]:
  "sd_copies (upsert_coll native db p) = sd_copies db" "sd_wants (upsert_coll native db p) = sd_wants db"
  "sd_snapshots (upsert_coll native db p) = sd_snapshots db" "sd_users (upsert_coll native db p) = sd_users db"
  "sd_releases (upsert_coll native db p) = sd_releases db" "sd_edges (upsert_coll native db p) = sd_edges db"
  "sd_want_edges (upsert_coll native db p) = sd_want_edges db" "sd_events (upsert_coll native db p) = sd_events db"
  by (simp_all add: upsert_coll_def)

lemma upsert_rows_ok:
  assumes "rows_ok (sd_next db) (sd_rows db)" "cp_instance p \<noteq> None"
  shows "rows_ok (sd_next (upsert_coll native db p)) (sd_rows (upsert_coll native db p)) \<and> sd_next db \<le> sd_next (upsert_coll native db p)"
proof (cases rule: upsert_cases [of db p native])
  case update
  have "map uc_id (map (upserted native p) (sd_rows db)) = map uc_id (sd_rows db)"
    "map (\<lambda>r. (uc_user r, row_key r)) (map (upserted native p) (sd_rows db)) = map (\<lambda>r. (uc_user r, row_key r)) (sd_rows db)"
    by simp_all
  then show ?thesis using assms(1) unfolding update(2) rows_ok_def by (auto simp del: map_map)
next
  case insert
  have "(cp_user p, param_key p) \<notin> set (map (\<lambda>r. (uc_user r, row_key r)) (sd_rows db))"
    using insert(1) conflict_key [OF assms(2)] by auto
  moreover have "sd_next db \<notin> set (map uc_id (sd_rows db))" using assms(1) by (fastforce simp: rows_ok_def)
  ultimately show ?thesis using assms unfolding insert(2) rows_ok_def by (auto simp: less_Suc_eq)
qed

lemma row_of_upsert:
  assumes "cp_instance p \<noteq> None"
  shows "row_of user (sd_rows (upsert_coll native db p)) key =
     (if user = cp_user p \<and> key = param_key p
      then Some (case row_of user (sd_rows db) key of
                   None \<Rightarrow> new_coll_row (sd_next db) p (native (cp_release p))
                 | Some r \<Rightarrow> update_coll_row p (native (cp_release p)) r)
      else row_of user (sd_rows db) key)"
proof (cases rule: upsert_cases [of db p native])
  case update
  have f: "row_of user (map (upserted native p) (sd_rows db)) key = map_option (upserted native p) (row_of user (sd_rows db) key)"
    unfolding row_of_def by (rule find_map_same) simp
  show ?thesis
  proof (cases "user = cp_user p \<and> key = param_key p")
    case True
    then obtain r where r: "row_of user (sd_rows db) key = Some r"
      using update(1) conflict_key [OF assms] row_of_None [of user "sd_rows db" key] by fastforce
    then have "coll_conflict p r" unfolding conflict_key [OF assms] row_of_def using True by (auto simp: find_Some_iff)
    then show ?thesis using True r f update(2) by (simp add: upserted_def)
  next
    case False
    have "upserted native p r = r" if "row_of user (sd_rows db) key = Some r" for r
    proof -
      have "uc_user r = user" "row_key r = key" using that by (auto simp: row_of_def find_Some_iff)
      then show ?thesis using False conflict_key [OF assms] by (auto simp: upserted_def)
    qed
    then show ?thesis using False f update(2) by (cases "row_of user (sd_rows db) key") auto
  qed
next
  case insert
  have "row_of user (sd_rows db) key = None" if "user = cp_user p \<and> key = param_key p"
    using insert(1) that conflict_key [OF assms] by (auto simp: row_of_None)
  then show ?thesis unfolding insert(2) row_of_def by (auto simp: find_append split: option.splits)
qed

lemma upsert_copies_ok:
  assumes "copies_ok (sd_next db) (sd_rows db) (sd_copies db)"
  shows "copies_ok (sd_next (upsert_coll native db p)) (sd_rows (upsert_coll native db p)) (sd_copies db)"
proof (cases rule: upsert_cases [of db p native])
  case update
  then show ?thesis using assms by (fastforce simp: copies_ok_def)
next
  case insert
  then show ?thesis using assms by (fastforce simp: copies_ok_def less_Suc_eq)
qed

text \<open>Where the row of a page is not yet linked to its item's copy, the rest of the table is.\<close>

definition linked_row :: "owned_copy list \<Rightarrow> coll_row \<Rightarrow> bool" where
  "linked_row copies r \<longleftrightarrow> (uc_item r = None \<longrightarrow> uc_copy r = None) \<and>
     (\<forall>item. uc_item r = Some item \<longrightarrow>
        (\<exists>c \<in> set copies. oc_row c = Some (uc_id r) \<and> uc_copy r = Some (oc_id c) \<and> oc_item c = item
            \<and> (uc_date r \<noteq> None \<longrightarrow> oc_acquired c = uc_date r)))"

text \<open>What an upsert may leave: a copy, if linked, is the row's own.\<close>

definition own_copy :: "owned_copy list \<Rightarrow> coll_row \<Rightarrow> bool" where
  "own_copy copies r \<longleftrightarrow> (\<forall>i. uc_copy r = Some i \<longrightarrow> (\<exists>c \<in> set copies. oc_row c = Some (uc_id r) \<and> oc_id c = i))
     \<and> (uc_copy r \<noteq> None \<longrightarrow> uc_item r \<noteq> None)"

lemma linked_ok_def': "linked_ok rows copies \<longleftrightarrow> (\<forall>r \<in> set rows. linked_row copies r)"
  by (simp add: linked_ok_def linked_row_def)

lemma linked_own: "linked_row copies r \<Longrightarrow> own_copy copies r"
  by (cases "uc_item r") (auto simp: linked_row_def own_copy_def)

lemma upserted_own: "own_copy copies r \<Longrightarrow> own_copy copies (upserted native p r)"
  by (auto simp: own_copy_def upserted_def update_coll_row_def keep_stored_def split: option.splits)

lemma upsert_own:
  assumes "\<forall>r \<in> set (sd_rows db). own_copy copies r"
  shows "\<forall>r \<in> set (sd_rows (upsert_coll native db p)). own_copy copies r"
proof (cases rule: upsert_cases [of db p native])
  case update
  then show ?thesis using assms upserted_own by auto
next
  case insert
  then show ?thesis using assms by (auto simp: own_copy_def)
qed

section \<open>A page of upserts\<close>

definition param_ok :: "string \<Rightarrow> coll_param \<Rightarrow> bool" where
  "param_ok user p \<longleftrightarrow> cp_user p = user \<and> cp_instance p \<noteq> None"

lemma upserts_ok:
  fixes native :: "int \<Rightarrow> nat option" and db :: sync_db and ps :: "coll_param list"
  assumes "\<forall>p \<in> set ps. cp_instance p \<noteq> None" "rows_ok (sd_next db) (sd_rows db)"
    "copies_ok (sd_next db) (sd_rows db) (sd_copies db)" "\<forall>r \<in> set (sd_rows db). own_copy (sd_copies db) r"
  defines "db' \<equiv> foldl (upsert_coll native) db ps"
  shows "rows_ok (sd_next db') (sd_rows db') \<and> copies_ok (sd_next db') (sd_rows db') (sd_copies db)
    \<and> (\<forall>r \<in> set (sd_rows db'). own_copy (sd_copies db) r) \<and> sd_next db \<le> sd_next db'"
  using assms(1-4) unfolding db'_def
proof (induction ps arbitrary: db)
  case (Cons p ps)
  have r: "rows_ok (sd_next (upsert_coll native db p)) (sd_rows (upsert_coll native db p)) \<and> sd_next db \<le> sd_next (upsert_coll native db p)"
    using Cons.prems by (intro upsert_rows_ok) auto
  have c: "copies_ok (sd_next (upsert_coll native db p)) (sd_rows (upsert_coll native db p)) (sd_copies (upsert_coll native db p))"
    using upsert_copies_ok [OF Cons.prems(3)] by simp
  have o: "\<forall>r \<in> set (sd_rows (upsert_coll native db p)). own_copy (sd_copies (upsert_coll native db p)) r"
    using upsert_own [OF Cons.prems(4)] by simp
  have "\<forall>p \<in> set ps. cp_instance p \<noteq> None" using Cons.prems(1) by simp
  from Cons.IH [OF this conjunct1 [OF r] c o] show ?case using r by auto
qed simp

lemma upserts_other_tables [simp]:
  "sd_copies (foldl (upsert_coll native) db ps) = sd_copies db" "sd_wants (foldl (upsert_coll native) db ps) = sd_wants db"
  "sd_snapshots (foldl (upsert_coll native) db ps) = sd_snapshots db" "sd_users (foldl (upsert_coll native) db ps) = sd_users db"
  "sd_releases (foldl (upsert_coll native) db ps) = sd_releases db" "sd_edges (foldl (upsert_coll native) db ps) = sd_edges db"
  "sd_want_edges (foldl (upsert_coll native) db ps) = sd_want_edges db" "sd_events (foldl (upsert_coll native) db ps) = sd_events db"
  by (induction ps arbitrary: db) simp_all

section \<open>Minting\<close>

lemma copy_unique:
  "copies_ok n rows copies \<Longrightarrow> c \<in> set copies \<Longrightarrow> c' \<in> set copies \<Longrightarrow> oc_row c = Some row \<Longrightarrow> oc_row c' = Some row \<Longrightarrow> c = c'"
  unfolding copies_ok_def by (metis option.distinct(1))

lemma find_copy:
  assumes "copies_ok n rows copies"
  shows "find (\<lambda>c. oc_row c = Some row) copies = Some c \<longleftrightarrow> c \<in> set copies \<and> oc_row c = Some row"
  by (rule find_iff) (rule copy_unique [OF assms])

text \<open>What a mint keeps of the copies: their ids and rows, in place.\<close>

definition same_places :: "owned_copy list \<Rightarrow> owned_copy list \<Rightarrow> bool" where
  "same_places cs cs' \<longleftrightarrow> (\<exists>new. map (\<lambda>c. (oc_id c, oc_row c, oc_user c)) cs' = map (\<lambda>c. (oc_id c, oc_row c, oc_user c)) cs @ new)"

lemma same_places_refl: "same_places cs cs"
  by (simp add: same_places_def)

lemma same_places_trans: "same_places cs cs' \<Longrightarrow> same_places cs' cs'' \<Longrightarrow> same_places cs cs''"
  by (auto simp: same_places_def)

lemma same_places_mem:
  assumes "same_places cs cs'" "c \<in> set cs"
  shows "\<exists>c' \<in> set cs'. oc_id c' = oc_id c \<and> oc_row c' = oc_row c \<and> oc_user c' = oc_user c"
proof -
  have "(oc_id c, oc_row c, oc_user c) \<in> set (map (\<lambda>c. (oc_id c, oc_row c, oc_user c)) cs')"
    using assms unfolding same_places_def by fastforce
  then show ?thesis by auto
qed

definition corrected :: "nat \<Rightarrow> nat \<Rightarrow> int option \<Rightarrow> int \<Rightarrow> owned_copy \<Rightarrow> owned_copy" where
  "corrected row item acquired now c =
     (if oc_row c = Some row
      then c\<lparr>oc_item := item, oc_acquired := keep_stored acquired (oc_acquired c), oc_updated := now\<rparr> else c)"

lemma corrected_fields [simp]:
  "oc_id (corrected row item acquired now c) = oc_id c" "oc_row (corrected row item acquired now c) = oc_row c"
  "oc_user (corrected row item acquired now c) = oc_user c"
  "oc_item (corrected row item acquired now c) = (if oc_row c = Some row then item else oc_item c)"
  "oc_acquired (corrected row item acquired now c) = (if oc_row c = Some row then keep_stored acquired (oc_acquired c) else oc_acquired c)"
  by (simp_all add: corrected_def)

lemma same_places_corrected: "same_places cs (map (corrected row item acquired now) cs)"
  unfolding same_places_def by (rule exI [of _ "[]"]) simp

definition minted_copy :: "string \<Rightarrow> int \<Rightarrow> nat \<Rightarrow> nat \<Rightarrow> int option \<Rightarrow> nat \<Rightarrow> owned_copy" where
  "minted_copy user now row item acquired n =
     \<lparr>oc_id = n, oc_user = user, oc_item = item, oc_row = Some row, oc_acquired = acquired, oc_updated = now\<rparr>"

lemma minted_fields [simp]:
  "oc_id (minted_copy user now row item acquired n) = n" "oc_row (minted_copy user now row item acquired n) = Some row"
  "oc_user (minted_copy user now row item acquired n) = user" "oc_item (minted_copy user now row item acquired n) = item"
  "oc_acquired (minted_copy user now row item acquired n) = acquired"
  by (simp_all add: minted_copy_def)

lemma mint_step:
  "mint_copies user now ((row, item, acquired) # ms) touched n copies =
     (if row \<in> set touched then Inl ''ON CONFLICT DO UPDATE command cannot affect row a second time''
      else case find (\<lambda>c. oc_row c = Some row) copies of
        None \<Rightarrow> mint_copies user now ms (row # touched) (Suc n) (copies @ [minted_copy user now row item acquired n])
      | Some c \<Rightarrow> if copy_differs item acquired c
                  then mint_copies user now ms (row # touched) n (map (corrected row item acquired now) copies)
                  else mint_copies user now ms touched n copies)"
  by (simp add: minted_copy_def corrected_def [abs_def] split: option.splits)

lemma map_corrected_ok:
  assumes "copies_ok n rows copies"
  shows "copies_ok n rows (map (corrected row item acquired now) copies)"
  unfolding copies_ok_def
proof (intro conjI ballI allI impI)
  let ?f = "corrected row item acquired now"
  have ids: "map oc_id (map ?f copies) = map oc_id copies" by simp
  show "distinct (map oc_id (map ?f copies))" using assms unfolding ids copies_ok_def by blast
  fix c
  assume "c \<in> set (map ?f copies)"
  then obtain c0 where c0: "c0 \<in> set copies" "c = ?f c0" by auto
  then show "oc_id c < n" using assms by (simp add: copies_ok_def)
  show "\<exists>r \<in> set rows. uc_id r = row' \<and> uc_user r = oc_user c" if "oc_row c = Some row'" for row'
    using assms c0 that unfolding copies_ok_def by simp
  fix c'
  assume "c' \<in> set (map ?f copies)" and same: "oc_row c = oc_row c' \<and> oc_row c \<noteq> None"
  then obtain c1 where c1: "c1 \<in> set copies" "c' = ?f c1" by auto
  have "oc_row c0 = oc_row c1" "oc_row c0 \<noteq> None" using same unfolding c0(2) c1(2) corrected_fields by blast+
  then have "c0 = c1" using assms c0(1) c1(1) unfolding copies_ok_def by blast
  then show "c = c'" using c0(2) c1(2) by simp
qed

lemma append_minted_ok:
  assumes "copies_ok n rows copies" "find (\<lambda>c. oc_row c = Some row) copies = None"
    and "\<exists>r \<in> set rows. uc_id r = row \<and> uc_user r = user"
  shows "copies_ok (Suc n) rows (copies @ [minted_copy user now row item acquired n])"
proof -
  have "\<forall>c \<in> set copies. oc_row c \<noteq> Some row" using assms(2) by (auto simp: find_None_iff)
  moreover have "n \<notin> set (map oc_id copies)" using assms(1) by (fastforce simp: copies_ok_def)
  ultimately show ?thesis using assms(1,3) by (auto simp: copies_ok_def less_Suc_eq)
qed

text \<open>
  A mint that ends has made the copy of each of its rows right, kept the others, and the copies
  where they were.
\<close>

lemma mint_ok:
  assumes "mint_copies user now ms touched n copies = Inr (n', copies')" "copies_ok n rows copies"
    and "\<forall>(row, item, acquired) \<in> set ms. \<exists>r \<in> set rows. uc_id r = row \<and> uc_user r = user"
  shows "copies_ok n' rows copies' \<and> n \<le> n' \<and> same_places copies copies'
    \<and> (\<forall>row. row \<in> set (map fst ms) \<longrightarrow> (\<exists>item acquired. (row, item, acquired) \<in> set ms
          \<and> (\<exists>c \<in> set copies'. oc_row c = Some row \<and> oc_item c = item \<and> (acquired \<noteq> None \<longrightarrow> oc_acquired c = acquired))))
    \<and> (\<forall>row. row \<notin> set (map fst ms) \<longrightarrow> (\<forall>c. oc_row c = Some row \<longrightarrow> (c \<in> set copies' \<longleftrightarrow> c \<in> set copies)))"
  using assms
proof (induction ms arbitrary: touched n copies)
  case Nil
  then show ?case by (simp add: same_places_refl)
next
  case (Cons m ms)
  obtain row item acquired where m: "m = (row, item, acquired)" by (cases m)
  have row: "\<exists>r \<in> set rows. uc_id r = row \<and> uc_user r = user" using Cons.prems(3) m by auto
  have rest: "\<forall>(row, item, acquired) \<in> set ms. \<exists>r \<in> set rows. uc_id r = row \<and> uc_user r = user" using Cons.prems(3) by auto
  have nt: "row \<notin> set touched" using Cons.prems(1) unfolding m mint_step by (auto split: if_splits)
  have step: ?case if sub: "mint_copies user now ms t m1 cs = Inr (n', copies')" "copies_ok m1 rows cs" "n \<le> m1"
      "same_places copies cs" "\<exists>c \<in> set cs. oc_row c = Some row \<and> oc_item c = item \<and> (acquired \<noteq> None \<longrightarrow> oc_acquired c = acquired)"
      "\<forall>row'. row' \<noteq> row \<longrightarrow> (\<forall>c. oc_row c = Some row' \<longrightarrow> (c \<in> set cs \<longleftrightarrow> c \<in> set copies))" for t m1 cs
  proof -
    note ih = Cons.IH [OF sub(1,2) rest]
    have here: "\<exists>item acquired. (row', item, acquired) \<in> set (m # ms) \<and> (\<exists>c \<in> set copies'. oc_row c = Some row' \<and> oc_item c = item
          \<and> (acquired \<noteq> None \<longrightarrow> oc_acquired c = acquired))"
      if "row' \<in> set (map fst (m # ms))" for row'
    proof (cases "row' \<in> set (map fst ms)")
      case True
      then show ?thesis using ih by (meson list.set_intros(2))
    next
      case False
      then have "row' = row" using that m by auto
      then show ?thesis using ih sub(5) False m by (metis list.set_intros(1))
    qed
    have other: "c \<in> set copies' \<longleftrightarrow> c \<in> set copies" if "row' \<notin> set (map fst (m # ms))" "oc_row c = Some row'" for row' c
      using that ih sub(6) m by auto
    show ?thesis using ih here other sub(3) same_places_trans [OF sub(4)] by (meson le_trans)
  qed
  show ?case
  proof (cases "find (\<lambda>c. oc_row c = Some row) copies")
    case None
    show ?thesis
    proof (rule step)
      show "mint_copies user now ms (row # touched) (Suc n) (copies @ [minted_copy user now row item acquired n]) = Inr (n', copies')"
        using Cons.prems(1) nt None unfolding m mint_step by simp
      show "copies_ok (Suc n) rows (copies @ [minted_copy user now row item acquired n])"
        by (rule append_minted_ok [OF Cons.prems(2) None row])
    qed (auto simp: same_places_def)
  next
    case (Some c)
    then have c: "c \<in> set copies" "oc_row c = Some row" using find_copy [OF Cons.prems(2)] by auto
    show ?thesis
    proof (cases "copy_differs item acquired c")
      case True
      show ?thesis
      proof (rule step)
        show "mint_copies user now ms (row # touched) n (map (corrected row item acquired now) copies) = Inr (n', copies')"
          using Cons.prems(1) nt Some True unfolding m mint_step by simp
        show "copies_ok n rows (map (corrected row item acquired now) copies)" by (rule map_corrected_ok [OF Cons.prems(2)])
        show "\<forall>row'. row' \<noteq> row \<longrightarrow> (\<forall>c. oc_row c = Some row' \<longrightarrow>
            (c \<in> set (map (corrected row item acquired now) copies) \<longleftrightarrow> c \<in> set copies))"
          by (force simp: corrected_def image_iff)
      qed (use c in \<open>auto simp: same_places_corrected keep_stored_def intro!: bexI [of _ c]\<close>)
    next
      case False
      show ?thesis
      proof (rule step)
        show "mint_copies user now ms touched n copies = Inr (n', copies')"
          using Cons.prems(1) nt Some False unfolding m mint_step by simp
        show "\<exists>c \<in> set copies. oc_row c = Some row \<and> oc_item c = item \<and> (acquired \<noteq> None \<longrightarrow> oc_acquired c = acquired)"
          using False c by (auto simp: copy_differs_def)
      qed (use Cons.prems(2) in \<open>simp_all add: same_places_refl\<close>)
    qed
  qed
qed

text \<open>A mint of distinct rows cannot be refused, and one with nothing to correct writes nothing.\<close>

lemma mint_accepted:
  "distinct (map fst ms) \<Longrightarrow> set (map fst ms) \<inter> set touched = {} \<Longrightarrow> \<exists>x. mint_copies user now ms touched n copies = Inr x"
proof (induction ms arbitrary: touched n copies)
  case (Cons m ms)
  obtain row item acquired where m: "m = (row, item, acquired)" by (cases m)
  have d: "distinct (map fst ms)" "set (map fst ms) \<inter> set touched = {}" "set (map fst ms) \<inter> set (row # touched) = {}" "row \<notin> set touched"
    using Cons.prems m by auto
  show ?case unfolding m mint_step
    using Cons.IH [OF d(1,2)] Cons.IH [OF d(1,3)] d(4) by (simp split: option.split)
qed simp

lemma mint_nothing:
  "\<forall>(row, item, acquired) \<in> set ms. row \<notin> set touched \<and>
     (\<exists>c. find (\<lambda>c. oc_row c = Some row) copies = Some c \<and> \<not> copy_differs item acquired c) \<Longrightarrow>
   mint_copies user now ms touched n copies = Inr (n, copies)"
proof (induction ms)
  case (Cons m ms)
  obtain row item acquired where m: "m = (row, item, acquired)" by (cases m)
  show ?case unfolding m mint_step using Cons m by auto
qed simp

section \<open>Links\<close>

lemma map_of_foldl_set:
  "map_of (foldl (\<lambda>d x. dict_set (f x) (g x) d) d0 xs) k
     = (case find (\<lambda>x. f x = k) (rev xs) of None \<Rightarrow> map_of d0 k | Some x \<Rightarrow> Some (g x))"
  by (induction xs rule: rev_induct) auto

definition linked :: "owned_copy list \<Rightarrow> nat list \<Rightarrow> coll_row \<Rightarrow> coll_row" where
  "linked copies ids r = (if needs_link copies ids r then r\<lparr>uc_copy := copy_of_row copies (uc_id r)\<rparr> else r)"

lemma linked_fields [simp]:
  "uc_id (linked copies ids r) = uc_id r" "uc_user (linked copies ids r) = uc_user r"
  "row_key (linked copies ids r) = row_key r" "uc_instance (linked copies ids r) = uc_instance r"
  "uc_item (linked copies ids r) = uc_item r" "uc_date (linked copies ids r) = uc_date r" "uc_updated (linked copies ids r) = uc_updated r"
  by (simp_all add: linked_def row_key_def)

lemma linked_outside: "uc_id r \<notin> set ids \<Longrightarrow> linked copies ids r = r"
  by (simp add: linked_def needs_link_def)

lemma linked_inside:
  "uc_id r \<in> set ids \<Longrightarrow> copy_of_row copies (uc_id r) \<noteq> None \<Longrightarrow> uc_copy (linked copies ids r) = copy_of_row copies (uc_id r)"
  by (simp add: linked_def needs_link_def)

lemma link_copies_map: "link_copies copies ids rows = map (linked copies ids) rows"
  by (simp add: link_copies_def linked_def [abs_def])

lemma row_of_linked: "row_of user (map (linked copies ids) rows) key = map_option (linked copies ids) (row_of user rows key)"
  unfolding row_of_def by (rule find_map_same) simp

lemma linked_rows_ok: "rows_ok n rows \<Longrightarrow> rows_ok n (map (linked copies ids) rows)"
  by (simp add: rows_ok_def o_def)

lemma rows_ok_le: "rows_ok n rows \<Longrightarrow> n \<le> n' \<Longrightarrow> rows_ok n' rows"
  by (fastforce simp: rows_ok_def)

lemma copies_ok_le: "copies_ok n rows copies \<Longrightarrow> n \<le> n' \<Longrightarrow> copies_ok n' rows copies"
  by (fastforce simp: copies_ok_def)

lemma copies_ok_map:
  "(\<And>r. uc_id (f r) = uc_id r) \<Longrightarrow> (\<And>r. uc_user (f r) = uc_user r) \<Longrightarrow> copies_ok n rows copies \<Longrightarrow> copies_ok n (map f rows) copies"
  by (fastforce simp: copies_ok_def)

definition copies_of_page :: "(nat, nat) dict \<Rightarrow> owned_copy list \<Rightarrow> coll_row list \<Rightarrow> bool" where
  "copies_of_page ids_of copies page_rows \<longleftrightarrow>
     (\<forall>r \<in> set page_rows. uc_item r \<noteq> None \<longrightarrow> map_of ids_of (uc_id r) = copy_of_row copies (uc_id r))"

text \<open>Everything but the counter, the copies and the links is left alone.\<close>

definition same_but_copies :: "sync_db \<Rightarrow> sync_db \<Rightarrow> bool" where
  "same_but_copies db db' \<longleftrightarrow> sd_wants db' = sd_wants db \<and> sd_snapshots db' = sd_snapshots db
     \<and> sd_users db' = sd_users db \<and> sd_releases db' = sd_releases db \<and> sd_edges db' = sd_edges db
     \<and> sd_want_edges db' = sd_want_edges db \<and> sd_events db' = sd_events db"

lemma ensure_cases:
  assumes "ensure_owned_copies user now page_rows db = Inr (ids_of, db')"
  defines "identified \<equiv> filter (\<lambda>r. uc_item r \<noteq> None) page_rows"
  obtains (none) "identified = []" "ids_of = []" "db' = db"
  | (minted) n copies where "identified \<noteq> []"
      "mint_copies user now (map (\<lambda>r. (uc_id r, the (uc_item r), uc_date r)) identified) [] (sd_next db) (sd_copies db) = Inr (n, copies)"
      "db' = db\<lparr>sd_next := n, sd_copies := copies, sd_rows := map (linked copies (map uc_id identified)) (sd_rows db)\<rparr>"
      "ids_of = foldl (\<lambda>d x. dict_set (fst x) (snd x) d)
         (foldl (\<lambda>d r. dict_set (uc_id r) (the (uc_copy r)) d) [] (filter (\<lambda>r. uc_copy r \<noteq> None) identified))
         (links_made copies (map uc_id identified) (sd_rows db))"
proof (cases "identified = []")
  case True
  then show thesis using assms(1) none unfolding ensure_owned_copies_def identified_def [symmetric] Let_def by simp
next
  case False
  obtain x where x: "mint_copies user now (map (\<lambda>r. (uc_id r, the (uc_item r), uc_date r)) identified) [] (sd_next db) (sd_copies db) = Inr x"
    using assms(1) False unfolding ensure_owned_copies_def identified_def [symmetric] Let_def by (auto split: sum.splits)
  obtain n copies where "x = (n, copies)" by fastforce
  then show thesis
    using minted [OF False] assms(1) x False
    unfolding ensure_owned_copies_def identified_def [symmetric] Let_def link_copies_map case_prod_unfold by simp
qed

lemma page_copy_ids:
  assumes rows: "distinct (map uc_id rows)" and sub: "set page_rows \<subseteq> set rows"
    and r: "r \<in> set page_rows" "uc_item r \<noteq> None" and found: "copy_of_row copies (uc_id r) \<noteq> None"
  defines "identified \<equiv> filter (\<lambda>r. uc_item r \<noteq> None) page_rows"
  shows "map_of (foldl (\<lambda>d x. dict_set (fst x) (snd x) d)
         (foldl (\<lambda>d r. dict_set (uc_id r) (the (uc_copy r)) d) [] (filter (\<lambda>r. uc_copy r \<noteq> None) identified))
         (links_made copies (map uc_id identified) rows)) (uc_id r) = copy_of_row copies (uc_id r)"
proof -
  let ?ids = "map uc_id identified"
  have ri: "r \<in> set identified" using r by (simp add: identified_def)
  have inj: "r' = r''" if "r' \<in> set rows" "r'' \<in> set rows" "uc_id r' = uc_id r''" for r' r''
    using rows that by (auto simp: distinct_map inj_on_def)
  have pinj: "r' = r''" if "r' \<in> set page_rows" "r'' \<in> set page_rows" "uc_id r' = uc_id r''" for r' r''
    using inj [of r' r''] that sub by blast
  have links: "find (\<lambda>x. fst x = uc_id r) (rev (links_made copies ?ids rows))
      = (if needs_link copies ?ids r then Some (uc_id r, the (copy_of_row copies (uc_id r))) else None)"
  proof (cases "needs_link copies ?ids r")
    case True
    then have "(uc_id r, the (copy_of_row copies (uc_id r))) \<in> set (links_made copies ?ids rows)"
      using sub r(1) by (auto simp: links_made_def)
    moreover have "x = y" if "x \<in> set (links_made copies ?ids rows)" "y \<in> set (links_made copies ?ids rows)" "fst x = fst y" for x y
      using that inj by (auto simp: links_made_def)
    ultimately have "find (\<lambda>x. fst x = uc_id r) (rev (links_made copies ?ids rows)) = Some (uc_id r, the (copy_of_row copies (uc_id r)))"
      by (subst find_iff) fastforce+
    then show ?thesis using True by simp
  next
    case False
    have "r \<in> set rows" using sub r(1) by blast
    then have "fst x \<noteq> uc_id r" if "x \<in> set (links_made copies ?ids rows)" for x
      using that False inj unfolding links_made_def by fastforce
    then have "find (\<lambda>x. fst x = uc_id r) (rev (links_made copies ?ids rows)) = None" unfolding find_None_iff set_rev by blast
    then show ?thesis using False by simp
  qed
  have known: "map_of (foldl (\<lambda>d r. dict_set (uc_id r) (the (uc_copy r)) d) [] (filter (\<lambda>r. uc_copy r \<noteq> None) identified)) (uc_id r) = uc_copy r"
  proof (cases "uc_copy r = None")
    case True
    then have "find (\<lambda>x. uc_id x = uc_id r) (rev (filter (\<lambda>r. uc_copy r \<noteq> None) identified)) = None"
      using inj sub r(1) by (fastforce simp: find_None_iff identified_def)
    then show ?thesis using True by (simp add: map_of_foldl_set)
  next
    case False
    then have "find (\<lambda>x. uc_id x = uc_id r) (rev (filter (\<lambda>r. uc_copy r \<noteq> None) identified)) = Some r"
      using pinj ri False by (subst find_iff) (auto simp: identified_def)
    then show ?thesis using False by (simp add: map_of_foldl_set)
  qed
  show ?thesis
    using found ri unfolding map_of_foldl_set [where f = fst and g = snd] links known by (auto simp: needs_link_def)
qed

text \<open>What a page leaves behind when its copies are ensured.\<close>

lemma ensure_ok:
  assumes e: "ensure_owned_copies user now page_rows db = Inr (ids_of, db')"
    and rows: "rows_ok (sd_next db) (sd_rows db)" and copies: "copies_ok (sd_next db) (sd_rows db) (sd_copies db)"
    and own: "\<forall>r \<in> set (sd_rows db). own_copy (sd_copies db) r"
    and sub: "set page_rows \<subseteq> {r \<in> set (sd_rows db). uc_user r = user}"
    and rest: "\<forall>r \<in> set (sd_rows db). r \<notin> set page_rows \<longrightarrow> linked_row (sd_copies db) r"
  shows "rows_ok (sd_next db') (sd_rows db') \<and> copies_ok (sd_next db') (sd_rows db') (sd_copies db')
    \<and> linked_ok (sd_rows db') (sd_copies db') \<and> same_places (sd_copies db) (sd_copies db')
    \<and> sd_next db \<le> sd_next db' \<and> same_but_copies db db'
    \<and> (\<exists>ids. sd_rows db' = map (linked (sd_copies db') ids) (sd_rows db) \<and> set ids \<subseteq> uc_id ` set page_rows)
    \<and> copies_of_page ids_of (sd_copies db') page_rows"
proof -
  define identified where "identified = filter (\<lambda>r. uc_item r \<noteq> None) page_rows"
  have inj: "r = r'" if "r \<in> set (sd_rows db)" "r' \<in> set (sd_rows db)" "uc_id r = uc_id r'" for r r'
    using rows that by (auto simp: rows_ok_def distinct_map inj_on_def)
  from e show ?thesis
  proof (cases rule: ensure_cases)
    case none
    have "linked_row (sd_copies db) r" if "r \<in> set (sd_rows db)" for r
    proof (cases "r \<in> set page_rows")
      case True
      then have "uc_item r = None" using none(1) by (auto simp: filter_empty_conv)
      then show ?thesis using own that by (auto simp: own_copy_def linked_row_def)
    qed (use rest that in blast)
    moreover have "map (linked (sd_copies db) []) (sd_rows db) = sd_rows db"
      by (rule map_idI) (simp add: linked_outside)
    moreover have "copies_of_page ids_of (sd_copies db) page_rows"
      using none(1) by (auto simp: copies_of_page_def filter_empty_conv)
    ultimately show ?thesis using none rows copies
      by (auto simp: linked_ok_def' same_places_refl same_but_copies_def intro!: exI [of _ "[]"])
  next
    case (minted n cs)
    note minted = minted [folded identified_def]
    let ?ids = "map uc_id identified"
    let ?ms = "map (\<lambda>r. (uc_id r, the (uc_item r), uc_date r)) identified"
    have ms: "\<forall>(row, item, acquired) \<in> set ?ms. \<exists>r \<in> set (sd_rows db). uc_id r = row \<and> uc_user r = user"
      using sub by (auto simp: identified_def)
    note mk = mint_ok [OF minted(2) copies ms]
    have fstms: "set (map fst ?ms) = set ?ids" by (auto simp: image_iff)
    have cs: "copies_ok n (sd_rows db) cs" "sd_next db \<le> n" "same_places (sd_copies db) cs" using mk by simp_all
    have item: "\<exists>c \<in> set cs. oc_row c = Some (uc_id r) \<and> uc_item r = Some (oc_item c) \<and> copy_of_row cs (uc_id r) = Some (oc_id c)
        \<and> (uc_date r \<noteq> None \<longrightarrow> oc_acquired c = uc_date r)"
      if "r \<in> set identified" for r
    proof -
      have "uc_id r \<in> set (map fst ?ms)" using that fstms by auto
      then obtain item acquired c where c: "(uc_id r, item, acquired) \<in> set ?ms" "c \<in> set cs" "oc_row c = Some (uc_id r)" "oc_item c = item"
        "acquired \<noteq> None \<longrightarrow> oc_acquired c = acquired"
        using mk by blast
      obtain r' where r': "r' \<in> set identified" "uc_id r' = uc_id r" "item = the (uc_item r')" "acquired = uc_date r'" using c(1) by auto
      have "r' = r" using r'(1,2) that sub by (intro inj) (auto simp: identified_def)
      then have "uc_item r = Some item" using r'(3) that by (auto simp: identified_def)
      moreover have "copy_of_row cs (uc_id r) = Some (oc_id c)"
        using find_copy [OF cs(1), of "uc_id r" c] c(2,3) by (simp add: copy_of_row_def)
      ultimately show ?thesis using c r'(4) \<open>r' = r\<close> by auto
    qed
    have outside: "uc_id r \<notin> set ?ids" if "r \<in> set (sd_rows db)" "r \<notin> set identified" for r
    proof
      assume "uc_id r \<in> set ?ids"
      then obtain r' where r': "r' \<in> set identified" "uc_id r = uc_id r'" by auto
      have "r = r'" using r' that(1) sub by (intro inj) (auto simp: identified_def)
      then show False using r'(1) that(2) by simp
    qed
    have linked: "linked_row cs (linked cs ?ids r)" if "r \<in> set (sd_rows db)" for r
    proof (cases "r \<in> set identified")
      case True
      then obtain c where c: "c \<in> set cs" "oc_row c = Some (uc_id r)" "uc_item r = Some (oc_item c)" "copy_of_row cs (uc_id r) = Some (oc_id c)"
        "uc_date r \<noteq> None \<longrightarrow> oc_acquired c = uc_date r"
        using item by blast
      have "uc_copy (linked cs ?ids r) = Some (oc_id c)" using linked_inside [of r ?ids cs] True c(4) by simp
      then show ?thesis using c by (auto simp: linked_row_def)
    next
      case False
      have out: "linked cs ?ids r = r" by (rule linked_outside [OF outside [OF that False]])
      show ?thesis
      proof (cases "r \<in> set page_rows")
        case True
        then have "uc_item r = None" using False by (auto simp: identified_def)
        then show ?thesis using own that out by (auto simp: own_copy_def linked_row_def)
      next
        case notp: False
        have "linked_row (sd_copies db) r" using rest that notp by blast
        moreover have "c \<in> set cs \<longleftrightarrow> c \<in> set (sd_copies db)" if "oc_row c = Some (uc_id r)" for c
          using mk outside [OF \<open>r \<in> set (sd_rows db)\<close> False] that unfolding fstms by blast
        ultimately show ?thesis unfolding out linked_row_def by blast
      qed
    qed
    have found: "copies_of_page ids_of cs page_rows"
      unfolding copies_of_page_def
    proof (intro ballI impI)
      fix r
      assume r: "r \<in> set page_rows" "uc_item r \<noteq> None"
      then have "copy_of_row cs (uc_id r) \<noteq> None" using item [of r] by (auto simp: identified_def)
      from page_copy_ids [OF _ _ r this, of "sd_rows db"]
      show "map_of ids_of (uc_id r) = copy_of_row cs (uc_id r)"
        using rows sub unfolding minted(4) identified_def rows_ok_def by blast
    qed
    have "rows_ok n (map (linked cs ?ids) (sd_rows db))" by (rule linked_rows_ok [OF rows_ok_le [OF rows cs(2)]])
    moreover have "copies_ok n (map (linked cs ?ids) (sd_rows db)) cs" by (rule copies_ok_map [OF _ _ cs(1)]) simp_all
    moreover have "\<exists>ids. sd_rows db' = map (linked (sd_copies db') ids) (sd_rows db) \<and> set ids \<subseteq> uc_id ` set page_rows"
      unfolding minted(3) by (rule exI [of _ ?ids]) (auto simp: identified_def)
    moreover have "same_but_copies db db'" by (simp add: minted(3) same_but_copies_def)
    ultimately show ?thesis using linked cs(2,3) found by (simp add: minted(3) linked_ok_def')
  qed
qed

section \<open>A page\<close>

definition sync_ok :: "sync_db \<Rightarrow> bool" where
  "sync_ok db \<longleftrightarrow> rows_ok (sd_next db) (sd_rows db) \<and> copies_ok (sd_next db) (sd_rows db) (sd_copies db)
     \<and> linked_ok (sd_rows db) (sd_copies db)"

lemma page_index_lookup: "map_of (page_index rows) key = find (\<lambda>r. row_key r = key) (rev rows)"
  unfolding page_index_def map_of_foldl_set [where g = "\<lambda>r. r"] by (simp split: option.split)

lemma page_lookup:
  assumes "rows_ok n rows"
  shows "map_of (page_index (select_page user ids rows)) key = (if fst key \<in> set ids then row_of user rows key else None)"
proof -
  have "map_of (page_index (select_page user ids rows)) key = Some r \<longleftrightarrow>
      (if fst key \<in> set ids then row_of user rows key else None) = Some r" for r
  proof -
    have "find (\<lambda>r. row_key r = key) (rev (select_page user ids rows)) = Some r \<longleftrightarrow>
        r \<in> set (rev (select_page user ids rows)) \<and> row_key r = key"
      by (rule find_iff) (use row_unique [OF assms] in \<open>auto simp: select_page_def\<close>)
    then show ?thesis unfolding page_index_lookup using row_of_iff [OF assms, of user key r]
      by (auto simp: select_page_def row_key_def)
  qed
  then show ?thesis by (metis option.exhaust)
qed

definition last_write :: "coll_key \<Rightarrow> coll_param list \<Rightarrow> coll_param option" where
  "last_write key ps = find (\<lambda>p. param_key p = key) (rev ps)"

lemma last_write_append: "last_write key (ps @ qs) = (case last_write key qs of None \<Rightarrow> last_write key ps | Some p \<Rightarrow> Some p)"
  by (simp add: last_write_def find_append split: option.split)

lemma last_write_None: "last_write key ps = None \<longleftrightarrow> key \<notin> param_key ` set ps"
  by (auto simp: last_write_def find_None_iff)

lemma last_write_Some: "last_write key ps = Some p \<Longrightarrow> p \<in> set ps \<and> param_key p = key"
  by (auto simp: last_write_def find_Some_iff) (metis nth_mem set_rev length_rev)

text \<open>A row holds what the entry it was last written from says.\<close>

definition mirrors :: "(int \<Rightarrow> nat option) \<Rightarrow> coll_param \<Rightarrow> coll_row \<Rightarrow> bool" where
  "mirrors native p r \<longleftrightarrow> uc_folder r = cp_folder p \<and> uc_title r = cp_title p \<and> uc_artist r = cp_artist p
     \<and> uc_year r = cp_year p \<and> uc_label r = cp_label p \<and> uc_rating r = cp_rating p \<and> uc_media r = cp_media p
     \<and> uc_updated r = cp_stamp p
     \<and> (\<forall>v. cp_formats p = Some v \<longrightarrow> uc_formats r = Some v) \<and> (\<forall>v. cp_date p = Some v \<longrightarrow> uc_date r = Some v)
     \<and> (\<forall>v. cp_metadata p = Some v \<longrightarrow> uc_metadata r = Some v)
     \<and> (\<forall>v. native (cp_release p) = Some v \<longrightarrow> uc_item r = Some v)"

lemma mirrors_write:
  "mirrors native p (new_coll_row n p (native (cp_release p)))" "mirrors native p (update_coll_row p (native (cp_release p)) r)"
  by (simp_all add: mirrors_def new_coll_row_def update_coll_row_def keep_stored_def)

lemma mirrors_linked: "mirrors native p (linked copies ids r) \<longleftrightarrow> mirrors native p r"
  by (simp add: mirrors_def linked_def)

text \<open>A written row is the one that was there, or new; what it keeps when nothing is said stays.\<close>

definition continues :: "coll_row option \<Rightarrow> coll_row \<Rightarrow> bool" where
  "continues before r \<longleftrightarrow> (\<forall>r0. before = Some r0 \<longrightarrow> uc_id r = uc_id r0 \<and> uc_copy r = uc_copy r0
     \<and> (uc_item r0 \<noteq> None \<longrightarrow> uc_item r \<noteq> None) \<and> (uc_date r0 \<noteq> None \<longrightarrow> uc_date r \<noteq> None))"

lemma continues_update: "continues before r \<Longrightarrow> continues before (update_coll_row p n r)"
  by (auto simp: continues_def update_coll_row_def keep_stored_def split: option.splits)

lemma upserts_row_of:
  assumes "\<forall>p \<in> set ps. param_ok user p"
  shows "(\<forall>u. u \<noteq> user \<or> last_write key ps = None \<longrightarrow>
            row_of u (sd_rows (foldl (upsert_coll native) db ps)) key = row_of u (sd_rows db) key)
    \<and> (\<forall>p. last_write key ps = Some p \<longrightarrow> (\<exists>r. row_of user (sd_rows (foldl (upsert_coll native) db ps)) key = Some r
            \<and> mirrors native p r \<and> continues (row_of user (sd_rows db) key) r))"
  using assms
proof (induction ps rule: rev_induct)
  case (snoc q ps)
  let ?db = "foldl (upsert_coll native) db ps"
  have q: "cp_user q = user" "cp_instance q \<noteq> None" using snoc.prems by (simp_all add: param_ok_def)
  have ih: "u \<noteq> user \<or> last_write key ps = None \<longrightarrow> row_of u (sd_rows ?db) key = row_of u (sd_rows db) key"
    "\<forall>p. last_write key ps = Some p \<longrightarrow> (\<exists>r. row_of user (sd_rows ?db) key = Some r \<and> mirrors native p r
        \<and> continues (row_of user (sd_rows db) key) r)" for u
    using snoc.IH snoc.prems by simp_all
  note w = row_of_upsert [OF q(2), of _ native ?db key, unfolded q(1)]
  have lw: "last_write key (ps @ [q]) = (if param_key q = key then Some q else last_write key ps)"
    by (simp add: last_write_append) (simp add: last_write_def)
  show ?case
  proof (cases "param_key q = key")
    case False
    then have "row_of v (sd_rows (upsert_coll native ?db q)) key = row_of v (sd_rows ?db) key" for v using w by simp
    then show ?thesis using ih lw False by simp
  next
    case True
    have "\<exists>r. row_of user (sd_rows (upsert_coll native ?db q)) key = Some r \<and> mirrors native q r
        \<and> continues (row_of user (sd_rows db) key) r"
    proof (cases "row_of user (sd_rows ?db) key")
      case None
      then have "row_of user (sd_rows db) key = None" using ih by (cases "last_write key ps") auto
      then show ?thesis using w True None by (simp add: mirrors_write continues_def)
    next
      case (Some r)
      have "continues (row_of user (sd_rows db) key) r"
      proof (cases "last_write key ps")
        case None
        then have "row_of user (sd_rows db) key = Some r" using ih(1) [of user] Some by simp
        then show ?thesis by (simp add: continues_def)
      qed (use ih(2) Some in auto)
      then show ?thesis using w True Some by (simp add: mirrors_write continues_update)
    qed
    moreover have "row_of u (sd_rows (upsert_coll native ?db q)) key = row_of u (sd_rows db) key" if "u \<noteq> user" for u
      using w ih(1) that by simp
    ultimately show ?thesis using lw True by simp
  qed
qed (simp add: last_write_def)

lemma set_map_filter: "set (List.map_filter f xs) = {y. \<exists>x \<in> set xs. f x = Some y}"
  by (induction xs) (auto simp: List.map_filter_def split: option.splits)

text \<open>The change events as a difference of what the table holds under a key before and after.\<close>

definition row_events :: "coll_row option \<Rightarrow> coll_row option \<Rightarrow> sync_event list" where
  "row_events before after =
     (case after of
        None \<Rightarrow> []
      | Some row \<Rightarrow>
          (case uc_item row of
             None \<Rightarrow> []
           | Some item \<Rightarrow>
               (case before of
                  None \<Rightarrow> [CollectionAdded item (uc_copy row)]
                | Some previous \<Rightarrow>
                    if changed_fields previous row = [] then []
                    else [CollectionUpdated item (uc_copy row) (changed_fields previous row)])))"

lemma changed_linked: "changed_fields previous (linked copies ids r) = changed_fields previous r"
  by (simp add: changed_fields_def tracked_field_def linked_def)

lemma linked_copy_of:
  assumes "linked_ok rows copies" "copies_ok n rows copies" "r \<in> set rows" "uc_item r \<noteq> None"
  shows "copy_of_row copies (uc_id r) = uc_copy r"
proof -
  obtain item where "uc_item r = Some item" using assms(4) by blast
  then obtain c where "c \<in> set copies" "oc_row c = Some (uc_id r)" "uc_copy r = Some (oc_id c)"
    using assms(1,3) unfolding linked_ok_def by blast
  then show ?thesis using find_copy [OF assms(2), of "uc_id r" c] by (simp add: copy_of_row_def)
qed

lemma first_keys_set [simp]: "set (first_keys ks) = set ks"
  by (simp add: first_keys_def)

lemma first_keys_distinct [simp]: "distinct (first_keys ks)"
  by (simp add: first_keys_def)

lemma persist_ok:
  assumes persist: "persist_collection_page user native now params db = Inr (evs, db')"
    and ok: "sync_ok db" and params: "\<forall>p \<in> set params. param_ok user p"
  shows "sync_ok db' \<and> same_places (sd_copies db) (sd_copies db') \<and> same_but_copies db db'
    \<and> (\<forall>u key. u \<noteq> user \<or> last_write key params = None \<longrightarrow> row_of u (sd_rows db') key = row_of u (sd_rows db) key)
    \<and> (\<forall>key p. last_write key params = Some p \<longrightarrow> (\<exists>r. row_of user (sd_rows db') key = Some r \<and> mirrors native p r
          \<and> (\<forall>r0. row_of user (sd_rows db) key = Some r0 \<longrightarrow> uc_id r = uc_id r0 \<and> (uc_item r0 \<noteq> None \<longrightarrow> uc_item r \<noteq> None))))
    \<and> evs = concat (map (\<lambda>key. row_events (row_of user (sd_rows db) key) (row_of user (sd_rows db') key))
          (first_keys (map param_key params)))"
proof -
  let ?ids = "map cp_release params" and ?keys = "map param_key params"
  let ?db1 = "foldl (upsert_coll native) db params"
  let ?before = "page_index (select_page user ?ids (sd_rows db))" and ?after = "page_index (select_page user ?ids (sd_rows ?db1))"
  let ?page = "List.map_filter (map_of ?after) ?keys"
  obtain copy_ids where e: "ensure_owned_copies user now ?page ?db1 = Inr (copy_ids, db')"
    and evs: "evs = collection_page_events ?keys ?before ?after copy_ids"
    using persist unfolding persist_collection_page_def Let_def by (auto split: sum.splits)
  have rows0: "rows_ok (sd_next db) (sd_rows db)" and copies0: "copies_ok (sd_next db) (sd_rows db) (sd_copies db)"
    and linked0: "linked_ok (sd_rows db) (sd_copies db)" using ok by (simp_all add: sync_ok_def)
  have own0: "\<forall>r \<in> set (sd_rows db). own_copy (sd_copies db) r" using linked0 linked_own by (auto simp: linked_ok_def')
  have "\<forall>p \<in> set params. cp_instance p \<noteq> None" using params by (simp add: param_ok_def)
  from upserts_ok [OF this rows0 copies0 own0, of native]
  have rows1: "rows_ok (sd_next ?db1) (sd_rows ?db1)" and copies1: "copies_ok (sd_next ?db1) (sd_rows ?db1) (sd_copies ?db1)"
    and own1: "\<forall>r \<in> set (sd_rows ?db1). own_copy (sd_copies ?db1) r" and next1: "sd_next db \<le> sd_next ?db1" by simp_all
  note ups = upserts_row_of [OF params, of _ native db]
  have fst_key: "fst key \<in> set ?ids" if "key \<in> set ?keys" for key using that by (auto simp: param_key_def)
  have after: "map_of ?after key = row_of user (sd_rows ?db1) key" if "key \<in> set ?keys" for key
    using page_lookup [OF rows1] fst_key [OF that] by simp
  have before: "map_of ?before key = row_of user (sd_rows db) key" if "key \<in> set ?keys" for key
    using page_lookup [OF rows0] fst_key [OF that] by simp
  have page: "r \<in> set ?page \<longleftrightarrow> (\<exists>key \<in> set ?keys. row_of user (sd_rows ?db1) key = Some r)" for r
    unfolding set_map_filter using after by auto
  have sub: "set ?page \<subseteq> {r \<in> set (sd_rows ?db1). uc_user r = user}" using page row_of_iff [OF rows1] by blast
  have rest: "\<forall>r \<in> set (sd_rows ?db1). r \<notin> set ?page \<longrightarrow> linked_row (sd_copies ?db1) r"
  proof (intro ballI impI)
    fix r
    assume r: "r \<in> set (sd_rows ?db1)" "r \<notin> set ?page"
    have "row_of (uc_user r) (sd_rows ?db1) (row_key r) = Some r" using row_of_iff [OF rows1] r(1) by blast
    moreover from this have "uc_user r \<noteq> user \<or> last_write (row_key r) params = None"
      using r(2) unfolding page last_write_None by auto
    ultimately have "row_of (uc_user r) (sd_rows db) (row_key r) = Some r" using ups by metis
    then have "r \<in> set (sd_rows db)" using row_of_iff [OF rows0] by blast
    then show "linked_row (sd_copies ?db1) r" using linked0 by (simp add: linked_ok_def')
  qed
  note en = ensure_ok [OF e rows1 copies1 own1 sub rest]
  obtain ids where ids: "sd_rows db' = map (linked (sd_copies db') ids) (sd_rows ?db1)" "set ids \<subseteq> uc_id ` set ?page" using en by blast
  have row': "row_of u (sd_rows db') key = map_option (linked (sd_copies db') ids) (row_of u (sd_rows ?db1) key)" for u key
    unfolding ids(1) by (rule row_of_linked)
  have ok': "sync_ok db'" using en by (simp add: sync_ok_def)
  have same: "same_but_copies db db'" using en by (simp add: same_but_copies_def)
  have untouched: "row_of u (sd_rows db') key = row_of u (sd_rows db) key" if "u \<noteq> user \<or> last_write key params = None" for u key
  proof -
    have eq: "row_of u (sd_rows ?db1) key = row_of u (sd_rows db) key" using ups that by blast
    have "linked (sd_copies db') ids r = r" if r: "row_of u (sd_rows ?db1) key = Some r" for r
    proof (rule linked_outside)
      have r1: "r \<in> set (sd_rows ?db1)" "uc_user r = u" "row_key r = key" using r row_of_iff [OF rows1] by auto
      show "uc_id r \<notin> set ids"
      proof
        assume "uc_id r \<in> set ids"
        then have "uc_id r \<in> uc_id ` set ?page" using ids(2) by (rule subsetD [rotated])
        then obtain r' where r': "r' \<in> set ?page" "uc_id r' = uc_id r" by (elim imageE) simp
        have "r' \<in> set (sd_rows ?db1)" using subsetD [OF sub r'(1)] by simp
        then have "r' = r" using r1(1) r'(2) rows1 by (simp add: rows_ok_def distinct_map inj_on_def)
        then obtain k where "k \<in> set ?keys" "row_of user (sd_rows ?db1) k = Some r" using r'(1) page by blast
        then have "u = user" "key \<in> set ?keys" using row_of_iff [OF rows1] r1 by auto
        then show False using \<open>u \<noteq> user \<or> last_write key params = None\<close> by (auto simp: last_write_None)
      qed
    qed
    then have "map_option (linked (sd_copies db') ids) (row_of u (sd_rows ?db1) key) = row_of u (sd_rows ?db1) key"
      by (cases "row_of u (sd_rows ?db1) key") simp_all
    then show ?thesis using row' eq by simp
  qed
  have written: "\<exists>r. row_of user (sd_rows db') key = Some r \<and> mirrors native p r
      \<and> (\<forall>r0. row_of user (sd_rows db) key = Some r0 \<longrightarrow> uc_id r = uc_id r0 \<and> (uc_item r0 \<noteq> None \<longrightarrow> uc_item r \<noteq> None))"
    if lw: "last_write key params = Some p" for key p
  proof -
    obtain r where "row_of user (sd_rows ?db1) key = Some r" "mirrors native p r" "continues (row_of user (sd_rows db) key) r"
      using ups [of key, THEN conjunct2, rule_format, OF lw] by blast
    then have "row_of user (sd_rows db') key = Some (linked (sd_copies db') ids r)"
      "mirrors native p (linked (sd_copies db') ids r)" "continues (row_of user (sd_rows db) key) r"
      using row' [of user key] by (simp_all add: mirrors_linked)
    then show ?thesis unfolding continues_def by (intro exI [of _ "linked (sd_copies db') ids r"]) simp
  qed
  have "key_events ?before ?after copy_ids key = row_events (row_of user (sd_rows db) key) (row_of user (sd_rows db') key)"
    if key: "key \<in> set ?keys" for key
  proof (cases "row_of user (sd_rows ?db1) key")
    case None
    then show ?thesis using after [OF key] row' by (simp add: key_events_def row_events_def)
  next
    case (Some r)
    have copy: "map_of copy_ids (uc_id r) = uc_copy (linked (sd_copies db') ids r)" if item: "uc_item r \<noteq> None"
    proof -
      have "r \<in> set ?page" using page Some key by blast
      then have "map_of copy_ids (uc_id r) = copy_of_row (sd_copies db') (uc_id r)" using en item by (simp add: copies_of_page_def)
      also have "\<dots> = copy_of_row (sd_copies db') (uc_id (linked (sd_copies db') ids r))" by simp
      also have "\<dots> = uc_copy (linked (sd_copies db') ids r)"
      proof (rule linked_copy_of)
        show "linked (sd_copies db') ids r \<in> set (sd_rows db')" using Some row_of_iff [OF rows1] unfolding ids(1) by auto
      qed (use en item in auto)
      finally show ?thesis .
    qed
    then show ?thesis using after [OF key] before [OF key] row' Some
      by (auto simp: key_events_def row_events_def changed_linked split: option.splits)
  qed
  then have "evs = concat (map (\<lambda>key. row_events (row_of user (sd_rows db) key) (row_of user (sd_rows db') key)) (first_keys ?keys))"
    unfolding evs collection_page_events_def by (intro arg_cong [where f = concat] map_cong) simp_all
  then show ?thesis using ok' same untouched written en by simp
qed

end
