(* ===== verification/Sync_Samples.thy ===== *)
theory Sync_Samples
  imports Sync_Run
begin

text \<open>
  A small collection and wantlist to run the sync on: two pages of a listing, a database that holds
  one listed row, one row that is listed no more and a row of another user.
\<close>

definition sample_codec :: sync_codec where
  "sample_codec = \<lparr>sc_formats = concat, sc_media = concat, sc_metadata = (\<lambda>c. c), sc_digest = (\<lambda>s. s),
     sc_id = (\<lambda>n. replicate n CHR 0x31)\<rparr>"

definition sample_item :: "int \<Rightarrow> int \<Rightarrow> int \<Rightarrow> coll_item" where
  "sample_item release inst rating =
     \<lparr>ci_release = Some release, ci_instance = Some inst, ci_folder = Some 1, ci_title = Some ''t'', ci_artists = [''a''],
      ci_year = None, ci_formats = [''v''], ci_labels = [(''l'', Some ''c'')], ci_rating = Some rating, ci_date = None\<rparr>"

definition sample_items :: "nat \<Rightarrow> coll_item list" where
  "sample_items page = (if page = 1 then [sample_item 1 11 5, sample_item 2 22 0] else [sample_item 3 33 0])"

definition sample_want :: "int \<Rightarrow> want_item" where
  "sample_want release =
     \<lparr>wi_release = Some release, wi_title = None, wi_artists = [], wi_year = None, wi_formats = [], wi_labels = [],
      wi_rating = None, wi_notes = None, wi_date = None\<rparr>"

text \<open>The first request is limited; each page announces two.\<close>

definition sample_reply :: "(nat \<Rightarrow> 'i list) \<Rightarrow> nat \<Rightarrow> nat \<Rightarrow> (sync_failure, 'i page_reply) result" where
  "sample_reply items k page =
     (if k = 0 then Inr \<lparr>pr_status = 429, pr_items = None, pr_pages = None\<rparr>
      else Inr \<lparr>pr_status = 200, pr_items = Some (items page), pr_pages = Some 2\<rparr>)"

definition sample_native :: "int \<Rightarrow> nat option" where
  "sample_native release = (if release = 3 then None else Some (nat release))"

definition sample_env :: "(nat \<Rightarrow> 'i list) \<Rightarrow> 'i sync_env" where
  "sample_env items = \<lparr>se_reply = sample_reply items, se_page = (\<lambda>k. None), se_graph = (\<lambda>k. None), se_sweep = None,
     se_graph_sweep = None, se_snapshot = None, se_native = (\<lambda>k. sample_native), se_now = int\<rparr>"

definition sample_row :: "nat \<Rightarrow> string \<Rightarrow> int \<Rightarrow> int \<Rightarrow> nat option \<Rightarrow> coll_row" where
  "sample_row n user release inst copy =
     \<lparr>uc_id = n, uc_user = user, uc_release = release, uc_instance = Some inst, uc_folder = Some 1, uc_title = None, uc_artist = None,
      uc_year = None, uc_formats = None, uc_label = None, uc_rating = 0, uc_date = Some 7, uc_metadata = None, uc_media = [],
      uc_item = Some (nat release), uc_copy = copy, uc_updated = 1\<rparr>"

definition sample_copy :: "nat \<Rightarrow> string \<Rightarrow> nat \<Rightarrow> nat \<Rightarrow> owned_copy" where
  "sample_copy n user item row = \<lparr>oc_id = n, oc_user = user, oc_item = item, oc_row = Some row, oc_acquired = Some 7, oc_updated = 1\<rparr>"

definition sample_edge :: "string \<Rightarrow> int \<Rightarrow> int \<Rightarrow> coll_edge" where
  "sample_edge user release inst =
     \<lparr>ce_user = user, ce_release = release, ce_instance = inst, ce_rating = 0, ce_folder = None, ce_date = None, ce_synced = 1\<rparr>"

definition sample_db :: sync_db where
  "sample_db =
     \<lparr>sd_next = 20, sd_rows = [sample_row 1 ''u'' 1 11 (Some 11), sample_row 2 ''u'' 9 99 (Some 12), sample_row 3 ''w'' 9 98 (Some 13)],
      sd_copies = [sample_copy 11 ''u'' 1 1, sample_copy 12 ''u'' 9 2, sample_copy 13 ''w'' 9 3],
      sd_wants = [new_want_row 4 \<lparr>wp_user = ''u'', wp_release = 8, wp_title = None, wp_artist = None, wp_year = None, wp_format = None,
         wp_rating = 0, wp_notes = None, wp_date = None, wp_media = [], wp_stamp = 1\<rparr> None],
      sd_snapshots = [], sd_users = [], sd_releases = [(1, None), (2, None), (9, None)],
      sd_edges = [sample_edge ''u'' 1 11, sample_edge ''u'' 9 99, sample_edge ''w'' 9 98],
      sd_want_edges = [\<lparr>we_user = ''u'', we_release = 9, we_rating = 0, we_date = None, we_synced = 1\<rparr>], sd_events = []\<rparr>"

lemmas sample_defs = sample_codec_def sample_item_def sample_items_def sample_want_def sample_reply_def sample_native_def
  sample_env_def sample_row_def sample_copy_def sample_edge_def sample_db_def

text \<open>Two runs over the sample listing, one after the other.\<close>

definition sample_after :: sync_db where
  "sample_after = fst (the (sync_collection 9 sample_codec (sample_env sample_items) ''u'' ''n'' 10 sample_db))"

definition sample_again :: sync_db where
  "sample_again = fst (the (sync_collection 9 sample_codec (sample_env sample_items) ''u'' ''n'' 20 sample_after))"

lemma completed_as: "map_option snd x = Some r \<Longrightarrow> x = Some (fst (the x), r)"
  by (cases x) auto

lemma sample_runs:
  "sync_collection 9 sample_codec (sample_env sample_items) ''u'' ''n'' 10 sample_db = Some (sample_after, Inr 3)"
  "sync_collection 9 sample_codec (sample_env sample_items) ''u'' ''n'' 20 sample_after = Some (sample_again, Inr 3)"
  unfolding sample_again_def unfolding sample_after_def
  by (rule completed_as, code_simp)+

end
