(* ===== verification/Sync_Properties.thy ===== *)
theory Sync_Properties
  imports Sync_Tables Sync_Samples
begin

text \<open>
  Properties of the sync: what a run that fails on the way may have changed, what a run that
  completes leaves, the events it emits, running it again, and the record in the history.
\<close>

section \<open>The graph leaves the tables alone\<close>

definition graph_only :: "sync_db \<Rightarrow> sync_db \<Rightarrow> bool" where
  "graph_only db db' \<longleftrightarrow> sd_next db' = sd_next db \<and> sd_rows db' = sd_rows db \<and> sd_copies db' = sd_copies db
     \<and> sd_wants db' = sd_wants db \<and> sd_snapshots db' = sd_snapshots db \<and> sd_events db' = sd_events db
     \<and> dict_keys (sd_releases db') = dict_keys (sd_releases db)"

lemma set_catno_keys [simp]: "dict_keys (set_catno e rs) = dict_keys rs"
  by (simp add: set_catno_def case_prod_unfold if_distrib [of fst] cong: if_cong)

lemma set_catno_lookup [simp]: "map_of (set_catno e rs) r = None \<longleftrightarrow> map_of rs r = None"
  unfolding map_of_eq_None_iff set_map [symmetric] set_catno_keys ..

lemma merge_collected_keeps:
  "merge_collected user t es db = Inr db' \<Longrightarrow> graph_only db db' \<and> sd_want_edges db' = sd_want_edges db"
proof (induction es arbitrary: db)
  case (Cons e es)
  show ?case
  proof (cases "map_of (sd_releases db) (re_release e)")
    case None
    then show ?thesis using Cons by simp
  next
    case (Some c)
    then obtain inst where "re_instance e = Some inst" using Cons.prems by (auto split: option.splits)
    then have "merge_collected user t es 
        (db\<lparr>sd_edges := merge_coll_edge user t e inst (sd_edges db), sd_releases := set_catno e (sd_releases db)\<rparr>) = Inr db'"
      using Cons.prems Some by simp
    from Cons.IH [OF this] show ?thesis by (simp add: graph_only_def)
  qed
qed (simp add: graph_only_def)

lemma graph_page_keeps:
  assumes "graph_collection_page user username t es db = Inr db'"
  shows "graph_only db db' \<and> sd_want_edges db' = sd_want_edges db"
  using merge_collected_keeps [OF assms [unfolded graph_collection_page_def]] by (simp add: graph_only_def)

section \<open>What a page keeps\<close>

text \<open>Nothing that was held is lost: no key, no copy and no link, and no removal is announced.\<close>

definition removal :: "sync_event \<Rightarrow> bool" where
  "removal e = (case e of CollectionRemoved i c \<Rightarrow> True | WantRemoved i \<Rightarrow> True | _ \<Rightarrow> False)"

definition nothing_lost :: "string \<Rightarrow> sync_db \<Rightarrow> sync_db \<Rightarrow> bool" where
  "nothing_lost user db db' \<longleftrightarrow>
     (\<forall>key r. row_of user (sd_rows db) key = Some r \<longrightarrow> (\<exists>r'. row_of user (sd_rows db') key = Some r' \<and> uc_id r' = uc_id r))
     \<and> (\<forall>u key. u \<noteq> user \<longrightarrow> row_of u (sd_rows db') key = row_of u (sd_rows db) key)
     \<and> same_places (sd_copies db) (sd_copies db') \<and> sd_snapshots db' = sd_snapshots db
     \<and> (\<exists>evs. sd_events db' = sd_events db @ map (Pair user) evs \<and> list_all (\<lambda>e. \<not> removal e) evs)"

lemma nothing_lost_refl: "nothing_lost user db db"
  by (auto simp: nothing_lost_def same_places_refl intro: exI [of _ "[]"])

lemma nothing_lost_trans:
  assumes "nothing_lost user db db1" "nothing_lost user db1 db2"
  shows "nothing_lost user db db2"
  unfolding nothing_lost_def
proof (intro conjI allI impI)
  note a = assms [unfolded nothing_lost_def]
  show "\<exists>r'. row_of user (sd_rows db2) key = Some r' \<and> uc_id r' = uc_id r" if "row_of user (sd_rows db) key = Some r" for key r
    using a that by metis
  show "row_of u (sd_rows db2) key = row_of u (sd_rows db) key" if "u \<noteq> user" for u key
    using a that by metis
  show "same_places (sd_copies db) (sd_copies db2)" using a same_places_trans by blast
  show "sd_snapshots db2 = sd_snapshots db" using a by simp
  obtain e1 e2 where "sd_events db1 = sd_events db @ map (Pair user) e1" "list_all (\<lambda>e. \<not> removal e) e1"
    "sd_events db2 = sd_events db1 @ map (Pair user) e2" "list_all (\<lambda>e. \<not> removal e) e2" using a by blast
  then show "\<exists>evs. sd_events db2 = sd_events db @ map (Pair user) evs \<and> list_all (\<lambda>e. \<not> removal e) evs"
    by (intro exI [of _ "e1 @ e2"]) simp
qed

lemma graph_only_rows:
  "graph_only db db' \<Longrightarrow> nothing_lost user db db'"
  using nothing_lost_refl [of user db] by (auto simp: graph_only_def nothing_lost_def)

text \<open>The items of a page each have an instance id, as the Discogs collection gives them.\<close>

definition items_ok :: "coll_item list \<Rightarrow> bool" where
  "items_ok items \<longleftrightarrow> (\<forall>i \<in> set items. given_id (ci_release i) \<longrightarrow> given_id (ci_instance i))"

lemma batch_ok: "items_ok items \<Longrightarrow> \<forall>p \<in> set (coll_batch sc user t items). param_ok user p"
proof
  fix p
  assume ok: "items_ok items" and "p \<in> set (coll_batch sc user t items)"
  then obtain i where i: "i \<in> set items" "given_id (ci_release i)" "coll_param sc user t i = Some p"
    by (auto simp: coll_batch_def set_map_filter coll_param_def split: if_splits)
  have "given_id (ci_instance i)" using ok i(1,2) by (simp add: items_ok_def)
  then have "ci_instance i \<noteq> None" by (simp add: given_id_def split: option.splits)
  then show "param_ok user p" using i(2,3) by (auto simp: coll_param_def param_ok_def)
qed

text \<open>What a page that was stored did.\<close>

definition page_stored :: "(int \<Rightarrow> nat option) \<Rightarrow> string \<Rightarrow> coll_param list \<Rightarrow> sync_db \<Rightarrow> sync_db \<Rightarrow> bool" where
  "page_stored native user params db db' \<longleftrightarrow>
     (\<forall>u key. u \<noteq> user \<or> last_write key params = None \<longrightarrow> row_of u (sd_rows db') key = row_of u (sd_rows db) key)
     \<and> (\<forall>key p. last_write key params = Some p \<longrightarrow> (\<exists>r. row_of user (sd_rows db') key = Some r \<and> mirrors native p r
          \<and> (\<forall>r0. row_of user (sd_rows db) key = Some r0 \<longrightarrow> uc_id r = uc_id r0 \<and> (uc_item r0 \<noteq> None \<longrightarrow> uc_item r \<noteq> None))))
     \<and> sd_events db' = sd_events db @ map (Pair user) (concat (map (\<lambda>key.
           row_events (row_of user (sd_rows db) key) (row_of user (sd_rows db') key)) (first_keys (map param_key params))))
     \<and> same_places (sd_copies db) (sd_copies db') \<and> sd_snapshots db' = sd_snapshots db"

lemma row_events_no_removal: "list_all (\<lambda>e. \<not> removal e) (row_events b a)"
  by (simp add: row_events_def removal_def split: option.split)

lemma page_stored_keeps: "page_stored native user params db db' \<Longrightarrow> nothing_lost user db db'"
  unfolding nothing_lost_def
proof (intro conjI allI impI)
  assume s: "page_stored native user params db db'"
  note s = s [unfolded page_stored_def]
  show "\<exists>r'. row_of user (sd_rows db') key = Some r' \<and> uc_id r' = uc_id r" if "row_of user (sd_rows db) key = Some r" for key r
  proof (cases "last_write key params")
    case None
    then have "row_of user (sd_rows db') key = row_of user (sd_rows db) key" using s by blast
    then show ?thesis using that by simp
  next
    case (Some p)
    then show ?thesis using s that by blast
  qed
  show "row_of u (sd_rows db') key = row_of u (sd_rows db) key" if "u \<noteq> user" for u key using s that by blast
  show "same_places (sd_copies db) (sd_copies db')" "sd_snapshots db' = sd_snapshots db" using s by simp_all
  show "\<exists>evs. sd_events db' = sd_events db @ map (Pair user) evs \<and> list_all (\<lambda>e. \<not> removal e) evs"
  proof (intro exI conjI)
    show "sd_events db' = sd_events db @ map (Pair user) (concat (map (\<lambda>key.
           row_events (row_of user (sd_rows db) key) (row_of user (sd_rows db') key)) (first_keys (map param_key params))))"
      using s by blast
    show "list_all (\<lambda>e. \<not> removal e) (concat (map (\<lambda>key.
           row_events (row_of user (sd_rows db) key) (row_of user (sd_rows db') key)) (first_keys (map param_key params))))"
      using row_events_no_removal unfolding list_all_iff by auto
  qed
qed

lemma store_page_cases:
  assumes ok: "sync_ok db" "items_ok items"
    and store: "store_collection_page sc env user t k items db = (db', r)"
  obtains (failed) f where "r = Inl f" "db' = db"
  | (empty) "coll_batch sc user t items = []" "r = Inr 0" "db' = db"
  | (stored) "r = Inr (length (coll_batch sc user t items))" "sync_ok db'"
      "page_stored (se_native env k) user (coll_batch sc user t items) db db'"
proof (cases "coll_batch sc user t items = []")
  case True
  then show thesis using empty store by (simp add: store_collection_page_def)
next
  case False
  let ?b = "coll_batch sc user t items"
  show thesis
  proof (cases "se_page env k")
    case (Some f)
    then show thesis using failed [of f] store False by (simp add: store_collection_page_def unless_failing_def)
  next
    case None
    show thesis
    proof (cases "persist_collection_page user (se_native env k) (se_now env k) ?b db")
      case (Inl e)
      then show thesis using failed [of "SyncFailed e"] store False None by (simp add: store_collection_page_def unless_failing_def)
    next
      case (Inr x)
      obtain evs db1 where x: "x = (evs, db1)" by fastforce
      have r: "r = Inr (length ?b)" "db' = emit_events user evs db1"
        using store False None Inr x by (simp_all add: store_collection_page_def unless_failing_def)
      note p = persist_ok [OF Inr [unfolded x] ok(1) batch_ok [OF ok(2)]]
      have "sync_ok db'" using p by (simp add: r(2) emit_events_def sync_ok_def)
      moreover have "page_stored (se_native env k) user ?b db db'"
        using p by (simp add: page_stored_def r(2) emit_events_def same_but_copies_def)
      ultimately show thesis using stored r(1) by blast
    qed
  qed
qed
text \<open>A page of the collection, tables and graph together.\<close>

lemma graph_step_cases:
  assumes "graph_page env k c es query db = (db', r)"
  obtains (failed) f where "r = Inl f" "db' = db" | (skipped) "es = []" "r = Inr c" "db' = db"
    | (done') "r = Inr c" "query db = Inr db'"
  using assms by (cases "es = []"; cases "se_graph env k"; cases "query db") (auto simp: graph_page_def unless_failing_def)

lemma graph_page_only:
  assumes "graph_page env k c es (graph_collection_page user username t es') db = (db', r)"
  shows "graph_only db db'"
  using assms
proof (cases rule: graph_step_cases)
  case done'
  then show ?thesis using graph_page_keeps by blast
qed (simp_all add: graph_only_def)

lemma graph_only_ok: "graph_only db db' \<Longrightarrow> sync_ok db \<Longrightarrow> sync_ok db'"
  by (simp add: graph_only_def sync_ok_def)

lemma collection_page_cases:
  assumes "collection_page sc env user username t k items db = (db', r)"
  obtains (failed) f where "r = Inl f" "store_collection_page sc env user t k items db = (db', Inl f)"
  | (stored) db1 c where "store_collection_page sc env user t k items db = (db1, Inr c)" "graph_only db1 db'"
      "graph_page env k c (coll_entries items) (graph_collection_page user username t (coll_entries items)) db1 = (db', r)"
proof (cases "store_collection_page sc env user t k items db")
  case (Pair db1 res)
  show thesis
  proof (cases res)
    case (Inl f)
    then show thesis using failed assms Pair by (simp add: collection_page_def)
  next
    case (Inr c)
    then have g: "graph_page env k c (coll_entries items) (graph_collection_page user username t (coll_entries items)) db1 = (db', r)"
      using assms Pair by (simp add: collection_page_def)
    then show thesis using stored Pair Inr graph_page_only by blast
  qed
qed

lemma collection_page_keeps:
  assumes "sync_ok db" "items_ok items" "collection_page sc env user username t k items db = (db', r)"
  shows "sync_ok db' \<and> nothing_lost user db db'"
  using assms(3)
proof (cases rule: collection_page_cases)
  case (failed f)
  show ?thesis using failed(2) assms(1,2)
    by (cases rule: store_page_cases [OF assms(1,2) failed(2)]) (simp_all add: nothing_lost_refl)
next
  case (stored db1 c)
  have "sync_ok db1 \<and> nothing_lost user db db1"
    by (cases rule: store_page_cases [OF assms(1,2) stored(1)]) (use assms(1) page_stored_keeps in \<open>auto simp: nothing_lost_refl\<close>)
  then show ?thesis
    using graph_only_ok [OF stored(2)] nothing_lost_trans [OF _ graph_only_rows [OF stored(2)]] by blast
qed

interpretation coll: paged_sync "collection_page sc env user username t" sync_ok "nothing_lost user" items_ok
  for sc :: sync_codec and env :: "'e sync_env" and user :: string and username :: string and t :: int
  by unfold_locales (use collection_page_keeps nothing_lost_refl nothing_lost_trans in blast)+

section \<open>The whole listing\<close>

definition listing_ok :: "(nat \<Rightarrow> nat \<Rightarrow> (sync_failure, coll_item page_reply) result) \<Rightarrow> bool" where
  "listing_ok reply \<longleftrightarrow> (\<forall>k page r. reply k page = Inr r \<longrightarrow> items_ok (reply_items r))"

definition written :: "sync_codec \<Rightarrow> string \<Rightarrow> int \<Rightarrow> (nat \<times> coll_item list) list \<Rightarrow> coll_param list" where
  "written sc user t ps = concat (map (\<lambda>(k, items). coll_batch sc user t items) ps)"

text \<open>What the tables hold once pages have been stored.\<close>

definition holds_written :: "coll_item sync_env \<Rightarrow> string \<Rightarrow> sync_db \<Rightarrow> coll_param list \<Rightarrow> sync_db \<Rightarrow> bool" where
  "holds_written env user db0 ws db \<longleftrightarrow> (\<forall>key.
     (case last_write key ws of
        None \<Rightarrow> row_of user (sd_rows db) key = row_of user (sd_rows db0) key
      | Some p \<Rightarrow> \<exists>r k. row_of user (sd_rows db) key = Some r \<and> mirrors (se_native env k) p r
          \<and> (\<forall>r0. row_of user (sd_rows db0) key = Some r0 \<longrightarrow> uc_id r = uc_id r0)))"

lemma holds_written_page:
  assumes h: "holds_written env user db0 ws db" and s: "page_stored (se_native env k) user params db db'"
  shows "holds_written env user db0 (ws @ params) db'"
  unfolding holds_written_def
proof
  fix key
  show "case last_write key (ws @ params) of
        None \<Rightarrow> row_of user (sd_rows db') key = row_of user (sd_rows db0) key
      | Some p \<Rightarrow> \<exists>r k. row_of user (sd_rows db') key = Some r \<and> mirrors (se_native env k) p r
          \<and> (\<forall>r0. row_of user (sd_rows db0) key = Some r0 \<longrightarrow> uc_id r = uc_id r0)"
  proof (cases "last_write key params")
    case None
    then have same: "row_of user (sd_rows db') key = row_of user (sd_rows db) key" using s unfolding page_stored_def by blast
    show ?thesis using h [unfolded holds_written_def, rule_format, of key] unfolding last_write_append None option.case same
      by (simp split: option.splits)
  next
    case (Some p)
    then obtain r where r: "row_of user (sd_rows db') key = Some r" "mirrors (se_native env k) p r"
      "\<forall>r0. row_of user (sd_rows db) key = Some r0 \<longrightarrow> uc_id r = uc_id r0"
      using s unfolding page_stored_def by blast
    have "uc_id r = uc_id r0" if r0: "row_of user (sd_rows db0) key = Some r0" for r0
    proof (cases "last_write key ws")
      case None
      then show ?thesis using h [unfolded holds_written_def, rule_format, of key] r(3) r0 by simp
    next
      case (Some q)
      then show ?thesis using h [unfolded holds_written_def, rule_format, of key] r(3) r0 by auto
    qed
    then show ?thesis using r Some by (auto simp: last_write_append)
  qed
qed

lemma stored_listing:
  assumes "handle_pages (collection_page sc env user username t) ps got db = (db', Inr n)"
    and "\<forall>(k, items) \<in> set ps. items_ok items" "sync_ok db" "holds_written env user db0 ws db"
  shows "holds_written env user db0 (ws @ written sc user t ps) db' \<and> n = got + length (written sc user t ps)"
  using assms
proof (induction ps arbitrary: got db ws)
  case (Cons p ps)
  obtain k items where p: "p = (k, items)" by fastforce
  let ?b = "coll_batch sc user t items"
  have items: "items_ok items" and rest: "\<forall>(k, items) \<in> set ps. items_ok items" using Cons.prems(2) p by auto
  obtain db2 res where h: "collection_page sc env user username t k items db = (db2, res)" by fastforce
  then obtain c where res: "res = Inr c" using Cons.prems(1) p by (cases res) auto
  then have go: "handle_pages (collection_page sc env user username t) ps (got + c) db2 = (db', Inr n)"
    using Cons.prems(1) p h by simp
  have ok2: "sync_ok db2" using collection_page_keeps [OF Cons.prems(3) items h] by blast
  from h have "holds_written env user db0 (ws @ ?b) db2 \<and> c = length ?b"
  proof (cases rule: collection_page_cases)
    case (stored db1 c')
    have c': "c' = c" using stored(3) res by (cases rule: graph_step_cases) auto
    have "holds_written env user db0 (ws @ ?b) db1 \<and> c' = length ?b"
      by (cases rule: store_page_cases [OF Cons.prems(3) items stored(1)])
        (use Cons.prems(4) holds_written_page [OF Cons.prems(4)] in auto)
    moreover have "sd_rows db2 = sd_rows db1" using stored(2) by (simp add: graph_only_def)
    ultimately show ?thesis using c' by (simp only: holds_written_def) simp
  qed (use res in simp)
  then show ?case using Cons.IH [OF go rest ok2, of "ws @ ?b"] p by (auto simp: written_def)
qed (simp add: written_def)

section \<open>The sweep\<close>

definition unlinked :: "nat list \<Rightarrow> owned_copy \<Rightarrow> owned_copy" where
  "unlinked gone c = (case oc_row c of None \<Rightarrow> c | Some row \<Rightarrow> if row \<in> set gone then c\<lparr>oc_row := None\<rparr> else c)"

lemma unlinked_fields [simp]:
  "oc_id (unlinked gone c) = oc_id c" "oc_user (unlinked gone c) = oc_user c" "oc_item (unlinked gone c) = oc_item c"
  "oc_acquired (unlinked gone c) = oc_acquired c"
  by (simp_all add: unlinked_def split: option.split)

lemma unlinked_row: "oc_row (unlinked gone c) = Some row \<longleftrightarrow> oc_row c = Some row \<and> row \<notin> set gone"
  by (auto simp: unlinked_def split: option.splits)

lemma unlinked_kept: "oc_row c = Some row \<Longrightarrow> row \<notin> set gone \<Longrightarrow> unlinked gone c = c"
  by (simp add: unlinked_def)

lemma delete_stale_unfold:
  "delete_stale_collection user t db =
     db\<lparr>sd_rows := filter (\<lambda>r. \<not> stale_row user t r) (sd_rows db),
        sd_copies := map (unlinked (map uc_id (filter (stale_row user t) (sd_rows db)))) (sd_copies db)\<rparr>"
  by (simp add: delete_stale_collection_def unlinked_def [abs_def] Let_def)

lemma filter_rows_ok: "rows_ok n rows \<Longrightarrow> rows_ok n (filter P rows)"
  by (auto simp: rows_ok_def distinct_map intro: inj_on_subset)

lemma sweep_ok:
  assumes "sync_ok db"
  shows "sync_ok (delete_stale_collection user t db)"
proof -
  let ?gone = "map uc_id (filter (stale_row user t) (sd_rows db))"
  let ?f = "unlinked ?gone"
  have rows: "rows_ok (sd_next db) (sd_rows db)" and copies: "copies_ok (sd_next db) (sd_rows db) (sd_copies db)"
    and linked: "linked_ok (sd_rows db) (sd_copies db)" using assms by (simp_all add: sync_ok_def)
  have kept: "uc_id r \<in> set ?gone \<longleftrightarrow> stale_row user t r" if "r \<in> set (sd_rows db)" for r
    using that rows by (auto simp: rows_ok_def distinct_map inj_on_def)
  have "copies_ok (sd_next db) (filter (\<lambda>r. \<not> stale_row user t r) (sd_rows db)) (map ?f (sd_copies db))"
    unfolding copies_ok_def
  proof (intro conjI ballI allI impI)
    have "map oc_id (map ?f (sd_copies db)) = map oc_id (sd_copies db)" by simp
    then show "distinct (map oc_id (map ?f (sd_copies db)))" using copies by (simp only: copies_ok_def)
    fix c
    assume "c \<in> set (map ?f (sd_copies db))"
    then obtain c0 where c0: "c0 \<in> set (sd_copies db)" "c = ?f c0" by auto
    then show "oc_id c < sd_next db" using copies by (simp add: copies_ok_def)
    show "\<exists>r \<in> set (filter (\<lambda>r. \<not> stale_row user t r) (sd_rows db)). uc_id r = row \<and> uc_user r = oc_user c"
      if row: "oc_row c = Some row" for row
    proof -
      have r: "oc_row c0 = Some row" "row \<notin> set ?gone" using row unfolding c0(2) unlinked_row by blast+
      then obtain r where "r \<in> set (sd_rows db)" "uc_id r = row" "uc_user r = oc_user c0"
        using copies c0(1) unfolding copies_ok_def by blast
      then show ?thesis using r(2) kept c0(2) by auto
    qed
    fix c'
    assume "c' \<in> set (map ?f (sd_copies db))" and same: "oc_row c = oc_row c' \<and> oc_row c \<noteq> None"
    then obtain c1 where c1: "c1 \<in> set (sd_copies db)" "c' = ?f c1" by auto
    obtain row where row: "oc_row (?f c0) = Some row" using same unfolding c0(2) by blast
    moreover from this have "oc_row (?f c1) = Some row" using same unfolding c0(2) c1(2) by simp
    ultimately have "oc_row c0 = Some row" "oc_row c1 = Some row" unfolding unlinked_row by blast+
    then show "c = c'" using copy_unique [OF copies c0(1) c1(1)] c0(2) c1(2) by blast
  qed
  moreover have "linked_ok (filter (\<lambda>r. \<not> stale_row user t r) (sd_rows db)) (map ?f (sd_copies db))"
    unfolding linked_ok_def'
  proof
    fix r
    assume "r \<in> set (filter (\<lambda>r. \<not> stale_row user t r) (sd_rows db))"
    then have r: "r \<in> set (sd_rows db)" "uc_id r \<notin> set ?gone" using kept by auto
    have "?f c = c" if "oc_row c = Some (uc_id r)" for c using unlinked_kept that r(2) by blast
    moreover have "linked_row (sd_copies db) r" using linked r(1) by (simp add: linked_ok_def')
    ultimately show "linked_row (map ?f (sd_copies db)) r" unfolding linked_row_def set_map by (metis image_eqI)
  qed
  ultimately show ?thesis using filter_rows_ok [OF rows] unfolding delete_stale_unfold sync_ok_def by simp
qed

lemma sweep_row_of:
  assumes "sync_ok db"
  shows "row_of u (sd_rows (delete_stale_collection user t db)) key
    = (case row_of u (sd_rows db) key of None \<Rightarrow> None | Some r \<Rightarrow> if stale_row user t r then None else Some r)"
proof -
  have rows: "rows_ok (sd_next db) (sd_rows db)" using assms by (simp add: sync_ok_def)
  have "row_of u (sd_rows (delete_stale_collection user t db)) key = Some r \<longleftrightarrow>
     row_of u (sd_rows db) key = Some r \<and> \<not> stale_row user t r" for r
    unfolding delete_stale_unfold using row_of_iff [OF filter_rows_ok [OF rows], of u _ key r] row_of_iff [OF rows, of u key r] by auto
  then show ?thesis by (cases "row_of u (sd_rows db) key") (simp_all, metis not_None_eq, metis option.exhaust option.inject)
qed

lemma finish_cases:
  assumes "finish_collection sc env user t got db = (db', Inr n)"
  obtains "n = got" "db' = write_collection_snapshot sc user t (emit_events user (removal_events (filter (stale_row user t) (sd_rows db)))
      (delete_stale_edges user t (delete_stale_collection user t db)))"
  using assms unfolding finish_collection_def reconcile_stale_collection_def unless_failing_def Let_def
  by (cases "se_sweep env"; cases "se_graph_sweep env"; cases "se_snapshot env") auto

lemma finish_rows:
  assumes "finish_collection sc env user t got db = (db', Inr n)"
  shows "sd_rows db' = sd_rows (delete_stale_collection user t db) \<and> sd_copies db' = sd_copies (delete_stale_collection user t db)
    \<and> sd_next db' = sd_next db \<and> n = got
    \<and> sd_events db' = sd_events db @ map (Pair user) (removal_events (filter (stale_row user t) (sd_rows db)))
    \<and> sd_snapshots db' = sd_snapshots db @ [snapshot_of sc user t db']"
  by (rule finish_cases [OF assms])
    (simp add: write_collection_snapshot_def emit_events_def delete_stale_edges_def delete_stale_unfold snapshot_of_def)

lemma sync_collection_completed:
  assumes "sync_collection fuel sc env user username t db = Some (db', Inr n)"
  obtains ps db1 m where "pages_read fuel (se_reply env) 0 1 0 = Some ps"
    "handle_pages (collection_page sc env user username t) ps 0 db = (db1, Inr m)"
    "finish_collection sc env user t m db1 = (db', Inr n)"
proof -
  obtain db1 m where l: "sync_pages fuel (se_reply env) (collection_page sc env user username t) 0 1 0 0 db = Some (db1, Inr m)"
    and f: "finish_collection sc env user t m db1 = (db', Inr n)"
    using assms by (auto simp: sync_collection_def split: option.splits prod.splits sum.splits)
  then show thesis using that sync_pages_completed [OF l] by blast
qed

lemma written_stamp: "p \<in> set (written sc user t ps) \<Longrightarrow> cp_stamp p = t \<and> cp_user p = user"
  by (auto simp: written_def coll_batch_def set_map_filter coll_param_def split: if_splits)

text \<open>
  C24.  A collection sync that completes leaves exactly what Discogs lists: under every key of the
  listing the user holds one row with the values of its last entry (values Discogs left out stay as
  stored), under no other key any row, and a row that was there keeps its id.  Every row with an
  item is linked to its one owned copy, other users' rows are as they were, and the count returned
  is the number of entries listed.
\<close>

theorem collection_mirrors_listing:
  assumes "sync_ok db" "listing_ok (se_reply env)"
    and old: "\<forall>r \<in> set (sd_rows db). uc_user r = user \<longrightarrow> uc_updated r < t"
    and run: "sync_collection fuel sc env user username t db = Some (db', Inr n)"
  shows "\<exists>ps. pages_read fuel (se_reply env) 0 1 0 = Some ps \<and> n = length (written sc user t ps) \<and> sync_ok db'
    \<and> (\<forall>key. case last_write key (written sc user t ps) of
         None \<Rightarrow> row_of user (sd_rows db') key = None
       | Some p \<Rightarrow> \<exists>r k. row_of user (sd_rows db') key = Some r \<and> mirrors (se_native env k) p r
           \<and> (\<forall>r0. row_of user (sd_rows db) key = Some r0 \<longrightarrow> uc_id r = uc_id r0))
    \<and> (\<forall>u key. u \<noteq> user \<longrightarrow> row_of u (sd_rows db') key = row_of u (sd_rows db) key)"
proof -
  obtain ps db1 m where ps: "pages_read fuel (se_reply env) 0 1 0 = Some ps"
    and h: "handle_pages (collection_page sc env user username t) ps 0 db = (db1, Inr m)"
    and f: "finish_collection sc env user t m db1 = (db', Inr n)"
    by (rule sync_collection_completed [OF run])
  have items: "\<forall>(k, items) \<in> set ps. items_ok items"
    by (rule pages_read_ok [OF ps]) (use assms(2) in \<open>simp add: listing_ok_def\<close>)
  have "holds_written env user db [] db" by (simp add: holds_written_def last_write_def)
  from stored_listing [OF h items assms(1) this]
  have w: "holds_written env user db (written sc user t ps) db1" "m = length (written sc user t ps)" by simp_all
  have k1: "sync_ok db1" "nothing_lost user db db1" using coll.handled_keep [OF items assms(1) h] by blast+
  note fin = finish_rows [OF f]
  have rows: "sd_rows db' = sd_rows (delete_stale_collection user t db1)" using fin by blast
  have row': "row_of u (sd_rows db') key
      = (case row_of u (sd_rows db1) key of None \<Rightarrow> None | Some r \<Rightarrow> if stale_row user t r then None else Some r)" for u key
    unfolding rows by (rule sweep_row_of [OF k1(1)])
  have ok': "sync_ok db'"
    using sweep_ok [OF k1(1), of user t] fin unfolding sync_ok_def by (simp add: delete_stale_unfold)
  have mine: "case last_write key (written sc user t ps) of
         None \<Rightarrow> row_of user (sd_rows db') key = None
       | Some p \<Rightarrow> \<exists>r k. row_of user (sd_rows db') key = Some r \<and> mirrors (se_native env k) p r
           \<and> (\<forall>r0. row_of user (sd_rows db) key = Some r0 \<longrightarrow> uc_id r = uc_id r0)" for key
  proof (cases "last_write key (written sc user t ps)")
    case None
    then have eq: "row_of user (sd_rows db1) key = row_of user (sd_rows db) key"
      using w(1) [unfolded holds_written_def, rule_format, of key] by simp
    have "stale_row user t r" if "row_of user (sd_rows db1) key = Some r" for r
    proof -
      have "r \<in> set (sd_rows db)" "uc_user r = user" using row_ofD [of user "sd_rows db" key r] that unfolding eq by blast+
      then show ?thesis using old by (simp add: stale_row_def)
    qed
    then show ?thesis using None row' [of user key] by (simp split: option.splits)
  next
    case (Some p)
    then obtain r k where r: "row_of user (sd_rows db1) key = Some r" "mirrors (se_native env k) p r"
      "\<forall>r0. row_of user (sd_rows db) key = Some r0 \<longrightarrow> uc_id r = uc_id r0"
      using w(1) [unfolded holds_written_def, rule_format, of key] by auto
    have "cp_stamp p = t" using written_stamp last_write_Some [OF Some] by blast
    then have "\<not> stale_row user t r" using r(2) by (simp add: stale_row_def mirrors_def)
    then show ?thesis using Some r row' [of user key] by auto
  qed
  have "row_of u (sd_rows db') key = row_of u (sd_rows db) key" if "u \<noteq> user" for u key
  proof -
    have "row_of u (sd_rows db1) key = row_of u (sd_rows db) key" using k1(2) that unfolding nothing_lost_def by blast
    moreover have "\<not> stale_row user t r" if "row_of u (sd_rows db1) key = Some r" for r
      using that \<open>u \<noteq> user\<close> unfolding row_of_def by (auto simp: find_Some_iff stale_row_def)
    ultimately show ?thesis using row' [of u key] by (simp split: option.splits)
  qed
  then show ?thesis using ps w(2) fin ok' mine by (intro exI [of _ ps]) blast
qed

text \<open>The sample database is sound, and its listing gives every item an instance id.\<close>

lemma sample_sound: "sync_ok sample_db"
  by (simp add: sync_ok_def rows_ok_def copies_ok_def linked_ok_def sample_db_def sample_row_def sample_copy_def row_key_def)

lemma sample_listing: "listing_ok (se_reply (sample_env sample_items))"
  by (auto simp: listing_ok_def sample_env_def sample_reply_def sample_items_def reply_items_def items_ok_def sample_item_def given_id_def)

lemma sample_old: "\<forall>r \<in> set (sd_rows sample_db). uc_user r = ''u'' \<longrightarrow> uc_updated r < 10"
  by (simp add: sample_db_def sample_row_def)

lemma sample_pages: "pages_read 9 (se_reply (sample_env sample_items)) 0 1 0 = Some [(1, sample_items 1), (2, sample_items 2)]"
  by code_simp

lemma collection_mirrors_listing_witness:
  "sync_ok sample_after \<and> row_of ''u'' (sd_rows sample_after) (9, Some 99) = None
   \<and> (\<exists>r. row_of ''u'' (sd_rows sample_after) (1, Some 11) = Some r \<and> uc_id r = 1 \<and> uc_rating r = 5)"
proof -
  let ?ws = "written sample_codec ''u'' 10 [(1, sample_items 1), (2, sample_items 2)]"
  obtain ps where "pages_read 9 (se_reply (sample_env sample_items)) 0 1 0 = Some ps" and ok: "sync_ok sample_after"
    and all: "\<forall>key. case last_write key (written sample_codec ''u'' 10 ps) of
         None \<Rightarrow> row_of ''u'' (sd_rows sample_after) key = None
       | Some p \<Rightarrow> \<exists>r k. row_of ''u'' (sd_rows sample_after) key = Some r \<and> mirrors (se_native (sample_env sample_items) k) p r
           \<and> (\<forall>r0. row_of ''u'' (sd_rows sample_db) key = Some r0 \<longrightarrow> uc_id r = uc_id r0)"
    using collection_mirrors_listing [OF sample_sound sample_listing sample_old sample_runs(1)] by blast
  then have ps: "ps = [(1, sample_items 1), (2, sample_items 2)]" using sample_pages by simp
  have gone: "last_write (9, Some 99) ?ws = None" and kept: "map_option cp_rating (last_write (1, Some 11) ?ws) = Some 5"
    and old: "map_option uc_id (row_of ''u'' (sd_rows sample_db) (1, Some 11)) = Some 1" by code_simp+
  show ?thesis
    using ok all [rule_format, of "(9, Some 99)"] all [rule_format, of "(1, Some 11)"] gone kept old
    unfolding ps by (auto simp: mirrors_def)
qed

text \<open>
  C25.  A collection sync that fails or is cancelled loses nothing: unless the whole listing had been
  read and stored and it was the sweep or the snapshot that failed, every key held before is still
  held by the same row, every owned copy is still there and linked as it was, no snapshot is taken
  and no removal is announced.  Either way the tables stay sound.
\<close>

theorem failed_sync_loses_nothing:
  assumes "sync_ok db" "listing_ok (se_reply env)"
    and run: "sync_collection fuel sc env user username t db = Some (db', Inl f)"
  shows "sync_ok db' \<and> (nothing_lost user db db'
    \<or> (\<exists>ps db1 m. pages_read fuel (se_reply env) 0 1 0 = Some ps
         \<and> handle_pages (collection_page sc env user username t) ps 0 db = (db1, Inr m)
         \<and> nothing_lost user db db1 \<and> finish_collection sc env user t m db1 = (db', Inl f)))"
proof (cases "sync_pages fuel (se_reply env) (collection_page sc env user username t) 0 1 0 0 db")
  case None
  then show ?thesis using run by (simp add: sync_collection_def)
next
  case (Some x)
  obtain db1 res where x: "x = (db1, res)" by fastforce
  have items: "\<forall>k page r. se_reply env k page = Inr r \<longrightarrow> items_ok (reply_items r)" using assms(2) by (simp add: listing_ok_def)
  have k: "sync_ok db1" "nothing_lost user db db1" using coll.pages_keep [OF items assms(1) Some [unfolded x]] by blast+
  show ?thesis
  proof (cases res)
    case (Inl e)
    then show ?thesis using run Some x k by (simp add: sync_collection_def)
  next
    case (Inr m)
    then have f: "finish_collection sc env user t m db1 = (db', Inl f)" using run Some x by (simp add: sync_collection_def)
    have ok': "sync_ok db'"
      using f sweep_ok [OF k(1), of user t] k(1)
      unfolding finish_collection_def reconcile_stale_collection_def unless_failing_def Let_def
      by (cases "se_sweep env"; cases "se_graph_sweep env"; cases "se_snapshot env")
        (auto simp: sync_ok_def emit_events_def delete_stale_edges_def)
    show ?thesis using sync_pages_completed [OF Some [unfolded x Inr]] k f ok' by blast
  qed
qed

text \<open>The run is cancelled while it awaits the second page.\<close>

lemma failed_sync_loses_nothing_witness:
  "let env = (sample_env sample_items)\<lparr>se_reply := \<lambda>k page. if k = 2 then Inl SyncCancelled else sample_reply sample_items k page\<rparr>;
       db' = fst (the (sync_collection 9 sample_codec env ''u'' ''n'' 10 sample_db))
   in sync_ok db' \<and> sd_snapshots db' = []"
proof -
  let ?env = "(sample_env sample_items)\<lparr>se_reply := \<lambda>k page. if k = 2 then Inl SyncCancelled else sample_reply sample_items k page\<rparr>"
  let ?run = "sync_collection 9 sample_codec ?env ''u'' ''n'' 10 sample_db"
  have l: "listing_ok (se_reply ?env)" using sample_listing unfolding listing_ok_def by (simp add: sample_env_def)
  have run: "?run = Some (fst (the ?run), Inl SyncCancelled)" by (rule completed_as) code_simp
  have none: "pages_read 9 (se_reply ?env) 0 1 0 = None" by code_simp
  show ?thesis
    using failed_sync_loses_nothing [OF sample_sound l run] unfolding none Let_def nothing_lost_def by (simp add: sample_db_def)
qed

section \<open>The events of a run\<close>

lemma first_keys_id: "distinct ks \<Longrightarrow> first_keys ks = ks"
  by (simp add: first_keys_def distinct_remdups_id)

lemma stored_page_steps:
  assumes "handle_pages (collection_page sc env user username t) ((k, items) # ps) got db = (db', Inr n)"
    and "sync_ok db" "items_ok items"
  obtains db1 db2 where
    "coll_batch sc user t items = [] \<and> db1 = db \<or> page_stored (se_native env k) user (coll_batch sc user t items) db db1"
    "store_collection_page sc env user t k items db = (db1, Inr (length (coll_batch sc user t items)))"
    "graph_only db1 db2" "sync_ok db2"
    "handle_pages (collection_page sc env user username t) ps (got + length (coll_batch sc user t items)) db2 = (db', Inr n)"
proof -
  obtain db2 res where h: "collection_page sc env user username t k items db = (db2, res)" by fastforce
  then obtain c where res: "res = Inr c" using assms(1) by (cases res) auto
  have ok2: "sync_ok db2" using collection_page_keeps [OF assms(2,3) h] by blast
  from h show thesis
  proof (cases rule: collection_page_cases)
    case (stored db1 c')
    have c': "c' = c" using stored(3) res by (cases rule: graph_step_cases) auto
    show thesis
    proof (rule store_page_cases [OF assms(2,3) stored(1)])
      assume "coll_batch sc user t items = []" "(Inr c' :: (sync_failure, nat) result) = Inr 0" "db1 = db"
      then show thesis using that [of db db2] stored assms(1) h res c' ok2 by auto
    next
      assume "(Inr c' :: (sync_failure, nat) result) = Inr (length (coll_batch sc user t items))"
        "page_stored (se_native env k) user (coll_batch sc user t items) db db1"
      then show thesis using that [of db1 db2] stored assms(1) h res c' ok2 by auto
    qed simp
  qed (use res in simp)
qed

lemma listing_events:
  assumes "handle_pages (collection_page sc env user username t) ps got db = (db', Inr n)"
    and "\<forall>(k, items) \<in> set ps. items_ok items" "sync_ok db" "distinct (map param_key (written sc user t ps))"
  shows "sd_events db' = sd_events db @ map (Pair user) (concat (map (\<lambda>key.
            row_events (row_of user (sd_rows db) key) (row_of user (sd_rows db') key)) (map param_key (written sc user t ps))))
    \<and> (\<forall>key. key \<notin> param_key ` set (written sc user t ps) \<longrightarrow> row_of user (sd_rows db') key = row_of user (sd_rows db) key)"
  using assms
proof (induction ps arbitrary: got db)
  case (Cons p ps)
  obtain k items where p: "p = (k, items)" by fastforce
  let ?b = "coll_batch sc user t items" and ?w = "written sc user t ps"
  have w: "written sc user t (p # ps) = ?b @ ?w" by (simp add: p written_def)
  have items: "items_ok items" "\<forall>(k, items) \<in> set ps. items_ok items" using Cons.prems(2) p by auto
  obtain db1 db2 where s: "?b = [] \<and> db1 = db \<or> page_stored (se_native env k) user ?b db db1" and g: "graph_only db1 db2"
    and ok2: "sync_ok db2"
    and go: "handle_pages (collection_page sc env user username t) ps (got + length ?b) db2 = (db', Inr n)"
    by (rule stored_page_steps [OF Cons.prems(1) [unfolded p] Cons.prems(3) items(1)])
  have d: "distinct (map param_key ?b)" "distinct (map param_key ?w)" "set (map param_key ?b) \<inter> set (map param_key ?w) = {}"
    using Cons.prems(4) unfolding w by auto
  note ih = Cons.IH [OF go items(2) ok2 d(2)]
  have r2: "sd_rows db2 = sd_rows db1" "sd_events db2 = sd_events db1" using g by (simp_all add: graph_only_def)
  have later: "row_of user (sd_rows db') key = row_of user (sd_rows db1) key" if "key \<in> set (map param_key ?b)" for key
  proof -
    have "key \<notin> param_key ` set ?w" using d(3) that by auto
    then show ?thesis using ih r2(1) by metis
  qed
  have other: "row_of user (sd_rows db1) key = row_of user (sd_rows db) key" if "key \<notin> set (map param_key ?b)" for key
  proof -
    have "last_write key ?b = None" using that unfolding last_write_None by simp
    then show ?thesis using s unfolding page_stored_def by blast
  qed
  have ev1: "sd_events db1 = sd_events db @ map (Pair user) (concat (map (\<lambda>key.
      row_events (row_of user (sd_rows db) key) (row_of user (sd_rows db') key)) (map param_key ?b)))"
  proof -
    have "sd_events db1 = sd_events db @ map (Pair user) (concat (map (\<lambda>key.
      row_events (row_of user (sd_rows db) key) (row_of user (sd_rows db1) key)) (map param_key ?b)))"
      using s unfolding page_stored_def first_keys_id [OF d(1)] by auto
    also have "map (\<lambda>key. row_events (row_of user (sd_rows db) key) (row_of user (sd_rows db1) key)) (map param_key ?b)
        = map (\<lambda>key. row_events (row_of user (sd_rows db) key) (row_of user (sd_rows db') key)) (map param_key ?b)"
      using later by (intro map_cong) simp_all
    finally show ?thesis .
  qed
  have ev2: "map (\<lambda>key. row_events (row_of user (sd_rows db2) key) (row_of user (sd_rows db') key)) (map param_key ?w)
      = map (\<lambda>key. row_events (row_of user (sd_rows db) key) (row_of user (sd_rows db') key)) (map param_key ?w)"
  proof (intro map_cong refl)
    fix key
    assume "key \<in> set (map param_key ?w)"
    then have "key \<notin> set (map param_key ?b)" using d(3) by blast
    then show "row_events (row_of user (sd_rows db2) key) (row_of user (sd_rows db') key)
        = row_events (row_of user (sd_rows db) key) (row_of user (sd_rows db') key)" using other [of key] r2(1) by simp
  qed
  have "sd_events db' = sd_events db1 @ map (Pair user) (concat (map (\<lambda>key.
      row_events (row_of user (sd_rows db) key) (row_of user (sd_rows db') key)) (map param_key ?w)))"
    using conjunct1 [OF ih] unfolding ev2 r2(2) .
  moreover have "row_of user (sd_rows db') key = row_of user (sd_rows db) key" if "key \<notin> param_key ` set (?b @ ?w)" for key
  proof -
    have "key \<notin> set (map param_key ?b)" "key \<notin> param_key ` set ?w" using that by auto
    then show ?thesis using ih other r2(1) by metis
  qed
  ultimately show ?case unfolding w using ev1 by simp
qed (simp add: written_def)

text \<open>After a completed run, the row of a listed key is the one the last page left, and no other is.\<close>

lemma completed_rows:
  assumes w: "holds_written env user db (written sc user t ps) db1" and ok0: "sync_ok db" and ok1: "sync_ok db1"
    and old: "\<forall>r \<in> set (sd_rows db). uc_user r = user \<longrightarrow> uc_updated r < t"
    and f: "finish_collection sc env' user t m db1 = (db', Inr n)"
  shows "row_of user (sd_rows db') key
      = (if key \<in> param_key ` set (written sc user t ps) then row_of user (sd_rows db1) key else None)"
    and "set (filter (stale_row user t) (sd_rows db1))
      = {r \<in> set (sd_rows db). uc_user r = user \<and> row_key r \<notin> param_key ` set (written sc user t ps)}"
proof -
  let ?ks = "param_key ` set (written sc user t ps)"
  have rows1: "rows_ok (sd_next db1) (sd_rows db1)" using ok1 by (simp add: sync_ok_def)
  note fin = finish_rows [OF f]
  have rows: "sd_rows db' = sd_rows (delete_stale_collection user t db1)" using fin by blast
  have unlisted: "row_of user (sd_rows db1) k = row_of user (sd_rows db) k" if "k \<notin> ?ks" for k
    using w [unfolded holds_written_def, rule_format, of k] that last_write_None [of k "written sc user t ps"] by simp
  have listed: "\<exists>r. row_of user (sd_rows db1) k = Some r \<and> \<not> stale_row user t r" if k: "k \<in> ?ks" for k
  proof -
    have "last_write k (written sc user t ps) \<noteq> None" using k unfolding last_write_None by simp
    then obtain p where p: "last_write k (written sc user t ps) = Some p" by blast
    then obtain r j where "row_of user (sd_rows db1) k = Some r" "mirrors (se_native env j) p r"
      using w [unfolded holds_written_def, rule_format, of k] by auto
    moreover have "cp_stamp p = t" using written_stamp last_write_Some [OF p] by blast
    ultimately show ?thesis by (auto simp: stale_row_def mirrors_def)
  qed
  have stale: "stale_row user t r" if "row_of user (sd_rows db) k = Some r" for k r
    using row_ofD [OF that] old by (simp add: stale_row_def)
  show "row_of user (sd_rows db') key = (if key \<in> ?ks then row_of user (sd_rows db1) key else None)"
  proof (cases "key \<in> ?ks")
    case True
    then obtain r where "row_of user (sd_rows db1) key = Some r" "\<not> stale_row user t r" using listed by blast
    then show ?thesis unfolding rows sweep_row_of [OF ok1] using True by simp
  next
    case False
    then show ?thesis unfolding rows sweep_row_of [OF ok1] unlisted [OF False] using stale [of key]
      by (cases "row_of user (sd_rows db) key") simp_all
  qed
  show "set (filter (stale_row user t) (sd_rows db1)) = {r \<in> set (sd_rows db). uc_user r = user \<and> row_key r \<notin> ?ks}"
  proof (intro set_eqI iffI)
    fix r
    assume "r \<in> set (filter (stale_row user t) (sd_rows db1))"
    then have r: "r \<in> set (sd_rows db1)" "stale_row user t r" by auto
    then have "row_of user (sd_rows db1) (row_key r) = Some r" using row_of_iff [OF rows1] by (auto simp: stale_row_def)
    moreover from this have "row_key r \<notin> ?ks" using listed [of "row_key r"] r(2) by auto
    ultimately show "r \<in> {r \<in> set (sd_rows db). uc_user r = user \<and> row_key r \<notin> ?ks}"
      using unlisted row_ofD by (metis (mono_tags, lifting) mem_Collect_eq)
  next
    fix r
    assume r: "r \<in> {r \<in> set (sd_rows db). uc_user r = user \<and> row_key r \<notin> ?ks}"
    then have r0: "row_of user (sd_rows db) (row_key r) = Some r"
      using row_of_iff [of "sd_next db" "sd_rows db" user "row_key r" r] ok0 by (simp add: sync_ok_def)
    then have "row_of user (sd_rows db1) (row_key r) = Some r" using unlisted [of "row_key r"] r by simp
    then have "r \<in> set (sd_rows db1)" using row_ofD by blast
    then show "r \<in> set (filter (stale_row user t) (sd_rows db1))" using stale [OF r0] by simp
  qed
qed


lemma distinct_singleton: "distinct xs \<Longrightarrow> set xs = {x} \<Longrightarrow> xs = [x]"
proof -
  assume xs: "distinct xs" "set xs = {x}"
  then have "length xs = 1" using distinct_card [OF xs(1)] by simp
  then obtain y where "xs = [y]" by (auto simp: length_Suc_conv)
  then show ?thesis using xs(2) by simp
qed


section \<open>Running again\<close>

text \<open>A row already says what an entry says, but for the time it was written.\<close>

definition says :: "(int \<Rightarrow> nat option) \<Rightarrow> coll_param \<Rightarrow> coll_row \<Rightarrow> bool" where
  "says native p r \<longleftrightarrow> mirrors native (p\<lparr>cp_stamp := uc_updated r\<rparr>) r"

definition restamp :: "string \<Rightarrow> int \<Rightarrow> coll_key list \<Rightarrow> coll_row \<Rightarrow> coll_row" where
  "restamp user t keys r = (if uc_user r = user \<and> row_key r \<in> set keys then r\<lparr>uc_updated := t\<rparr> else r)"

lemma says_update: "says native p r \<Longrightarrow> update_coll_row p (native (cp_release p)) r = r\<lparr>uc_updated := cp_stamp p\<rparr>"
  by (auto simp: says_def mirrors_def update_coll_row_def keep_stored_def split: option.splits intro!: coll_row.equality)

lemma restamp_fields [simp]:
  "uc_id (restamp user t keys r) = uc_id r" "uc_user (restamp user t keys r) = uc_user r" "row_key (restamp user t keys r) = row_key r"
  "uc_item (restamp user t keys r) = uc_item r" "uc_copy (restamp user t keys r) = uc_copy r" "uc_date (restamp user t keys r) = uc_date r"
  "uc_instance (restamp user t keys r) = uc_instance r" "says native p (restamp user t keys r) = says native p r"
  by (simp_all add: restamp_def row_key_def says_def mirrors_def)

lemma row_of_restamp: "row_of user' (map (restamp user t keys) rows) key = map_option (restamp user t keys) (row_of user' rows key)"
  unfolding row_of_def by (rule find_map_same) simp

lemma changed_restamp: "changed_fields r (restamp user t keys r) = []"
  by (simp add: changed_fields_def tracked_field_def restamp_def filter_empty_conv)

lemma upserts_again:
  assumes "\<forall>p \<in> set ps. param_ok user p \<and> cp_stamp p = t" and rows: "rows_ok n (sd_rows db)"
    and "\<forall>p \<in> set ps. \<exists>r. row_of user (sd_rows db) (param_key p) = Some r \<and> says native p r"
  shows "foldl (upsert_coll native) db ps = db\<lparr>sd_rows := map (restamp user t (map param_key ps)) (sd_rows db)\<rparr>"
  using assms(1,3)
proof (induction ps rule: rev_induct)
  case Nil
  have "map (restamp user t []) (sd_rows db) = sd_rows db" by (rule map_idI) (simp add: restamp_def)
  then show ?case by simp
next
  case (snoc q ps)
  let ?R = "map (restamp user t (map param_key ps)) (sd_rows db)"
  have ih: "foldl (upsert_coll native) db ps = db\<lparr>sd_rows := ?R\<rparr>" using snoc by simp
  have q: "cp_user q = user" "cp_instance q \<noteq> None" "cp_stamp q = t" using snoc.prems(1) by (simp_all add: param_ok_def)
  obtain r where r: "row_of user (sd_rows db) (param_key q) = Some r" "says native q r" using snoc.prems(2) by auto
  have only: "r' = r" if "r' \<in> set (sd_rows db)" "uc_user r' = user" "row_key r' = param_key q" for r'
    using row_of_iff [OF rows, of user "param_key q" r'] that r(1) by simp
  have ex: "\<exists>r \<in> set ?R. coll_conflict q r"
    using row_ofD [OF r(1)] conflict_key [OF q(2)] q(1) by auto
  have step: "upserted native q (restamp user t (map param_key ps) r') = restamp user t (map param_key (ps @ [q])) r'"
    if "r' \<in> set (sd_rows db)" for r'
  proof (cases "uc_user r' = user \<and> row_key r' = param_key q")
    case True
    then have "r' = r" using only that by blast
    then have "says native q (restamp user t (map param_key ps) r')" using r(2) by simp
    from says_update [OF this] show ?thesis
      using True q conflict_key [OF q(2)] by (simp add: upserted_def) (simp add: restamp_def)
  next
    case False
    then show ?thesis using q(1) conflict_key [OF q(2)] by (simp add: upserted_def) (auto simp: restamp_def)
  qed
  have "foldl (upsert_coll native) db (ps @ [q]) = upsert_coll native (db\<lparr>sd_rows := ?R\<rparr>) q" using ih by simp
  also have "\<dots> = db\<lparr>sd_rows := map (upserted native q) ?R\<rparr>"
    using ex by (cases rule: upsert_cases [of "db\<lparr>sd_rows := ?R\<rparr>" q native]) simp_all
  also have "map (upserted native q) ?R = map (restamp user t (map param_key (ps @ [q]))) (sd_rows db)"
    using step by (simp del: map_append)
  finally show ?case .
qed

lemma restamp_tables_ok:
  assumes "sync_ok db"
  shows "sync_ok (db\<lparr>sd_rows := map (restamp user t keys) (sd_rows db)\<rparr>)"
proof -
  have "rows_ok (sd_next db) (map (restamp user t keys) (sd_rows db))"
    using assms by (simp add: sync_ok_def rows_ok_def o_def)
  moreover have "copies_ok (sd_next db) (map (restamp user t keys) (sd_rows db)) (sd_copies db)"
    using assms by (intro copies_ok_map) (simp_all add: sync_ok_def)
  moreover have "linked_row (sd_copies db) (restamp user t keys r)" if "linked_row (sd_copies db) r" for r
    using that unfolding linked_row_def by simp
  ultimately show ?thesis using assms by (simp add: sync_ok_def linked_ok_def')
qed

lemma ensure_nothing:
  assumes ok: "sync_ok db" and sub: "set page_rows \<subseteq> set (sd_rows db)"
  shows "\<exists>ids_of. ensure_owned_copies user now page_rows db = Inr (ids_of, db)"
proof -
  let ?identified = "filter (\<lambda>r. uc_item r \<noteq> None) page_rows"
  let ?ids = "map uc_id ?identified"
  have copies: "copies_ok (sd_next db) (sd_rows db) (sd_copies db)" and linked: "linked_ok (sd_rows db) (sd_copies db)"
    and rows: "rows_ok (sd_next db) (sd_rows db)" using ok by (simp_all add: sync_ok_def)
  have mint: "mint_copies user now (map (\<lambda>r. (uc_id r, the (uc_item r), uc_date r)) ?identified) [] (sd_next db) (sd_copies db)
      = Inr (sd_next db, sd_copies db)"
  proof (rule mint_nothing)
    show "\<forall>(row, item, acquired) \<in> set (map (\<lambda>r. (uc_id r, the (uc_item r), uc_date r)) ?identified). row \<notin> set [] \<and>
        (\<exists>c. find (\<lambda>c. oc_row c = Some row) (sd_copies db) = Some c \<and> \<not> copy_differs item acquired c)"
    proof (intro ballI)
      fix x
      assume "x \<in> set (map (\<lambda>r. (uc_id r, the (uc_item r), uc_date r)) ?identified)"
      then obtain r item where r: "r \<in> set page_rows" "uc_item r = Some item" "x = (uc_id r, item, uc_date r)" by auto
      then obtain c where c: "c \<in> set (sd_copies db)" "oc_row c = Some (uc_id r)" "oc_item c = item" "uc_date r \<noteq> None \<longrightarrow> oc_acquired c = uc_date r"
        using linked sub unfolding linked_ok_def by blast
      then have "find (\<lambda>c. oc_row c = Some (uc_id r)) (sd_copies db) = Some c" using find_copy [OF copies] by blast
      moreover have "\<not> copy_differs item (uc_date r) c" using c(3,4) by (auto simp: copy_differs_def)
      ultimately show "case x of (row, item, acquired) \<Rightarrow> row \<notin> set [] \<and>
        (\<exists>c. find (\<lambda>c. oc_row c = Some row) (sd_copies db) = Some c \<and> \<not> copy_differs item acquired c)" using r(3) by simp
    qed
  qed
  have "\<not> needs_link (sd_copies db) ?ids r" if r: "r \<in> set (sd_rows db)" for r
  proof
    assume n: "needs_link (sd_copies db) ?ids r"
    then obtain r' where r': "r' \<in> set ?identified" "uc_id r = uc_id r'" by (auto simp: needs_link_def)
    then have "r = r'" using r sub rows by (auto simp: rows_ok_def distinct_map inj_on_def)
    then have "copy_of_row (sd_copies db) (uc_id r) = uc_copy r" using linked_copy_of [OF linked copies r] r'(1) by auto
    then show False using n by (simp add: needs_link_def)
  qed
  then have links: "link_copies (sd_copies db) ?ids (sd_rows db) = sd_rows db" "links_made (sd_copies db) ?ids (sd_rows db) = []"
    by (auto simp: link_copies_def links_made_def filter_empty_conv intro: map_idI)
  show ?thesis unfolding ensure_owned_copies_def Let_def mint sum.case prod.case links by simp
qed

lemma persist_again:
  assumes ok: "sync_ok db" and params: "\<forall>p \<in> set params. param_ok user p \<and> cp_stamp p = t"
    and says: "\<forall>p \<in> set params. \<exists>r. row_of user (sd_rows db) (param_key p) = Some r \<and> says native p r"
  shows "persist_collection_page user native now params db
    = Inr ([], db\<lparr>sd_rows := map (restamp user t (map param_key params)) (sd_rows db)\<rparr>)"
proof -
  let ?keys = "map param_key params" and ?ids = "map cp_release params"
  let ?db1 = "db\<lparr>sd_rows := map (restamp user t ?keys) (sd_rows db)\<rparr>"
  let ?before = "page_index (select_page user ?ids (sd_rows db))" and ?after = "page_index (select_page user ?ids (sd_rows ?db1))"
  let ?page = "List.map_filter (map_of ?after) ?keys"
  have rows: "rows_ok (sd_next db) (sd_rows db)" using ok by (simp add: sync_ok_def)
  have ups: "foldl (upsert_coll native) db params = ?db1" by (rule upserts_again [OF params rows says])
  have ok1: "sync_ok ?db1" by (rule restamp_tables_ok [OF ok])
  then have rows1: "rows_ok (sd_next ?db1) (sd_rows ?db1)" by (simp only: sync_ok_def)
  have sub: "set ?page \<subseteq> set (sd_rows ?db1)"
    unfolding set_map_filter page_lookup [OF rows1] by (auto dest: row_ofD split: if_splits)
  obtain ids_of where e: "ensure_owned_copies user now ?page ?db1 = Inr (ids_of, ?db1)"
    using ensure_nothing [OF ok1 sub] by blast
  have "key_events ?before ?after ids_of key = []" for key
  proof -
    have "map_of ?after key = (if fst key \<in> set ?ids then map_option (restamp user t ?keys) (row_of user (sd_rows db) key) else None)"
      "map_of ?before key = (if fst key \<in> set ?ids then row_of user (sd_rows db) key else None)"
      unfolding page_lookup [OF rows1] page_lookup [OF rows] by (simp_all add: row_of_restamp)
    then show ?thesis by (simp add: key_events_def changed_restamp split: option.split)
  qed
  then have "collection_page_events ?keys ?before ?after ids_of = []"
    by (simp add: collection_page_events_def)
  then show ?thesis unfolding persist_collection_page_def Let_def ups e by simp
qed

text \<open>A listing read again: pages whose entries the tables already hold.\<close>

lemma handle_again:
  assumes "handle_pages (collection_page sc env user username t) ps got db = (db', Inr n)"
    and "\<forall>(k, items) \<in> set ps. items_ok items" "sync_ok db"
    and says: "\<forall>p \<in> set (written sc user t ps). \<exists>r. row_of user (sd_rows db) (param_key p) = Some r \<and> (\<forall>k. says (se_native env k) p r)"
  shows "sd_rows db' = map (restamp user t (map param_key (written sc user t ps))) (sd_rows db)
    \<and> sd_next db' = sd_next db \<and> sd_copies db' = sd_copies db \<and> sd_events db' = sd_events db \<and> sd_snapshots db' = sd_snapshots db"
  using assms
proof (induction ps arbitrary: got db)
  case Nil
  have "map (restamp user t []) (sd_rows db) = sd_rows db" by (rule map_idI) (simp add: restamp_def)
  then show ?case using Nil by (simp add: written_def)
next
  case (Cons p ps)
  obtain k items where p: "p = (k, items)" by fastforce
  let ?b = "coll_batch sc user t items" and ?w = "written sc user t ps"
  have w: "written sc user t (p # ps) = ?b @ ?w" by (simp add: p written_def)
  have items: "items_ok items" "\<forall>(k, items) \<in> set ps. items_ok items" using Cons.prems(2) p by auto
  obtain db1 db2 where store: "store_collection_page sc env user t k items db = (db1, Inr (length ?b))" and g: "graph_only db1 db2"
    and ok2: "sync_ok db2" and go: "handle_pages (collection_page sc env user username t) ps (got + length ?b) db2 = (db', Inr n)"
    by (rule stored_page_steps [OF Cons.prems(1) [unfolded p] Cons.prems(3) items(1)])
  have params: "\<forall>q \<in> set ?b. param_ok user q \<and> cp_stamp q = t"
    using batch_ok [OF items(1), of sc user t] written_stamp [of _ sc user t "p # ps"] unfolding w by auto
  have saysb: "\<forall>q \<in> set ?b. \<exists>r. row_of user (sd_rows db) (param_key q) = Some r \<and> says (se_native env k) q r"
    using Cons.prems(4) unfolding w by fastforce
  have db1: "db1 = db\<lparr>sd_rows := map (restamp user t (map param_key ?b)) (sd_rows db)\<rparr>"
  proof (cases "?b = []")
    case True
    have "map (restamp user t []) (sd_rows db) = sd_rows db" by (rule map_idI) (simp add: restamp_def)
    then show ?thesis using store True by (simp add: store_collection_page_def)
  next
    case False
    then have "se_page env k = None" using store by (cases "se_page env k") (auto simp: store_collection_page_def unless_failing_def)
    then show ?thesis using store False persist_again [OF Cons.prems(3) params saysb]
      by (simp add: store_collection_page_def unless_failing_def emit_events_def Let_def)
  qed
  have rows2: "sd_rows db2 = map (restamp user t (map param_key ?b)) (sd_rows db)" using g db1 by (simp add: graph_only_def)
  have "\<forall>q \<in> set ?w. \<exists>r. row_of user (sd_rows db2) (param_key q) = Some r \<and> (\<forall>k. says (se_native env k) q r)"
  proof
    fix q
    assume "q \<in> set ?w"
    then obtain r where "row_of user (sd_rows db) (param_key q) = Some r" "\<forall>k. says (se_native env k) q r"
      using Cons.prems(4) unfolding w by auto
    then show "\<exists>r. row_of user (sd_rows db2) (param_key q) = Some r \<and> (\<forall>k. says (se_native env k) q r)"
      unfolding rows2 row_of_restamp by simp
  qed
  note ih = Cons.IH [OF go items(2) ok2 this]
  have "map (restamp user t (map param_key ?w)) (map (restamp user t (map param_key ?b)) (sd_rows db))
      = map (restamp user t (map param_key (?b @ ?w))) (sd_rows db)"
    by (auto simp: restamp_def row_key_def)
  then show ?case unfolding w using ih rows2 g db1 by (simp add: graph_only_def)
qed

text \<open>The batches of two readings of the same items, at different times.\<close>

lemma coll_batch_time: "coll_batch sc user t' items = map (\<lambda>p. p\<lparr>cp_stamp := t'\<rparr>) (coll_batch sc user t items)"
proof (induction items)
  case (Cons i items)
  have "coll_param sc user t' i = map_option (\<lambda>p. p\<lparr>cp_stamp := t'\<rparr>) (coll_param sc user t i)" by (simp add: coll_param_def)
  then show ?case using Cons by (cases "coll_param sc user t i") (simp_all add: coll_batch_def List.map_filter_def)
qed (simp add: coll_batch_def List.map_filter_def)

lemma coll_batch_append: "coll_batch sc user t (xs @ ys) = coll_batch sc user t xs @ coll_batch sc user t ys"
  by (simp add: coll_batch_def List.map_filter_def)

lemma written_concat: "written sc user t ps = coll_batch sc user t (concat (map snd ps))"
  by (induction ps) (auto simp: written_def coll_batch_append coll_batch_def List.map_filter_def)

lemma restamp_key [simp]: "param_key (p\<lparr>cp_stamp := t\<rparr>) = param_key p"
  by (simp add: param_key_def)

text \<open>Rows that hold what was written say the same when the listing is read again later.\<close>

lemma rows_say_again:
  assumes "holds_written env1 user db ws dba" "distinct (map param_key ws)"
    and "\<forall>k. se_native env1 k = native \<and> se_native env2 k = native"
    and "\<And>p. p \<in> set ws \<Longrightarrow> row_of user rows (param_key p) = row_of user (sd_rows dba) (param_key p)"
  shows "\<forall>q \<in> set (map (\<lambda>p. p\<lparr>cp_stamp := t\<rparr>) ws).
    \<exists>r. row_of user rows (param_key q) = Some r \<and> (\<forall>k. says (se_native env2 k) q r)"
proof
  fix q
  assume "q \<in> set (map (\<lambda>p. p\<lparr>cp_stamp := t\<rparr>) ws)"
  then obtain p where p: "p \<in> set ws" "q = p\<lparr>cp_stamp := t\<rparr>" by auto
  have lw: "last_write (param_key p) ws = Some p"
    unfolding last_write_def using p(1) assms(2) by (subst find_iff) (auto simp: distinct_map inj_on_def)
  obtain r k where r: "row_of user (sd_rows dba) (param_key p) = Some r" "mirrors (se_native env1 k) p r"
    using assms(1) [unfolded holds_written_def, rule_format, of "param_key p"] lw by auto
  have "row_of user rows (param_key p) = Some r" using assms(4) [OF p(1)] r(1) by simp
  moreover have "says native q r" using r(2) assms(3) by (simp add: says_def mirrors_def p(2))
  ultimately show "\<exists>r. row_of user rows (param_key q) = Some r \<and> (\<forall>k. says (se_native env2 k) q r)"
    using assms(3) p(2) by simp
qed

lemma restamp_all:
  assumes "\<And>r. r \<in> set rows \<Longrightarrow> uc_user r = user \<Longrightarrow> row_key r \<in> set ks"
  shows "map (restamp user t ks) rows = map (\<lambda>r. if uc_user r = user then r\<lparr>uc_updated := t\<rparr> else r) rows"
proof (rule map_cong [OF refl])
  fix r assume "r \<in> set rows"
  with assms show "restamp user t ks r = (if uc_user r = user then r\<lparr>uc_updated := t\<rparr> else r)"
    by (cases "uc_user r = user") (simp_all add: restamp_def)
qed

text \<open>A sweep after every row of the user was stamped finds nothing stale.\<close>

lemma sweep_restamped:
  assumes "sd_rows db = map (\<lambda>r. if uc_user r = user then r\<lparr>uc_updated := t\<rparr> else r) rows"
  shows "filter (stale_row user t) (sd_rows db) = []" "delete_stale_collection user t db = db"
proof -
  have "\<not> stale_row user t (if uc_user r = user then r\<lparr>uc_updated := t\<rparr> else r)" for r
    by (cases "uc_user r = user") (simp_all add: stale_row_def)
  then show fresh: "filter (stale_row user t) (sd_rows db) = []" unfolding assms filter_empty_conv set_map by blast
  have unl: "map (unlinked []) cs = cs" for cs by (rule map_idI) (simp add: unlinked_def split: option.split)
  have "filter (\<lambda>r. \<not> stale_row user t r) (sd_rows db) = sd_rows db"
    using fresh unfolding filter_empty_conv by (intro filter_True) blast
  then show "delete_stale_collection user t db = db" unfolding delete_stale_unfold fresh by (simp add: unl)
qed



end
