(* ===== verification/Sync_Mirror.thy ===== *)
theory Sync_Mirror
  imports Sync_Properties
begin

text \<open>
  The other tables a sync keeps: the edges of the graph and the wantlist.  Each is a table whose
  rows carry a key and the time of the run that last wrote them; a run puts every listed item and
  sweeps what is older.  That such a table ends up holding the listing is proved once.
\<close>

section \<open>Stamped tables\<close>

locale stamped_table =
  fixes key :: "'r \<Rightarrow> 'k" and stamp :: "'r \<Rightarrow> int" and mine :: "'r \<Rightarrow> bool"
    and put :: "'i \<Rightarrow> 'r list \<Rightarrow> 'r list" and ikey :: "'i \<Rightarrow> 'k" and t :: int and ok :: "'i \<Rightarrow> bool"
  assumes put_key: "ok i \<Longrightarrow> \<exists>r \<in> set (put i rs). mine r \<and> key r = ikey i"
    and put_stamp: "ok i \<Longrightarrow> r \<in> set (put i rs) \<Longrightarrow> mine r \<Longrightarrow> key r = ikey i \<Longrightarrow> stamp r = t"
    and put_other: "ok i \<Longrightarrow> \<not> (mine r \<and> key r = ikey i) \<Longrightarrow> r \<in> set (put i rs) \<longleftrightarrow> r \<in> set rs"
begin

text \<open>The table after the items with keys \<open>D\<close> were put into what was \<open>rs0\<close>.\<close>

definition holds :: "'r list \<Rightarrow> 'k set \<Rightarrow> 'r list \<Rightarrow> bool" where
  "holds rs0 D rs \<longleftrightarrow> (\<forall>k \<in> D. \<exists>r \<in> set rs. mine r \<and> key r = k)
     \<and> (\<forall>r \<in> set rs. mine r \<and> key r \<in> D \<longrightarrow> stamp r = t)
     \<and> (\<forall>r. \<not> (mine r \<and> key r \<in> D) \<longrightarrow> (r \<in> set rs \<longleftrightarrow> r \<in> set rs0))"

lemma holds_start: "holds rs {} rs"
  by (simp add: holds_def)

lemma holds_put:
  assumes "holds rs0 D rs" and i: "ok i"
  shows "holds rs0 (insert (ikey i) D) (put i rs)"
  unfolding holds_def
proof (intro conjI ballI allI impI)
  fix k
  assume "k \<in> insert (ikey i) D"
  show "\<exists>r \<in> set (put i rs). mine r \<and> key r = k"
  proof (cases "k = ikey i")
    case True
    then show ?thesis using put_key [OF i] by simp
  next
    case False
    then obtain r where "r \<in> set rs" "mine r" "key r = k" using assms \<open>k \<in> insert (ikey i) D\<close> by (auto simp: holds_def)
    then show ?thesis using put_other [OF i, of r rs] False by auto
  qed
next
  fix r
  assume r: "r \<in> set (put i rs)" "mine r \<and> key r \<in> insert (ikey i) D"
  show "stamp r = t"
  proof (cases "key r = ikey i")
    case False
    then have "r \<in> set rs" using put_other [OF i] r by blast
    then show ?thesis using assms r False by (auto simp: holds_def)
  qed (use put_stamp [OF i] r in blast)
next
  fix r
  assume "\<not> (mine r \<and> key r \<in> insert (ikey i) D)"
  then show "r \<in> set (put i rs) \<longleftrightarrow> r \<in> set rs0" using put_other [OF i, of r rs] assms by (auto simp: holds_def)
qed

text \<open>After the sweep the keys are those of the listing, and others' rows are as they were.\<close>

lemma holds_sweep:
  assumes "holds rs0 D rs" and old: "\<forall>r \<in> set rs0. mine r \<longrightarrow> stamp r < t"
  shows "{key r | r. r \<in> set (filter (\<lambda>r. \<not> (mine r \<and> stamp r < t)) rs) \<and> mine r} = D"
    and "\<not> mine r \<Longrightarrow> r \<in> set (filter (\<lambda>r. \<not> (mine r \<and> stamp r < t)) rs) \<longleftrightarrow> r \<in> set rs0"
proof -
  show "{key r | r. r \<in> set (filter (\<lambda>r. \<not> (mine r \<and> stamp r < t)) rs) \<and> mine r} = D" (is "?K = D")
  proof (intro set_eqI iffI)
    fix k
    assume "k \<in> ?K"
    then obtain r where r: "k = key r" "r \<in> set rs" "mine r" "\<not> stamp r < t" by auto
    show "k \<in> D"
    proof (rule ccontr)
      assume "k \<notin> D"
      then have "r \<in> set rs0" using assms(1) r by (auto simp: holds_def)
      then show False using old r by blast
    qed
  next
    fix k
    assume k: "k \<in> D"
    then obtain r where "r \<in> set rs" "mine r" "key r = k" using assms(1) unfolding holds_def by blast
    moreover from this have "stamp r = t" using assms(1) k unfolding holds_def by blast
    ultimately show "k \<in> ?K" by auto
  qed
qed (use assms(1) in \<open>auto simp: holds_def\<close>)

end

section \<open>The three tables\<close>

text \<open>An upsert: correct the rows that match, or add one.\<close>

definition upserting :: "('r \<Rightarrow> bool) \<Rightarrow> ('r \<Rightarrow> 'r) \<Rightarrow> 'r \<Rightarrow> 'r list \<Rightarrow> 'r list" where
  "upserting match upd new rs = (if \<exists>r \<in> set rs. match r then map (\<lambda>r. if match r then upd r else r) rs else rs @ [new])"

definition keyed :: "('r \<Rightarrow> bool) \<Rightarrow> ('r \<Rightarrow> 'r) \<Rightarrow> 'r \<Rightarrow> bool" where
  "keyed match upd new \<longleftrightarrow> match new \<and> (\<forall>r. match r \<longrightarrow> match (upd r))"

lemma upserting_laws:
  assumes keyed: "keyed match upd new"
  shows "\<exists>r \<in> set (upserting match upd new rs). match r"
    and "r \<in> set (upserting match upd new rs) \<Longrightarrow> match r \<Longrightarrow> r = new \<or> (\<exists>r'. match r' \<and> r = upd r')"
    and "\<not> match r \<Longrightarrow> r \<in> set (upserting match upd new rs) \<longleftrightarrow> r \<in> set rs"
proof -
  show "\<exists>r \<in> set (upserting match upd new rs). match r"
    using keyed unfolding keyed_def by (cases "\<exists>r \<in> set rs. match r") (auto simp: upserting_def)
  show "r = new \<or> (\<exists>r'. match r' \<and> r = upd r')" if "r \<in> set (upserting match upd new rs)" "match r"
    using that by (auto simp: upserting_def split: if_splits)
  show "r \<in> set (upserting match upd new rs) \<longleftrightarrow> r \<in> set rs" if "\<not> match r"
  proof
    show "r \<in> set (upserting match upd new rs) \<Longrightarrow> r \<in> set rs"
      using that keyed unfolding keyed_def by (auto simp: upserting_def split: if_splits)
    assume r: "r \<in> set rs"
    then have "r \<in> (\<lambda>r. if match r then upd r else r) ` set rs" using that by (intro image_eqI [of _ _ r]) simp_all
    then show "r \<in> set (upserting match upd new rs)" using r by (simp add: upserting_def)
  qed
qed

text \<open>\<open>COLLECTED\<close> edges, put by an entry with an instance id.\<close>

lemma merge_coll_edge_upserts:
  "merge_coll_edge user t e inst = upserting (coll_edge_match user (re_release e) inst)
     (\<lambda>c. c\<lparr>ce_rating := re_rating e, ce_folder := re_folder e, ce_date := keep_stored (re_date e) (ce_date c), ce_synced := t\<rparr>)
     \<lparr>ce_user = user, ce_release = re_release e, ce_instance = inst, ce_rating = re_rating e,
      ce_folder = re_folder e, ce_date = re_date e, ce_synced = t\<rparr>"
  by (rule ext) (simp add: merge_coll_edge_def upserting_def)

interpretation coll_edges: stamped_table "\<lambda>c. (ce_release c, ce_instance c)" ce_synced "\<lambda>c. ce_user c = user"
    "\<lambda>i. merge_coll_edge user t (fst i) (snd i)" "\<lambda>i. (re_release (fst i), snd i)" t "\<lambda>i. True"
  for user :: string and t :: int
proof unfold_locales
  fix i :: "rel_entry \<times> int" and rs :: "coll_edge list" and r :: coll_edge
  obtain e inst where i: "i = (e, inst)" by (cases i)
  have match: "(ce_user c = user \<and> (ce_release c, ce_instance c) = (re_release (fst i), snd i)) = coll_edge_match user (re_release e) inst c" for c
    by (auto simp: coll_edge_match_def i)
  have laws: "keyed (coll_edge_match user (re_release e) inst)
     (\<lambda>c. c\<lparr>ce_rating := re_rating e, ce_folder := re_folder e, ce_date := keep_stored (re_date e) (ce_date c), ce_synced := t\<rparr>)
     \<lparr>ce_user = user, ce_release = re_release e, ce_instance = inst, ce_rating = re_rating e,
      ce_folder = re_folder e, ce_date = re_date e, ce_synced = t\<rparr>"
    by (simp add: keyed_def coll_edge_match_def)
  note put = merge_coll_edge_upserts [of user t e inst]
  show "\<exists>r \<in> set (merge_coll_edge user t (fst i) (snd i) rs). ce_user r = user \<and> (ce_release r, ce_instance r) = (re_release (fst i), snd i)"
    unfolding match unfolding i fst_conv snd_conv put by (rule upserting_laws(1) [OF laws])
  show "ce_synced r = t" if "r \<in> set (merge_coll_edge user t (fst i) (snd i) rs)" "ce_user r = user"
      "(ce_release r, ce_instance r) = (re_release (fst i), snd i)"
    using upserting_laws(2) [OF laws that(1) [unfolded i fst_conv snd_conv put]] match [of r] that(2,3)
    by (elim meta_impE disjE exE conjE) (simp_all add: i)
  show "r \<in> set (merge_coll_edge user t (fst i) (snd i) rs) \<longleftrightarrow> r \<in> set rs"
    if "\<not> (ce_user r = user \<and> (ce_release r, ce_instance r) = (re_release (fst i), snd i))"
    using that unfolding match unfolding i fst_conv snd_conv put by (rule upserting_laws(3) [OF laws])
qed

text \<open>\<open>WANTS\<close> edges.\<close>

lemma merge_want_edge_upserts:
  "merge_want_edge user t e = upserting (want_edge_match user (re_release e))
     (\<lambda>w. w\<lparr>we_rating := re_rating e, we_date := keep_stored (re_date e) (we_date w), we_synced := t\<rparr>)
     \<lparr>we_user = user, we_release = re_release e, we_rating = re_rating e, we_date = re_date e, we_synced = t\<rparr>"
  by (rule ext) (simp add: merge_want_edge_def upserting_def)

interpretation want_edges: stamped_table we_release we_synced "\<lambda>w. we_user w = user" "merge_want_edge user t" re_release t "\<lambda>i. True"
  for user :: string and t :: int
proof unfold_locales
  fix i :: rel_entry and rs :: "want_edge list" and r :: want_edge
  have match: "(we_user w = user \<and> we_release w = re_release i) = want_edge_match user (re_release i) w" for w
    by (simp add: want_edge_match_def)
  have laws: "keyed (want_edge_match user (re_release i))
     (\<lambda>w. w\<lparr>we_rating := re_rating i, we_date := keep_stored (re_date i) (we_date w), we_synced := t\<rparr>)
     \<lparr>we_user = user, we_release = re_release i, we_rating = re_rating i, we_date = re_date i, we_synced = t\<rparr>"
    by (simp add: keyed_def want_edge_match_def)
  note put = merge_want_edge_upserts [of user t i]
  show "\<exists>r \<in> set (merge_want_edge user t i rs). we_user r = user \<and> we_release r = re_release i"
    unfolding match put by (rule upserting_laws(1) [OF laws])
  show "we_synced r = t" if "r \<in> set (merge_want_edge user t i rs)" "we_user r = user" "we_release r = re_release i"
    using upserting_laws(2) [OF laws that(1) [unfolded put]] match [of r] that(2,3)
    by (elim meta_impE disjE exE conjE) simp_all
  show "r \<in> set (merge_want_edge user t i rs) \<longleftrightarrow> r \<in> set rs" if "\<not> (we_user r = user \<and> we_release r = re_release i)"
    using that unfolding match put by (rule upserting_laws(3) [OF laws])
qed

text \<open>Wantlist rows, put by an entry with the native id of its release and the next row id.\<close>

definition put_want :: "(nat \<times> nat option \<times> want_param) \<Rightarrow> want_row list \<Rightarrow> want_row list" where
  "put_want i = (case i of (n, native, p) \<Rightarrow> upserting (want_conflict p) (update_want_row p native) (new_want_row n p native))"

lemma upsert_want_puts: "sd_wants (upsert_want native db p) = put_want (sd_next db, native (wp_release p), p) (sd_wants db)"
  by (simp add: upsert_want_def put_want_def upserting_def)

definition want_of_run :: "string \<Rightarrow> int \<Rightarrow> want_param \<Rightarrow> bool" where
  "want_of_run user t p \<longleftrightarrow> wp_user p = user \<and> wp_stamp p = t"

interpretation want_rows: stamped_table uw_release uw_updated "\<lambda>r. uw_user r = user"
    put_want "\<lambda>i. wp_release (snd (snd i))" t "\<lambda>i. want_of_run user t (snd (snd i))"
  for user :: string and t :: int
proof unfold_locales
  fix i :: "nat \<times> nat option \<times> want_param" and rs :: "want_row list" and r :: want_row
  assume ok: "want_of_run user t (snd (snd i))"
  obtain n native p where i: "i = (n, native, p)" by (cases i)
  have p: "wp_user p = user" "wp_stamp p = t" using ok by (simp_all add: i want_of_run_def)
  have match: "want_conflict p r \<longleftrightarrow> uw_user r = user \<and> uw_release r = wp_release (snd (snd i))" for r
    by (simp add: want_conflict_def p i)
  have laws: "keyed (want_conflict p) (update_want_row p native) (new_want_row n p native)"
    by (simp add: keyed_def want_conflict_def new_want_row_def update_want_row_def)
  show "\<exists>r \<in> set (put_want i rs). uw_user r = user \<and> uw_release r = wp_release (snd (snd i))"
    unfolding match [symmetric] unfolding put_want_def i prod.case by (rule upserting_laws(1) [OF laws])
  show "uw_updated r = t" if "r \<in> set (put_want i rs)" "uw_user r = user" "uw_release r = wp_release (snd (snd i))"
  proof -
    have "r = new_want_row n p native \<or> (\<exists>r'. want_conflict p r' \<and> r = update_want_row p native r')"
      by (rule upserting_laws(2) [OF laws that(1) [unfolded put_want_def i prod.case]]) (use that(2,3) match in blast)+
    then show ?thesis by (auto simp: new_want_row_def update_want_row_def p)
  qed
  show "r \<in> set (put_want i rs) \<longleftrightarrow> r \<in> set rs" if "\<not> (uw_user r = user \<and> uw_release r = wp_release (snd (snd i)))"
    using that unfolding match [symmetric] unfolding put_want_def i prod.case by (rule upserting_laws(3) [OF laws])
qed

section \<open>The edges of a run\<close>

text \<open>The keys of the edges entries make, where \<open>K\<close> are the releases that are nodes of the graph.\<close>

definition edge_keys :: "int set \<Rightarrow> rel_entry list \<Rightarrow> (int \<times> int) set" where
  "edge_keys K es = {(re_release e, inst) | e inst. e \<in> set es \<and> re_instance e = Some inst \<and> re_release e \<in> K}"

definition nodes :: "sync_db \<Rightarrow> int set" where
  "nodes db = set (dict_keys (sd_releases db))"

lemma no_node: "map_of (sd_releases db) r = None \<longleftrightarrow> r \<notin> nodes db"
  by (simp add: nodes_def map_of_eq_None_iff)

lemma graph_only_nodes: "graph_only db db' \<Longrightarrow> nodes db' = nodes db"
  by (simp add: graph_only_def nodes_def)

lemma merge_collected_holds:
  "merge_collected user t es db = Inr db' \<Longrightarrow> coll_edges.holds user t rs0 D (sd_edges db) \<Longrightarrow>
   coll_edges.holds user t rs0 (D \<union> edge_keys (nodes db) es) (sd_edges db')"
proof (induction es arbitrary: db D)
  case (Cons e es)
  show ?case
  proof (cases "map_of (sd_releases db) (re_release e)")
    case None
    then have "edge_keys (nodes db) (e # es) = edge_keys (nodes db) es" using no_node by (auto simp: edge_keys_def)
    then show ?thesis using Cons None by simp
  next
    case (Some c)
    then obtain inst where i: "re_instance e = Some inst" using Cons.prems by (auto split: option.splits)
    let ?db = "db\<lparr>sd_edges := merge_coll_edge user t e inst (sd_edges db), sd_releases := set_catno e (sd_releases db)\<rparr>"
    have go: "merge_collected user t es ?db = Inr db'" using Cons.prems Some i by simp
    have n: "nodes ?db = nodes db" by (simp add: nodes_def)
    have "re_release e \<in> nodes db" using Some no_node [of db "re_release e"] by simp
    then have k: "edge_keys (nodes db) (e # es) = insert (re_release e, inst) (edge_keys (nodes db) es)"
      using i by (auto simp: edge_keys_def)
    have "coll_edges.holds user t rs0 (insert (re_release e, inst) D) (sd_edges ?db)"
      using coll_edges.holds_put [OF Cons.prems(2), of "(e, inst)"] by simp
    from Cons.IH [OF go this] show ?thesis unfolding k n by simp
  qed
qed (simp add: edge_keys_def)

lemma store_page_edges:
  assumes "sync_ok db" "items_ok items" "store_collection_page sc env user t k items db = (db', r)"
  shows "sd_edges db' = sd_edges db \<and> sd_releases db' = sd_releases db"
proof (cases "coll_batch sc user t items = [] \<or> se_page env k \<noteq> None")
  case True
  then show ?thesis using assms(3) by (auto simp: store_collection_page_def unless_failing_def Let_def split: if_splits)
next
  case False
  show ?thesis
  proof (cases "persist_collection_page user (se_native env k) (se_now env k) (coll_batch sc user t items) db")
    case (Inl e)
    then show ?thesis using assms(3) False by (auto simp: store_collection_page_def unless_failing_def)
  next
    case (Inr x)
    obtain evs db1 where x: "x = (evs, db1)" by fastforce
    have "same_but_copies db db1" using persist_ok [OF Inr [unfolded x] assms(1) batch_ok [OF assms(2)]] by blast
    then show ?thesis using assms(3) False Inr x
      by (auto simp: store_collection_page_def unless_failing_def same_but_copies_def emit_events_def)
  qed
qed

text \<open>The entries of the pages read.\<close>

definition entries :: "(nat \<times> coll_item list) list \<Rightarrow> rel_entry list" where
  "entries ps = concat (map (\<lambda>(k, items). coll_entries items) ps)"

lemma edge_keys_append: "edge_keys K (es @ fs) = edge_keys K es \<union> edge_keys K fs"
  by (auto simp: edge_keys_def)

lemma listing_edges:
  "handle_pages (collection_page sc env user username t) ps got db = (db', Inr n) \<Longrightarrow> \<forall>(k, items) \<in> set ps. items_ok items \<Longrightarrow>
   sync_ok db \<Longrightarrow> coll_edges.holds user t rs0 D (sd_edges db) \<Longrightarrow>
   coll_edges.holds user t rs0 (D \<union> edge_keys (nodes db) (entries ps)) (sd_edges db') \<and> nodes db' = nodes db"
proof (induction ps arbitrary: got db D)
  case (Cons p ps)
  obtain k items where p: "p = (k, items)" by fastforce
  have items: "items_ok items" "\<forall>(k, items) \<in> set ps. items_ok items" using Cons.prems(2) p by auto
  obtain db2 res where h: "collection_page sc env user username t k items db = (db2, res)" by fastforce
  then obtain c where res: "res = Inr c" using Cons.prems(1) p by (cases res) auto
  have ok2: "sync_ok db2" using collection_page_keeps [OF Cons.prems(3) items(1) h] by blast
  have go: "handle_pages (collection_page sc env user username t) ps (got + c) db2 = (db', Inr n)"
    using Cons.prems(1) p h res by simp
  from h have page: "coll_edges.holds user t rs0 (D \<union> edge_keys (nodes db) (coll_entries items)) (sd_edges db2) \<and> nodes db2 = nodes db"
  proof (cases rule: collection_page_cases)
    case (stored db1 c')
    have e1: "sd_edges db1 = sd_edges db" "nodes db1 = nodes db"
      using store_page_edges [OF Cons.prems(3) items(1) stored(1)] by (simp_all add: nodes_def)
    have n2: "nodes db2 = nodes db" using graph_only_nodes [OF stored(2)] e1 by simp
    from stored(3) show ?thesis
    proof (cases rule: graph_step_cases)
      case skipped
      then show ?thesis using Cons.prems(4) e1 n2 by (simp add: edge_keys_def)
    next
      case done'
      let ?u = "db1\<lparr>sd_users := dict_set user username (sd_users db1)\<rparr>"
      have m: "merge_collected user t (coll_entries items) ?u = Inr db2" using done' by (simp add: graph_collection_page_def)
      have "coll_edges.holds user t rs0 D (sd_edges ?u)" "nodes ?u = nodes db" using Cons.prems(4) e1 by (simp_all add: nodes_def)
      then show ?thesis using merge_collected_holds [OF m, of rs0 D] n2 by simp
    qed (use res in simp)
  qed (use res in simp)
  have "entries (p # ps) = coll_entries items @ entries ps" by (simp add: p entries_def)
  then show ?case using Cons.IH [OF go items(2) ok2 conjunct1 [OF page]] page by (simp add: edge_keys_append Un_assoc)
qed (simp add: entries_def edge_keys_def)

text \<open>The keys of the entries are those written to the tables.\<close>

lemma given_id_iff: "given_id v \<longleftrightarrow> (\<exists>i. v = Some i \<and> i \<noteq> 0)"
  by (simp add: given_id_def split: option.split)

lemma entries_concat: "entries ps = coll_entries (concat (map snd ps))"
  by (induction ps) (auto simp: entries_def coll_entries_def)

lemma coll_entry_keys:
  assumes "items_ok items"
  shows "(release, inst) \<in> edge_keys K (coll_entries items) \<longleftrightarrow>
    (\<exists>i \<in> set items. ci_release i = Some release \<and> release \<noteq> 0 \<and> ci_instance i = Some inst) \<and> release \<in> K"
proof
  assume "(release, inst) \<in> edge_keys K (coll_entries items)"
  then obtain e where "e \<in> set (coll_entries items)" "re_release e = release" "re_instance e = Some inst" "release \<in> K"
    by (auto simp: edge_keys_def)
  then show "(\<exists>i \<in> set items. ci_release i = Some release \<and> release \<noteq> 0 \<and> ci_instance i = Some inst) \<and> release \<in> K"
    by (auto simp: coll_entries_def given_id_iff split: if_splits)
next
  assume *: "(\<exists>i \<in> set items. ci_release i = Some release \<and> release \<noteq> 0 \<and> ci_instance i = Some inst) \<and> release \<in> K"
  then obtain i where i: "i \<in> set items" "ci_release i = Some release" "release \<noteq> 0" "ci_instance i = Some inst" by blast
  then have "inst \<noteq> 0" using assms by (fastforce simp: items_ok_def given_id_iff)
  then have "\<lparr>re_release = release, re_instance = Some inst, re_rating = rating_or_zero (ci_rating i), re_folder = ci_folder i,
      re_date = ci_date i, re_catno = catno_of (ci_labels i)\<rparr> \<in> set (coll_entries items)" (is "?e \<in> _")
    using i by (auto simp: coll_entries_def given_id_iff intro!: image_eqI [of _ _ i])
  moreover have "re_instance ?e = Some inst" "re_release ?e = release" by simp_all
  ultimately show "(release, inst) \<in> edge_keys K (coll_entries items)" using * unfolding edge_keys_def
    by (intro CollectI exI [of _ ?e] exI [of _ inst]) simp
qed

lemma coll_batch_keys:
  "(release, Some inst) \<in> param_key ` set (coll_batch sc user t items) \<longleftrightarrow>
    (\<exists>i \<in> set items. ci_release i = Some release \<and> release \<noteq> 0 \<and> ci_instance i = Some inst)"
proof
  assume "(release, Some inst) \<in> param_key ` set (coll_batch sc user t items)"
  then obtain p i where "i \<in> set items" "coll_param sc user t i = Some p" "param_key p = (release, Some inst)"
    by (auto simp: coll_batch_def set_map_filter)
  then show "\<exists>i \<in> set items. ci_release i = Some release \<and> release \<noteq> 0 \<and> ci_instance i = Some inst"
    by (intro bexI [of _ i]) (auto simp: coll_param_def param_key_def given_id_iff split: if_splits)
next
  assume "\<exists>i \<in> set items. ci_release i = Some release \<and> release \<noteq> 0 \<and> ci_instance i = Some inst"
  then obtain i where i: "i \<in> set items" "ci_release i = Some release" "release \<noteq> 0" "ci_instance i = Some inst" by blast
  then obtain p where p: "coll_param sc user t i = Some p" "param_key p = (release, Some inst)"
    by (simp add: coll_param_def param_key_def given_id_iff)
  then have "p \<in> set (coll_batch sc user t items)" using i(1) by (auto simp: coll_batch_def set_map_filter)
  then show "(release, Some inst) \<in> param_key ` set (coll_batch sc user t items)" using p(2) by (metis image_eqI)
qed

lemma entry_keys:
  assumes "\<forall>(k, items) \<in> set ps. items_ok items"
  shows "(release, inst) \<in> edge_keys K (entries ps) \<longleftrightarrow>
    (release, Some inst) \<in> param_key ` set (written sc user t ps) \<and> release \<in> K"
proof -
  have "items_ok (concat (map snd ps))" using assms by (auto simp: items_ok_def)
  from coll_entry_keys [OF this] show ?thesis unfolding entries_concat written_concat coll_batch_keys .
qed

text \<open>
  C28.  The tables and the graph agree.  After a completed collection sync the user has a
  \<open>COLLECTED\<close> edge to a release under an instance id exactly when the user's row with that key is in
  the table and the release is a node of the graph; the edges of other users are as they were, and
  no node was made or lost.
\<close>

theorem graph_mirrors_table:
  assumes "sync_ok db" "listing_ok (se_reply env)"
    and old: "\<forall>r \<in> set (sd_rows db). uc_user r = user \<longrightarrow> uc_updated r < t"
    and old_edges: "\<forall>c \<in> set (sd_edges db). ce_user c = user \<longrightarrow> ce_synced c < t"
    and run: "sync_collection fuel sc env user username t db = Some (db', Inr n)"
  shows "set (dict_keys (sd_releases db')) = set (dict_keys (sd_releases db))
    \<and> (\<forall>release inst. (\<exists>c \<in> set (sd_edges db'). ce_user c = user \<and> ce_release c = release \<and> ce_instance c = inst)
         \<longleftrightarrow> row_of user (sd_rows db') (release, Some inst) \<noteq> None \<and> release \<in> set (dict_keys (sd_releases db')))
    \<and> (\<forall>c. ce_user c \<noteq> user \<longrightarrow> (c \<in> set (sd_edges db') \<longleftrightarrow> c \<in> set (sd_edges db)))"
proof -
  obtain ps db1 m where ps: "pages_read fuel (se_reply env) 0 1 0 = Some ps"
    and h: "handle_pages (collection_page sc env user username t) ps 0 db = (db1, Inr m)"
    and f: "finish_collection sc env user t m db1 = (db', Inr n)"
    by (rule sync_collection_completed [OF run])
  have items: "\<forall>(k, items) \<in> set ps. items_ok items"
    by (rule pages_read_ok [OF ps]) (use assms(2) in \<open>simp add: listing_ok_def\<close>)
  have "holds_written env user db [] db" by (simp add: holds_written_def last_write_def)
  from stored_listing [OF h items assms(1) this] have w: "holds_written env user db (written sc user t ps) db1" by simp
  have ok1: "sync_ok db1" using coll.handled_keep [OF items assms(1) h] by blast
  note rows = completed_rows [OF w assms(1) ok1 old f]
  have listed: "row_of user (sd_rows db') key \<noteq> None \<longleftrightarrow> key \<in> param_key ` set (written sc user t ps)" for key
    using rows(1) [of key] w [unfolded holds_written_def, rule_format, of key] last_write_None [of key "written sc user t ps"]
    by (auto split: option.splits)
  have e: "coll_edges.holds user t (sd_edges db) (edge_keys (nodes db) (entries ps)) (sd_edges db1)" "nodes db1 = nodes db"
    using listing_edges [OF h items assms(1) coll_edges.holds_start] by simp_all
  have "sd_releases db' = sd_releases db1"
    by (rule finish_cases [OF f])
      (simp add: write_collection_snapshot_def emit_events_def delete_stale_edges_def delete_stale_unfold)
  then have kept: "nodes db' = nodes db" using e(2) by (simp add: nodes_def)
  have edges: "sd_edges db' = filter (\<lambda>c. \<not> (ce_user c = user \<and> ce_synced c < t)) (sd_edges db1)"
    by (rule finish_cases [OF f])
      (simp add: write_collection_snapshot_def emit_events_def delete_stale_edges_def delete_stale_unfold)
  note swept = coll_edges.holds_sweep [OF e(1) old_edges, folded edges]
  have "(\<exists>c \<in> set (sd_edges db'). ce_user c = user \<and> ce_release c = release \<and> ce_instance c = inst)
      \<longleftrightarrow> (release, inst) \<in> edge_keys (nodes db) (entries ps)" for release inst
    unfolding swept(1) [symmetric] by auto
  then show ?thesis
    using swept(2) kept [unfolded nodes_def] listed entry_keys [OF items] by (simp add: nodes_def)
qed

lemma graph_mirrors_table_witness:
  "(\<exists>c \<in> set (sd_edges sample_after). ce_user c = ''u'' \<and> ce_release c = 2 \<and> ce_instance c = 22)
   \<and> \<not> (\<exists>c \<in> set (sd_edges sample_after). ce_user c = ''u'' \<and> ce_release c = 3 \<and> ce_instance c = 33)
   \<and> \<not> (\<exists>c \<in> set (sd_edges sample_after). ce_user c = ''u'' \<and> ce_release c = 9 \<and> ce_instance c = 99)"
proof -
  have old: "\<forall>c \<in> set (sd_edges sample_db). ce_user c = ''u'' \<longrightarrow> ce_synced c < 10" by (simp add: sample_db_def sample_edge_def)
  note agree = graph_mirrors_table [OF sample_sound sample_listing sample_old old sample_runs(1), THEN conjunct2, THEN conjunct1, rule_format]
  have "row_of ''u'' (sd_rows sample_after) (2, Some 22) \<noteq> None \<and> 2 \<in> set (dict_keys (sd_releases sample_after))"
    "3 \<notin> set (dict_keys (sd_releases sample_after))" "row_of ''u'' (sd_rows sample_after) (9, Some 99) = None" by code_simp+
  then show ?thesis unfolding agree by simp
qed

section \<open>The wantlist\<close>

text \<open>The releases the items of a page name.\<close>

definition wanted :: "want_item list \<Rightarrow> int set" where
  "wanted items = {release. \<exists>i \<in> set items. wi_release i = Some release \<and> release \<noteq> 0}"

lemma want_batch_releases:
  "wp_release ` set (want_batch sc user t items) = wanted items"
  "p \<in> set (want_batch sc user t items) \<Longrightarrow> want_of_run user t p"
  unfolding want_batch_def set_map_filter wanted_def
  by (force simp: want_param_def given_id_iff image_iff split: if_splits)
    (auto simp: want_param_def want_of_run_def split: if_splits)

lemma want_entry_releases: "re_release ` set (want_entries items) = wanted items"
  by (force simp: want_entries_def given_id_iff wanted_def image_iff)

lemma upsert_wants_hold:
  "\<forall>p \<in> set ps. want_of_run user t p \<Longrightarrow> want_rows.holds user t rs0 D (sd_wants db) \<Longrightarrow>
   want_rows.holds user t rs0 (D \<union> wp_release ` set ps) (sd_wants (foldl (upsert_want native) db ps))"
proof (induction ps arbitrary: db D)
  case (Cons p ps)
  have "want_rows.holds user t rs0 (insert (wp_release p) D) (sd_wants (upsert_want native db p))"
    using want_rows.holds_put [OF Cons.prems(2), of "(sd_next db, native (wp_release p), p)"] Cons.prems(1)
    by (simp add: upsert_want_puts)
  then show ?case using Cons.IH [of "insert (wp_release p) D"] Cons.prems(1) by simp
qed simp

text \<open>The tables a wantlist sync leaves alone, and the two it does not touch in its database step.\<close>

definition wants_only :: "sync_db \<Rightarrow> sync_db \<Rightarrow> bool" where
  "wants_only db db' \<longleftrightarrow> sd_rows db' = sd_rows db \<and> sd_copies db' = sd_copies db \<and> sd_snapshots db' = sd_snapshots db
     \<and> sd_edges db' = sd_edges db \<and> nodes db' = nodes db"

lemma upsert_wants_other:
  "wants_only db (foldl (upsert_want native) db ps) \<and> sd_want_edges (foldl (upsert_want native) db ps) = sd_want_edges db"
proof (induction ps arbitrary: db)
  case (Cons p ps)
  have "wants_only db (upsert_want native db p) \<and> sd_want_edges (upsert_want native db p) = sd_want_edges db"
    by (simp add: upsert_want_def wants_only_def nodes_def)
  then show ?case using Cons.IH [of "upsert_want native db p"] by (simp add: wants_only_def)
qed (simp add: wants_only_def)

lemma merge_wanted_holds:
  "want_edges.holds user t rs0 D (sd_want_edges db) \<Longrightarrow>
   want_edges.holds user t rs0 (D \<union> (re_release ` set es \<inter> nodes db)) (sd_want_edges (merge_wanted user t es db))
   \<and> wants_only db (merge_wanted user t es db) \<and> sd_wants (merge_wanted user t es db) = sd_wants db"
proof (induction es arbitrary: db D)
  case (Cons e es)
  show ?case
  proof (cases "re_release e \<in> nodes db")
    case False
    then have "merge_wanted user t (e # es) db = merge_wanted user t es db" using no_node by (simp add: merge_wanted_def)
    moreover have "re_release ` set (e # es) \<inter> nodes db = re_release ` set es \<inter> nodes db" using False by auto
    ultimately show ?thesis using Cons.IH [OF Cons.prems] by simp
  next
    case True
    let ?db = "db\<lparr>sd_want_edges := merge_want_edge user t e (sd_want_edges db), sd_releases := set_catno e (sd_releases db)\<rparr>"
    have m: "merge_wanted user t (e # es) db = merge_wanted user t es ?db" using True no_node by (simp add: merge_wanted_def)
    have n: "nodes ?db = nodes db" by (simp add: nodes_def)
    have "want_edges.holds user t rs0 (insert (re_release e) D) (sd_want_edges ?db)"
      using want_edges.holds_put [OF Cons.prems, of e] by simp
    note ih = Cons.IH [OF this, unfolded n]
    have "D \<union> (re_release ` set (e # es) \<inter> nodes db) = insert (re_release e) D \<union> (re_release ` set es \<inter> nodes db)" using True by auto
    then show ?thesis unfolding m using ih n by (simp add: wants_only_def)
  qed
qed (simp add: merge_wanted_def wants_only_def)

definition want_holds :: "string \<Rightarrow> int \<Rightarrow> sync_db \<Rightarrow> int set \<Rightarrow> sync_db \<Rightarrow> bool" where
  "want_holds user t db0 D db \<longleftrightarrow> want_rows.holds user t (sd_wants db0) D (sd_wants db)
     \<and> want_edges.holds user t (sd_want_edges db0) (D \<inter> nodes db0) (sd_want_edges db) \<and> wants_only db0 db"

lemma wantlist_page_holds:
  assumes "wantlist_page sc env user username t k items db = (db', Inr c)" "want_holds user t db0 D db"
  shows "want_holds user t db0 (D \<union> wanted items) db' \<and> c = length (want_batch sc user t items)"
proof -
  obtain db1 c1 where st: "store_wantlist_page sc env user t k items db = (db1, Inr c1)"
    and g: "graph_page env k c1 (want_entries items) (\<lambda>db. Inr (graph_wantlist_page user username t (want_entries items) db)) db1 = (db', Inr c)"
    using assms(1) by (auto simp: wantlist_page_def split: prod.splits sum.splits)
  let ?b = "want_batch sc user t items"
  have n: "nodes db = nodes db0" using assms(2) by (simp add: want_holds_def wants_only_def)
  have s: "want_rows.holds user t (sd_wants db0) (D \<union> wanted items) (sd_wants db1) \<and> wants_only db db1
      \<and> sd_want_edges db1 = sd_want_edges db \<and> c1 = length ?b"
  proof (cases "?b = []")
    case True
    then have "wanted items = {}" using want_batch_releases(1) [of sc user t items] by simp
    then show ?thesis using st True assms(2) by (simp add: store_wantlist_page_def want_holds_def wants_only_def)
  next
    case False
    let ?up = "foldl (upsert_want (se_native env k)) db ?b"
    have "se_page env k = None" using st False by (cases "se_page env k") (auto simp: store_wantlist_page_def unless_failing_def Let_def)
    then have "c1 = length ?b" "sd_wants db1 = sd_wants ?up" "wants_only ?up db1" "sd_want_edges db1 = sd_want_edges ?up"
      using st False
      by (auto simp: store_wantlist_page_def unless_failing_def persist_wantlist_page_def Let_def emit_events_def wants_only_def nodes_def)
    moreover have "want_rows.holds user t (sd_wants db0) (D \<union> wanted items) (sd_wants ?up)"
      using upsert_wants_hold [of ?b user t "sd_wants db0" D db] want_batch_releases assms(2) by (simp add: want_holds_def)
    ultimately show ?thesis using upsert_wants_other [of db "se_native env k" ?b] by (simp add: wants_only_def)
  qed
  have e1: "want_edges.holds user t (sd_want_edges db0) (D \<inter> nodes db0) (sd_want_edges db1)" "nodes db1 = nodes db0"
    using assms(2) s n by (simp_all add: want_holds_def wants_only_def)
  from g have "want_edges.holds user t (sd_want_edges db0) ((D \<union> wanted items) \<inter> nodes db0) (sd_want_edges db')
      \<and> wants_only db1 db' \<and> sd_wants db' = sd_wants db1 \<and> c = c1"
  proof (cases rule: graph_step_cases)
    case skipped
    then have "wanted items = {}" using want_entry_releases [of items] by simp
    then show ?thesis using skipped e1 by (simp add: wants_only_def)
  next
    case done'
    let ?u = "db1\<lparr>sd_users := dict_set user username (sd_users db1)\<rparr>"
    have "want_edges.holds user t (sd_want_edges db0) (D \<inter> nodes db0) (sd_want_edges ?u)" "nodes ?u = nodes db0"
      using e1 by (simp_all add: nodes_def)
    from merge_wanted_holds [OF this(1), of "want_entries items", unfolded this(2) want_entry_releases]
    show ?thesis using done' e1(2) by (simp add: graph_wantlist_page_def wants_only_def nodes_def Int_Un_distrib2)
  qed simp
  then show ?thesis using s assms(2) by (simp add: want_holds_def wants_only_def)
qed

lemma want_listing:
  "handle_pages (wantlist_page sc env user username t) ps got db = (db', Inr n) \<Longrightarrow> want_holds user t db0 D db \<Longrightarrow>
   want_holds user t db0 (D \<union> wanted (concat (map snd ps))) db'
   \<and> n = got + length (want_batch sc user t (concat (map snd ps)))"
proof (induction ps arbitrary: got db D)
  case Nil
  then show ?case by (simp add: wanted_def want_batch_def List.map_filter_def)
next
  case (Cons p ps)
  obtain k items where p: "p = (k, items)" by fastforce
  obtain db2 res where h: "wantlist_page sc env user username t k items db = (db2, res)" by fastforce
  then obtain c where res: "res = Inr c" using Cons.prems(1) p by (cases res) auto
  have go: "handle_pages (wantlist_page sc env user username t) ps (got + c) db2 = (db', Inr n)"
    using Cons.prems(1) p h res by simp
  have "wanted (items @ concat (map snd ps)) = wanted items \<union> wanted (concat (map snd ps))" by (auto simp: wanted_def)
  moreover have "want_batch sc user t (items @ concat (map snd ps)) = want_batch sc user t items @ want_batch sc user t (concat (map snd ps))"
    by (simp add: want_batch_def List.map_filter_def)
  ultimately show ?case
    using Cons.IH [OF go conjunct1 [OF wantlist_page_holds [OF h [unfolded res] Cons.prems(2)]]]
      wantlist_page_holds [OF h [unfolded res] Cons.prems(2)] p by (simp add: Un_assoc)
qed

text \<open>
  A wantlist sync that completes mirrors the listing in both stores: the user's rows in the
  table are those of the listed releases, the user's \<open>WANTS\<close> edges are those of the listed releases
  the graph has a node for, all written by this run; the rows and edges of other users, the
  collection and its owned copies are as they were, and the count is that of the items listed.
\<close>

theorem wantlist_mirrors_listing:
  assumes old: "\<forall>r \<in> set (sd_wants db). uw_user r = user \<longrightarrow> uw_updated r < t"
    and old_edges: "\<forall>w \<in> set (sd_want_edges db). we_user w = user \<longrightarrow> we_synced w < t"
    and run: "sync_wantlist fuel sc env user username t db = Some (db', Inr n)"
  shows "\<exists>ps. pages_read fuel (se_reply env) 0 1 0 = Some ps
    \<and> n = length (want_batch sc user t (concat (map snd ps)))
    \<and> {uw_release r | r. r \<in> set (sd_wants db') \<and> uw_user r = user} = wanted (concat (map snd ps))
    \<and> {we_release w | w. w \<in> set (sd_want_edges db') \<and> we_user w = user}
        = wanted (concat (map snd ps)) \<inter> set (dict_keys (sd_releases db))
    \<and> (\<forall>r. uw_user r \<noteq> user \<longrightarrow> (r \<in> set (sd_wants db') \<longleftrightarrow> r \<in> set (sd_wants db)))
    \<and> (\<forall>w. we_user w \<noteq> user \<longrightarrow> (w \<in> set (sd_want_edges db') \<longleftrightarrow> w \<in> set (sd_want_edges db)))
    \<and> sd_rows db' = sd_rows db \<and> sd_copies db' = sd_copies db \<and> sd_edges db' = sd_edges db"
proof -
  obtain db1 m where l: "sync_pages fuel (se_reply env) (wantlist_page sc env user username t) 0 1 0 0 db = Some (db1, Inr m)"
    and f: "finish_wantlist env user t m db1 = (db', Inr n)"
    using run by (auto simp: sync_wantlist_def split: option.splits prod.splits sum.splits)
  obtain ps where ps: "pages_read fuel (se_reply env) 0 1 0 = Some ps"
    and h: "handle_pages (wantlist_page sc env user username t) ps 0 db = (db1, Inr m)"
    using sync_pages_completed [OF l] by blast
  let ?W = "wanted (concat (map snd ps))"
  have "want_holds user t db {} db"
    by (simp add: want_holds_def want_rows.holds_start want_edges.holds_start wants_only_def)
  from want_listing [OF h this]
  have w: "want_rows.holds user t (sd_wants db) ?W (sd_wants db1)"
    and e: "want_edges.holds user t (sd_want_edges db) (?W \<inter> nodes db) (sd_want_edges db1)" and o: "wants_only db db1"
    and m: "m = length (want_batch sc user t (concat (map snd ps)))" by (simp_all add: want_holds_def)
  have fin: "n = m" "sd_wants db' = filter (\<lambda>r. \<not> (uw_user r = user \<and> uw_updated r < t)) (sd_wants db1)"
    "sd_want_edges db' = filter (\<lambda>w. \<not> (we_user w = user \<and> we_synced w < t)) (sd_want_edges db1)"
    "sd_rows db' = sd_rows db1" "sd_copies db' = sd_copies db1" "sd_edges db' = sd_edges db1"
    using f unfolding finish_wantlist_def reconcile_stale_wantlist_def unless_failing_def Let_def
    by (cases "se_sweep env"; cases "se_graph_sweep env"; auto simp: emit_events_def stale_want_def)+
  note rows = want_rows.holds_sweep [OF w old, folded fin(2)] and edges = want_edges.holds_sweep [OF e old_edges, folded fin(3)]
  show ?thesis
    using ps fin(1,4-6) m rows edges o unfolding nodes_def wants_only_def by (intro exI [of _ ps] conjI allI impI) simp_all
qed

lemma wantlist_mirrors_listing_witness:
  "let db' = fst (the (sync_wantlist 9 sample_codec (sample_env (\<lambda>p. [sample_want (int p), sample_want 8])) ''u'' ''n'' 10 sample_db))
   in {uw_release r | r. r \<in> set (sd_wants db') \<and> uw_user r = ''u''} = {1, 2, 8}
      \<and> {we_release w | w. w \<in> set (sd_want_edges db') \<and> we_user w = ''u''} = {1, 2}"
proof -
  let ?env = "sample_env (\<lambda>p. [sample_want (int p), sample_want 8])"
  let ?run = "sync_wantlist 9 sample_codec ?env ''u'' ''n'' 10 sample_db"
  have old: "\<forall>r \<in> set (sd_wants sample_db). uw_user r = ''u'' \<longrightarrow> uw_updated r < 10"
    "\<forall>w \<in> set (sd_want_edges sample_db). we_user w = ''u'' \<longrightarrow> we_synced w < 10"
    by (simp_all add: sample_db_def new_want_row_def)
  have run: "?run = Some (fst (the ?run), Inr 4)" by (rule completed_as) code_simp
  have pages: "pages_read 9 (se_reply ?env) 0 1 0 = Some [(1, [sample_want 1, sample_want 8]), (2, [sample_want 2, sample_want 8])]"
    by code_simp
  have w: "wanted (concat (map snd [(1 :: nat, [sample_want 1, sample_want 8]), (2, [sample_want 2, sample_want 8])])) = {1, 2, 8}"
    by (auto simp: wanted_def sample_want_def)
  have n: "{1, 2, 8} \<inter> set (dict_keys (sd_releases sample_db)) = {1, 2}" by (auto simp: sample_db_def)
  show ?thesis using wantlist_mirrors_listing [OF old run] unfolding pages option.inject Let_def using w n by auto
qed

end
