(* ===== verification/Sync_Outcome.thy ===== *)
theory Sync_Outcome
  imports Sync_Mirror
begin

text \<open>
  The full sync as a whole: that it ends, that the tables stay sound however it ends, and the record
  it leaves in the history.
\<close>

section \<open>A sample service\<close>

definition sample_service :: sync_service where
  "sample_service =
     \<lparr>sv_db = sample_db, sv_tokens = [\<lparr>ot_user = ''u'', ot_provider = ''discogs'', ot_access = ''a'', ot_secret = ''s'', ot_username = ''n''\<rparr>],
      sv_config = [(''discogs_consumer_key'', ''k''), (''discogs_consumer_secret'', ''s'')],
      sv_history = [\<lparr>sh_id = 1, sh_user = ''u'', sh_status = ''completed'', sh_items = Some 0, sh_error = None\<rparr>,
                    \<lparr>sh_id = 2, sh_user = ''u'', sh_status = ''running'', sh_items = None, sh_error = None\<rparr>],
      sv_invalidated = []\<rparr>"

definition sample_full_env :: "sync_failure option \<Rightarrow> full_env" where
  "sample_full_env query =
     \<lparr>fe_collection = sample_env sample_items, fe_wantlist = sample_env (\<lambda>p. [sample_want (int p), sample_want 8]),
      fe_codec = sample_codec, fe_collection_started = 10, fe_wantlist_started = 11, fe_decrypt = Inr, fe_query = query,
      fe_config_query = None, fe_valkey = True, fe_update_fails = False\<rparr>"

lemma sample_full_listing: "listing_ok (se_reply (fe_collection (sample_full_env query)))"
  using sample_listing by (simp add: sample_full_env_def)

lemma sample_bounded: "pages_bounded 2 (sample_reply items)"
  by (simp add: pages_bounded_def sample_reply_def reply_pages_def)

definition sample_full :: "sync_failure option \<Rightarrow> (sync_service \<times> (sync_failure, sync_result) result) option" where
  "sample_full query = run_full_sync 12 (sample_full_env query) ''u'' 2 sample_service"

section \<open>It ends\<close>

lemma sync_pages_enough:
  assumes "pages_bounded m reply" "1 \<le> m" "m * Suc MAX_RATE_LIMIT_RETRIES \<le> fuel"
  shows "\<exists>r. sync_pages fuel reply handle 0 1 0 0 s = Some r"
proof -
  have "(m - 1) * Suc MAX_RATE_LIMIT_RETRIES + (Suc MAX_RATE_LIMIT_RETRIES - 0) \<le> fuel"
    using assms(2,3) by (cases m) simp_all
  then show ?thesis using sync_pages_ends [OF assms(1) _ assms(2), of 0 fuel handle 0 0 s] by auto
qed

lemma sync_collection_enough:
  assumes "pages_bounded m (se_reply env)" "1 \<le> m" "m * Suc MAX_RATE_LIMIT_RETRIES \<le> fuel"
  obtains db' r where "sync_collection fuel sc env user username t db = Some (db', r)"
  using sync_pages_enough [OF assms, of "collection_page sc env user username t" db] that
  by (fastforce simp: sync_collection_def split: sum.splits)

lemma sync_wantlist_enough:
  assumes "pages_bounded m (se_reply env)" "1 \<le> m" "m * Suc MAX_RATE_LIMIT_RETRIES \<le> fuel"
  obtains db' r where "sync_wantlist fuel sc env user username t db = Some (db', r)"
  using sync_pages_enough [OF assms, of "wantlist_page sc env user username t" db] that
  by (fastforce simp: sync_wantlist_def split: sum.splits)

lemma sync_collection_mono:
  "sync_collection fuel sc env user username t db = Some r \<Longrightarrow> fuel \<le> fuel' \<Longrightarrow>
   sync_collection fuel' sc env user username t db = Some r"
  using sync_pages_mono [of fuel "se_reply env" "collection_page sc env user username t" 0 1 0 0 db _ fuel']
  by (auto simp: sync_collection_def split: option.splits)

lemma sync_wantlist_mono:
  "sync_wantlist fuel sc env user username t db = Some r \<Longrightarrow> fuel \<le> fuel' \<Longrightarrow>
   sync_wantlist fuel' sc env user username t db = Some r"
  using sync_pages_mono [of fuel "se_reply env" "wantlist_page sc env user username t" 0 1 0 0 db _ fuel']
  by (auto simp: sync_wantlist_def split: option.splits)

lemma sync_body_mono:
  assumes "sync_body fuel env user sv = Some r" "fuel \<le> fuel'"
  shows "sync_body fuel' env user sv = Some r"
proof (cases "discogs_username env user sv")
  case (Inl f)
  then show ?thesis using assms by (simp add: sync_body_def)
next
  case (Inr username)
  obtain db1 c where col: "sync_collection fuel (fe_codec env) (fe_collection env) user username (fe_collection_started env) (sv_db sv)
      = Some (db1, c)"
    using assms(1) Inr by (auto simp: sync_body_def split: option.splits)
  note col' = sync_collection_mono [OF col assms(2)]
  show ?thesis
  proof (cases c)
    case (Inl f)
    then show ?thesis using assms(1) Inr col col' \<open>discogs_username env user sv = Inr username\<close> by (simp add: sync_body_def)
  next
    case c: (Inr n)
    obtain db2 w where want: "sync_wantlist fuel (fe_codec env) (fe_wantlist env) user username (fe_wantlist_started env) db1 = Some (db2, w)"
      using assms(1) Inr col c by (auto simp: sync_body_def split: option.splits)
    show ?thesis using assms(1) Inr col col' c want sync_wantlist_mono [OF want assms(2)] by (simp add: sync_body_def)
  qed
qed

text \<open>
  C29.  A full sync ends: when the API never announces more than \<open>m\<close> pages, six requests a page are
  fuel enough, and more fuel gives the same result.
\<close>

theorem full_sync_returns:
  assumes "1 \<le> m" "pages_bounded m (se_reply (fe_collection env))" "pages_bounded m (se_reply (fe_wantlist env))"
  shows "\<exists>r. \<forall>fuel \<ge> m * Suc MAX_RATE_LIMIT_RETRIES. run_full_sync fuel env user sync_id sv = Some r"
proof -
  let ?n = "m * Suc MAX_RATE_LIMIT_RETRIES"
  have "\<exists>r. sync_body ?n env user sv = Some r"
  proof (cases "discogs_username env user sv")
    case (Inr username)
    obtain db1 c where col: "sync_collection ?n (fe_codec env) (fe_collection env) user username (fe_collection_started env) (sv_db sv)
        = Some (db1, c)"
      by (rule sync_collection_enough [OF assms(2,1) order.refl])
    obtain db2 w where "sync_wantlist ?n (fe_codec env) (fe_wantlist env) user username (fe_wantlist_started env) db1 = Some (db2, w)"
      by (rule sync_wantlist_enough [OF assms(3,1) order.refl])
    then show ?thesis using Inr col by (cases c; cases w) (simp_all add: sync_body_def)
  qed (simp add: sync_body_def)
  then obtain r where "sync_body ?n env user sv = Some r" by blast
  then have body: "sync_body fuel env user sv = Some r" if "?n \<le> fuel" for fuel using sync_body_mono that by blast
  obtain db c w f where r: "r = (db, c, w, f)" by (cases r)
  have "\<exists>x. run_full_sync ?n env user sync_id sv = Some x"
    unfolding run_full_sync_def body [OF order.refl] r option.case prod.case Let_def by (rule exI) (rule refl)
  then obtain x where x: "run_full_sync ?n env user sync_id sv = Some x" ..
  have same: "run_full_sync fuel env user sync_id sv = run_full_sync ?n env user sync_id sv" if "?n \<le> fuel" for fuel
    unfolding run_full_sync_def body [OF that] body [OF order.refl] ..
  show ?thesis
  proof (intro exI allI impI)
    show "run_full_sync fuel env user sync_id sv = Some x" if "?n \<le> fuel" for fuel using same [OF that] x by (rule trans)
  qed
qed

lemma full_sync_returns_witness:
  "\<exists>r. \<forall>fuel \<ge> 2 * Suc MAX_RATE_LIMIT_RETRIES. run_full_sync fuel (sample_full_env None) ''u'' 2 sample_service = Some r"
  by (rule full_sync_returns) (simp_all add: sample_full_env_def sample_env_def sample_bounded)

section \<open>The tables stay sound\<close>

lemma sync_ok_next: "sync_ok db \<Longrightarrow> sd_rows db' = sd_rows db \<Longrightarrow> sd_copies db' = sd_copies db \<Longrightarrow> sd_next db \<le> sd_next db' \<Longrightarrow> sync_ok db'"
  using rows_ok_le copies_ok_le by (simp add: sync_ok_def) blast

text \<open>What no wantlist page touches.\<close>

definition collection_kept :: "sync_db \<Rightarrow> sync_db \<Rightarrow> bool" where
  "collection_kept db db' \<longleftrightarrow> sd_rows db' = sd_rows db \<and> sd_copies db' = sd_copies db \<and> sd_next db \<le> sd_next db'"

lemma upsert_wants_kept: "collection_kept db (foldl (upsert_want native) db ps)"
proof (induction ps arbitrary: db)
  case (Cons p ps)
  have "collection_kept db (upsert_want native db p)" by (simp add: upsert_want_def collection_kept_def)
  then show ?case using Cons [of "upsert_want native db p"] by (auto simp: collection_kept_def)
qed (simp add: collection_kept_def)

lemma merge_wanted_kept: "collection_kept db (merge_wanted user t es db)"
  unfolding merge_wanted_def
proof (induction es arbitrary: db)
  case (Cons e es)
  show ?case
    using Cons [of db] Cons [of "db\<lparr>sd_want_edges := merge_want_edge user t e (sd_want_edges db), sd_releases := set_catno e (sd_releases db)\<rparr>"]
    by (cases "map_of (sd_releases db) (re_release e)") (simp_all add: collection_kept_def)
qed (simp add: collection_kept_def)

lemma wantlist_page_kept:
  assumes "wantlist_page sc env user username t k items db = (db', r)"
  shows "collection_kept db db'"
proof -
  obtain db1 r1 where st: "store_wantlist_page sc env user t k items db = (db1, r1)" by fastforce
  have one: "collection_kept db db1"
    using st upsert_wants_kept [of db "se_native env k" "want_batch sc user t items"]
    by (auto simp: store_wantlist_page_def unless_failing_def persist_wantlist_page_def Let_def emit_events_def collection_kept_def
        split: if_splits option.splits)
  show ?thesis
  proof (cases r1)
    case (Inl f)
    then show ?thesis using assms st one by (simp add: wantlist_page_def)
  next
    case (Inr c)
    then have g: "graph_page env k c (want_entries items) (\<lambda>db. Inr (graph_wantlist_page user username t (want_entries items) db)) db1 = (db', r)"
      using assms st by (simp add: wantlist_page_def)
    from g have "collection_kept db1 db'"
    proof (cases rule: graph_step_cases)
      case done'
      then show ?thesis
        using merge_wanted_kept [of "db1\<lparr>sd_users := dict_set user username (sd_users db1)\<rparr>" user t "want_entries items"]
        by (simp add: graph_wantlist_page_def collection_kept_def)
    qed (simp_all add: collection_kept_def)
    then show ?thesis using one by (simp add: collection_kept_def)
  qed
qed

interpretation wants: paged_sync "wantlist_page sc env user username t" "\<lambda>db. True" collection_kept "\<lambda>items. True"
  for sc :: sync_codec and env :: "'e sync_env" and user :: string and username :: string and t :: int
  by unfold_locales (use wantlist_page_kept in blast, use wantlist_page_kept in blast, auto simp: collection_kept_def)

lemma sync_wantlist_kept:
  assumes "sync_wantlist fuel sc env user username t db = Some (db', r)"
  shows "collection_kept db db'"
proof -
  obtain db1 r1 where l: "sync_pages fuel (se_reply env) (wantlist_page sc env user username t) 0 1 0 0 db = Some (db1, r1)"
    using assms by (auto simp: sync_wantlist_def split: option.splits)
  have "collection_kept db db1" using wants.pages_keep [OF _ _ l] by simp
  then show ?thesis using assms l
    by (cases r1; cases "se_sweep env"; cases "se_graph_sweep env")
      (auto simp: sync_wantlist_def finish_wantlist_def reconcile_stale_wantlist_def unless_failing_def Let_def emit_events_def collection_kept_def)
qed

lemma sync_collection_ok:
  assumes "sync_ok db" "listing_ok (se_reply env)" "sync_collection fuel sc env user username t db = Some (db', r)"
  shows "sync_ok db'"
proof -
  obtain db1 r1 where l: "sync_pages fuel (se_reply env) (collection_page sc env user username t) 0 1 0 0 db = Some (db1, r1)"
    using assms(3) by (auto simp: sync_collection_def split: option.splits)
  have ok: "sync_ok db1" using coll.pages_keep [OF assms(2) [unfolded listing_ok_def] assms(1) l] by blast
  show ?thesis using assms(3) l ok sweep_ok [OF ok, of user t]
    by (cases r1; cases "se_sweep env"; cases "se_graph_sweep env"; cases "se_snapshot env")
      (auto simp: sync_collection_def finish_collection_def reconcile_stale_collection_def unless_failing_def Let_def emit_events_def
        write_collection_snapshot_def delete_stale_edges_def sync_ok_def)
qed

text \<open>
  C30.  However a full sync ends, the tables it leaves are well formed: row and copy ids are distinct
  and below the next one, no user holds two rows of one release and instance, a copy's link names a
  row of the copy's user, at most one copy names a row, and every row with an item is linked to the
  copy that names it and is of that item.
\<close>

theorem tables_stay_well_formed:
  assumes "sync_ok (sv_db sv)" "listing_ok (se_reply (fe_collection env))"
    and run: "run_full_sync fuel env user sync_id sv = Some (sv', r)"
  shows "sync_ok (sv_db sv')"
proof -
  obtain db c w f where b: "sync_body fuel env user sv = Some (db, c, w, f)" "sv_db sv' = db"
    using run by (auto simp: run_full_sync_def Let_def split: option.splits)
  show ?thesis
  proof (cases "discogs_username env user sv")
    case (Inl e)
    then show ?thesis using b assms(1) by (simp add: sync_body_def)
  next
    case (Inr username)
    obtain db1 c1 where col: "sync_collection fuel (fe_codec env) (fe_collection env) user username (fe_collection_started env) (sv_db sv)
        = Some (db1, c1)"
      using b(1) Inr by (auto simp: sync_body_def split: option.splits)
    note ok1 = sync_collection_ok [OF assms(1,2) col]
    show ?thesis
    proof (cases c1)
      case (Inl e)
      then show ?thesis using b Inr col ok1 \<open>discogs_username env user sv = Inr username\<close> by (simp add: sync_body_def)
    next
      case c1: (Inr n)
      obtain db2 w1 where want: "sync_wantlist fuel (fe_codec env) (fe_wantlist env) user username (fe_wantlist_started env) db1 = Some (db2, w1)"
        using b(1) Inr col c1 by (auto simp: sync_body_def split: option.splits)
      have "db = db2" using b(1) Inr col c1 want by (cases w1) (simp_all add: sync_body_def)
      then show ?thesis using b(2) sync_ok_next [OF ok1] sync_wantlist_kept [OF want] by (simp add: collection_kept_def)
    qed
  qed
qed

lemma tables_stay_well_formed_witness: "sync_ok (sv_db (fst (the (sample_full None))))"
proof -
  have "run_full_sync 12 (sample_full_env None) ''u'' 2 sample_service = Some (the (sample_full None))"
    unfolding sample_full_def using full_sync_returns_witness by (fastforce simp: MAX_RATE_LIMIT_RETRIES_def)
  then show ?thesis
    using tables_stay_well_formed [OF _ sample_full_listing, of sample_service 12 None "''u''" 2] sample_sound
    by (metis prod.collapse sample_service_def sync_service.select_convs(1))
qed

section \<open>The history\<close>

text \<open>
  C31.  A full sync that could write its record leaves exactly one outcome in it: the row of the run
  takes its status, the sum of the two counts and the error, and no other row changes.  The status
  is \<open>cancelled\<close> exactly when the cancellation goes on to the caller; it is \<open>completed\<close> exactly when
  both parts ran to their end, or when they failed with an exception that has no text.
\<close>

theorem full_sync_records_outcome:
  assumes run: "run_full_sync fuel env user sync_id sv = Some (sv', r)" and writes: "\<not> fe_update_fails env"
  shows "\<exists>status items err.
     sv_history sv' = map (\<lambda>h. if sh_id h = sync_id then h\<lparr>sh_status := status, sh_items := Some items, sh_error := err\<rparr> else h) (sv_history sv)
   \<and> status \<in> {''completed'', ''failed'', ''cancelled''}
   \<and> (status = ''cancelled'' \<longleftrightarrow> r = Inl SyncCancelled) \<and> (r = Inl SyncCancelled \<longrightarrow> err = Some CANCELLED_MESSAGE)
   \<and> (\<forall>res. r = Inr res \<longrightarrow> res = \<lparr>sr_sync_id = sync_id, sr_status = status, sr_collection = sr_collection res,
                                   sr_wantlist = sr_wantlist res, sr_error = err\<rparr> \<and> items = sr_collection res + sr_wantlist res)
   \<and> (status = ''completed'' \<longleftrightarrow> err = None \<or> err = Some [])
   \<and> (err = None \<longleftrightarrow> (\<exists>username db1 c w. discogs_username env user sv = Inr username
        \<and> sync_collection fuel (fe_codec env) (fe_collection env) user username (fe_collection_started env) (sv_db sv) = Some (db1, Inr c)
        \<and> sync_wantlist fuel (fe_codec env) (fe_wantlist env) user username (fe_wantlist_started env) db1 = Some (sv_db sv', Inr w)
        \<and> items = c + w))
   \<and> sv_invalidated sv' = (if fe_valkey env then sv_invalidated sv @ [user] else sv_invalidated sv)"
proof -
  obtain db c w f where b: "sync_body fuel env user sv = Some (db, c, w, f)"
    using run by (auto simp: run_full_sync_def split: option.splits)
  note out = run [unfolded run_full_sync_def b option.case prod.case Let_def]
  let ?status = "final_status f" and ?err = "failure_message f"
  have hist: "sv_history sv' = update_history sync_id ?status (c + w) ?err (sv_history sv)" and db: "sv_db sv' = db"
    and inv: "sv_invalidated sv' = (if fe_valkey env then sv_invalidated sv @ [user] else sv_invalidated sv)"
    and r: "r = (if f = Some SyncCancelled then Inl SyncCancelled
       else Inr \<lparr>sr_sync_id = sync_id, sr_status = ?status, sr_collection = c, sr_wantlist = w, sr_error = ?err\<rparr>)"
    using out writes by auto
  have cancel: "?status = ''cancelled'' \<longleftrightarrow> f = Some SyncCancelled"
    by (auto simp: final_status_def split: option.split)
  have finished: "?status = ''completed'' \<longleftrightarrow> ?err = None \<or> ?err = Some []"
    by (auto simp: final_status_def failure_message_def CANCELLED_MESSAGE_def split: option.split sync_failure.split)
  have all: "?err = None \<longleftrightarrow> (\<exists>username db1 c' w'. discogs_username env user sv = Inr username
        \<and> sync_collection fuel (fe_codec env) (fe_collection env) user username (fe_collection_started env) (sv_db sv) = Some (db1, Inr c')
        \<and> sync_wantlist fuel (fe_codec env) (fe_wantlist env) user username (fe_wantlist_started env) db1 = Some (db, Inr w')
        \<and> c + w = c' + w')"
  proof -
    have "?err = None \<longleftrightarrow> f = None" by (auto simp: failure_message_def split: option.split sync_failure.split)
    also have "\<dots> \<longleftrightarrow> (\<exists>username db1 c' w'. discogs_username env user sv = Inr username
        \<and> sync_collection fuel (fe_codec env) (fe_collection env) user username (fe_collection_started env) (sv_db sv) = Some (db1, Inr c')
        \<and> sync_wantlist fuel (fe_codec env) (fe_wantlist env) user username (fe_wantlist_started env) db1 = Some (db, Inr w')
        \<and> c + w = c' + w')"
      using b by (auto simp: sync_body_def split: sum.splits option.splits prod.splits)
    finally show ?thesis .
  qed
  have "?status \<in> {''completed'', ''failed'', ''cancelled''}" by (simp add: final_status_def split: option.split)
  then show ?thesis
    using hist inv r cancel finished all unfolding db
    by (intro exI [of _ ?status] exI [of _ "c + w"] exI [of _ ?err] conjI)
      (simp_all add: update_history_def failure_message_def split: if_splits)
qed

lemma full_sync_records_outcome_witness:
  "map sh_status (sv_history (fst (the (sample_full None)))) = [''completed'', ''completed'']
   \<and> map sh_status (sv_history (fst (the (sample_full (Some SyncCancelled))))) = [''completed'', ''cancelled'']"
proof -
  have c: "map_option (\<lambda>(sv, r). (sv_history sv, r)) (sample_full (Some SyncCancelled))
       = Some (update_history 2 ''cancelled'' 0 (Some CANCELLED_MESSAGE) (sv_history sample_service), Inl SyncCancelled)" by code_simp
  obtain sv1 where sv1: "sample_full (Some SyncCancelled) = Some (sv1, Inl SyncCancelled)" using c by (auto simp: case_prod_unfold)
  have n: "map_option (\<lambda>(sv, r). case r of Inl f \<Rightarrow> None | Inr res \<Rightarrow> Some (sr_status res)) (sample_full None) = Some (Some ''completed'')"
    by code_simp
  then obtain sv2 res where sv2: "sample_full None = Some (sv2, Inr res)" "sr_status res = ''completed''"
    by (cases "sample_full None"; cases "snd (the (sample_full None))") (auto simp: case_prod_unfold)
  have u: "\<not> fe_update_fails (sample_full_env q)" for q by (simp add: sample_full_env_def)
  obtain status items err where "sv_history sv1 = map (\<lambda>h. if sh_id h = 2
        then h\<lparr>sh_status := status, sh_items := Some items, sh_error := err\<rparr> else h) (sv_history sample_service)" "status = ''cancelled''"
    using full_sync_records_outcome [OF sv1 [unfolded sample_full_def] u] by blast
  then have one: "map sh_status (sv_history sv1) = [''completed'', ''cancelled'']" by (simp add: sample_service_def)
  obtain status items err where h2: "sv_history sv2 = map (\<lambda>h. if sh_id h = 2
        then h\<lparr>sh_status := status, sh_items := Some items, sh_error := err\<rparr> else h) (sv_history sample_service)"
      and "res = \<lparr>sr_sync_id = 2, sr_status = status, sr_collection = sr_collection res, sr_wantlist = sr_wantlist res, sr_error = err\<rparr>"
    using full_sync_records_outcome [OF sv2(1) [unfolded sample_full_def] u] by blast
  then have "sr_status res = status" by (metis sync_result.select_convs(2))
  then show ?thesis using one h2 sv2 unfolding sv1 by (simp add: sample_service_def)
qed

text \<open>A sync whose token query fails with an exception without text is recorded as completed.\<close>

lemma silent_failure_is_completed:
  "map_option (\<lambda>(sv, r). (map sh_status (sv_history sv), sv_db sv = sample_db)) (sample_full (Some (SyncFailed [])))
     = Some ([''completed'', ''completed''], True)"
  by (simp add: sample_full_def run_full_sync_def sync_body_def discogs_username_def sample_full_env_def final_status_def
      failure_message_def update_history_def sample_service_def Let_def)

text \<open>After a restart no run is left as running, and the rows of ended runs are as they were.\<close>

lemma restart_leaves_no_running_sync:
  "\<forall>h \<in> set (reconcile_stale_sync_history rows). sh_status h \<noteq> ''running''
     \<and> (h \<in> set rows \<or> (sh_status h = ''failed'' \<and> sh_error h = Some ''Interrupted by service restart''))"
  by (auto simp: reconcile_stale_sync_history_def)

end
