(* ===== verification/Snapshot_Store.thy ===== *)
theory Snapshot_Store
  imports Prelude
begin

text \<open>
  Graph snapshots in Valkey, \<open>src/api/snapshot_store.py\<close>, and their two endpoints in
  \<open>src/api/routers/snapshot.py\<close>.

  A save is a sequence of Valkey commands, and saves of several requests interleave between them:
  each command is one step of a saver, which may also find the command refused.  The keyspace is one
  map from key names to values with an expiry, so that the two families of keys share it as they
  share the \<open>snapshot:\<close> stem.  Time is the server's, in seconds, and passes between commands.
\<close>

section \<open>The keyspace\<close>

datatype snap_value = Blob string | Number int

record snap_server =
  vs_now :: int
  vs_keys :: "string \<Rightarrow> (snap_value \<times> int option) option"

definition expired_at :: "int \<Rightarrow> int option \<Rightarrow> bool" where
  "expired_at now e = (case e of None \<Rightarrow> False | Some t \<Rightarrow> t \<le> now)"

definition pass_time :: "nat \<Rightarrow> snap_server \<Rightarrow> snap_server" where
  "pass_time d s =
     (let now = vs_now s + int d in
      \<lparr>vs_now = now, vs_keys = (\<lambda>k. case vs_keys s k of
                                   None \<Rightarrow> None
                                 | Some (v, e) \<Rightarrow> if expired_at now e then None else Some (v, e))\<rparr>)"

definition set_key :: "string \<Rightarrow> snap_value \<times> int option \<Rightarrow> snap_server \<Rightarrow> snap_server" where
  "set_key k v s = s\<lparr>vs_keys := (vs_keys s)(k \<mapsto> v)\<rparr>"

definition del_key :: "string \<Rightarrow> snap_server \<Rightarrow> snap_server" where
  "del_key k s = s\<lparr>vs_keys := (vs_keys s)(k := None)\<rparr>"

text \<open>\<open>INCR\<close> and \<open>DECR\<close>: a missing key counts from zero and gets no expiry; text is no number.\<close>

definition add_to_key :: "int \<Rightarrow> string \<Rightarrow> snap_server \<Rightarrow> (int \<times> snap_server) option" where
  "add_to_key d k s =
     (case vs_keys s k of
        None \<Rightarrow> Some (d, set_key k (Number d, None) s)
      | Some (Number n, e) \<Rightarrow> Some (n + d, set_key k (Number (n + d), e) s)
      | Some (Blob b, e) \<Rightarrow> None)"

text \<open>\<open>EXPIRE ... NX\<close>.\<close>

definition expire_nx :: "string \<Rightarrow> int \<Rightarrow> snap_server \<Rightarrow> snap_server" where
  "expire_nx k ttl s =
     (case vs_keys s k of
        Some (v, None) \<Rightarrow> set_key k (v, Some (vs_now s + ttl)) s
      | _ \<Rightarrow> s)"

section \<open>The store\<close>

record snap_conf =
  sf_prefix :: string
  sf_ttl_days :: int
  sf_max_nodes :: nat
  sf_max_bytes :: nat
  sf_max_per_user :: int

definition ttl_seconds :: "snap_conf \<Rightarrow> int" where
  "ttl_seconds cf = sf_ttl_days cf * 86400"

definition default_snap_conf :: "string \<Rightarrow> snap_conf" where
  "default_snap_conf p = \<lparr>sf_prefix = p, sf_ttl_days = 28, sf_max_nodes = 100, sf_max_bytes = 64 * 1024, sf_max_per_user = 50\<rparr>"

definition snapshot_key :: "snap_conf \<Rightarrow> string \<Rightarrow> string" where
  "snapshot_key cf token = sf_prefix cf @ ''snapshot:'' @ token"

definition user_count_key :: "snap_conf \<Rightarrow> string \<Rightarrow> string" where
  "user_count_key cf user = sf_prefix cf @ ''snapshot:usercount:'' @ user"

text \<open>A snapshot, and the JSON functions: what is stored for it, what reading a text gives, and the
  decimal text of a number.\<close>

record graph_snapshot =
  gs_nodes :: "(string \<times> string) list"
  gs_center :: "string \<times> string"
  gs_created :: int

datatype loaded = LoadedSnapshot graph_snapshot | OtherJson | NotJson

record snap_codec =
  sj_dumps :: "graph_snapshot \<Rightarrow> string"
  sj_loads :: "string \<Rightarrow> loaded"
  sj_number :: "int \<Rightarrow> string"

text \<open>One call of \<open>save\<close>: the random token and the clock reading it will take are part of it.\<close>

record save_call =
  sl_nodes :: "(string \<times> string) list"
  sl_center :: "string \<times> string"
  sl_user :: "string option"
  sl_token :: string
  sl_clock :: int

definition taken :: "save_call \<Rightarrow> graph_snapshot" where
  "taken q = \<lparr>gs_nodes = sl_nodes q, gs_center = sl_center q, gs_created = sl_clock q\<rparr>"

definition snap_payload :: "snap_codec \<Rightarrow> save_call \<Rightarrow> string" where
  "snap_payload sj q = sj_dumps sj (taken q)"

definition saving_user :: "save_call \<Rightarrow> string option" where
  "saving_user q = (case sl_user q of None \<Rightarrow> None | Some u \<Rightarrow> if u = [] then None else Some u)"

datatype save_error =
    TooManyNodes nat
  | TooLarge nat
  | QuotaExceeded int
  | BadLiteral string
  | Unavailable string
  | OtherError string

datatype save_pc =
    SaveBegin
  | StoreAnonymous
  | ReadCount
  | StoreSnapshot
  | CountUp
  | UndoStore save_error
  | ArmWindow int
  | RefuseStore int
  | RefuseCount int
  | SaveDone
  | SaveFailed save_error

record saver =
  sa_call :: save_call
  sa_pc :: save_pc

definition new_saver :: "save_call \<Rightarrow> saver" where
  "new_saver q = \<lparr>sa_call = q, sa_pc = SaveBegin\<rparr>"

definition counter_of :: "snap_conf \<Rightarrow> save_call \<Rightarrow> string" where
  "counter_of cf q = user_count_key cf (case saving_user q of None \<Rightarrow> [] | Some u \<Rightarrow> u)"

text \<open>One command that the server carries out.\<close>

definition save_step :: "snap_conf \<Rightarrow> snap_codec \<Rightarrow> save_call \<Rightarrow> save_pc \<Rightarrow> snap_server \<Rightarrow> save_pc \<times> snap_server" where
  "save_step cf sj q pc s =
     (let key = snapshot_key cf (sl_token q); count_key = counter_of cf q; payload = snap_payload sj q;
          stored = set_key key (Blob payload, Some (vs_now s + ttl_seconds cf)) s
      in case pc of
        SaveBegin \<Rightarrow>
          (if sf_max_nodes cf < length (sl_nodes q) then SaveFailed (TooManyNodes (length (sl_nodes q)))
           else if sf_max_bytes cf < length payload then SaveFailed (TooLarge (length payload))
           else if saving_user q = None then StoreAnonymous else ReadCount, s)
      | StoreAnonymous \<Rightarrow> (SaveDone, stored)
      | ReadCount \<Rightarrow>
          (case vs_keys s count_key of
             None \<Rightarrow> (StoreSnapshot, s)
           | Some (Number n, e) \<Rightarrow> (if sf_max_per_user cf \<le> n then SaveFailed (QuotaExceeded n) else StoreSnapshot, s)
           | Some (Blob b, e) \<Rightarrow> (SaveFailed (BadLiteral b), s))
      | StoreSnapshot \<Rightarrow> (CountUp, stored)
      | CountUp \<Rightarrow>
          (case add_to_key 1 count_key s of
             None \<Rightarrow> (UndoStore (OtherError ''value is not an integer or out of range''), s)
           | Some (n, s') \<Rightarrow> (ArmWindow n, s'))
      | UndoStore e \<Rightarrow> (SaveFailed e, del_key key s)
      | ArmWindow n \<Rightarrow> (if sf_max_per_user cf < n then RefuseStore n else SaveDone, expire_nx count_key (ttl_seconds cf) s)
      | RefuseStore n \<Rightarrow> (RefuseCount n, del_key key s)
      | RefuseCount n \<Rightarrow>
          (case add_to_key (- 1) count_key s of
             None \<Rightarrow> (SaveFailed (OtherError ''value is not an integer or out of range''), s)
           | Some (m, s') \<Rightarrow> (SaveFailed (QuotaExceeded (n - 1)), s'))
      | SaveDone \<Rightarrow> (SaveDone, s)
      | SaveFailed e \<Rightarrow> (SaveFailed e, s))"

text \<open>One command that raises: only the \<open>INCR\<close> has a handler, and the \<open>DEL\<close> in it may raise in turn.\<close>

definition save_refused :: "save_error \<Rightarrow> save_pc \<Rightarrow> save_pc" where
  "save_refused e pc =
     (case pc of
        SaveBegin \<Rightarrow> SaveBegin
      | CountUp \<Rightarrow> UndoStore e
      | SaveDone \<Rightarrow> SaveDone
      | SaveFailed e' \<Rightarrow> SaveFailed e'
      | _ \<Rightarrow> SaveFailed e)"

fun save_stopped :: "save_pc \<Rightarrow> bool" where
  "save_stopped SaveDone = True"
| "save_stopped (SaveFailed e) = True"
| "save_stopped _ = False"

section \<open>Savers together\<close>

text \<open>A history: a saver sends its next command, which may be refused, or time passes.\<close>

datatype save_event = Turn nat "save_error option" | Pass nat

type_synonym save_world = "saver list \<times> snap_server"

definition save_event :: "snap_conf \<Rightarrow> snap_codec \<Rightarrow> save_event \<Rightarrow> save_world \<Rightarrow> save_world" where
  "save_event cf sj ev x =
     (case x of (ws, s) \<Rightarrow>
        (case ev of
           Pass d \<Rightarrow> (ws, pass_time d s)
         | Turn i fault \<Rightarrow>
             if length ws \<le> i then (ws, s)
             else (case fault of
                Some e \<Rightarrow> (ws[i := (ws ! i)\<lparr>sa_pc := save_refused e (sa_pc (ws ! i))\<rparr>], s)
              | None \<Rightarrow>
                  (case save_step cf sj (sa_call (ws ! i)) (sa_pc (ws ! i)) s of
                     (pc, s') \<Rightarrow> (ws[i := (ws ! i)\<lparr>sa_pc := pc\<rparr>], s')))))"

definition save_history :: "snap_conf \<Rightarrow> snap_codec \<Rightarrow> save_event list \<Rightarrow> save_world \<Rightarrow> save_world" where
  "save_history cf sj evs x = foldl (\<lambda>x ev. save_event cf sj ev x) x evs"

section \<open>Reading and the endpoints\<close>

definition raw_text :: "snap_codec \<Rightarrow> snap_value \<Rightarrow> string" where
  "raw_text sj v = (case v of Blob b \<Rightarrow> b | Number n \<Rightarrow> sj_number sj n)"

definition load_snapshot :: "snap_conf \<Rightarrow> snap_codec \<Rightarrow> string \<Rightarrow> snap_server \<Rightarrow> loaded option" where
  "load_snapshot cf sj token s =
     (case vs_keys s (snapshot_key cf token) of
        None \<Rightarrow> None
      | Some (v, e) \<Rightarrow> Some (sj_loads sj (raw_text sj v)))"

datatype snap_reply =
    SnapshotCreated string int
  | SnapshotRestored graph_snapshot
  | SnapshotError nat string
  | SnapshotRefused nat save_error
  | ServerError

definition SAVE_UNAVAILABLE_DETAIL :: string where
  "SAVE_UNAVAILABLE_DETAIL = ''Snapshot could not be saved right now; nothing was stored, please try again shortly''"

text \<open>A refusal carries the exception whose text is the body.  What the endpoint checks before it calls the store, and what it makes of the end of the call.\<close>

definition pre_check :: "snap_conf \<Rightarrow> snap_codec \<Rightarrow> save_call \<Rightarrow> snap_reply option" where
  "pre_check cf sj q =
     (if sf_max_nodes cf < length (sl_nodes q)
      then Some (SnapshotError 422 (''Too many nodes: maximum is '' @ sj_number sj (int (sf_max_nodes cf)))) else None)"

definition save_reply :: "snap_conf \<Rightarrow> save_call \<Rightarrow> save_pc \<Rightarrow> snap_reply option" where
  "save_reply cf q pc =
     (case pc of
        SaveDone \<Rightarrow> Some (SnapshotCreated (sl_token q) (sl_clock q + ttl_seconds cf))
      | SaveFailed e \<Rightarrow>
          Some (case e of
                  Unavailable m \<Rightarrow> SnapshotError 503 SAVE_UNAVAILABLE_DETAIL
                | TooLarge n \<Rightarrow> SnapshotRefused 413 e
                | QuotaExceeded n \<Rightarrow> SnapshotRefused 429 e
                | TooManyNodes n \<Rightarrow> SnapshotRefused 422 e
                | BadLiteral b \<Rightarrow> SnapshotRefused 422 e
                | OtherError m \<Rightarrow> ServerError)
      | _ \<Rightarrow> None)"

definition restore_snapshot :: "snap_conf \<Rightarrow> snap_codec \<Rightarrow> string \<Rightarrow> snap_server \<Rightarrow> snap_reply" where
  "restore_snapshot cf sj token s =
     (case load_snapshot cf sj token s of
        None \<Rightarrow> SnapshotError 404 ''Snapshot not found or expired''
      | Some (LoadedSnapshot g) \<Rightarrow> SnapshotRestored g
      | Some OtherJson \<Rightarrow> ServerError
      | Some NotJson \<Rightarrow> ServerError)"

end
