(* ===== verification/Snapshot_Properties.thy ===== *)
theory Snapshot_Properties
  imports Snapshot_Store
begin

text \<open>
  Properties of the snapshot store: how many snapshots a user can have alive, whatever saves
  interleave and however the server refuses them, and that a save on its own is all or nothing.
\<close>

section \<open>The two families of keys\<close>

lemma snapshot_key_inj [simp]: "snapshot_key cf t = snapshot_key cf t' \<longleftrightarrow> t = t'"
  by (simp add: snapshot_key_def)

lemma user_count_key_inj [simp]: "user_count_key cf u = user_count_key cf u' \<longleftrightarrow> u = u'"
  by (simp add: user_count_key_def)

text \<open>Tokens are URL-safe text, without a colon.\<close>

definition plain_token :: "string \<Rightarrow> bool" where
  "plain_token t \<longleftrightarrow> CHR 0x3A \<notin> set t"

lemma families_apart: "plain_token t \<Longrightarrow> snapshot_key cf t \<noteq> user_count_key cf u"
  by (auto simp: plain_token_def snapshot_key_def user_count_key_def)

section \<open>Savers and their places\<close>

definition saves_for :: "string \<Rightarrow> saver \<Rightarrow> bool" where
  "saves_for u w \<longleftrightarrow> saving_user (sa_call w) = Some u"

definition alive :: "snap_conf \<Rightarrow> snap_server \<Rightarrow> saver \<Rightarrow> bool" where
  "alive cf s w \<longleftrightarrow> vs_keys s (snapshot_key cf (sl_token (sa_call w))) \<noteq> None"

definition expiry_of :: "snap_conf \<Rightarrow> snap_server \<Rightarrow> saver \<Rightarrow> int option" where
  "expiry_of cf s w = (case vs_keys s (snapshot_key cf (sl_token (sa_call w))) of None \<Rightarrow> None | Some (v, e) \<Rightarrow> e)"

text \<open>A saver whose snapshot was counted within the quota, and one that must give its place back.\<close>

fun counted_pc :: "snap_conf \<Rightarrow> save_pc \<Rightarrow> bool" where
  "counted_pc cf (ArmWindow n) \<longleftrightarrow> n \<le> sf_max_per_user cf"
| "counted_pc cf SaveDone \<longleftrightarrow> True"
| "counted_pc cf _ \<longleftrightarrow> False"

fun refusing :: "snap_conf \<Rightarrow> save_pc \<Rightarrow> bool" where
  "refusing cf (ArmWindow n) \<longleftrightarrow> sf_max_per_user cf < n"
| "refusing cf (RefuseStore n) \<longleftrightarrow> True"
| "refusing cf (RefuseCount n) \<longleftrightarrow> True"
| "refusing cf _ \<longleftrightarrow> False"

text \<open>The places at which a snapshot may be in the store.\<close>

fun stored_pc :: "save_pc \<Rightarrow> bool" where
  "stored_pc CountUp \<longleftrightarrow> True"
| "stored_pc (UndoStore e) \<longleftrightarrow> True"
| "stored_pc (ArmWindow n) \<longleftrightarrow> True"
| "stored_pc (RefuseStore n) \<longleftrightarrow> True"
| "stored_pc SaveDone \<longleftrightarrow> True"
| "stored_pc _ \<longleftrightarrow> False"

text \<open>
  What a full server does: it refuses commands that need memory, and answers the others.  And a
  counter does not expire while a saver has yet to give its place on it back.
\<close>

fun refusable :: "save_pc \<Rightarrow> bool" where
  "refusable (UndoStore e) \<longleftrightarrow> False"
| "refusable (ArmWindow n) \<longleftrightarrow> False"
| "refusable (RefuseStore n) \<longleftrightarrow> False"
| "refusable _ \<longleftrightarrow> True"

definition counter_expires :: "snap_conf \<Rightarrow> snap_server \<Rightarrow> nat \<Rightarrow> saver \<Rightarrow> bool" where
  "counter_expires cf s d w \<longleftrightarrow>
     (case vs_keys s (counter_of cf (sa_call w)) of None \<Rightarrow> False | Some (v, e) \<Rightarrow> expired_at (vs_now s + int d) e)"

definition orderly_event :: "snap_conf \<Rightarrow> save_event \<Rightarrow> save_world \<Rightarrow> bool" where
  "orderly_event cf ev x \<longleftrightarrow>
     (case ev of
        Pass d \<Rightarrow> \<forall>w \<in> set (fst x). refusing cf (sa_pc w) \<longrightarrow> \<not> counter_expires cf (snd x) d w
      | Turn i None \<Rightarrow> True
      | Turn i (Some e) \<Rightarrow> i < length (fst x) \<longrightarrow> refusable (sa_pc (fst x ! i)))"

fun orderly :: "snap_conf \<Rightarrow> snap_codec \<Rightarrow> save_event list \<Rightarrow> save_world \<Rightarrow> bool" where
  "orderly cf sj [] x \<longleftrightarrow> True"
| "orderly cf sj (ev # evs) x \<longleftrightarrow> orderly_event cf ev x \<and> orderly cf sj evs (save_event cf sj ev x)"

text \<open>The savers of a user whose snapshot is alive and counted, and those over the quota.\<close>

definition counted :: "snap_conf \<Rightarrow> string \<Rightarrow> save_world \<Rightarrow> nat set" where
  "counted cf u x = {i. i < length (fst x) \<and> saves_for u (fst x ! i) \<and> counted_pc cf (sa_pc (fst x ! i)) \<and> alive cf (snd x) (fst x ! i)}"

definition over :: "snap_conf \<Rightarrow> string \<Rightarrow> save_world \<Rightarrow> nat set" where
  "over cf u x = {i. i < length (fst x) \<and> saves_for u (fst x ! i) \<and> refusing cf (sa_pc (fst x ! i))}"

text \<open>
  The quota of one user.  The counted snapshots are those of the window the counter is in and those
  of the window before it; the counter is at least the number of the first and of the savers over it,
  and outlives every one of the second.
\<close>

definition quota_holds :: "snap_conf \<Rightarrow> string \<Rightarrow> nat set \<Rightarrow> nat set \<Rightarrow> save_world \<Rightarrow> bool" where
  "quota_holds cf u new old x \<longleftrightarrow>
     counted cf u x = new \<union> old \<and> new \<inter> old = {}
     \<and> int (card new) \<le> sf_max_per_user cf \<and> int (card old) \<le> sf_max_per_user cf
     \<and> (vs_now (snd x) < ttl_seconds cf \<longrightarrow> old = {})
     \<and> (case vs_keys (snd x) (user_count_key cf u) of
          None \<Rightarrow> new = {} \<and> over cf u x = {}
        | Some (Number n, e) \<Rightarrow> int (card new + card (over cf u x)) \<le> n
            \<and> (case e of None \<Rightarrow> True
               | Some t \<Rightarrow> vs_now (snd x) < t \<and> ttl_seconds cf \<le> t
                   \<and> (\<forall>i \<in> old. \<exists>t'. expiry_of cf (snd x) (fst x ! i) = Some t' \<and> t' \<le> t))
        | Some (Blob b, e) \<Rightarrow> False)"

definition places_ok :: "snap_conf \<Rightarrow> save_world \<Rightarrow> bool" where
  "places_ok cf x \<longleftrightarrow> 0 \<le> vs_now (snd x)
     \<and> distinct (map (sl_token \<circ> sa_call) (fst x)) \<and> (\<forall>w \<in> set (fst x). plain_token (sl_token (sa_call w)))
     \<and> (\<forall>w \<in> set (fst x). sa_pc w = StoreAnonymous \<longrightarrow> saving_user (sa_call w) = None)
     \<and> (\<forall>w \<in> set (fst x). alive cf (snd x) w \<longrightarrow> stored_pc (sa_pc w)
          \<and> (\<exists>t. expiry_of cf (snd x) w = Some t \<and> vs_now (snd x) < t \<and> t \<le> vs_now (snd x) + ttl_seconds cf))"

section \<open>One event\<close>

lemmas key_op_defs = set_key_def del_key_def add_to_key_def expire_nx_def

lemma step_frame:
  assumes "save_step cf sj q pc s = (pc', s')"
  shows "vs_now s' = vs_now s"
    and "k \<noteq> snapshot_key cf (sl_token q) \<Longrightarrow> k \<noteq> counter_of cf q \<Longrightarrow> vs_keys s' k = vs_keys s k"
  using assms by (auto simp: save_step_def Let_def key_op_defs split: save_pc.splits option.splits snap_value.splits prod.splits if_splits)

text \<open>What a command does to the saver's own snapshot.\<close>

lemma step_own_key:
  assumes "save_step cf sj q pc s = (pc', s')" and plain: "plain_token (sl_token q)"
  shows "vs_keys s' (snapshot_key cf (sl_token q)) =
    (case pc of
       StoreAnonymous \<Rightarrow> Some (Blob (snap_payload sj q), Some (vs_now s + ttl_seconds cf))
     | StoreSnapshot \<Rightarrow> Some (Blob (snap_payload sj q), Some (vs_now s + ttl_seconds cf))
     | UndoStore e \<Rightarrow> None
     | RefuseStore n \<Rightarrow> None
     | _ \<Rightarrow> vs_keys s (snapshot_key cf (sl_token q)))"
  using assms(1) families_apart [OF plain]
  by (auto simp: save_step_def Let_def key_op_defs counter_of_def
      split: save_pc.splits option.splits snap_value.splits prod.splits if_splits)

lemma distinct_tokens:
  "distinct (map (sl_token \<circ> sa_call) ws) \<Longrightarrow> i < length ws \<Longrightarrow> j < length ws \<Longrightarrow> i \<noteq> j \<Longrightarrow>
   sl_token (sa_call (ws ! i)) \<noteq> sl_token (sa_call (ws ! j))"
  by (auto simp: distinct_conv_nth)

text \<open>The other savers see nothing of a command.\<close>

lemma step_others:
  assumes ok: "places_ok cf (ws, s)" and st: "save_step cf sj (sa_call (ws ! i)) pc s = (pc', s')"
    and ij: "i < length ws" "j < length ws" "i \<noteq> j"
  shows "vs_keys s' (snapshot_key cf (sl_token (sa_call (ws ! j)))) = vs_keys s (snapshot_key cf (sl_token (sa_call (ws ! j))))"
proof (rule step_frame(2) [OF st])
  show "snapshot_key cf (sl_token (sa_call (ws ! j))) \<noteq> snapshot_key cf (sl_token (sa_call (ws ! i)))"
    using distinct_tokens [of ws j i] ok ij by (simp add: places_ok_def)
  show "snapshot_key cf (sl_token (sa_call (ws ! j))) \<noteq> counter_of cf (sa_call (ws ! i))"
    using ok ij unfolding counter_of_def places_ok_def by (intro families_apart) simp
qed

lemma turn_places:
  assumes ttl: "0 < ttl_seconds cf" and ok: "places_ok cf (ws, s)" and i: "i < length ws"
    and st: "save_step cf sj (sa_call (ws ! i)) (sa_pc (ws ! i)) s = (pc', s')"
  shows "places_ok cf (ws[i := (ws ! i)\<lparr>sa_pc := pc'\<rparr>], s')"
proof -
  let ?w = "ws ! i" and ?ws = "ws[i := (ws ! i)\<lparr>sa_pc := pc'\<rparr>]"
  have now: "vs_now s' = vs_now s" by (rule step_frame(1) [OF st])
  have calls: "map (sl_token \<circ> sa_call) ?ws = map (sl_token \<circ> sa_call) ws"
    using i by (simp add: map_update list_update_same_conv)
  have plain: "plain_token (sl_token (sa_call ?w))" using ok i by (simp add: places_ok_def)
  note own = step_own_key [OF st plain]
  have mine: "stored_pc pc' \<and> (\<exists>t. expiry_of cf s' ?w = Some t \<and> vs_now s < t \<and> t \<le> vs_now s + ttl_seconds cf)" if "alive cf s' ?w"
  proof -
    have old: "alive cf s ?w \<Longrightarrow> stored_pc (sa_pc ?w) \<and> (\<exists>t. expiry_of cf s ?w = Some t \<and> vs_now s < t \<and> t \<le> vs_now s + ttl_seconds cf)"
      using ok i by (simp add: places_ok_def)
    show ?thesis
    proof (cases "sa_pc ?w = StoreAnonymous \<or> sa_pc ?w = StoreSnapshot")
      case True
      then have "pc' = SaveDone \<or> pc' = CountUp" using st by (auto simp: save_step_def Let_def)
      moreover have "expiry_of cf s' ?w = Some (vs_now s + ttl_seconds cf)" using own True by (auto simp: expiry_of_def)
      ultimately show ?thesis using ttl by auto
    next
      case False
      then have same: "vs_keys s' (snapshot_key cf (sl_token (sa_call ?w))) = vs_keys s (snapshot_key cf (sl_token (sa_call ?w)))"
        and not_gone: "(\<forall>e. sa_pc ?w \<noteq> UndoStore e) \<and> (\<forall>n. sa_pc ?w \<noteq> RefuseStore n)"
        using own that by (auto simp: alive_def split: save_pc.splits)
      have "alive cf s ?w" "expiry_of cf s' ?w = expiry_of cf s ?w" using that same by (simp_all add: alive_def expiry_of_def)
      then have o: "stored_pc (sa_pc ?w)" "\<exists>t. expiry_of cf s' ?w = Some t \<and> vs_now s < t \<and> t \<le> vs_now s + ttl_seconds cf"
        using old by simp_all
      have "stored_pc pc'" using o(1) not_gone st
        by (cases "sa_pc ?w") (auto simp: save_step_def Let_def split: option.splits prod.splits if_splits)
      then show ?thesis using o(2) by simp
    qed
  qed
  have all: "alive cf s' (?ws ! j) \<longrightarrow> stored_pc (sa_pc (?ws ! j))
      \<and> (\<exists>t. expiry_of cf s' (?ws ! j) = Some t \<and> vs_now s < t \<and> t \<le> vs_now s + ttl_seconds cf)" if j: "j < length ws" for j
  proof (cases "j = i")
    case True
    then show ?thesis using mine i by (simp add: alive_def expiry_of_def)
  next
    case False
    then show ?thesis using step_others [OF ok st i j] ok j by (auto simp: places_ok_def alive_def expiry_of_def)
  qed
  have plains: "\<forall>w \<in> set ?ws. plain_token (sl_token (sa_call w))"
    using ok i by (auto simp: places_ok_def set_update_memI dest!: set_update_subset_insert [THEN subsetD])
  have anon: "sa_pc (?ws ! j) = StoreAnonymous \<longrightarrow> saving_user (sa_call (?ws ! j)) = None" if j: "j < length ws" for j
  proof (cases "j = i")
    case True
    then show ?thesis using st i
      by (auto simp: save_step_def Let_def split: save_pc.splits option.splits snap_value.splits prod.splits if_splits)
  next
    case False
    then show ?thesis using ok j by (auto simp: places_ok_def)
  qed
  show ?thesis
    using ok calls plains all anon by (auto simp: places_ok_def now in_set_conv_nth)
qed

section \<open>The quota through one command\<close>

lemma turn_sets:
  assumes ok: "places_ok cf (ws, s)" and i: "i < length ws"
    and st: "save_step cf sj (sa_call (ws ! i)) (sa_pc (ws ! i)) s = (pc', s')"
  defines "x' \<equiv> (ws[i := (ws ! i)\<lparr>sa_pc := pc'\<rparr>], s')"
  shows "counted cf u x' = (counted cf u (ws, s) - {i}) \<union> (if saves_for u (ws ! i) \<and> counted_pc cf pc' \<and> alive cf s' (ws ! i) then {i} else {})"
    and "over cf u x' = (over cf u (ws, s) - {i}) \<union> (if saves_for u (ws ! i) \<and> refusing cf pc' then {i} else {})"
    and "j < length ws \<Longrightarrow> j \<noteq> i \<Longrightarrow> expiry_of cf (snd x') (fst x' ! j) = expiry_of cf s (ws ! j)"
proof -
  have a: "alive cf s' ((ws ! i)\<lparr>sa_pc := pc'\<rparr>) = alive cf s' (ws ! i)" "saves_for u ((ws ! i)\<lparr>sa_pc := pc'\<rparr>) = saves_for u (ws ! i)"
    by (simp_all add: alive_def saves_for_def)
  have o: "alive cf s' (ws ! j) = alive cf s (ws ! j)" "expiry_of cf s' (ws ! j) = expiry_of cf s (ws ! j)"
    if "j < length ws" "j \<noteq> i" for j
    using step_others [OF ok st i that(1)] that(2) by (simp_all add: alive_def expiry_of_def)
  show "counted cf u x' = (counted cf u (ws, s) - {i}) \<union> (if saves_for u (ws ! i) \<and> counted_pc cf pc' \<and> alive cf s' (ws ! i) then {i} else {})"
    using i a o by (auto simp: counted_def x'_def nth_list_update split: if_splits)
  show "over cf u x' = (over cf u (ws, s) - {i}) \<union> (if saves_for u (ws ! i) \<and> refusing cf pc' then {i} else {})"
    using i a by (auto simp: over_def x'_def nth_list_update split: if_splits)
  show "expiry_of cf (snd x') (fst x' ! j) = expiry_of cf s (ws ! j)" if "j < length ws" "j \<noteq> i"
    using o that by (simp add: x'_def)
qed

text \<open>Nothing the quota speaks of has changed.\<close>

lemma quota_same:
  assumes q: "quota_holds cf u new old x" and "counted cf u x' = counted cf u x" "over cf u x' = over cf u x"
    and "vs_keys (snd x') (user_count_key cf u) = vs_keys (snd x) (user_count_key cf u)" "vs_now (snd x') = vs_now (snd x)"
    and "\<And>j. j \<in> old \<Longrightarrow> expiry_of cf (snd x') (fst x' ! j) = expiry_of cf (snd x) (fst x ! j)"
  shows "quota_holds cf u new old x'"
  using assms(1-5) assms(6) unfolding quota_holds_def by (auto split: option.splits snap_value.splits)

lemma counted_index: "i \<in> counted cf u x \<Longrightarrow> i < length (fst x)"
  by (simp add: counted_def)

lemma finite_over [simp]: "finite (over cf u x)"
  by (rule finite_subset [of _ "{..<length (fst x)}"]) (auto simp: over_def)

lemma finite_counted [simp]: "finite (counted cf u x)"
  by (rule finite_subset [of _ "{..<length (fst x)}"]) (auto simp: counted_def)

lemma turn_quota_other:
  assumes ok: "places_ok cf (ws, s)" and q: "quota_holds cf u new old (ws, s)" and i: "i < length ws" and u: "u \<noteq> []"
    and st: "save_step cf sj (sa_call (ws ! i)) (sa_pc (ws ! i)) s = (pc', s')" and other: "\<not> saves_for u (ws ! i)"
  shows "quota_holds cf u new old (ws[i := (ws ! i)\<lparr>sa_pc := pc'\<rparr>], s')"
proof (rule quota_same [OF q])
  have notin: "i \<notin> counted cf u (ws, s)" "i \<notin> over cf u (ws, s)" using other by (simp_all add: counted_def over_def)
  show "counted cf u (ws[i := (ws ! i)\<lparr>sa_pc := pc'\<rparr>], s') = counted cf u (ws, s)"
    "over cf u (ws[i := (ws ! i)\<lparr>sa_pc := pc'\<rparr>], s') = over cf u (ws, s)"
    unfolding turn_sets [OF ok i st] using other notin by simp_all
  have "user_count_key cf u \<noteq> counter_of cf (sa_call (ws ! i))"
    using other u by (auto simp: counter_of_def saves_for_def split: option.splits)
  moreover have "user_count_key cf u \<noteq> snapshot_key cf (sl_token (sa_call (ws ! i)))"
    using families_apart ok i unfolding places_ok_def by (metis fst_conv nth_mem)
  ultimately show "vs_keys (snd (ws[i := (ws ! i)\<lparr>sa_pc := pc'\<rparr>], s')) (user_count_key cf u) = vs_keys (snd (ws, s)) (user_count_key cf u)"
    using step_frame(2) [OF st, of "user_count_key cf u"] by simp
  show "vs_now (snd (ws[i := (ws ! i)\<lparr>sa_pc := pc'\<rparr>], s')) = vs_now (snd (ws, s))" using step_frame(1) [OF st] by simp
  fix j
  assume "j \<in> old"
  then have "j \<in> counted cf u (ws, s)" using q by (auto simp: quota_holds_def)
  then show "expiry_of cf (snd (ws[i := (ws ! i)\<lparr>sa_pc := pc'\<rparr>], s')) (fst (ws[i := (ws ! i)\<lparr>sa_pc := pc'\<rparr>], s') ! j)
      = expiry_of cf (snd (ws, s)) (fst (ws, s) ! j)"
    using turn_sets(3) [OF ok i st, of j] notin counted_index by fastforce
qed

text \<open>The counter of the quota, when there is one.\<close>

lemma quota_counter:
  assumes "quota_holds cf u new old x"
  shows "vs_keys (snd x) (user_count_key cf u) \<noteq> Some (Blob b, e)"
    and "vs_keys (snd x) (user_count_key cf u) = None \<Longrightarrow> new = {} \<and> over cf u x = {}"
    and "vs_keys (snd x) (user_count_key cf u) = Some (Number n, e) \<Longrightarrow> int (card new + card (over cf u x)) \<le> n"
    and "finite new" "finite old"
proof -
  have "counted cf u x = new \<union> old" using assms by (simp add: quota_holds_def)
  then show "finite new" "finite old" using finite_counted [of cf u x] by simp_all
qed (use assms in \<open>auto simp: quota_holds_def split: option.splits snap_value.splits\<close>)

text \<open>A counter that counts for the first time, or once more, with the sets that follow.\<close>

lemma quota_counts:
  assumes q: "quota_holds cf u new old x" and now: "vs_now (snd x') = vs_now (snd x)"
    and ck: "add_to_key 1 (user_count_key cf u) (snd x) = Some (n, snd x')"
    and sets: "counted cf u x' = new' \<union> old" "new' \<inter> old = {}" "finite new'"
      "card new' + card (over cf u x') \<le> card new + card (over cf u x) + 1" "int (card new') \<le> sf_max_per_user cf"
    and exp: "\<And>j. j \<in> old \<Longrightarrow> expiry_of cf (snd x') (fst x' ! j) = expiry_of cf (snd x) (fst x ! j)"
  shows "quota_holds cf u new' old x'"
proof (cases "vs_keys (snd x) (user_count_key cf u)")
  case None
  then have "snd x' = set_key (user_count_key cf u) (Number 1, None) (snd x)" using ck by (simp add: add_to_key_def)
  then have "vs_keys (snd x') (user_count_key cf u) = Some (Number 1, None)" by (simp add: set_key_def)
  moreover have "card new' + card (over cf u x') \<le> 1" using sets(4) quota_counter(2) [OF q None] by simp
  ultimately show ?thesis using q sets now by (simp add: quota_holds_def)
next
  case (Some v)
  then obtain m e where v: "v = (Number m, e)" using quota_counter(1) [OF q] by (metis snap_value.exhaust surj_pair)
  then have "snd x' = set_key (user_count_key cf u) (Number (m + 1), e) (snd x)" using ck Some v by (auto simp: add_to_key_def)
  then have "vs_keys (snd x') (user_count_key cf u) = Some (Number (m + 1), e)" by (simp add: set_key_def)
  moreover have "int (card new' + card (over cf u x')) \<le> m + 1" using sets(4) quota_counter(3) [OF q] Some v by fastforce
  ultimately show ?thesis using q sets now exp Some v by (auto simp: quota_holds_def split: option.splits)
qed

lemma turn_quota_own:
  assumes ttl: "0 < ttl_seconds cf" and ok: "places_ok cf (ws, s)" and q: "quota_holds cf u new old (ws, s)" and i: "i < length ws"
    and st: "save_step cf sj (sa_call (ws ! i)) (sa_pc (ws ! i)) s = (pc', s')" and mine: "saves_for u (ws ! i)"
  shows "\<exists>new' old'. quota_holds cf u new' old' (ws[i := (ws ! i)\<lparr>sa_pc := pc'\<rparr>], s')"
proof -
  let ?x = "(ws, s)" and ?x' = "(ws[i := (ws ! i)\<lparr>sa_pc := pc'\<rparr>], s')" and ?w = "ws ! i"
  have ck: "counter_of cf (sa_call ?w) = user_count_key cf u" using mine by (simp add: counter_of_def saves_for_def)
  have apart: "user_count_key cf u \<noteq> snapshot_key cf (sl_token (sa_call ?w))"
    using families_apart ok i unfolding places_ok_def by (metis fst_conv nth_mem)
  have plain: "plain_token (sl_token (sa_call ?w))" using ok i by (simp add: places_ok_def)
  have now: "vs_now s' = vs_now s" by (rule step_frame(1) [OF st])
  note own = step_own_key [OF st plain]
  note sets = turn_sets(1,2) [OF ok i st, where u = u]
  have live: "stored_pc (sa_pc ?w)" if "alive cf s ?w" using ok i that by (simp add: places_ok_def)
  have exp_other: "expiry_of cf s' (fst ?x' ! j) = expiry_of cf s (ws ! j)" if "j \<in> counted cf u ?x" "j \<noteq> i" for j
    using turn_sets(3) [OF ok i st, of j] counted_index [OF that(1)] that(2) by simp
  have exp_same: "expiry_of cf s' (fst ?x' ! j) = expiry_of cf s (ws ! j)"
    if "j \<in> counted cf u ?x" and eq: "vs_keys s' (snapshot_key cf (sl_token (sa_call ?w))) = vs_keys s (snapshot_key cf (sl_token (sa_call ?w)))" for j
  proof (cases "j = i")
    case True
    then show ?thesis using eq i by (simp add: expiry_of_def)
  next
    case False
    then show ?thesis using exp_other that(1) by blast
  qed
  have in_c: "i \<in> counted cf u ?x \<longleftrightarrow> counted_pc cf (sa_pc ?w) \<and> alive cf s ?w" using mine i by (simp add: counted_def)
  have in_o: "i \<in> over cf u ?x \<longleftrightarrow> refusing cf (sa_pc ?w)" using mine i by (simp add: over_def)
  have old_c: "old \<subseteq> counted cf u ?x" using q by (auto simp: quota_holds_def)
  text \<open>The commands that leave the counter alone.\<close>
  have quiet: ?thesis if "vs_keys s' (user_count_key cf u) = vs_keys s (user_count_key cf u)"
    "counted_pc cf pc' \<and> alive cf s' ?w \<longleftrightarrow> i \<in> counted cf u ?x" "refusing cf pc' \<longleftrightarrow> i \<in> over cf u ?x"
    "i \<in> counted cf u ?x \<longrightarrow> vs_keys s' (snapshot_key cf (sl_token (sa_call ?w))) = vs_keys s (snapshot_key cf (sl_token (sa_call ?w)))"
  proof -
    have "quota_holds cf u new old ?x'"
    proof (rule quota_same [OF q])
      show "counted cf u ?x' = counted cf u ?x" "over cf u ?x' = over cf u ?x" unfolding sets using that mine by auto
      show "expiry_of cf (snd ?x') (fst ?x' ! j) = expiry_of cf (snd ?x) (fst ?x ! j)" if "j \<in> old" for j
        using exp_other [of j] exp_same [of j] old_c that \<open>i \<in> counted cf u ?x \<longrightarrow> _\<close> by (cases "j = i") auto
    qed (use that now in simp_all)
    then show ?thesis by blast
  qed
  show ?thesis
  proof (cases "sa_pc ?w")
    case SaveBegin
    then have "\<not> alive cf s ?w" using live by auto
    then show ?thesis
      using st SaveBegin own in_c in_o
      by (intro quiet) (auto simp: save_step_def Let_def alive_def split: if_splits)
  next
    case StoreAnonymous
    then show ?thesis using ok i mine by (simp add: places_ok_def saves_for_def)
  next
    case ReadCount
    then show ?thesis
      using st own in_c in_o by (intro quiet) (auto simp: save_step_def Let_def split: if_splits option.splits prod.splits snap_value.splits)
  next
    case StoreSnapshot
    then have n: "\<not> alive cf s ?w" using live by auto
    have "pc' = CountUp" "vs_keys s' (user_count_key cf u) = vs_keys s (user_count_key cf u)"
      using st StoreSnapshot apart by (auto simp: save_step_def Let_def set_key_def)
    then show ?thesis using StoreSnapshot in_c in_o by (intro quiet) simp_all
  next
    case CountUp
    obtain n where n: "add_to_key 1 (user_count_key cf u) s = Some (n, s')" and pc': "pc' = ArmWindow n"
    proof (cases "add_to_key 1 (user_count_key cf u) s")
      case None
      then show thesis using quota_counter(1) [OF q] by (fastforce simp: add_to_key_def split: option.splits snap_value.splits)
    next
      case (Some y)
      then show thesis using that st CountUp ck by (auto simp: save_step_def Let_def split: prod.splits)
    qed
    have notin: "i \<notin> new" "i \<notin> old" using q in_c CountUp by (auto simp: quota_holds_def)
    have noto: "i \<notin> over cf u ?x" using in_o CountUp by simp
    let ?add = "counted_pc cf pc' \<and> alive cf s' ?w"
    let ?new = "if ?add then insert i new else new"
    have c: "counted cf u ?x = new \<union> old" "new \<inter> old = {}" using q by (simp_all add: quota_holds_def)
    have c': "counted cf u ?x' = ?new \<union> old" unfolding sets c using mine notin by auto
    have o': "over cf u ?x' = (if refusing cf pc' then insert i (over cf u ?x) else over cf u ?x)" unfolding sets using mine noto by auto
    have le: "int (card new + card (over cf u ?x)) + 1 \<le> n"
      using n quota_counter(1-3) [OF q] by (auto simp: add_to_key_def split: option.splits snap_value.splits)
    have "quota_holds cf u ?new old ?x'"
    proof (rule quota_counts [OF q])
      show "add_to_key 1 (user_count_key cf u) (snd ?x) = Some (n, snd ?x')" using n by simp
      show "card ?new + card (over cf u ?x') \<le> card new + card (over cf u ?x) + 1"
        unfolding o' using pc' notin noto quota_counter(4) [OF q] by (auto simp: card_insert_if)
      show "int (card ?new) \<le> sf_max_per_user cf"
        using le pc' notin quota_counter(4) [OF q] q by (auto simp: quota_holds_def card_insert_if)
      show "expiry_of cf (snd ?x') (fst ?x' ! j) = expiry_of cf (snd ?x) (fst ?x ! j)" if "j \<in> old" for j
        using exp_other [of j] old_c that notin by (cases "j = i") auto
    qed (use now c' c notin quota_counter(4) [OF q] in auto)
    then show ?thesis by blast
  next
    case (UndoStore e)
    have "pc' = SaveFailed e" "vs_keys s' (user_count_key cf u) = vs_keys s (user_count_key cf u)"
      using st UndoStore apart by (auto simp: save_step_def Let_def del_key_def)
    then show ?thesis using UndoStore in_c in_o by (intro quiet) simp_all
  next
    case (ArmWindow n)
    have s': "s' = expire_nx (user_count_key cf u) (ttl_seconds cf) s" and pc': "pc' = (if sf_max_per_user cf < n then RefuseStore n else SaveDone)"
      using st ArmWindow ck by (auto simp: save_step_def Let_def)
    have own': "vs_keys s' (snapshot_key cf (sl_token (sa_call ?w))) = vs_keys s (snapshot_key cf (sl_token (sa_call ?w)))"
      using own ArmWindow by simp
    then have "alive cf s' ?w = alive cf s ?w" by (simp add: alive_def)
    then have c: "counted cf u ?x' = counted cf u ?x" and o: "over cf u ?x' = over cf u ?x"
      unfolding sets using mine in_c in_o ArmWindow pc' by (auto split: if_splits)
    have e: "expiry_of cf s' (fst ?x' ! j) = expiry_of cf s (ws ! j)" if "j \<in> old" for j using exp_same own' old_c that by blast
    show ?thesis
    proof (cases "vs_keys s (user_count_key cf u)")
      case None
      then have "s' = s" using s' by (simp add: expire_nx_def)
      then show ?thesis using quota_same [OF q c o] e by auto
    next
      case (Some v)
      then obtain m x where v: "v = (Number m, x)" using quota_counter(1) [OF q] by (metis snap_value.exhaust surj_pair snd_conv)
      show ?thesis
      proof (cases x)
        case (Some t)
        then have "s' = s" using s' \<open>vs_keys s (user_count_key cf u) = Some v\<close> v by (simp add: expire_nx_def)
        then show ?thesis using quota_same [OF q c o] e by auto
      next
        case None
        then have k: "vs_keys s' (user_count_key cf u) = Some (Number m, Some (vs_now s + ttl_seconds cf))"
          using s' \<open>vs_keys s (user_count_key cf u) = Some v\<close> v by (simp add: expire_nx_def set_key_def)
        have "\<exists>t'. expiry_of cf s' (fst ?x' ! j) = Some t' \<and> t' \<le> vs_now s + ttl_seconds cf" if j: "j \<in> old" for j
        proof -
          have "alive cf s (ws ! j)" "j < length ws" using old_c j by (auto simp: counted_def)
          then show ?thesis using ok e [OF j] by (fastforce simp: places_ok_def)
        qed
        then have "quota_holds cf u new old ?x'"
          using q c o k now ttl ok \<open>vs_keys s (user_count_key cf u) = Some v\<close> v None
          by (simp add: quota_holds_def places_ok_def)
        then show ?thesis by blast
      qed
    qed
  next
    case (RefuseStore n)
    have "pc' = RefuseCount n" "vs_keys s' (user_count_key cf u) = vs_keys s (user_count_key cf u)"
      using st RefuseStore apart by (auto simp: save_step_def Let_def del_key_def)
    then show ?thesis using RefuseStore in_c in_o by (intro quiet) simp_all
  next
    case (RefuseCount n)
    then have ino: "i \<in> over cf u ?x" using in_o by simp
    then obtain m x where k: "vs_keys s (user_count_key cf u) = Some (Number m, x)"
      using quota_counter(1,2) [OF q] by (metis empty_iff not_None_eq snap_value.exhaust snd_conv surj_pair)
    have s': "s' = set_key (user_count_key cf u) (Number (m - 1), x) s" and pc': "\<exists>e. pc' = SaveFailed e"
      using st RefuseCount ck k by (auto simp: save_step_def Let_def add_to_key_def)
    have c: "counted cf u ?x' = counted cf u ?x" unfolding sets using in_c RefuseCount pc' by auto
    have o: "over cf u ?x' = over cf u ?x - {i}" unfolding sets using pc' by auto
    have "card (over cf u ?x') = card (over cf u ?x) - 1" "0 < card (over cf u ?x)"
      unfolding o using ino by (simp_all add: card_gt_0_iff) blast
    moreover have "vs_keys s' (user_count_key cf u) = Some (Number (m - 1), x)" using s' by (simp add: set_key_def)
    moreover have "expiry_of cf s' (fst ?x' ! j) = expiry_of cf s (ws ! j)" if "j \<in> old" for j
      using exp_other [of j] old_c that in_c RefuseCount by (cases "j = i") auto
    ultimately have "quota_holds cf u new old ?x'"
      using q c now k quota_counter(3) [OF q] by (auto simp: quota_holds_def split: option.splits)
    then show ?thesis by blast
  next
    case SaveDone
    then show ?thesis using st own in_c in_o by (intro quiet) (auto simp: save_step_def alive_def Let_def)
  next
    case (SaveFailed e)
    then show ?thesis using st own in_c in_o by (intro quiet) (auto simp: save_step_def Let_def)
  qed
qed

section \<open>A refused command, and time\<close>

lemma refused_ok:
  fixes e :: save_error
  assumes ok: "places_ok cf (ws, s)" and q: "quota_holds cf u new old (ws, s)" and i: "i < length ws"
    and ref: "refusable (sa_pc (ws ! i))"
  defines "ws' \<equiv> ws[i := (ws ! i)\<lparr>sa_pc := save_refused e (sa_pc (ws ! i))\<rparr>]"
  shows "places_ok cf (ws', s) \<and> quota_holds cf u new old (ws', s)"
proof -
  let ?pc = "save_refused e (sa_pc (ws ! i))"
  have nth: "ws' ! j = (if j = i then (ws ! i)\<lparr>sa_pc := ?pc\<rparr> else ws ! j)" if "j < length ws" for j
    using that i by (simp add: ws'_def)
  have len: "length ws' = length ws" by (simp add: ws'_def)
  have calls: "sa_call (ws' ! j) = sa_call (ws ! j)" if "j < length ws" for j using nth [OF that] by simp
  have same: "alive cf s (ws' ! j) = alive cf s (ws ! j)" "expiry_of cf s (ws' ! j) = expiry_of cf s (ws ! j)"
    "saves_for u (ws' ! j) = saves_for u (ws ! j)" if "j < length ws" for j
    using calls [OF that] by (simp_all add: alive_def expiry_of_def saves_for_def)
  have pcs: "stored_pc (sa_pc (ws ! i)) \<Longrightarrow> stored_pc ?pc" "?pc \<noteq> StoreAnonymous \<or> sa_pc (ws ! i) = StoreAnonymous"
    "counted_pc cf ?pc = counted_pc cf (sa_pc (ws ! i))" "refusing cf ?pc \<Longrightarrow> refusing cf (sa_pc (ws ! i))"
    using ref by (cases "sa_pc (ws ! i)"; simp add: save_refused_def)+
  have tokens: "map (sl_token \<circ> sa_call) ws' = map (sl_token \<circ> sa_call) ws"
    by (rule nth_equalityI) (simp_all add: len calls)
  have "places_ok cf (ws', s)"
    unfolding places_ok_def fst_conv snd_conv
  proof (intro conjI ballI)
    show "0 \<le> vs_now s" "distinct (map (sl_token \<circ> sa_call) ws')" using ok unfolding tokens by (simp_all add: places_ok_def)
    fix w
    assume "w \<in> set ws'"
    then obtain j where j: "j < length ws" "w = ws' ! j" by (auto simp: in_set_conv_nth len)
    have okj: "plain_token (sl_token (sa_call (ws ! j)))" "sa_pc (ws ! j) = StoreAnonymous \<longrightarrow> saving_user (sa_call (ws ! j)) = None"
      "alive cf s (ws ! j) \<longrightarrow> stored_pc (sa_pc (ws ! j)) \<and> (\<exists>t. expiry_of cf s (ws ! j) = Some t \<and> vs_now s < t \<and> t \<le> vs_now s + ttl_seconds cf)"
      using ok j(1) by (simp_all add: places_ok_def)
    show "plain_token (sl_token (sa_call w))" using okj(1) calls [OF j(1)] j(2) by simp
    show "sa_pc w = StoreAnonymous \<longrightarrow> saving_user (sa_call w) = None"
      using okj(2) calls [OF j(1)] nth [OF j(1)] pcs(2) j(2) by (cases "j = i") auto
    show "alive cf s w \<longrightarrow> stored_pc (sa_pc w) \<and> (\<exists>t. expiry_of cf s w = Some t \<and> vs_now s < t \<and> t \<le> vs_now s + ttl_seconds cf)"
      using okj(3) same [OF j(1)] nth [OF j(1)] pcs(1) j(2) by (cases "j = i") auto
  qed
  moreover have "counted cf u (ws', s) = counted cf u (ws, s)"
  proof -
    have "counted_pc cf (sa_pc (ws' ! j)) = counted_pc cf (sa_pc (ws ! j))" if "j < length ws" for j
      using nth [OF that] pcs(3) by (cases "j = i") simp_all
    then show ?thesis using same by (auto simp: counted_def len)
  qed
  moreover have sub: "over cf u (ws', s) \<subseteq> over cf u (ws, s)"
  proof -
    have "refusing cf (sa_pc (ws' ! j)) \<Longrightarrow> refusing cf (sa_pc (ws ! j))" if "j < length ws" for j
      using nth [OF that] pcs(4) by (cases "j = i") simp_all
    then show ?thesis using same(3) by (auto simp: over_def len)
  qed
  moreover have "card (over cf u (ws', s)) \<le> card (over cf u (ws, s))" by (rule card_mono [OF _ sub]) simp
  moreover have "expiry_of cf s (ws' ! j) = expiry_of cf s (ws ! j)" if "j \<in> old" for j
  proof -
    have "j \<in> counted cf u (ws, s)" using q that by (auto simp: quota_holds_def)
    then show ?thesis using same(2) counted_index by fastforce
  qed
  ultimately show ?thesis using q by (auto simp: quota_holds_def split: option.splits snap_value.splits)
qed

lemma pass_keys: "vs_keys (pass_time d s) k =
    (case vs_keys s k of None \<Rightarrow> None | Some (v, e) \<Rightarrow> if expired_at (vs_now s + int d) e then None else Some (v, e))"
  by (simp add: pass_time_def Let_def)

lemma pass_now [simp]: "vs_now (pass_time d s) = vs_now s + int d"
  by (simp add: pass_time_def Let_def)

lemma pass_alive: "alive cf (pass_time d s) w \<Longrightarrow> alive cf s w \<and> expiry_of cf (pass_time d s) w = expiry_of cf s w
    \<and> \<not> expired_at (vs_now s + int d) (expiry_of cf s w)"
  by (auto simp: alive_def expiry_of_def pass_keys split: option.splits if_splits)

lemma pass_ok:
  assumes ok: "places_ok cf (ws, s)" and q: "quota_holds cf u new old (ws, s)"
    and quiet: "orderly_event cf (Pass d) (ws, s)"
  shows "places_ok cf (ws, pass_time d s) \<and> (\<exists>new' old'. quota_holds cf u new' old' (ws, pass_time d s))"
proof
  let ?s = "pass_time d s"
  show "places_ok cf (ws, ?s)"
    using ok pass_alive [of cf d s] unfolding places_ok_def by (fastforce simp: expired_at_def)
  let ?ck = "user_count_key cf u"
  have c: "counted cf u (ws, s) = new \<union> old" "new \<inter> old = {}" using q by (simp_all add: quota_holds_def)
  have o: "over cf u (ws, ?s) = over cf u (ws, s)" by (simp add: over_def)
  let ?live = "{j. j < length ws \<and> alive cf ?s (ws ! j)}"
  have c': "counted cf u (ws, ?s) = (new \<inter> ?live) \<union> (old \<inter> ?live)"
    using c(1) pass_alive [of cf d s] by (auto simp: counted_def)
  have le: "card (new \<inter> ?live) \<le> card new" "card (old \<inter> ?live) \<le> card old"
    using quota_counter(4,5) [OF q] by (simp_all add: card_mono)
  show "\<exists>new' old'. quota_holds cf u new' old' (ws, ?s)"
  proof (cases "vs_keys s ?ck")
    case None
    then have "quota_holds cf u (new \<inter> ?live) (old \<inter> ?live) (ws, ?s)"
      using q c' c(2) o le by (auto simp: quota_holds_def pass_keys)
    then show ?thesis by blast
  next
    case (Some v)
    then obtain n e where v: "v = (Number n, e)" using quota_counter(1) [OF q] by (metis snap_value.exhaust snd_conv surj_pair)
    have n: "int (card new + card (over cf u (ws, s))) \<le> n" using quota_counter(3) [OF q] Some v by simp
    show ?thesis
    proof (cases "expired_at (vs_now s + int d) e")
      case False
      have "\<exists>t'. expiry_of cf ?s (ws ! j) = Some t' \<and> t' \<le> t" if "e = Some t" "j \<in> old \<inter> ?live" for t j
        using q Some v that pass_alive [of cf d s "ws ! j"] by (simp add: quota_holds_def)
      moreover have "vs_now ?s < t \<and> ttl_seconds cf \<le> t" if "e = Some t" for t
        using False q Some v that by (simp add: expired_at_def quota_holds_def)
      ultimately have "quota_holds cf u (new \<inter> ?live) (old \<inter> ?live) (ws, ?s)"
        using q c' c(2) o le n Some v False by (auto simp: quota_holds_def pass_keys split: option.splits)
      then show ?thesis by blast
    next
      case True
      then obtain t where t: "e = Some t" "t \<le> vs_now ?s" by (auto simp: expired_at_def split: option.splits)
      have "\<not> refusing cf (sa_pc (ws ! j))" if "j < length ws" "saves_for u (ws ! j)" for j
      proof
        assume r: "refusing cf (sa_pc (ws ! j))"
        have "counter_of cf (sa_call (ws ! j)) = ?ck" using that(2) by (simp add: counter_of_def saves_for_def)
        then have "counter_expires cf s d (ws ! j)" using Some v True by (simp add: counter_expires_def)
        then show False using quiet r that(1) by (simp add: orderly_event_def)
      qed
      then have none: "over cf u (ws, ?s) = {}" by (auto simp: over_def)
      have "old \<inter> ?live = {}"
      proof (rule ccontr)
        assume "old \<inter> ?live \<noteq> {}"
        then obtain j where j: "j \<in> old" "alive cf ?s (ws ! j)" by blast
        then obtain t' where "expiry_of cf s (ws ! j) = Some t'" "t' \<le> t" using q Some v t(1) by (auto simp: quota_holds_def)
        then show False using pass_alive [OF j(2)] t(2) by (simp add: expired_at_def)
      qed
      moreover have "\<not> vs_now ?s < ttl_seconds cf" using q Some v t by (simp add: quota_holds_def)
      ultimately have "quota_holds cf u {} (new \<inter> ?live) (ws, ?s)"
        using q c' none le Some v True by (auto simp: quota_holds_def pass_keys)
      then show ?thesis by blast
    qed
  qed
qed

section \<open>The quota through a history\<close>

lemma event_ok:
  assumes ttl: "0 < ttl_seconds cf" and u: "u \<noteq> []" and ok: "places_ok cf x" and q: "quota_holds cf u new old x"
    and ev: "orderly_event cf ev x"
  shows "places_ok cf (save_event cf sj ev x) \<and> (\<exists>new' old'. quota_holds cf u new' old' (save_event cf sj ev x))"
proof -
  obtain ws s where x: "x = (ws, s)" by (cases x)
  show ?thesis
  proof (cases ev)
    case (Pass d)
    then show ?thesis using pass_ok ok q ev by (simp add: x save_event_def)
  next
    case (Turn i f)
    show ?thesis
    proof (cases "i < length ws")
      case False
      then show ?thesis using Turn ok q by (auto simp: x save_event_def)
    next
      case i: True
      show ?thesis
      proof (cases f)
        case (Some e)
        have "refusable (sa_pc (ws ! i))" using ev Turn Some i by (simp add: x orderly_event_def)
        from refused_ok [OF ok [unfolded x] q [unfolded x] i this] show ?thesis using Turn Some i by (auto simp: x save_event_def)
      next
        case None
        obtain pc' s' where st: "save_step cf sj (sa_call (ws ! i)) (sa_pc (ws ! i)) s = (pc', s')" by fastforce
        have ev': "save_event cf sj ev x = (ws[i := (ws ! i)\<lparr>sa_pc := pc'\<rparr>], s')"
          using Turn None i st by (simp add: x save_event_def)
        show ?thesis unfolding ev'
          using turn_places [OF ttl ok [unfolded x] i st] turn_quota_own [OF ttl ok [unfolded x] q [unfolded x] i st]
            turn_quota_other [OF ok [unfolded x] q [unfolded x] i u st] by blast
      qed
    qed
  qed
qed

lemma history_ok:
  assumes "0 < ttl_seconds cf" "u \<noteq> []"
  shows "places_ok cf x \<Longrightarrow> quota_holds cf u new old x \<Longrightarrow> orderly cf sj evs x \<Longrightarrow>
    places_ok cf (save_history cf sj evs x) \<and> (\<exists>new' old'. quota_holds cf u new' old' (save_history cf sj evs x))"
proof (induction evs arbitrary: x new old)
  case (Cons ev evs)
  have "orderly_event cf ev x" "orderly cf sj evs (save_event cf sj ev x)" using Cons.prems(3) by simp_all
  with event_ok [OF assms Cons.prems(1,2)] Cons.IH show ?case by (fastforce simp: save_history_def)
qed (auto simp: save_history_def)

definition empty_server :: snap_server where
  "empty_server = \<lparr>vs_now = 0, vs_keys = Map.empty\<rparr>"

definition finished_alive :: "snap_conf \<Rightarrow> string \<Rightarrow> save_world \<Rightarrow> saver list" where
  "finished_alive cf u x = filter (\<lambda>w. saves_for u w \<and> save_stopped (sa_pc w) \<and> alive cf (snd x) w) (fst x)"

lemma finished_counted:
  assumes "places_ok cf x"
  shows "length (finished_alive cf u x) \<le> card (counted cf u x)"
proof -
  have "counted_pc cf (sa_pc w)" if "w \<in> set (fst x)" "save_stopped (sa_pc w)" "alive cf (snd x) w" for w
  proof -
    have "stored_pc (sa_pc w)" using assms that by (simp add: places_ok_def)
    then show ?thesis using that(2) by (cases "sa_pc w") simp_all
  qed
  then have "{i. i < length (fst x) \<and> saves_for u (fst x ! i) \<and> save_stopped (sa_pc (fst x ! i)) \<and> alive cf (snd x) (fst x ! i)} \<subseteq> counted cf u x"
    by (auto simp: counted_def)
  from card_mono [OF finite_counted this] show ?thesis by (simp add: finished_alive_def length_filter_conv_card)
qed


text \<open>Five turns of every saver of a small store, the first two saves near the end of the first window.\<close>

definition small_conf :: snap_conf where
  "small_conf = \<lparr>sf_prefix = [], sf_ttl_days = 1, sf_max_nodes = 9, sf_max_bytes = 99, sf_max_per_user = 2\<rparr>"

definition plain_codec :: snap_codec where
  "plain_codec = \<lparr>sj_dumps = (\<lambda>g. concat (map fst (gs_nodes g))),
     sj_loads = (\<lambda>t. if t = ''a'' then LoadedSnapshot \<lparr>gs_nodes = [(''a'', ''b'')], gs_center = (''a'', ''b''), gs_created = 0\<rparr> else OtherJson),
     sj_number = (\<lambda>n. ''1'')\<rparr>"

definition sample_save :: "nat \<Rightarrow> save_call" where
  "sample_save n = \<lparr>sl_nodes = [(''a'', ''b'')], sl_center = (''a'', ''b''), sl_user = Some ''u'', sl_token = (if n = 0 then ''k'' else if n = 1 then ''l'' else if n = 2 then ''m'' else ''n''), sl_clock = 0\<rparr>"

definition full_turn :: "nat \<Rightarrow> save_event list" where
  "full_turn i = [Turn i None, Turn i None, Turn i None, Turn i None, Turn i None]"

definition late_saves :: "save_event list" where
  "late_saves = full_turn 0 @ [Pass 86399] @ full_turn 1 @ [Pass 1] @ full_turn 2 @ full_turn 3"

definition sample_world :: save_world where
  "sample_world = (map new_saver (map sample_save [0, 1, 2, 3]), empty_server)"

text \<open>Rules that evaluate a history on a keyspace given by updates.\<close>

definition prune :: "int \<Rightarrow> (string \<Rightarrow> (snap_value \<times> int option) option) \<Rightarrow> string \<Rightarrow> (snap_value \<times> int option) option" where
  "prune now f = (\<lambda>k. case f k of None \<Rightarrow> None | Some (v, e) \<Rightarrow> if expired_at now e then None else Some (v, e))"

lemma pass_time_prune: "pass_time d s = \<lparr>vs_now = vs_now s + int d, vs_keys = prune (vs_now s + int d) (vs_keys s)\<rparr>"
  by (simp add: pass_time_def prune_def Let_def)

lemma prune_update:
  "prune now Map.empty = Map.empty"
  "prune now (f(k := Some (v, e))) = (prune now f)(k := if expired_at now e then None else Some (v, e))"
  "prune now (f(k := None)) = (prune now f)(k := None)"
  by (auto simp: prune_def)

lemmas run_snapshots = save_event_def save_step_def key_op_defs pass_time_prune prune_update expired_at_def Let_def
  snapshot_key_def counter_of_def user_count_key_def saving_user_def snap_payload_def taken_def small_conf_def plain_codec_def
  sample_save_def ttl_seconds_def new_saver_def empty_server_def

lemma late_saves_run:
  "save_history small_conf plain_codec late_saves sample_world =
     (map (\<lambda>n. \<lparr>sa_call = sample_save n, sa_pc = SaveDone\<rparr>) [0, 1, 2, 3],
      snd (save_history small_conf plain_codec late_saves sample_world))"
  "map (\<lambda>n. vs_keys (snd (save_history small_conf plain_codec late_saves sample_world)) (snapshot_key small_conf (sl_token (sample_save n))) \<noteq> None) [0, 1, 2, 3]
     = [False, True, True, True]"
  by (simp_all add: save_history_def late_saves_def full_turn_def sample_world_def run_snapshots)

lemma late_saves_orderly: "orderly small_conf plain_codec late_saves sample_world"
  by (simp add: late_saves_def full_turn_def sample_world_def orderly_event_def run_snapshots)

text \<open>A user with a quota of two has three snapshots alive: the quota is of a window of the counter, not of what is alive.\<close>

lemma quota_overrun: "length (finished_alive small_conf ''u'' (save_history small_conf plain_codec late_saves sample_world)) = 3"
  unfolding finished_alive_def
  by (subst (1 2) late_saves_run(1)) (use late_saves_run(2) in \<open>simp add: alive_def saves_for_def saving_user_def sample_save_def\<close>)


section \<open>A save on its own\<close>

definition saved_key :: "snap_conf \<Rightarrow> snap_codec \<Rightarrow> save_call \<Rightarrow> snap_server \<Rightarrow> snap_server" where
  "saved_key cf sj q s = set_key (snapshot_key cf (sl_token q)) (Blob (snap_payload sj q), Some (vs_now s + ttl_seconds cf)) s"

text \<open>The server once the save of a user was counted, and once the counter has its expiry.\<close>

definition counter_value :: "snap_conf \<Rightarrow> save_call \<Rightarrow> snap_server \<Rightarrow> int" where
  "counter_value cf q s = (case vs_keys s (counter_of cf q) of Some (Number n, e) \<Rightarrow> n | _ \<Rightarrow> 0)"

definition counter_expiry :: "snap_conf \<Rightarrow> save_call \<Rightarrow> snap_server \<Rightarrow> int option" where
  "counter_expiry cf q s = (case vs_keys s (counter_of cf q) of Some (v, e) \<Rightarrow> e | None \<Rightarrow> None)"

definition saved_counted :: "snap_conf \<Rightarrow> snap_codec \<Rightarrow> save_call \<Rightarrow> int option \<Rightarrow> snap_server \<Rightarrow> snap_server" where
  "saved_counted cf sj q e s = set_key (counter_of cf q) (Number (counter_value cf q s + 1), e) (saved_key cf sj q s)"

definition saved_server :: "snap_conf \<Rightarrow> snap_codec \<Rightarrow> save_call \<Rightarrow> snap_server \<Rightarrow> snap_server" where
  "saved_server cf sj q s =
     (if saving_user q = None then saved_key cf sj q s
      else saved_counted cf sj q (case counter_expiry cf q s of None \<Rightarrow> Some (vs_now s + ttl_seconds cf) | Some t \<Rightarrow> Some t) s)"

text \<open>The server a save alone on it finds at each of its places.\<close>

fun alone_at :: "snap_conf \<Rightarrow> snap_codec \<Rightarrow> save_call \<Rightarrow> snap_server \<Rightarrow> save_pc \<Rightarrow> snap_server \<Rightarrow> bool" where
  "alone_at cf sj q s SaveBegin s' \<longleftrightarrow> s' = s"
| "alone_at cf sj q s StoreAnonymous s' \<longleftrightarrow> s' = s \<and> saving_user q = None"
| "alone_at cf sj q s ReadCount s' \<longleftrightarrow> s' = s \<and> saving_user q \<noteq> None"
| "alone_at cf sj q s StoreSnapshot s' \<longleftrightarrow> s' = s \<and> saving_user q \<noteq> None \<and> counter_value cf q s < sf_max_per_user cf"
| "alone_at cf sj q s CountUp s' \<longleftrightarrow> s' = saved_key cf sj q s \<and> saving_user q \<noteq> None \<and> counter_value cf q s < sf_max_per_user cf"
| "alone_at cf sj q s (UndoStore e) s' \<longleftrightarrow> s' = saved_key cf sj q s \<and> saving_user q \<noteq> None"
| "alone_at cf sj q s (ArmWindow n) s' \<longleftrightarrow> s' = saved_counted cf sj q (counter_expiry cf q s) s \<and> saving_user q \<noteq> None
     \<and> n = counter_value cf q s + 1 \<and> n \<le> sf_max_per_user cf"
| "alone_at cf sj q s (RefuseStore n) s' \<longleftrightarrow> False"
| "alone_at cf sj q s (RefuseCount n) s' \<longleftrightarrow> False"
| "alone_at cf sj q s SaveDone s' \<longleftrightarrow> s' = saved_server cf sj q s
     \<and> (saving_user q \<noteq> None \<longrightarrow> counter_value cf q s < sf_max_per_user cf)"
| "alone_at cf sj q s (SaveFailed e) s' \<longleftrightarrow> s' = s"

fun save_rank :: "save_pc \<Rightarrow> nat" where
  "save_rank SaveBegin = 5"
| "save_rank ReadCount = 4"
| "save_rank StoreSnapshot = 3"
| "save_rank CountUp = 2"
| "save_rank SaveDone = 0"
| "save_rank (SaveFailed e) = 0"
| "save_rank (RefuseStore n) = 2"
| "save_rank _ = 1"

text \<open>The counters a save meets hold numbers, and its token is new.\<close>

definition fresh_save :: "snap_conf \<Rightarrow> save_call \<Rightarrow> snap_server \<Rightarrow> bool" where
  "fresh_save cf q s \<longleftrightarrow> plain_token (sl_token q) \<and> vs_keys s (snapshot_key cf (sl_token q)) = None
     \<and> (\<forall>b e. vs_keys s (counter_of cf q) \<noteq> Some (Blob b, e)) \<and> 0 < sf_max_per_user cf"

lemma undo_store: "fresh_save cf q s \<Longrightarrow> del_key (snapshot_key cf (sl_token q)) (saved_key cf sj q s) = s"
  by (simp add: fresh_save_def saved_key_def del_key_def set_key_def fun_upd_idem)

lemma counter_kept: "fresh_save cf q s \<Longrightarrow> vs_keys (saved_key cf sj q s) (counter_of cf q) = vs_keys s (counter_of cf q)"
proof -
  assume "fresh_save cf q s"
  then have "counter_of cf q \<noteq> snapshot_key cf (sl_token q)"
    using families_apart unfolding fresh_save_def counter_of_def by metis
  then show ?thesis by (simp add: saved_key_def set_key_def)
qed

lemma alone_step:
  assumes fresh: "fresh_save cf q s" and at: "alone_at cf sj q s pc s1" and st: "save_step cf sj q pc s1 = (pc', s2)"
  shows "alone_at cf sj q s pc' s2 \<and> (save_stopped pc \<or> save_rank pc' < save_rank pc)"
proof (cases pc)
  case SaveBegin
  then show ?thesis using at st by (auto simp: save_step_def Let_def split: if_splits)
next
  case StoreAnonymous
  then show ?thesis using at st by (auto simp: save_step_def Let_def saved_key_def saved_server_def)
next
  case ReadCount
  then show ?thesis using at st fresh
    by (auto simp: save_step_def Let_def counter_value_def fresh_save_def split: option.splits snap_value.splits if_splits prod.splits)
next
  case StoreSnapshot
  then show ?thesis using at st by (auto simp: save_step_def Let_def saved_key_def)
next
  case CountUp
  then have s1: "s1 = saved_key cf sj q s" "saving_user q \<noteq> None" "counter_value cf q s < sf_max_per_user cf" using at by simp_all
  have "add_to_key 1 (counter_of cf q) s1 = Some (counter_value cf q s + 1, saved_counted cf sj q (counter_expiry cf q s) s)"
    using fresh unfolding s1 add_to_key_def counter_kept [OF fresh]
    by (auto simp: fresh_save_def counter_value_def counter_expiry_def saved_counted_def split: option.split snap_value.split prod.splits)
  then show ?thesis using CountUp st s1 by (simp add: save_step_def Let_def) auto
next
  case (UndoStore e)
  then show ?thesis using at st undo_store [OF fresh] by (auto simp: save_step_def Let_def)
next
  case (ArmWindow n)
  then have s1: "s1 = saved_counted cf sj q (counter_expiry cf q s) s" "saving_user q \<noteq> None" "n = counter_value cf q s + 1"
    "n \<le> sf_max_per_user cf" using at by simp_all
  have "expire_nx (counter_of cf q) (ttl_seconds cf) s1 = saved_server cf sj q s"
    using s1(2) unfolding s1(1)
    by (cases "counter_expiry cf q s"; cases "saving_user q") (simp_all add: expire_nx_def saved_counted_def saved_server_def saved_key_def set_key_def)
  then show ?thesis using ArmWindow st s1 by (auto simp: save_step_def Let_def)
qed (use at st in \<open>auto simp: save_step_def\<close>)

lemma alone_refused:
  assumes "fresh_save cf q s" "alone_at cf sj q s pc s1" "refusable pc" "pc \<noteq> SaveBegin"
  shows "alone_at cf sj q s (save_refused e pc) s1 \<and> (save_stopped pc \<or> save_rank (save_refused e pc) < save_rank pc)"
  using assms by (cases pc) (simp_all add: save_refused_def)

lemma alone_turns:
  assumes fresh: "fresh_save cf q s"
  shows "alone_at cf sj q s pc s1 \<Longrightarrow> pc \<noteq> SaveBegin \<Longrightarrow> orderly cf sj (map (Turn 0) fs) ([\<lparr>sa_call = q, sa_pc = pc\<rparr>], s1) \<Longrightarrow>
    \<exists>pc' s2. save_history cf sj (map (Turn 0) fs) ([\<lparr>sa_call = q, sa_pc = pc\<rparr>], s1) = ([\<lparr>sa_call = q, sa_pc = pc'\<rparr>], s2)
      \<and> alone_at cf sj q s pc' s2 \<and> (save_stopped pc' \<or> save_rank pc' + length fs \<le> save_rank pc)"
proof (induction fs arbitrary: pc s1)
  case Nil
  then show ?case by (simp add: save_history_def)
next
  case (Cons f fs)
  let ?x = "([\<lparr>sa_call = q, sa_pc = pc\<rparr>], s1)"
  obtain pc1 s2 where one: "save_event cf sj (Turn 0 f) ?x = ([\<lparr>sa_call = q, sa_pc = pc1\<rparr>], s2)"
    and at: "alone_at cf sj q s pc1 s2" and less: "save_stopped pc \<or> save_rank pc1 < save_rank pc"
    and stay: "save_stopped pc \<Longrightarrow> pc1 = pc" and nb: "pc1 \<noteq> SaveBegin"
  proof (cases f)
    case (Some e)
    have "refusable pc" using Cons.prems(3) Some by (simp add: orderly_event_def)
    from alone_refused [OF fresh Cons.prems(1) this Cons.prems(2)] show thesis
      using that [of "save_refused e pc" s1] Some Cons.prems(2)
      by (cases pc) (simp_all add: save_event_def save_refused_def)
  next
    case None
    obtain pc1 s2 where st: "save_step cf sj q pc s1 = (pc1, s2)" by fastforce
    have "pc1 \<noteq> SaveBegin" using st Cons.prems(2)
      by (auto simp: save_step_def Let_def split: save_pc.splits option.splits snap_value.splits prod.splits if_splits)
    moreover have "save_stopped pc \<Longrightarrow> pc1 = pc" using st by (cases pc) (simp_all add: save_step_def)
    ultimately show thesis using that [of pc1 s2] alone_step [OF fresh Cons.prems(1) st] st None
      by (simp add: save_event_def)
  qed
  have "orderly cf sj (map (Turn 0) fs) ([\<lparr>sa_call = q, sa_pc = pc1\<rparr>], s2)" using Cons.prems(3) one by simp
  from Cons.IH [OF at nb this] obtain pc' s3 where
    r: "save_history cf sj (map (Turn 0) fs) ([\<lparr>sa_call = q, sa_pc = pc1\<rparr>], s2) = ([\<lparr>sa_call = q, sa_pc = pc'\<rparr>], s3)"
      "alone_at cf sj q s pc' s3" "save_stopped pc' \<or> save_rank pc' + length fs \<le> save_rank pc1" by blast
  have "save_history cf sj (map (Turn 0) (f # fs)) ?x = ([\<lparr>sa_call = q, sa_pc = pc'\<rparr>], s3)"
    using r(1) one by (simp add: save_history_def)
  moreover have "save_stopped pc' \<or> save_rank pc' + length (f # fs) \<le> save_rank pc"
  proof (cases "save_stopped pc")
    case True
    then have "save_rank pc1 = 0" "save_stopped pc1" using stay [OF True] by (cases pc; simp)+
    then show ?thesis using r(3) True by (cases pc') auto
  next
    case False
    then show ?thesis using less r(3) by auto
  qed
  ultimately show ?case using r(2) by blast
qed

text \<open>
  C33.  A save that runs alone is all or nothing, whichever of its writes a full server refuses: it
  stops within five commands; if it fails, keys and counter are exactly as they were; if it is done,
  the payload is stored with the full lifetime, the user's counter, below the quota before, is one
  more and has an expiry, nothing else changed, and the token restores exactly what was saved.
\<close>

theorem save_all_or_nothing:
  assumes fresh: "fresh_save cf q s" and json: "sj_loads sj (sj_dumps sj (taken q)) = LoadedSnapshot (taken q)"
    and orderly: "orderly cf sj (Turn 0 None # map (Turn 0) fs) ([new_saver q], s)" and enough: "4 \<le> length fs"
  shows "\<exists>pc s'. save_history cf sj (Turn 0 None # map (Turn 0) fs) ([new_saver q], s) = ([\<lparr>sa_call = q, sa_pc = pc\<rparr>], s')
    \<and> ((\<exists>e. pc = SaveFailed e) \<and> s' = s
       \<or> pc = SaveDone \<and> s' = saved_server cf sj q s \<and> (saving_user q \<noteq> None \<longrightarrow> counter_value cf q s < sf_max_per_user cf)
         \<and> restore_snapshot cf sj (sl_token q) s' = SnapshotRestored (taken q))"
proof -
  obtain pc1 s1 where st: "save_step cf sj q SaveBegin s = (pc1, s1)" by fastforce
  have at: "alone_at cf sj q s pc1 s1" and rank: "save_rank pc1 \<le> 4" and nb: "pc1 \<noteq> SaveBegin"
    using alone_step [OF fresh _ st] st by (auto simp: save_step_def Let_def split: if_splits)
  have one: "save_event cf sj (Turn 0 None) ([new_saver q], s) = ([\<lparr>sa_call = q, sa_pc = pc1\<rparr>], s1)"
    using st by (simp add: save_event_def new_saver_def)
  have "orderly cf sj (map (Turn 0) fs) ([\<lparr>sa_call = q, sa_pc = pc1\<rparr>], s1)" using orderly one by simp
  from alone_turns [OF fresh at nb this] obtain pc s' where
    r: "save_history cf sj (map (Turn 0) fs) ([\<lparr>sa_call = q, sa_pc = pc1\<rparr>], s1) = ([\<lparr>sa_call = q, sa_pc = pc\<rparr>], s')"
      "alone_at cf sj q s pc s'" "save_stopped pc \<or> save_rank pc + length fs \<le> save_rank pc1" by blast
  have h: "save_history cf sj (Turn 0 None # map (Turn 0) fs) ([new_saver q], s) = ([\<lparr>sa_call = q, sa_pc = pc\<rparr>], s')"
    using r(1) one by (simp add: save_history_def)
  have stop: "save_stopped pc" using r(3) rank enough by (cases pc) auto
  have key: "snapshot_key cf (sl_token q) \<noteq> counter_of cf q"
    using fresh families_apart by (simp add: fresh_save_def counter_of_def)
  have "restore_snapshot cf sj (sl_token q) (saved_server cf sj q s) = SnapshotRestored (taken q)"
    using key json by (simp add: restore_snapshot_def load_snapshot_def saved_server_def saved_counted_def saved_key_def set_key_def
        raw_text_def snap_payload_def)
  then show ?thesis using h stop r(2) by (cases pc) auto
qed

text \<open>The \<open>INCR\<close> is refused: the snapshot is taken back.\<close>

lemma save_all_or_nothing_witness:
  "\<exists>pc. save_history small_conf plain_codec [Turn 0 None, Turn 0 None, Turn 0 None, Turn 0 (Some (Unavailable ''oom'')), Turn 0 None]
      ([new_saver (sample_save 0)], empty_server) = ([\<lparr>sa_call = sample_save 0, sa_pc = pc\<rparr>], empty_server) \<and> pc \<noteq> SaveDone"
proof -
  let ?fs = "[None, None, Some (Unavailable ''oom''), None]"
  let ?evs = "Turn 0 None # map (Turn 0) ?fs" and ?x = "([new_saver (sample_save 0)], empty_server)"
  have fresh: "fresh_save small_conf (sample_save 0) empty_server"
    by (simp add: fresh_save_def plain_token_def sample_save_def empty_server_def small_conf_def)
  have json: "sj_loads plain_codec (sj_dumps plain_codec (taken (sample_save 0))) = LoadedSnapshot (taken (sample_save 0))"
    by (simp add: plain_codec_def taken_def sample_save_def)
  have orderly: "orderly small_conf plain_codec ?evs ?x"
    by (simp add: orderly_event_def run_snapshots save_refused_def)
  have "sa_pc (hd (fst (save_history small_conf plain_codec ?evs ?x))) \<noteq> SaveDone"
    by (simp add: save_history_def run_snapshots save_refused_def)
  moreover have "4 \<le> length ?fs" by simp
  ultimately show ?thesis using save_all_or_nothing [OF fresh json orderly] by fastforce
qed

text \<open>
  The \<open>EXPIRE\<close> fails, as a lost connection makes it: the client is told that nothing was stored,
  but the snapshot is in the store and counted.
\<close>

lemma failed_expire_keeps_snapshot:
  "let x = save_history small_conf plain_codec [Turn 0 None, Turn 0 None, Turn 0 None, Turn 0 None, Turn 0 (Some (Unavailable ''lost''))]
        ([new_saver (sample_save 0)], empty_server)
   in save_reply small_conf (sample_save 0) (sa_pc (hd (fst x))) = Some (SnapshotError 503 SAVE_UNAVAILABLE_DETAIL)
      \<and> restore_snapshot small_conf plain_codec (sl_token (sample_save 0)) (snd x) = SnapshotRestored (taken (sample_save 0))
      \<and> counter_value small_conf (sample_save 0) (snd x) = 1"
  by (simp add: save_history_def run_snapshots save_refused_def save_reply_def restore_snapshot_def load_snapshot_def raw_text_def
      counter_value_def)

text \<open>A user's counter is read as a snapshot by the name it has under the shared stem.\<close>

lemma counter_restores_to_server_error:
  assumes "vs_keys s (user_count_key cf u) = Some (Number n, e)" "sj_loads sj (sj_number sj n) = OtherJson"
  shows "restore_snapshot cf sj (''usercount:'' @ u) s = ServerError"
  using assms by (simp add: restore_snapshot_def load_snapshot_def snapshot_key_def user_count_key_def raw_text_def)

end
