(* ===== verification/Activity.thy ===== *)
theory Activity
  imports Complex_Main Prelude
begin

text \<open>
  The activity recorder, \<open>src/api/activity.py\<close>: the pseudonym of a user, the consent purposes active
  at a write, month partitions, events, batches of events, impressions, and the caches each process
  keeps of them.

  Every access to the database may fail, as the fault argument of a call says; what a call counts in
  the telemetry is the last field of the process.  Vocabulary, id generator and the parts of the
  \<open>activity\<close> schema the recorder relies on are the fields of \<open>act_env\<close>.  A user id is the canonical
  text of a UUID, so the cast of a query neither fails on it nor changes it.
\<close>

section \<open>Time\<close>

text \<open>A moment in UTC: year, month, and the microseconds since the month began.\<close>

type_synonym moment = "int \<times> nat \<times> nat"
type_synonym month = "int \<times> nat"

fun month_of :: "moment \<Rightarrow> month" where
  "month_of (y, m, t) = (y, m)"

text \<open>Adding days to a date, as \<open>timedelta\<close> does.\<close>

definition days_in_month :: "int \<Rightarrow> nat \<Rightarrow> nat" where
  "days_in_month y m =
     (if m = 2 then (if y mod 4 = 0 \<and> (y mod 100 \<noteq> 0 \<or> y mod 400 = 0) then 29 else 28)
      else if m \<in> {4, 6, 9, 11} then 30 else 31)"

fun day_after :: "int \<times> nat \<times> nat \<Rightarrow> int \<times> nat \<times> nat" where
  "day_after (y, m, d) =
     (if d < days_in_month y m then (y, m, d + 1) else if m < 12 then (y, m + 1, 1) else (y + 1, 1, 1))"

definition following_month :: "month \<Rightarrow> month" where
  "following_month p = (case (day_after ^^ 32) (fst p, snd p, 1) of (y, m, d) \<Rightarrow> (y, m))"

section \<open>The tables\<close>

record act_event =
  ev_id :: string
  ev_type :: string
  ev_version :: nat
  ev_subject :: string
  ev_session :: "string option"
  ev_occurred :: moment
  ev_recorded :: moment
  ev_producer :: string
  ev_purposes :: "string list"
  ev_model :: "string option"
  ev_feature :: "string option"
  ev_key :: string
  ev_payload :: "(string \<times> string) list"

record impression =
  im_id :: string
  im_subject :: string
  im_surface :: string
  im_policy :: string
  im_set :: string
  im_position :: int
  im_item :: string
  im_score :: rat
  im_propensity :: rat
  im_request :: string
  im_occurred :: moment
  im_recorded :: moment
  im_purposes :: "string list"

record grant =
  gr_id :: nat
  gr_user :: string
  gr_purpose :: string
  gr_at :: moment
  gr_revoked :: "moment option"

record erasure =
  er_id :: string
  er_subject :: string
  er_requested :: moment
  er_events :: nat
  er_impressions :: nat
  er_keys :: nat
  er_models :: "string list"

text \<open>A row of a table keyed to a user: its table, order columns, and the rest of it as one text.\<close>

record owned_row =
  ow_table :: string
  ow_user :: string
  ow_id :: string
  ow_at :: moment
  ow_columns :: string

record account =
  us_id :: string
  us_email :: string
  us_hash :: string
  us_active :: bool
  us_totp_secret :: "string option"
  us_totp_enabled :: bool
  us_recovery :: "string option"
  us_failed :: nat
  us_locked :: "moment option"

text \<open>
  The database; \<open>ad_partitions\<close> holds the months \<open>ensure_month_partition\<close> was called for, and
  \<open>ad_next\<close> numbers the ids that the database and the processes generate.
\<close>

record act_db =
  ad_next :: nat
  ad_subjects :: "(string \<times> string) list"
  ad_grants :: "grant list"
  ad_events :: "act_event list"
  ad_impressions :: "impression list"
  ad_partitions :: "(string \<times> month) list"
  ad_erasures :: "erasure list"
  ad_owned :: "owned_row list"
  ad_accounts :: "account list"

text \<open>
  What the recorder relies on: the payload schema of an event type (required and allowed names), the
  purposes in vocabulary order, whether \<open>new_event\<close> and \<open>new_impression\<close> accept an envelope, its
  version, \<open>UUID(str(x))\<close>, the generated ids, and the schema's claim trigger: whether the stored
  events hold a key of a subject, and how many keys they hold.
\<close>

record act_env =
  ae_schema :: "string \<Rightarrow> (string list \<times> string list) option"
  ae_purposes :: "string list"
  ae_event_ok :: "act_event \<Rightarrow> bool"
  ae_impression_ok :: "impression \<Rightarrow> bool"
  ae_version :: nat
  ae_uuid :: "string \<Rightarrow> string option"
  ae_id :: "nat \<Rightarrow> string"
  ae_held :: "act_event list \<Rightarrow> string \<Rightarrow> string \<Rightarrow> bool"
  ae_key_count :: "act_event list \<Rightarrow> string \<Rightarrow> nat"

section \<open>Constants\<close>

definition PRODUCER :: string where "PRODUCER = ''catalog-api''"
definition EVENTS_TABLE :: string where "EVENTS_TABLE = ''events''"
definition IMPRESSIONS_TABLE :: string where "IMPRESSIONS_TABLE = ''impressions''"
definition SURFACE_RECOMMENDATION :: string where "SURFACE_RECOMMENDATION = ''recommendation''"
definition DETERMINISTIC_PROPENSITY :: rat where "DETERMINISTIC_PROPENSITY = 1"

definition ACTIVITY_DUPLICATE :: string where "ACTIVITY_DUPLICATE = ''duplicate''"
definition ACTIVITY_INVALID :: string where "ACTIVITY_INVALID = ''invalid''"
definition ACTIVITY_NOT_CONFIGURED :: string where "ACTIVITY_NOT_CONFIGURED = ''not_configured''"
definition ACTIVITY_NO_NATIVE_ID :: string where "ACTIVITY_NO_NATIVE_ID = ''no_native_id''"
definition ACTIVITY_NO_SUBJECT :: string where "ACTIVITY_NO_SUBJECT = ''no_subject''"
definition ACTIVITY_WRITE_FAILED :: string where "ACTIVITY_WRITE_FAILED = ''write_failed''"
definition IMPRESSION_EVENT_LABEL :: string where "IMPRESSION_EVENT_LABEL = ''impression''"

section \<open>A process and its caches\<close>

text \<open>\<open>record_activity_event\<close> counts a type, \<open>record_activity_failure\<close> an outcome.\<close>

datatype act_count = Written string | Failure string

record act_process =
  ap_pool :: bool
  ap_subjects :: "(string, string) dict"
  ap_ensured :: "(string \<times> month) list"
  ap_counts :: "act_count list"

type_synonym act_state = "act_process \<times> act_db"

definition count_act :: "act_count \<Rightarrow> act_process \<Rightarrow> act_process" where
  "count_act c p = p\<lparr>ap_counts := ap_counts p @ [c]\<rparr>"

definition reset_caches :: "act_process \<Rightarrow> act_process" where
  "reset_caches p = p\<lparr>ap_subjects := [], ap_ensured := []\<rparr>"

definition configure_recorder :: "bool \<Rightarrow> act_process \<Rightarrow> act_process" where
  "configure_recorder pool p = reset_caches (p\<lparr>ap_pool := pool\<rparr>)"

definition forget_subject :: "string \<Rightarrow> act_process \<Rightarrow> act_process" where
  "forget_subject user p = p\<lparr>ap_subjects := filter (\<lambda>(u, s). u \<noteq> user) (ap_subjects p)\<rparr>"

text \<open>
  The faults of one call: the subject query, the read of the purposes and the partition call may be
  refused; a write that fails may have stored some of its rows before it did.
\<close>

record act_faults =
  af_subject :: bool
  af_purposes :: bool
  af_partition :: bool
  af_write :: "nat option"

definition no_faults :: act_faults where
  "no_faults = \<lparr>af_subject = False, af_purposes = False, af_partition = False, af_write = None\<rparr>"

text \<open>\<open>_UPSERT_SUBJECT\<close>: the subject of a user, linked on first use.\<close>

definition upsert_subject :: "act_env \<Rightarrow> string \<Rightarrow> act_db \<Rightarrow> string \<times> act_db" where
  "upsert_subject e user d =
     (case map_of (ad_subjects d) user of
        Some s \<Rightarrow> (s, d)
      | None \<Rightarrow> let s = ae_id e (ad_next d)
                in (s, d\<lparr>ad_next := Suc (ad_next d), ad_subjects := ad_subjects d @ [(user, s)]\<rparr>))"

definition subject_for :: "act_env \<Rightarrow> bool \<Rightarrow> string \<Rightarrow> act_state \<Rightarrow> string option \<times> act_state" where
  "subject_for e refused user st =
     (let (p, d) = st in
      case map_of (ap_subjects p) user of
        Some s \<Rightarrow> (Some s, st)
      | None \<Rightarrow>
          if \<not> ap_pool p \<or> refused then (None, st)
          else let (s, d') = upsert_subject e user d
               in (Some s, (p\<lparr>ap_subjects := dict_set user s (ap_subjects p)\<rparr>, d')))"

text \<open>\<open>_SELECT_ACTIVE_PURPOSES\<close>, and the snapshot in vocabulary order.\<close>

definition active_grant :: "string \<Rightarrow> string \<Rightarrow> grant \<Rightarrow> bool" where
  "active_grant user purpose g \<longleftrightarrow> gr_user g = user \<and> gr_purpose g = purpose \<and> gr_revoked g = None"

definition active_purposes :: "act_env \<Rightarrow> bool \<Rightarrow> string \<Rightarrow> act_state \<Rightarrow> string list" where
  "active_purposes e refused user st =
     (let (p, d) = st in
      if \<not> ap_pool p \<or> refused then []
      else filter (\<lambda>q. list_ex (active_grant user q) (ad_grants d)) (ae_purposes e))"

text \<open>\<open>_ensure_partition\<close>, which raises when its call is refused.\<close>

definition ensure_partition :: "bool \<Rightarrow> string \<Rightarrow> moment \<Rightarrow> act_state \<Rightarrow> bool \<times> act_state" where
  "ensure_partition refused table t st =
     (let (p, d) = st; key = (table, month_of t) in
      if key \<in> set (ap_ensured p) then (True, st)
      else if refused then (False, st)
      else (True, (p\<lparr>ap_ensured := key # ap_ensured p\<rparr>, d\<lparr>ad_partitions := List.insert key (ad_partitions d)\<rparr>)))"

fun ensure_each :: "(string \<times> moment \<Rightarrow> bool) \<Rightarrow> (string \<times> moment) list \<Rightarrow> act_state \<Rightarrow> act_state" where
  "ensure_each refused [] st = st"
| "ensure_each refused ((table, t) # rest) st =
     (case ensure_partition (refused (table, t)) table t st of
        (True, st') \<Rightarrow> ensure_each refused rest st'
      | (False, st') \<Rightarrow> st')"

definition ensure_startup_partitions :: "(string \<times> moment \<Rightarrow> bool) \<Rightarrow> moment \<Rightarrow> act_state \<Rightarrow> act_state" where
  "ensure_startup_partitions refused now st =
     (if \<not> ap_pool (fst st) then st
      else let (y, m) = following_month (month_of now); months = [now, (y, m, 0)]
           in ensure_each refused (List.product [EVENTS_TABLE, IMPRESSIONS_TABLE] months) st)"


section \<open>One event\<close>

text \<open>\<open>_validate_payload\<close>: what it raises, if anything.\<close>

definition validate_payload :: "act_env \<Rightarrow> string \<Rightarrow> (string \<times> string) list \<Rightarrow> (string, unit) result" where
  "validate_payload e type payload =
     (case ae_schema e type of
        None \<Rightarrow> Inl ''KeyError''
      | Some (required, allowed) \<Rightarrow>
          (case List.find (\<lambda>n. n \<notin> set (map fst payload)) required of
             Some n \<Rightarrow> Inl (''payload.'' @ n @ '' is required'')
           | None \<Rightarrow>
               (case List.find (\<lambda>n. n \<notin> set allowed) (sort (map fst payload)) of
                  Some n \<Rightarrow> Inl (''payload.'' @ n @ '' is not part of the '' @ type @ '' payload'')
                | None \<Rightarrow> Inr ())))"

record event_request =
  eq_type :: string
  eq_payload :: "(string \<times> string) list"
  eq_session :: "string option"
  eq_model :: "string option"
  eq_feature :: "string option"
  eq_key :: "string option"
  eq_occurred :: "moment option"

definition plain_event :: "string \<Rightarrow> (string \<times> string) list \<Rightarrow> string option \<Rightarrow> event_request" where
  "plain_event type payload key =
     \<lparr>eq_type = type, eq_payload = payload, eq_session = None, eq_model = None, eq_feature = None,
      eq_key = key, eq_occurred = None\<rparr>"

text \<open>\<open>_as_uuid\<close>: \<open>Inl\<close> where \<open>UUID\<close> raises.\<close>

definition as_uuid :: "act_env \<Rightarrow> string option \<Rightarrow> (string, string option) result" where
  "as_uuid e v =
     (case v of
        None \<Rightarrow> Inr None
      | Some s \<Rightarrow> (case ae_uuid e s of None \<Rightarrow> Inl ''ValueError'' | Some u \<Rightarrow> Inr (Some u)))"

definition fresh_if_empty :: "act_env \<Rightarrow> nat \<Rightarrow> string option \<Rightarrow> string" where
  "fresh_if_empty e n v = (case v of None \<Rightarrow> ae_id e n | Some k \<Rightarrow> if k = [] then ae_id e n else k)"

text \<open>\<open>_build_event\<close>; \<open>new_event\<close> fills in the moments a request leaves open.\<close>

definition envelope :: "act_env \<Rightarrow> moment \<Rightarrow> nat \<Rightarrow> string \<Rightarrow> string list \<Rightarrow> string option \<Rightarrow> event_request \<Rightarrow> act_event" where
  "envelope e now n subject purposes session q =
     \<lparr>ev_id = ae_id e (Suc n), ev_type = eq_type q, ev_version = ae_version e, ev_subject = subject,
      ev_session = session, ev_occurred = (case eq_occurred q of None \<Rightarrow> now | Some t \<Rightarrow> t),
      ev_recorded = now, ev_producer = PRODUCER, ev_purposes = purposes, ev_model = eq_model q,
      ev_feature = eq_feature q, ev_key = fresh_if_empty e n (eq_key q), ev_payload = eq_payload q\<rparr>"

definition build_event :: "act_env \<Rightarrow> moment \<Rightarrow> string \<Rightarrow> string list \<Rightarrow> event_request \<Rightarrow> act_state
    \<Rightarrow> act_event option \<times> act_state" where
  "build_event e now subject purposes q st =
     (let (p, d) = st; n = ad_next d; rejected = (None, (count_act (Failure ACTIVITY_INVALID) p, d)) in
      case (validate_payload e (eq_type q) (eq_payload q), as_uuid e (eq_session q)) of
        (Inr (), Inr session) \<Rightarrow>
          let ev = envelope e now n subject purposes session q in
          if ae_event_ok e ev then (Some ev, (p, d\<lparr>ad_next := Suc (Suc n)\<rparr>)) else rejected
      | _ \<Rightarrow> rejected)"

text \<open>
  \<open>_INSERT_EVENT\<close>: the claim trigger skips a key its subject holds, the unique key one that is stored
  at the same instant; the answer is whether a row came back.
\<close>

definition key_taken :: "act_env \<Rightarrow> act_event \<Rightarrow> act_db \<Rightarrow> bool" where
  "key_taken e ev d \<longleftrightarrow>
     ae_held e (ad_events d) (ev_subject ev) (ev_key ev)
     \<or> list_ex (\<lambda>x. ev_occurred x = ev_occurred ev \<and> ev_key x = ev_key ev) (ad_events d)"

definition insert_event :: "act_env \<Rightarrow> act_event \<Rightarrow> act_db \<Rightarrow> bool \<times> act_db" where
  "insert_event e ev d =
     (if key_taken e ev d then (False, d) else (True, d\<lparr>ad_events := ad_events d @ [ev]\<rparr>))"

fun insert_events :: "act_env \<Rightarrow> act_event list \<Rightarrow> act_db \<Rightarrow> bool list \<times> act_db" where
  "insert_events e [] d = ([], d)"
| "insert_events e (ev # evs) d =
     (let (b, d1) = insert_event e ev d; (bs, d2) = insert_events e evs d1 in (b # bs, d2))"

definition count_write :: "string \<Rightarrow> bool \<Rightarrow> act_process \<Rightarrow> act_process" where
  "count_write type stored p = count_act (if stored then Written type else Failure ACTIVITY_DUPLICATE) p"

text \<open>
  A call has three parts, each awaiting the database: who the subject is, what the rows are, and
  storing them.
\<close>

definition begin_call :: "act_env \<Rightarrow> act_faults \<Rightarrow> string \<Rightarrow> act_state \<Rightarrow> string option \<times> act_state" where
  "begin_call e f user st =
     (let (p, d) = st in
      if \<not> ap_pool p then (None, (count_act (Failure ACTIVITY_NOT_CONFIGURED) p, d))
      else case subject_for e (af_subject f) user st of
             (None, (p', d')) \<Rightarrow> (None, (count_act (Failure ACTIVITY_NO_SUBJECT) p', d'))
           | (Some s, st') \<Rightarrow> (Some s, st'))"

definition prepare_event :: "act_env \<Rightarrow> act_faults \<Rightarrow> moment \<Rightarrow> string \<Rightarrow> string \<Rightarrow> event_request \<Rightarrow> act_state
    \<Rightarrow> act_event option \<times> act_state" where
  "prepare_event e f now user subject q st =
     build_event e now subject (active_purposes e (af_purposes f) user st) q st"

definition write_failed :: "act_state \<Rightarrow> act_state" where
  "write_failed st = (count_act (Failure ACTIVITY_WRITE_FAILED) (fst st), snd st)"

definition store_event :: "act_env \<Rightarrow> act_faults \<Rightarrow> act_event \<Rightarrow> act_state \<Rightarrow> act_state" where
  "store_event e f ev st =
     (case ensure_partition (af_partition f) EVENTS_TABLE (ev_occurred ev) st of
        (False, st1) \<Rightarrow> write_failed st1
      | (True, (p, d)) \<Rightarrow>
          (case af_write f of
             None \<Rightarrow> let (stored, d') = insert_event e ev d in (count_write (ev_type ev) stored p, d')
           | Some n \<Rightarrow> write_failed (p, if n = 0 then d else snd (insert_event e ev d))))"

definition record_event :: "act_env \<Rightarrow> act_faults \<Rightarrow> moment \<Rightarrow> string \<Rightarrow> event_request \<Rightarrow> act_state \<Rightarrow> act_state" where
  "record_event e f now user q st =
     (case begin_call e f user st of
        (None, st1) \<Rightarrow> st1
      | (Some s, st1) \<Rightarrow>
          (case prepare_event e f now user s q st1 of
             (None, st2) \<Rightarrow> st2
           | (Some ev, st2) \<Rightarrow> store_event e f ev st2))"

section \<open>A batch of events\<close>

fun build_each :: "act_env \<Rightarrow> moment \<Rightarrow> string \<Rightarrow> string list \<Rightarrow> (string \<times> (string \<times> string) list \<times> string option) list
    \<Rightarrow> act_state \<Rightarrow> act_event list \<times> act_state" where
  "build_each e now subject purposes [] st = ([], st)"
| "build_each e now subject purposes ((type, payload, key) # rest) st =
     (let (b, st1) = build_event e now subject purposes ((plain_event type payload key)\<lparr>eq_occurred := Some now\<rparr>) st;
          (evs, st2) = build_each e now subject purposes rest st1
      in (case b of None \<Rightarrow> evs | Some ev \<Rightarrow> ev # evs, st2))"

definition prepare_events :: "act_env \<Rightarrow> act_faults \<Rightarrow> moment \<Rightarrow> string \<Rightarrow> string
    \<Rightarrow> (string \<times> (string \<times> string) list \<times> string option) list \<Rightarrow> act_state \<Rightarrow> act_event list \<times> act_state" where
  "prepare_events e f now user subject evs st =
     build_each e now subject (active_purposes e (af_purposes f) user st) evs st"

definition count_writes :: "(act_event \<times> bool) list \<Rightarrow> act_process \<Rightarrow> act_process" where
  "count_writes rs p = foldl (\<lambda>p (ev, stored). count_write (ev_type ev) stored p) p rs"

definition store_events :: "act_env \<Rightarrow> act_faults \<Rightarrow> moment \<Rightarrow> act_event list \<Rightarrow> act_state \<Rightarrow> act_state" where
  "store_events e f now evs st =
     (case ensure_partition (af_partition f) EVENTS_TABLE now st of
        (False, st1) \<Rightarrow> write_failed st1
      | (True, (p, d)) \<Rightarrow>
          (case af_write f of
             None \<Rightarrow> let (stored, d') = insert_events e evs d in (count_writes (zip evs stored) p, d')
           | Some n \<Rightarrow> write_failed (p, snd (insert_events e (take n evs) d))))"

definition record_events :: "act_env \<Rightarrow> act_faults \<Rightarrow> moment \<Rightarrow> string
    \<Rightarrow> (string \<times> (string \<times> string) list \<times> string option) list \<Rightarrow> act_state \<Rightarrow> act_state" where
  "record_events e f now user evs st =
     (if ap_pool (fst st) \<and> evs = [] then st
      else case begin_call e f user st of
             (None, st1) \<Rightarrow> st1
           | (Some s, st1) \<Rightarrow>
               (case prepare_events e f now user s evs st1 of
                  (built, st2) \<Rightarrow> if built = [] then st2 else store_events e f now built st2))"

section \<open>Impressions\<close>

text \<open>A shown item; the score is absent where \<open>float\<close> rejects it.\<close>

record shown_item =
  si_position :: int
  si_item :: "string option"
  si_score :: "rat option"
  si_propensity :: "rat option"

record shown_list =
  sl_surface :: string
  sl_policy :: string
  sl_candidates :: "string option"
  sl_request :: "string option"
  sl_occurred :: "moment option"
  sl_items :: "shown_item list"

definition build_impression :: "act_env \<Rightarrow> moment \<Rightarrow> moment \<Rightarrow> string \<Rightarrow> string list \<Rightarrow> shown_list \<Rightarrow> string \<Rightarrow> string
    \<Rightarrow> shown_item \<Rightarrow> nat \<Rightarrow> impression option" where
  "build_impression e now t subject purposes l cset request i n =
     (case (as_uuid e (si_item i), si_score i) of
        (Inr (Some item), Some score) \<Rightarrow>
          let im = \<lparr>im_id = ae_id e n, im_subject = subject, im_surface = sl_surface l, im_policy = sl_policy l,
                    im_set = cset, im_position = si_position i, im_item = item, im_score = score,
                    im_propensity = (case si_propensity i of None \<Rightarrow> DETERMINISTIC_PROPENSITY | Some r \<Rightarrow> r),
                    im_request = request, im_occurred = t, im_recorded = now, im_purposes = purposes\<rparr>
          in if ae_impression_ok e im then Some im else None
      | _ \<Rightarrow> None)"

fun build_impressions :: "act_env \<Rightarrow> moment \<Rightarrow> moment \<Rightarrow> string \<Rightarrow> string list \<Rightarrow> shown_list \<Rightarrow> string \<Rightarrow> string
    \<Rightarrow> shown_item list \<Rightarrow> act_state \<Rightarrow> impression option list \<times> act_state" where
  "build_impressions e now t subject purposes l cset request [] st = ([], st)"
| "build_impressions e now t subject purposes l cset request (i # rest) (p, d) =
     (let b = build_impression e now t subject purposes l cset request i (ad_next d);
          p1 = (if b = None then count_act (Failure ACTIVITY_INVALID) p else p);
          (bs, st2) = build_impressions e now t subject purposes l cset request rest (p1, d\<lparr>ad_next := Suc (ad_next d)\<rparr>)
      in (b # bs, st2))"

text \<open>
  The rows of a shown list; \<open>Inl\<close> where the candidate set or the request id is no UUID, which is
  raised to the caller.
\<close>

definition prepare_impressions :: "act_env \<Rightarrow> act_faults \<Rightarrow> moment \<Rightarrow> string \<Rightarrow> string \<Rightarrow> shown_list \<Rightarrow> act_state
    \<Rightarrow> (string, impression option list) result \<times> act_state" where
  "prepare_impressions e f now user subject l st =
     (let (p, d) = st; purposes = active_purposes e (af_purposes f) user st; n = ad_next d in
      case as_uuid e (sl_candidates l) of
        Inl err \<Rightarrow> (Inl err, st)
      | Inr cset \<Rightarrow>
          (case as_uuid e (sl_request l) of
             Inl err \<Rightarrow> (Inl err, (p, d\<lparr>ad_next := Suc n\<rparr>))
           | Inr request \<Rightarrow>
               let (bs, st') = build_impressions e now (case sl_occurred l of None \<Rightarrow> now | Some t \<Rightarrow> t) subject purposes l
                       (case cset of None \<Rightarrow> ae_id e n | Some c \<Rightarrow> c)
                       (case request of None \<Rightarrow> ae_id e (Suc n) | Some r \<Rightarrow> r)
                       (sl_items l) (p, d\<lparr>ad_next := Suc (Suc n)\<rparr>)
               in (Inr bs, st')))"

definition rows_of :: "impression option list \<Rightarrow> impression list" where
  "rows_of bs = List.map_filter (\<lambda>b. b) bs"

text \<open>Storing them, and the ids the caller gets.\<close>

definition store_impressions :: "act_env \<Rightarrow> act_faults \<Rightarrow> moment \<Rightarrow> impression option list \<Rightarrow> act_state
    \<Rightarrow> string option list \<times> act_state" where
  "store_impressions e f t bs st =
     (let dropped = map (\<lambda>b. None) bs in
      case ensure_partition (af_partition f) IMPRESSIONS_TABLE t st of
        (False, st1) \<Rightarrow> (dropped, write_failed st1)
      | (True, (p, d)) \<Rightarrow>
          (case af_write f of
             Some n \<Rightarrow> (dropped, write_failed (p, d\<lparr>ad_impressions := ad_impressions d @ take n (rows_of bs)\<rparr>))
           | None \<Rightarrow>
               (map (map_option im_id) bs,
                (foldl (\<lambda>p im. count_act (Written IMPRESSION_EVENT_LABEL) p) p (rows_of bs),
                 d\<lparr>ad_impressions := ad_impressions d @ rows_of bs\<rparr>))))"

definition record_impressions :: "act_env \<Rightarrow> act_faults \<Rightarrow> moment \<Rightarrow> string \<Rightarrow> shown_list \<Rightarrow> act_state
    \<Rightarrow> (string, string option list) result \<times> act_state" where
  "record_impressions e f now user l st =
     (let dropped = map (\<lambda>i. None) (sl_items l) in
      if ap_pool (fst st) \<and> sl_items l = [] then (Inr dropped, st)
      else case begin_call e f user st of
             (None, st1) \<Rightarrow> (Inr dropped, st1)
           | (Some s, st1) \<Rightarrow>
               (case prepare_impressions e f now user s l st1 of
                  (Inl err, st2) \<Rightarrow> (Inl err, st2)
                | (Inr bs, st2) \<Rightarrow>
                    if rows_of bs = [] then (Inr dropped, st2)
                    else case store_impressions e f (case sl_occurred l of None \<Rightarrow> now | Some t \<Rightarrow> t) bs st2 of
                           (ids, st3) \<Rightarrow> (Inr ids, st3)))"

text \<open>
  \<open>stamp_recommendation_impressions\<close>.  A served item has a native id or none, a score or none, and its
  other fields; the outcome of the call is the items with their \<open>impression_id\<close>.
\<close>

record served_item =
  sv_gm_id :: "string option"
  sv_score :: "rat option"
  sv_body :: string
  sv_impression :: "string option"

definition identified :: "served_item \<Rightarrow> bool" where
  "identified i \<longleftrightarrow> sv_gm_id i \<noteq> None \<and> sv_gm_id i \<noteq> Some []"

definition served_entries :: "served_item list \<Rightarrow> shown_item list" where
  "served_entries items =
     map (\<lambda>(n, i). \<lparr>si_position = int n, si_item = sv_gm_id i,
                    si_score = Some (case sv_score i of None \<Rightarrow> 0 | Some s \<Rightarrow> s), si_propensity = None\<rparr>)
         (filter (\<lambda>(n, i). identified i) (enumerate 1 items))"

definition count_unidentified :: "served_item list \<Rightarrow> act_process \<Rightarrow> act_process" where
  "count_unidentified items p =
     foldl (\<lambda>p i. if identified i then p else count_act (Failure ACTIVITY_NO_NATIVE_ID) p) p items"

text \<open>The ids go to the identified items in order (\<open>zip\<close>).\<close>

fun stamp_items :: "string option list \<Rightarrow> served_item list \<Rightarrow> served_item list" where
  "stamp_items ids [] = []"
| "stamp_items ids (i # rest) =
     (if identified i
      then (case ids of [] \<Rightarrow> i # stamp_items [] rest | x # xs \<Rightarrow> i\<lparr>sv_impression := x\<rparr> # stamp_items xs rest)
      else i # stamp_items ids rest)"

definition stamp_recommendation_impressions :: "act_env \<Rightarrow> act_faults \<Rightarrow> moment \<Rightarrow> string \<Rightarrow> string \<Rightarrow> served_item list
    \<Rightarrow> act_state \<Rightarrow> (string, served_item list) result \<times> act_state" where
  "stamp_recommendation_impressions e f now user policy items0 st =
     (let items = map (\<lambda>i. i\<lparr>sv_impression := None\<rparr>) items0 in
      if user = [] \<or> items = [] then (Inr items, st)
      else let (p, d) = st; entries = served_entries items; p1 = count_unidentified items p in
           if entries = [] then (Inr items, (p1, d))
           else let l = \<lparr>sl_surface = SURFACE_RECOMMENDATION, sl_policy = policy, sl_candidates = Some (ae_id e (ad_next d)),
                         sl_request = None, sl_occurred = None, sl_items = entries\<rparr>
                in case record_impressions e f now user l (p1, d\<lparr>ad_next := Suc (ad_next d)\<rparr>) of
                     (Inl err, st') \<Rightarrow> (Inl err, st')
                   | (Inr ids, st') \<Rightarrow> (Inr (stamp_items ids items), st'))"

end
