(* ===== verification/Activity_Account.thy ===== *)
theory Activity_Account
  imports Activity Valkey_Keys
begin

text \<open>
  The endpoints in front of the activity record, \<open>src/api/routers/activity.py\<close>: outcomes a client
  reports, consent, erasure across the three stores, and the export.

  Password, TOTP and hash functions, the text of a moment, and what the stores answer are arguments.
  A query that is refused in front of a response is the status 500.  Valkey is the one keyspace the
  routed client shows in strict mode, where a failure of either instance is raised.
\<close>

section \<open>Replies\<close>

datatype consent_entry = ConsentEntry string bool "moment option" "moment option"

datatype act_reply =
    ActError nat string
  | Recorded string string
  | ConsentState "consent_entry list"
  | ConsentSet string bool bool
  | Erased string nat nat "string list"

section \<open>Outcomes\<close>

definition RECOMMENDATION_OUTCOMES :: "string list" where
  "RECOMMENDATION_OUTCOMES =
     [''recommendation.opened'', ''recommendation.saved'', ''recommendation.dismissed'', ''recommendation.hidden'']"

definition FIT_OUTCOMES :: "string list" where
  "FIT_OUTCOMES = [''fit.opened'', ''fit.saved'', ''fit.dismissed'', ''fit.hidden'']"

definition CLIENT_REPORTABLE_OUTCOMES :: "string list" where
  "CLIENT_REPORTABLE_OUTCOMES = RECOMMENDATION_OUTCOMES @ FIT_OUTCOMES"

definition outcome_request :: "string \<Rightarrow> string \<Rightarrow> string \<Rightarrow> event_request" where
  "outcome_request type impression item =
     plain_event type [(''impression_id'', impression), (''item_id'', item)] (Some (type @ '':'' @ impression))"

text \<open>\<open>record_outcome\<close>, with the checks of its request model in front.\<close>

definition record_outcome :: "act_env \<Rightarrow> act_faults \<Rightarrow> moment \<Rightarrow> string \<Rightarrow> string \<Rightarrow> string \<Rightarrow> string \<Rightarrow> act_state
    \<Rightarrow> act_reply \<times> act_state" where
  "record_outcome e f now user type impression item st =
     (if strip type \<notin> set CLIENT_REPORTABLE_OUTCOMES then (ActError 422 ''event_type'', st)
      else case (ae_uuid e impression, ae_uuid e item) of
             (Some imp, Some it) \<Rightarrow>
               (Recorded (strip type) imp, record_event e f now user (outcome_request (strip type) imp it) st)
           | _ \<Rightarrow> (ActError 422 ''uuid'', st))"

section \<open>Consent\<close>

definition EVENT_CONSENT_GRANTED :: string where "EVENT_CONSENT_GRANTED = ''consent.granted''"
definition EVENT_CONSENT_REVOKED :: string where "EVENT_CONSENT_REVOKED = ''consent.revoked''"

text \<open>\<open>_SELECT_CONSENT\<close>: for each purpose of the user the first row by time and id, descending.\<close>

definition newest_grant :: "string \<Rightarrow> string \<Rightarrow> act_db \<Rightarrow> grant option" where
  "newest_grant user purpose d =
     (case rev (sort_key (\<lambda>g. (gr_at g, gr_id g)) (filter (\<lambda>g. gr_user g = user \<and> gr_purpose g = purpose) (ad_grants d))) of
        [] \<Rightarrow> None
      | g # gs \<Rightarrow> Some g)"

definition select_consent :: "string \<Rightarrow> act_db \<Rightarrow> grant list" where
  "select_consent user d =
     List.map_filter (\<lambda>purpose. newest_grant user purpose d)
       (sort (remdups (map gr_purpose (filter (\<lambda>g. gr_user g = user) (ad_grants d)))))"

text \<open>\<open>_consent_state\<close>.\<close>

definition consent_entry_of :: "(string \<times> grant) list \<Rightarrow> string \<Rightarrow> consent_entry" where
  "consent_entry_of latest purpose =
     (case map_of latest purpose of
        None \<Rightarrow> ConsentEntry purpose False None None
      | Some g \<Rightarrow> ConsentEntry purpose (gr_revoked g = None) (Some (gr_at g)) (gr_revoked g))"

definition consent_state :: "act_env \<Rightarrow> grant list \<Rightarrow> consent_entry list" where
  "consent_state e rows = map (consent_entry_of (rev (map (\<lambda>g. (gr_purpose g, g)) rows))) (ae_purposes e)"

definition get_consent :: "act_env \<Rightarrow> bool \<Rightarrow> string \<Rightarrow> act_state \<Rightarrow> act_reply" where
  "get_consent e refused user st =
     (if \<not> ap_pool (fst st) then ActError 503 ''Service not ready''
      else if refused then ActError 500 ''query''
      else ConsentState (consent_state e (select_consent user (snd st))))"

text \<open>\<open>_INSERT_GRANT\<close> and \<open>_REVOKE_GRANT\<close>, with whether a row came back.\<close>

definition insert_grant :: "moment \<Rightarrow> string \<Rightarrow> string \<Rightarrow> act_db \<Rightarrow> bool \<times> act_db" where
  "insert_grant now user purpose d =
     (if list_ex (active_grant user purpose) (ad_grants d) then (False, d)
      else (True, d\<lparr>ad_next := Suc (ad_next d),
                    ad_grants := ad_grants d @ [\<lparr>gr_id = ad_next d, gr_user = user, gr_purpose = purpose,
                                                 gr_at = now, gr_revoked = None\<rparr>]\<rparr>))"

definition close_grant :: "moment \<Rightarrow> string \<Rightarrow> string \<Rightarrow> grant \<Rightarrow> grant" where
  "close_grant now user purpose g = (if active_grant user purpose g then g\<lparr>gr_revoked := Some now\<rparr> else g)"

definition revoke_grant :: "moment \<Rightarrow> string \<Rightarrow> string \<Rightarrow> act_db \<Rightarrow> bool \<times> act_db" where
  "revoke_grant now user purpose d =
     (list_ex (active_grant user purpose) (ad_grants d),
      d\<lparr>ad_grants := map (close_grant now user purpose) (ad_grants d)\<rparr>)"

definition decide :: "moment \<Rightarrow> string \<Rightarrow> string \<Rightarrow> bool \<Rightarrow> act_db \<Rightarrow> bool \<times> act_db" where
  "decide now user purpose granted d =
     (if granted then insert_grant now user purpose d else revoke_grant now user purpose d)"

definition consent_event :: "(moment \<Rightarrow> string) \<Rightarrow> moment \<Rightarrow> string \<Rightarrow> bool \<Rightarrow> event_request" where
  "consent_event text_of now purpose granted =
     (let type = (if granted then EVENT_CONSENT_GRANTED else EVENT_CONSENT_REVOKED)
      in plain_event type [(''purpose'', purpose)] (Some (type @ '':'' @ purpose @ '':'' @ text_of now)))"

definition set_consent :: "act_env \<Rightarrow> (moment \<Rightarrow> string) \<Rightarrow> bool \<Rightarrow> act_faults \<Rightarrow> moment \<Rightarrow> string \<Rightarrow> string \<Rightarrow> bool
    \<Rightarrow> act_state \<Rightarrow> act_reply \<times> act_state" where
  "set_consent e text_of refused f now user purpose granted st =
     (if purpose \<notin> set (ae_purposes e) then (ActError 422 ''Unknown purpose'', st)
      else if \<not> ap_pool (fst st) then (ActError 503 ''Service not ready'', st)
      else if refused then (ActError 500 ''query'', st)
      else let (p, d) = st; (changed, d') = decide now user purpose granted d in
           (ConsentSet purpose granted changed,
            if changed then record_event e f now user (consent_event text_of now purpose granted) (p, d') else (p, d')))"

section \<open>Re-authentication\<close>

record credential_checks =
  cc_password :: "string \<Rightarrow> string \<Rightarrow> bool"
  cc_master_key :: bool
  cc_totp :: "string \<Rightarrow> string \<Rightarrow> bool"
  cc_hash :: string

definition account_of :: "string \<Rightarrow> act_db \<Rightarrow> account option" where
  "account_of user d = List.find (\<lambda>a. us_id a = user) (ad_accounts d)"

text \<open>\<open>_verify_erasure_credentials\<close>: what it raises, if anything.\<close>

definition verify_erasure_credentials :: "credential_checks \<Rightarrow> bool \<Rightarrow> string \<Rightarrow> string \<Rightarrow> string option \<Rightarrow> act_state
    \<Rightarrow> act_reply option" where
  "verify_erasure_credentials cc refused user password code st =
     (if \<not> ap_pool (fst st) then Some (ActError 503 ''Service not ready'')
      else if refused then Some (ActError 500 ''query'')
      else case account_of user (snd st) of
             None \<Rightarrow> Some (ActError 404 ''User not found'')
           | Some a \<Rightarrow>
               if \<not> cc_password cc password (us_hash a) then Some (ActError 401 ''Incorrect password'')
               else case us_totp_secret a of
                      None \<Rightarrow> None
                    | Some secret \<Rightarrow>
                        if \<not> us_totp_enabled a \<or> secret = [] then None
                        else case code of
                               None \<Rightarrow> Some (ActError 400 ''TOTP code is required while 2FA is enabled'')
                             | Some c \<Rightarrow>
                                 if c = [] then Some (ActError 400 ''TOTP code is required while 2FA is enabled'')
                                 else if \<not> cc_master_key cc then Some (ActError 503 ''Encryption not configured'')
                                 else if \<not> cc_totp cc secret c then Some (ActError 400 ''Invalid TOTP code'')
                                 else None)"


section \<open>Erasure in PostgreSQL\<close>

definition EVENT_ERASURE_REQUESTED :: string where "EVENT_ERASURE_REQUESTED = ''account.erasure_requested''"
definition EVENT_EXPORT_REQUESTED :: string where "EVENT_EXPORT_REQUESTED = ''account.export_requested''"

definition request_key :: "string \<Rightarrow> string \<Rightarrow> string" where
  "request_key type request = type @ '':'' @ request"

definition USER_OWNED_TABLES :: "string list" where
  "USER_OWNED_TABLES =
     [''catalog_item_moves'', ''observations'', ''collection_snapshots'', ''owned_copies'', ''user_collections'',
      ''user_wantlists'', ''sync_history'', ''app_tokens'', ''oauth_tokens'']"

definition ERASED_EMAIL_DOMAIN :: string where "ERASED_EMAIL_DOMAIN = ''invalid.groovemap''"

definition delete_events :: "string \<Rightarrow> act_db \<Rightarrow> nat \<times> act_db" where
  "delete_events s d =
     (length (filter (\<lambda>x. ev_subject x = s) (ad_events d)), d\<lparr>ad_events := filter (\<lambda>x. ev_subject x \<noteq> s) (ad_events d)\<rparr>)"

definition delete_impressions :: "string \<Rightarrow> act_db \<Rightarrow> nat \<times> act_db" where
  "delete_impressions s d =
     (length (filter (\<lambda>x. im_subject x = s) (ad_impressions d)),
      d\<lparr>ad_impressions := filter (\<lambda>x. im_subject x \<noteq> s) (ad_impressions d)\<rparr>)"

definition delete_subject :: "string \<Rightarrow> act_db \<Rightarrow> act_db" where
  "delete_subject user d = d\<lparr>ad_subjects := filter (\<lambda>(u, s). u \<noteq> user) (ad_subjects d)\<rparr>"

definition delete_owned :: "string \<Rightarrow> string \<Rightarrow> act_db \<Rightarrow> act_db" where
  "delete_owned user table d =
     d\<lparr>ad_owned := filter (\<lambda>r. \<not> (ow_table r = table \<and> ow_user r = user)) (ad_owned d)\<rparr>"

definition soft_erase :: "string \<Rightarrow> string \<Rightarrow> account \<Rightarrow> account" where
  "soft_erase user hash a =
     a\<lparr>us_email := ''erased+'' @ user @ ''@'' @ ERASED_EMAIL_DOMAIN, us_hash := hash, us_active := False,
       us_totp_secret := None, us_totp_enabled := False, us_recovery := None, us_failed := 0, us_locked := None\<rparr>"

definition soft_erase_user :: "string \<Rightarrow> string \<Rightarrow> act_db \<Rightarrow> act_db" where
  "soft_erase_user user hash d =
     d\<lparr>ad_accounts := map (\<lambda>a. if us_id a = user then soft_erase user hash a else a) (ad_accounts d)\<rparr>"

text \<open>\<open>_erase_postgres\<close>, one transaction: the id of its record and the rows deleted.\<close>

definition erase_postgres :: "act_env \<Rightarrow> moment \<Rightarrow> string \<Rightarrow> string \<Rightarrow> string \<Rightarrow> act_db \<Rightarrow> (string \<times> nat \<times> nat) \<times> act_db" where
  "erase_postgres e requested hash user s d =
     (let keys = ae_key_count e (ad_events d) s;
          (events, d1) = delete_events s d;
          (impressions, d2) = delete_impressions s d1;
          d3 = delete_subject user d2;
          record_id = ae_id e (ad_next d3);
          d4 = d3\<lparr>ad_next := Suc (ad_next d3),
                  ad_erasures := ad_erasures d3 @ [\<lparr>er_id = record_id, er_subject = s, er_requested = requested,
                    er_events = events, er_impressions = impressions, er_keys = keys, er_models = []\<rparr>]\<rparr>;
          d5 = foldl (\<lambda>d table. delete_owned user table d) d4 USER_OWNED_TABLES
      in ((record_id, events, impressions), soft_erase_user user hash d5))"

section \<open>Erasure in the graph and in Valkey\<close>

text \<open>
  The graph as the erasure sees it: the users that have a node; Valkey: its keys.  \<open>es_missed\<close> are the
  matching keys the invalidation's sweep did not delete (none when it ran through), \<open>es_matches\<close> the
  server's glob matching and \<open>es_pages\<close> how it pages a scan; the others say which steps are refused.
\<close>

record erase_servers =
  es_driver :: bool
  es_graph_fails :: bool
  es_client :: bool
  es_missed :: "string \<Rightarrow> bool"
  es_matches :: "string \<Rightarrow> string \<Rightarrow> bool"
  es_pages :: "string list \<Rightarrow> string list list"
  es_delete_fails :: bool
  es_scan_fails :: bool
  es_revoke_fails :: bool

record stores =
  so_graph_users :: "string list"
  so_keys :: "string list"

definition erase_neo4j :: "erase_servers \<Rightarrow> string \<Rightarrow> stores \<Rightarrow> string option \<times> stores" where
  "erase_neo4j es user w =
     (if \<not> es_driver es then (Some ''Neo4j is not configured; the user node was not removed'', w)
      else if es_graph_fails es then (Some ''Neo4j deletion failed'', w)
      else (None, w\<lparr>so_graph_users := filter (\<lambda>u. u \<noteq> user) (so_graph_users w)\<rparr>))"

definition recommendation_patterns :: "(string \<Rightarrow> string) \<Rightarrow> string \<Rightarrow> string list" where
  "recommendation_patterns pattern user =
     [pattern (''recommend:explore:'' @ user @ '':*''), pattern (''recommend:enhanced:'' @ user)]"

definition erasure_keys :: "vk_config \<Rightarrow> string \<Rightarrow> string list" where
  "erasure_keys c user =
     [vc_key c (''snapshot:usercount:'' @ user), vc_key c (''sync:lock:'' @ user), vc_key c (''sync:cooldown:'' @ user)]"

text \<open>\<open>RecommendCache.invalidate_user\<close>, which logs what its sweep raises and returns.\<close>

definition matches_any :: "erase_servers \<Rightarrow> string list \<Rightarrow> string \<Rightarrow> bool" where
  "matches_any es patterns k \<longleftrightarrow> list_ex (\<lambda>pat. es_matches es pat k) patterns"

definition invalidate_user :: "erase_servers \<Rightarrow> string list \<Rightarrow> stores \<Rightarrow> stores" where
  "invalidate_user es patterns w =
     w\<lparr>so_keys := filter (\<lambda>k. \<not> matches_any es patterns k \<or> es_missed es k) (so_keys w)\<rparr>"

text \<open>\<open>_surviving_recommendation_keys\<close>: the keys of every page of every scan.\<close>

definition surviving_keys :: "erase_servers \<Rightarrow> string list \<Rightarrow> stores \<Rightarrow> nat" where
  "surviving_keys es patterns w =
     sum_list (map (\<lambda>pat. sum_list (map length (es_pages es (filter (es_matches es pat) (so_keys w))))) patterns)"

definition erase_valkey :: "vk_config \<Rightarrow> (string \<Rightarrow> string) \<Rightarrow> erase_servers \<Rightarrow> string \<Rightarrow> stores
    \<Rightarrow> string option \<times> stores" where
  "erase_valkey c pattern es user w =
     (if \<not> es_client es then (Some ''Valkey is not configured; per-user cache keys were not removed'', w)
      else case (with_legacy_patterns c (recommendation_patterns pattern user), with_legacy_keys c (erasure_keys c user)) of
             (Inr patterns, Inr ks) \<Rightarrow>
               let w1 = invalidate_user es patterns w in
               if es_delete_fails es then (Some ''Valkey deletion failed'', w1)
               else let w2 = w1\<lparr>so_keys := filter (\<lambda>k. k \<notin> set ks) (so_keys w1)\<rparr> in
                    if es_scan_fails es then (Some ''Valkey deletion failed'', w2)
                    else if surviving_keys es patterns w2 \<noteq> 0
                         then (Some (''Valkey deletion incomplete: '' @ show_nat (surviving_keys es patterns w2)
                                     @ '' recommendation key(s) survived''), w2)
                         else (None, w2)
           | _ \<Rightarrow> (Some ''Valkey deletion failed'', w))"

text \<open>\<open>_revoke_caller_token\<close>; an entry's lifetime is not needed here.\<close>

definition revoke_caller_token :: "vk_config \<Rightarrow> erase_servers \<Rightarrow> string option \<Rightarrow> stores \<Rightarrow> stores" where
  "revoke_caller_token c es jti w =
     (case jti of
        None \<Rightarrow> w
      | Some j \<Rightarrow>
          if \<not> es_client es \<or> j = [] \<or> es_revoke_fails es then w
          else w\<lparr>so_keys := List.insert (vc_key c (''revoked:jti:'' @ j)) (so_keys w)\<rparr>)"

section \<open>The erasure endpoint\<close>

record erase_call =
  eb_user :: string
  eb_jti :: "string option"
  eb_password :: string
  eb_code :: "string option"

definition request_erasure :: "act_env \<Rightarrow> credential_checks \<Rightarrow> vk_config \<Rightarrow> (string \<Rightarrow> string) \<Rightarrow> erase_servers
    \<Rightarrow> bool \<Rightarrow> bool \<Rightarrow> act_faults \<Rightarrow> moment \<Rightarrow> erase_call \<Rightarrow> act_state \<times> stores \<Rightarrow> act_reply \<times> act_state \<times> stores" where
  "request_erasure e cc c pattern es refused tx_fails f now q sw =
     (let (st, w) = sw; user = eb_user q in
      case verify_erasure_credentials cc refused user (eb_password q) (eb_code q) st of
        Some err \<Rightarrow> (err, st, w)
      | None \<Rightarrow>
          (case subject_for e (af_subject f) user st of
             (None, st1) \<Rightarrow> (ActError 503 ''Could not resolve the activity subject'', st1, w)
           | (Some s, (p1, d1)) \<Rightarrow>
               let request = ae_id e (ad_next d1);
                   q1 = plain_event EVENT_ERASURE_REQUESTED [(''erasure_id'', request)]
                          (Some (request_key EVENT_ERASURE_REQUESTED request));
                   (p2, d2) = record_event e f now user q1 (p1, d1\<lparr>ad_next := Suc (ad_next d1)\<rparr>) in
               if tx_fails then (ActError 500 ''transaction'', (p2, d2), w)
               else let ((record_id, events, impressions), d3) = erase_postgres e now (cc_hash cc) user s d2;
                        (graph_failure, w1) = erase_neo4j es user w;
                        (valkey_failure, w2) = erase_valkey c pattern es user w1;
                        w3 = revoke_caller_token c es (eb_jti q) w2
                    in (Erased record_id events impressions
                          (List.map_filter (\<lambda>x. x) [graph_failure, valkey_failure]),
                        (forget_subject user p2, d3), w3)))"

section \<open>Export\<close>

datatype export_line =
    EventLine act_event
  | ImpressionLine impression
  | OwnedLine string owned_row
  | GrantLine grant

text \<open>The columns a line carries: all but the subject and the user.\<close>

definition event_line :: "act_event \<Rightarrow> export_line" where
  "event_line x = EventLine (x\<lparr>ev_subject := []\<rparr>)"

definition impression_line :: "impression \<Rightarrow> export_line" where
  "impression_line x = ImpressionLine (x\<lparr>im_subject := []\<rparr>)"

definition owned_line :: "string \<Rightarrow> owned_row \<Rightarrow> export_line" where
  "owned_line kind r = OwnedLine kind (r\<lparr>ow_user := []\<rparr>)"

definition grant_line :: "grant \<Rightarrow> export_line" where
  "grant_line g = GrantLine (g\<lparr>gr_user := []\<rparr>)"

definition export_events :: "string \<Rightarrow> act_db \<Rightarrow> export_line list" where
  "export_events s d =
     map event_line (sort_key (\<lambda>x. (ev_occurred x, ev_id x)) (filter (\<lambda>x. ev_subject x = s) (ad_events d)))"

definition export_impressions :: "string \<Rightarrow> act_db \<Rightarrow> export_line list" where
  "export_impressions s d =
     map impression_line (sort_key (\<lambda>x. (im_occurred x, im_id x)) (filter (\<lambda>x. im_subject x = s) (ad_impressions d)))"

definition export_by_id :: "string \<Rightarrow> string \<Rightarrow> string \<Rightarrow> act_db \<Rightarrow> export_line list" where
  "export_by_id kind table user d =
     map (owned_line kind) (sort_key ow_id (filter (\<lambda>r. ow_table r = table \<and> ow_user r = user) (ad_owned d)))"

definition export_by_time :: "string \<Rightarrow> string \<Rightarrow> string \<Rightarrow> act_db \<Rightarrow> export_line list" where
  "export_by_time kind table user d =
     map (owned_line kind) (sort_key (\<lambda>r. (ow_at r, ow_id r)) (filter (\<lambda>r. ow_table r = table \<and> ow_user r = user) (ad_owned d)))"

definition export_grants :: "string \<Rightarrow> act_db \<Rightarrow> export_line list" where
  "export_grants user d =
     map grant_line (sort_key (\<lambda>g. (gr_at g, gr_id g)) (filter (\<lambda>g. gr_user g = user) (ad_grants d)))"

text \<open>
  \<open>_EXPORT_SECTIONS\<close>, each a query, the first two only with a subject.  The connection commits every
  statement, so section \<open>i\<close> reads the database as it is then: \<open>db i\<close>.
\<close>

definition EXPORT_SECTIONS :: "string option \<Rightarrow> string \<Rightarrow> (act_db \<Rightarrow> export_line list) list" where
  "EXPORT_SECTIONS s user =
     [(\<lambda>d. case s of None \<Rightarrow> [] | Some x \<Rightarrow> export_events x d),
      (\<lambda>d. case s of None \<Rightarrow> [] | Some x \<Rightarrow> export_impressions x d),
      export_by_id ''collection_item'' ''user_collections'' user,
      export_by_id ''wantlist_item'' ''user_wantlists'' user,
      export_by_id ''owned_copy'' ''owned_copies'' user,
      export_by_id ''observation'' ''observations'' user,
      export_by_time ''catalog_item_move'' ''catalog_item_moves'' user,
      export_by_time ''collection_snapshot'' ''collection_snapshots'' user,
      export_grants user]"

definition export_lines :: "string \<Rightarrow> string option \<Rightarrow> (nat \<Rightarrow> act_db) \<Rightarrow> export_line list" where
  "export_lines user s db = concat (map (\<lambda>(i, section_of). section_of (db i)) (enumerate 0 (EXPORT_SECTIONS s user)))"

text \<open>\<open>export_account\<close>: the status of a refusal, or the state after the request's event and the lines of its stream.\<close>

definition export_account :: "act_env \<Rightarrow> act_faults \<Rightarrow> moment \<Rightarrow> string \<Rightarrow> (act_db \<Rightarrow> nat \<Rightarrow> act_db) \<Rightarrow> act_state
    \<Rightarrow> (nat, export_line list) result \<times> act_state" where
  "export_account e f now user later st =
     (if \<not> ap_pool (fst st) then (Inl 503, st)
      else let (s, (p1, d1)) = subject_for e (af_subject f) user st;
               request = ae_id e (ad_next d1);
               q = plain_event EVENT_EXPORT_REQUESTED [(''export_id'', request), (''format'', ''jsonl'')]
                     (Some (request_key EVENT_EXPORT_REQUESTED request));
               st2 = record_event e f now user q (p1, d1\<lparr>ad_next := Suc (ad_next d1)\<rparr>)
           in (Inr (export_lines user s (later (snd st2))), st2))"

end
