(* ===== verification/Activity_Runs.thy ===== *)
theory Activity_Runs
  imports Activity_Account
begin

text \<open>
  The service as it runs: several processes with their own caches over one database, each answering
  calls that wait for the database three times, so that steps of different calls interleave with one
  another, with decisions on consent, with erasures and with restarts.  A call is a writer; its
  \<open>act_pc\<close> says what it waits for.  Alone, it is the function of \<open>src/api/activity.py\<close>.
\<close>

section \<open>Calls and their steps\<close>

datatype act_call =
    EventCall event_request
  | BatchCall "(string \<times> (string \<times> string) list \<times> string option) list"
  | ListCall shown_list

datatype act_pc =
    Arrived
  | Known string
  | HasEvent act_event
  | HasEvents moment "act_event list"
  | HasRows moment "impression option list"
  | Answered "string option list"
  | Rejected string

record act_writer =
  wr_process :: nat
  wr_user :: string
  wr_call :: act_call
  wr_pc :: act_pc

fun nothing_to_do :: "act_call \<Rightarrow> bool" where
  "nothing_to_do (EventCall q) \<longleftrightarrow> False"
| "nothing_to_do (BatchCall evs) \<longleftrightarrow> evs = []"
| "nothing_to_do (ListCall l) \<longleftrightarrow> sl_items l = []"

fun all_dropped :: "act_call \<Rightarrow> string option list" where
  "all_dropped (ListCall l) = map (\<lambda>i. None) (sl_items l)"
| "all_dropped c = []"

definition prepare_call :: "act_env \<Rightarrow> act_faults \<Rightarrow> moment \<Rightarrow> string \<Rightarrow> string \<Rightarrow> act_call \<Rightarrow> act_state
    \<Rightarrow> act_pc \<times> act_state" where
  "prepare_call e f now user s c st =
     (case c of
        EventCall q \<Rightarrow>
          (case prepare_event e f now user s q st of
             (None, st') \<Rightarrow> (Answered [], st')
           | (Some ev, st') \<Rightarrow> (HasEvent ev, st'))
      | BatchCall evs \<Rightarrow>
          (case prepare_events e f now user s evs st of
             (built, st') \<Rightarrow> (if built = [] then Answered [] else HasEvents now built, st'))
      | ListCall l \<Rightarrow>
          (case prepare_impressions e f now user s l st of
             (Inl err, st') \<Rightarrow> (Rejected err, st')
           | (Inr bs, st') \<Rightarrow>
               (if rows_of bs = [] then Answered (all_dropped c)
                else HasRows (case sl_occurred l of None \<Rightarrow> now | Some t \<Rightarrow> t) bs, st')))"

definition call_step :: "act_env \<Rightarrow> act_faults \<Rightarrow> moment \<Rightarrow> act_writer \<Rightarrow> act_state \<Rightarrow> act_pc \<times> act_state" where
  "call_step e f now w st =
     (case wr_pc w of
        Arrived \<Rightarrow>
          if ap_pool (fst st) \<and> nothing_to_do (wr_call w) then (Answered (all_dropped (wr_call w)), st)
          else (case begin_call e f (wr_user w) st of
                  (None, st') \<Rightarrow> (Answered (all_dropped (wr_call w)), st')
                | (Some s, st') \<Rightarrow> (Known s, st'))
      | Known s \<Rightarrow> prepare_call e f now (wr_user w) s (wr_call w) st
      | HasEvent ev \<Rightarrow> (Answered [], store_event e f ev st)
      | HasEvents t evs \<Rightarrow> (Answered [], store_events e f t evs st)
      | HasRows t bs \<Rightarrow> (case store_impressions e f t bs st of (ids, st') \<Rightarrow> (Answered ids, st'))
      | pc \<Rightarrow> (pc, st))"

text \<open>A call that nothing interrupts takes at most three steps.\<close>

definition alone :: "act_env \<Rightarrow> act_faults \<Rightarrow> moment \<Rightarrow> string \<Rightarrow> act_call \<Rightarrow> act_state \<Rightarrow> act_pc \<times> act_state" where
  "alone e f now user c st =
     ((\<lambda>(pc, st). call_step e f now \<lparr>wr_process = 0, wr_user = user, wr_call = c, wr_pc = pc\<rparr> st) ^^ 3) (Arrived, st)"

lemma alone_steps:
  "alone e f now user c st =
     (let go = (\<lambda>(pc, st). call_step e f now \<lparr>wr_process = 0, wr_user = user, wr_call = c, wr_pc = pc\<rparr> st)
      in go (go (go (Arrived, st))))"
  by (simp add: alone_def eval_nat_numeral Let_def)

lemma call_step_ended [simp]:
  "wr_pc w = Answered ids \<Longrightarrow> call_step e f now w st = (Answered ids, st)"
  "wr_pc w = Rejected err \<Longrightarrow> call_step e f now w st = (Rejected err, st)"
  by (simp_all add: call_step_def)

lemma alone_event: "alone e f now user (EventCall q) st = (Answered [], record_event e f now user q st)"
proof -
  obtain so st1 where b: "begin_call e f user st = (so, st1)" by (rule prod.exhaust)
  show ?thesis
  proof (cases so)
    case (Some s)
    obtain x st2 where p: "prepare_event e f now user s q st1 = (x, st2)" by (rule prod.exhaust)
    from b p Some show ?thesis
      by (cases x) (simp_all add: alone_steps Let_def call_step_def prepare_call_def record_event_def)
  qed (use b in \<open>simp add: alone_steps Let_def call_step_def record_event_def\<close>)
qed

lemma alone_batch: "alone e f now user (BatchCall evs) st = (Answered [], record_events e f now user evs st)"
proof -
  obtain so st1 where b: "begin_call e f user st = (so, st1)" by (rule prod.exhaust)
  show ?thesis
  proof (cases so)
    case (Some s)
    obtain x st2 where p: "prepare_events e f now user s evs st1 = (x, st2)" by (rule prod.exhaust)
    from b p Some show ?thesis
      by (cases "x = []") (simp_all add: alone_steps Let_def call_step_def prepare_call_def record_events_def)
  qed (use b in \<open>simp add: alone_steps Let_def call_step_def record_events_def\<close>)
qed

lemma alone_list:
  "alone e f now user (ListCall l) st =
     (case record_impressions e f now user l st of
        (Inl err, st') \<Rightarrow> (Rejected err, st')
      | (Inr ids, st') \<Rightarrow> (Answered ids, st'))"
proof -
  obtain so st1 where b: "begin_call e f user st = (so, st1)" by (rule prod.exhaust)
  show ?thesis
  proof (cases so)
    case (Some s)
    obtain x st2 where p: "prepare_impressions e f now user s l st1 = (x, st2)" by (rule prod.exhaust)
    from b p Some show ?thesis
      by (cases x) (simp_all add: alone_steps Let_def call_step_def prepare_call_def record_impressions_def split: prod.splits)
  qed (use b in \<open>simp add: alone_steps Let_def call_step_def record_impressions_def\<close>)
qed

section \<open>The service\<close>

record act_world =
  aw_db :: act_db
  aw_processes :: "act_process list"
  aw_writers :: "act_writer list"

text \<open>
  A call arrives at a process; a call takes its next step; a user decides on a purpose; a process
  serves an erasure, from resolving the subject to forgetting it; a process restarts.
\<close>

datatype act_move =
    Call nat string act_call
  | Turn nat act_faults moment
  | Decide moment string string bool
  | Erase nat bool moment string string
  | Restart nat

definition serve_erasure :: "act_env \<Rightarrow> bool \<Rightarrow> moment \<Rightarrow> string \<Rightarrow> string \<Rightarrow> act_state \<Rightarrow> act_state" where
  "serve_erasure e refused now hash user st =
     (case subject_for e refused user st of
        (None, st') \<Rightarrow> st'
      | (Some s, (p, d)) \<Rightarrow> (forget_subject user p, snd (erase_postgres e now hash user s d)))"

definition at_process :: "nat \<Rightarrow> (act_state \<Rightarrow> act_state) \<Rightarrow> act_world \<Rightarrow> act_world" where
  "at_process i g w =
     (if i < length (aw_processes w)
      then case g (aw_processes w ! i, aw_db w) of
             (p, d) \<Rightarrow> w\<lparr>aw_db := d, aw_processes := (aw_processes w)[i := p]\<rparr>
      else w)"

definition take_turn :: "act_env \<Rightarrow> nat \<Rightarrow> act_faults \<Rightarrow> moment \<Rightarrow> act_world \<Rightarrow> act_world" where
  "take_turn e i f now w =
     (if i < length (aw_writers w)
      then let wr = aw_writers w ! i; k = wr_process wr in
           if k < length (aw_processes w)
           then case call_step e f now wr (aw_processes w ! k, aw_db w) of
                  (pc, (p, d)) \<Rightarrow> w\<lparr>aw_db := d, aw_processes := (aw_processes w)[k := p],
                                   aw_writers := (aw_writers w)[i := wr\<lparr>wr_pc := pc\<rparr>]\<rparr>
           else w
      else w)"

fun act_move_step :: "act_env \<Rightarrow> act_move \<Rightarrow> act_world \<Rightarrow> act_world" where
  "act_move_step e (Call k user c) w =
     w\<lparr>aw_writers := aw_writers w @ [\<lparr>wr_process = k, wr_user = user, wr_call = c, wr_pc = Arrived\<rparr>]\<rparr>"
| "act_move_step e (Turn i f now) w = take_turn e i f now w"
| "act_move_step e (Decide now user purpose granted) w = w\<lparr>aw_db := snd (decide now user purpose granted (aw_db w))\<rparr>"
| "act_move_step e (Erase k refused now hash user) w = at_process k (serve_erasure e refused now hash user) w"
| "act_move_step e (Restart k) w = at_process k (\<lambda>(p, d). (reset_caches p, d)) w"

definition act_run :: "act_env \<Rightarrow> act_move list \<Rightarrow> act_world \<Rightarrow> act_world" where
  "act_run e ms w = foldl (\<lambda>w m. act_move_step e m w) w ms"

text \<open>The service as it starts: nothing cached, nothing on its way.\<close>

definition fresh_process :: "act_process \<Rightarrow> bool" where
  "fresh_process p \<longleftrightarrow> ap_subjects p = [] \<and> ap_ensured p = []"

definition started :: "act_world \<Rightarrow> bool" where
  "started w \<longleftrightarrow> list_all fresh_process (aw_processes w) \<and> aw_writers w = []"

end
