(* ===== verification/Activity_Properties.thy ===== *)
theory Activity_Properties
  imports Activity_Runs
begin

text \<open>
  Properties of the recorder and of the endpoints in front of it, one call at a time: what an event
  call leaves and counts, which impressions a caller is told of, what an erasure and an export hold,
  and that consent is the last decision.
\<close>

section \<open>What the environment promises\<close>

text \<open>Generated ids are distinct UUIDs, and the trigger claims a key for the event that is stored under it.\<close>

definition ids_unique :: "act_env \<Rightarrow> bool" where
  "ids_unique e \<longleftrightarrow> inj (ae_id e) \<and> (\<forall>n. ae_id e n \<noteq> [] \<and> ae_uuid e (ae_id e n) = Some (ae_id e n))"

definition claims_keys :: "act_env \<Rightarrow> bool" where
  "claims_keys e \<longleftrightarrow> (\<forall>evs s k. ae_held e evs s k \<longleftrightarrow> (\<exists>x \<in> set evs. ev_subject x = s \<and> ev_key x = k))"

definition sample_schema :: "string \<Rightarrow> (string list \<times> string list) option" where
  "sample_schema type =
     (if type \<in> set CLIENT_REPORTABLE_OUTCOMES then Some ([''impression_id'', ''item_id''], [''impression_id'', ''item_id''])
      else if type = EVENT_CONSENT_GRANTED \<or> type = EVENT_CONSENT_REVOKED then Some ([''purpose''], [''purpose''])
      else if type = EVENT_ERASURE_REQUESTED then Some ([''erasure_id''], [''erasure_id''])
      else if type = EVENT_EXPORT_REQUESTED then Some ([''export_id''], [''export_id'', ''format''])
      else None)"

definition sample_held :: "act_event list \<Rightarrow> string \<Rightarrow> string \<Rightarrow> bool" where
  "sample_held evs s k \<longleftrightarrow> list_ex (\<lambda>x. ev_subject x = s \<and> ev_key x = k) evs"

definition sample_act_env :: act_env where
  "sample_act_env =
     \<lparr>ae_schema = sample_schema, ae_purposes = [''product_analytics'', ''model_training''], ae_event_ok = (\<lambda>x. True),
      ae_impression_ok = (\<lambda>x. 1 \<le> im_position x \<and> 0 < im_propensity x \<and> im_propensity x \<le> 1), ae_version = 1,
      ae_uuid = (\<lambda>s. if s = [] then None else Some s), ae_id = (\<lambda>n. CHR ''u'' # replicate n CHR ''0''),
      ae_held = sample_held, ae_key_count = (\<lambda>evs s. length (filter (\<lambda>x. ev_subject x = s) evs))\<rparr>"

lemma sample_env_laws [simp]: "ids_unique sample_act_env" "claims_keys sample_act_env"
proof -
  have "inj (\<lambda>n. CHR ''u'' # replicate n CHR ''0'')"
    by (rule injI) (metis length_replicate list.inject)
  then show "ids_unique sample_act_env" by (simp add: ids_unique_def sample_act_env_def)
  show "claims_keys sample_act_env" by (simp add: claims_keys_def sample_act_env_def sample_held_def list_ex_iff Bex_def)
qed

definition empty_act_db :: act_db where
  "empty_act_db = \<lparr>ad_next = 0, ad_subjects = [], ad_grants = [], ad_events = [], ad_impressions = [],
     ad_partitions = [], ad_erasures = [], ad_owned = [], ad_accounts = []\<rparr>"

definition new_process :: act_process where
  "new_process = \<lparr>ap_pool = True, ap_subjects = [], ap_ensured = [], ap_counts = []\<rparr>"

section \<open>Caches that agree with the database\<close>

definition coherent :: "act_process \<Rightarrow> act_db \<Rightarrow> bool" where
  "coherent p d \<longleftrightarrow> (\<forall>u s. map_of (ap_subjects p) u = Some s \<longrightarrow> map_of (ad_subjects d) u = Some s)
     \<and> set (ap_ensured p) \<subseteq> set (ad_partitions d)"

text \<open>What recording leaves alone, up to the events and impressions it adds.\<close>

definition only_records :: "string \<Rightarrow> act_db \<Rightarrow> act_db \<Rightarrow> bool" where
  "only_records user d d' \<longleftrightarrow> ad_grants d' = ad_grants d \<and> ad_erasures d' = ad_erasures d \<and> ad_owned d' = ad_owned d
     \<and> ad_accounts d' = ad_accounts d \<and> (\<forall>u. u \<noteq> user \<longrightarrow> map_of (ad_subjects d') u = map_of (ad_subjects d) u)
     \<and> (\<forall>s. map_of (ad_subjects d) user = Some s \<longrightarrow> map_of (ad_subjects d') user = Some s)
     \<and> set (ad_partitions d) \<subseteq> set (ad_partitions d') \<and> ad_next d \<le> ad_next d'"

definition same_rows :: "act_db \<Rightarrow> act_db \<Rightarrow> bool" where
  "same_rows d d' \<longleftrightarrow> ad_events d' = ad_events d \<and> ad_impressions d' = ad_impressions d"

lemma only_records_refl [simp]: "only_records user d d"
  by (simp add: only_records_def)

lemma only_records_trans: "only_records user d d1 \<Longrightarrow> only_records user d1 d2 \<Longrightarrow> only_records user d d2"
  by (auto simp: only_records_def)

lemma same_rows_refl [simp]: "same_rows d d"
  by (simp add: same_rows_def)

lemma same_rows_trans: "same_rows d d1 \<Longrightarrow> same_rows d1 d2 \<Longrightarrow> same_rows d d2"
  by (simp add: same_rows_def)

lemma count_act_simps [simp]:
  "ap_pool (count_act c p) = ap_pool p" "ap_subjects (count_act c p) = ap_subjects p"
  "ap_ensured (count_act c p) = ap_ensured p" "ap_counts (count_act c p) = ap_counts p @ [c]"
  by (simp_all add: count_act_def)

lemma coherent_count [simp]: "coherent (count_act c p) d = coherent p d"
  by (simp add: coherent_def)

lemma coherent_cong:
  "ap_subjects p' = ap_subjects p \<Longrightarrow> ap_ensured p' = ap_ensured p \<Longrightarrow> ad_subjects d' = ad_subjects d
     \<Longrightarrow> ad_partitions d' = ad_partitions d \<Longrightarrow> coherent p' d' = coherent p d"
  by (simp add: coherent_def)

lemma upsert_subject_link:
  assumes "upsert_subject e user d = (s, d')"
  shows "map_of (ad_subjects d') user = Some s" "only_records user d d'" "same_rows d d'"
    "\<And>u t. map_of (ad_subjects d) u = Some t \<Longrightarrow> map_of (ad_subjects d') u = Some t"
    "ad_partitions d' = ad_partitions d"
  using assms
  by (auto simp: upsert_subject_def only_records_def same_rows_def Let_def map_add_def split: option.splits)

lemma subject_for_link:
  assumes "coherent p d" "subject_for e r user (p, d) = (so, (p', d'))"
  shows "coherent p' d'" "only_records user d d'" "same_rows d d'" "ap_counts p' = ap_counts p" "ap_pool p' = ap_pool p"
    "so = Some s \<Longrightarrow> map_of (ad_subjects d') user = Some s"
    "so = None \<Longrightarrow> \<not> ap_pool p \<or> r"
proof -
  have "coherent p' d' \<and> only_records user d d' \<and> same_rows d d' \<and> ap_counts p' = ap_counts p \<and> ap_pool p' = ap_pool p
    \<and> (so = Some s \<longrightarrow> map_of (ad_subjects d') user = Some s) \<and> (so = None \<longrightarrow> \<not> ap_pool p \<or> r)"
  proof (cases "map_of (ap_subjects p) user")
    case None
    obtain t d1 where u: "upsert_subject e user d = (t, d1)" by (rule prod.exhaust)
    note link = upsert_subject_link [OF u]
    show ?thesis
    proof (cases "ap_pool p \<and> \<not> r")
      case True
      with assms(2) None u have "so = Some t" "d' = d1" "p' = p\<lparr>ap_subjects := dict_set user t (ap_subjects p)\<rparr>"
        by (simp_all add: subject_for_def)
      with link assms(1) True show ?thesis by (simp add: coherent_def)
    qed (use assms None in \<open>auto simp: subject_for_def\<close>)
  qed (use assms in \<open>auto simp: subject_for_def coherent_def\<close>)
  then show "coherent p' d'" "only_records user d d'" "same_rows d d'" "ap_counts p' = ap_counts p" "ap_pool p' = ap_pool p"
    "so = Some s \<Longrightarrow> map_of (ad_subjects d') user = Some s" "so = None \<Longrightarrow> \<not> ap_pool p \<or> r" by auto
qed

lemma ensure_partition_facts:
  assumes "coherent p d" "ensure_partition r table t (p, d) = (ok, (p', d'))"
  shows "coherent p' d'" "only_records user d d'" "same_rows d d'" "ap_counts p' = ap_counts p" "ap_pool p' = ap_pool p"
    "ad_subjects d' = ad_subjects d" "ok \<Longrightarrow> (table, month_of t) \<in> set (ad_partitions d')" "\<not> ok \<Longrightarrow> r"
  using assms by (auto simp: ensure_partition_def coherent_def only_records_def same_rows_def Let_def split: if_splits)


section \<open>One event call\<close>

definition consented :: "act_db \<Rightarrow> string \<Rightarrow> string \<Rightarrow> bool" where
  "consented d user purpose \<longleftrightarrow> (\<exists>g \<in> set (ad_grants d). active_grant user purpose g)"

definition snapshot_purposes :: "act_env \<Rightarrow> act_db \<Rightarrow> string \<Rightarrow> string list" where
  "snapshot_purposes e d user = filter (consented d user) (ae_purposes e)"

lemma active_purposes_snapshot:
  "active_purposes e r user (p, d) = (if ap_pool p \<and> \<not> r then snapshot_purposes e d user else [])"
  by (simp add: active_purposes_def snapshot_purposes_def consented_def list_ex_iff cong: filter_cong)

lemma snapshot_purposes_cong: "ad_grants d' = ad_grants d \<Longrightarrow> snapshot_purposes e d' user = snapshot_purposes e d user"
  by (simp add: snapshot_purposes_def consented_def cong: filter_cong)

text \<open>The row that is owed to a request.\<close>

definition row_of_request :: "act_env \<Rightarrow> moment \<Rightarrow> string \<Rightarrow> string list \<Rightarrow> event_request \<Rightarrow> act_event \<Rightarrow> bool" where
  "row_of_request e now s purposes q ev \<longleftrightarrow>
     ev_type ev = eq_type q \<and> ev_payload ev = eq_payload q \<and> ev_subject ev = s \<and> ev_purposes ev = purposes
     \<and> validate_payload e (eq_type q) (eq_payload q) = Inr () \<and> as_uuid e (eq_session q) = Inr (ev_session ev)
     \<and> ae_event_ok e ev \<and> ev_occurred ev = (case eq_occurred q of None \<Rightarrow> now | Some t \<Rightarrow> t) \<and> ev_recorded ev = now
     \<and> (\<forall>k. eq_key q = Some k \<and> k \<noteq> [] \<longrightarrow> ev_key ev = k)"

lemma build_event_some:
  assumes "build_event e now s purposes q (p, d) = (Some ev, (p', d'))"
  shows "row_of_request e now s purposes q ev" "p' = p" "d' = d\<lparr>ad_next := Suc (Suc (ad_next d))\<rparr>"
    "ev_id ev = ae_id e (Suc (ad_next d))" "ev_key ev = fresh_if_empty e (ad_next d) (eq_key q)"
  using assms
  by (auto simp: build_event_def row_of_request_def envelope_def fresh_if_empty_def Let_def
      split: sum.splits if_splits unit.splits)

lemma build_event_none:
  assumes "build_event e now s purposes q (p, d) = (None, (p', d'))"
  shows "p' = count_act (Failure ACTIVITY_INVALID) p" "d' = d"
  using assms by (auto simp: build_event_def Let_def split: sum.splits if_splits unit.splits)

text \<open>A request that the vocabulary accepts.\<close>

definition acceptable :: "act_env \<Rightarrow> event_request \<Rightarrow> bool" where
  "acceptable e q \<longleftrightarrow> validate_payload e (eq_type q) (eq_payload q) = Inr ()
     \<and> (\<exists>u. as_uuid e (eq_session q) = Inr u) \<and> (\<forall>ev. ev_type ev = eq_type q \<longrightarrow> ae_event_ok e ev)"

lemma build_event_acceptable:
  assumes "acceptable e q"
  shows "\<exists>ev st'. build_event e now s purposes q st = (Some ev, st')"
proof -
  obtain p d where st: "st = (p, d)" by (rule prod.exhaust)
  from assms obtain u where u: "as_uuid e (eq_session q) = Inr u" and v: "validate_payload e (eq_type q) (eq_payload q) = Inr ()"
    and ok: "ae_event_ok e (envelope e now (ad_next d) s purposes u q)"
    by (auto simp: acceptable_def envelope_def)
  then show ?thesis by (simp add: st build_event_def Let_def split: unit.splits)
qed

text \<open>The outcome of storing: what is counted, and the row that was or was not added.\<close>

definition stored_as :: "act_env \<Rightarrow> act_faults \<Rightarrow> act_event \<Rightarrow> act_db \<Rightarrow> act_count \<Rightarrow> act_db \<Rightarrow> bool" where
  "stored_as e f ev d c d' \<longleftrightarrow>
     (c = Written (ev_type ev) \<and> \<not> key_taken e ev d \<and> ad_events d' = ad_events d @ [ev])
     \<or> (c = Failure ACTIVITY_DUPLICATE \<and> key_taken e ev d \<and> ad_events d' = ad_events d)
     \<or> (c = Failure ACTIVITY_WRITE_FAILED \<and> (af_partition f \<or> af_write f \<noteq> None)
        \<and> (ad_events d' = ad_events d \<or> \<not> key_taken e ev d \<and> ad_events d' = ad_events d @ [ev]))"

lemma insert_event_cases:
  "insert_event e ev d = (b, d') \<Longrightarrow>
     b = (\<not> key_taken e ev d) \<and> d' = d\<lparr>ad_events := ad_events d @ (if b then [ev] else [])\<rparr>"
  by (auto simp: insert_event_def split: if_splits)

lemma key_taken_cong: "ad_events d' = ad_events d \<Longrightarrow> key_taken e ev d' = key_taken e ev d"
  by (simp add: key_taken_def)

lemma coherent_events [simp]:
  "coherent p (d\<lparr>ad_events := x\<rparr>) = coherent p d" "coherent p (d\<lparr>ad_impressions := y\<rparr>) = coherent p d"
  "coherent p (d\<lparr>ad_next := n\<rparr>) = coherent p d"
  by (simp_all add: coherent_def)

lemma store_event_stored:
  assumes "coherent p d" "store_event e f ev (p, d) = (p', d')"
  shows "\<exists>c. ap_counts p' = ap_counts p @ [c] \<and> stored_as e f ev d c d' \<and> coherent p' d' \<and> only_records user d d'
    \<and> ad_subjects d' = ad_subjects d \<and> ad_impressions d' = ad_impressions d \<and> ap_pool p' = ap_pool p
    \<and> (length (ad_events d) < length (ad_events d') \<longrightarrow> (EVENTS_TABLE, month_of (ev_occurred ev)) \<in> set (ad_partitions d'))"
proof -
  obtain ok p1 d1 where en: "ensure_partition (af_partition f) EVENTS_TABLE (ev_occurred ev) (p, d) = (ok, (p1, d1))"
    by (metis surj_pair)
  note ens = ensure_partition_facts [OF assms(1) en]
  have same: "ad_events d1 = ad_events d" "ad_impressions d1 = ad_impressions d" using ens(3) by (simp_all add: same_rows_def)
  note taken = key_taken_cong [OF same(1)]
  show ?thesis
  proof (cases ok)
    case False
    with assms(2) en ens ens(2) [of user] same show ?thesis by (auto simp: store_event_def write_failed_def stored_as_def)
  next
    case True
    obtain b d2 where ins: "insert_event e ev d1 = (b, d2)" by (rule prod.exhaust)
    from insert_event_cases [OF ins] have d2: "b = (\<not> key_taken e ev d)" "d2 = d1\<lparr>ad_events := ad_events d @ (if b then [ev] else [])\<rparr>"
      by (simp_all add: taken same)
    have keep: "only_records user d (d1\<lparr>ad_events := x\<rparr>)" for x using ens(2) [of user] by (simp add: only_records_def)
    show ?thesis
    proof (cases "af_write f")
      case None
      with assms(2) en True ins d2 ens same keep show ?thesis
        by (auto simp: store_event_def stored_as_def count_write_def taken)
    next
      case (Some n)
      with assms(2) en True ins d2 ens ens(2) [of user] same keep show ?thesis
        by (auto simp: store_event_def write_failed_def stored_as_def taken split: if_splits)
    qed
  qed
qed


lemma begin_call_some:
  assumes "coherent p d" "begin_call e f user (p, d) = (Some s, (p', d'))"
  shows "coherent p' d'" "only_records user d d'" "same_rows d d'" "ap_counts p' = ap_counts p" "ap_pool p'"
    "map_of (ad_subjects d') user = Some s"
proof -
  from assms(2) have pool: "ap_pool p" by (auto simp: begin_call_def split: if_splits)
  with assms(2) have "subject_for e (af_subject f) user (p, d) = (Some s, (p', d'))"
    by (auto simp: begin_call_def split: prod.splits option.splits)
  from subject_for_link [OF assms(1) this] pool
  show "coherent p' d'" "only_records user d d'" "same_rows d d'" "ap_counts p' = ap_counts p" "ap_pool p'"
    "map_of (ad_subjects d') user = Some s" by simp_all
qed

lemma begin_call_none:
  assumes "coherent p d" "begin_call e f user (p, d) = (None, (p', d'))"
  shows "coherent p' d'" "only_records user d d'" "same_rows d d'" "ap_pool p' = ap_pool p"
    "(\<not> ap_pool p \<and> ap_counts p' = ap_counts p @ [Failure ACTIVITY_NOT_CONFIGURED])
     \<or> (af_subject f \<and> ap_counts p' = ap_counts p @ [Failure ACTIVITY_NO_SUBJECT])"
proof -
  have "coherent p' d' \<and> only_records user d d' \<and> same_rows d d' \<and> ap_pool p' = ap_pool p \<and>
    ((\<not> ap_pool p \<and> ap_counts p' = ap_counts p @ [Failure ACTIVITY_NOT_CONFIGURED])
     \<or> (af_subject f \<and> ap_counts p' = ap_counts p @ [Failure ACTIVITY_NO_SUBJECT]))"
  proof (cases "ap_pool p")
    case True
    obtain so p1 d1 where sf: "subject_for e (af_subject f) user (p, d) = (so, (p1, d1))" by (metis surj_pair)
    from True assms(2) sf have "so = None" "p' = count_act (Failure ACTIVITY_NO_SUBJECT) p1" "d' = d1"
      by (auto simp: begin_call_def split: option.splits)
    with subject_for_link [OF assms(1) sf] True show ?thesis by auto
  qed (use assms in \<open>auto simp: begin_call_def\<close>)
  then show "coherent p' d'" "only_records user d d'" "same_rows d d'" "ap_pool p' = ap_pool p"
    "(\<not> ap_pool p \<and> ap_counts p' = ap_counts p @ [Failure ACTIVITY_NOT_CONFIGURED])
     \<or> (af_subject f \<and> ap_counts p' = ap_counts p @ [Failure ACTIVITY_NO_SUBJECT])" by auto
qed

text \<open>What a call may leave behind and count.\<close>

definition accounted :: "act_env \<Rightarrow> act_faults \<Rightarrow> moment \<Rightarrow> string \<Rightarrow> event_request \<Rightarrow> act_db \<Rightarrow> act_count \<Rightarrow> act_db \<Rightarrow> bool" where
  "accounted e f now user q d c d' \<longleftrightarrow>
     (ad_events d' = ad_events d \<and> (\<exists>x. c = Failure x))
     \<or> (c = Written (eq_type q) \<or> c = Failure ACTIVITY_WRITE_FAILED \<and> af_write f \<noteq> None)
       \<and> (\<exists>ev. ad_events d' = ad_events d @ [ev] \<and> \<not> key_taken e ev d
            \<and> map_of (ad_subjects d') user = Some (ev_subject ev)
            \<and> row_of_request e now (ev_subject ev) (if af_purposes f then [] else snapshot_purposes e d user) q ev
            \<and> (EVENTS_TABLE, month_of (ev_occurred ev)) \<in> set (ad_partitions d'))"

lemma store_event_writes:
  assumes "coherent p d" "store_event e f ev (p, d) = (p', d')" "length (ad_events d) < length (ad_events d')"
  shows "ad_events d' = ad_events d @ [ev] \<and> \<not> key_taken e ev d
    \<and> (ap_counts p' = ap_counts p @ [Written (ev_type ev)]
       \<or> ap_counts p' = ap_counts p @ [Failure ACTIVITY_WRITE_FAILED] \<and> af_write f \<noteq> None)"
proof -
  from store_event_stored [OF assms(1,2), of "[]"] obtain c where
    c: "ap_counts p' = ap_counts p @ [c]" "stored_as e f ev d c d'" by blast
  have "af_write f \<noteq> None" if "c = Failure ACTIVITY_WRITE_FAILED"
  proof (rule notI)
    assume "af_write f = None"
    obtain ok p1 d1 where en: "ensure_partition (af_partition f) EVENTS_TABLE (ev_occurred ev) (p, d) = (ok, (p1, d1))"
      by (metis surj_pair)
    note ens = ensure_partition_facts [OF assms(1) en]
    show False
    proof (cases ok)
      case True
      with assms(2) en \<open>af_write f = None\<close> ens(4) c(1) that show False
        by (auto simp: store_event_def count_write_def ACTIVITY_WRITE_FAILED_def ACTIVITY_DUPLICATE_def split: prod.splits if_splits)
    next
      case False
      with assms(2,3) en ens(3) show False by (auto simp: store_event_def write_failed_def same_rows_def)
    qed
  qed
  with c assms(3) show ?thesis by (auto simp: stored_as_def)
qed


lemma prepare_event_snapshot:
  "ap_pool p \<Longrightarrow> prepare_event e f now user s q (p, d)
     = build_event e now s (if af_purposes f then [] else snapshot_purposes e d user) q (p, d)"
  by (simp add: prepare_event_def active_purposes_snapshot)

text \<open>A call that found its row: how it goes on.\<close>

lemma record_event_stores:
  assumes "coherent p1 d1" "build_event e now s ps q (p1, d1) = (Some ev, st2)" "store_event e f ev st2 = (p', d')"
    "map_of (ad_subjects d1) user = Some s"
  shows "\<exists>c. ap_counts p' = ap_counts p1 @ [c] \<and> stored_as e f ev d1 c d' \<and> coherent p' d' \<and> only_records user d1 d'
    \<and> ap_pool p' = ap_pool p1
    \<and> ad_impressions d' = ad_impressions d1 \<and> map_of (ad_subjects d') user = Some s \<and> row_of_request e now s ps q ev
    \<and> (length (ad_events d1) < length (ad_events d') \<longrightarrow> ad_events d' = ad_events d1 @ [ev] \<and> \<not> key_taken e ev d1
         \<and> (EVENTS_TABLE, month_of (ev_occurred ev)) \<in> set (ad_partitions d')
         \<and> (c = Written (ev_type ev) \<or> c = Failure ACTIVITY_WRITE_FAILED \<and> af_write f \<noteq> None))"
proof -
  obtain p2 d2 where st2: "st2 = (p2, d2)" by (rule prod.exhaust)
  from build_event_some [OF assms(2) [unfolded st2]] have
    b: "row_of_request e now s ps q ev" "p2 = p1" "d2 = d1\<lparr>ad_next := Suc (Suc (ad_next d1))\<rparr>" by simp_all
  have co: "coherent p2 d2" using assms(1) b by simp
  from store_event_stored [OF co assms(3) [unfolded st2], of user] obtain c where
    c: "ap_counts p' = ap_counts p2 @ [c]" "stored_as e f ev d2 c d'" "coherent p' d'" "only_records user d2 d'"
      "ad_subjects d' = ad_subjects d2" "ad_impressions d' = ad_impressions d2" "ap_pool p' = ap_pool p2"
      "length (ad_events d2) < length (ad_events d') \<longrightarrow> (EVENTS_TABLE, month_of (ev_occurred ev)) \<in> set (ad_partitions d')"
    by blast
  have "only_records user d1 d2" using b by (simp add: only_records_def)
  then have "only_records user d1 d'" using c(4) by (rule only_records_trans)
  moreover have "stored_as e f ev d1 c d'" using c(2) b by (simp add: stored_as_def key_taken_def)
  moreover note store_event_writes [OF co assms(3) [unfolded st2]]
  ultimately show ?thesis using c b assms(4) by (auto simp: key_taken_def)
qed

lemma row_of_request_type: "row_of_request e now s ps q ev \<Longrightarrow> ev_type ev = eq_type q \<and> ev_subject ev = s"
  by (simp add: row_of_request_def)

lemma record_event_outcome:
  assumes "coherent p d" "record_event e f now user q (p, d) = (p', d')"
  shows "\<exists>c. ap_counts p' = ap_counts p @ [c] \<and> accounted e f now user q d c d' \<and> coherent p' d'
    \<and> only_records user d d' \<and> ad_impressions d' = ad_impressions d \<and> ap_pool p' = ap_pool p
    \<and> (ap_pool p \<and> acceptable e q \<and> f = no_faults \<longrightarrow> c = Written (eq_type q) \<or> c = Failure ACTIVITY_DUPLICATE)
    \<and> (c = Failure ACTIVITY_DUPLICATE \<longrightarrow> (\<exists>ev s ps. row_of_request e now s ps q ev
         \<and> map_of (ad_subjects d') user = Some s \<and> key_taken e ev d))"
proof -
  obtain so p1 d1 where b: "begin_call e f user (p, d) = (so, (p1, d1))" by (metis surj_pair)
  show ?thesis
  proof (cases so)
    case None
    from begin_call_none [OF assms(1) b [unfolded None]] assms(2) b None show ?thesis
      by (auto simp: record_event_def accounted_def same_rows_def no_faults_def ACTIVITY_DUPLICATE_def
          ACTIVITY_NOT_CONFIGURED_def ACTIVITY_NO_SUBJECT_def)
  next
    case (Some s)
    note bc = begin_call_some [OF assms(1) b [unfolded Some]]
    have begun: "ap_pool p" using b Some by (auto simp: begin_call_def split: if_splits)
    define ps where "ps = (if af_purposes f then [] else snapshot_purposes e d1 user)"
    have ps: "ps = (if af_purposes f then [] else snapshot_purposes e d user)"
      using bc(2) by (simp add: ps_def only_records_def cong: snapshot_purposes_cong)
    obtain bo st2 where be: "build_event e now s ps q (p1, d1) = (bo, st2)" by (rule prod.exhaust)
    have rec: "record_event e f now user q (p, d) = (case bo of None \<Rightarrow> st2 | Some ev \<Rightarrow> store_event e f ev st2)"
      using b Some bc(5) be by (simp add: record_event_def prepare_event_snapshot ps_def)
    have same: "ad_events d1 = ad_events d" "ad_impressions d1 = ad_impressions d" using bc(3) by (simp_all add: same_rows_def)
    show ?thesis
    proof (cases bo)
      case None
      with be have "build_event e now s ps q (p1, d1) = (None, (p', d'))" using rec assms(2) by simp
      from build_event_none [OF this] bc begun same build_event_acceptable [of e q now s ps "(p1, d1)"] be None show ?thesis
        by (auto simp: accounted_def ACTIVITY_INVALID_def ACTIVITY_DUPLICATE_def)
    next
      case (Some ev)
      with rec assms(2) have "store_event e f ev st2 = (p', d')" by simp
      from record_event_stores [OF bc(1) be [unfolded Some] this bc(6)] obtain c where
        c: "ap_counts p' = ap_counts p1 @ [c]" "stored_as e f ev d1 c d'" "coherent p' d'" "only_records user d1 d'"
          "ad_impressions d' = ad_impressions d1" "map_of (ad_subjects d') user = Some s" "row_of_request e now s ps q ev"
          "length (ad_events d1) < length (ad_events d') \<longrightarrow> ad_events d' = ad_events d1 @ [ev] \<and> \<not> key_taken e ev d1
            \<and> (EVENTS_TABLE, month_of (ev_occurred ev)) \<in> set (ad_partitions d')
            \<and> (c = Written (ev_type ev) \<or> c = Failure ACTIVITY_WRITE_FAILED \<and> af_write f \<noteq> None)"
        and pool: "ap_pool p' = ap_pool p1" by blast
      have r: "ev_type ev = eq_type q" "ev_subject ev = s" using c(7) by (simp_all add: row_of_request_def)
      have "only_records user d d'" using bc(2) c(4) by (rule only_records_trans)
      moreover have "accounted e f now user q d c d'"
      proof (cases "ad_events d' = ad_events d1")
        case True
        with c(2) same show ?thesis by (auto simp: stored_as_def accounted_def)
      next
        case False
        with c(2) have "length (ad_events d1) < length (ad_events d')" by (auto simp: stored_as_def)
        with c(8) have w: "ad_events d' = ad_events d1 @ [ev]" "\<not> key_taken e ev d1"
          "(EVENTS_TABLE, month_of (ev_occurred ev)) \<in> set (ad_partitions d')"
          "c = Written (ev_type ev) \<or> c = Failure ACTIVITY_WRITE_FAILED \<and> af_write f \<noteq> None" by auto
        have "c = Written (eq_type q) \<or> c = Failure ACTIVITY_WRITE_FAILED \<and> af_write f \<noteq> None" using w(4) r by simp
        moreover have "ad_events d' = ad_events d @ [ev]" "\<not> key_taken e ev d" using w(1,2) same(1) key_taken_cong [OF same(1), of e ev] by simp_all
        moreover have "map_of (ad_subjects d') user = Some (ev_subject ev)" using c(6) r by simp
        moreover have "row_of_request e now (ev_subject ev) (if af_purposes f then [] else snapshot_purposes e d user) q ev"
          using c(7) r ps by simp
        ultimately show ?thesis using w(3) unfolding accounted_def by blast
      qed
      moreover have "c = Written (eq_type q) \<or> c = Failure ACTIVITY_DUPLICATE" if "f = no_faults"
        using c(2) that r by (auto simp: stored_as_def no_faults_def)
      moreover have "key_taken e ev d" if "c = Failure ACTIVITY_DUPLICATE"
        using c(2) that by (auto simp: stored_as_def key_taken_cong [OF same(1)] ACTIVITY_DUPLICATE_def ACTIVITY_WRITE_FAILED_def)
      ultimately show ?thesis using c bc(4,5) begun same pool by auto
    qed
  qed
qed


text \<open>
  C34.  An event call is accounted for: whatever fails, it counts exactly one outcome; a row is added
  exactly when the outcome says so, except that a write whose answer was lost may have added it, and
  the row is the one owed to the request: under the user's pseudonym, validated, with the purposes
  consented at that moment (none when they could not be read) and in an ensured month.  A duplicate is
  counted only for a row whose key was taken, a call that nothing fails writes or is a duplicate, and
  nothing else in the database changes.
\<close>

theorem record_event_accounted:
  assumes "coherent p d" "record_event e f now user q (p, d) = (p', d')"
  shows "\<exists>c. ap_counts p' = ap_counts p @ [c] \<and> accounted e f now user q d c d'
    \<and> only_records user d d' \<and> ad_impressions d' = ad_impressions d
    \<and> (ap_pool p \<and> acceptable e q \<and> f = no_faults \<longrightarrow> c = Written (eq_type q) \<or> c = Failure ACTIVITY_DUPLICATE)
    \<and> (c = Failure ACTIVITY_DUPLICATE \<longrightarrow> (\<exists>ev s ps. row_of_request e now s ps q ev
         \<and> map_of (ad_subjects d') user = Some s \<and> key_taken e ev d))"
  using record_event_outcome [OF assms] by blast

definition sample_outcome :: event_request where
  "sample_outcome = outcome_request ''fit.opened'' ''i1'' ''r1''"

lemma fresh_coherent [simp]: "ap_subjects p = [] \<Longrightarrow> ap_ensured p = [] \<Longrightarrow> coherent p d"
  by (simp add: coherent_def)

lemma sample_acceptable: "acceptable sample_act_env sample_outcome"
  by (simp add: acceptable_def sample_outcome_def outcome_request_def plain_event_def validate_payload_def
      sample_act_env_def sample_schema_def CLIENT_REPORTABLE_OUTCOMES_def RECOMMENDATION_OUTCOMES_def FIT_OUTCOMES_def as_uuid_def)

theorem record_event_accounted_witness:
  "let r = record_event sample_act_env no_faults (2026, 3, 7) ''u'' sample_outcome (new_process, empty_act_db)
   in ap_counts (fst r) = [Written ''fit.opened''] \<and> length (ad_events (snd r)) = 1
      \<and> (\<exists>c. ap_counts (fst r) = ap_counts new_process @ [c]
           \<and> accounted sample_act_env no_faults (2026, 3, 7) ''u'' sample_outcome empty_act_db c (snd r))"
proof -
  let ?r = "record_event sample_act_env no_faults (2026, 3, 7) ''u'' sample_outcome (new_process, empty_act_db)"
  have "ap_counts (fst ?r) = [Written ''fit.opened''] \<and> length (ad_events (snd ?r)) = 1" by code_simp
  moreover have "coherent new_process empty_act_db" by (simp add: new_process_def)
  ultimately show ?thesis
    using record_event_accounted [of new_process empty_act_db sample_act_env no_faults "(2026, 3, 7)" "''u''" sample_outcome
        "fst ?r" "snd ?r"]
    by (auto simp: Let_def)
qed


section \<open>Impressions\<close>

lemma build_impressions_nth:
  assumes "build_impressions e now t s ps l cs rq items (p, d) = (bs, (p', d'))"
  shows "length bs = length items \<and> d' = d\<lparr>ad_next := ad_next d + length items\<rparr>
    \<and> ap_subjects p' = ap_subjects p \<and> ap_ensured p' = ap_ensured p \<and> ap_pool p' = ap_pool p
    \<and> (\<forall>k < length items. bs ! k = build_impression e now t s ps l cs rq (items ! k) (ad_next d + k))"
  using assms
proof (induction items arbitrary: p d bs p' d')
  case (Cons i items)
  obtain cs' p1 d1 where r: "build_impressions e now t s ps l cs rq items
      (if build_impression e now t s ps l cs rq i (ad_next d) = None then count_act (Failure ACTIVITY_INVALID) p else p,
       d\<lparr>ad_next := Suc (ad_next d)\<rparr>) = (cs', (p1, d1))" by (metis surj_pair)
  from Cons.IH [OF r] r Cons.prems show ?case
    by (auto simp: Let_def nth_Cons split: nat.splits if_splits)
qed simp

lemma build_impression_some:
  assumes "build_impression e now t s ps l cs rq i n = Some im"
  shows "im_id im = ae_id e n" "im_subject im = s" "im_surface im = sl_surface l" "im_policy im = sl_policy l"
    "im_position im = si_position i" "\<exists>g. si_item i = Some g \<and> ae_uuid e g = Some (im_item im)"
    "si_score i = Some (im_score im)" "im_purposes im = ps" "ae_impression_ok e im"
  using assms
  by (auto simp: build_impression_def as_uuid_def Let_def split: option.splits sum.splits if_splits)

lemma map_filter_Cons: "List.map_filter f (x # xs) = (case f x of None \<Rightarrow> List.map_filter f xs | Some y \<Rightarrow> y # List.map_filter f xs)"
  by (simp add: List.map_filter_simps)

lemma distinct_built:
  assumes "inj (ae_id e)"
    "\<forall>k < length bs. bs ! k = None \<or> (\<exists>im. bs ! k = Some im \<and> im_id im = ae_id e (n + k))"
  shows "distinct (List.map_filter (map_option im_id) bs)
    \<and> set (List.map_filter (map_option im_id) bs) \<subseteq> ae_id e ` {n..<n + length bs}"
  using assms(2)
proof (induction bs arbitrary: n)
  case (Cons b bs)
  have "\<forall>k < length bs. bs ! k = None \<or> (\<exists>im. bs ! k = Some im \<and> im_id im = ae_id e (Suc n + k))"
  proof (intro allI impI)
    fix k assume "k < length bs"
    with Cons.prems [rule_format, of "Suc k"] show "bs ! k = None \<or> (\<exists>im. bs ! k = Some im \<and> im_id im = ae_id e (Suc n + k))" by simp
  qed
  from Cons.IH [OF this] have ih: "distinct (List.map_filter (map_option im_id) bs)"
    "set (List.map_filter (map_option im_id) bs) \<subseteq> ae_id e ` {Suc n..<Suc n + length bs}" by simp_all
  have "ae_id e n \<notin> ae_id e ` {Suc n..<Suc n + length bs}" using assms(1) by (auto dest: injD)
  moreover have "ae_id e ` {Suc n..<Suc n + length bs} \<subseteq> ae_id e ` {n..<n + length (b # bs)}" by (rule image_mono) auto
  moreover from Cons.prems [rule_format, of 0] have "b = None \<or> (\<exists>im. b = Some im \<and> im_id im = ae_id e n)" by simp
  moreover have "ae_id e n \<in> ae_id e ` {n..<n + length (b # bs)}" by simp
  ultimately show ?case using ih by (cases b) (simp_all add: map_filter_Cons, blast+)
qed simp

lemma map_filter_id_map: "List.map_filter (\<lambda>x. x) (map f xs) = List.map_filter f xs"
  by (induction xs) (simp_all add: map_filter_Cons split: option.splits)

lemma rows_of_ids: "List.map_filter (map_option im_id) bs = map im_id (rows_of bs)"
  by (induction bs) (simp_all add: map_filter_Cons rows_of_def split: option.splits)

lemma set_rows_of: "im \<in> set (rows_of bs) \<longleftrightarrow> Some im \<in> set bs"
  by (induction bs) (auto simp: rows_of_def map_filter_Cons split: option.splits)



lemma store_impressions_cases:
  assumes "coherent p d" "store_impressions e f t bs (p, d) = (ids, (p', d'))"
  shows "coherent p' d' \<and> only_records user d d' \<and> ad_events d' = ad_events d \<and> ad_subjects d' = ad_subjects d
    \<and> ((ids = map (map_option im_id) bs \<and> ad_impressions d' = ad_impressions d @ rows_of bs)
       \<or> (ids = map (\<lambda>b. None) bs \<and> ad_impressions d' = ad_impressions d)
       \<or> (ids = map (\<lambda>b. None) bs \<and> af_write f \<noteq> None
          \<and> (\<exists>n. ad_impressions d' = ad_impressions d @ take n (rows_of bs))))"
proof -
  have counted: "ap_subjects (foldl (\<lambda>p im. count_act c p) p ims) = ap_subjects p
    \<and> ap_ensured (foldl (\<lambda>p im. count_act c p) p ims) = ap_ensured p" for c p and ims :: "impression list"
    by (induction ims arbitrary: p) simp_all
  obtain ok p1 d1 where en: "ensure_partition (af_partition f) IMPRESSIONS_TABLE t (p, d) = (ok, (p1, d1))"
    by (metis surj_pair)
  note ens = ensure_partition_facts [OF assms(1) en]
  have keep: "only_records user d (d1\<lparr>ad_impressions := x\<rparr>)" for x using ens(2) [of user] by (simp add: only_records_def)
  show ?thesis
  proof (cases ok)
    case False
    with assms(2) en ens ens(2) [of user] show ?thesis
      by (auto simp: store_impressions_def write_failed_def same_rows_def)
  next
    case True
    with assms(2) en ens keep show ?thesis
      by (auto simp: store_impressions_def write_failed_def same_rows_def coherent_def counted split: option.splits)
  qed
qed

text \<open>What a caller of \<open>record_impressions\<close> may be told: ids of rows that exist and are about its items.\<close>

definition about_item :: "act_env \<Rightarrow> string \<Rightarrow> shown_list \<Rightarrow> shown_item \<Rightarrow> impression \<Rightarrow> bool" where
  "about_item e s l i im \<longleftrightarrow> im_subject im = s \<and> im_surface im = sl_surface l \<and> im_policy im = sl_policy l
     \<and> im_position im = si_position i \<and> Some (im_score im) = si_score i \<and> ae_impression_ok e im
     \<and> (\<exists>g. si_item i = Some g \<and> ae_uuid e g = Some (im_item im))"

definition truly_told :: "act_env \<Rightarrow> act_faults \<Rightarrow> string \<Rightarrow> shown_list \<Rightarrow> string option list \<Rightarrow> act_db \<Rightarrow> act_db \<Rightarrow> bool" where
  "truly_told e f user l ids d d' \<longleftrightarrow> length ids = length (sl_items l) \<and> distinct (List.map_filter (\<lambda>x. x) ids)
     \<and> (\<exists>ims. ad_impressions d' = ad_impressions d @ ims
          \<and> (\<forall>k < length ids. \<forall>x. ids ! k = Some x \<longrightarrow>
               (\<exists>im \<in> set ims. im_id im = x \<and> (\<exists>s. map_of (ad_subjects d') user = Some s \<and> about_item e s l (sl_items l ! k) im)))
          \<and> (map im_id ims = List.map_filter (\<lambda>x. x) ids \<or> af_write f \<noteq> None))"

lemma map_filter_None [simp]: "List.map_filter (\<lambda>x. x) (map (\<lambda>b. None) xs) = []"
  by (induction xs) (simp_all add: map_filter_Cons)

lemma told_nothing:
  "length ids = length (sl_items l) \<Longrightarrow> (\<And>x. x \<in> set ids \<Longrightarrow> x = None) \<Longrightarrow> ad_impressions d' = ad_impressions d
     \<Longrightarrow> truly_told e f user l ids d d'"
proof -
  assume a: "length ids = length (sl_items l)" "\<And>x. x \<in> set ids \<Longrightarrow> x = None" "ad_impressions d' = ad_impressions d"
  then have "ids = map (\<lambda>b. None) ids" by (simp add: list_eq_iff_nth_eq)
  then have "List.map_filter (\<lambda>x. x) ids = []" by (metis map_filter_None)
  with a show "truly_told e f user l ids d d'" by (auto simp: truly_told_def) 
qed

lemma prepare_impressions_built:
  assumes "prepare_impressions e f now user s l (p, d) = (Inr bs, st')"
  shows "\<exists>n t ps cs rq. ad_next d \<le> n
    \<and> build_impressions e now t s ps l cs rq (sl_items l) (p, d\<lparr>ad_next := n\<rparr>) = (bs, st')"
proof (cases "as_uuid e (sl_candidates l)")
  case c: (Inr cset)
  show ?thesis
  proof (cases "as_uuid e (sl_request l)")
    case (Inr request)
    with assms c show ?thesis
      by (intro exI [of _ "Suc (Suc (ad_next d))"] exI [of _ "case sl_occurred l of None \<Rightarrow> now | Some t \<Rightarrow> t"]
          exI [of _ "active_purposes e (af_purposes f) user (p, d)"]
          exI [of _ "case cset of None \<Rightarrow> ae_id e (ad_next d) | Some c \<Rightarrow> c"]
          exI [of _ "case request of None \<Rightarrow> ae_id e (Suc (ad_next d)) | Some r \<Rightarrow> r"] conjI)
        (simp_all add: prepare_impressions_def Let_def split: prod.splits)
  qed (use assms c in \<open>simp add: prepare_impressions_def Let_def\<close>)
qed (use assms in \<open>simp add: prepare_impressions_def Let_def\<close>)

lemma record_impressions_told:
  assumes "coherent p d" "ids_unique e" "record_impressions e f now user l (p, d) = (Inr ids, (p', d'))"
  shows "truly_told e f user l ids d d' \<and> coherent p' d' \<and> only_records user d d' \<and> ad_events d' = ad_events d"
proof (cases "ap_pool p \<and> sl_items l = []")
  case True
  with assms show ?thesis by (auto simp: record_impressions_def intro: told_nothing)
next
  case busy: False
  obtain so p1 d1 where b: "begin_call e f user (p, d) = (so, (p1, d1))" by (metis surj_pair)
  show ?thesis
  proof (cases so)
    case None
    from begin_call_none [OF assms(1) b [unfolded None]] assms(3) b None busy show ?thesis
      by (auto simp: record_impressions_def same_rows_def intro!: told_nothing)
  next
    case (Some s)
    note bc = begin_call_some [OF assms(1) b [unfolded Some]]
    obtain r p2 d2 where pr: "prepare_impressions e f now user s l (p1, d1) = (r, (p2, d2))" by (metis surj_pair)
    with assms(3) b Some busy obtain bs where r: "r = Inr bs" by (cases r) (auto simp: record_impressions_def)
    from prepare_impressions_built [OF pr [unfolded r]] obtain n t ps cs rq where n: "ad_next d1 \<le> n"
      and bu: "build_impressions e now t s ps l cs rq (sl_items l) (p1, d1\<lparr>ad_next := n\<rparr>) = (bs, (p2, d2))" by blast
    from build_impressions_nth [OF bu] have
      bs: "length bs = length (sl_items l)" "d2 = d1\<lparr>ad_next := n + length (sl_items l)\<rparr>" "ap_subjects p2 = ap_subjects p1"
        "ap_ensured p2 = ap_ensured p1"
        "\<And>k. k < length (sl_items l) \<Longrightarrow> bs ! k = build_impression e now t s ps l cs rq (sl_items l ! k) (n + k)"
      by simp_all
    have co: "coherent p2 d2" using bc(1) bs by (simp add: coherent_def)
    have o2: "only_records user d d2" "ad_events d2 = ad_events d" "ad_impressions d2 = ad_impressions d"
      "map_of (ad_subjects d2) user = Some s"
      using bc(2,3,6) bs(2) n by (auto simp: only_records_def same_rows_def)
    show ?thesis
    proof (cases "rows_of bs = []")
      case True
      with assms(3) b Some busy pr r o2 co show ?thesis by (auto simp: record_impressions_def intro!: told_nothing)
    next
      case False
      with assms(3) b Some busy pr r obtain t' where "store_impressions e f t' bs (p2, d2) = (ids, (p', d'))"
        by (auto simp: record_impressions_def split: prod.splits)
      from store_impressions_cases [OF co this] have
        st: "coherent p' d'" "only_records user d2 d'" "ad_events d' = ad_events d2" "ad_subjects d' = ad_subjects d2"
          "(ids = map (map_option im_id) bs \<and> ad_impressions d' = ad_impressions d2 @ rows_of bs)
           \<or> (ids = map (\<lambda>b. None) bs \<and> ad_impressions d' = ad_impressions d2)
           \<or> (ids = map (\<lambda>b. None) bs \<and> af_write f \<noteq> None
              \<and> (\<exists>n. ad_impressions d' = ad_impressions d2 @ take n (rows_of bs)))" by auto
      have link: "map_of (ad_subjects d') user = Some s" using st(4) o2(4) by simp
      have "truly_told e f user l ids d d'"
        using st(5)
      proof (elim disjE conjE)
        assume ids: "ids = map (map_option im_id) bs" and new: "ad_impressions d' = ad_impressions d2 @ rows_of bs"
        have "\<forall>k < length bs. bs ! k = None \<or> (\<exists>im. bs ! k = Some im \<and> im_id im = ae_id e (n + k))"
          using bs(1,5) build_impression_some(1) by (metis option.exhaust)
        moreover have "inj (ae_id e)" using assms(2) by (simp add: ids_unique_def)
        ultimately have "distinct (List.map_filter (map_option im_id) bs)" using distinct_built by blast
        then have "distinct (List.map_filter (\<lambda>x. x) ids)" by (simp add: ids map_filter_id_map)
        moreover have "\<exists>im \<in> set (rows_of bs). im_id im = x \<and> about_item e s l (sl_items l ! k) im"
          if "k < length ids" "ids ! k = Some x" for k x
        proof -
          from that ids obtain im where im: "bs ! k = Some im" "im_id im = x" by auto
          from that ids have k: "k < length bs" by simp
          with bs(1,5) im(1) have "build_impression e now t s ps l cs rq (sl_items l ! k) (n + k) = Some im" by simp
          from build_impression_some [OF this] have "about_item e s l (sl_items l ! k) im" by (simp add: about_item_def)
          moreover have "im \<in> set (rows_of bs)" using k im(1) by (metis set_rows_of nth_mem)
          ultimately show ?thesis using im(2) by blast
        qed
        moreover have "map im_id (rows_of bs) = List.map_filter (\<lambda>x. x) ids" by (simp add: ids map_filter_id_map rows_of_ids)
        ultimately show ?thesis using ids bs(1) new o2(3) link by (auto simp: truly_told_def)
      next
        assume "ids = map (\<lambda>b. None) bs" "ad_impressions d' = ad_impressions d2"
        with bs(1) o2(3) show ?thesis by (auto intro!: told_nothing)
      next
        assume "ids = map (\<lambda>b. None) bs" "af_write f \<noteq> None" "\<exists>n. ad_impressions d' = ad_impressions d2 @ take n (rows_of bs)"
        with bs(1) o2(3) show ?thesis by (auto simp: truly_told_def)
      qed
      with st o2 show ?thesis using only_records_trans by auto
    qed
  qed
qed


text \<open>The entry of the item at a place.\<close>

definition entry_at :: "nat \<Rightarrow> served_item \<Rightarrow> shown_item" where
  "entry_at n i = \<lparr>si_position = int n, si_item = sv_gm_id i,
     si_score = Some (case sv_score i of None \<Rightarrow> 0 | Some s \<Rightarrow> s), si_propensity = None\<rparr>"

definition entries_from :: "nat \<Rightarrow> served_item list \<Rightarrow> shown_item list" where
  "entries_from n items = map (\<lambda>(n, i). entry_at n i) (filter (\<lambda>(n, i). identified i) (enumerate n items))"

lemma served_entries_from: "served_entries items = entries_from 1 items"
  by (simp add: served_entries_def entries_from_def entry_at_def case_prod_beta)

lemma entries_from_simps [simp]:
  "entries_from n [] = []"
  "entries_from n (i # items) = (if identified i then [entry_at n i] else []) @ entries_from (Suc n) items"
  by (simp_all add: entries_from_def)

lemma length_entries_from: "length (entries_from n items) = length (filter identified items)"
  by (induction items arbitrary: n) simp_all

lemma length_stamp_items [simp]: "length (stamp_items ids items) = length items"
  by (induction ids items rule: stamp_items.induct) (auto split: list.splits)

lemma stamp_items_nth:
  assumes "length ids = length (filter identified items)" "k < length items"
  shows "if identified (items ! k)
    then \<exists>j < length ids. stamp_items ids items ! k = (items ! k)\<lparr>sv_impression := ids ! j\<rparr>
           \<and> entries_from n items ! j = entry_at (n + k) (items ! k)
    else stamp_items ids items ! k = items ! k"
  using assms
proof (induction items arbitrary: ids n k)
  case (Cons i items)
  show ?case
  proof (cases "identified i")
    case True
    with Cons.prems(1) obtain x xs where ids: "ids = x # xs" "length xs = length (filter identified items)" by (cases ids) auto
    show ?thesis
    proof (cases k)
      case 0
      with True ids show ?thesis by (auto intro!: exI [of _ 0])
    next
      case (Suc m)
      note ih = Cons.IH [OF ids(2), of m "Suc n"]
      show ?thesis
      proof (cases "identified (items ! m)")
        case here: True
        with ih Cons.prems(2) Suc obtain j where "j < length xs"
          "stamp_items xs items ! m = (items ! m)\<lparr>sv_impression := xs ! j\<rparr>"
          "entries_from (Suc n) items ! j = entry_at (Suc n + m) (items ! m)" by auto
        with True here ids Suc show ?thesis by (auto intro!: exI [of _ "Suc j"])
      qed (use ih Cons.prems(2) True ids Suc in auto)
    qed
  next
    case False
    with Cons.prems Cons.IH [of ids "k - 1" "Suc n"] show ?thesis
      by (cases k) auto
  qed
qed simp

lemma stamp_items_ids:
  "length ids = length (filter identified items) \<Longrightarrow> \<forall>i \<in> set items. sv_impression i = None
     \<Longrightarrow> List.map_filter sv_impression (stamp_items ids items) = List.map_filter (\<lambda>x. x) ids"
proof (induction items arbitrary: ids)
  case (Cons i items)
  show ?case
  proof (cases "identified i")
    case True
    with Cons.prems(1) obtain x xs where ids: "ids = x # xs" "length xs = length (filter identified items)" by (cases ids) auto
    with Cons.IH [OF ids(2)] Cons.prems(2) True show ?thesis by (simp add: map_filter_Cons split: option.split)
  qed (use Cons in \<open>simp add: map_filter_Cons\<close>)
qed simp

text \<open>What a served list shows after stamping.\<close>

definition truly_stamped :: "act_env \<Rightarrow> string \<Rightarrow> string \<Rightarrow> act_db \<Rightarrow> act_db \<Rightarrow> served_item list \<Rightarrow> served_item list \<Rightarrow> bool" where
  "truly_stamped e user policy d d' items items' \<longleftrightarrow> length items' = length items
     \<and> (\<forall>k < length items.
          items' ! k = (items ! k)\<lparr>sv_impression := sv_impression (items' ! k)\<rparr>
          \<and> (\<forall>x. sv_impression (items' ! k) = Some x \<longrightarrow>
               (\<exists>im. im \<in> set (ad_impressions d') \<and> im_id im = x \<and> im_position im = int k + 1 \<and> im_policy im = policy
                  \<and> im_surface im = SURFACE_RECOMMENDATION \<and> map_of (ad_subjects d') user = Some (im_subject im)
                  \<and> (\<exists>g. sv_gm_id (items ! k) = Some g \<and> ae_uuid e g = Some (im_item im)))))
     \<and> distinct (List.map_filter sv_impression items')"


lemma record_impressions_never_raises:
  assumes "coherent p d" "as_uuid e (sl_candidates l) = Inr c" "as_uuid e (sl_request l) = Inr r"
  shows "\<exists>ids st'. record_impressions e f now user l (p, d) = (Inr ids, st')"
proof -
  have "\<exists>bs st'. prepare_impressions e f now user s l st = (Inr bs, st')" for s st
    using assms(2,3) by (auto simp: prepare_impressions_def Let_def split: prod.splits)
  then show ?thesis unfolding record_impressions_def
    by (auto simp: Let_def split: prod.splits option.splits sum.splits) (metis prod.inject sum.distinct(1))+
qed

lemma count_unidentified_keeps:
  "ap_subjects (count_unidentified items p) = ap_subjects p \<and> ap_ensured (count_unidentified items p) = ap_ensured p"
  unfolding count_unidentified_def by (induction items arbitrary: p) simp_all

lemma truly_stamped_nothing:
  "truly_stamped e user policy d d' items (map (\<lambda>i. i\<lparr>sv_impression := None\<rparr>) items)"
proof -
  have "List.map_filter sv_impression (map (\<lambda>i. i\<lparr>sv_impression := None\<rparr>) items) = []"
    by (induction items) (simp_all add: map_filter_Cons)
  then show ?thesis by (simp add: truly_stamped_def)
qed

text \<open>
  C35.  No client is told of an impression that does not exist.  Serving a list always succeeds; every
  item comes back as it was with an \<open>impression_id\<close>, and an id that is not null is that of a stored row
  for this user, this item and this position, no id being given twice.  Events and other users' links
  are untouched.
\<close>

theorem stamped_impressions_exist:
  assumes "coherent p d" "ids_unique e"
    and "stamp_recommendation_impressions e f now user policy items (p, d) = (r, (p', d'))"
  shows "\<exists>items'. r = Inr items' \<and> truly_stamped e user policy d d' items items'
    \<and> only_records user d d' \<and> ad_events d' = ad_events d"
proof -
  define clean where "clean = map (\<lambda>i. i\<lparr>sv_impression := None\<rparr>) items"
  define p1 where "p1 = count_unidentified clean p"
  define l where "l = \<lparr>sl_surface = SURFACE_RECOMMENDATION, sl_policy = policy, sl_candidates = Some (ae_id e (ad_next d)),
    sl_request = None, sl_occurred = None, sl_items = served_entries clean\<rparr>"
  have res: "stamp_recommendation_impressions e f now user policy items (p, d) =
    (if user = [] \<or> clean = [] then (Inr clean, (p, d))
     else if served_entries clean = [] then (Inr clean, (p1, d))
     else case record_impressions e f now user l (p1, d\<lparr>ad_next := Suc (ad_next d)\<rparr>) of
            (Inl err, st') \<Rightarrow> (Inl err, st')
          | (Inr ids, st') \<Rightarrow> (Inr (stamp_items ids clean), st'))"
    by (simp add: stamp_recommendation_impressions_def clean_def p1_def l_def Let_def split: prod.split sum.split)
  show ?thesis
  proof (cases "user = [] \<or> clean = [] \<or> served_entries clean = []")
    case True
    with res assms(3) have "r = Inr clean" "d' = d" by (auto split: if_splits)
    then show ?thesis using truly_stamped_nothing [of e user policy d d items] by (simp add: clean_def)
  next
    case False
    have co: "coherent p1 (d\<lparr>ad_next := Suc (ad_next d)\<rparr>)"
      using assms(1) count_unidentified_keeps [of clean p] by (simp add: p1_def coherent_def)
    have "as_uuid e (sl_candidates l) = Inr (Some (ae_id e (ad_next d)))" "as_uuid e (sl_request l) = Inr None"
      using assms(2) by (simp_all add: l_def as_uuid_def ids_unique_def)
    from record_impressions_never_raises [OF co this] obtain ids st' where
      ri: "record_impressions e f now user l (p1, d\<lparr>ad_next := Suc (ad_next d)\<rparr>) = (Inr ids, st')" by blast
    with res assms(3) False have r: "r = Inr (stamp_items ids clean)" "st' = (p', d')" by auto
    from record_impressions_told [OF co assms(2) ri [unfolded r]] have
      told: "truly_told e f user l ids (d\<lparr>ad_next := Suc (ad_next d)\<rparr>) d'"
      and keep: "only_records user (d\<lparr>ad_next := Suc (ad_next d)\<rparr>) d'" "ad_events d' = ad_events d" by auto
    have len: "length ids = length (filter identified clean)"
      using told by (simp add: truly_told_def l_def served_entries_from length_entries_from)
    have none: "\<forall>i \<in> set clean. sv_impression i = None" by (auto simp: clean_def)
    have "truly_stamped e user policy d d' items (stamp_items ids clean)"
      unfolding truly_stamped_def
    proof (intro conjI allI impI)
      show "length (stamp_items ids clean) = length items" by (simp add: clean_def)
      show "distinct (List.map_filter sv_impression (stamp_items ids clean))"
        using stamp_items_ids [OF len none] told by (simp add: truly_told_def)
    next
      fix k assume k: "k < length items"
      then have kc: "k < length clean" "clean ! k = (items ! k)\<lparr>sv_impression := None\<rparr>" by (simp_all add: clean_def)
      from stamp_items_nth [OF len kc(1), of 1] kc(2)
      show "stamp_items ids clean ! k = (items ! k)\<lparr>sv_impression := sv_impression (stamp_items ids clean ! k)\<rparr>"
        by (auto split: if_splits)
    next
      fix k x assume k: "k < length items" and x: "sv_impression (stamp_items ids clean ! k) = Some x"
      then have kc: "k < length clean" "clean ! k = (items ! k)\<lparr>sv_impression := None\<rparr>" by (simp_all add: clean_def)
      from stamp_items_nth [OF len kc(1), of 1] kc(2) x obtain j where
        j: "j < length ids" "ids ! j = Some x" "entries_from 1 clean ! j = entry_at (1 + k) (clean ! k)"
        by (auto split: if_splits)
      from told obtain ims where ims: "ad_impressions d' = ad_impressions d @ ims"
        "\<forall>k < length ids. \<forall>x. ids ! k = Some x \<longrightarrow>
           (\<exists>im \<in> set ims. im_id im = x \<and> (\<exists>s. map_of (ad_subjects d') user = Some s \<and> about_item e s l (sl_items l ! k) im))"
        by (auto simp: truly_told_def)
      from ims(2) j(1,2) obtain im s where im: "im \<in> set ims" "im_id im = x"
        "map_of (ad_subjects d') user = Some s" "about_item e s l (sl_items l ! j) im" by blast
      then have "im \<in> set (ad_impressions d')" using ims(1) by simp
      have "sl_items l ! j = entry_at (1 + k) (clean ! k)" using j(3) by (simp add: l_def served_entries_from)
      with \<open>im \<in> set (ad_impressions d')\<close> im kc(2) show "\<exists>im. im \<in> set (ad_impressions d') \<and> im_id im = x \<and> im_position im = int k + 1 \<and> im_policy im = policy
          \<and> im_surface im = SURFACE_RECOMMENDATION \<and> map_of (ad_subjects d') user = Some (im_subject im)
          \<and> (\<exists>g. sv_gm_id (items ! k) = Some g \<and> ae_uuid e g = Some (im_item im))"
        by (intro exI [of _ im]) (auto simp: about_item_def l_def entry_at_def)
    qed
    with r keep show ?thesis by (simp add: only_records_def)
  qed
qed


definition sample_items :: "served_item list" where
  "sample_items =
     [\<lparr>sv_gm_id = Some ''g1'', sv_score = Some 3, sv_body = ''a'', sv_impression = None\<rparr>,
      \<lparr>sv_gm_id = None, sv_score = Some 2, sv_body = ''b'', sv_impression = Some ''old''\<rparr>]"

theorem stamped_impressions_exist_witness:
  "let r = stamp_recommendation_impressions sample_act_env no_faults (2026, 3, 7) ''u'' ''explore'' sample_items
             (new_process, empty_act_db)
   in (\<exists>items'. fst r = Inr items' \<and> map (\<lambda>i. sv_impression i \<noteq> None) items' = [True, False]
         \<and> truly_stamped sample_act_env ''u'' ''explore'' empty_act_db (snd (snd r)) sample_items items')"
proof -
  let ?r = "stamp_recommendation_impressions sample_act_env no_faults (2026, 3, 7) ''u'' ''explore'' sample_items
             (new_process, empty_act_db)"
  have "coherent new_process empty_act_db" by (simp add: new_process_def)
  from stamped_impressions_exist [OF this sample_env_laws(1), of no_faults "(2026, 3, 7)" "''u''" "''explore''" sample_items
      "fst ?r" "fst (snd ?r)" "snd (snd ?r)"]
  obtain items' where "fst ?r = Inr items'" "truly_stamped sample_act_env ''u'' ''explore'' empty_act_db (snd (snd ?r)) sample_items items'"
    by auto
  moreover have "(case fst ?r of Inl x \<Rightarrow> False | Inr its \<Rightarrow> map (\<lambda>i. sv_impression i \<noteq> None) its = [True, False])"
    by code_simp
  ultimately show ?thesis by (auto simp: Let_def)
qed

end
