(* ===== verification/Activity_Account_Properties.thy ===== *)
theory Activity_Account_Properties
  imports Activity_Properties
begin

text \<open>
  Properties of the endpoints: consent refines a map from users and purposes to the last decision, an
  erasure leaves nothing of the account but what is named here, and an export is the account, in one
  order whatever the order of storage.
\<close>

section \<open>Consent\<close>

record consent_request =
  ct_now :: moment
  ct_user :: string
  ct_purpose :: string
  ct_granted :: bool
  ct_refused :: bool
  ct_faults :: act_faults

fun serve_consents :: "act_env \<Rightarrow> (moment \<Rightarrow> string) \<Rightarrow> consent_request list \<Rightarrow> act_state \<Rightarrow> act_reply list \<times> act_state" where
  "serve_consents e text_of [] st = ([], st)"
| "serve_consents e text_of (r # rs) st =
     (let (a, st1) = set_consent e text_of (ct_refused r) (ct_faults r) (ct_now r) (ct_user r) (ct_purpose r) (ct_granted r) st;
          (as, st2) = serve_consents e text_of rs st1
      in (a # as, st2))"

text \<open>The specification: a map from a user and a purpose to the last decision.\<close>

type_synonym consent_map = "string \<times> string \<Rightarrow> bool"

fun spec_consents :: "string list \<Rightarrow> consent_request list \<Rightarrow> consent_map \<Rightarrow> act_reply list \<times> consent_map" where
  "spec_consents purposes [] c = ([], c)"
| "spec_consents purposes (r # rs) c =
     (let place = (ct_user r, ct_purpose r);
          (a, c1) = (if ct_purpose r \<notin> set purposes then (ActError 422 ''Unknown purpose'', c)
                     else if ct_refused r then (ActError 500 ''query'', c)
                     else (ConsentSet (ct_purpose r) (ct_granted r) (c place \<noteq> ct_granted r), c(place := ct_granted r)));
          (as, c2) = spec_consents purposes rs c1
      in (a # as, c2))"

fun changed_reply :: "act_reply \<Rightarrow> bool" where
  "changed_reply (ConsentSet purpose granted changed) = changed"
| "changed_reply a = False"

fun entry_flag :: "consent_entry \<Rightarrow> string \<times> bool" where
  "entry_flag (ConsentEntry purpose granted granted_at revoked_at) = (purpose, granted)"

text \<open>
  The order of grants: ids and times grow, and an open grant is newer than every closed one of its user
  and purpose.
\<close>

definition grant_key :: "grant \<Rightarrow> moment \<times> nat" where
  "grant_key g = (gr_at g, gr_id g)"

definition grants_dated :: "moment \<Rightarrow> act_db \<Rightarrow> bool" where
  "grants_dated t d \<longleftrightarrow> (\<forall>g \<in> set (ad_grants d). gr_at g \<le> t \<and> gr_id g < ad_next d)
     \<and> (\<forall>g \<in> set (ad_grants d). \<forall>h \<in> set (ad_grants d). gr_user g = gr_user h \<and> gr_purpose g = gr_purpose h
          \<and> gr_revoked g \<noteq> None \<and> gr_revoked h = None \<longrightarrow> grant_key g < grant_key h)"

lemma newest_grant_cases:
  "case newest_grant user purpose d of
     None \<Rightarrow> \<forall>g \<in> set (ad_grants d). \<not> (gr_user g = user \<and> gr_purpose g = purpose)
   | Some g \<Rightarrow> g \<in> set (ad_grants d) \<and> gr_user g = user \<and> gr_purpose g = purpose
       \<and> (\<forall>h \<in> set (ad_grants d). gr_user h = user \<and> gr_purpose h = purpose \<longrightarrow> grant_key h \<le> grant_key g)"
proof -
  let ?gs = "filter (\<lambda>g. gr_user g = user \<and> gr_purpose g = purpose) (ad_grants d)"
  let ?ss = "sort_key (\<lambda>g. (gr_at g, gr_id g)) ?gs"
  have set_ss: "set ?ss = set ?gs" by simp
  show ?thesis
  proof (cases "rev ?ss")
    case Nil
    then have "?ss = []" by (simp only: rev_is_Nil_conv)
    then have "set ?ss = {}" by (simp only: list.set(1))
    then have "?gs = []" by simp
    with Nil show ?thesis by (auto simp: newest_grant_def filter_empty_conv)
  next
    case (Cons g gs)
    then have "rev (rev ?ss) = rev (g # gs)" by (simp only:)
    then have ss: "?ss = rev gs @ [g]" by (simp only: rev_rev_ident rev.simps)
    have "sorted (map grant_key ?ss)" unfolding grant_key_def by (rule sorted_sort_key)
    then have "\<forall>h \<in> set ?ss. grant_key h \<le> grant_key g" unfolding ss by (auto simp: sorted_append)
    moreover have "g \<in> set ?ss" unfolding ss by simp
    ultimately show ?thesis using Cons unfolding set_ss by (auto simp: newest_grant_def)
  qed
qed

lemma newest_granted:
  assumes "grants_dated t d"
  shows "(case newest_grant user purpose d of None \<Rightarrow> False | Some g \<Rightarrow> gr_revoked g = None) \<longleftrightarrow> consented d user purpose"
proof (cases "newest_grant user purpose d")
  case None
  with newest_grant_cases [where user = user and purpose = purpose and d = d] show ?thesis by (auto simp: consented_def active_grant_def)
next
  case (Some g)
  with newest_grant_cases [where user = user and purpose = purpose and d = d] have
    g: "g \<in> set (ad_grants d)" "gr_user g = user" "gr_purpose g = purpose"
      "\<forall>h \<in> set (ad_grants d). gr_user h = user \<and> gr_purpose h = purpose \<longrightarrow> grant_key h \<le> grant_key g" by auto
  have "gr_revoked g = None" if "consented d user purpose"
  proof (rule ccontr)
    assume "gr_revoked g \<noteq> None"
    moreover from that obtain h where "h \<in> set (ad_grants d)" "gr_user h = user" "gr_purpose h = purpose" "gr_revoked h = None"
      by (auto simp: consented_def active_grant_def)
    ultimately have "grant_key g < grant_key h" "grant_key h \<le> grant_key g" using assms g by (auto simp: grants_dated_def)
    then show False by simp
  qed
  with Some g show ?thesis by (auto simp: consented_def active_grant_def)
qed

lemma select_consent_newest:
  "map_of (rev (map (\<lambda>g. (gr_purpose g, g)) (select_consent user d))) purpose = newest_grant user purpose d"
proof -
  have same: "newest_grant user q d = Some g \<Longrightarrow> gr_purpose g = q" for q g
    using newest_grant_cases [where user = user and purpose = q and d = d] by simp
  have gen: "map_of (rev (map (\<lambda>g. (gr_purpose g, g)) (List.map_filter (\<lambda>q. newest_grant user q d) qs))) purpose
      = (if purpose \<in> set qs then newest_grant user purpose d else None)" for qs
  proof (induction qs)
    case (Cons q qs)
    show ?case
    proof (cases "newest_grant user q d")
      case (Some g)
      from same [OF this] Cons.IH Some show ?thesis by (auto simp: map_filter_Cons map_add_def split: option.split)
    qed (use Cons.IH in \<open>auto simp: map_filter_Cons\<close>)
  qed (simp add: List.map_filter_simps)
  have "newest_grant user purpose d = None" if "purpose \<notin> gr_purpose ` {g \<in> set (ad_grants d). gr_user g = user}"
    using that newest_grant_cases [where user = user and purpose = purpose and d = d] by (cases "newest_grant user purpose d") auto
  then show ?thesis by (auto simp: select_consent_def gen)
qed

lemma get_consent_flags:
  assumes "ap_pool p" "grants_dated t d"
  shows "\<exists>es. get_consent e False user (p, d) = ConsentState es
    \<and> map entry_flag es = map (\<lambda>q. (q, consented d user q)) (ae_purposes e)"
proof -
  have "entry_flag (consent_entry_of (rev (map (\<lambda>g. (gr_purpose g, g)) (select_consent user d))) q) = (q, consented d user q)" for q
    using newest_granted [OF assms(2), where user = user and purpose = q]
    by (auto simp: consent_entry_of_def select_consent_newest split: option.splits)
  then show ?thesis using assms(1) by (simp add: get_consent_def consent_state_def)
qed


text \<open>One decision on the table.\<close>

definition consent_now :: "act_db \<Rightarrow> consent_map" where
  "consent_now d = (\<lambda>(u, q). consented d u q)"

lemma insert_grant_consented:
  "consented (snd (insert_grant now user purpose d)) u q \<longleftrightarrow> u = user \<and> q = purpose \<or> consented d u q"
  by (auto simp: insert_grant_def consented_def active_grant_def list_ex_iff)

lemma revoke_grant_consented:
  "consented (snd (revoke_grant now user purpose d)) u q \<longleftrightarrow> \<not> (u = user \<and> q = purpose) \<and> consented d u q"
proof -
  have "active_grant u q (close_grant now user purpose g)
      \<longleftrightarrow> \<not> (u = user \<and> q = purpose) \<and> active_grant u q g" for g
    by (auto simp: active_grant_def close_grant_def)
  then show ?thesis by (simp add: revoke_grant_def consented_def)
qed

lemma decide_consented:
  assumes "decide now user purpose granted d = (changed, d')"
  shows "changed = (consented d user purpose \<noteq> granted)"
    "consent_now d' = (consent_now d)((user, purpose) := granted)"
    "ad_subjects d' = ad_subjects d" "ad_partitions d' = ad_partitions d"
proof -
  have d': "d' = snd (decide now user purpose granted d)" and c: "changed = fst (decide now user purpose granted d)"
    using assms by simp_all
  show "changed = (consented d user purpose \<noteq> granted)"
    by (simp add: c decide_def insert_grant_def revoke_grant_def consented_def list_ex_iff)
  show "consent_now d' = (consent_now d)((user, purpose) := granted)"
    by (auto simp: d' decide_def consent_now_def fun_eq_iff insert_grant_consented revoke_grant_consented)
  show "ad_subjects d' = ad_subjects d" "ad_partitions d' = ad_partitions d"
    by (simp_all add: d' decide_def insert_grant_def revoke_grant_def)
qed

lemma decide_dated:
  assumes "grants_dated t d" "t \<le> now" "decide now user purpose granted d = (changed, d')"
  shows "grants_dated now d'"
proof (cases granted)
  case True
  with assms(3) have ins: "insert_grant now user purpose d = (changed, d')" by (simp add: decide_def)
  have dated: "gr_at g \<le> now" "gr_id g < ad_next d" if "g \<in> set (ad_grants d)" for g
    using that assms(1,2) by (auto simp: grants_dated_def)
  have newer: "grant_key g < (now, ad_next d)" if "g \<in> set (ad_grants d)" for g
    using dated [OF that] by (simp add: grant_key_def)
  have new: "grant_key \<lparr>gr_id = ad_next d, gr_user = user, gr_purpose = purpose, gr_at = now, gr_revoked = None\<rparr> = (now, ad_next d)"
    by (simp add: grant_key_def)
  from ins show ?thesis
    using assms(1) dated newer
    by (auto simp: insert_grant_def grants_dated_def less_Suc_eq new split: if_splits)
next
  case False
  with assms(3) have d': "d' = d\<lparr>ad_grants := map (close_grant now user purpose) (ad_grants d)\<rparr>"
    by (auto simp: decide_def revoke_grant_def)
  show ?thesis unfolding grants_dated_def
  proof (intro conjI ballI impI)
    fix g' assume "g' \<in> set (ad_grants d')"
    then obtain g where "g \<in> set (ad_grants d)" "g' = close_grant now user purpose g"
      by (auto simp: d')
    then show "gr_at g' \<le> now" "gr_id g' < ad_next d'" using assms(1,2) by (auto simp: grants_dated_def d' close_grant_def)
  next
    fix g' h' assume "g' \<in> set (ad_grants d')" "h' \<in> set (ad_grants d')"
      and o: "gr_user g' = gr_user h' \<and> gr_purpose g' = gr_purpose h' \<and> gr_revoked g' \<noteq> None \<and> gr_revoked h' = None"
    then obtain g h where gh: "g \<in> set (ad_grants d)" "g' = close_grant now user purpose g"
      "h \<in> set (ad_grants d)" "h' = close_grant now user purpose h"
      by (auto simp: d')
    with o have "h' = h" "gr_revoked h = None" "\<not> active_grant user purpose h" by (auto simp: close_grant_def split: if_splits)
    with o gh have "gr_revoked g \<noteq> None" "g' = g" by (auto simp: active_grant_def close_grant_def split: if_splits)
    with assms(1) gh o \<open>h' = h\<close> show "grant_key g' < grant_key h'" by (auto simp: grants_dated_def)
  qed
qed

lemma only_records_grants:
  assumes "only_records user d d'"
  shows "consented d' = consented d" "grants_dated t d \<Longrightarrow> grants_dated t d'"
  using assms by (auto simp: only_records_def consented_def grants_dated_def fun_eq_iff intro: less_le_trans)

definition refines :: "moment \<Rightarrow> act_state \<Rightarrow> consent_map \<Rightarrow> bool" where
  "refines t st c \<longleftrightarrow> (case st of (p, d) \<Rightarrow> coherent p d \<and> ap_pool p \<and> grants_dated t d \<and> consent_now d = c)"

lemma set_consent_refines:
  assumes "refines t st c" "t \<le> ct_now r"
    "set_consent e text_of (ct_refused r) (ct_faults r) (ct_now r) (ct_user r) (ct_purpose r) (ct_granted r) st = (a, st')"
    "spec_consents (ae_purposes e) [r] c = (as, c')"
  shows "as = [a]" "refines (ct_now r) st' c'"
    "length (ap_counts (fst st')) = length (ap_counts (fst st)) + (if changed_reply a then 1 else 0)"
proof -
  obtain p d where st: "st = (p, d)" by (rule prod.exhaust)
  have r: "coherent p d" "ap_pool p" "grants_dated t d" "consent_now d = c" using assms(1) by (simp_all add: refines_def st)
  have later: "grants_dated (ct_now r) d" using r(3) assms(2) by (auto simp: grants_dated_def)
  have "as = [a] \<and> refines (ct_now r) st' c'
    \<and> length (ap_counts (fst st')) = length (ap_counts (fst st)) + (if changed_reply a then 1 else 0)"
  proof (cases "ct_purpose r \<in> set (ae_purposes e) \<and> \<not> ct_refused r")
    case False
    with assms(3,4) r later show ?thesis by (auto simp: set_consent_def st refines_def split: if_splits)
  next
    case True
    obtain changed d1 where de: "decide (ct_now r) (ct_user r) (ct_purpose r) (ct_granted r) d = (changed, d1)" by (rule prod.exhaust)
    note dc = decide_consented [OF de]
    have d1: "coherent p d1" "grants_dated (ct_now r) d1" using r(1) dc(3,4) decide_dated [OF r(3) assms(2) de] by (simp_all add: coherent_def)
    have c': "c' = consent_now d1" "as = [ConsentSet (ct_purpose r) (ct_granted r) changed]"
      using assms(4) True dc(1,2) r(4) by (auto simp: consent_now_def)
    obtain p2 d2 where re: "record_event e (ct_faults r) (ct_now r) (ct_user r)
        (consent_event text_of (ct_now r) (ct_purpose r) (ct_granted r)) (p, d1) = (p2, d2)" by (rule prod.exhaust)
    from record_event_outcome [OF d1(1) re] obtain x where
      x: "ap_counts p2 = ap_counts p @ [x]" "coherent p2 d2" "only_records (ct_user r) d1 d2" "ap_pool p2 = ap_pool p" by blast
    note kept = only_records_grants [OF x(3)]
    show ?thesis
      using assms(3) True r d1 de re x c' kept
      by (auto simp: set_consent_def st refines_def consent_now_def split: if_splits)
  qed
  then show "as = [a]" "refines (ct_now r) st' c'"
    "length (ap_counts (fst st')) = length (ap_counts (fst st)) + (if changed_reply a then 1 else 0)" by auto
qed


lemma spec_consents_split:
  "spec_consents ps (r # rs) c =
     (let (as, c1) = spec_consents ps [r] c; (bs, c2) = spec_consents ps rs c1 in (as @ bs, c2))"
  by (simp add: Let_def case_prod_beta)

lemma serve_consents_refines:
  assumes "refines t st c" "sorted (t # map ct_now rs)" "serve_consents e text_of rs st = (as, st')"
  shows "\<exists>t' c'. spec_consents (ae_purposes e) rs c = (as, c') \<and> refines t' st' c'
    \<and> length (ap_counts (fst st')) = length (ap_counts (fst st)) + length (filter changed_reply as)"
  using assms
proof (induction rs arbitrary: t st c as)
  case (Cons r rs)
  obtain a st1 where a: "set_consent e text_of (ct_refused r) (ct_faults r) (ct_now r) (ct_user r) (ct_purpose r) (ct_granted r) st
      = (a, st1)" by (rule prod.exhaust)
  obtain bs where bs: "serve_consents e text_of rs st1 = (bs, st')" "as = a # bs"
    using Cons.prems(3) a by (auto split: prod.splits)
  obtain xs c1 where x: "spec_consents (ae_purposes e) [r] c = (xs, c1)" by (rule prod.exhaust)
  have later: "t \<le> ct_now r" "sorted (ct_now r # map ct_now rs)" using Cons.prems(2) by auto
  note one = set_consent_refines [OF Cons.prems(1) later(1) a x]
  from Cons.IH [OF one(2) later(2) bs(1)] obtain t' c' where
    tail: "spec_consents (ae_purposes e) rs c1 = (bs, c')" "refines t' st' c'"
    "length (ap_counts (fst st')) = length (ap_counts (fst st1)) + length (filter changed_reply bs)" by blast
  have "spec_consents (ae_purposes e) (r # rs) c = (as, c')"
    unfolding spec_consents_split [of _ r rs] x tail(1) Let_def prod.case one(1) by (simp add: bs(2) tail(1))
  moreover have "length (ap_counts (fst st')) = length (ap_counts (fst st)) + length (filter changed_reply as)"
    using tail(3) one(3) bs(2) by simp
  ultimately show ?case using tail(2) by blast
qed auto

text \<open>
  C36.  Consent is the last decision.  Any sequence of requests, by any users and with any failing
  queries and recordings, is answered and leaves the consents as the abstract map does: what a user
  reads back and the purposes stamped on that user's next events are the purposes whose last served
  request granted them.  A reply says changed exactly when the map changed, and each change, and nothing
  else, makes one event call.
\<close>

theorem consent_is_last_decision:
  assumes "coherent p d" "ap_pool p" "grants_dated t d" "sorted (t # map ct_now rs)"
    and "serve_consents e text_of rs (p, d) = (as, (p', d'))"
  shows "\<exists>c. spec_consents (ae_purposes e) rs (\<lambda>(u, q). consented d u q) = (as, c)
    \<and> (\<forall>user. active_purposes e False user (p', d') = filter (\<lambda>q. c (user, q)) (ae_purposes e)
        \<and> (\<exists>es. get_consent e False user (p', d') = ConsentState es
              \<and> map entry_flag es = map (\<lambda>q. (q, c (user, q))) (ae_purposes e)))
    \<and> length (ap_counts p') = length (ap_counts p) + length (filter changed_reply as)"
proof -
  have "refines t (p, d) (consent_now d)" using assms(1-3) by (simp add: refines_def)
  from serve_consents_refines [OF this assms(4,5)] obtain t' c where
    c: "spec_consents (ae_purposes e) rs (consent_now d) = (as, c)" "refines t' (p', d') c"
      "length (ap_counts p') = length (ap_counts p) + length (filter changed_reply as)" by auto
  then have r: "ap_pool p'" "grants_dated t' d'" "consented d' = (\<lambda>u q. c (u, q))"
    by (auto simp: refines_def consent_now_def)
  from get_consent_flags [OF r(1,2)] r c show ?thesis
    by (auto simp: active_purposes_snapshot snapshot_purposes_def consent_now_def)
qed

definition sample_consents :: "consent_request list" where
  "sample_consents =
     [\<lparr>ct_now = (2026, 3, 1), ct_user = ''u'', ct_purpose = ''model_training'', ct_granted = True, ct_refused = False, ct_faults = no_faults\<rparr>,
      \<lparr>ct_now = (2026, 3, 2), ct_user = ''u'', ct_purpose = ''model_training'', ct_granted = True, ct_refused = False, ct_faults = no_faults\<rparr>,
      \<lparr>ct_now = (2026, 3, 3), ct_user = ''u'', ct_purpose = ''model_training'', ct_granted = False, ct_refused = False, ct_faults = no_faults\<rparr>,
      \<lparr>ct_now = (2026, 3, 3), ct_user = ''u'', ct_purpose = ''product_analytics'', ct_granted = True, ct_refused = False, ct_faults = no_faults\<rparr>]"

definition sample_text :: "moment \<Rightarrow> string" where
  "sample_text t = show_nat (snd (snd t))"

theorem consent_is_last_decision_witness:
  "let r = serve_consents sample_act_env sample_text sample_consents (new_process, empty_act_db)
   in map changed_reply (fst r) = [True, False, True, True]
      \<and> active_purposes sample_act_env False ''u'' (snd r) = [''product_analytics'']
      \<and> length (ap_counts (fst (snd r))) = 3"
proof -
  let ?r = "serve_consents sample_act_env sample_text sample_consents (new_process, empty_act_db)"
  have a: "coherent new_process empty_act_db" "ap_pool new_process" "grants_dated (2026, 3, 1) empty_act_db"
    by (simp_all add: new_process_def grants_dated_def empty_act_db_def)
  have s: "sorted ((2026, 3, 1) # map ct_now sample_consents)" by (simp add: sample_consents_def)
  have eq: "?r = (fst ?r, (fst (snd ?r), snd (snd ?r)))" by simp
  from consent_is_last_decision [OF a s eq] obtain c where
    c: "spec_consents (ae_purposes sample_act_env) sample_consents (\<lambda>(u, q). consented empty_act_db u q) = (fst ?r, c)"
      "active_purposes sample_act_env False ''u'' (snd ?r) = filter (\<lambda>q. c (''u'', q)) (ae_purposes sample_act_env)"
      "length (ap_counts (fst (snd ?r))) = length (ap_counts new_process) + length (filter changed_reply (fst ?r))" by auto
  have purposes: "ae_purposes sample_act_env = [''product_analytics'', ''model_training'']" by (simp add: sample_act_env_def)
  have "spec_consents (ae_purposes sample_act_env) sample_consents (\<lambda>(u, q). consented empty_act_db u q) =
      (let c0 = (\<lambda>(u, q). consented empty_act_db u q) in
       ([ConsentSet ''model_training'' True True, ConsentSet ''model_training'' True False,
         ConsentSet ''model_training'' False True, ConsentSet ''product_analytics'' True True],
        c0((''u'', ''model_training'') := False, (''u'', ''product_analytics'') := True)))"
    by (simp add: purposes sample_consents_def consented_def empty_act_db_def)
  with c(1) have "fst ?r = [ConsentSet ''model_training'' True True, ConsentSet ''model_training'' True False,
         ConsentSet ''model_training'' False True, ConsentSet ''product_analytics'' True True]"
    "\<not> c (''u'', ''model_training'')" "c (''u'', ''product_analytics'')" by auto
  with c(2,3) show ?thesis by (simp add: Let_def purposes) (simp add: new_process_def)
qed


section \<open>Erasure\<close>

text \<open>The tables keyed to a user: those an export reads, the history of synchronisations and the tokens.\<close>

definition EXPORTED_TABLES :: "(string \<times> string) list" where
  "EXPORTED_TABLES =
     [(''collection_item'', ''user_collections''), (''wantlist_item'', ''user_wantlists''), (''owned_copy'', ''owned_copies''),
      (''observation'', ''observations''), (''catalog_item_move'', ''catalog_item_moves''),
      (''collection_snapshot'', ''collection_snapshots'')]"

definition keyed_tables :: "string set" where
  "keyed_tables = set (map snd EXPORTED_TABLES) \<union> {''sync_history'', ''app_tokens'', ''oauth_tokens''}"

lemma keyed_tables_deleted: "keyed_tables = set USER_OWNED_TABLES"
  unfolding keyed_tables_def EXPORTED_TABLES_def USER_OWNED_TABLES_def
  by (rule subset_antisym; simp only: list.map snd_conv list.set insert_subset empty_subsetI Un_insert_left Un_empty_left
      insert_iff simp_thms)

text \<open>What an erasure promises of the tables: nothing is left, and nothing of anyone else is touched.\<close>

definition is_erased :: "string \<Rightarrow> account \<Rightarrow> bool" where
  "is_erased user a \<longleftrightarrow> \<not> us_active a \<and> us_totp_secret a = None \<and> us_recovery a = None
     \<and> us_email a = ''erased+'' @ user @ ''@'' @ ERASED_EMAIL_DOMAIN"

definition nothing_left :: "string \<Rightarrow> string \<Rightarrow> act_db \<Rightarrow> bool" where
  "nothing_left user s d \<longleftrightarrow> (\<forall>x \<in> set (ad_events d). ev_subject x \<noteq> s) \<and> (\<forall>x \<in> set (ad_impressions d). im_subject x \<noteq> s)
     \<and> map_of (ad_subjects d) user = None
     \<and> (\<forall>r \<in> set (ad_owned d). ow_user r = user \<longrightarrow> ow_table r \<notin> keyed_tables)
     \<and> (\<forall>a \<in> set (ad_accounts d). us_id a = user \<longrightarrow> is_erased user a)"

definition others_kept :: "string \<Rightarrow> string \<Rightarrow> act_db \<Rightarrow> act_db \<Rightarrow> bool" where
  "others_kept user s d d' \<longleftrightarrow> filter (\<lambda>x. ev_subject x \<noteq> s) (ad_events d') = filter (\<lambda>x. ev_subject x \<noteq> s) (ad_events d)
     \<and> filter (\<lambda>x. im_subject x \<noteq> s) (ad_impressions d') = filter (\<lambda>x. im_subject x \<noteq> s) (ad_impressions d)
     \<and> (\<forall>u. u \<noteq> user \<longrightarrow> map_of (ad_subjects d') u = map_of (ad_subjects d) u)
     \<and> filter (\<lambda>r. ow_user r \<noteq> user) (ad_owned d') = filter (\<lambda>r. ow_user r \<noteq> user) (ad_owned d)
     \<and> filter (\<lambda>a. us_id a \<noteq> user) (ad_accounts d') = filter (\<lambda>a. us_id a \<noteq> user) (ad_accounts d)"

lemma delete_owned_all:
  "foldl (\<lambda>d table. delete_owned user table d) d tables
     = d\<lparr>ad_owned := filter (\<lambda>r. ow_user r = user \<longrightarrow> ow_table r \<notin> set tables) (ad_owned d)\<rparr>"
proof (induction tables arbitrary: d)
  case (Cons table tables)
  have "foldl (\<lambda>d table. delete_owned user table d) d (table # tables)
      = d\<lparr>ad_owned := filter (\<lambda>r. ow_user r = user \<longrightarrow> ow_table r \<notin> set tables) (ad_owned (delete_owned user table d))\<rparr>"
    by (simp add: Cons) (simp add: delete_owned_def)
  moreover have "filter (\<lambda>r. ow_user r = user \<longrightarrow> ow_table r \<notin> set tables) (ad_owned (delete_owned user table d))
      = filter (\<lambda>r. ow_user r = user \<longrightarrow> ow_table r \<notin> set (table # tables)) (ad_owned d)"
    by (auto simp: delete_owned_def intro: filter_cong)
  ultimately show ?case by simp
qed simp

lemma map_of_other_keys: "map_of (filter (\<lambda>(u, s). u \<noteq> user) xs) v = (if v = user then None else map_of xs v)"
  by (induction xs) auto

lemma soft_erase_simps [simp]:
  "us_id (soft_erase user hash a) = us_id a" "us_active (soft_erase user hash a) = False"
  "us_totp_secret (soft_erase user hash a) = None" "us_recovery (soft_erase user hash a) = None"
  "us_email (soft_erase user hash a) = ''erased+'' @ user @ ''@'' @ ERASED_EMAIL_DOMAIN"
  by (simp_all add: soft_erase_def)

lemma soft_erased_accounts:
  "\<forall>a \<in> set (map (\<lambda>a. if us_id a = user then soft_erase user hash a else a) as). us_id a = user \<longrightarrow> is_erased user a"
  by (induction as) (simp_all add: is_erased_def)

lemma filter_soft_erase:
  "filter (\<lambda>a. us_id a \<noteq> user) (map (\<lambda>a. if us_id a = user then soft_erase user hash a else a) as) = filter (\<lambda>a. us_id a \<noteq> user) as"
  by (induction as) simp_all

lemma erase_postgres_eq:
  "erase_postgres e now hash user s d =
     (let ne = length (filter (\<lambda>x. ev_subject x = s) (ad_events d)); ni = length (filter (\<lambda>x. im_subject x = s) (ad_impressions d))
      in ((ae_id e (ad_next d), ne, ni),
          d\<lparr>ad_next := Suc (ad_next d), ad_events := filter (\<lambda>x. ev_subject x \<noteq> s) (ad_events d),
            ad_impressions := filter (\<lambda>x. im_subject x \<noteq> s) (ad_impressions d),
            ad_subjects := filter (\<lambda>(u, s). u \<noteq> user) (ad_subjects d),
            ad_erasures := ad_erasures d @ [\<lparr>er_id = ae_id e (ad_next d), er_subject = s, er_requested = now, er_events = ne,
              er_impressions = ni, er_keys = ae_key_count e (ad_events d) s, er_models = []\<rparr>],
            ad_owned := filter (\<lambda>r. ow_user r = user \<longrightarrow> ow_table r \<notin> set USER_OWNED_TABLES) (ad_owned d),
            ad_accounts := map (\<lambda>a. if us_id a = user then soft_erase user hash a else a) (ad_accounts d)\<rparr>))"
  by (simp add: erase_postgres_def delete_events_def delete_impressions_def delete_subject_def delete_owned_all
      soft_erase_user_def Let_def)

lemma erase_postgres_facts:
  assumes "erase_postgres e now hash user s d = ((rid, ne, ni), d')"
  shows "nothing_left user s d'" "others_kept user s d d'" "ad_grants d' = ad_grants d" "ad_partitions d' = ad_partitions d"
    "ne = length (filter (\<lambda>x. ev_subject x = s) (ad_events d))" "ni = length (filter (\<lambda>x. im_subject x = s) (ad_impressions d))"
    "ad_erasures d' = ad_erasures d @ [\<lparr>er_id = rid, er_subject = s, er_requested = now, er_events = ne, er_impressions = ni,
       er_keys = ae_key_count e (ad_events d) s, er_models = []\<rparr>]" "ad_next d' = Suc (ad_next d)"
proof -
  have eq: "d' = snd (erase_postgres e now hash user s d)" "(rid, ne, ni) = fst (erase_postgres e now hash user s d)"
    using assms by simp_all
  show "nothing_left user s d'"
    unfolding eq erase_postgres_eq nothing_left_def keyed_tables_deleted
    using soft_erased_accounts [of user hash "ad_accounts d"] by (simp add: Let_def map_of_other_keys del: set_map)
  show "others_kept user s d d'"
    unfolding eq erase_postgres_eq others_kept_def
    by (auto simp: Let_def map_of_other_keys filter_soft_erase intro: filter_cong)
  show "ad_grants d' = ad_grants d" "ad_partitions d' = ad_partitions d" "ad_next d' = Suc (ad_next d)"
    unfolding eq erase_postgres_eq by (simp_all add: Let_def)
  show "ne = length (filter (\<lambda>x. ev_subject x = s) (ad_events d))" "ni = length (filter (\<lambda>x. im_subject x = s) (ad_impressions d))"
    "ad_erasures d' = ad_erasures d @ [\<lparr>er_id = rid, er_subject = s, er_requested = now, er_events = ne, er_impressions = ni,
       er_keys = ae_key_count e (ad_events d) s, er_models = []\<rparr>]"
    using eq by (simp_all add: erase_postgres_eq Let_def)
qed

lemma others_kept_trans:
  "others_kept user s d d1 \<Longrightarrow> others_kept user s d1 d2 \<Longrightarrow> others_kept user s d d2"
  by (simp add: others_kept_def)


text \<open>The other stores.\<close>

lemma with_legacy_keys_contains: "with_legacy_keys c keys = Inr ks \<Longrightarrow> set keys \<subseteq> set ks"
  by (auto simp: with_legacy_keys_def Let_def split: sum.splits if_splits)

definition scans_everything :: "erase_servers \<Rightarrow> bool" where
  "scans_everything es \<longleftrightarrow> (\<forall>ks. set (concat (es_pages es ks)) = set ks)"

lemma no_survivors:
  assumes "scans_everything es" "surviving_keys es patterns w = 0" "k \<in> set (so_keys w)"
  shows "\<not> matches_any es patterns k"
proof
  assume "matches_any es patterns k"
  then obtain pat where pat: "pat \<in> set patterns" "es_matches es pat k" by (auto simp: matches_any_def list_ex_iff)
  with assms(2) have "sum_list (map length (es_pages es (filter (es_matches es pat) (so_keys w)))) = 0"
    by (auto simp: surviving_keys_def)
  then have "concat (es_pages es (filter (es_matches es pat) (so_keys w))) = []"
    by (simp add: length_concat [symmetric] del: length_concat)
  with assms(1) have "set (filter (es_matches es pat) (so_keys w)) = {}" by (metis scans_everything_def set_empty)
  with pat assms(3) show False by auto
qed

definition stores_cleared :: "vk_config \<Rightarrow> (string \<Rightarrow> string) \<Rightarrow> erase_servers \<Rightarrow> erase_call \<Rightarrow> stores \<Rightarrow> bool" where
  "stores_cleared c pattern es q w \<longleftrightarrow> eb_user q \<notin> set (so_graph_users w)
     \<and> (\<exists>patterns ks. with_legacy_patterns c (recommendation_patterns pattern (eb_user q)) = Inr patterns
          \<and> with_legacy_keys c (erasure_keys c (eb_user q)) = Inr ks
          \<and> set (recommendation_patterns pattern (eb_user q)) \<subseteq> set patterns \<and> set (erasure_keys c (eb_user q)) \<subseteq> set ks
          \<and> (\<forall>k \<in> set (so_keys w). Some k \<noteq> map_option (\<lambda>j. vc_key c (''revoked:jti:'' @ j)) (eb_jti q)
               \<longrightarrow> k \<notin> set ks \<and> \<not> matches_any es patterns k))"

lemma erase_valkey_cleared:
  assumes "scans_everything es" "erase_valkey c pattern es user w = (None, w')"
  shows "\<exists>patterns ks. with_legacy_patterns c (recommendation_patterns pattern user) = Inr patterns
    \<and> with_legacy_keys c (erasure_keys c user) = Inr ks
    \<and> (\<forall>k \<in> set (so_keys w'). k \<notin> set ks \<and> \<not> matches_any es patterns k)" "so_graph_users w' = so_graph_users w"
proof -
  from assms(2) obtain patterns ks where pk: "with_legacy_patterns c (recommendation_patterns pattern user) = Inr patterns"
    "with_legacy_keys c (erasure_keys c user) = Inr ks"
    by (auto simp: erase_valkey_def split: sum.splits if_splits)
  define w2 where "w2 = (invalidate_user es patterns w)\<lparr>so_keys := filter (\<lambda>k. k \<notin> set ks) (so_keys (invalidate_user es patterns w))\<rparr>"
  from assms(2) pk have w': "w' = w2" "surviving_keys es patterns w2 = 0"
    by (auto simp: erase_valkey_def w2_def Let_def split: if_splits)
  have "k \<notin> set ks \<and> \<not> matches_any es patterns k" if "k \<in> set (so_keys w')" for k
    using that no_survivors [OF assms(1) w'(2)] by (auto simp: w' w2_def)
  with pk show "\<exists>patterns ks. with_legacy_patterns c (recommendation_patterns pattern user) = Inr patterns
    \<and> with_legacy_keys c (erasure_keys c user) = Inr ks
    \<and> (\<forall>k \<in> set (so_keys w'). k \<notin> set ks \<and> \<not> matches_any es patterns k)" by blast
  show "so_graph_users w' = so_graph_users w" by (simp add: w' w2_def invalidate_user_def)
qed

lemma stores_clearedI:
  assumes "scans_everything es" "erase_neo4j es (eb_user q) w = (None, w1)" "erase_valkey c pattern es (eb_user q) w1 = (None, w2)"
  shows "stores_cleared c pattern es q (revoke_caller_token c es (eb_jti q) w2)"
proof -
  from erase_valkey_cleared [OF assms(1,3)] obtain patterns ks where
    pk: "with_legacy_patterns c (recommendation_patterns pattern (eb_user q)) = Inr patterns"
      "with_legacy_keys c (erasure_keys c (eb_user q)) = Inr ks"
      "\<forall>k \<in> set (so_keys w2). k \<notin> set ks \<and> \<not> matches_any es patterns k" and g: "so_graph_users w2 = so_graph_users w1" by blast
  have "eb_user q \<notin> set (so_graph_users w1)" using assms(2) by (auto simp: erase_neo4j_def split: if_splits)
  moreover have "set (recommendation_patterns pattern (eb_user q)) \<subseteq> set patterns" "set (erasure_keys c (eb_user q)) \<subseteq> set ks"
    using pk(1,2) with_legacy_keys_contains by (auto simp: with_legacy_patterns_def)
  ultimately show ?thesis
    using pk g unfolding stores_cleared_def
    by (auto simp: revoke_caller_token_def split: option.splits)
qed

text \<open>The rows an event call adds are the caller's.\<close>

lemma record_event_others:
  assumes "coherent p d" "record_event e f now user q (p, d) = (p', d')" "map_of (ad_subjects d) user = Some s"
  shows "\<exists>new. ad_events d' = ad_events d @ new \<and> (\<forall>x \<in> set new. ev_subject x = s)" "ad_impressions d' = ad_impressions d"
    "coherent p' d'" "only_records user d d'" "map_of (ad_subjects d') user = Some s" "ap_pool p' = ap_pool p"
proof -
  from record_event_outcome [OF assms(1,2)] obtain x where
    x: "accounted e f now user q d x d'" "coherent p' d'" "only_records user d d'" "ad_impressions d' = ad_impressions d"
      "ap_pool p' = ap_pool p" by blast
  then show "ad_impressions d' = ad_impressions d" "coherent p' d'" "only_records user d d'" "ap_pool p' = ap_pool p"
    "map_of (ad_subjects d') user = Some s" using assms(3) by (auto simp: only_records_def)
  with x(1) show "\<exists>new. ad_events d' = ad_events d @ new \<and> (\<forall>x \<in> set new. ev_subject x = s)"
    by (auto simp: accounted_def)
qed


definition erasure_promise :: "act_env \<Rightarrow> vk_config \<Rightarrow> (string \<Rightarrow> string) \<Rightarrow> erase_servers \<Rightarrow> erase_call \<Rightarrow> act_db \<Rightarrow> stores
    \<Rightarrow> act_reply \<Rightarrow> act_process \<Rightarrow> act_db \<Rightarrow> stores \<Rightarrow> bool" where
  "erasure_promise e c pattern es q d w reply p' d' w' \<longleftrightarrow>
     (case reply of
        Erased rid ne ni incomplete \<Rightarrow>
          (\<exists>s. (\<forall>t. map_of (ad_subjects d) (eb_user q) = Some t \<longrightarrow> s = t)
             \<and> nothing_left (eb_user q) s d' \<and> others_kept (eb_user q) s d d' \<and> map_of (ap_subjects p') (eb_user q) = None
             \<and> (\<exists>r. ad_erasures d' = ad_erasures d @ [r] \<and> er_id r = rid \<and> er_subject r = s \<and> er_events r = ne \<and> er_impressions r = ni)
             \<and> length (filter (\<lambda>x. ev_subject x = s) (ad_events d)) \<le> ne
             \<and> ni = length (filter (\<lambda>x. im_subject x = s) (ad_impressions d)))
          \<and> ad_grants d' = ad_grants d
          \<and> (incomplete = [] \<longrightarrow> stores_cleared c pattern es q w')
      | ActError status detail \<Rightarrow>
          w' = w \<and> only_records (eb_user q) d d' \<and> ad_impressions d' = ad_impressions d
          \<and> (\<exists>new. ad_events d' = ad_events d @ new)
      | _ \<Rightarrow> False)"

lemma verify_errors: "verify_erasure_credentials cc refused user password code st = Some err \<Longrightarrow> \<exists>n t. err = ActError n t"
  by (auto simp: verify_erasure_credentials_def split: if_splits option.splits)

lemma map_filter_id_empty: "List.map_filter (\<lambda>x. x) [a, b] = [] \<longleftrightarrow> a = None \<and> b = None"
  by (simp add: map_filter_Cons split: option.split)

text \<open>The reply of an erasure that went through, from what its steps returned.\<close>

definition erasure_event :: "act_env \<Rightarrow> nat \<Rightarrow> event_request" where
  "erasure_event e n = plain_event EVENT_ERASURE_REQUESTED [(''erasure_id'', ae_id e n)]
     (Some (request_key EVENT_ERASURE_REQUESTED (ae_id e n)))"

lemma request_erasure_reply:
  assumes "verify_erasure_credentials cc refused (eb_user q) (eb_password q) (eb_code q) st = None"
    and "subject_for e (af_subject f) (eb_user q) st = (Some s, (p1, d1))"
    and "record_event e f now (eb_user q) (erasure_event e (ad_next d1)) (p1, d1\<lparr>ad_next := Suc (ad_next d1)\<rparr>) = (pb, db)"
    and "fst (erase_neo4j es (eb_user q) w) = None" "fst (erase_valkey c pattern es (eb_user q) (snd (erase_neo4j es (eb_user q) w))) = None"
  shows "\<exists>rid. fst (request_erasure e cc c pattern es refused False f now q (st, w)) =
    Erased rid (length (filter (\<lambda>x. ev_subject x = s) (ad_events db))) (length (filter (\<lambda>x. im_subject x = s) (ad_impressions db))) []"
proof -
  obtain rid ne ni d3 where ep: "erase_postgres e now (cc_hash cc) (eb_user q) s db = ((rid, ne, ni), d3)" by (metis surj_pair)
  obtain w1 where g: "erase_neo4j es (eb_user q) w = (None, w1)" using assms(4) by (metis prod.collapse)
  obtain w2 where v: "erase_valkey c pattern es (eb_user q) w1 = (None, w2)" using assms(5) g by (metis prod.collapse snd_conv)
  from erase_postgres_facts(5,6) [OF ep] show ?thesis
    using assms(1,2) assms(3) [unfolded erasure_event_def] ep g v
    by (auto simp: request_erasure_def Let_def map_filter_id_empty)
qed



definition sample_event :: "string \<Rightarrow> string \<Rightarrow> moment \<Rightarrow> act_event" where
  "sample_event i s t =
     \<lparr>ev_id = i, ev_type = ''fit.opened'', ev_version = 1, ev_subject = s, ev_session = None, ev_occurred = t, ev_recorded = t,
      ev_producer = PRODUCER, ev_purposes = [], ev_model = None, ev_feature = None, ev_key = i, ev_payload = []\<rparr>"

definition sample_owned :: "string \<Rightarrow> string \<Rightarrow> string \<Rightarrow> owned_row" where
  "sample_owned table user i = \<lparr>ow_table = table, ow_user = user, ow_id = i, ow_at = (2026, 1, 1), ow_columns = ''c''\<rparr>"

definition sample_account :: "string \<Rightarrow> account" where
  "sample_account user =
     \<lparr>us_id = user, us_email = user @ ''@x'', us_hash = ''h'', us_active = True, us_totp_secret = None, us_totp_enabled = False,
      us_recovery = None, us_failed = 0, us_locked = None\<rparr>"

definition sample_act_db :: act_db where
  "sample_act_db =
     \<lparr>ad_next = 5, ad_subjects = [(''u'', ''su''), (''v'', ''sv'')],
      ad_grants = [\<lparr>gr_id = 1, gr_user = ''u'', gr_purpose = ''model_training'', gr_at = (2026, 1, 1), gr_revoked = None\<rparr>],
      ad_events = [sample_event ''e2'' ''su'' (2026, 1, 2), sample_event ''e1'' ''su'' (2026, 1, 1), sample_event ''e3'' ''sv'' (2026, 1, 1)],
      ad_impressions = [], ad_partitions = [], ad_erasures = [],
      ad_owned = [sample_owned ''owned_copies'' ''u'' ''c1'', sample_owned ''owned_copies'' ''v'' ''c2'', sample_owned ''app_tokens'' ''u'' ''t1''],
      ad_accounts = [sample_account ''u'', sample_account ''v'']\<rparr>"

definition sample_checks :: credential_checks where
  "sample_checks = \<lparr>cc_password = (\<lambda>p h. p = ''pw''), cc_master_key = True, cc_totp = (\<lambda>s c. False), cc_hash = ''x''\<rparr>"

definition sample_vk :: vk_config where
  "sample_vk = \<lparr>vc_prefix = ''gm:'', vc_key = (\<lambda>k. ''gm:'' @ k), vc_mode_env = None, vc_window_env = None\<rparr>"

definition sample_servers :: erase_servers where
  "sample_servers =
     \<lparr>es_driver = True, es_graph_fails = False, es_client = True, es_missed = (\<lambda>k. False),
      es_matches = (\<lambda>pat k. if pat \<noteq> [] \<and> last pat = CHR ''*'' then starts_with (butlast pat) k else k = pat),
      es_pages = (\<lambda>ks. [ks]), es_delete_fails = False, es_scan_fails = False, es_revoke_fails = False\<rparr>"

definition sample_stores :: stores where
  "sample_stores = \<lparr>so_graph_users = [''u'', ''v''],
     so_keys = [''gm:recommend:explore:u:artist'', ''gm:sync:lock:u'', ''gm:recommend:enhanced:v'']\<rparr>"

definition sample_erasure :: erase_call where
  "sample_erasure = \<lparr>eb_user = ''u'', eb_jti = Some ''j'', eb_password = ''pw'', eb_code = None\<rparr>"



section \<open>Export\<close>

text \<open>The account as rows, in no order.\<close>

definition account_lines :: "string \<Rightarrow> string \<Rightarrow> act_db \<Rightarrow> export_line multiset" where
  "account_lines user s d =
     image_mset event_line (filter_mset (\<lambda>x. ev_subject x = s) (mset (ad_events d)))
     + image_mset impression_line (filter_mset (\<lambda>x. im_subject x = s) (mset (ad_impressions d)))
     + (\<Sum>(kind, table) \<leftarrow> EXPORTED_TABLES.
          image_mset (owned_line kind) (filter_mset (\<lambda>r. ow_table r = table \<and> ow_user r = user) (mset (ad_owned d))))
     + image_mset grant_line (filter_mset (\<lambda>g. gr_user g = user) (mset (ad_grants d)))"

lemma export_lines_account: "mset (export_lines user (Some s) (\<lambda>i. d)) = account_lines user s d"
  by (simp add: export_lines_def EXPORT_SECTIONS_def account_lines_def EXPORTED_TABLES_def export_events_def
      export_impressions_def export_by_id_def export_by_time_def export_grants_def mset_filter)

text \<open>The same rows, stored in another order, with the ids that make each row one.\<close>

definition same_contents :: "act_db \<Rightarrow> act_db \<Rightarrow> bool" where
  "same_contents d d' \<longleftrightarrow> mset (ad_events d) = mset (ad_events d') \<and> mset (ad_impressions d) = mset (ad_impressions d')
     \<and> mset (ad_owned d) = mset (ad_owned d') \<and> mset (ad_grants d) = mset (ad_grants d')"

definition rows_identified :: "act_db \<Rightarrow> bool" where
  "rows_identified d \<longleftrightarrow> inj_on ev_id (set (ad_events d)) \<and> inj_on im_id (set (ad_impressions d))
     \<and> inj_on (\<lambda>r. (ow_table r, ow_id r)) (set (ad_owned d)) \<and> inj_on gr_id (set (ad_grants d))"

lemma sorted_alike:
  assumes "mset xs = mset ys" "inj_on f {x \<in> set xs. P x}"
  shows "sort_key f (filter P xs) = sort_key f (filter P ys)"
proof -
  have m: "mset (filter P xs) = mset (sort_key f (filter P ys))" using assms(1) by (simp add: mset_filter)
  have "inj_on f (set (filter P xs))" using assms(2) by simp
  from sort_key_inj_key_eq [OF m this] show ?thesis by simp
qed

lemma export_lines_alike:
  assumes "same_contents d d'" "rows_identified d"
  shows "export_lines user s (\<lambda>i. d') = export_lines user s (\<lambda>i. d)"
proof -
  have m: "mset (ad_events d) = mset (ad_events d')" "mset (ad_impressions d) = mset (ad_impressions d')"
    "mset (ad_owned d) = mset (ad_owned d')" "mset (ad_grants d) = mset (ad_grants d')"
    using assms(1) by (simp_all add: same_contents_def)
  have i: "inj_on ev_id (set (ad_events d))" "inj_on im_id (set (ad_impressions d))"
    "inj_on (\<lambda>r. (ow_table r, ow_id r)) (set (ad_owned d))" "inj_on gr_id (set (ad_grants d))"
    using assms(2) by (simp_all add: rows_identified_def)
  have "export_events x d' = export_events x d" "export_impressions x d' = export_impressions x d" for x
    unfolding export_events_def export_impressions_def
    using sorted_alike [OF m(1), of "\<lambda>x. (ev_occurred x, ev_id x)" "\<lambda>y. ev_subject y = x"] i(1)
      sorted_alike [OF m(2), of "\<lambda>x. (im_occurred x, im_id x)" "\<lambda>y. im_subject y = x"] i(2)
    by (simp_all add: inj_on_def)
  moreover have "export_by_id kind table user d' = export_by_id kind table user d"
    "export_by_time kind table user d' = export_by_time kind table user d" for kind table
    unfolding export_by_id_def export_by_time_def
    using sorted_alike [OF m(3), of ow_id "\<lambda>r. ow_table r = table \<and> ow_user r = user"]
      sorted_alike [OF m(3), of "\<lambda>r. (ow_at r, ow_id r)" "\<lambda>r. ow_table r = table \<and> ow_user r = user"] i(3)
    by (simp_all add: inj_on_def)
  moreover have "export_grants user d' = export_grants user d"
    unfolding export_grants_def
    using sorted_alike [OF m(4), of "\<lambda>g. (gr_at g, gr_id g)" "\<lambda>g. gr_user g = user"] i(4) by (simp add: inj_on_def)
  ultimately show ?thesis by (simp add: export_lines_def EXPORT_SECTIONS_def split: option.split)
qed



end
