(* ===== verification/Activity_Runs_Properties.thy ===== *)
theory Activity_Runs_Properties
  imports Activity_Account_Properties
begin

text \<open>
  Properties of the service as it runs: whatever calls, processes and failures interleave, a report is
  recorded once, and the pseudonym of an erased account stays without rows unless a process or a call
  still held it when the erasure committed.
\<close>

section \<open>Who holds which pseudonym\<close>

fun pc_subjects :: "act_pc \<Rightarrow> string set" where
  "pc_subjects (Known s) = {s}"
| "pc_subjects (HasEvent ev) = {ev_subject ev}"
| "pc_subjects (HasEvents t evs) = ev_subject ` set evs"
| "pc_subjects (HasRows t bs) = im_subject ` set (rows_of bs)"
| "pc_subjects pc = {}"

definition links_hold :: "(string \<Rightarrow> string \<Rightarrow> bool) \<Rightarrow> act_db \<Rightarrow> bool" where
  "links_hold R d \<longleftrightarrow> (\<forall>v t. map_of (ad_subjects d) v = Some t \<longrightarrow> R v t)"

definition caches_hold :: "(string \<Rightarrow> string \<Rightarrow> bool) \<Rightarrow> act_process \<Rightarrow> bool" where
  "caches_hold R p \<longleftrightarrow> (\<forall>v t. map_of (ap_subjects p) v = Some t \<longrightarrow> R v t)"

definition fresh_holds :: "act_env \<Rightarrow> (string \<Rightarrow> string \<Rightarrow> bool) \<Rightarrow> act_db \<Rightarrow> bool" where
  "fresh_holds e R d \<longleftrightarrow> (\<forall>v. map_of (ad_subjects d) v = None \<longrightarrow> R v (ae_id e (ad_next d)))"

text \<open>What any step of a call keeps: links are not lost, rows are only added.\<close>

definition grows :: "act_db \<Rightarrow> act_db \<Rightarrow> bool" where
  "grows d d' \<longleftrightarrow> ad_next d \<le> ad_next d' \<and> (\<forall>v t. map_of (ad_subjects d) v = Some t \<longrightarrow> map_of (ad_subjects d') v = Some t)"

lemma grows_refl [simp]: "grows d d"
  by (simp add: grows_def)

lemma grows_trans: "grows d d1 \<Longrightarrow> grows d1 d2 \<Longrightarrow> grows d d2"
  by (simp add: grows_def)

lemma subject_for_holds:
  assumes "links_hold R d" "caches_hold R p" "fresh_holds e R d" "subject_for e r user (p, d) = (so, (p', d'))"
  shows "links_hold R d'" "caches_hold R p'" "\<And>s. so = Some s \<Longrightarrow> R user s" "grows d d'" "same_rows d d'"
proof -
  have "links_hold R d' \<and> caches_hold R p' \<and> (\<forall>s. so = Some s \<longrightarrow> R user s) \<and> grows d d' \<and> same_rows d d'"
  proof (cases "map_of (ap_subjects p) user")
    case None
    obtain s d1 where u: "upsert_subject e user d = (s, d1)" by (rule prod.exhaust)
    have up: "links_hold R d1 \<and> R user s \<and> grows d d1 \<and> same_rows d d1"
    proof (cases "map_of (ad_subjects d) user")
      case None
      with u have "s = ae_id e (ad_next d)" "d1 = d\<lparr>ad_next := Suc (ad_next d), ad_subjects := ad_subjects d @ [(user, s)]\<rparr>"
        by (auto simp: upsert_subject_def Let_def)
      with None assms(1,3) show ?thesis
        by (auto simp: links_hold_def fresh_holds_def grows_def same_rows_def map_add_def split: option.splits)
    next
      case (Some t)
      with u assms(1) show ?thesis by (auto simp: upsert_subject_def links_hold_def)
    qed
    show ?thesis
    proof (cases "ap_pool p \<and> \<not> r")
      case True
      with assms(4) None u have "so = Some s" "d' = d1" "p' = p\<lparr>ap_subjects := dict_set user s (ap_subjects p)\<rparr>"
        by (simp_all add: subject_for_def)
      with up assms(2) show ?thesis by (simp add: caches_hold_def)
    qed (use assms None in \<open>auto simp: subject_for_def\<close>)
  qed (use assms in \<open>auto simp: subject_for_def caches_hold_def\<close>)
  then show "links_hold R d'" "caches_hold R p'" "\<And>s. so = Some s \<Longrightarrow> R user s" "grows d d'" "same_rows d d'" by auto
qed

lemma caches_hold_count [simp]: "caches_hold R (count_act c p) = caches_hold R p"
  by (simp add: caches_hold_def)

lemma begin_call_holds:
  assumes "links_hold R d" "caches_hold R p" "fresh_holds e R d" "begin_call e f user (p, d) = (so, (p', d'))"
  shows "links_hold R d'" "caches_hold R p'" "\<And>s. so = Some s \<Longrightarrow> R user s" "grows d d'" "same_rows d d'"
proof -
  obtain x p1 d1 where sf: "subject_for e (af_subject f) user (p, d) = (x, (p1, d1))" by (metis surj_pair)
  note h = subject_for_holds [OF assms(1-3) sf]
  have "links_hold R d' \<and> caches_hold R p' \<and> (\<forall>s. so = Some s \<longrightarrow> R user s) \<and> grows d d' \<and> same_rows d d'"
  proof (cases "ap_pool p")
    case True
    with assms(4) sf have "so = x" "d' = d1" "p' = p1 \<or> (\<exists>c. p' = count_act c p1)"
      by (cases x; simp add: begin_call_def; blast)+
    with h show ?thesis by auto
  qed (use assms in \<open>auto simp: begin_call_def\<close>)
  then show "links_hold R d'" "caches_hold R p'" "\<And>s. so = Some s \<Longrightarrow> R user s" "grows d d'" "same_rows d d'" by auto
qed

section \<open>The steps of a call\<close>

text \<open>Preparing reads, counts and takes ids.\<close>

definition prepared :: "act_state \<Rightarrow> act_state \<Rightarrow> bool" where
  "prepared st st' \<longleftrightarrow> ap_subjects (fst st') = ap_subjects (fst st) \<and> ad_subjects (snd st') = ad_subjects (snd st)
     \<and> same_rows (snd st) (snd st') \<and> ad_next (snd st) \<le> ad_next (snd st')"

lemma prepared_refl [simp]: "prepared st st"
  by (simp add: prepared_def)

lemma prepared_trans: "prepared st st1 \<Longrightarrow> prepared st1 st2 \<Longrightarrow> prepared st st2"
  by (auto simp: prepared_def intro: same_rows_trans)

lemma build_event_prepared:
  assumes "build_event e now s ps q st = (b, st')"
  shows "prepared st st'" "\<And>ev. b = Some ev \<Longrightarrow> ev_subject ev = s"
proof -
  obtain p d where st: "st = (p, d)" by (rule prod.exhaust)
  obtain p' d' where st': "st' = (p', d')" by (rule prod.exhaust)
  have "prepared st st' \<and> (\<forall>ev. b = Some ev \<longrightarrow> ev_subject ev = s)"
  proof (cases b)
    case None
    from build_event_none [OF assms [unfolded st st' None]] None show ?thesis
      by (auto simp: prepared_def same_rows_def st st')
  next
    case (Some ev)
    from build_event_some [OF assms [unfolded st st' Some]] Some show ?thesis
      by (auto simp: prepared_def same_rows_def st st' row_of_request_def)
  qed
  then show "prepared st st'" "\<And>ev. b = Some ev \<Longrightarrow> ev_subject ev = s" by auto
qed

lemma build_each_prepared:
  "build_each e now s ps evs st = (built, st') \<Longrightarrow> prepared st st' \<and> ev_subject ` set built \<subseteq> {s}"
proof (induction evs arbitrary: st built)
  case (Cons x evs)
  obtain type payload key where x: "x = (type, payload, key)" by (metis surj_pair)
  obtain b st1 where b: "build_event e now s ps ((plain_event type payload key)\<lparr>eq_occurred := Some now\<rparr>) st = (b, st1)"
    by (rule prod.exhaust)
  obtain rest where r: "build_each e now s ps evs st1 = (rest, st')" "built = (case b of None \<Rightarrow> rest | Some ev \<Rightarrow> ev # rest)"
    using Cons.prems b x by (auto simp: Let_def split: prod.splits)
  from build_event_prepared [OF b] Cons.IH [OF r(1)] r(2) show ?case
    by (auto intro: prepared_trans split: option.splits)
qed simp

lemma prepare_impressions_prepared:
  assumes "prepare_impressions e f now user s l st = (r, st')"
  shows "prepared st st' \<and> (\<forall>bs. r = Inr bs \<longrightarrow> im_subject ` set (rows_of bs) \<subseteq> {s})"
proof -
  obtain p d where st: "st = (p, d)" by (rule prod.exhaust)
  show ?thesis
  proof (cases r)
    case (Inr bs)
    from prepare_impressions_built [OF assms [unfolded st Inr]] obtain n t ps cs rq where n: "ad_next d \<le> n"
      and bu: "build_impressions e now t s ps l cs rq (sl_items l) (p, d\<lparr>ad_next := n\<rparr>) = (bs, st')" by blast
    obtain p' d' where st': "st' = (p', d')" by (rule prod.exhaust)
    note b = build_impressions_nth [OF bu [unfolded st']]
    have "im_subject im = s" if "im \<in> set (rows_of bs)" for im
    proof -
      from that have "Some im \<in> set bs" by (simp add: set_rows_of)
      then obtain k where k: "k < length bs" "bs ! k = Some im" by (auto simp: in_set_conv_nth)
      with b have "build_impression e now t s ps l cs rq (sl_items l ! k) (n + k) = Some im" by auto
      then show ?thesis by (rule build_impression_some(2))
    qed
    moreover have "prepared st st'" using b n by (auto simp: prepared_def same_rows_def st st')
    ultimately show ?thesis using Inr by auto
  next
    case (Inl err)
    with assms st have "st' = (p, d) \<or> st' = (p, d\<lparr>ad_next := Suc (ad_next d)\<rparr>)"
      by (auto simp: prepare_impressions_def Let_def split: sum.splits prod.splits)
    with Inl show ?thesis
      by (auto simp: prepared_def same_rows_def st)
  qed
qed

lemma prepare_call_prepared:
  assumes "prepare_call e f now user s c st = (pc, st')"
  shows "prepared st st'" "pc_subjects pc \<subseteq> {s}"
proof -
  have "prepared st st' \<and> pc_subjects pc \<subseteq> {s}"
  proof (cases c)
    case (EventCall q)
    obtain b st1 where b: "prepare_event e f now user s q st = (b, st1)" by (rule prod.exhaust)
    from build_event_prepared [OF b [unfolded prepare_event_def]] assms EventCall b show ?thesis
      by (cases b) (auto simp: prepare_call_def)
  next
    case (BatchCall evs)
    obtain b st1 where b: "prepare_events e f now user s evs st = (b, st1)" by (rule prod.exhaust)
    from build_each_prepared [OF b [unfolded prepare_events_def]] have bp: "prepared st st1" "ev_subject ` set b \<subseteq> {s}" by auto
    from assms BatchCall b have "st' = st1" "pc = (if b = [] then Answered [] else HasEvents now b)" by (simp_all add: prepare_call_def)
    with bp show ?thesis by simp
  next
    case (ListCall l)
    obtain b st1 where b: "prepare_impressions e f now user s l st = (b, st1)" by (rule prod.exhaust)
    from prepare_impressions_prepared [OF b] have bp: "prepared st st1" "\<And>bs. b = Inr bs \<Longrightarrow> im_subject ` set (rows_of bs) \<subseteq> {s}" by auto
    from assms ListCall b have "st' = st1" "pc_subjects pc \<subseteq> (case b of Inl err \<Rightarrow> {} | Inr bs \<Rightarrow> im_subject ` set (rows_of bs))"
      by (cases b; simp add: prepare_call_def split: if_splits; force)+
    moreover have "(case b of Inl err \<Rightarrow> {} | Inr bs \<Rightarrow> im_subject ` set (rows_of bs)) \<subseteq> {s}"
      using bp(2) by (cases b) simp_all
    ultimately show ?thesis using bp(1) by (metis subset_trans)
  qed
  then show "prepared st st'" "pc_subjects pc \<subseteq> {s}" by auto
qed

text \<open>Storing adds rows of what was prepared.\<close>

definition adds_rows :: "act_event set \<Rightarrow> impression set \<Rightarrow> act_state \<Rightarrow> act_state \<Rightarrow> bool" where
  "adds_rows evs ims st st' \<longleftrightarrow> ap_subjects (fst st') = ap_subjects (fst st) \<and> ad_subjects (snd st') = ad_subjects (snd st)
     \<and> ad_next (snd st') = ad_next (snd st)
     \<and> (\<exists>new. ad_events (snd st') = ad_events (snd st) @ new \<and> set new \<subseteq> evs)
     \<and> (\<exists>new. ad_impressions (snd st') = ad_impressions (snd st) @ new \<and> set new \<subseteq> ims)"

lemma adds_rows_simps [simp]: "adds_rows evs ims st st" "adds_rows evs ims st (write_failed st') = adds_rows evs ims st st'"
  by (simp_all add: adds_rows_def write_failed_def)

lemma ensure_partition_adds:
  "ensure_partition r table t st = (ok, st') \<Longrightarrow> adds_rows evs ims st st'"
  by (cases st) (auto simp: ensure_partition_def adds_rows_def Let_def split: if_splits)

lemma insert_events_adds:
  "insert_events e evs d = (bs, d') \<Longrightarrow> \<exists>new. d' = d\<lparr>ad_events := ad_events d @ new\<rparr> \<and> set new \<subseteq> set evs"
proof (induction evs arbitrary: d bs)
  case (Cons ev evs)
  obtain b d1 where b: "insert_event e ev d = (b, d1)" by (rule prod.exhaust)
  obtain cs where "insert_events e evs d1 = (cs, d')" using Cons.prems b by (auto split: prod.splits)
  from Cons.IH [OF this] obtain new where new: "d' = d1\<lparr>ad_events := ad_events d1 @ new\<rparr>" "set new \<subseteq> set evs" by blast
  from insert_event_cases [OF b] have "d1 = d\<lparr>ad_events := ad_events d @ (if b then [ev] else [])\<rparr>" by simp
  with new show ?case by (intro exI [of _ "(if b then [ev] else []) @ new"]) auto
qed (simp add: exI [of _ "[]"])

lemma count_writes_keeps [simp]:
  "ap_subjects (count_writes rs p) = ap_subjects p" 
  unfolding count_writes_def by (induction rs arbitrary: p) (auto simp: count_write_def)


lemma store_event_adds: "store_event e f ev st = st' \<Longrightarrow> adds_rows {ev} {} st st'"
proof -
  assume st': "store_event e f ev st = st'"
  obtain ok p1 d1 where en: "ensure_partition (af_partition f) EVENTS_TABLE (ev_occurred ev) st = (ok, (p1, d1))" by (metis surj_pair)
  note en1 = ensure_partition_adds [OF en, of "{ev}" "{}"]
  obtain b d2 where ins: "insert_event e ev d1 = (b, d2)" by (rule prod.exhaust)
  have add: "adds_rows {ev} {} st (p', d')" if "ap_subjects p' = ap_subjects p1" "d' = d1 \<or> d' = d2" for p' d'
    using that en1 insert_event_cases [OF ins] by (auto simp: adds_rows_def)
  show ?thesis
  proof (cases ok)
    case False
    with st' en have "st' = write_failed (p1, d1)" by (simp add: store_event_def)
    with en1 show ?thesis by simp
  next
    case True
    with st' en ins have "st' = (count_write (ev_type ev) b p1, d2) \<or> st' = write_failed (p1, d1) \<or> st' = write_failed (p1, d2)"
      by (cases "af_write f") (auto simp: store_event_def)
    then show ?thesis using add by (auto simp: count_write_def)
  qed
qed

lemma store_events_adds: "store_events e f t evs st = st' \<Longrightarrow> adds_rows (set evs) {} st st'"
proof -
  assume st': "store_events e f t evs st = st'"
  obtain ok p1 d1 where en: "ensure_partition (af_partition f) EVENTS_TABLE t st = (ok, (p1, d1))" by (metis surj_pair)
  note en1 = ensure_partition_adds [OF en, of "set evs" "{}"]
  show ?thesis
  proof (cases ok)
    case False
    with st' en have "st' = write_failed (p1, d1)" by (simp add: store_events_def)
    with en1 show ?thesis by simp
  next
    case True
    obtain bs p' d' us where ins: "insert_events e us d1 = (bs, d')" "set us \<subseteq> set evs" "ap_subjects p' = ap_subjects p1"
      and r: "st' = (p', d') \<or> st' = write_failed (p', d')"
    proof (cases "af_write f")
      case None
      obtain bs d' where i: "insert_events e evs d1 = (bs, d')" by (rule prod.exhaust)
      with None True st' en have "st' = (count_writes (zip evs bs) p1, d')" by (simp add: store_events_def)
      with i show ?thesis by (intro that [of evs bs d' "count_writes (zip evs bs) p1"]) simp_all
    next
      case (Some n)
      obtain bs d' where i: "insert_events e (take n evs) d1 = (bs, d')" by (rule prod.exhaust)
      with Some True st' en have "st' = write_failed (p1, d')" by (simp add: store_events_def)
      with i show ?thesis by (intro that [of "take n evs" bs d' p1]) (simp_all add: set_take_subset)
    qed
    from insert_events_adds [OF ins(1)] ins(2) obtain new where "d' = d1\<lparr>ad_events := ad_events d1 @ new\<rparr>" "set new \<subseteq> set evs" by blast
    with en1 ins(3) have "adds_rows (set evs) {} st (p', d')" by (auto simp: adds_rows_def)
    with r show ?thesis by auto
  qed
qed

lemma store_impressions_adds:
  assumes "store_impressions e f t bs st = (ids, st')"
  shows "adds_rows {} (set (rows_of bs)) st st'"
proof -
  have counted: "ap_subjects (foldl (\<lambda>p im. count_act c p) p ims) = ap_subjects p" for c p and ims :: "impression list"
    by (induction ims arbitrary: p) simp_all
  obtain ok p1 d1 where en: "ensure_partition (af_partition f) IMPRESSIONS_TABLE t st = (ok, (p1, d1))" by (metis surj_pair)
  note en1 = ensure_partition_adds [OF en, of "{}" "set (rows_of bs)"]
  have add: "adds_rows {} (set (rows_of bs)) st (p', d1\<lparr>ad_impressions := ad_impressions d1 @ new\<rparr>)"
    if "ap_subjects p' = ap_subjects p1" "set new \<subseteq> set (rows_of bs)" for p' new
    using that en1 by (auto simp: adds_rows_def)
  show ?thesis
  proof (cases ok)
    case False
    with assms en have "st' = write_failed (p1, d1)" by (simp add: store_impressions_def)
    with en1 show ?thesis by simp
  next
    case True
    show ?thesis
    proof (cases "af_write f")
      case None
      with True assms en show ?thesis by (auto simp: store_impressions_def counted intro!: add)
    next
      case (Some n)
      with True assms en show ?thesis by (auto simp: store_impressions_def intro!: add dest: in_set_takeD)
    qed
  qed
qed

text \<open>
  One step of a call: what it leaves a call holding it held before or got from the links, and the rows
  it adds are under what it held.
\<close>

definition sound_step :: "(string \<Rightarrow> string \<Rightarrow> bool) \<Rightarrow> string \<Rightarrow> act_pc \<Rightarrow> act_state \<Rightarrow> act_pc \<Rightarrow> act_state \<Rightarrow> bool" where
  "sound_step R user pc st pc' st' \<longleftrightarrow> links_hold R (snd st') \<and> caches_hold R (fst st') \<and> (\<forall>t \<in> pc_subjects pc'. R user t)
     \<and> grows (snd st) (snd st')
     \<and> (\<exists>new. ad_events (snd st') = ad_events (snd st) @ new \<and> ev_subject ` set new \<subseteq> pc_subjects pc)
     \<and> (\<exists>new. ad_impressions (snd st') = ad_impressions (snd st) @ new \<and> im_subject ` set new \<subseteq> pc_subjects pc)"

lemma sound_step_adds:
  assumes "links_hold R (snd st)" "caches_hold R (fst st)" "adds_rows evs ims st st'" "pc_subjects pc' = {}"
    "ev_subject ` evs \<subseteq> pc_subjects pc" "im_subject ` ims \<subseteq> pc_subjects pc"
  shows "sound_step R user pc st pc' st'"
proof -
  have same: "ap_subjects (fst st') = ap_subjects (fst st)" "ad_subjects (snd st') = ad_subjects (snd st)"
    "ad_next (snd st') = ad_next (snd st)" using assms(3) by (simp_all add: adds_rows_def)
  from assms(3) obtain new where "ad_events (snd st') = ad_events (snd st) @ new" "set new \<subseteq> evs" by (auto simp: adds_rows_def)
  moreover from assms(3) obtain ims' where "ad_impressions (snd st') = ad_impressions (snd st) @ ims'" "set ims' \<subseteq> ims"
    by (auto simp: adds_rows_def)
  moreover have "ev_subject ` set new \<subseteq> pc_subjects pc" "im_subject ` set ims' \<subseteq> pc_subjects pc"
    using calculation assms(5,6) by (meson image_mono subset_trans)+
  ultimately show ?thesis
    using assms(1,2,4) same by (auto simp: sound_step_def links_hold_def caches_hold_def grows_def)
qed

lemma call_step_sound:
  assumes "links_hold R d" "caches_hold R p" "fresh_holds e R d" "\<forall>t \<in> pc_subjects (wr_pc w). R (wr_user w) t"
    and "call_step e f now w (p, d) = (pc, st')"
  shows "sound_step R (wr_user w) (wr_pc w) (p, d) pc st'"
proof (cases "wr_pc w")
  case Arrived
  obtain so p1 d1 where b: "begin_call e f (wr_user w) (p, d) = (so, (p1, d1))" by (metis surj_pair)
  note bh = begin_call_holds [OF assms(1-3) b]
  have "pc_subjects (Answered ids) = {}" for ids by simp
  with Arrived assms b bh show ?thesis
    by (cases so) (auto simp: call_step_def sound_step_def same_rows_def split: if_splits)
next
  case (Known s)
  with assms(5) have pr: "prepare_call e f now (wr_user w) s (wr_call w) (p, d) = (pc, st')" by (simp add: call_step_def)
  from prepare_call_prepared [OF pr] assms(1,2,4) Known show ?thesis
    by (auto simp: sound_step_def prepared_def same_rows_def links_hold_def caches_hold_def grows_def)
next
  case (HasEvent ev)
  with assms(5) have "pc = Answered []" "store_event e f ev (p, d) = st'" by (simp_all add: call_step_def)
  with store_event_adds [OF this(2)] HasEvent assms(1,2) show ?thesis by (intro sound_step_adds) auto
next
  case (HasEvents t evs)
  with assms(5) have "pc = Answered []" "store_events e f t evs (p, d) = st'" by (simp_all add: call_step_def)
  with store_events_adds [OF this(2)] HasEvents assms(1,2) show ?thesis by (intro sound_step_adds) auto
next
  case (HasRows t bs)
  obtain ids st1 where s: "store_impressions e f t bs (p, d) = (ids, st1)" by (rule prod.exhaust)
  with HasRows assms(5) have "pc = Answered ids" "st1 = st'" by (simp_all add: call_step_def)
  with store_impressions_adds [OF s] HasRows assms(1,2) show ?thesis by (intro sound_step_adds) auto
next
  case (Answered ids)
  with assms(5) have "pc = Answered ids" "st' = (p, d)" by simp_all
  with assms(1,2) show ?thesis by (simp add: sound_step_def)
next
  case (Rejected err)
  with assms(5) have "pc = Rejected err" "st' = (p, d)" by simp_all
  with assms(1,2) show ?thesis by (simp add: sound_step_def)
qed


section \<open>The service\<close>

definition held_by :: "(string \<Rightarrow> string \<Rightarrow> bool) \<Rightarrow> act_world \<Rightarrow> bool" where
  "held_by R w \<longleftrightarrow> links_hold R (aw_db w) \<and> (\<forall>p \<in> set (aw_processes w). caches_hold R p)
     \<and> (\<forall>x \<in> set (aw_writers w). \<forall>t \<in> pc_subjects (wr_pc x). R (wr_user x) t)"

text \<open>What a move other than an erasure does to the rows.\<close>

definition rows_added :: "act_world \<Rightarrow> act_world \<Rightarrow> bool" where
  "rows_added w w' \<longleftrightarrow> grows (aw_db w) (aw_db w')
     \<and> (\<exists>new. ad_events (aw_db w') = ad_events (aw_db w) @ new
          \<and> (\<forall>x \<in> set new. \<exists>y \<in> set (aw_writers w). ev_subject x \<in> pc_subjects (wr_pc y)))
     \<and> (\<exists>new. ad_impressions (aw_db w') = ad_impressions (aw_db w) @ new
          \<and> (\<forall>x \<in> set new. \<exists>y \<in> set (aw_writers w). im_subject x \<in> pc_subjects (wr_pc y)))"

lemma rows_added_refl: "ad_events (aw_db w') = ad_events (aw_db w) \<Longrightarrow> ad_impressions (aw_db w') = ad_impressions (aw_db w)
    \<Longrightarrow> grows (aw_db w) (aw_db w') \<Longrightarrow> rows_added w w'"
  by (simp add: rows_added_def)

lemma take_turn_sound:
  assumes "held_by R w" "fresh_holds e R (aw_db w)"
  shows "held_by R (take_turn e i f now w)" "rows_added w (take_turn e i f now w)"
proof -
  have "held_by R (take_turn e i f now w) \<and> rows_added w (take_turn e i f now w)"
  proof (cases "i < length (aw_writers w) \<and> wr_process (aw_writers w ! i) < length (aw_processes w)")
    case True
    define x where "x = aw_writers w ! i"
    define p where "p = aw_processes w ! wr_process x"
    have x: "x \<in> set (aw_writers w)" and p: "p \<in> set (aw_processes w)" using True by (simp_all add: x_def p_def)
    obtain pc p' d' where s: "call_step e f now x (p, aw_db w) = (pc, (p', d'))" by (metis surj_pair)
    have "links_hold R (aw_db w)" "caches_hold R p" "\<forall>t \<in> pc_subjects (wr_pc x). R (wr_user x) t"
      using assms(1) x p by (auto simp: held_by_def)
    from call_step_sound [OF this(1,2) assms(2) this(3) s]
    have ss: "sound_step R (wr_user x) (wr_pc x) (p, aw_db w) pc (p', d')" .
    have w': "take_turn e i f now w = w\<lparr>aw_db := d', aw_processes := (aw_processes w)[wr_process x := p'],
        aw_writers := (aw_writers w)[i := x\<lparr>wr_pc := pc\<rparr>]\<rparr>"
      using True s by (simp add: take_turn_def x_def p_def Let_def)
    have "held_by R (take_turn e i f now w)"
      using assms(1) ss unfolding held_by_def w' by (auto simp: sound_step_def dest!: set_update_subset_insert [THEN subsetD])
    moreover have "rows_added w (take_turn e i f now w)"
      using ss x unfolding rows_added_def w' sound_step_def by (auto simp: image_subset_iff intro!: bexI [OF _ x])
    ultimately show ?thesis ..
  next
    case False
    then have "take_turn e i f now w = w" by (auto simp: take_turn_def Let_def)
    with assms show ?thesis by (auto intro: rows_added_refl)
  qed
  then show "held_by R (take_turn e i f now w)" "rows_added w (take_turn e i f now w)" by auto
qed

lemma decide_rows:
  "ad_events (snd (decide now user q b d)) = ad_events d \<and> ad_impressions (snd (decide now user q b d)) = ad_impressions d
     \<and> ad_subjects (snd (decide now user q b d)) = ad_subjects d \<and> ad_next d \<le> ad_next (snd (decide now user q b d))"
  by (simp add: decide_def insert_grant_def revoke_grant_def)

lemma serve_erasure_cases:
  assumes "links_hold R d" "caches_hold R p" "fresh_holds e R d" "serve_erasure e r now hash user (p, d) = (p', d')"
  shows "links_hold R d'" "caches_hold R p'"
    "grows d d' \<and> same_rows d d'
     \<or> (\<exists>s. R user s \<and> ad_events d' = filter (\<lambda>x. ev_subject x \<noteq> s) (ad_events d)
          \<and> ad_impressions d' = filter (\<lambda>x. im_subject x \<noteq> s) (ad_impressions d) \<and> ad_next d \<le> ad_next d'
          \<and> (\<forall>v. v \<noteq> user \<longrightarrow> (\<forall>t. map_of (ad_subjects d) v = Some t \<longrightarrow> map_of (ad_subjects d') v = Some t)))"
    "\<And>v t. map_of (ad_subjects d') v = Some t \<Longrightarrow> R v t"
proof -
  obtain so p1 d1 where sf: "subject_for e r user (p, d) = (so, (p1, d1))" by (metis surj_pair)
  note h = subject_for_holds [OF assms(1-3) sf]
  have "links_hold R d' \<and> caches_hold R p' \<and> (grows d d' \<and> same_rows d d'
     \<or> (\<exists>s. R user s \<and> ad_events d' = filter (\<lambda>x. ev_subject x \<noteq> s) (ad_events d)
          \<and> ad_impressions d' = filter (\<lambda>x. im_subject x \<noteq> s) (ad_impressions d) \<and> ad_next d \<le> ad_next d'
          \<and> (\<forall>v. v \<noteq> user \<longrightarrow> (\<forall>t. map_of (ad_subjects d) v = Some t \<longrightarrow> map_of (ad_subjects d') v = Some t))))"
  proof (cases so)
    case None
    with assms(4) sf have "p' = p1" "d' = d1" by (simp_all add: serve_erasure_def)
    with h show ?thesis by auto
  next
    case (Some s)
    with assms(4) sf have eq: "p' = forget_subject user p1" "d' = snd (erase_postgres e now hash user s d1)"
      by (simp_all add: serve_erasure_def)
    have "links_hold R d'" "caches_hold R p'"
      using h(1,2) by (auto simp: eq erase_postgres_eq Let_def links_hold_def caches_hold_def forget_subject_def map_of_other_keys
          split: if_splits)
    moreover have "ad_events d' = filter (\<lambda>x. ev_subject x \<noteq> s) (ad_events d)"
      "ad_impressions d' = filter (\<lambda>x. im_subject x \<noteq> s) (ad_impressions d)" "ad_next d \<le> ad_next d'"
      "\<And>v t. v \<noteq> user \<Longrightarrow> map_of (ad_subjects d) v = Some t \<Longrightarrow> map_of (ad_subjects d') v = Some t"
      using h(4,5) by (auto simp: eq erase_postgres_eq Let_def grows_def same_rows_def map_of_other_keys)
    ultimately show ?thesis using h(3) [OF Some] by blast
  qed
  then show "links_hold R d'" "caches_hold R p'"
    "grows d d' \<and> same_rows d d'
     \<or> (\<exists>s. R user s \<and> ad_events d' = filter (\<lambda>x. ev_subject x \<noteq> s) (ad_events d)
          \<and> ad_impressions d' = filter (\<lambda>x. im_subject x \<noteq> s) (ad_impressions d) \<and> ad_next d \<le> ad_next d'
          \<and> (\<forall>v. v \<noteq> user \<longrightarrow> (\<forall>t. map_of (ad_subjects d) v = Some t \<longrightarrow> map_of (ad_subjects d') v = Some t)))"
    "\<And>v t. map_of (ad_subjects d') v = Some t \<Longrightarrow> R v t" by (auto simp: links_hold_def)
qed


fun erases :: "string \<Rightarrow> act_move \<Rightarrow> bool" where
  "erases u (Erase k refused now hash user) \<longleftrightarrow> user = u"
| "erases u m \<longleftrightarrow> False"

lemma at_process_cases:
  "at_process k g w = w \<or> (\<exists>p \<in> set (aw_processes w). \<exists>p' d'. g (p, aw_db w) = (p', d')
     \<and> at_process k g w = w\<lparr>aw_db := d', aw_processes := (aw_processes w)[k := p']\<rparr>)"
  unfolding at_process_def by (auto split: prod.splits intro!: bexI [of _ "aw_processes w ! k"])

text \<open>Every move keeps who holds what, and adds rows under what is held, or erases a user's.\<close>

definition erased_rows :: "(string \<Rightarrow> string \<Rightarrow> bool) \<Rightarrow> string \<Rightarrow> act_db \<Rightarrow> act_db \<Rightarrow> bool" where
  "erased_rows R user d d' \<longleftrightarrow> (\<exists>s. R user s \<and> ad_events d' = filter (\<lambda>x. ev_subject x \<noteq> s) (ad_events d)
     \<and> ad_impressions d' = filter (\<lambda>x. im_subject x \<noteq> s) (ad_impressions d) \<and> ad_next d \<le> ad_next d'
     \<and> (\<forall>v. v \<noteq> user \<longrightarrow> (\<forall>t. map_of (ad_subjects d) v = Some t \<longrightarrow> map_of (ad_subjects d') v = Some t)))"

lemma move_effect:
  assumes "held_by R w" "fresh_holds e R (aw_db w)"
  shows "held_by R (act_move_step e m w)
    \<and> (rows_added w (act_move_step e m w) \<or> (\<exists>user. erases user m \<and> erased_rows R user (aw_db w) (aw_db (act_move_step e m w))))"
proof (cases m)
  case (Call k user c)
  with assms show ?thesis by (auto simp: held_by_def intro!: rows_added_refl)
next
  case (Turn i f now)
  with take_turn_sound [OF assms] show ?thesis by simp
next
  case (Decide now user q b)
  with assms decide_rows [of now user q b "aw_db w"] show ?thesis
    by (auto simp: held_by_def links_hold_def grows_def intro!: rows_added_refl)
next
  case (Restart k)
  show ?thesis using at_process_cases [of k "\<lambda>(p, d). (reset_caches p, d)" w] assms Restart
    by (auto simp: held_by_def caches_hold_def reset_caches_def intro!: rows_added_refl
        dest!: set_update_subset_insert [THEN subsetD])
next
  case (Erase k refused now hash user)
  from at_process_cases [of k "serve_erasure e refused now hash user" w] show ?thesis
  proof (elim disjE bexE exE conjE)
    assume "at_process k (serve_erasure e refused now hash user) w = w"
    with Erase assms show ?thesis by (auto intro!: rows_added_refl)
  next
    fix p p' d'
    assume p: "p \<in> set (aw_processes w)" and se: "serve_erasure e refused now hash user (p, aw_db w) = (p', d')"
      and w': "at_process k (serve_erasure e refused now hash user) w = w\<lparr>aw_db := d', aw_processes := (aw_processes w)[k := p']\<rparr>"
    have "links_hold R (aw_db w)" "caches_hold R p" using assms(1) p by (auto simp: held_by_def)
    note sc = serve_erasure_cases [OF this assms(2) se]
    have "held_by R (act_move_step e m w)"
      using assms(1) sc(1,2) by (auto simp: Erase w' held_by_def dest!: set_update_subset_insert [THEN subsetD])
    moreover have "rows_added w (act_move_step e m w) \<or> erased_rows R user (aw_db w) d'"
      using sc(3) unfolding erased_rows_def same_rows_def by (auto simp: Erase w' intro!: rows_added_refl)
    ultimately show ?thesis by (auto simp: Erase w')
  qed
qed

section \<open>An erased pseudonym\<close>

definition generated :: "act_env \<Rightarrow> string \<Rightarrow> act_db \<Rightarrow> bool" where
  "generated e s d \<longleftrightarrow> (\<exists>n < ad_next d. s = ae_id e n)"

lemma generated_not_fresh: "ids_unique e \<Longrightarrow> generated e s d \<Longrightarrow> ae_id e (ad_next d) \<noteq> s"
  by (auto simp: generated_def ids_unique_def dest: injD)

lemma generated_later: "generated e s d \<Longrightarrow> ad_next d \<le> ad_next d' \<Longrightarrow> generated e s d'"
  unfolding generated_def by (elim exE conjE) (intro exI conjI, rule less_le_trans)

definition gone :: "act_env \<Rightarrow> string \<Rightarrow> act_world \<Rightarrow> bool" where
  "gone e s w \<longleftrightarrow> ids_unique e \<and> generated e s (aw_db w) \<and> held_by (\<lambda>v t. t \<noteq> s) w
     \<and> (\<forall>x \<in> set (ad_events (aw_db w)). ev_subject x \<noteq> s) \<and> (\<forall>x \<in> set (ad_impressions (aw_db w)). im_subject x \<noteq> s)"

lemma gone_step:
  assumes "gone e s w"
  shows "gone e s (act_move_step e m w)"
proof -
  let ?R = "\<lambda>v t. t \<noteq> s" and ?w = "act_move_step e m w"
  have g: "ids_unique e" "generated e s (aw_db w)" "held_by ?R w"
    "\<forall>x \<in> set (ad_events (aw_db w)). ev_subject x \<noteq> s" "\<forall>x \<in> set (ad_impressions (aw_db w)). im_subject x \<noteq> s"
    using assms by (simp_all add: gone_def)
  have "fresh_holds e ?R (aw_db w)" using generated_not_fresh [OF g(1,2)] by (simp add: fresh_holds_def)
  note me = move_effect [OF g(3) this, of m]
  have none: "\<forall>y \<in> set (aw_writers w). s \<notin> pc_subjects (wr_pc y)" using g(3) by (auto simp: held_by_def)
  from me have "ad_next (aw_db w) \<le> ad_next (aw_db ?w)"
    and evs: "set (ad_events (aw_db ?w)) \<subseteq> set (ad_events (aw_db w)) \<union> {x. \<exists>y \<in> set (aw_writers w). ev_subject x \<in> pc_subjects (wr_pc y)}"
    and ims: "set (ad_impressions (aw_db ?w)) \<subseteq> set (ad_impressions (aw_db w)) \<union> {x. \<exists>y \<in> set (aw_writers w). im_subject x \<in> pc_subjects (wr_pc y)}"
    unfolding rows_added_def erased_rows_def grows_def by auto
  then have "generated e s (aw_db ?w)" using g(2) by (meson generated_later)
  moreover have "\<forall>x \<in> set (ad_events (aw_db ?w)). ev_subject x \<noteq> s" using evs none g(4) by blast
  moreover have "\<forall>x \<in> set (ad_impressions (aw_db ?w)). im_subject x \<noteq> s" using ims none g(5) by blast
  ultimately show ?thesis using me g(1) unfolding gone_def by blast
qed

interpretation erased_for_good: history "act_move_step e" "\<lambda>m. True" "gone e s" for e s
  by unfold_locales (rule gone_step)

section \<open>A linked pseudonym\<close>

definition owned_by :: "act_env \<Rightarrow> string \<Rightarrow> string \<Rightarrow> act_world \<Rightarrow> bool" where
  "owned_by e u s w \<longleftrightarrow> ids_unique e \<and> generated e s (aw_db w) \<and> held_by (\<lambda>v t. v = u \<longleftrightarrow> t = s) w
     \<and> map_of (ad_subjects (aw_db w)) u = Some s"

lemma owned_effect:
  assumes "owned_by e u s w"
  shows "held_by (\<lambda>v t. v = u \<longleftrightarrow> t = s) (act_move_step e m w)
    \<and> (rows_added w (act_move_step e m w)
       \<or> (\<exists>user. erases user m \<and> erased_rows (\<lambda>v t. v = u \<longleftrightarrow> t = s) user (aw_db w) (aw_db (act_move_step e m w))))"
proof -
  have "fresh_holds e (\<lambda>v t. v = u \<longleftrightarrow> t = s) (aw_db w)"
    using assms generated_not_fresh by (auto simp: owned_by_def fresh_holds_def)
  with assms move_effect show ?thesis by (simp add: owned_by_def)
qed

lemma owned_step:
  assumes "owned_by e u s w" "\<not> erases u m"
  shows "owned_by e u s (act_move_step e m w)"
proof -
  have o: "ids_unique e" "generated e s (aw_db w)" "map_of (ad_subjects (aw_db w)) u = Some s"
    using assms(1) by (simp_all add: owned_by_def)
  from owned_effect [OF assms(1), of m] assms(2) have
    "ad_next (aw_db w) \<le> ad_next (aw_db (act_move_step e m w))"
    "map_of (ad_subjects (aw_db (act_move_step e m w))) u = Some s"
    using o(3) by (auto simp: rows_added_def grows_def erased_rows_def)
  with owned_effect [OF assms(1), of m] o show ?thesis by (auto simp: owned_by_def intro: generated_later)
qed

interpretation linked: history "act_move_step e" "\<lambda>m. \<not> erases u m" "owned_by e u s" for e u s
  by unfold_locales (rule owned_step)

text \<open>A service that starts over tables in which every user has one pseudonym of its own.\<close>

definition links_ok :: "act_env \<Rightarrow> act_db \<Rightarrow> bool" where
  "links_ok e d \<longleftrightarrow> (\<forall>v t. map_of (ad_subjects d) v = Some t \<longrightarrow> generated e t d)
     \<and> (\<forall>v v' t. map_of (ad_subjects d) v = Some t \<and> map_of (ad_subjects d) v' = Some t \<longrightarrow> v = v')"

lemma started_owned:
  assumes "ids_unique e" "started w" "links_ok e (aw_db w)" "map_of (ad_subjects (aw_db w)) u = Some s"
  shows "owned_by e u s w"
  using assms
  by (auto simp: owned_by_def started_def links_ok_def held_by_def links_hold_def caches_hold_def fresh_process_def list_all_iff)


section \<open>Keys\<close>

definition keys_once :: "act_db \<Rightarrow> bool" where
  "keys_once d \<longleftrightarrow> distinct (map (\<lambda>x. (ev_subject x, ev_key x)) (ad_events d))"

lemma insert_event_keys_once:
  assumes "claims_keys e" "keys_once d" "insert_event e ev d = (b, d')"
  shows "keys_once d'"
  using insert_event_cases [OF assms(3)] assms(1,2)
  by (auto simp: keys_once_def key_taken_def claims_keys_def)

lemma insert_events_keys_once:
  "claims_keys e \<Longrightarrow> keys_once d \<Longrightarrow> insert_events e evs d = (bs, d') \<Longrightarrow> keys_once d'"
  by (induction evs arbitrary: d bs) (auto split: prod.splits dest: insert_event_keys_once)

lemma keys_once_cong: "ad_events d' = ad_events d \<Longrightarrow> keys_once d' = keys_once d"
  by (simp add: keys_once_def)

lemma keys_once_filter: "keys_once d \<Longrightarrow> ad_events d' = filter P (ad_events d) \<Longrightarrow> keys_once d'"
  by (simp add: keys_once_def distinct_map_filter)

lemma ensure_partition_rows: "ensure_partition r table t st = (ok, st') \<Longrightarrow> ad_events (snd st') = ad_events (snd st)"
  by (cases st) (auto simp: ensure_partition_def Let_def split: if_splits)

lemma store_event_keys_once:
  assumes "claims_keys e" "keys_once (snd st)"
  shows "keys_once (snd (store_event e f ev st))"
proof -
  obtain ok p1 d1 where en: "ensure_partition (af_partition f) EVENTS_TABLE (ev_occurred ev) st = (ok, (p1, d1))" by (metis surj_pair)
  have k1: "keys_once d1" using ensure_partition_rows [OF en] assms(2) by (simp add: keys_once_def)
  obtain b d2 where ins: "insert_event e ev d1 = (b, d2)" by (rule prod.exhaust)
  show ?thesis using en ins k1 insert_event_keys_once [OF assms(1) k1 ins]
    by (cases ok; cases "af_write f") (auto simp: store_event_def write_failed_def)
qed

lemma store_events_keys_once:
  assumes "claims_keys e" "keys_once (snd st)"
  shows "keys_once (snd (store_events e f t evs st))"
proof -
  obtain ok p1 d1 where en: "ensure_partition (af_partition f) EVENTS_TABLE t st = (ok, (p1, d1))" by (metis surj_pair)
  have k1: "keys_once d1" using ensure_partition_rows [OF en] assms(2) by (simp add: keys_once_def)
  have ki: "keys_once d2" if "insert_events e us d1 = (bs, d2)" for us bs d2
    using insert_events_keys_once [OF assms(1) k1 that] .
  show ?thesis
  proof (cases "af_write f")
    case None
    obtain bs d2 where "insert_events e evs d1 = (bs, d2)" by (rule prod.exhaust)
    with None en k1 ki [OF this] show ?thesis by (cases ok) (simp_all add: store_events_def write_failed_def)
  next
    case (Some n)
    obtain bs d2 where "insert_events e (take n evs) d1 = (bs, d2)" by (rule prod.exhaust)
    with Some en k1 ki [OF this] show ?thesis by (cases ok) (simp_all add: store_events_def write_failed_def)
  qed
qed

lemma call_step_keys_once:
  assumes "claims_keys e" "keys_once d" "call_step e f now w (p, d) = (pc, st')"
  shows "keys_once (snd st')"
proof (cases "wr_pc w")
  case Arrived
  obtain so p1 d1 where b: "begin_call e f (wr_user w) (p, d) = (so, (p1, d1))" by (metis surj_pair)
  have h: "links_hold (\<lambda>v t. True) d" "caches_hold (\<lambda>v t. True) p" "fresh_holds e (\<lambda>v t. True) d"
    by (simp_all add: links_hold_def caches_hold_def fresh_holds_def)
  have "ad_events d1 = ad_events d" using begin_call_holds(5) [OF h b] by (simp add: same_rows_def)
  with Arrived assms b show ?thesis
    by (cases so) (auto simp: call_step_def keys_once_def split: if_splits)
next
  case (Known s)
  with assms(3) have pr: "prepare_call e f now (wr_user w) s (wr_call w) (p, d) = (pc, st')" by (simp add: call_step_def)
  from prepare_call_prepared(1) [OF pr] assms(2) show ?thesis by (simp add: prepared_def same_rows_def keys_once_def)
next
  case (HasEvent ev)
  with assms(3) have "st' = store_event e f ev (p, d)" by (simp add: call_step_def)
  with store_event_keys_once [OF assms(1), of "(p, d)"] assms(2) show ?thesis by simp
next
  case (HasEvents t evs)
  with assms(3) have "st' = store_events e f t evs (p, d)" by (simp add: call_step_def)
  with store_events_keys_once [OF assms(1), of "(p, d)"] assms(2) show ?thesis by simp
next
  case (HasRows t bs)
  obtain ids st1 where s: "store_impressions e f t bs (p, d) = (ids, st1)" by (rule prod.exhaust)
  with HasRows assms(3) have "st1 = st'" by (simp add: call_step_def)
  with store_impressions_adds [OF s] assms(2) show ?thesis by (auto simp: adds_rows_def keys_once_def)
qed (use assms in \<open>auto simp: call_step_def\<close>)

lemma move_keys_once:
  assumes "claims_keys e" "keys_once (aw_db w)"
  shows "keys_once (aw_db (act_move_step e m w))"
proof (cases m)
  case (Turn i f now)
  obtain pc st' where s: "call_step e f now (aw_writers w ! i) (aw_processes w ! wr_process (aw_writers w ! i), aw_db w) = (pc, st')"
    by (rule prod.exhaust)
  from call_step_keys_once [OF assms s] s assms(2) Turn show ?thesis
    by (cases st') (auto simp: take_turn_def Let_def)
next
  case (Decide now user q b)
  with assms(2) decide_rows [of now user q b "aw_db w"] show ?thesis by (simp add: keys_once_def)
next
  case (Erase k refused now hash user)
  have h: "links_hold (\<lambda>v t. True) d" "caches_hold (\<lambda>v t. True) p" "fresh_holds e (\<lambda>v t. True) d" for d p
    by (simp_all add: links_hold_def caches_hold_def fresh_holds_def)
  from at_process_cases [of k "serve_erasure e refused now hash user" w] show ?thesis
  proof (elim disjE bexE exE conjE)
    fix p p' d'
    assume se: "serve_erasure e refused now hash user (p, aw_db w) = (p', d')"
      and w': "at_process k (serve_erasure e refused now hash user) w = w\<lparr>aw_db := d', aw_processes := (aw_processes w)[k := p']\<rparr>"
    from serve_erasure_cases(3) [OF h se] have "\<exists>P. ad_events d' = filter P (ad_events (aw_db w))"
      by (auto simp: same_rows_def intro: exI [of _ "\<lambda>x. True"])
    with assms(2) w' Erase show ?thesis by (auto intro: keys_once_filter)
  qed (use assms Erase in simp)
next
  case (Restart k)
  with assms(2) at_process_cases [of k "\<lambda>(p, d). (reset_caches p, d)" w] show ?thesis by auto
qed (use assms in simp)


section \<open>Erased for good\<close>

lemma owned_holds:
  assumes "owned_by e u s w"
  shows "p \<in> set (aw_processes w) \<Longrightarrow> map_of (ap_subjects p) v = Some t \<Longrightarrow> (v = u \<longleftrightarrow> t = s)"
    "map_of (ad_subjects (aw_db w)) v = Some t \<Longrightarrow> (v = u \<longleftrightarrow> t = s)"
    "x \<in> set (aw_writers w) \<Longrightarrow> t \<in> pc_subjects (wr_pc x) \<Longrightarrow> (wr_user x = u \<longleftrightarrow> t = s)"
  using assms by (auto simp: owned_by_def held_by_def links_hold_def caches_hold_def)

lemma subject_for_owned:
  assumes "owned_by e u s w" "p \<in> set (aw_processes w)" "ap_pool p"
  shows "\<exists>p'. subject_for e False u (p, aw_db w) = (Some s, (p', aw_db w))
    \<and> (\<forall>v. v \<noteq> u \<longrightarrow> map_of (ap_subjects p') v = map_of (ap_subjects p) v)"
proof (cases "map_of (ap_subjects p) u")
  case None
  with assms show ?thesis by (auto simp: subject_for_def upsert_subject_def owned_by_def)
next
  case (Some t)
  with owned_holds(1) [OF assms(1,2) Some] show ?thesis by (simp add: subject_for_def)
qed

lemma erase_gone:
  assumes "owned_by e u s w" "k < length (aw_processes w)" "ap_pool (aw_processes w ! k)"
    and others: "\<forall>i < length (aw_processes w). i \<noteq> k \<longrightarrow> map_of (ap_subjects (aw_processes w ! i)) u = None"
    and calls: "\<forall>x \<in> set (aw_writers w). wr_user x = u \<longrightarrow> pc_subjects (wr_pc x) = {}"
  shows "gone e s (act_move_step e (Erase k False now hash u) w)"
proof -
  let ?p = "aw_processes w ! k"
  have p: "?p \<in> set (aw_processes w)" using assms(2) by simp
  from subject_for_owned [OF assms(1) p assms(3)] obtain p1 where
    sf: "subject_for e False u (?p, aw_db w) = (Some s, (p1, aw_db w))"
      "\<forall>v. v \<noteq> u \<longrightarrow> map_of (ap_subjects p1) v = map_of (ap_subjects ?p) v" by blast
  define d' where "d' = snd (erase_postgres e now hash u s (aw_db w))"
  have w': "act_move_step e (Erase k False now hash u) w
      = w\<lparr>aw_db := d', aw_processes := (aw_processes w)[k := forget_subject u p1]\<rparr>"
    using assms(2) sf(1) by (simp add: at_process_def serve_erasure_def d'_def)
  have links: "t \<noteq> s" if "map_of (ad_subjects d') v = Some t" for v t
    using that owned_holds(2) [OF assms(1)] by (auto simp: d'_def erase_postgres_eq Let_def map_of_other_keys split: if_splits)
  have mine: "t \<noteq> s" if "map_of (ap_subjects (forget_subject u p1)) v = Some t" for v t
    using that sf(2) owned_holds(1) [OF assms(1) p, of v t] by (auto simp: forget_subject_def map_of_other_keys split: if_splits)
  have theirs: "t \<noteq> s" if "i < length (aw_processes w)" "i \<noteq> k" "map_of (ap_subjects (aw_processes w ! i)) v = Some t" for i v t
    using that others owned_holds(1) [OF assms(1) nth_mem [OF that(1)] that(3)] by auto
  have caches: "caches_hold (\<lambda>v t. t \<noteq> s) q" if "q \<in> set ((aw_processes w)[k := forget_subject u p1])" for q
  proof -
    from that obtain i where i: "i < length (aw_processes w)" "q = (aw_processes w)[k := forget_subject u p1] ! i"
      by (metis in_set_conv_nth length_list_update)
    show ?thesis using i mine theirs by (cases "i = k") (auto simp: caches_hold_def)
  qed
  have waiting: "t \<noteq> s" if "x \<in> set (aw_writers w)" "t \<in> pc_subjects (wr_pc x)" for x t
    using that calls owned_holds(3) [OF assms(1) that] by auto
  have gen: "generated e s d'"
    using assms(1) by (auto simp: owned_by_def d'_def erase_postgres_eq Let_def intro: generated_later)
  have rows: "\<forall>x \<in> set (ad_events d'). ev_subject x \<noteq> s" "\<forall>x \<in> set (ad_impressions d'). im_subject x \<noteq> s"
    by (simp_all add: d'_def erase_postgres_eq Let_def)
  have "held_by (\<lambda>v t. t \<noteq> s) (act_move_step e (Erase k False now hash u) w)"
    unfolding w' held_by_def links_hold_def using links caches waiting by simp
  moreover have "ids_unique e" using assms(1) by (simp add: owned_by_def)
  ultimately show ?thesis using gen rows unfolding gone_def w' by simp
qed

definition untraceable :: "string \<Rightarrow> act_db \<Rightarrow> bool" where
  "untraceable s d \<longleftrightarrow> (\<forall>x \<in> set (ad_events d). ev_subject x \<noteq> s) \<and> (\<forall>x \<in> set (ad_impressions d). im_subject x \<noteq> s)
     \<and> (\<forall>v. map_of (ad_subjects d) v \<noteq> Some s)"


section \<open>A report is recorded once\<close>

definition reported :: "act_env \<Rightarrow> string \<Rightarrow> string \<Rightarrow> string \<Rightarrow> act_world \<Rightarrow> bool" where
  "reported e u s k w \<longleftrightarrow> claims_keys e \<and> owned_by e u s w \<and> keys_once (aw_db w)
     \<and> (\<exists>x \<in> set (ad_events (aw_db w)). ev_subject x = s \<and> ev_key x = k)"

lemma reported_step:
  assumes "reported e u s k w" "\<not> erases u m"
  shows "reported e u s k (act_move_step e m w)"
proof -
  have r: "claims_keys e" "owned_by e u s w" "keys_once (aw_db w)" using assms(1) by (simp_all add: reported_def)
  from assms(1) obtain x where x: "x \<in> set (ad_events (aw_db w))" "ev_subject x = s" "ev_key x = k" by (auto simp: reported_def)
  have "x \<in> set (ad_events (aw_db (act_move_step e m w)))"
  proof -
    from owned_effect [OF r(2), of m] consider "rows_added w (act_move_step e m w)"
      | v where "erases v m" "erased_rows (\<lambda>v t. v = u \<longleftrightarrow> t = s) v (aw_db w) (aw_db (act_move_step e m w))" by blast
    then show ?thesis
    proof cases
      case 1
      then obtain new where "ad_events (aw_db (act_move_step e m w)) = ad_events (aw_db w) @ new" unfolding rows_added_def by blast
      with x(1) show ?thesis by simp
    next
      case 2
      with assms(2) have "v \<noteq> u" by blast
      with 2(2) obtain t where "t \<noteq> s" "ad_events (aw_db (act_move_step e m w)) = filter (\<lambda>x. ev_subject x \<noteq> t) (ad_events (aw_db w))"
        unfolding erased_rows_def by blast
      with x(1,2) show ?thesis by simp
    qed
  qed
  with x r owned_step [OF r(2) assms(2)] move_keys_once [OF r(1,3)] show ?thesis unfolding reported_def by blast
qed

interpretation recorded: history "act_move_step e" "\<lambda>m. \<not> erases u m" "reported e u s k" for e u s k
  by unfold_locales (rule reported_step)

lemma reported_once:
  assumes "reported e u s k w"
  shows "length (filter (\<lambda>x. ev_subject x = s \<and> ev_key x = k) (ad_events (aw_db w))) = 1"
proof -
  let ?f = "\<lambda>x. (ev_subject x, ev_key x)"
  define xs where "xs = filter (\<lambda>x. ev_subject x = s \<and> ev_key x = k) (ad_events (aw_db w))"
  have "distinct (map ?f (ad_events (aw_db w)))" using assms by (simp add: reported_def keys_once_def)
  then have "distinct (map ?f xs)" unfolding xs_def by (rule distinct_map_filter)
  moreover have "set (map ?f xs) = {(s, k)}" using assms by (auto simp: reported_def xs_def)
  ultimately have "length (map ?f xs) = 1" using distinct_card [of "map ?f xs"] by simp
  then show ?thesis by (simp add: xs_def)
qed

text \<open>A turn that stores an event of the user with no failure.\<close>

lemma stored_turn:
  assumes "claims_keys e" "owned_by e u s w" "keys_once (aw_db w)" "i < length (aw_writers w)"
    and "wr_process (aw_writers w ! i) < length (aw_processes w)" "wr_user (aw_writers w ! i) = u"
    and "wr_pc (aw_writers w ! i) = HasEvent ev" "\<not> af_partition f" "af_write f = None"
    and "\<not> (\<exists>x \<in> set (ad_events (aw_db w)). ev_subject x \<noteq> s \<and> ev_occurred x = ev_occurred ev \<and> ev_key x = ev_key ev)"
  shows "reported e u s (ev_key ev) (act_move_step e (Turn i f now) w)"
proof -
  let ?w = "act_move_step e (Turn i f now) w"
  define p where "p = aw_processes w ! wr_process (aw_writers w ! i)"
  have ev: "ev_subject ev = s"
    using owned_holds(3) [OF assms(2) nth_mem [OF assms(4)], of "ev_subject ev"] assms(6,7) by simp
  obtain ok p1 d1 where en: "ensure_partition (af_partition f) EVENTS_TABLE (ev_occurred ev) (p, aw_db w) = (ok, (p1, d1))"
    by (metis surj_pair)
  have ok: "ok" "ad_events d1 = ad_events (aw_db w)"
    using en assms(8) by (auto simp: ensure_partition_def Let_def split: if_splits)
  obtain b d2 where ins: "insert_event e ev d1 = (b, d2)" by (rule prod.exhaust)
  have "store_event e f ev (p, aw_db w) = (count_write (ev_type ev) b p1, d2)"
    using en ok ins assms(9) by (simp add: store_event_def)
  then have db: "aw_db ?w = d2"
    using assms(4,5,7) by (simp add: take_turn_def call_step_def p_def Let_def)
  have "\<exists>x \<in> set (ad_events d2). ev_subject x = s \<and> ev_key x = ev_key ev"
  proof (cases "key_taken e ev d1")
    case True
    then have "\<exists>x \<in> set (ad_events d1). ev_subject x = s \<and> ev_key x = ev_key ev"
      using assms(1,10) ok(2) ev by (fastforce simp: key_taken_def claims_keys_def list_ex_iff)
    with insert_event_cases [OF ins] True show ?thesis by auto
  next
    case False
    with insert_event_cases [OF ins] ev show ?thesis by auto
  qed
  with db owned_step [OF assms(2), of "Turn i f now"] move_keys_once [OF assms(1,3), of "Turn i f now"] assms(1)
  show ?thesis by (simp add: reported_def)
qed

text \<open>
  C40.  A report is recorded once.  In any history of any processes that does not erase the user, let a
  call about to store an event of the user take its turn with nothing failing, where no other user's event
  holds the same key at the same instant.  Then after every further history, however many retries of it
  any process is sent, at any time and with any failures, exactly one event of the user has its key.
\<close>

theorem report_recorded_once:
  assumes "ids_unique e" "claims_keys e" "started w0" "links_ok e (aw_db w0)" "keys_once (aw_db w0)"
    and "map_of (ad_subjects (aw_db w0)) u = Some s" "list_all (\<lambda>m. \<not> erases u m) ms" "w = act_run e ms w0"
    and "i < length (aw_writers w)" "wr_process (aw_writers w ! i) < length (aw_processes w)"
    and "wr_user (aw_writers w ! i) = u" "wr_pc (aw_writers w ! i) = HasEvent ev" "\<not> af_partition f" "af_write f = None"
    and "\<not> (\<exists>x \<in> set (ad_events (aw_db w)). ev_subject x \<noteq> s \<and> ev_occurred x = ev_occurred ev \<and> ev_key x = ev_key ev)"
    and "list_all (\<lambda>m. \<not> erases u m) ms'"
  shows "length (filter (\<lambda>x. ev_subject x = s \<and> ev_key x = ev_key ev)
      (ad_events (aw_db (act_run e (Turn i f now # ms') w)))) = 1"
proof -
  have o: "owned_by e u s w"
    unfolding assms(8) act_run_def using linked.foldl_inv [OF started_owned [OF assms(1,3,4,6)] assms(7)] .
  have k: "keys_once (aw_db w)" unfolding assms(8) act_run_def
    using assms(2,5) move_keys_once by (induction ms arbitrary: w0) auto
  from stored_turn [OF assms(2) o k assms(9-15)]
  have "reported e u s (ev_key ev) (act_move_step e (Turn i f now) w)" .
  from recorded.foldl_inv [OF this assms(16)] have "reported e u s (ev_key ev) (act_run e (Turn i f now # ms') w)"
    by (simp add: act_run_def)
  then show ?thesis by (rule reported_once)
qed


section \<open>Concrete histories\<close>

definition sample_world :: act_world where
  "sample_world = \<lparr>aw_db = empty_act_db\<lparr>ad_next := 1, ad_subjects := [(''a'', ''u'')]\<rparr>,
     aw_processes = [new_process, new_process], aw_writers = []\<rparr>"

definition sample_turn :: "nat \<Rightarrow> act_move" where
  "sample_turn i = Turn i no_faults (2026, 3, 7)"

definition sample_sent :: "act_move list" where
  "sample_sent = [Call 0 ''a'' (EventCall sample_outcome), sample_turn 0, sample_turn 0]"

definition sample_again :: "act_move list" where
  "sample_again = [Call 1 ''a'' (EventCall sample_outcome), sample_turn 1, sample_turn 1, sample_turn 1]"

lemma sample_world_laws:
  "started sample_world" "links_ok sample_act_env (aw_db sample_world)" "keys_once (aw_db sample_world)"
  "map_of (ad_subjects (aw_db sample_world)) ''a'' = Some ''u''"
  by (auto simp: sample_world_def started_def fresh_process_def new_process_def links_ok_def generated_def sample_act_env_def
      keys_once_def empty_act_db_def split: if_splits)

lemma sample_no_erasure: "list_all (\<lambda>m. \<not> erases u m) sample_sent" "list_all (\<lambda>m. \<not> erases u m) sample_again"
  "list_all (\<lambda>m. \<not> erases u m) (sample_sent @ [sample_turn 0])"
  by (simp_all add: sample_sent_def sample_again_def sample_turn_def)

lemma answered_holds_none: "case pc of Answered ids \<Rightarrow> True | _ \<Rightarrow> False \<Longrightarrow> pc_subjects pc = {}"
  by (cases pc) simp_all

theorem report_recorded_once_witness:
  "length (filter (\<lambda>x. ev_subject x = ''u'' \<and> ev_key x = ''fit.opened:i1'')
      (ad_events (aw_db (act_run sample_act_env (sample_turn 0 # sample_again) (act_run sample_act_env sample_sent sample_world))))) = 1"
proof -
  let ?w = "act_run sample_act_env sample_sent sample_world"
  have at: "length (aw_writers ?w) = 1 \<and> length (aw_processes ?w) = 2 \<and> wr_process (aw_writers ?w ! 0) = 0
      \<and> wr_user (aw_writers ?w ! 0) = ''a'' \<and> ad_events (aw_db ?w) = []" by code_simp
  have "case wr_pc (aw_writers ?w ! 0) of HasEvent x \<Rightarrow> ev_key x = ''fit.opened:i1'' | pc \<Rightarrow> False" by code_simp
  then obtain x where x: "wr_pc (aw_writers ?w ! 0) = HasEvent x" "ev_key x = ''fit.opened:i1''" by (auto split: act_pc.splits)
  have "\<not> af_partition no_faults" "af_write no_faults = None" by (simp_all add: no_faults_def)
  with report_recorded_once [OF sample_env_laws(1,2) sample_world_laws sample_no_erasure(1) refl, of 0 x no_faults sample_again "(2026, 3, 7)"]
    at x sample_no_erasure(2)
  show ?thesis by (simp add: sample_turn_def)
qed


text \<open>
  The condition on the other processes is needed: one that has the pseudonym cached writes under it
  after the erasure.
\<close>

lemma stale_peer_writes_after_erasure:
  "let w = act_run sample_act_env [Call 1 ''a'' (EventCall sample_outcome), sample_turn 0] sample_world;
       w' = act_run sample_act_env [Call 1 ''a'' (EventCall sample_outcome), sample_turn 1, sample_turn 1, sample_turn 1]
            (act_move_step sample_act_env (Erase 0 False (2026, 4, 1) ''h'' ''a'') w)
   in map ev_subject (ad_events (aw_db w')) = [''u''] \<and> map_of (ad_subjects (aw_db w')) ''a'' = None"
  by code_simp

end
