(* ===== verification/Spec2Isabelle.thy ===== *)
theory Spec2Isabelle
  imports Strata_Properties Strata_Cache Rarity_Properties Fit_Properties Reattach_Properties Auth_Properties Valkey_Properties Cache_Budget_Properties Explore_Properties Sync_Outcome Snapshot_Properties Activity_Runs_Properties
begin

text \<open>
  A verification library for the catalog API of GrooveMap, a FastAPI service over a music graph in
  Neo4j, its own tables in PostgreSQL, and caches, deny lists and snapshots in Valkey.

  \<^bold>\<open>The program and its parts.\<close>  A request passes the authentication of \<open>src/api/auth.py\<close> and
  \<open>src/api/dependencies.py\<close> (a session token, or an app token of \<open>src/api/app_tokens.py\<close>), which
  reads deny entries from Valkey under the keys of \<open>src/api/valkey_keys.py\<close>.  It is then answered
  from the graph: the strata view of a catalog (\<open>src/api/strata.py\<close>), the rarity of a release
  (\<open>src/api/rarity/\<close>), the fit of a candidate to a collection (\<open>src/api/fit.py\<close>), the discoveries
  around an entity (\<open>src/api/explore_discovery.py\<close>).  Costly answers are kept in Valkey under a key
  budget (\<open>src/api/cache_budget.py\<close>), and a client can store a snapshot of its graph
  (\<open>src/api/snapshot_store.py\<close>).  In the background a user's Discogs collection is synchronised
  into the tables and the graph (\<open>src/api/syncer.py\<close>), and catalog items that turn out to be one are
  merged (\<open>src/api/catalog_merge.py\<close>), which is what the re-attachment job does item by item
  (\<open>src/api/reattach.py\<close>, accounted for in \<open>src/api/audit_log.py\<close>).  What users are shown and do is
  recorded under a pseudonym, with the purposes they consented to, and can be erased and exported
  (\<open>src/api/activity.py\<close>, \<open>src/api/routers/activity.py\<close>).

  \<^bold>\<open>The theories.\<close>  Each part has theories that define it, named after the code's functions and in
  the code's order, and a theory of its properties.

  \<^item> \<open>Prelude\<close>: the errors-as-values type \<open>result\<close> (an \<open>Inl\<close> is what the code raises), Python's
    strings, insertion-ordered dictionaries, grouping, multisets of lists, first minimum and first
    success; and the interfaces \<open>dictionary\<close>, \<open>paging\<close> and \<open>history\<close>.

  \<^item> \<open>Strata_Ladder\<close>, \<open>Strata_Focus\<close>, \<open>Strata_Fit\<close>, \<open>Strata_Render\<close>, \<open>Strata_Cache\<close>,
    \<open>Strata_Properties\<close> are all of \<open>src/api/strata.py\<close>: \<open>build_ladder\<close> is \<open>_Ladder.__init__\<close>,
    \<open>resolve_focus\<close> parses a cursor and fixes its page size, \<open>fit\<close> and \<open>plan_releases\<close> choose what is
    drawn and what is folded on the three planes (credits, masters, releases), \<open>render\<close> and
    \<open>build_strata\<close> give the payload, \<open>apply_labels\<close> puts in the names, \<open>encode_catalog\<close> and
    \<open>decode_catalog\<close> are the cached form.  The fold reads the ladder only through the locale
    \<open>ladder_index\<close>, interpreted on every ladder the constructor builds; the pages of a cursor are an
    interpretation of \<open>paging\<close>.  Shown: a validated budget is always answered, within the budget of
    each plane; no release is lost or shown twice; counts add up; parents are drawn; pages partition
    their set; every aggregate is a cursor for what it folds; a caller who is not signed in sees no
    collector field; the cached form round-trips.

  \<^item> \<open>Rarity_Core\<close> (\<open>rarity/core.py\<close>), \<open>Rarity_Families\<close> (\<open>rarity/families/\<close>,
    \<open>rarity/composite.py\<close>), \<open>Rarity_Properties\<close>: score tables, media resolution, signals and weights.
    The protocol of a family module is the locale \<open>family_signals\<close>, interpreted on the grooved
    module; what scoring needs of a registry is \<open>rarity_registry\<close>, interpreted on the installed one.
    Shown: renormalised weights are proportional and sum to one, scores stay on 0 to 100.

  \<^item> \<open>Fit_Collection\<close> (the fold of \<open>queries/fit_queries.py\<close>), \<open>Fit\<close> (\<open>fit.py\<close>),
    \<open>Fit_Properties\<close>: the five components and their evidence.  Shown: evidence is true of the
    collection, redundancy is the strongest case that holds, bridged regions are separate and
    maximal, and which fields of the fold depend on the order of the rows.

  \<^item> \<open>Catalog_Merge\<close>, \<open>Catalog_Merge_Properties\<close>: the tables of \<open>catalog_merge.py\<close> as lists of
    records, each statement a function on them, the merge and its exact reversal.  The locale
    \<open>transaction\<close> (runs with increasing start times, each committed or rolled back, keep an invariant)
    is interpreted on them and again on the re-attachment.  Shown: resolution stays one hop through any history, a merge
    implements the redirection of the abstract resolution map, moves and ledgers exactly its
    dependents, and is undone exactly by its revert.

  \<^item> \<open>Reattach\<close>, \<open>Reattach_Properties\<close>: the census, the candidate pages, one item's transaction, the
    tally, the paging run and its audit entry.  The run ends because each page leaves fewer keys after
    its cursor, which is its termination measure.  Shown: what an item's transaction does, that a run
    visits each item once and leaves no candidate behind its cursor, and that an applying run is
    audited exactly once or writes nothing.

  \<^item> \<open>Valkey_Keys\<close>, \<open>Valkey_Properties\<close>: modes, windows and shapes of the key upgrade, the fallback
    of deny reads to unprefixed keys with the module's state, and the startup migration.  Shown, over
    any history of reads (\<open>history\<close>): the window covers every token and closes; the migration loses
    and overwrites nothing.

  \<^item> \<open>Auth\<close>, \<open>App_Tokens\<close>, \<open>Auth_Properties\<close>: base64url, decoding and minting of tokens,
    revocation, the policy and the user dependencies; the token table, its operations and endpoints.
    Shown: an accepted token passed the whole policy; a revoked app token is refused for ever,
    whatever else happens (\<open>history\<close>, twice).

  \<^item> \<open>Cache_Budget\<close>, \<open>Cache_Budget_Properties\<close>: a writer is a machine that sends one Valkey command
    at a step, so that writers interleave anywhere.  Alone, the three structures implement one
    bounded map; together, every writer stops within 31 turns (what five attempts at evicting and
    the commands around them come to).

  \<^item> \<open>Explore\<close>, \<open>Explore_Properties\<close>: breadth-first expansion and the choice of a hundred.  Shown: it
    finds exactly the nodes within reach at their graph distance, each with the least of its
    shortest paths; the selection is the first hundred of one total order.

  \<^item> \<open>Sync\<close> (a page in PostgreSQL and in the graph), \<open>Sync_Run\<close> (paging, sweeps, snapshot, full
    sync, history), \<open>Sync_Loop\<close> (the loop on its own, with the locale \<open>paged_sync\<close>), \<open>Sync_Tables\<close>
    (the invariant), \<open>Sync_Samples\<close>, \<open>Sync_Properties\<close>, \<open>Sync_Mirror\<close> (the locale
    \<open>stamped_table\<close>, interpreted on both kinds of edge and on the wantlist), \<open>Sync_Outcome\<close>: all of
    \<open>syncer.py\<close> but the OAuth signature.  The loop takes fuel, one unit for a request; with \<open>n\<close> pages
    announced at most, \<open>6 * n\<close> is enough, since a page is asked for once and, when limited, five
    times more.  Shown: a completed run leaves exactly the listing, a failed one loses nothing, the
    events are the difference, a second run changes nothing, tables stay well formed however a run
    ends, and the history tells how it ended.

  \<^item> \<open>Snapshot_Store\<close>, \<open>Snapshot_Properties\<close>: a save as a machine of at most five commands, any
    number of them interleaved with refusals and passing time; load and both endpoints.  Shown: the
    true bound of the quota, and that a save on its own is all or nothing.

  \<^item> \<open>Activity\<close> (\<open>activity.py\<close>), \<open>Activity_Account\<close> (\<open>routers/activity.py\<close>, with
    \<open>invalidate_user\<close> of \<open>cache.py\<close>), \<open>Activity_Runs\<close> (the processes of the service, whose calls
    interleave between their awaits), \<open>Activity_Properties\<close>, \<open>Activity_Account_Properties\<close>,
    \<open>Activity_Runs_Properties\<close>: a function takes the process, with its caches and counters, and the
    database.  An uninterrupted call of \<open>Activity_Runs\<close> is the function of the code (lemmas \<open>alone_event\<close>,
    \<open>alone_batch\<close>, \<open>alone_list\<close>).  Shown: every call is accounted for, an id handed out names a stored
    impression, consent is the last decision, what an erasure leaves and an export holds, and, over any
    history of all processes (\<open>history\<close>), that an erased pseudonym stays empty unless somebody still
    held it (lemma \<open>stale_peer_writes_after_erasure\<close> is a history where one did) and that a report is
    recorded once.

  \<^bold>\<open>Conventions.\<close>  Definitions compute.  A Python \<open>str\<close> is a character list, an \<open>int\<close> an \<open>int\<close>, a
  \<open>float\<close> of a score an exact rational: orders and equalities between scores are those of the exact
  values, and \<open>round\<close> is applied to them; that floats round on the way is not modelled.  A raise is
  an \<open>Inl\<close>.  A table is a list of records in storage order, and a statement a function on it.  What
  is not under \<open>src/api\<close> is an argument: \<open>now()\<close> and generated ids, random text, SHA-256, HMAC and
  JSON text, the \<open>common\<close> package (key prefix, media vocabulary, alias resolution), the Discogs API
  and every failure of a server.

  \<^bold>\<open>Simplifications.\<close>  A query of the sync fails as a whole, before or instead of its effect, once
  for each place the code awaits it; in the sync the event recorder accepts every event and is not
  cancelled between two of them.  An erasure's steps in one process are one move of the interleaved
  service, without its own event; the whole endpoint is \<open>request_erasure\<close>.  Valkey's clock counts seconds, and a command is atomic.  PostgreSQL's row
  locks are not modelled: a transaction of the merge is one step, as its lock order makes it.

  \<^bold>\<open>Not modelled.\<close>  The request routers beside those named above (\<open>src/api/routers/\<close>), which check
  parameters, call a query and shape JSON; the text of Cypher and SQL (\<open>src/api/queries/\<close>), which the
  databases run; password hashing, Fernet, HKDF and TOTP, which are calls of libraries; the start-up
  and configuration (\<open>api.py\<close>, \<open>config.py\<close>, \<open>setup.py\<close>) and the pydantic declarations
  (\<open>models.py\<close>); telemetry and logging; the extraction reports, which read files; the identity
  ledger's backfills and the smaller stores (the rest of \<open>cache.py\<close>, \<open>projection.py\<close>, \<open>genre_tree_store.py\<close>);
  the language-model agent (\<open>src/api/nlq/\<close>), whose behaviour is the model's; the offline evaluation
  of recommenders; generated contracts, scripts and performance tests.
\<close>

end
